(* ===== verification/C_Prelude.thy ===== *)
theory C_Prelude
  imports Main "HOL-Library.Word" "HOL-Library.Multiset"
begin

text \<open>
  Shared vocabulary of the development: the outcome type of C code that may
  abort, C strings in memory (NUL-terminated character arrays), the decimal
  conversions of \<^verbatim>\<open>printf\<close> and \<^verbatim>\<open>atol\<close>, and reads and writes of byte sequences at
  an offset.  The lemma collection \<open>clib\<close> holds the rewrite rules for these
  library functions.
\<close>

named_theorems clib \<open>rewrite rules for the C library functions\<close>
named_theorems layout \<open>lengths and offsets of stored byte sequences\<close>

section \<open>Outcomes of code that may abort\<close>

text \<open>
  A call either aborts (the process ends in \<^verbatim>\<open>err_dump\<close>, \<^verbatim>\<open>err_quit\<close> or
  \<^verbatim>\<open>err_sys\<close>) or returns a value; \<open>andthen\<close> runs the next statement after a
  call that returned.
\<close>

definition andthen :: "'e + 'a \<Rightarrow> ('a \<Rightarrow> 'e + 'b) \<Rightarrow> 'e + 'b" where
  "andthen r f = (case r of Inl e \<Rightarrow> Inl e | Inr x \<Rightarrow> f x)"

lemma andthen_simps [simp]:
  "andthen (Inl e) f = Inl e"
  "andthen (Inr x) f = f x"
  by (simp_all add: andthen_def)

lemma andthen_Inr_iff: "andthen r f = Inr y \<longleftrightarrow> (\<exists>x. r = Inr x \<and> f x = Inr y)"
  by (cases r) auto

lemma andthen_Inl_iff:
  "andthen r f = Inl e \<longleftrightarrow> r = Inl e \<or> (\<exists>x. r = Inr x \<and> f x = Inl e)"
  by (cases r) auto

lemma andthen_assoc: "andthen (andthen r f) g = andthen r (\<lambda>x. andthen (f x) g)"
  by (cases r) auto

text \<open>\<open>yields P E r\<close>: what holds when the call returned (\<open>P\<close>) and when it did not (\<open>E\<close>).\<close>

definition yields :: "('a \<Rightarrow> bool) \<Rightarrow> ('e \<Rightarrow> bool) \<Rightarrow> 'e + 'a \<Rightarrow> bool" where
  "yields P E r \<longleftrightarrow> (case r of Inl e \<Rightarrow> E e | Inr x \<Rightarrow> P x)"

lemma yields_simps [simp]: "yields P E (Inl e) = E e" "yields P E (Inr x) = P x"
  by (simp_all add: yields_def)

lemma yields_andthen: "yields P E r \<Longrightarrow> (\<And>x. P x \<Longrightarrow> yields Q E (f x)) \<Longrightarrow> yields Q E (andthen r f)"
  by (cases r) auto

lemma yields_andthen_pair:
  "yields (\<lambda>(b, s). P s) E r \<Longrightarrow> (\<And>b s. P s \<Longrightarrow> yields Q E (f b s)) \<Longrightarrow> yields Q E (andthen r (\<lambda>(b, s). f b s))"
  by (cases r) auto

lemma yields_if: "(c \<Longrightarrow> yields P E a) \<Longrightarrow> (\<not> c \<Longrightarrow> yields P E b) \<Longrightarrow> yields P E (if c then a else b)"
  by simp

lemma yields_mono: "yields P E r \<Longrightarrow> (\<And>x. P x \<Longrightarrow> Q x) \<Longrightarrow> (\<And>e. E e \<Longrightarrow> F e) \<Longrightarrow> yields Q F r"
  by (cases r) auto

lemma yieldsD: "yields P E r \<Longrightarrow> r = Inr x \<Longrightarrow> P x" "yields P E r \<Longrightarrow> r = Inl e \<Longrightarrow> E e"
  by auto

section \<open>C strings\<close>

abbreviation NUL :: char where "NUL \<equiv> CHR 0x00"

type_synonym cbuf = "char list"

definition c_string :: "string \<Rightarrow> bool" where
  "c_string s \<longleftrightarrow> NUL \<notin> set s"

definition cstr :: "cbuf \<Rightarrow> string" where
  "cstr b = takeWhile (\<lambda>c. c \<noteq> NUL) b"

text \<open>The index of the first \<open>c\<close> before the terminating NUL, as \<^verbatim>\<open>strchr\<close> finds it.\<close>

fun strchr :: "cbuf \<Rightarrow> char \<Rightarrow> nat option" where
  "strchr [] c = None"
| "strchr (x # xs) c =
     (if x = c then Some 0 else if x = NUL then None else map_option Suc (strchr xs c))"

lemma cstr_append_NUL [clib]: "c_string s \<Longrightarrow> cstr (s @ NUL # r) = s"
  by (auto simp: cstr_def c_string_def takeWhile_append)

lemma cstr_c_string [simp]: "c_string (cstr b)"
  unfolding c_string_def cstr_def by (auto dest: set_takeWhileD)

lemma c_string_append [simp]: "c_string (s @ t) \<longleftrightarrow> c_string s \<and> c_string t"
  by (auto simp: c_string_def)

lemma c_string_Cons [simp]: "c_string (c # t) \<longleftrightarrow> c \<noteq> NUL \<and> c_string t"
  by (auto simp: c_string_def)

lemma c_string_Nil [simp]: "c_string []"
  by (simp add: c_string_def)

lemma c_string_replicate [simp]: "c \<noteq> NUL \<Longrightarrow> c_string (replicate n c)"
  by (simp add: c_string_def)

lemma strchr_found [clib]:
  "c_string s \<Longrightarrow> c \<notin> set s \<Longrightarrow> strchr (s @ c # r) c = Some (length s)"
  by (induction s) auto

lemma strchr_absent [clib]:
  "c_string s \<Longrightarrow> c \<notin> set s \<Longrightarrow> c \<noteq> NUL \<Longrightarrow> strchr (s @ NUL # r) c = None"
  by (induction s) auto

lemma strchr_less: "strchr b c = Some i \<Longrightarrow> i < length b \<and> b ! i = c"
  by (induction b arbitrary: i) (auto split: if_splits)

section \<open>Decimal conversions\<close>

definition digit :: "nat \<Rightarrow> char" where
  "digit d = char_of (48 + d)"

definition isdigit :: "char \<Rightarrow> bool" where
  "isdigit c \<longleftrightarrow> 48 \<le> (of_char c :: nat) \<and> (of_char c :: nat) \<le> 57"

definition isspace :: "char \<Rightarrow> bool" where
  "isspace c \<longleftrightarrow> c = CHR '' '' \<or> (9 \<le> (of_char c :: nat) \<and> (of_char c :: nat) \<le> 13)"

definition digit_val :: "char \<Rightarrow> nat" where
  "digit_val c = of_char c - 48"

text \<open>\<^verbatim>\<open>%u\<close>: the digits of a natural number, most significant first.\<close>

fun dec :: "nat \<Rightarrow> string" where
  "dec n = (if n < 10 then [digit n] else dec (n div 10) @ [digit (n mod 10)])"

declare dec.simps [simp del]

definition digits_val :: "string \<Rightarrow> nat" where
  "digits_val s = foldl (\<lambda>v c. v * 10 + digit_val c) 0 s"

text \<open>\<^verbatim>\<open>%d\<close> and \<^verbatim>\<open>%lld\<close>, and a field padded on the left to a width (\<^verbatim>\<open>%*d\<close>).\<close>

definition sdec :: "int \<Rightarrow> string" where
  "sdec i = (if i < 0 then CHR ''-'' # dec (nat (- i)) else dec (nat i))"

definition pad_left :: "nat \<Rightarrow> string \<Rightarrow> string" where
  "pad_left w s = replicate (w - length s) (CHR '' '') @ s"

text \<open>\<^verbatim>\<open>atol\<close> and \<^verbatim>\<open>atoi\<close>: white space, an optional sign, then digits.\<close>

definition atol :: "cbuf \<Rightarrow> int" where
  "atol b =
     (let s = dropWhile isspace b
      in case s of
           [] \<Rightarrow> 0
         | c # t \<Rightarrow>
             if c = CHR ''-'' then - int (digits_val (takeWhile isdigit t))
             else if c = CHR ''+'' then int (digits_val (takeWhile isdigit t))
             else int (digits_val (takeWhile isdigit s)))"

lemma of_char_digit: "d < 10 \<Longrightarrow> (of_char (digit d) :: nat) = 48 + d"
  by (simp add: digit_def)

lemma isdigit_digit [simp]: "d < 10 \<Longrightarrow> isdigit (digit d)"
  by (simp add: isdigit_def of_char_digit)

lemma digit_val_digit [simp]: "d < 10 \<Longrightarrow> digit_val (digit d) = d"
  by (simp add: digit_val_def of_char_digit)

lemma digit_val_less [simp]: "isdigit c \<Longrightarrow> digit_val c < 10"
  by (auto simp: digit_val_def isdigit_def)

lemma digit_digit_val: "isdigit c \<Longrightarrow> digit (digit_val c) = c"
  by (auto simp: digit_def digit_val_def isdigit_def)

lemma isdigit_dec: "c \<in> set (dec n) \<Longrightarrow> isdigit c"
proof (induction n rule: dec.induct)
  case (1 n)
  then show ?case
    by (subst (asm) (2) dec.simps) (auto split: if_splits)
qed

lemma dec_nonempty [simp]: "dec n \<noteq> []"
  by (subst dec.simps) simp

lemma digits_val_append [simp]:
  "digits_val (s @ [c]) = digits_val s * 10 + digit_val c"
  by (simp add: digits_val_def)

lemma digits_val_dec [simp]: "digits_val (dec n) = n"
proof (induction n rule: dec.induct)
  case (1 n)
  show ?case
  proof (cases "n < 10")
    case True
    then show ?thesis by (simp add: dec.simps [of n] digits_val_def)
  next
    case False
    with 1 show ?thesis by (simp add: dec.simps [of n])
  qed
qed

lemma dec_inject [simp]: "dec m = dec n \<longleftrightarrow> m = n"
  by (metis digits_val_dec)

lemma length_dec_le: "n < 10 ^ k \<Longrightarrow> 0 < k \<Longrightarrow> length (dec n) \<le> k"
proof (induction n arbitrary: k rule: dec.induct)
  case (1 n)
  show ?case
  proof (cases "n < 10")
    case True
    with 1 show ?thesis by (simp add: dec.simps [of n])
  next
    case False
    with "1.prems" obtain j where j: "k = Suc j" "0 < j"
      by (cases k; cases "k - 1") auto
    with "1.prems" have "n div 10 < 10 ^ j" by (simp add: less_mult_imp_div_less)
    with False j "1.IH" have "length (dec (n div 10)) \<le> j" by simp
    with False j show ?thesis by (simp add: dec.simps [of n])
  qed
qed

lemma length_dec_pos [simp]: "0 < length (dec n)"
  by simp

lemma dec_not_special:
  "NUL \<notin> set (dec n)" "CHR '':'' \<notin> set (dec n)" "CHR ''.'' \<notin> set (dec n)"
  "CHR 0x0A \<notin> set (dec n)" "CHR '' '' \<notin> set (dec n)"
  by (auto dest!: isdigit_dec simp: isdigit_def)

lemma c_string_dec [simp]: "c_string (dec n)"
  by (simp add: c_string_def dec_not_special)

lemma sdec_int [simp]: "sdec (int n) = dec n"
  by (simp add: sdec_def)

lemma isdigit_not: "\<not> isdigit NUL" "\<not> isspace NUL" "isspace (CHR '' '')"
  "\<not> isdigit (CHR '':'')" "\<not> isdigit (CHR ''.'')" "\<not> isdigit (CHR 0x0A)"
  by (simp_all add: isdigit_def isspace_def)

lemma not_isspace_digit: "isdigit c \<Longrightarrow> \<not> isspace c"
  by (auto simp: isdigit_def isspace_def)

lemma takeWhile_digits [clib]:
  "\<not> isdigit c \<Longrightarrow> takeWhile isdigit (dec n @ c # r) = dec n"
  "takeWhile isdigit (dec n) = dec n"
  by (auto intro: isdigit_dec simp: takeWhile_append takeWhile_eq_all_conv)

lemma dropWhile_blank:
  "dropWhile isspace (replicate k (CHR '' '') @ s) = dropWhile isspace s"
  by (induction k) (auto simp: isdigit_not)

lemma dropWhile_dec: "dropWhile isspace (dec n @ r) = dec n @ r"
proof -
  obtain c t where ct: "dec n = c # t" by (cases "dec n") auto
  then have "isdigit c" using isdigit_dec [of c n] by simp
  with ct show ?thesis by (simp add: not_isspace_digit)
qed

lemma atol_pad_dec [clib]:
  assumes "r = [] \<or> \<not> isdigit (hd r)"
  shows "atol (pad_left w (dec n) @ r) = int n"
proof -
  obtain c t where ct: "dec n = c # t" by (cases "dec n") auto
  then have c: "isdigit c" using isdigit_dec [of c n] by simp
  have tw: "takeWhile isdigit (dec n @ r) = dec n"
    using assms by (cases r) (auto simp: clib)
  have "dropWhile isspace (pad_left w (dec n) @ r) = dec n @ r"
    by (simp add: pad_left_def dropWhile_blank dropWhile_dec)
  moreover have "c \<noteq> CHR ''-''" "c \<noteq> CHR ''+''" using c by (auto simp: isdigit_def)
  ultimately show ?thesis
    using tw digits_val_dec [of n] unfolding atol_def Let_def ct by simp
qed

lemma atol_dec [clib]:
  "r = [] \<or> \<not> isdigit (hd r) \<Longrightarrow> atol (dec n @ r) = int n"
  using atol_pad_dec [of r 0 n] by (simp add: pad_left_def)

lemma length_pad_left [layout]: "length s \<le> w \<Longrightarrow> length (pad_left w s) = w"
  by (simp add: pad_left_def)

section \<open>Bytes at an offset\<close>

definition pread :: "cbuf \<Rightarrow> nat \<Rightarrow> nat \<Rightarrow> cbuf" where
  "pread bs off n = take n (drop off bs)"

text \<open>
  A write starting past the end leaves a hole, which reads back as NUL bytes.
\<close>

definition pwrite :: "cbuf \<Rightarrow> nat \<Rightarrow> cbuf \<Rightarrow> cbuf" where
  "pwrite bs off s =
     take off (bs @ replicate (off - length bs) NUL) @ s @ drop (off + length s) bs"

lemma length_pwrite [layout]:
  "length (pwrite bs off s) = max (length bs) (off + length s)"
  by (auto simp: pwrite_def)

lemma pread_append [layout]:
  "length a = off \<Longrightarrow> length b = n \<Longrightarrow> pread (a @ b @ c) off n = b"
  by (auto simp: pread_def)

lemma pwrite_append [layout]:
  "length a = off \<Longrightarrow> length b' = length b \<Longrightarrow> pwrite (a @ b @ c) off b' = a @ b' @ c"
  by (auto simp: pwrite_def)

lemma pwrite_end [layout]: "length a = off \<Longrightarrow> pwrite a off b = a @ b"
  by (auto simp: pwrite_def)

lemma pread_pwrite_same: "pread (pwrite bs off s) off (length s) = s"
  by (simp add: pread_def pwrite_def)

lemma pread_pwrite_disjoint:
  assumes "off + length s \<le> o' \<or> o' + n \<le> off" "o' + n \<le> length bs"
  shows "pread (pwrite bs off s) o' n = pread bs o' n"
  using assms(1)
proof
  assume a: "off + length s \<le> o'"
  then have "drop o' (pwrite bs off s) = drop o' bs" using assms
    by (auto simp: pwrite_def not_le)
  then show ?thesis by (simp add: pread_def)
next
  assume a: "o' + n \<le> off"
  have "take (o' + n) (pwrite bs off s) = take (o' + n) bs" using a assms(2)
    by (auto simp: pwrite_def)
  then have "drop o' (take (o' + n) (pwrite bs off s)) = drop o' (take (o' + n) bs)"
    by simp
  then show ?thesis by (simp add: pread_def take_drop add.commute)
qed

section \<open>Copied strings\<close>

text \<open>\<^verbatim>\<open>strcpy\<close> into a buffer; \<^verbatim>\<open>strncpy\<close> fills up with null bytes and does not end a text that is too long.\<close>

definition strcpy :: "cbuf \<Rightarrow> string \<Rightarrow> cbuf" where
  "strcpy buf s = s @ NUL # drop (Suc (length s)) buf"

definition strncpy :: "cbuf \<Rightarrow> string \<Rightarrow> nat \<Rightarrow> cbuf" where
  "strncpy buf s n = take n (s @ replicate n NUL) @ drop n buf"

lemma cstr_strcpy [clib]: "c_string s \<Longrightarrow> cstr (strcpy buf s) = s"
  by (simp add: strcpy_def cstr_append_NUL)

lemma cstr_strncpy [clib]:
  assumes "c_string s" "length s < n"
  shows "cstr (strncpy buf s n) = s"
proof -
  obtain k where "n - length s = Suc k" using assms(2) by (cases "n - length s") auto
  then have "strncpy buf s n = s @ NUL # (replicate k NUL @ drop n buf)" using assms(2) by (simp add: strncpy_def)
  then show ?thesis using assms(1) by (simp add: cstr_append_NUL)
qed

section \<open>Updated lists\<close>

lemma nth_upd: "j < length xs \<Longrightarrow> xs[i := x] ! j = (if i = j then x else xs ! j)"
  by (cases "i < length xs") simp_all

lemma count_list_update:
  "i < length xs \<Longrightarrow> int (count_list (xs[i := g]) f) =
     int (count_list xs f) - (if xs ! i = f then 1 else 0) + (if g = f then 1 else 0)"
proof (induction xs arbitrary: i)
  case (Cons x xs)
  show ?case using Cons.prems Cons.IH [of "i - 1"] by (cases i) (auto split: if_splits)
qed simp

lemma mset_concat_update:
  "i < length xs \<Longrightarrow> mset (concat (map f (xs[i := x]))) + mset (f (xs ! i)) = mset (concat (map f xs)) + mset (f x)"
proof (induction xs arbitrary: i)
  case (Cons y ys)
  show ?case using Cons.prems Cons.IH [of "i - 1"] by (cases i) (auto simp: ac_simps)
qed simp

lemma sum_list_map_update:
  "i < length xs \<Longrightarrow> sum_list (map f (xs[i := x])) + (f (xs ! i) :: nat) = sum_list (map f xs) + f x"
proof (induction xs arbitrary: i)
  case (Cons y ys)
  show ?case using Cons.prems Cons.IH [of "i - 1"] by (cases i) auto
qed simp

end
