(* ===== verification/Posix_File.thy ===== *)
theory Posix_File
  imports C_Prelude
begin

text \<open>
  Open regular files as the sources use them: the contents, the offset of the
  descriptor, the byte-range locks the process holds and the environment's
  limits (a size limit that makes a write short, and lock requests that the
  system refuses).  \<open>lseek\<close>, \<open>os_read\<close>, \<open>os_write\<close> and \<open>lock_request\<close> follow
  \<^verbatim>\<open>lseek(2)\<close>, \<^verbatim>\<open>read(2)\<close>, \<^verbatim>\<open>write(2)\<close> and \<^verbatim>\<open>fcntl(2)\<close> on regular files.
\<close>

section \<open>Descriptors\<close>

datatype lock_type = F_RDLCK | F_WRLCK

record cfile =
  fbytes :: cbuf
  fpos :: nat
  flimit :: nat
  flocks :: "nat \<Rightarrow> lock_type option"
  frefuse :: "nat \<Rightarrow> nat \<Rightarrow> bool"

definition fopened :: "cbuf \<Rightarrow> nat \<Rightarrow> (nat \<Rightarrow> nat \<Rightarrow> bool) \<Rightarrow> cfile" where
  "fopened bs lim refuse =
     \<lparr>fbytes = bs, fpos = 0, flimit = lim, flocks = (\<lambda>_. None), frefuse = refuse\<rparr>"

datatype whence = SEEK_SET | SEEK_CUR | SEEK_END

definition lseek :: "cfile \<Rightarrow> int \<Rightarrow> whence \<Rightarrow> int \<times> cfile" where
  "lseek f off wh =
     (let p = (case wh of SEEK_SET \<Rightarrow> 0 | SEEK_CUR \<Rightarrow> int (fpos f)
               | SEEK_END \<Rightarrow> int (length (fbytes f))) + off
      in if p < 0 then (- 1, f) else (p, f\<lparr>fpos := nat p\<rparr>))"

definition os_read :: "cfile \<Rightarrow> nat \<Rightarrow> cbuf \<times> cfile" where
  "os_read f n =
     (let s = pread (fbytes f) (fpos f) n in (s, f\<lparr>fpos := fpos f + length s\<rparr>))"

text \<open>A write past the size limit is cut short there; with no room at all it fails.\<close>

definition os_write :: "cfile \<Rightarrow> cbuf \<Rightarrow> int \<times> cfile" where
  "os_write f s =
     (let w = take (flimit f - fpos f) s
      in if w = [] \<and> s \<noteq> [] then (- 1, f)
         else (int (length w),
               f\<lparr>fbytes := pwrite (fbytes f) (fpos f) w, fpos := fpos f + length w\<rparr>))"

text \<open>
  A record lock request.  Whether it is granted is the answer of \<^verbatim>\<open>lock_reg\<close>, the
  wrapper of \<^verbatim>\<open>fcntl\<close> that the sources only declare: it is the parameter \<open>frefuse\<close>
  of the file.  A granted request replaces whatever lock the process held on each
  byte of the range, as POSIX says; length 0 means up to any end of the file, and
  \<open>None\<close> unlocks.
\<close>

definition in_range :: "nat \<Rightarrow> nat \<Rightarrow> nat \<Rightarrow> bool" where
  "in_range off len i \<longleftrightarrow> off \<le> i \<and> (len = 0 \<or> i < off + len)"

definition lock_request :: "cfile \<Rightarrow> lock_type option \<Rightarrow> nat \<Rightarrow> nat \<Rightarrow> int \<times> cfile" where
  "lock_request f ty off len =
     (if frefuse f off len then (- 1, f)
      else (0, f\<lparr>flocks := (\<lambda>i. if in_range off len i then ty else flocks f i)\<rparr>))"

definition unlocked :: "cfile \<Rightarrow> bool" where
  "unlocked f \<longleftrightarrow> flocks f = (\<lambda>_. None)"

definition grants_locks :: "cfile \<Rightarrow> bool" where
  "grants_locks f \<longleftrightarrow> frefuse f = (\<lambda>_ _. False)"

section \<open>Rules\<close>

lemma lseek_set [clib]: "lseek f (int n) SEEK_SET = (int n, f\<lparr>fpos := n\<rparr>)"
  by (simp add: lseek_def)

lemma lseek_cur0 [clib]: "lseek f 0 SEEK_CUR = (int (fpos f), f)"
  by (simp add: lseek_def)

lemma lseek_end0 [clib]:
  "lseek f 0 SEEK_END = (int (length (fbytes f)), f\<lparr>fpos := length (fbytes f)\<rparr>)"
  by (simp add: lseek_def)

lemma os_read_at [clib]:
  "fbytes f = a @ b @ c \<Longrightarrow> fpos f = length a \<Longrightarrow> length b = n \<Longrightarrow>
   os_read f n = (b, f\<lparr>fpos := length a + n\<rparr>)"
  by (simp add: os_read_def layout)

lemma os_read_eof [clib]: "fpos f = length (fbytes f) \<Longrightarrow> os_read f n = ([], f)"
  by (simp add: os_read_def pread_def)

lemma os_write_fits [clib]:
  "fpos f + length s \<le> flimit f \<Longrightarrow>
   os_write f s = (int (length s),
     f\<lparr>fbytes := pwrite (fbytes f) (fpos f) s, fpos := fpos f + length s\<rparr>)"
  by (auto simp: os_write_def Let_def)

lemma os_write_count: "os_write f s = (n, f') \<Longrightarrow> n \<le> int (length s)"
  by (auto simp: os_write_def Let_def split: if_splits)

lemma lock_request_granted [clib]:
  "grants_locks f \<Longrightarrow> lock_request f ty off len =
     (0, f\<lparr>flocks := (\<lambda>i. if in_range off len i then ty else flocks f i)\<rparr>)"
  by (simp add: lock_request_def grants_locks_def)

lemma grants_locks_upd [simp]:
  "grants_locks (f\<lparr>flocks := l\<rparr>) = grants_locks f"
  "grants_locks (f\<lparr>fpos := p\<rparr>) = grants_locks f"
  "grants_locks (f\<lparr>fbytes := b\<rparr>) = grants_locks f"
  by (simp_all add: grants_locks_def)

end
