(* ===== verification/Db_Model.thy ===== *)
theory Db_Model
  imports Posix_File
begin

text \<open>
  The key-value library of \<^verbatim>\<open>apue.3e/db/db.c\<close>: a database is an index file (a
  free-list pointer, a hash table of chain pointers and a sequence of index
  records, all in ASCII) and a data file.  Every function of the source is a
  definition here, at the level of the bytes of the two files: it takes the
  \<open>DB\<close> structure and returns the new one, or an error when the source aborts.

  C string arguments are the characters before the terminating NUL.  The
  functions \<^verbatim>\<open>_db_xxx\<close> of the source are called \<open>db_xxx\<close>.
\<close>

section \<open>Data\<close>

type_synonym dbhash = "64 word"
type_synonym count = "64 word"

abbreviation IDXLEN_SZ :: nat where "IDXLEN_SZ \<equiv> 4"
abbreviation SEP :: char where "SEP \<equiv> CHR '':''"
abbreviation SPACE :: char where "SPACE \<equiv> CHR '' ''"
abbreviation NEWLINE :: char where "NEWLINE \<equiv> CHR 0x0A"
abbreviation PTR_SZ :: nat where "PTR_SZ \<equiv> 7"
abbreviation PTR_MAX :: int where "PTR_MAX \<equiv> 9999999"
abbreviation NHASH_DEF :: nat where "NHASH_DEF \<equiv> 137"
abbreviation FREE_OFF :: nat where "FREE_OFF \<equiv> 0"
abbreviation HASH_OFF :: nat where "HASH_OFF \<equiv> 7"
abbreviation IDXLEN_MIN :: nat where "IDXLEN_MIN \<equiv> 6"
abbreviation IDXLEN_MAX :: nat where "IDXLEN_MAX \<equiv> 1024"
abbreviation DATLEN_MIN :: nat where "DATLEN_MIN \<equiv> 2"
abbreviation DATLEN_MAX :: nat where "DATLEN_MAX \<equiv> 1024"
abbreviation DB_INSERT :: int where "DB_INSERT \<equiv> 1"
abbreviation DB_REPLACE :: int where "DB_REPLACE \<equiv> 2"
abbreviation DB_STORE :: int where "DB_STORE \<equiv> 3"

text \<open>
  How a call fails to return: the three fatal error functions, a write past the
  end of a buffer (undefined behaviour), and a loop that never ends.
\<close>

datatype db_error =
    Err_dump string
  | Err_quit string
  | Err_sys string
  | Buffer_overflow string
  | Never_returns

datatype errnum = E_NONE | EINVAL | ENOENT

record DB =
  idxfd :: cfile
  datfd :: cfile
  idxbuf :: cbuf
  datbuf :: cbuf
  db_name :: string
  idxoff :: int
  idxlen :: nat
  datoff :: int
  datlen :: nat
  ptrval :: int
  ptroff :: int
  chainoff :: int
  hashoff :: int
  nhash :: dbhash
  cnt_delok :: count
  cnt_delerr :: count
  cnt_fetchok :: count
  cnt_fetcherr :: count
  cnt_nextrec :: count
  cnt_stor1 :: count
  cnt_stor2 :: count
  cnt_stor3 :: count
  cnt_stor4 :: count
  cnt_storerr :: count
  db_errno :: errnum

text \<open>Conversion of a signed \<^verbatim>\<open>long\<close> to \<^verbatim>\<open>size_t\<close>.\<close>

definition size_t_of :: "int \<Rightarrow> nat" where
  "size_t_of i = nat (i mod 2 ^ 64)"

section \<open>Locks\<close>

definition idx_lock :: "string \<Rightarrow> lock_type option \<Rightarrow> int \<Rightarrow> nat \<Rightarrow> DB \<Rightarrow> db_error + DB" where
  "idx_lock msg ty off len db =
     (let (r, f) = lock_request (idxfd db) ty (nat off) len
      in if r < 0 then Inl (Err_dump msg) else Inr (db\<lparr>idxfd := f\<rparr>))"

definition dat_lock :: "string \<Rightarrow> lock_type option \<Rightarrow> int \<Rightarrow> nat \<Rightarrow> DB \<Rightarrow> db_error + DB" where
  "dat_lock msg ty off len db =
     (let (r, f) = lock_request (datfd db) ty (nat off) len
      in if r < 0 then Inl (Err_dump msg) else Inr (db\<lparr>datfd := f\<rparr>))"

section \<open>Reading\<close>

text \<open>A plain \<^verbatim>\<open>char\<close> is signed; its value times the 1-based position is an \<^verbatim>\<open>int\<close>.\<close>

definition char_val :: "char \<Rightarrow> int" where
  "char_val c = (if of_char c < (128::int) then of_char c else of_char c - 256)"

fun hash_loop :: "string \<Rightarrow> int \<Rightarrow> dbhash \<Rightarrow> dbhash" where
  "hash_loop [] i hval = hval"
| "hash_loop (c # key) i hval = hash_loop key (i + 1) (hval + word_of_int (char_val c * i))"

definition db_hash :: "DB \<Rightarrow> string \<Rightarrow> dbhash" where
  "db_hash db key = hash_loop key 1 0 mod nhash db"

definition db_readptr :: "DB \<Rightarrow> int \<Rightarrow> db_error + (int \<times> DB)" where
  "db_readptr db offset =
     (let (p, f) = lseek (idxfd db) offset SEEK_SET
      in if p = - 1 then Inl (Err_dump ''_db_readptr: lseek error to ptr field'')
         else let (asciiptr, f) = os_read f PTR_SZ
              in if length asciiptr \<noteq> PTR_SZ
                 then Inl (Err_dump ''_db_readptr: read error of ptr field'')
                 else Inr (atol (asciiptr @ [NUL]), db\<lparr>idxfd := f\<rparr>))"

text \<open>
  The second half of \<^verbatim>\<open>_db_readidx\<close>: the \<open>idxlen\<close> bytes just read are taken
  apart at the two separators, which become NUL bytes.
\<close>

definition db_parseidx :: "DB \<Rightarrow> cbuf \<Rightarrow> db_error + (int \<times> DB)" where
  "db_parseidx db buf =
     (if buf ! (idxlen db - 1) \<noteq> NEWLINE
      then Inl (Err_dump ''_db_readidx: missing newline'')
      else let buf = buf[idxlen db - 1 := NUL]
      in case strchr buf SEP of
           None \<Rightarrow> Inl (Err_dump ''_db_readidx: missing first separator'')
         | Some i1 \<Rightarrow>
      let buf = buf[i1 := NUL]; ptr1 = Suc i1
      in case strchr (drop ptr1 buf) SEP of
           None \<Rightarrow> Inl (Err_dump ''_db_readidx: missing second separator'')
         | Some i2 \<Rightarrow>
      let buf = buf[ptr1 + i2 := NUL]; ptr2 = Suc (ptr1 + i2)
      in if strchr (drop ptr2 buf) SEP \<noteq> None
         then Inl (Err_dump ''_db_readidx: too many separators'')
         else
      let db = db\<lparr>idxbuf := buf, datoff := atol (drop ptr1 buf)\<rparr>
      in if datoff db < 0 then Inl (Err_dump ''_db_readidx: starting offset < 0'')
         else
      let db = db\<lparr>datlen := size_t_of (atol (drop ptr2 buf))\<rparr>
      in if datlen db \<le> 0 \<or> datlen db > DATLEN_MAX
         then Inl (Err_dump ''_db_readidx: invalid length'')
         else Inr (ptrval db, db))"

definition db_readidx :: "DB \<Rightarrow> int \<Rightarrow> db_error + (int \<times> DB)" where
  "db_readidx db offset =
     (let (p, f) = lseek (idxfd db) offset (if offset = 0 then SEEK_CUR else SEEK_SET)
      in if p = - 1 then Inl (Err_dump ''_db_readidx: lseek error'')
         else
      let (hd, f) = os_read f (PTR_SZ + IDXLEN_SZ); db = db\<lparr>idxoff := p, idxfd := f\<rparr>
      in if length hd \<noteq> PTR_SZ + IDXLEN_SZ
         then (if length hd = 0 \<and> offset = 0 then Inr (- 1, db)
               else Inl (Err_dump ''_db_readidx: readv error of index record''))
         else
      let db = db\<lparr>ptrval := atol (take PTR_SZ hd @ [NUL]),
                  idxlen := size_t_of (atol (drop PTR_SZ hd @ [NUL]))\<rparr>
      in if idxlen db < IDXLEN_MIN \<or> idxlen db > IDXLEN_MAX
         then Inl (Err_dump ''_db_readidx: invalid length'')
         else
      let (buf, f) = os_read (idxfd db) (idxlen db); db = db\<lparr>idxfd := f\<rparr>
      in if length buf \<noteq> idxlen db
         then Inl (Err_dump ''_db_readidx: read error of index record'')
         else db_parseidx db buf)"

definition db_readdat :: "DB \<Rightarrow> db_error + (string \<times> DB)" where
  "db_readdat db =
     (let (p, f) = lseek (datfd db) (datoff db) SEEK_SET
      in if p = - 1 then Inl (Err_dump ''_db_readdat: lseek error'')
         else
      let (buf, f) = os_read f (datlen db); db = db\<lparr>datfd := f\<rparr>
      in if length buf \<noteq> datlen db then Inl (Err_dump ''_db_readdat: read error'')
         else if buf ! (datlen db - 1) \<noteq> NEWLINE
         then Inl (Err_dump ''_db_readdat: missing newline'')
         else let db = db\<lparr>datbuf := buf[datlen db - 1 := NUL]\<rparr>
              in Inr (cstr (datbuf db), db))"

text \<open>The search loop of \<^verbatim>\<open>_db_find_and_lock\<close>; \<open>None\<close> is a loop that never ends.\<close>

partial_function (option) find_loop ::
    "string \<Rightarrow> int \<Rightarrow> DB \<Rightarrow> (db_error + (int \<times> DB)) option" where
  "find_loop key offset db =
     (if offset = 0 then Some (Inr (offset, db))
      else case db_readidx db offset of
             Inl e \<Rightarrow> Some (Inl e)
           | Inr (nextoffset, db) \<Rightarrow>
               if cstr (idxbuf db) = key then Some (Inr (offset, db))
               else find_loop key nextoffset (db\<lparr>ptroff := offset\<rparr>))"

declare find_loop.simps [code]

definition returns :: "(db_error + 'a) option \<Rightarrow> db_error + 'a" where
  "returns r = (case r of None \<Rightarrow> Inl Never_returns | Some x \<Rightarrow> x)"

definition db_find_and_lock :: "DB \<Rightarrow> string \<Rightarrow> bool \<Rightarrow> db_error + (int \<times> DB)" where
  "db_find_and_lock db key writelock =
     (let db = db\<lparr>chainoff := sint (db_hash db key * word_of_nat PTR_SZ
                                    + word_of_int (hashoff db))\<rparr>;
          db = db\<lparr>ptroff := chainoff db\<rparr>
      in andthen (if writelock
                  then idx_lock ''_db_find_and_lock: writew_lock error''
                         (Some F_WRLCK) (chainoff db) 1 db
                  else idx_lock ''_db_find_and_lock: readw_lock error''
                         (Some F_RDLCK) (chainoff db) 1 db) (\<lambda>db.
         andthen (db_readptr db (ptroff db)) (\<lambda>(offset, db).
         andthen (returns (find_loop key offset db)) (\<lambda>(offset, db).
         Inr (if offset = 0 then - 1 else 0, db)))))"

definition db_fetch :: "DB \<Rightarrow> string \<Rightarrow> db_error + (string option \<times> DB)" where
  "db_fetch db key =
     andthen (db_find_and_lock db key False) (\<lambda>(r, db).
     andthen (if r < 0 then Inr (None, db\<lparr>cnt_fetcherr := cnt_fetcherr db + 1\<rparr>)
              else andthen (db_readdat db) (\<lambda>(ptr, db).
                   Inr (Some ptr, db\<lparr>cnt_fetchok := cnt_fetchok db + 1\<rparr>))) (\<lambda>(ptr, db).
     andthen (idx_lock ''db_fetch: un_lock error'' None (chainoff db) 1 db) (\<lambda>db.
     Inr (ptr, db))))"

section \<open>Writing\<close>

definition db_writeptr :: "DB \<Rightarrow> int \<Rightarrow> int \<Rightarrow> db_error + DB" where
  "db_writeptr db offset ptr =
     (if ptr < 0 \<or> ptr > PTR_MAX then Inl (Err_quit ''_db_writeptr: invalid ptr'')
      else let (p, f) = lseek (idxfd db) offset SEEK_SET
      in if p = - 1 then Inl (Err_dump ''_db_writeptr: lseek error to ptr field'')
         else let (n, f) = os_write f (pad_left PTR_SZ (sdec ptr))
              in if n \<noteq> int PTR_SZ then Inl (Err_dump ''_db_writeptr: write error of ptr field'')
                 else Inr (db\<lparr>idxfd := f\<rparr>))"

definition db_writedat :: "DB \<Rightarrow> string \<Rightarrow> int \<Rightarrow> whence \<Rightarrow> db_error + DB" where
  "db_writedat db data offset whence =
     andthen (if whence = SEEK_END
              then dat_lock ''_db_writedat: writew_lock error'' (Some F_WRLCK) 0 0 db
              else Inr db) (\<lambda>db.
     let (p, f) = lseek (datfd db) offset whence
     in if p = - 1 then Inl (Err_dump ''_db_writedat: lseek error'')
        else
     let db = db\<lparr>datoff := p, datlen := length data + 1\<rparr>;
         (n, f) = os_write f (data @ [NEWLINE]);
         db = db\<lparr>datfd := f\<rparr>
     in if n \<noteq> int (datlen db)
        then Inl (Err_dump ''_db_writedat: writev error of data record'')
        else if whence = SEEK_END
        then dat_lock ''_db_writedat: un_lock error'' None 0 0 db
        else Inr db)"

text \<open>
  \<^verbatim>\<open>sprintf\<close> fills \<open>idxbuf\<close>, which has room for \<open>IDXLEN_MAX + 2\<close> bytes, before
  the length is checked.  When a record is deleted the key is \<open>idxbuf\<close> itself; C leaves the result
  of \<^verbatim>\<open>sprintf\<close> undefined for a source that overlaps the destination.  Here the key is
  written as it was before the call, which is what an implementation does that copies
  a string onto itself byte by byte; the results about \<^verbatim>\<open>_db_dodelete\<close> are for such an implementation.
\<close>

definition db_writeidx :: "DB \<Rightarrow> string \<Rightarrow> int \<Rightarrow> whence \<Rightarrow> int \<Rightarrow> db_error + DB" where
  "db_writeidx db key offset whence ptr =
     (let db = db\<lparr>ptrval := ptr\<rparr>
      in if ptr < 0 \<or> ptr > PTR_MAX then Inl (Err_quit ''_db_writeidx: invalid ptr'')
         else
      let s = key @ [SEP] @ sdec (datoff db) @ [SEP] @ sdec (int (datlen db)) @ [NEWLINE]
      in if length s + 1 > IDXLEN_MAX + 2 then Inl (Buffer_overflow ''idxbuf'')
         else
      let db = db\<lparr>idxbuf := s @ [NUL]\<rparr>; len = length s
      in if len < IDXLEN_MIN \<or> len > IDXLEN_MAX
         then Inl (Err_dump ''_db_writeidx: invalid length'')
         else
      let asciiptrlen = pad_left PTR_SZ (sdec ptr) @ pad_left IDXLEN_SZ (dec len);
          lockoff = int ((unat (nhash db) + 1) * PTR_SZ + 1)
      in andthen (if whence = SEEK_END
                  then idx_lock ''_db_writeidx: writew_lock error'' (Some F_WRLCK) lockoff 0 db
                  else Inr db) (\<lambda>db.
      let (p, f) = lseek (idxfd db) offset whence
      in if p = - 1 then Inl (Err_dump ''_db_writeidx: lseek error'')
         else
      let (n, f) = os_write f (asciiptrlen @ s); db = db\<lparr>idxoff := p, idxfd := f\<rparr>
      in if n \<noteq> int (PTR_SZ + IDXLEN_SZ + len)
         then Inl (Err_dump ''_db_writeidx: writev error of index record'')
         else if whence = SEEK_END
         then idx_lock ''_db_writeidx: un_lock error'' None lockoff 0 db
         else Inr db))"

section \<open>Deleting\<close>

definition blank_cstr :: "cbuf \<Rightarrow> cbuf" where
  "blank_cstr b = replicate (length (cstr b)) SPACE @ drop (length (cstr b)) b"

definition db_dodelete :: "DB \<Rightarrow> db_error + DB" where
  "db_dodelete db =
     (let db = db\<lparr>datbuf := replicate (datlen db - 1) SPACE @ [NUL],
                  idxbuf := blank_cstr (idxbuf db)\<rparr>
      in andthen (idx_lock ''_db_dodelete: writew_lock error'' (Some F_WRLCK) (int FREE_OFF) 1 db) (\<lambda>db.
         andthen (db_writedat db (cstr (datbuf db)) (datoff db) SEEK_SET) (\<lambda>db.
         andthen (db_readptr db (int FREE_OFF)) (\<lambda>(freeptr, db).
         let saveptr = ptrval db in
         andthen (db_writeidx db (cstr (idxbuf db)) (idxoff db) SEEK_SET freeptr) (\<lambda>db.
         andthen (db_writeptr db (int FREE_OFF) (idxoff db)) (\<lambda>db.
         andthen (db_writeptr db (ptroff db) saveptr) (\<lambda>db.
         idx_lock ''_db_dodelete: un_lock error'' None (int FREE_OFF) 1 db)))))))"

definition db_delete :: "DB \<Rightarrow> string \<Rightarrow> db_error + (int \<times> DB)" where
  "db_delete db key =
     andthen (db_find_and_lock db key True) (\<lambda>(r, db).
     andthen (if r = 0
              then andthen (db_dodelete db) (\<lambda>db.
                   Inr (0, db\<lparr>cnt_delok := cnt_delok db + 1\<rparr>))
              else Inr (- 1, db\<lparr>cnt_delerr := cnt_delerr db + 1\<rparr>)) (\<lambda>(rc, db).
     andthen (idx_lock ''db_delete: un_lock error'' None (chainoff db) 1 db) (\<lambda>db.
     Inr (rc, db))))"

section \<open>Storing\<close>

partial_function (option) findfree_loop ::
    "nat \<Rightarrow> nat \<Rightarrow> int \<Rightarrow> int \<Rightarrow> DB \<Rightarrow> (db_error + (int \<times> int \<times> DB)) option" where
  "findfree_loop keylen dlen saveoffset offset db =
     (if offset = 0 then Some (Inr (saveoffset, offset, db))
      else case db_readidx db offset of
             Inl e \<Rightarrow> Some (Inl e)
           | Inr (nextoffset, db) \<Rightarrow>
               if length (cstr (idxbuf db)) = keylen \<and> datlen db = dlen
               then Some (Inr (saveoffset, offset, db))
               else findfree_loop keylen dlen offset nextoffset db)"

declare findfree_loop.simps [code]

definition db_findfree :: "DB \<Rightarrow> nat \<Rightarrow> nat \<Rightarrow> db_error + (int \<times> DB)" where
  "db_findfree db keylen dlen =
     andthen (idx_lock ''_db_findfree: writew_lock error'' (Some F_WRLCK) (int FREE_OFF) 1 db) (\<lambda>db.
     andthen (db_readptr db (int FREE_OFF)) (\<lambda>(offset, db).
     andthen (returns (findfree_loop keylen dlen (int FREE_OFF) offset db)) (\<lambda>(saveoffset, offset, db).
     andthen (if offset = 0 then Inr (- 1, db)
              else andthen (db_writeptr db saveoffset (ptrval db)) (\<lambda>db. Inr (0, db))) (\<lambda>(rc, db).
     andthen (idx_lock ''_db_findfree: un_lock error'' None (int FREE_OFF) 1 db) (\<lambda>db.
     Inr (rc, db))))))"

text \<open>The body of \<^verbatim>\<open>db_store\<close> between locking and unlocking the hash chain.\<close>

definition db_store_new :: "DB \<Rightarrow> string \<Rightarrow> string \<Rightarrow> db_error + DB" where
  "db_store_new db key data =
     andthen (db_readptr db (chainoff db)) (\<lambda>(ptr, db).
     andthen (db_findfree db (length key) (length data + 1)) (\<lambda>(r, db).
     if r < 0
     then andthen (db_writedat db data 0 SEEK_END) (\<lambda>db.
          andthen (db_writeidx db key 0 SEEK_END ptr) (\<lambda>db.
          andthen (db_writeptr db (chainoff db) (idxoff db)) (\<lambda>db.
          Inr (db\<lparr>cnt_stor1 := cnt_stor1 db + 1\<rparr>))))
     else andthen (db_writedat db data (datoff db) SEEK_SET) (\<lambda>db.
          andthen (db_writeidx db key (idxoff db) SEEK_SET ptr) (\<lambda>db.
          andthen (db_writeptr db (chainoff db) (idxoff db)) (\<lambda>db.
          Inr (db\<lparr>cnt_stor2 := cnt_stor2 db + 1\<rparr>))))))"

definition db_store_over :: "DB \<Rightarrow> string \<Rightarrow> string \<Rightarrow> db_error + DB" where
  "db_store_over db key data =
     (if length data + 1 \<noteq> datlen db
      then andthen (db_dodelete db) (\<lambda>db.
           andthen (db_readptr db (chainoff db)) (\<lambda>(ptr, db).
           andthen (db_writedat db data 0 SEEK_END) (\<lambda>db.
           andthen (db_writeidx db key 0 SEEK_END ptr) (\<lambda>db.
           andthen (db_writeptr db (chainoff db) (idxoff db)) (\<lambda>db.
           Inr (db\<lparr>cnt_stor3 := cnt_stor3 db + 1\<rparr>))))))
      else andthen (db_writedat db data (datoff db) SEEK_SET) (\<lambda>db.
           Inr (db\<lparr>cnt_stor4 := cnt_stor4 db + 1\<rparr>)))"

definition db_store :: "DB \<Rightarrow> string \<Rightarrow> string \<Rightarrow> int \<Rightarrow> db_error + (int \<times> DB)" where
  "db_store db key data flag =
     (if flag \<noteq> DB_INSERT \<and> flag \<noteq> DB_REPLACE \<and> flag \<noteq> DB_STORE
      then Inr (- 1, db\<lparr>db_errno := EINVAL\<rparr>)
      else if length data + 1 < DATLEN_MIN \<or> length data + 1 > DATLEN_MAX
      then Inl (Err_dump ''db_store: invalid data length'')
      else
      andthen (db_find_and_lock db key True) (\<lambda>(r, db).
      andthen (if r < 0
               then if flag = DB_REPLACE
                    then Inr (- 1, db\<lparr>cnt_storerr := cnt_storerr db + 1, db_errno := ENOENT\<rparr>)
                    else andthen (db_store_new db key data) (\<lambda>db. Inr (0, db))
               else if flag = DB_INSERT
                    then Inr (1, db\<lparr>cnt_storerr := cnt_storerr db + 1\<rparr>)
                    else andthen (db_store_over db key data) (\<lambda>db. Inr (0, db))) (\<lambda>(rc, db).
      andthen (idx_lock ''db_store: un_lock error'' None (chainoff db) 1 db) (\<lambda>db.
      Inr (rc, db)))))"

section \<open>Sequential access\<close>

definition db_rewind :: "DB \<Rightarrow> db_error + DB" where
  "db_rewind db =
     (let offset = int ((unat (nhash db) + 1) * PTR_SZ);
          (p, f) = lseek (idxfd db) (offset + 1) SEEK_SET
      in if p = - 1 then Inl (Err_dump ''db_rewind: lseek error'')
         else Inr (db\<lparr>idxoff := p, idxfd := f\<rparr>))"

partial_function (option) nextrec_loop :: "DB \<Rightarrow> (db_error + (bool \<times> DB)) option" where
  "nextrec_loop db =
     (case db_readidx db 0 of
        Inl e \<Rightarrow> Some (Inl e)
      | Inr (r, db) \<Rightarrow>
          if r < 0 then Some (Inr (False, db))
          else if \<forall>c \<in> set (cstr (idxbuf db)). c = SPACE then nextrec_loop db
          else Some (Inr (True, db)))"

declare nextrec_loop.simps [code]

definition db_nextrec :: "DB \<Rightarrow> db_error + ((string \<times> string) option \<times> DB)" where
  "db_nextrec db =
     andthen (idx_lock ''db_nextrec: readw_lock error'' (Some F_RDLCK) (int FREE_OFF) 1 db) (\<lambda>db.
     andthen (returns (nextrec_loop db)) (\<lambda>(more, db).
     andthen (if \<not> more then Inr (None, db)
              else let key = cstr (idxbuf db)
                   in andthen (db_readdat db) (\<lambda>(ptr, db).
                      Inr (Some (key, ptr), db\<lparr>cnt_nextrec := cnt_nextrec db + 1\<rparr>))) (\<lambda>(res, db).
     andthen (idx_lock ''db_nextrec: un_lock error'' None (int FREE_OFF) 1 db) (\<lambda>db.
     Inr (res, db)))))"

section \<open>Opening and closing\<close>

datatype oflag = O_RDONLY | O_RDWR | O_CREAT | O_EXCL | O_TRUNC

type_synonym filesystem = "string \<rightharpoonup> cbuf"

text \<open>
  \<^verbatim>\<open>open(2)\<close> of a regular file: \<open>None\<close> when it does not exist and is not to be
  created, or exists and must not.
\<close>

definition os_open :: "filesystem \<Rightarrow> string \<Rightarrow> oflag list \<Rightarrow> (cbuf \<times> filesystem) option" where
  "os_open fs path oflag =
     (case fs path of
        None \<Rightarrow> if O_CREAT \<in> set oflag then Some ([], fs(path \<mapsto> [])) else None
      | Some bs \<Rightarrow>
          if O_CREAT \<in> set oflag \<and> O_EXCL \<in> set oflag then None
          else if O_TRUNC \<in> set oflag then Some ([], fs(path \<mapsto> []))
          else Some (bs, fs))"

definition db_alloc :: "cfile \<Rightarrow> cfile \<Rightarrow> DB" where
  "db_alloc idx dat =
     \<lparr>idxfd = idx, datfd = dat, idxbuf = [], datbuf = [], db_name = [],
      idxoff = 0, idxlen = 0, datoff = 0, datlen = 0, ptrval = 0, ptroff = 0,
      chainoff = 0, hashoff = 0, nhash = 0, cnt_delok = 0, cnt_delerr = 0,
      cnt_fetchok = 0, cnt_fetcherr = 0, cnt_nextrec = 0, cnt_stor1 = 0, cnt_stor2 = 0,
      cnt_stor3 = 0, cnt_stor4 = 0, cnt_storerr = 0, db_errno = E_NONE\<rparr>"

text \<open>
  The initialisation of a newly created index file: a string of \<open>NHASH_DEF + 1\<close>
  chain pointers of value 0, and a newline, is written under a lock of the
  whole file, if the file is empty.
\<close>

definition db_init :: "DB \<Rightarrow> db_error + DB" where
  "db_init db =
     andthen (idx_lock ''db_open: writew_lock error'' (Some F_WRLCK) 0 0 db) (\<lambda>db.
     andthen (if length (fbytes (idxfd db)) = 0
              then let asciiptr = pad_left PTR_SZ (sdec 0);
                       hash = concat (replicate (NHASH_DEF + 1) asciiptr) @ [NEWLINE];
                       (n, f) = os_write (idxfd db) hash
                   in if n \<noteq> int (length hash)
                      then Inl (Err_dump ''db_open: index file init write error'')
                      else Inr (db\<lparr>idxfd := f\<rparr>)
              else Inr db) (\<lambda>db.
     idx_lock ''db_open: un_lock error'' None 0 0 db))"

text \<open>
  \<open>lim\<close> and \<open>refuse\<close> are the environment of the new descriptors; \<open>None\<close> is the
  NULL handle.  The files are open for reading and writing: of the flags, those that
  create and truncate a file are looked at, and the access mode and the permissions are
  not modelled, so that a file that exists can be opened.  The allocations of \<^verbatim>\<open>_db_alloc\<close> succeed (a failing one
  ends the process with \<^verbatim>\<open>err_dump\<close> before a file is touched), and so does the \<^verbatim>\<open>fstat\<close> of the open index.
\<close>

definition db_open :: "filesystem \<Rightarrow> nat \<Rightarrow> (nat \<Rightarrow> nat \<Rightarrow> bool) \<Rightarrow> string \<Rightarrow> oflag list \<Rightarrow>
    db_error + (DB option \<times> filesystem)" where
  "db_open fs lim refuse pathname oflag =
     (let ri = os_open fs (pathname @ ''.idx'') oflag;
          fs1 = (case ri of None \<Rightarrow> fs | Some (_, fs') \<Rightarrow> fs');
          rd = os_open fs1 (pathname @ ''.dat'') oflag;
          fs2 = (case rd of None \<Rightarrow> fs1 | Some (_, fs') \<Rightarrow> fs')
      in case (ri, rd) of
           (Some (ib, _), Some (dbs, _)) \<Rightarrow>
             let db = db_alloc (fopened ib lim refuse) (fopened dbs lim refuse);
                 db = db\<lparr>nhash := word_of_nat NHASH_DEF, hashoff := int HASH_OFF,
                         db_name := pathname @ ''.dat''\<rparr>
             in andthen (if O_CREAT \<in> set oflag \<and> O_TRUNC \<in> set oflag then db_init db else Inr db) (\<lambda>db.
                andthen (db_rewind db) (\<lambda>db.
                Inr (Some db, fs2)))
         | _ \<Rightarrow> Inr (None, fs2))"

text \<open>
  While a handle is open it carries the contents of the two files; closing it
  leaves them in the file system.
\<close>

definition db_close :: "DB \<Rightarrow> filesystem \<Rightarrow> string \<Rightarrow> filesystem" where
  "db_close db fs pathname =
     fs(pathname @ ''.idx'' \<mapsto> fbytes (idxfd db), pathname @ ''.dat'' \<mapsto> fbytes (datfd db))"

end
