(* ===== verification/Db_Layout.thy ===== *)
theory Db_Layout
  imports Db_Model
begin

text \<open>
  The contents of the two files of a database as an encoding of records.  A
  \<open>slot\<close> is an index record together with its data record; the records of both
  files stand in the same order, so the data offset of an index record is the
  total length of the data before it.  The lemmas of this theory say where each
  pointer and each record is stored and what a byte-level read or write of it
  does to the encoding.
\<close>

section \<open>Encoding\<close>

record slot =
  s_next :: nat
  s_key :: string
  s_data :: string

definition ptr7 :: "nat \<Rightarrow> cbuf" where
  "ptr7 p = pad_left PTR_SZ (dec p)"

definition rec_body :: "nat \<Rightarrow> slot \<Rightarrow> cbuf" where
  "rec_body d s =
     s_key s @ [SEP] @ dec d @ [SEP] @ dec (length (s_data s) + 1) @ [NEWLINE]"

definition rec_bytes :: "nat \<Rightarrow> slot \<Rightarrow> cbuf" where
  "rec_bytes d s =
     ptr7 (s_next s) @ pad_left IDXLEN_SZ (dec (length (rec_body d s))) @ rec_body d s"

fun rec_image :: "nat \<Rightarrow> slot list \<Rightarrow> cbuf" where
  "rec_image d [] = []"
| "rec_image d (s # ss) = rec_bytes d s @ rec_image (d + length (s_data s) + 1) ss"

definition dat_bytes :: "slot \<Rightarrow> cbuf" where
  "dat_bytes s = s_data s @ [NEWLINE]"

definition dat_image :: "slot list \<Rightarrow> cbuf" where
  "dat_image ss = concat (map dat_bytes ss)"

text \<open>The pointers and slots that the index file encodes.\<close>

record store =
  st_free :: nat
  st_heads :: "nat list"
  st_slots :: "slot list"

definition idx_image :: "store \<Rightarrow> cbuf" where
  "idx_image g =
     ptr7 (st_free g) @ concat (map ptr7 (st_heads g)) @ [NEWLINE] @ rec_image 0 (st_slots g)"

abbreviation hdr_len :: nat where "hdr_len \<equiv> 967"

definition doff :: "slot list \<Rightarrow> nat \<Rightarrow> nat" where
  "doff ss i = length (dat_image (take i ss))"

definition ioff :: "slot list \<Rightarrow> nat \<Rightarrow> nat" where
  "ioff ss i = hdr_len + length (rec_image 0 (take i ss))"

text \<open>What makes a slot readable: the conditions \<^verbatim>\<open>_db_readidx\<close> checks, and no
  separator or NUL inside the key.\<close>

definition slot_ok :: "nat \<Rightarrow> slot \<Rightarrow> bool" where
  "slot_ok d s \<longleftrightarrow>
     c_string (s_key s) \<and> SEP \<notin> set (s_key s) \<and> c_string (s_data s) \<and>
     int (s_next s) \<le> PTR_MAX \<and>
     IDXLEN_MIN \<le> length (rec_body d s) \<and> length (rec_body d s) \<le> IDXLEN_MAX \<and>
     length (s_data s) + 1 \<le> DATLEN_MAX"

text \<open>The part of it that concerns only lengths, which \<^verbatim>\<open>_db_writeidx\<close> checks too.\<close>

definition slot_fits :: "nat \<Rightarrow> slot \<Rightarrow> bool" where
  "slot_fits d s \<longleftrightarrow> int (s_next s) \<le> PTR_MAX \<and>
     IDXLEN_MIN \<le> length (rec_body d s) \<and> length (rec_body d s) \<le> IDXLEN_MAX"

lemma slot_ok_fits: "slot_ok d s \<Longrightarrow> slot_fits d s"
  by (simp add: slot_ok_def slot_fits_def)

definition shape :: "slot \<Rightarrow> nat \<times> nat" where
  "shape s = (length (s_key s), length (s_data s))"

section \<open>Lengths\<close>

lemma length_ptr7 [layout, simp]: "int p \<le> PTR_MAX \<Longrightarrow> length (ptr7 p) = 7"
  unfolding ptr7_def by (rule length_pad_left, rule length_dec_le) auto

lemma length_dec4 [layout]: "n \<le> 1024 \<Longrightarrow> length (pad_left IDXLEN_SZ (dec n)) = 4"
  by (rule length_pad_left, rule length_dec_le) auto

lemma length_rec_body_shape: "shape s = shape t \<Longrightarrow> length (rec_body d s) = length (rec_body d t)"
  by (simp add: shape_def rec_body_def)

lemma length_rec_bytes_fits:
  "slot_fits d s \<Longrightarrow> length (rec_bytes d s) = 11 + length (rec_body d s)"
  by (simp add: rec_bytes_def slot_fits_def layout)

lemmas length_rec_bytes = length_rec_bytes_fits [OF slot_ok_fits]

lemma length_concat_ptr7 [simp]:
  "\<forall>p \<in> set hs. int p \<le> PTR_MAX \<Longrightarrow> length (concat (map ptr7 hs)) = 7 * length hs"
  by (induction hs) auto

lemma rec_image_append:
  "rec_image d (xs @ ys) = rec_image d xs @ rec_image (d + length (dat_image xs)) ys"
  by (induction xs arbitrary: d) (auto simp: dat_image_def dat_bytes_def algebra_simps)

lemma dat_image_append: "dat_image (xs @ ys) = dat_image xs @ dat_image ys"
  by (simp add: dat_image_def)

lemma length_dat_image_sum: "length (dat_image xs) = (\<Sum>p \<leftarrow> map shape xs. snd p + 1)"
  by (induction xs) (auto simp: dat_image_def dat_bytes_def shape_def)

lemma length_dat_image_shape:
  "map shape xs = map shape ys \<Longrightarrow> length (dat_image xs) = length (dat_image ys)"
  by (simp only: length_dat_image_sum)

section \<open>Well-formed contents\<close>

definition slots_ok :: "slot list \<Rightarrow> bool" where
  "slots_ok ss \<longleftrightarrow> (\<forall>i < length ss. slot_ok (doff ss i) (ss ! i))"

lemma length_rec_bytes_ok:
  assumes "slot_ok d s" "shape t = shape s" "int (s_next t) \<le> PTR_MAX"
  shows "length (rec_bytes d t) = length (rec_bytes d s)"
  using assms length_rec_body_shape [of t s d]
  by (simp add: rec_bytes_def slot_ok_def layout)

lemma doff_shape: "map shape xs = map shape ys \<Longrightarrow> doff xs i = doff ys i"
  unfolding doff_def by (rule length_dat_image_shape) (simp flip: take_map)

lemma shape_update [simp]:
  "i < length ss \<Longrightarrow> shape s = shape (ss ! i) \<Longrightarrow> map shape (ss[i := s]) = map shape ss"
  by (simp add: map_update list_update_same_conv)

lemma doff_Suc: "i < length ss \<Longrightarrow> doff ss (Suc i) = doff ss i + length (s_data (ss ! i)) + 1"
  by (simp add: doff_def take_Suc_conv_app_nth dat_image_def dat_bytes_def)

lemma ioff_Suc: "i < length ss \<Longrightarrow> ioff ss (Suc i) = ioff ss i + length (rec_bytes (doff ss i) (ss ! i))"
  by (simp add: ioff_def doff_def take_Suc_conv_app_nth rec_image_append)

lemma ioff_0 [simp]: "ioff ss 0 = hdr_len"
  by (simp add: ioff_def)

lemma ioff_ge [simp]: "hdr_len \<le> ioff ss i"
  by (simp add: ioff_def)

lemma ioff_pos [simp]: "0 < ioff ss i"
  by (simp add: ioff_def)

lemma slots_okD: "slots_ok ss \<Longrightarrow> i < length ss \<Longrightarrow> slot_ok (doff ss i) (ss ! i)"
  by (simp add: slots_ok_def)

lemma ioff_less:
  assumes "slots_ok ss" "i < j" "j \<le> length ss"
  shows "ioff ss i + 17 \<le> ioff ss j"
  using assms(2,3)
proof (induction j)
  case 0
  then show ?case by simp
next
  case (Suc j)
  have ok: "slot_ok (doff ss j) (ss ! j)" using assms(1) Suc.prems by (simp add: slots_okD)
  then have "17 \<le> length (rec_bytes (doff ss j) (ss ! j))"
    by (auto simp: length_rec_bytes slot_ok_def)
  then have "ioff ss j + 17 \<le> ioff ss (Suc j)" using Suc.prems by (simp add: ioff_Suc)
  with Suc show ?case by (cases "i = j") auto
qed

lemma ioff_inject:
  assumes "slots_ok ss" "i \<le> length ss" "j \<le> length ss"
  shows "ioff ss i = ioff ss j \<longleftrightarrow> i = j"
  using ioff_less [OF assms(1), of i j] ioff_less [OF assms(1), of j i] assms(2,3)
  by (cases i j rule: linorder_cases) auto

lemma ioff_shape:
  assumes "slots_ok xs" "slots_ok ys" "map shape xs = map shape ys" "i \<le> length xs"
  shows "ioff xs i = ioff ys i"
  using assms(4)
proof (induction i)
  case 0
  then show ?case by simp
next
  case (Suc i)
  have len: "length xs = length ys" using assms(3) by (metis length_map)
  then have "shape (xs ! i) = shape (ys ! i)" using assms(3) Suc.prems
    by (metis Suc_le_lessD nth_map)
  then have "length (rec_bytes (doff ys i) (xs ! i)) = length (rec_bytes (doff ys i) (ys ! i))"
    using assms(2) len Suc.prems slots_okD [OF assms(1), of i]
    by (intro length_rec_bytes_ok slots_okD) (auto simp: slot_ok_def)
  then show ?case using Suc assms(3) len by (simp add: ioff_Suc doff_shape [OF assms(3), of i])
qed

definition hdr_ok :: "store \<Rightarrow> bool" where
  "hdr_ok g \<longleftrightarrow> int (st_free g) \<le> PTR_MAX \<and> length (st_heads g) = NHASH_DEF \<and>
     (\<forall>p \<in> set (st_heads g). int p \<le> PTR_MAX)"

lemma length_idx_image:
  "hdr_ok g \<Longrightarrow> length (idx_image g) = ioff (st_slots g) (length (st_slots g))"
  by (simp add: hdr_ok_def idx_image_def ioff_def)

lemma length_dat_image: "length (dat_image ss) = doff ss (length ss)"
  by (simp add: doff_def)

section \<open>Where each field is stored\<close>

text \<open>
  A chain pointer lives in one of three places: the free-list pointer, an entry
  of the hash table, or the front of an index record.
\<close>

datatype loc = LFree | LHead nat | LSlot nat

fun cell :: "store \<Rightarrow> loc \<Rightarrow> nat" where
  "cell g LFree = st_free g"
| "cell g (LHead h) = st_heads g ! h"
| "cell g (LSlot i) = s_next (st_slots g ! i)"

fun put :: "loc \<Rightarrow> nat \<Rightarrow> store \<Rightarrow> store" where
  "put LFree v g = g\<lparr>st_free := v\<rparr>"
| "put (LHead h) v g = g\<lparr>st_heads := (st_heads g)[h := v]\<rparr>"
| "put (LSlot i) v g = g\<lparr>st_slots := (st_slots g)[i := (st_slots g ! i)\<lparr>s_next := v\<rparr>]\<rparr>"

fun loc_off :: "store \<Rightarrow> loc \<Rightarrow> nat" where
  "loc_off g LFree = FREE_OFF"
| "loc_off g (LHead h) = HASH_OFF + PTR_SZ * h"
| "loc_off g (LSlot i) = ioff (st_slots g) i"

fun loc_ok :: "store \<Rightarrow> loc \<Rightarrow> bool" where
  "loc_ok g LFree = True"
| "loc_ok g (LHead h) = (h < NHASH_DEF)"
| "loc_ok g (LSlot i) = (i < length (st_slots g))"

definition put_slot :: "nat \<Rightarrow> slot \<Rightarrow> store \<Rightarrow> store" where
  "put_slot i s g = g\<lparr>st_slots := (st_slots g)[i := s]\<rparr>"

definition add_slot :: "slot \<Rightarrow> store \<Rightarrow> store" where
  "add_slot s g = g\<lparr>st_slots := st_slots g @ [s]\<rparr>"

lemma put_cell [simp]: "put l (cell g l) g = g"
  by (cases l) auto

lemma put_slot_id [simp]: "put_slot i (st_slots g ! i) g = g"
  by (simp add: put_slot_def)

lemma idx_slot_split:
  assumes "hdr_ok g" and i: "i < length (st_slots g)"
  shows "\<exists>A C. length A = ioff (st_slots g) i \<and>
    (\<forall>s. shape s = shape (st_slots g ! i) \<longrightarrow>
       idx_image (put_slot i s g) = A @ rec_bytes (doff (st_slots g) i) s @ C)"
proof -
  let ?ss = "st_slots g"
  let ?A = "ptr7 (st_free g) @ concat (map ptr7 (st_heads g)) @ [NEWLINE] @ rec_image 0 (take i ?ss)"
  let ?C = "rec_image (doff ?ss i + length (s_data (?ss ! i)) + 1) (drop (Suc i) ?ss)"
  have "length ?A = ioff ?ss i" using assms by (simp add: ioff_def hdr_ok_def)
  moreover have "idx_image (put_slot i s g) = ?A @ rec_bytes (doff ?ss i) s @ ?C"
    if "shape s = shape (?ss ! i)" for s
    using that i by (simp add: idx_image_def put_slot_def upd_conv_take_nth_drop
      rec_image_append doff_def) (simp add: shape_def)
  ultimately show ?thesis by blast
qed

lemma rec_bytes_next:
  "rec_bytes d (s\<lparr>s_next := v\<rparr>) = ptr7 v @ drop 7 (rec_bytes d (s\<lparr>s_next := 0\<rparr>))"
  using length_ptr7 [of 0] unfolding rec_bytes_def rec_body_def by simp

lemma idx_head_split:
  assumes "hdr_ok g" and h: "h < NHASH_DEF"
  shows "\<exists>A C. length A = HASH_OFF + PTR_SZ * h \<and>
    (\<forall>v. idx_image (put (LHead h) v g) = A @ ptr7 v @ C)"
proof -
  let ?hs = "st_heads g"
  let ?A = "ptr7 (st_free g) @ concat (map ptr7 (take h ?hs))"
  let ?C = "concat (map ptr7 (drop (Suc h) ?hs)) @ [NEWLINE] @ rec_image 0 (st_slots g)"
  have hs: "length ?hs = NHASH_DEF" "\<forall>p \<in> set (take h ?hs). int p \<le> PTR_MAX"
    using assms(1) by (auto simp: hdr_ok_def dest: in_set_takeD)
  then have "length (concat (map ptr7 (take h ?hs))) = 7 * h"
    using h by (simp only: length_concat_ptr7) simp
  then have "length ?A = HASH_OFF + PTR_SZ * h" using assms(1) by (simp add: hdr_ok_def)
  moreover have "idx_image (put (LHead h) v g) = ?A @ ptr7 v @ ?C" for v
    using hs h by (simp add: idx_image_def upd_conv_take_nth_drop)
  ultimately show ?thesis by blast
qed

lemma idx_cell_split:
  assumes "hdr_ok g" "loc_ok g l"
  shows "\<exists>A C. length A = loc_off g l \<and> (\<forall>v. idx_image (put l v g) = A @ ptr7 v @ C)"
proof (cases l)
  case LFree
  then show ?thesis by (auto simp: idx_image_def)
next
  case (LHead h)
  with assms idx_head_split show ?thesis by simp
next
  case (LSlot i)
  with assms obtain A C where A: "length A = ioff (st_slots g) i" and
    *: "\<And>s. shape s = shape (st_slots g ! i) \<Longrightarrow>
       idx_image (put_slot i s g) = A @ rec_bytes (doff (st_slots g) i) s @ C"
    using idx_slot_split [of g i] by auto
  have "idx_image (put l v g) =
      A @ ptr7 v @ (drop 7 (rec_bytes (doff (st_slots g) i) ((st_slots g ! i)\<lparr>s_next := 0\<rparr>)) @ C)" for v
    using * [of "(st_slots g ! i)\<lparr>s_next := v\<rparr>"] LSlot
    unfolding rec_bytes_next [where v = v] by (simp add: shape_def put_slot_def)
  with A LSlot show ?thesis by (metis loc_off.simps(3))
qed

lemma idx_add_slot:
  "idx_image (add_slot s g) =
     idx_image g @ rec_bytes (doff (st_slots g) (length (st_slots g))) s"
  by (simp add: idx_image_def add_slot_def rec_image_append doff_def)

lemma dat_slot_split:
  assumes "i < length ss"
  shows "\<exists>A C. length A = doff ss i \<and>
    (\<forall>s. dat_image (ss[i := s]) = A @ dat_bytes s @ C)"
  using assms by (intro exI [of _ "dat_image (take i ss)"] exI [of _ "dat_image (drop (Suc i) ss)"])
    (simp add: doff_def upd_conv_take_nth_drop dat_image_def)

lemma dat_append: "dat_image (ss @ [s]) = dat_image ss @ dat_bytes s"
  by (simp add: dat_image_def)

end
