(* ===== verification/Db_Bytes.thy ===== *)
theory Db_Bytes
  imports Db_Layout
begin

text \<open>
  The effect of the primitive operations of \<^verbatim>\<open>db.c\<close> on files with known
  contents.  \<open>db_files M L I D db\<close> says that the index file of \<open>db\<close> holds the
  bytes \<open>I\<close>, the data file \<open>D\<close>, that the process holds the locks \<open>L\<close> on the
  index file and none on the data file, and that both files may grow to \<open>M\<close>
  bytes.
\<close>

section \<open>Assertions on the state\<close>

type_synonym locks = "nat \<Rightarrow> lock_type option"

definition lset :: "locks \<Rightarrow> lock_type option \<Rightarrow> nat \<Rightarrow> nat \<Rightarrow> locks" where
  "lset L ty off len = (\<lambda>i. if in_range off len i then ty else L i)"

definition db_files :: "nat \<Rightarrow> locks \<Rightarrow> cbuf \<Rightarrow> cbuf \<Rightarrow> DB \<Rightarrow> bool" where
  "db_files M L I D db \<longleftrightarrow>
     fbytes (idxfd db) = I \<and> fbytes (datfd db) = D \<and>
     flocks (idxfd db) = L \<and> flocks (datfd db) = (\<lambda>_. None) \<and>
     grants_locks (idxfd db) \<and> grants_locks (datfd db) \<and>
     flimit (idxfd db) = M \<and> flimit (datfd db) = M \<and>
     nhash db = 137 \<and> hashoff db = 7"

definition db_counts :: "DB \<Rightarrow> count list" where
  "db_counts db =
     [cnt_delok db, cnt_delerr db, cnt_fetchok db, cnt_fetcherr db, cnt_nextrec db,
      cnt_stor1 db, cnt_stor2 db, cnt_stor3 db, cnt_stor4 db, cnt_storerr db]"

text \<open>What the internal functions leave alone.\<close>

definition keeps :: "DB \<Rightarrow> DB \<Rightarrow> bool" where
  "keeps db db' \<longleftrightarrow> chainoff db' = chainoff db \<and> db_counts db' = db_counts db \<and>
     db_errno db' = db_errno db \<and> db_name db' = db_name db"

definition rec_fields :: "DB \<Rightarrow> int \<times> int \<times> nat \<times> int \<times> int \<times> cbuf" where
  "rec_fields db = (idxoff db, datoff db, datlen db, ptrval db, ptroff db, idxbuf db)"

text \<open>The record at index offset \<open>off\<close>, with its data at \<open>d\<close>, was read into the structure.\<close>

definition loaded :: "nat \<Rightarrow> nat \<Rightarrow> slot \<Rightarrow> DB \<Rightarrow> bool" where
  "loaded off d s db \<longleftrightarrow> idxoff db = int off \<and> datoff db = int d \<and>
     datlen db = length (s_data s) + 1 \<and> ptrval db = int (s_next s) \<and>
     cstr (idxbuf db) = s_key s"

lemma keeps_refl [simp, intro]: "keeps db db"
  by (simp add: keeps_def)

lemma keeps_trans [trans]: "keeps a b \<Longrightarrow> keeps b c \<Longrightarrow> keeps a c"
  by (simp add: keeps_def)

lemmas state_defs = db_files_def keeps_def db_counts_def rec_fields_def loaded_def lset_def

lemma loaded_rec_fields: "loaded off d s db \<Longrightarrow> rec_fields db' = rec_fields db \<Longrightarrow> loaded off d s db'"
  by (simp add: loaded_def rec_fields_def)

lemma lset_undo: "L off = None \<Longrightarrow> lset (lset L ty off 1) None off 1 = L"
  by (auto simp: lset_def in_range_def fun_eq_iff le_less_Suc_eq)

lemma lset_undo_tail:
  "(\<And>i. off \<le> i \<Longrightarrow> L i = None) \<Longrightarrow> lset (lset L ty off 0) None off 0 = L"
  by (auto simp: lset_def in_range_def fun_eq_iff)

lemma size_t_of_int [clib]: "n < 2 ^ 64 \<Longrightarrow> size_t_of (int n) = n"
  by (simp add: size_t_of_def zmod_int flip: of_nat_power)

section \<open>Locks and pointers\<close>

lemma idx_lock_ok:
  assumes "db_files M L I D db"
  obtains db' where "idx_lock msg ty (int off) len db = Inr db'"
    "db_files M (lset L ty off len) I D db'" "keeps db db'"
    "rec_fields db' = rec_fields db" "fpos (idxfd db') = fpos (idxfd db)" "datbuf db' = datbuf db"
  using assms by (auto simp: idx_lock_def state_defs clib)

lemma db_readptr_ok:
  assumes "db_files M L (A @ ptr7 v @ C) D db" "length A = off" "int v \<le> PTR_MAX"
  obtains db' where "db_readptr db (int off) = Inr (int v, db')"
    "db_files M L (A @ ptr7 v @ C) D db'" "keeps db db'"
    "rec_fields db' = rec_fields db" "datbuf db' = datbuf db"
proof -
  have rd: "os_read ((idxfd db)\<lparr>fpos := off\<rparr>) PTR_SZ = (ptr7 v, (idxfd db)\<lparr>fpos := off + 7\<rparr>)"
    using assms by (subst os_read_at [of _ A "ptr7 v" C]) (auto simp: db_files_def)
  have at: "atol (ptr7 v @ [NUL]) = int v"
    unfolding ptr7_def by (rule atol_pad_dec) (simp add: isdigit_not)
  have "db_readptr db (int off) = Inr (int v, db\<lparr>idxfd := (idxfd db)\<lparr>fpos := off + 7\<rparr>\<rparr>)"
    using assms(3) by (simp add: db_readptr_def clib rd at)
  then show ?thesis by (rule that) (use assms(1) in \<open>simp_all add: state_defs\<close>)
qed

lemma db_writeptr_ok:
  assumes "db_files M L (A @ ptr7 v @ C) D db" "length A = off" "int v \<le> PTR_MAX"
    and "int w \<le> PTR_MAX" "off + 7 \<le> M"
  obtains db' where "db_writeptr db (int off) (int w) = Inr db'"
    "db_files M L (A @ ptr7 w @ C) D db'" "keeps db db'"
    "rec_fields db' = rec_fields db" "datbuf db' = datbuf db"
proof -
  let ?f = "(idxfd db)\<lparr>fbytes := A @ ptr7 w @ C, fpos := off + 7\<rparr>"
  have wr: "os_write ((idxfd db)\<lparr>fpos := off\<rparr>) (ptr7 w) = (7, ?f)"
    using assms by (simp add: clib db_files_def layout)
  have "db_writeptr db (int off) (int w) = Inr (db\<lparr>idxfd := ?f\<rparr>)"
    using assms(4) wr by (simp add: db_writeptr_def clib flip: ptr7_def)
  then show ?thesis by (rule that) (use assms(1) in \<open>simp_all add: state_defs\<close>)
qed

section \<open>Index records\<close>

lemma db_parseidx_ok:
  assumes ok: "slot_ok d s" and len: "idxlen db = length (rec_body d s)"
  obtains b where "db_parseidx db (rec_body d s) =
      Inr (ptrval db, db\<lparr>idxbuf := b, datoff := int d, datlen := length (s_data s) + 1\<rparr>)"
    "cstr b = s_key s"
proof -
  let ?k = "s_key s" and ?n = "length (s_data s) + 1"
  have k: "c_string ?k" "SEP \<notin> set ?k" and n: "?n \<le> 1024"
    using ok by (simp_all add: slot_ok_def)
  let ?b0 = "?k @ SEP # dec d @ SEP # dec ?n @ [NUL]"
  let ?b1 = "?k @ NUL # dec d @ SEP # dec ?n @ [NUL]"
  let ?b2 = "?k @ NUL # dec d @ NUL # dec ?n @ [NUL]"
  have nl: "rec_body d s ! (idxlen db - 1) = NEWLINE"
    unfolding len by (simp add: rec_body_def nth_append)
  have u0: "(rec_body d s)[idxlen db - 1 := NUL] = ?b0"
    unfolding len by (simp add: rec_body_def list_update_append)
  have s1: "strchr ?b0 SEP = Some (length ?k)" using k by (intro strchr_found)
  have u1: "?b0[length ?k := NUL] = ?b1" by simp
  have s2: "strchr (drop (Suc (length ?k)) ?b1) SEP = Some (length (dec d))"
    by (simp add: strchr_found dec_not_special)
  have u2: "?b1[Suc (length ?k) + length (dec d) := NUL] = ?b2"
    by (simp add: list_update_append)
  have s3: "strchr (drop (Suc (Suc (length ?k) + length (dec d))) ?b2) SEP = None"
    using strchr_absent [of "dec ?n" SEP "[]"] by (simp add: dec_not_special)
  have a1: "atol (drop (Suc (length ?k)) ?b2) = int d"
    using atol_dec [of "NUL # dec ?n @ [NUL]" d] by (simp add: isdigit_not)
  have a2: "atol (drop (Suc (Suc (length ?k) + length (dec d))) ?b2) = int ?n"
    using atol_dec [of "[NUL]" ?n] by (simp add: isdigit_not)
  have sz: "size_t_of (int ?n) = ?n" using n by (intro size_t_of_int) auto
  have "db_parseidx db (rec_body d s) =
      Inr (ptrval db, db\<lparr>idxbuf := ?b2, datoff := int d, datlen := ?n\<rparr>)"
    using n unfolding db_parseidx_def Let_def nl u0 s1 option.case u1 s2 u2 s3 a1 a2 sz by simp
  moreover have "cstr ?b2 = ?k" using k by (simp add: cstr_append_NUL)
  ultimately show ?thesis by (rule that)
qed

lemma rec_bytes_split:
  assumes "slot_ok d s"
  shows "rec_bytes d s = (ptr7 (s_next s) @ pad_left IDXLEN_SZ (dec (length (rec_body d s)))) @ rec_body d s"
    and "length (ptr7 (s_next s) @ pad_left IDXLEN_SZ (dec (length (rec_body d s)))) = 11"
  using assms by (simp_all add: rec_bytes_def slot_ok_def layout)

lemma db_readidx_parse:
  assumes fs: "fbytes (idxfd db) = A @ rec_bytes d s @ C" and A: "length A = off"
    and ok: "slot_fits d s"
    and at: "offset = int off \<and> 0 < off \<or> offset = 0 \<and> fpos (idxfd db) = off"
  shows "db_readidx db offset = db_parseidx
      (db\<lparr>idxoff := int off, ptrval := int (s_next s), idxlen := length (rec_body d s),
          idxfd := (idxfd db)\<lparr>fpos := off + length (rec_bytes d s)\<rparr>\<rparr>) (rec_body d s)"
proof -
  let ?n = "length (rec_body d s)"
  define H where "H = ptr7 (s_next s) @ pad_left IDXLEN_SZ (dec ?n)"
  have n: "6 \<le> ?n" "?n \<le> 1024" and nx: "int (s_next s) \<le> PTR_MAX"
    using ok by (simp_all add: slot_fits_def)
  have H: "rec_bytes d s = H @ rec_body d s" "length H = 11"
    using nx n by (simp_all add: H_def rec_bytes_def layout)
  let ?f0 = "(idxfd db)\<lparr>fpos := off\<rparr>"
  have seek: "lseek (idxfd db) offset (if offset = 0 then SEEK_CUR else SEEK_SET) = (int off, ?f0)"
    using at by (auto simp: clib)
  have r1: "os_read ?f0 11 = (H, (idxfd db)\<lparr>fpos := off + 11\<rparr>)"
    using fs A H by (subst os_read_at [of _ A H "rec_body d s @ C"]) auto
  have r2: "os_read ((idxfd db)\<lparr>fpos := off + 11\<rparr>) ?n =
      (rec_body d s, (idxfd db)\<lparr>fpos := off + 11 + ?n\<rparr>)"
    using fs A H by (subst os_read_at [of _ "A @ H" "rec_body d s" C]) auto
  have p: "atol (take PTR_SZ H @ [NUL]) = int (s_next s)"
    using nx atol_pad_dec [of "[NUL]" PTR_SZ "s_next s"]
    by (simp add: H_def isdigit_not flip: ptr7_def)
  have l: "size_t_of (atol (drop PTR_SZ H @ [NUL])) = ?n"
    using nx n atol_pad_dec [of "[NUL]" IDXLEN_SZ ?n]
    by (simp add: H_def isdigit_not size_t_of_int)
  show ?thesis
    using n unfolding db_readidx_def seek Let_def prod.case by (simp add: r1 r2 p l H add.assoc)
qed

lemma db_readidx_ok:
  assumes fs: "db_files M L (A @ rec_bytes d s @ C) D db" and A: "length A = off"
    and ok: "slot_ok d s"
    and at: "offset = int off \<and> 0 < off \<or> offset = 0 \<and> fpos (idxfd db) = off"
  obtains db' where "db_readidx db offset = Inr (int (s_next s), db')"
    "db_files M L (A @ rec_bytes d s @ C) D db'" "keeps db db'" "loaded off d s db'"
    "ptroff db' = ptroff db" "fpos (idxfd db') = off + length (rec_bytes d s)"
proof -
  let ?db = "db\<lparr>idxoff := int off, ptrval := int (s_next s), idxlen := length (rec_body d s),
      idxfd := (idxfd db)\<lparr>fpos := off + length (rec_bytes d s)\<rparr>\<rparr>"
  obtain b where b: "db_parseidx ?db (rec_body d s) =
      Inr (ptrval ?db, ?db\<lparr>idxbuf := b, datoff := int d, datlen := length (s_data s) + 1\<rparr>)"
    "cstr b = s_key s"
    using db_parseidx_ok [OF ok, of ?db] by auto
  have I: "fbytes (idxfd db) = A @ rec_bytes d s @ C" using fs by (simp add: db_files_def)
  show ?thesis
    using db_readidx_parse [OF I A slot_ok_fits [OF ok] at] b fs
    by (intro that [of "?db\<lparr>idxbuf := b, datoff := int d, datlen := length (s_data s) + 1\<rparr>"])
       (simp_all add: state_defs)
qed

lemma db_readidx_eof:
  assumes "db_files M L I D db" "fpos (idxfd db) = length I"
  obtains db' where "db_readidx db 0 = Inr (- 1, db')" "db_files M L I D db'" "keeps db db'"
    "fpos (idxfd db') = length I"
  using assms by (auto simp: db_readidx_def clib state_defs)

lemma db_writeidx_at:
  assumes fs: "db_files M L (A @ R @ C) D db" and A: "length A = off"
    and R: "length R = length (rec_bytes d s)" and ok: "slot_ok d s"
    and dat: "datoff db = int d" "datlen db = length (s_data s) + 1"
    and M: "off + length R \<le> M"
  obtains db' where
    "db_writeidx db (s_key s) (int off) SEEK_SET (int (s_next s)) = Inr db'"
    "db_files M L (A @ rec_bytes d s @ C) D db'" "keeps db db'"
    "idxoff db' = int off" "ptroff db' = ptroff db" "datbuf db' = datbuf db"
proof -
  have body: "s_key s @ [SEP] @ sdec (datoff db) @ [SEP] @ sdec (int (datlen db)) @ [NEWLINE]
      = rec_body d s"
    unfolding dat by (simp only: sdec_int rec_body_def)
  have n: "6 \<le> length (rec_body d s)" "length (rec_body d s) \<le> 1024"
    "int (s_next s) \<le> PTR_MAX" using ok by (simp_all add: slot_ok_def)
  let ?f = "(idxfd db)\<lparr>fbytes := A @ rec_bytes d s @ C, fpos := off + length (rec_bytes d s)\<rparr>"
  have wr: "os_write ((idxfd db)\<lparr>fpos := off\<rparr>) (rec_bytes d s) = (int (length (rec_bytes d s)), ?f)"
    using fs A R M by (simp add: clib db_files_def layout)
  have "db_writeidx db (s_key s) (int off) SEEK_SET (int (s_next s)) =
      Inr (db\<lparr>ptrval := int (s_next s), idxbuf := rec_body d s @ [NUL], idxoff := int off, idxfd := ?f\<rparr>)"
    using n wr length_rec_bytes [OF ok] unfolding db_writeidx_def Let_def
    by (simp add: body [simplified] clib rec_bytes_def flip: ptr7_def)
  then show ?thesis by (rule that) (use fs in \<open>simp_all add: state_defs\<close>)
qed

lemma db_writeidx_end:
  assumes fs: "db_files M L I D db" and ok: "slot_fits d s"
    and dat: "datoff db = int d" "datlen db = length (s_data s) + 1"
    and M: "length I + length (rec_bytes d s) \<le> M"
    and L: "\<And>i. hdr_len \<le> i \<Longrightarrow> L i = None"
  obtains db' where
    "db_writeidx db (s_key s) 0 SEEK_END (int (s_next s)) = Inr db'"
    "db_files M L (I @ rec_bytes d s) D db'" "keeps db db'"
    "idxoff db' = int (length I)" "ptroff db' = ptroff db" "datbuf db' = datbuf db"
proof -
  have body: "s_key s @ [SEP] @ sdec (datoff db) @ [SEP] @ sdec (int (datlen db)) @ [NEWLINE]
      = rec_body d s"
    unfolding dat by (simp only: sdec_int rec_body_def)
  have n: "6 \<le> length (rec_body d s)" "length (rec_body d s) \<le> 1024"
    "int (s_next s) \<le> PTR_MAX" using ok by (simp_all add: slot_fits_def)
  have off: "int ((unat (nhash db) + 1) * PTR_SZ + 1) = int hdr_len"
    using fs by (simp add: db_files_def)
  let ?db1 = "db\<lparr>ptrval := int (s_next s), idxbuf := rec_body d s @ [NUL]\<rparr>"
  have "db_files M L I D ?db1" using fs by (simp add: db_files_def)
  then obtain db2 where lk: "idx_lock ''_db_writeidx: writew_lock error'' (Some F_WRLCK) (int hdr_len) 0 ?db1 = Inr db2"
    and 2: "db_files M (lset L (Some F_WRLCK) hdr_len 0) I D db2" "keeps ?db1 db2"
      "rec_fields db2 = rec_fields ?db1" "datbuf db2 = datbuf ?db1"
    by (rule idx_lock_ok)
  let ?f = "(idxfd db2)\<lparr>fbytes := I @ rec_bytes d s, fpos := length I + length (rec_bytes d s)\<rparr>"
  let ?db3 = "db2\<lparr>idxoff := int (length I), idxfd := ?f\<rparr>"
  have wr: "os_write ((idxfd db2)\<lparr>fpos := length I\<rparr>) (rec_bytes d s) =
      (int (length (rec_bytes d s)), ?f)"
    using 2(1) M by (simp add: clib db_files_def layout)
  have I: "fbytes (idxfd db2) = I" using 2(1) by (simp add: db_files_def)
  have "db_files M (lset L (Some F_WRLCK) hdr_len 0) (I @ rec_bytes d s) D ?db3"
    using 2(1) by (simp add: db_files_def)
  then obtain db4 where ul: "idx_lock ''_db_writeidx: un_lock error'' None (int hdr_len) 0 ?db3 = Inr db4"
    and 4: "db_files M (lset (lset L (Some F_WRLCK) hdr_len 0) None hdr_len 0) (I @ rec_bytes d s) D db4"
      "keeps ?db3 db4" "rec_fields db4 = rec_fields ?db3" "datbuf db4 = datbuf ?db3"
    by (rule idx_lock_ok)
  have "db_writeidx db (s_key s) 0 SEEK_END (int (s_next s)) = Inr db4"
    using n lk wr ul length_rec_bytes_fits [OF ok] off I unfolding db_writeidx_def Let_def
    by (simp add: body [simplified] clib rec_bytes_def flip: ptr7_def)
  moreover have L': "lset (lset L (Some F_WRLCK) hdr_len 0) None hdr_len 0 = L"
    by (rule lset_undo_tail) (rule L)
  ultimately show ?thesis
    by (intro that [of db4]) (use 2(2-) 4 L' in \<open>simp_all add: keeps_def rec_fields_def db_counts_def\<close>)
qed

section \<open>Data records\<close>

lemma db_readdat_ok:
  assumes fs: "db_files M L I (A @ dat_bytes s @ C) db" and A: "length A = d"
    and ok: "c_string (s_data s)"
    and dat: "datoff db = int d" "datlen db = length (s_data s) + 1"
  obtains db' where "db_readdat db = Inr (s_data s, db')"
    "db_files M L I (A @ dat_bytes s @ C) db'" "keeps db db'"
    "rec_fields db' = rec_fields db" "idxfd db' = idxfd db"
proof -
  let ?n = "length (s_data s) + 1"
  have rd: "os_read ((datfd db)\<lparr>fpos := d\<rparr>) ?n = (dat_bytes s, (datfd db)\<lparr>fpos := d + ?n\<rparr>)"
    using fs A by (subst os_read_at [of _ A "dat_bytes s" C]) (auto simp: db_files_def dat_bytes_def)
  have b: "dat_bytes s ! length (s_data s) = NEWLINE"
    "(dat_bytes s)[length (s_data s) := NUL] = s_data s @ [NUL]"
    "length (dat_bytes s) = ?n"
    by (simp_all add: dat_bytes_def nth_append list_update_append)
  have "db_readdat db = Inr (s_data s,
      db\<lparr>datfd := (datfd db)\<lparr>fpos := d + ?n\<rparr>, datbuf := s_data s @ [NUL]\<rparr>)"
    using ok rd b dat unfolding db_readdat_def Let_def by (simp add: clib)
  then show ?thesis by (rule that) (use fs in \<open>simp_all add: state_defs\<close>)
qed

lemma db_writedat_at:
  assumes fs: "db_files M L I (A @ R @ C) db" and A: "length A = d"
    and R: "length R = length data + 1" and M: "d + length R \<le> M"
  obtains db' where "db_writedat db data (int d) SEEK_SET = Inr db'"
    "db_files M L I (A @ (data @ [NEWLINE]) @ C) db'" "keeps db db'"
    "datoff db' = int d" "datlen db' = length data + 1" "idxoff db' = idxoff db"
    "ptrval db' = ptrval db" "ptroff db' = ptroff db" "idxbuf db' = idxbuf db"
proof -
  let ?f = "(datfd db)\<lparr>fbytes := A @ (data @ [NEWLINE]) @ C, fpos := d + (length data + 1)\<rparr>"
  have wr: "os_write ((datfd db)\<lparr>fpos := d\<rparr>) (data @ [NEWLINE]) = (int (length data + 1), ?f)"
    using fs A R M pwrite_append [of A d "data @ [NEWLINE]" R C]
    by (subst os_write_fits) (simp_all add: db_files_def)
  have "db_writedat db data (int d) SEEK_SET =
      Inr (db\<lparr>datoff := int d, datlen := length data + 1, datfd := ?f\<rparr>)"
    using wr unfolding db_writedat_def Let_def by (simp add: clib)
  then show ?thesis by (rule that) (use fs in \<open>simp_all add: state_defs\<close>)
qed

lemma dat_lock_ok:
  assumes "db_files M L I D db"
  shows "dat_lock msg ty 0 0 db = Inr (db\<lparr>datfd := (datfd db)\<lparr>flocks := (\<lambda>_. ty)\<rparr>\<rparr>)"
  using assms by (simp add: dat_lock_def db_files_def clib in_range_def)

lemma db_writedat_end:
  assumes fs: "db_files M L I D db" and M: "length D + length data + 1 \<le> M"
  obtains db' where "db_writedat db data 0 SEEK_END = Inr db'"
    "db_files M L I (D @ data @ [NEWLINE]) db'" "keeps db db'"
    "datoff db' = int (length D)" "datlen db' = length data + 1" "idxoff db' = idxoff db"
    "ptrval db' = ptrval db" "ptroff db' = ptroff db" "idxbuf db' = idxbuf db"
proof -
  let ?g = "(datfd db)\<lparr>flocks := (\<lambda>_. Some F_WRLCK)\<rparr>"
  let ?f = "?g\<lparr>fbytes := D @ data @ [NEWLINE], fpos := length D + (length data + 1)\<rparr>"
  have D: "fbytes (datfd db) = D" "grants_locks (datfd db)" using fs by (simp_all add: db_files_def)
  have wr: "os_write (?g\<lparr>fpos := length D\<rparr>) (data @ [NEWLINE]) = (int (length data + 1), ?f)"
    using fs M pwrite_end [of D "length D" "data @ [NEWLINE]"]
    by (subst os_write_fits) (simp_all add: db_files_def)
  have "db_writedat db data 0 SEEK_END =
      Inr (db\<lparr>datoff := int (length D), datlen := length data + 1,
              datfd := ?f\<lparr>flocks := (\<lambda>_. None)\<rparr>\<rparr>)"
    using wr D dat_lock_ok [OF fs] unfolding db_writedat_def Let_def
    by (simp add: clib) (simp add: dat_lock_def clib in_range_def)
  then show ?thesis by (rule that) (use fs in \<open>simp_all add: state_defs\<close>)
qed

end
