(* ===== verification/Db_Chains.thy ===== *)
theory Db_Chains
  imports Db_Bytes
begin

text \<open>
  The chains threaded through the slots: the free list and the hash chains.
  \<open>chain_at g p l\<close> says that following the chain pointers from \<open>p\<close> visits the
  slots with the indices \<open>l\<close> and ends with pointer 0.  \<open>threaded g X cl\<close> is the
  structural invariant of the index: every slot outside \<open>X\<close> is on exactly one
  chain.  The pure operations \<open>unlink\<close> and \<open>push\<close> on stores are what the writes
  of \<^verbatim>\<open>db.c\<close> amount to.
\<close>

section \<open>Well-formed stores\<close>

abbreviation (input) nslots :: "store \<Rightarrow> nat" where "nslots g \<equiv> length (st_slots g)"

definition wf_store :: "store \<Rightarrow> bool" where
  "wf_store g \<longleftrightarrow> hdr_ok g \<and> slots_ok (st_slots g) \<and>
     (\<forall>i < nslots g. int (ioff (st_slots g) i) \<le> PTR_MAX)"

definition same_shape :: "store \<Rightarrow> store \<Rightarrow> bool" where
  "same_shape g g' \<longleftrightarrow> map shape (st_slots g) = map shape (st_slots g')"

lemma same_shape_length: "same_shape g g' \<Longrightarrow> nslots g' = nslots g"
  by (metis same_shape_def length_map)

lemma same_shape_doff: "same_shape g g' \<Longrightarrow> doff (st_slots g') i = doff (st_slots g) i"
  unfolding same_shape_def by (metis doff_shape)

lemma same_shape_ioff:
  "same_shape g g' \<Longrightarrow> slots_ok (st_slots g) \<Longrightarrow> slots_ok (st_slots g') \<Longrightarrow> i \<le> nslots g \<Longrightarrow>
   ioff (st_slots g') i = ioff (st_slots g) i"
  unfolding same_shape_def by (metis ioff_shape)

lemma shape_next [simp]: "shape (s\<lparr>s_next := v\<rparr>) = shape s"
  by (simp add: shape_def)

lemma same_shape_put [simp]: "loc_ok g l \<Longrightarrow> same_shape g (put l v g)"
  by (cases l) (simp_all add: same_shape_def)

lemma same_shape_put_slot [simp]:
  "i < nslots g \<Longrightarrow> shape s = shape (st_slots g ! i) \<Longrightarrow> same_shape g (put_slot i s g)"
  by (simp add: same_shape_def put_slot_def)

lemma wf_storeI:
  assumes "wf_store g" "same_shape g g'" "hdr_ok g'" "slots_ok (st_slots g')"
  shows "wf_store g'"
  using assms same_shape_ioff [OF assms(2)] same_shape_length [OF assms(2)]
  by (auto simp: wf_store_def)

lemma slots_ok_update:
  assumes "slots_ok ss" "i < length ss" "shape s = shape (ss ! i)" "slot_ok (doff ss i) s"
  shows "slots_ok (ss[i := s])"
  using assms doff_shape [OF shape_update [OF assms(2,3)]]
  by (auto simp: slots_ok_def nth_list_update)

lemma slot_ok_next: "slot_ok d s \<Longrightarrow> int v \<le> PTR_MAX \<Longrightarrow> slot_ok d (s\<lparr>s_next := v\<rparr>)"
  by (simp add: slot_ok_def rec_body_def)

lemma wf_put [intro]:
  assumes "wf_store g" "loc_ok g l" "int v \<le> PTR_MAX"
  shows "wf_store (put l v g)"
proof (rule wf_storeI [OF assms(1)])
  show "same_shape g (put l v g)" using assms(2) by simp
  show "hdr_ok (put l v g)"
    using assms by (cases l) (auto simp: wf_store_def hdr_ok_def dest!: set_update_subset_insert [THEN subsetD])
  show "slots_ok (st_slots (put l v g))"
    using assms by (cases l) (auto simp: wf_store_def shape_def intro!: slots_ok_update slot_ok_next slots_okD)
qed

lemma wf_put_slot [intro]:
  assumes "wf_store g" "i < nslots g" "shape s = shape (st_slots g ! i)"
    and "slot_ok (doff (st_slots g) i) s"
  shows "wf_store (put_slot i s g)"
  by (rule wf_storeI [OF assms(1) same_shape_put_slot])
     (use assms in \<open>auto simp: wf_store_def hdr_ok_def put_slot_def intro: slots_ok_update\<close>)

lemma ioff_add_slot: "i \<le> length ss \<Longrightarrow> ioff (ss @ [s]) i = ioff ss i"
  by (simp add: ioff_def)

lemma doff_add_slot: "i \<le> length ss \<Longrightarrow> doff (ss @ [s]) i = doff ss i"
  by (simp add: doff_def)

lemma wf_add_slot [intro]:
  assumes "wf_store g" "slot_ok (doff (st_slots g) (nslots g)) s"
    and "int (ioff (st_slots g) (nslots g)) \<le> PTR_MAX"
  shows "wf_store (add_slot s g)"
  using assms
  by (auto simp: wf_store_def add_slot_def hdr_ok_def slots_ok_def nth_append less_Suc_eq
      doff_add_slot ioff_add_slot)

section \<open>Chains\<close>

fun chain_at :: "store \<Rightarrow> nat \<Rightarrow> nat list \<Rightarrow> bool" where
  "chain_at g p [] \<longleftrightarrow> p = 0"
| "chain_at g p (i # l) \<longleftrightarrow> p = ioff (st_slots g) i \<and> chain_at g (cell g (LSlot i)) l"

text \<open>The place of the pointer to the element after \<open>l1\<close> on a chain that starts at \<open>loc\<close>.\<close>

definition pred_loc :: "loc \<Rightarrow> nat list \<Rightarrow> loc" where
  "pred_loc loc l1 = (if l1 = [] then loc else LSlot (last l1))"

definition unlink :: "loc \<Rightarrow> nat list \<Rightarrow> nat \<Rightarrow> store \<Rightarrow> store" where
  "unlink loc l1 i g = put (pred_loc loc l1) (cell g (LSlot i)) g"

lemma chain_at_nslots:
  assumes "same_shape g g'" "slots_ok (st_slots g)" "slots_ok (st_slots g')"
    and "\<And>i. i \<in> set l \<Longrightarrow> i < nslots g \<and> cell g' (LSlot i) = cell g (LSlot i)"
  shows "chain_at g' p l \<longleftrightarrow> chain_at g p l"
  using assms(4)
proof (induction l arbitrary: p)
  case Nil
  then show ?case by simp
next
  case (Cons i l)
  then have "i \<le> nslots g" "cell g' (LSlot i) = cell g (LSlot i)"
    by (auto intro: less_imp_le)
  then show ?case using Cons same_shape_ioff [OF assms(1-3), of i] by simp
qed

lemma cell_put_other: "l \<noteq> l' \<Longrightarrow> cell (put l v g) l' = cell g l'"
  by (cases l; cases l') auto

lemma cell_put_same: "loc_ok g l \<Longrightarrow> hdr_ok g \<Longrightarrow> cell (put l v g) l = v"
  by (cases l) (auto simp: hdr_ok_def)

lemma chain_at_put:
  assumes "wf_store g" "loc_ok g loc" "int v \<le> PTR_MAX"
    and "set l \<subseteq> {..<nslots g}" "loc \<notin> LSlot ` set l"
  shows "chain_at (put loc v g) p l \<longleftrightarrow> chain_at g p l"
proof (rule chain_at_nslots)
  show "slots_ok (st_slots g)" "slots_ok (st_slots (put loc v g))"
    using assms(1) wf_put [OF assms(1-3)] by (simp_all add: wf_store_def)
  show "same_shape g (put loc v g)" using assms(2) by simp
  show "i < nslots g \<and> cell (put loc v g) (LSlot i) = cell g (LSlot i)" if "i \<in> set l" for i
    using assms(4,5) that cell_put_other [of loc "LSlot i" v g] by auto
qed

lemma chain_at_cell_le:
  "chain_at g p l \<Longrightarrow> wf_store g \<Longrightarrow> set l \<subseteq> {..<nslots g} \<Longrightarrow> int p \<le> PTR_MAX"
  by (cases l) (auto simp: wf_store_def)

lemma cell_slot_le: "wf_store g \<Longrightarrow> i < nslots g \<Longrightarrow> int (cell g (LSlot i)) \<le> PTR_MAX"
  by (auto simp: wf_store_def slots_ok_def slot_ok_def)

lemma chain_unlink:
  assumes "wf_store g" "loc_ok g loc"
    and "chain_at g (cell g loc) (l1 @ i # l2)" "distinct (l1 @ i # l2)"
    and "set (l1 @ i # l2) \<subseteq> {..<nslots g}" "loc \<notin> LSlot ` set (l1 @ i # l2)"
  shows "chain_at (unlink loc l1 i g) (cell (unlink loc l1 i g) loc) (l1 @ l2)"
  using assms(2-)
proof (induction l1 arbitrary: loc)
  case Nil
  have le: "int (cell g (LSlot i)) \<le> PTR_MAX" using assms(1) Nil by (intro cell_slot_le) auto
  have "chain_at (unlink loc [] i g) (cell g (LSlot i)) l2"
    unfolding unlink_def pred_loc_def using Nil assms(1) le
    by (auto simp: chain_at_put)
  then show ?case
    using Nil assms(1) by (simp add: unlink_def pred_loc_def cell_put_same wf_store_def)
next
  case (Cons a l1)
  let ?g = "unlink loc (a # l1) i g"
  have pl: "pred_loc loc (a # l1) = pred_loc (LSlot a) l1" by (simp add: pred_loc_def)
  then have eq: "?g = unlink (LSlot a) l1 i g" by (simp add: unlink_def)
  have a: "a < nslots g" using Cons.prems by simp
  have IH: "chain_at ?g (cell ?g (LSlot a)) (l1 @ l2)"
    unfolding eq using Cons.prems by (intro Cons.IH) auto
  have le: "int (cell g (LSlot i)) \<le> PTR_MAX" using assms(1) Cons.prems by (intro cell_slot_le) auto
  have plin: "pred_loc (LSlot a) l1 \<in> LSlot ` set (a # l1)" by (auto simp: pred_loc_def)
  then have ok: "loc_ok g (pred_loc (LSlot a) l1)" using Cons.prems by auto
  have wf': "wf_store ?g" unfolding unlink_def pl by (rule wf_put [OF assms(1) ok le])
  have "cell ?g loc = cell g loc"
    unfolding unlink_def pl using plin Cons.prems(5) by (intro cell_put_other) auto
  moreover have "ioff (st_slots ?g) a = ioff (st_slots g) a"
    using a wf' assms(1) ok unfolding unlink_def pl by (intro same_shape_ioff) (auto simp: wf_store_def)
  ultimately show ?case using IH Cons.prems(2) by simp
qed

section \<open>The structure of the index\<close>

text \<open>
  Chains start at the free-list pointer or at an entry of the hash table.  In
  \<open>threaded g X cl\<close> the slots of \<open>X\<close> are detached, and \<open>cl s\<close> lists the slots
  on the chain that starts at \<open>s\<close>.
\<close>

definition starts :: "loc set" where
  "starts = insert LFree (LHead ` {..<NHASH_DEF})"

definition threaded :: "store \<Rightarrow> nat set \<Rightarrow> (loc \<Rightarrow> nat list) \<Rightarrow> bool" where
  "threaded g X cl \<longleftrightarrow> wf_store g \<and>
     (\<forall>s \<in> starts. chain_at g (cell g s) (cl s) \<and> distinct (cl s) \<and>
        set (cl s) \<subseteq> {..<nslots g} - X) \<and>
     (\<forall>s \<in> starts. \<forall>t \<in> starts. s \<noteq> t \<longrightarrow> set (cl s) \<inter> set (cl t) = {}) \<and>
     {..<nslots g} - X \<subseteq> (\<Union>s \<in> starts. set (cl s))"

definition push :: "loc \<Rightarrow> nat \<Rightarrow> slot \<Rightarrow> store \<Rightarrow> store" where
  "push s i c g =
     put s (ioff (st_slots g) i) (put_slot i (c\<lparr>s_next := cell g s\<rparr>) g)"

lemma start_loc_ok [simp]: "s \<in> starts \<Longrightarrow> loc_ok g s"
  by (auto simp: starts_def)

lemma start_not_slot [simp]: "s \<in> starts \<Longrightarrow> s \<noteq> LSlot i" "s \<in> starts \<Longrightarrow> s \<notin> LSlot ` A"
  and slot_not_start [simp]: "LSlot i \<notin> starts"
  by (auto simp: starts_def)

lemma threadedD:
  assumes "threaded g X cl" "s \<in> starts"
  shows "wf_store g" "chain_at g (cell g s) (cl s)" "distinct (cl s)"
    "set (cl s) \<subseteq> {..<nslots g}" "set (cl s) \<inter> X = {}"
  using assms by (auto simp: threaded_def)

lemma threaded_disjoint:
  "threaded g X cl \<Longrightarrow> s \<in> starts \<Longrightarrow> t \<in> starts \<Longrightarrow> s \<noteq> t \<Longrightarrow> set (cl s) \<inter> set (cl t) = {}"
  by (auto simp: threaded_def)

lemma threaded_covered: "threaded g X cl \<Longrightarrow> {..<nslots g} - X \<subseteq> (\<Union>s \<in> starts. set (cl s))"
  by (simp add: threaded_def)

lemma covered_remove:
  assumes "A - X \<subseteq> (\<Union>t \<in> S. set (cl t))" "cl s = l1 @ i # l2"
  shows "A - insert i X \<subseteq> (\<Union>t \<in> S. set ((cl(s := l1 @ l2)) t))"
proof
  fix j assume j: "j \<in> A - insert i X"
  with assms(1) obtain t where "t \<in> S" "j \<in> set (cl t)" by auto
  with assms(2) j have "j \<in> set ((cl(s := l1 @ l2)) t)" by auto
  with \<open>t \<in> S\<close> show "j \<in> (\<Union>t \<in> S. set ((cl(s := l1 @ l2)) t))" by blast
qed

lemma covered_add:
  assumes "A - X \<subseteq> (\<Union>t \<in> S. set (cl t))" "s \<in> S"
  shows "A - (X - {i}) \<subseteq> (\<Union>t \<in> S. set ((cl(s := i # cl s)) t))"
proof
  fix j assume j: "j \<in> A - (X - {i})"
  show "j \<in> (\<Union>t \<in> S. set ((cl(s := i # cl s)) t))"
  proof (cases "j = i")
    case True
    with assms(2) show ?thesis by (intro UN_I [of s]) auto
  next
    case False
    with assms(1) j obtain t where "t \<in> S" "j \<in> set (cl t)" by auto
    then show ?thesis by (intro UN_I [of t]) auto
  qed
qed

lemma start_cell_le: "threaded g X cl \<Longrightarrow> s \<in> starts \<Longrightarrow> int (cell g s) \<le> PTR_MAX"
  using chain_at_cell_le [of g "cell g s" "cl s"] threadedD [of g X cl s] by simp

lemma nslots_put [simp]: "nslots (put l v g) = nslots g"
  by (cases l) auto

lemma nslots_put_slot [simp]: "nslots (put_slot i c g) = nslots g"
  by (simp add: put_slot_def)

lemma pred_loc_ok:
  "s \<in> starts \<Longrightarrow> set l1 \<subseteq> {..<nslots g} \<Longrightarrow> loc_ok g (pred_loc s l1)"
  using subsetD [of "set l1" "{..<nslots g}" "last l1"] by (auto simp: pred_loc_def)

lemma threaded_unlink:
  assumes th: "threaded g X cl" and s: "s \<in> starts" and cl: "cl s = l1 @ i # l2"
  shows "threaded (unlink s l1 i g) (insert i X) (cl(s := l1 @ l2))"
proof -
  let ?g = "unlink s l1 i g"
  note sD = threadedD [OF th s, unfolded cl]
  have le: "int (cell g (LSlot i)) \<le> PTR_MAX" using sD by (intro cell_slot_le) auto
  have ok: "loc_ok g (pred_loc s l1)" using sD s by (intro pred_loc_ok) auto
  have wf: "wf_store ?g" unfolding unlink_def by (rule wf_put [OF sD(1) ok le])
  have n: "nslots ?g = nslots g" by (simp add: unlink_def)
  have chain_s: "chain_at ?g (cell ?g s) (l1 @ l2)"
    using sD s by (intro chain_unlink) auto
  have chain_t: "chain_at ?g (cell ?g t) (cl t)" if t: "t \<in> starts" "t \<noteq> s" for t
  proof -
    have dj: "set (cl t) \<inter> set (l1 @ i # l2) = {}"
      using threaded_disjoint [OF th t(1) s t(2)] cl by simp
    have "pred_loc s l1 \<noteq> t" using t s by (auto simp: pred_loc_def)
    then have "cell ?g t = cell g t" unfolding unlink_def by (intro cell_put_other)
    moreover have "pred_loc s l1 \<notin> LSlot ` set (cl t)"
      using dj s by (auto simp: pred_loc_def)
    then have "chain_at ?g (cell g t) (cl t)"
      unfolding unlink_def using threadedD [OF th t(1)] le ok by (simp add: chain_at_put)
    ultimately show ?thesis by simp
  qed
  have dj: "set (cl t) \<inter> set (l1 @ i # l2) = {}" if "t \<in> starts" "t \<noteq> s" for t
    using threaded_disjoint [OF th that(1) s that(2)] cl by simp
  show ?thesis
    unfolding threaded_def
  proof (intro conjI ballI impI)
    show "wf_store ?g" by (rule wf)
    show "chain_at ?g (cell ?g t) ((cl(s := l1 @ l2)) t)" if "t \<in> starts" for t
      using chain_s chain_t [OF that] by simp
    show "distinct ((cl(s := l1 @ l2)) t)" if "t \<in> starts" for t
      using sD(3) threadedD(3) [OF th that] by auto
    show "set ((cl(s := l1 @ l2)) t) \<subseteq> {..<nslots ?g} - insert i X" if t: "t \<in> starts" for t
      using sD threadedD(4,5) [OF th t] dj [OF t] n by auto
    show "set ((cl(s := l1 @ l2)) t) \<inter> set ((cl(s := l1 @ l2)) u) = {}"
      if "t \<in> starts" "u \<in> starts" "t \<noteq> u" for t u
      using threaded_disjoint [OF th that] dj [of t] dj [of u] that by (auto simp: disjoint_iff)
    show "{..<nslots ?g} - insert i X \<subseteq> (\<Union>t \<in> starts. set ((cl(s := l1 @ l2)) t))"
      unfolding n using cl by (rule covered_remove [OF threaded_covered [OF th]])
  qed
qed

lemma push_cells:
  assumes th: "threaded g X cl" and s: "s \<in> starts" and i: "i \<in> X" "i < nslots g"
    and c: "slot_ok (doff (st_slots g) i) c" "shape c = shape (st_slots g ! i)"
  shows "wf_store (push s i c g)" "nslots (push s i c g) = nslots g"
    "ioff (st_slots (push s i c g)) i = ioff (st_slots g) i" "cell (push s i c g) s = ioff (st_slots g) i"
    "t \<in> starts \<Longrightarrow> t \<noteq> s \<Longrightarrow> cell (push s i c g) t = cell g t" "cell (push s i c g) (LSlot i) = cell g s"
    "t \<in> starts \<Longrightarrow> chain_at (push s i c g) p (cl t) \<longleftrightarrow> chain_at g p (cl t)"
proof -
  let ?c = "c\<lparr>s_next := cell g s\<rparr>"
  let ?g1 = "put_slot i ?c g" and ?g = "push s i c g"
  have wf: "wf_store g" by (rule threadedD(1) [OF th s])
  have c': "slot_ok (doff (st_slots g) i) ?c" "shape ?c = shape (st_slots g ! i)"
    using c start_cell_le [OF th s] by (auto intro: slot_ok_next)
  have sh1: "same_shape g ?g1" using i c' by simp
  have wf1: "wf_store ?g1" using wf i(2) c' by (intro wf_put_slot) auto
  have io: "int (ioff (st_slots g) i) \<le> PTR_MAX" using wf i(2) by (auto simp: wf_store_def)
  show wf2: "wf_store ?g" unfolding push_def using wf1 s io by (intro wf_put) auto
  show "nslots ?g = nslots g" by (simp add: push_def)
  have "same_shape ?g1 ?g" using s by (simp add: push_def)
  then have "same_shape g ?g" using sh1 by (simp add: same_shape_def)
  then show "ioff (st_slots ?g) i = ioff (st_slots g) i" using wf wf2 i(2) by (intro same_shape_ioff) (auto simp: wf_store_def)
  show "cell ?g s = ioff (st_slots g) i"
    unfolding push_def using wf1 s by (intro cell_put_same) (auto simp: wf_store_def)
  have "cell ?g (LSlot i) = cell ?g1 (LSlot i)" unfolding push_def using s by (intro cell_put_other) auto
  then show "cell ?g (LSlot i) = cell g s" using i(2) by (simp add: put_slot_def)
  assume t: "t \<in> starts"
  {
    assume "t \<noteq> s"
    then have "cell ?g t = cell ?g1 t" unfolding push_def using t by (intro cell_put_other) auto
    then show "cell ?g t = cell g t" using t by (auto simp: put_slot_def starts_def)
  }
  have notin: "i \<notin> set (cl t)" using threadedD(5) [OF th t] i by auto
  have "chain_at ?g1 p (cl t) \<longleftrightarrow> chain_at g p (cl t)"
  proof (rule chain_at_nslots [OF sh1])
    show "slots_ok (st_slots g)" "slots_ok (st_slots ?g1)" using wf wf1 by (simp_all add: wf_store_def)
    show "j < nslots g \<and> cell ?g1 (LSlot j) = cell g (LSlot j)" if "j \<in> set (cl t)" for j
      using that notin threadedD(4) [OF th t] by (cases "i = j") (auto simp: put_slot_def)
  qed
  then show "chain_at ?g p (cl t) \<longleftrightarrow> chain_at g p (cl t)"
    unfolding push_def using wf1 s io threadedD(4) [OF th t] by (subst chain_at_put) auto
qed

lemma threaded_push:
  assumes th: "threaded g X cl" and s: "s \<in> starts" and i: "i \<in> X" "i < nslots g"
    and c: "slot_ok (doff (st_slots g) i) c" "shape c = shape (st_slots g ! i)"
  shows "threaded (push s i c g) (X - {i}) (cl(s := i # cl s))"
  unfolding threaded_def
proof (intro conjI ballI impI)
  let ?g = "push s i c g"
  note pc = push_cells [OF assms]
  have out: "i \<notin> set (cl t)" if "t \<in> starts" for t using threadedD(5) [OF th that] i by auto
  show "wf_store ?g" by (rule pc(1))
  show "chain_at ?g (cell ?g t) ((cl(s := i # cl s)) t)" if "t \<in> starts" for t
    using that pc(3,4,6) pc(5) [OF that] pc(7) [OF that] pc(7) [OF s] threadedD(2) [OF th that] threadedD(2) [OF th s] by auto
  show "distinct ((cl(s := i # cl s)) t)" if "t \<in> starts" for t
    using out [OF s] threadedD(3) [OF th that] threadedD(3) [OF th s] by auto
  show "set ((cl(s := i # cl s)) t) \<subseteq> {..<nslots ?g} - (X - {i})" if t: "t \<in> starts" for t
    using threadedD(4,5) [OF th t] i pc(2) by (auto split: if_splits)
  show "set ((cl(s := i # cl s)) t) \<inter> set ((cl(s := i # cl s)) u) = {}"
    if "t \<in> starts" "u \<in> starts" "t \<noteq> u" for t u
    using threaded_disjoint [OF th that] out [of t] out [of u] that by (auto simp: disjoint_iff)
  show "{..<nslots ?g} - (X - {i}) \<subseteq> (\<Union>t \<in> starts. set ((cl(s := i # cl s)) t))"
    unfolding pc(2) using s by (rule covered_add [OF threaded_covered [OF th]])
qed

lemma chain_at_add_slot:
  "set l \<subseteq> {..<nslots g} \<Longrightarrow> chain_at (add_slot c g) p l \<longleftrightarrow> chain_at g p l"
  by (induction l arbitrary: p) (auto simp: add_slot_def ioff_add_slot nth_append)

lemma threaded_add_slot:
  assumes th: "threaded g X cl" and c: "slot_ok (doff (st_slots g) (nslots g)) c"
    and io: "int (ioff (st_slots g) (nslots g)) \<le> PTR_MAX"
  shows "threaded (add_slot c g) (insert (nslots g) X) cl"
proof -
  have wf: "wf_store (add_slot c g)" using th c io by (auto simp: threaded_def)
  have cell: "cell (add_slot c g) t = cell g t" if "t \<in> starts" for t
    using that by (auto simp: starts_def add_slot_def)
  have "chain_at (add_slot c g) (cell (add_slot c g) t) (cl t)" if "t \<in> starts" for t
    using threadedD [OF th that] cell [OF that] by (simp add: chain_at_add_slot)
  moreover have "set (cl t) \<subseteq> {..<nslots (add_slot c g)} - insert (nslots g) X" if "t \<in> starts" for t
    using threadedD(4,5) [OF th that] by (auto simp: add_slot_def)
  moreover have "{..<nslots (add_slot c g)} - insert (nslots g) X \<subseteq> {..<nslots g} - X"
    by (auto simp: add_slot_def less_Suc_eq)
  ultimately show ?thesis
    using wf threadedD(3) [OF th] threaded_disjoint [OF th] threaded_covered [OF th]
    unfolding threaded_def by (intro conjI ballI impI) (simp, simp, simp, simp, simp, meson subset_trans)
qed

end
