(* ===== verification/Db_Access.thy ===== *)
theory Db_Access
  imports Db_Chains
begin

text \<open>
  The primitives of \<^verbatim>\<open>db.c\<close> on files that encode a store: reading and writing
  a chain pointer is \<open>cell\<close> and \<open>put\<close>, reading and writing a record is a slot.
  Then the three search loops of the source, each following a chain (or the
  whole index file) to its end.
\<close>

section \<open>Pointers and records of a store\<close>

lemma readptr_cell:
  assumes "db_files M L (idx_image g) D db" "hdr_ok g" "loc_ok g l" "int (cell g l) \<le> PTR_MAX"
  obtains db' where "db_readptr db (int (loc_off g l)) = Inr (int (cell g l), db')"
    "db_files M L (idx_image g) D db'" "keeps db db'"
    "rec_fields db' = rec_fields db" "datbuf db' = datbuf db"
proof -
  obtain A C where A: "length A = loc_off g l" and eq: "idx_image g = A @ ptr7 (cell g l) @ C"
    using idx_cell_split [OF assms(2,3)] by (metis put_cell)
  show ?thesis
    by (rule db_readptr_ok [OF assms(1) [unfolded eq] A assms(4)]) (simp add: that eq)
qed

lemma writeptr_cell:
  assumes "db_files M L (idx_image g) D db" "hdr_ok g" "loc_ok g l" "int (cell g l) \<le> PTR_MAX"
    and "length (idx_image g) \<le> M" "int v \<le> PTR_MAX"
  obtains db' where "db_writeptr db (int (loc_off g l)) (int v) = Inr db'"
    "db_files M L (idx_image (put l v g)) D db'" "keeps db db'"
    "rec_fields db' = rec_fields db" "datbuf db' = datbuf db"
proof -
  obtain A C where A: "length A = loc_off g l" and eq: "\<And>v. idx_image (put l v g) = A @ ptr7 v @ C"
    using idx_cell_split [OF assms(2,3)] by blast
  have eq0: "idx_image g = A @ ptr7 (cell g l) @ C" using eq [of "cell g l"] by simp
  have "loc_off g l + 7 \<le> M" using assms(4,5) A by (simp add: eq0)
  then show ?thesis
    using db_writeptr_ok [OF assms(1) [unfolded eq0] A assms(4,6)] that by (auto simp: eq)
qed

lemma readidx_slot:
  assumes "db_files M L (idx_image g) D db" "wf_store g" "i < nslots g"
    and "offset = int (ioff (st_slots g) i) \<or> offset = 0 \<and> fpos (idxfd db) = ioff (st_slots g) i"
  obtains db' where "db_readidx db offset = Inr (int (cell g (LSlot i)), db')"
    "db_files M L (idx_image g) D db'" "keeps db db'"
    "loaded (ioff (st_slots g) i) (doff (st_slots g) i) (st_slots g ! i) db'"
    "ptroff db' = ptroff db" "fpos (idxfd db') = ioff (st_slots g) (Suc i)"
proof -
  have hdr: "hdr_ok g" and ok: "slot_ok (doff (st_slots g) i) (st_slots g ! i)"
    using assms(2,3) by (auto simp: wf_store_def intro: slots_okD)
  obtain A C where A: "length A = ioff (st_slots g) i"
    and eq: "idx_image g = A @ rec_bytes (doff (st_slots g) i) (st_slots g ! i) @ C"
    using idx_slot_split [OF hdr assms(3)] by (metis put_slot_id)
  have at: "offset = int (ioff (st_slots g) i) \<and> 0 < ioff (st_slots g) i \<or>
      offset = 0 \<and> fpos (idxfd db) = ioff (st_slots g) i"
    using assms(4) by simp
  show ?thesis
    by (rule db_readidx_ok [OF assms(1) [unfolded eq] A ok at])
       (use assms(3) in \<open>simp add: that eq ioff_Suc\<close>)
qed

lemma writeidx_slot:
  assumes "db_files M L (idx_image g) D db" "wf_store g" "i < nslots g"
    and c: "slot_ok (doff (st_slots g) i) c" "shape c = shape (st_slots g ! i)"
    and dat: "datoff db = int (doff (st_slots g) i)" "datlen db = length (s_data c) + 1"
    and M: "length (idx_image g) \<le> M"
  obtains db' where
    "db_writeidx db (s_key c) (int (ioff (st_slots g) i)) SEEK_SET (int (s_next c)) = Inr db'"
    "db_files M L (idx_image (put_slot i c g)) D db'" "keeps db db'"
    "idxoff db' = int (ioff (st_slots g) i)" "ptroff db' = ptroff db"
proof -
  have hdr: "hdr_ok g" and ok: "slot_ok (doff (st_slots g) i) (st_slots g ! i)"
    using assms(2,3) by (auto simp: wf_store_def intro: slots_okD)
  obtain A C where A: "length A = ioff (st_slots g) i"
    and eq: "\<And>s. shape s = shape (st_slots g ! i) \<Longrightarrow>
      idx_image (put_slot i s g) = A @ rec_bytes (doff (st_slots g) i) s @ C"
    using idx_slot_split [OF hdr assms(3)] by blast
  have eq0: "idx_image g = A @ rec_bytes (doff (st_slots g) i) (st_slots g ! i) @ C"
    using eq [of "st_slots g ! i"] by simp
  have len: "length (rec_bytes (doff (st_slots g) i) (st_slots g ! i)) =
      length (rec_bytes (doff (st_slots g) i) c)"
    using ok c by (intro length_rec_bytes_ok) (auto simp: slot_ok_def)
  have "ioff (st_slots g) i + length (rec_bytes (doff (st_slots g) i) (st_slots g ! i)) \<le> M"
    using M A by (simp add: eq0)
  then show ?thesis
    using db_writeidx_at [OF assms(1) [unfolded eq0] A len c(1) dat] that
    by (auto simp: eq [OF c(2)])
qed

lemma readdat_slot:
  assumes "db_files M L I (dat_image (st_slots g)) db" "wf_store g" "i < nslots g"
    and "loaded off (doff (st_slots g) i) (st_slots g ! i) db"
  obtains db' where "db_readdat db = Inr (s_data (st_slots g ! i), db')"
    "db_files M L I (dat_image (st_slots g)) db'" "keeps db db'" "rec_fields db' = rec_fields db"
    "idxfd db' = idxfd db"
proof -
  obtain A C where A: "length A = doff (st_slots g) i"
    and eq: "dat_image (st_slots g) = A @ dat_bytes (st_slots g ! i) @ C"
    using dat_slot_split [OF assms(3)] by (metis list_update_id)
  have ok: "c_string (s_data (st_slots g ! i))"
    using assms(2,3) by (auto simp: wf_store_def slots_ok_def slot_ok_def)
  show ?thesis
    by (rule db_readdat_ok [OF assms(1) [unfolded eq] A ok])
       (use assms(4) in \<open>auto simp: loaded_def that eq\<close>)
qed

lemma writedat_slot:
  assumes "db_files M L I (dat_image ss) db" "i < length ss"
    and "length data = length (s_data (ss ! i))" "s_data c = data"
    and M: "length (dat_image ss) \<le> M"
  obtains db' where "db_writedat db data (int (doff ss i)) SEEK_SET = Inr db'"
    "db_files M L I (dat_image (ss[i := c])) db'" "keeps db db'"
    "datoff db' = int (doff ss i)" "datlen db' = length data + 1" "idxoff db' = idxoff db"
    "ptrval db' = ptrval db" "ptroff db' = ptroff db" "idxbuf db' = idxbuf db"
proof -
  obtain A C where A: "length A = doff ss i" and eq: "\<And>s. dat_image (ss[i := s]) = A @ dat_bytes s @ C"
    using dat_slot_split [OF assms(2)] by blast
  have eq0: "dat_image ss = A @ dat_bytes (ss ! i) @ C" using eq [of "ss ! i"] by simp
  have len: "length (dat_bytes (ss ! i)) = length data + 1" using assms(3) by (simp add: dat_bytes_def)
  have "doff ss i + length (dat_bytes (ss ! i)) \<le> M" using M A by (simp add: eq0)
  then show ?thesis
    using db_writedat_at [OF assms(1) [unfolded eq0] A len] that assms(4)
    by (auto simp: eq dat_bytes_def)
qed

section \<open>Search loops\<close>

lemma find_loop_ok:
  assumes "wf_store g"
  shows "chain_at g p l \<Longrightarrow> set l \<subseteq> {..<nslots g} \<Longrightarrow> db_files M L (idx_image g) D db \<Longrightarrow>
    \<exists>r db'. find_loop key (int p) db = Some (Inr (r, db')) \<and>
      db_files M L (idx_image g) D db' \<and> keeps db db' \<and>
      ((\<forall>i \<in> set l. s_key (st_slots g ! i) \<noteq> key) \<and> r = 0 \<or>
       (\<exists>l1 i l2. l = l1 @ i # l2 \<and> s_key (st_slots g ! i) = key \<and>
          r = int (ioff (st_slots g) i) \<and>
          loaded (ioff (st_slots g) i) (doff (st_slots g) i) (st_slots g ! i) db' \<and>
          ptroff db' = (if l1 = [] then ptroff db else int (ioff (st_slots g) (last l1)))))"
proof (induction l arbitrary: p db)
  case Nil
  then show ?case by (subst find_loop.simps) auto
next
  case (Cons i l)
  let ?off = "ioff (st_slots g) i"
  have i: "i < nslots g" and p: "p = ?off" and rest: "chain_at g (cell g (LSlot i)) l"
    using Cons.prems by auto
  obtain db1 where 1: "db_readidx db (int p) = Inr (int (cell g (LSlot i)), db1)"
    "db_files M L (idx_image g) D db1" "keeps db db1"
    "loaded ?off (doff (st_slots g) i) (st_slots g ! i) db1" "ptroff db1 = ptroff db"
    using readidx_slot [OF Cons.prems(3) assms i, of "int p"] p by blast
  have p0: "p \<noteq> 0" using p ioff_pos [of "st_slots g" i] by simp
  have key: "cstr (idxbuf db1) = s_key (st_slots g ! i)" using 1(4) by (simp add: loaded_def)
  show ?case
  proof (cases "s_key (st_slots g ! i) = key")
    case True
    then have "find_loop key (int p) db = Some (Inr (int p, db1))"
      using 1(1) key p0 by (subst find_loop.simps) simp
    then show ?thesis using 1 True p
      by (intro exI [of _ "int p"] exI [of _ db1]) (auto intro!: exI [of _ "[]"])
  next
    case False
    let ?db = "db1\<lparr>ptroff := int p\<rparr>"
    have step: "find_loop key (int p) db = find_loop key (int (cell g (LSlot i))) ?db"
      using False 1(1) key p0 by (subst find_loop.simps) simp
    have fs: "db_files M L (idx_image g) D ?db" using 1(2) by (simp add: db_files_def)
    have sub: "set l \<subseteq> {..<nslots g}" using Cons.prems(2) by simp
    from Cons.IH [OF rest sub fs] obtain r db' where r: "find_loop key (int (cell g (LSlot i))) ?db = Some (Inr (r, db'))"
      "db_files M L (idx_image g) D db'" "keeps ?db db'"
      and or: "(\<forall>i \<in> set l. s_key (st_slots g ! i) \<noteq> key) \<and> r = 0 \<or>
       (\<exists>l1 i l2. l = l1 @ i # l2 \<and> s_key (st_slots g ! i) = key \<and>
          r = int (ioff (st_slots g) i) \<and>
          loaded (ioff (st_slots g) i) (doff (st_slots g) i) (st_slots g ! i) db' \<and>
          ptroff db' = (if l1 = [] then ptroff ?db else int (ioff (st_slots g) (last l1))))"
      by blast
    have keeps: "keeps db db'" using 1(3) r(3) by (simp add: keeps_def db_counts_def)
    from or show ?thesis
    proof (elim disjE conjE exE)
      assume "\<forall>i \<in> set l. s_key (st_slots g ! i) \<noteq> key" "r = 0"
      then show ?thesis using step r keeps False by auto
    next
      fix l1 j l2
      assume j: "l = l1 @ j # l2" "s_key (st_slots g ! j) = key" "r = int (ioff (st_slots g) j)"
        "loaded (ioff (st_slots g) j) (doff (st_slots g) j) (st_slots g ! j) db'"
        "ptroff db' = (if l1 = [] then ptroff ?db else int (ioff (st_slots g) (last l1)))"
      then have "i # l = (i # l1) @ j # l2"
        "ptroff db' = (if i # l1 = [] then ptroff db else int (ioff (st_slots g) (last (i # l1))))"
        using p by simp_all
      then show ?thesis using step r keeps j(2-4) by metis
    qed
  qed
qed

lemma findfree_loop_ok:
  assumes "wf_store g"
  shows "chain_at g p l \<Longrightarrow> set l \<subseteq> {..<nslots g} \<Longrightarrow> db_files M L (idx_image g) D db \<Longrightarrow>
    \<exists>s r db'. findfree_loop kl dl save (int p) db = Some (Inr (s, r, db')) \<and>
      db_files M L (idx_image g) D db' \<and> keeps db db' \<and> ptroff db' = ptroff db \<and>
      (r = 0 \<or>
       (\<exists>l1 i l2. l = l1 @ i # l2 \<and>
          length (s_key (st_slots g ! i)) = kl \<and> length (s_data (st_slots g ! i)) + 1 = dl \<and>
          r = int (ioff (st_slots g) i) \<and>
          loaded (ioff (st_slots g) i) (doff (st_slots g) i) (st_slots g ! i) db' \<and>
          s = (if l1 = [] then save else int (ioff (st_slots g) (last l1)))))"
proof (induction l arbitrary: p db save)
  case Nil
  then show ?case by (subst findfree_loop.simps) auto
next
  case (Cons i l)
  let ?off = "ioff (st_slots g) i" and ?s = "st_slots g ! i"
  have i: "i < nslots g" and p: "p = ?off" and rest: "chain_at g (cell g (LSlot i)) l"
    using Cons.prems by auto
  obtain db1 where 1: "db_readidx db (int p) = Inr (int (cell g (LSlot i)), db1)"
    "db_files M L (idx_image g) D db1" "keeps db db1"
    "loaded ?off (doff (st_slots g) i) ?s db1" "ptroff db1 = ptroff db"
    using readidx_slot [OF Cons.prems(3) assms i, of "int p"] p by blast
  have p0: "p \<noteq> 0" using p ioff_pos [of "st_slots g" i] by simp
  have sz: "length (cstr (idxbuf db1)) = length (s_key ?s)" "datlen db1 = length (s_data ?s) + 1"
    using 1(4) by (simp_all add: loaded_def)
  show ?case
  proof (cases "length (s_key ?s) = kl \<and> length (s_data ?s) + 1 = dl")
    case True
    then have "findfree_loop kl dl save (int p) db = Some (Inr (save, int p, db1))"
      using 1(1) sz p0 by (subst findfree_loop.simps) simp
    then show ?thesis using 1 True p
      by (intro exI [of _ save] exI [of _ "int p"] exI [of _ db1]) (auto intro!: exI [of _ "[]"])
  next
    case False
    have step: "findfree_loop kl dl save (int p) db = findfree_loop kl dl (int p) (int (cell g (LSlot i))) db1"
      using False 1(1) sz p0 by (subst findfree_loop.simps) auto
    have sub: "set l \<subseteq> {..<nslots g}" using Cons.prems(2) by simp
    from Cons.IH [OF rest sub 1(2)] obtain s r db' where
      r: "findfree_loop kl dl (int p) (int (cell g (LSlot i))) db1 = Some (Inr (s, r, db'))"
      "db_files M L (idx_image g) D db'" "keeps db1 db'" "ptroff db' = ptroff db1"
      and or: "r = 0 \<or>
       (\<exists>l1 i l2. l = l1 @ i # l2 \<and>
          length (s_key (st_slots g ! i)) = kl \<and> length (s_data (st_slots g ! i)) + 1 = dl \<and>
          r = int (ioff (st_slots g) i) \<and>
          loaded (ioff (st_slots g) i) (doff (st_slots g) i) (st_slots g ! i) db' \<and>
          s = (if l1 = [] then int p else int (ioff (st_slots g) (last l1))))"
      by blast
    have keeps: "keeps db db'" "ptroff db' = ptroff db" using 1(3,5) r(3,4) keeps_trans by auto
    from or show ?thesis
    proof (elim disjE conjE exE)
      assume "r = 0"
      then show ?thesis using step r keeps by auto
    next
      fix l1 j l2
      assume j: "l = l1 @ j # l2" "length (s_key (st_slots g ! j)) = kl"
        "length (s_data (st_slots g ! j)) + 1 = dl" "r = int (ioff (st_slots g) j)"
        "loaded (ioff (st_slots g) j) (doff (st_slots g) j) (st_slots g ! j) db'"
        "s = (if l1 = [] then int p else int (ioff (st_slots g) (last l1)))"
      then have "i # l = (i # l1) @ j # l2"
        "s = (if i # l1 = [] then save else int (ioff (st_slots g) (last (i # l1))))"
        using p by simp_all
      then show ?thesis using step r keeps j(2-5) by metis
    qed
  qed
qed

end
