(* ===== verification/Db_Delete.thy ===== *)
theory Db_Delete
  imports Db_Refine
begin

text \<open>
  Deletion: \<^verbatim>\<open>_db_dodelete\<close> unlinks the record that \<^verbatim>\<open>_db_find_and_lock\<close> left in
  the structure from its hash chain, blanks it and pushes it onto the free list;
  on the map, \<^verbatim>\<open>db_delete\<close> removes the key.
\<close>

section \<open>Blanked records\<close>

definition blank_slot :: "slot \<Rightarrow> slot" where
  "blank_slot s = \<lparr>s_next = s_next s, s_key = replicate (length (s_key s)) SPACE,
                   s_data = replicate (length (s_data s)) SPACE\<rparr>"

lemma shape_blank [simp]: "shape (blank_slot s) = shape s"
  by (simp add: blank_slot_def shape_def)

lemma slot_ok_blank: "slot_ok d s \<Longrightarrow> slot_ok d (blank_slot s)"
  using length_rec_body_shape [of "blank_slot s" s d] by (auto simp: slot_ok_def blank_slot_def shape_def)

lemma cstr_blank_cstr: "cstr (blank_cstr b) = replicate (length (cstr b)) SPACE"
  unfolding blank_cstr_def cstr_def by (induction b) simp_all

section \<open>Reordering the writes\<close>

lemma put_push_commute:
  assumes "pl \<noteq> s" "pl \<noteq> LSlot i" "s \<noteq> LSlot i" "ioff (st_slots (put pl v g)) i = ioff (st_slots g) i"
  shows "put pl v (push s i c g) = push s i c (put pl v g)"
  using assms
  by (cases pl; cases s) (auto simp: push_def put_slot_def list_update_swap)

lemma skey_push:
  assumes "i < nslots g"
  shows "skey (push s i c g) j = (if j = i then s_key c else skey g j)"
    "sdata (push s i c g) j = (if j = i then s_data c else sdata g j)"
  using assms by (auto simp: push_def put_slot_def nth_list_update)

lemma skey_unlink [simp]: "skey (unlink s l1 i g) j = skey g j" "sdata (unlink s l1 i g) j = sdata g j"
  by (simp_all add: unlink_def)

lemma dat_image_push:
  "dat_image (st_slots (push s i c g)) = dat_image ((st_slots g)[i := c])"
  unfolding push_def dat_image_put
  by (simp add: put_slot_def dat_image_def map_update)

lemma pred_loc_simps:
  assumes "s \<in> starts" "i \<notin> set l1"
  shows "pred_loc s l1 \<noteq> LSlot i" "t \<in> starts \<Longrightarrow> t \<noteq> s \<Longrightarrow> pred_loc s l1 \<noteq> t"
  using assms last_in_set [of l1] by (auto simp: pred_loc_def simp del: last_in_set)

section \<open>The store without a record\<close>

definition remove :: "loc \<Rightarrow> nat list \<Rightarrow> nat \<Rightarrow> store \<Rightarrow> store" where
  "remove s l1 i g = push LFree i (blank_slot (st_slots g ! i)) (unlink s l1 i g)"

abbreviation (input) removed :: "loc \<Rightarrow> nat list \<Rightarrow> nat \<Rightarrow> nat list \<Rightarrow> (loc \<Rightarrow> nat list) \<Rightarrow> loc \<Rightarrow> nat list"
  where "removed s l1 i l2 cl \<equiv> cl(s := l1 @ l2, LFree := i # cl LFree)"

lemma skey_remove:
  assumes "i < nslots g"
  shows "skey (remove s l1 i g) j = (if j = i then replicate (length (skey g i)) SPACE else skey g j)"
    "j \<noteq> i \<Longrightarrow> sdata (remove s l1 i g) j = sdata g j"
  using assms skey_push [of i "unlink s l1 i g"]
  by (simp_all add: remove_def blank_slot_def unlink_def)

lemma threaded_remove:
  assumes th: "threaded g {} cl" and s: "s \<in> starts" "s \<noteq> LFree" and cl: "cl s = l1 @ i # l2"
  shows "threaded (remove s l1 i g) {} (removed s l1 i l2 cl)"
proof -
  let ?u = "unlink s l1 i g"
  have i: "i < nslots g" and wf: "wf_store g" using threadedD [OF th s(1)] cl by auto
  have u: "threaded ?u {i} (cl(s := l1 @ l2))" using threaded_unlink [OF th s(1) cl] by simp
  have sh: "same_shape g ?u"
    unfolding unlink_def using threadedD [OF th s(1)] s(1) cl
    by (intro same_shape_put pred_loc_ok) auto
  have "slot_ok (doff (st_slots g) i) (st_slots g ! i)" using wf i by (auto simp: wf_store_def slots_okD)
  then have ok: "slot_ok (doff (st_slots ?u) i) (blank_slot (st_slots g ! i))"
    unfolding same_shape_doff [OF sh] by (rule slot_ok_blank)
  have "shape (st_slots ?u ! i) = shape (st_slots g ! i)"
    using sh i same_shape_length [OF sh] unfolding same_shape_def by (metis nth_map)
  then show ?thesis
    using threaded_push [OF u LFree_start _ _ ok] i s(2) same_shape_length [OF sh]
    unfolding remove_def by (simp add: fun_upd_twist)
qed

lemma map_of_skip:
  "f i \<noteq> key \<Longrightarrow> map_of (map (\<lambda>i. (f i, h i)) (l1 @ i # l2)) key = map_of (map (\<lambda>i. (f i, h i)) (l1 @ l2)) key"
  by (induction l1) auto

lemma map_other: "i \<notin> set l \<Longrightarrow> (\<And>j. j \<noteq> i \<Longrightarrow> f j = h j) \<Longrightarrow> map f l = map h l"
  by (induction l) auto

lemma db_map_cong:
  assumes "\<And>j. j \<in> set (cl (hchain key)) \<Longrightarrow> skey g' j = skey g j \<and> sdata g' j = sdata g j"
    and "cl' (hchain key) = cl (hchain key)"
  shows "db_map g' cl' key = db_map g cl key"
  unfolding db_map_def assms(2) using assms(1) by (intro arg_cong2 [of _ _ _ _ map_of] map_cong) auto

lemma remove_content:
  assumes th: "threaded g {} cl" and ct: "content g cl" and h: "h < NHASH_DEF"
    and cl: "cl (LHead h) = l1 @ i # l2"
  shows "content (remove (LHead h) l1 i g) (removed (LHead h) l1 i l2 cl)"
proof -
  let ?g = "remove (LHead h) l1 i g"
  have s: "LHead h \<in> starts" using h by (simp add: starts_def)
  have i: "i < nslots g" and dist: "distinct (l1 @ i # l2)" using threadedD [OF th s] cl by auto
  have out: "i \<notin> set (cl t)" if "t \<in> starts" "t \<noteq> LHead h" for t
    using threaded_disjoint [OF th that(1) s that(2)] cl by auto
  have keep: "skey ?g j = skey g j" if "j \<noteq> i" for j using skey_remove(1) [OF i] that by simp
  have eq: "map (skey ?g) l = map (skey g) l" if "i \<notin> set l" for l
    using that keep by (rule map_other)
  have hk: "i \<notin> set (removed (LHead h) l1 i l2 cl (LHead k))" if "k < NHASH_DEF" for k
    using dist out [of "LHead k"] that by (auto simp: starts_def)
  show ?thesis
    unfolding content_def
  proof (intro conjI ballI allI impI)
    show "c = SPACE" if "j \<in> set (removed (LHead h) l1 i l2 cl LFree)" "c \<in> set (skey ?g j)" for j c
      using that ct skey_remove(1) [OF i] by (auto simp: content_def split: if_splits)
    show "hashn (skey ?g j) = k" if "k < NHASH_DEF" "j \<in> set (removed (LHead h) l1 i l2 cl (LHead k))" for j k
    proof -
      have "j \<noteq> i" "j \<in> set (cl (LHead k))" using that(2) hk [OF that(1)] cl by (auto split: if_splits)
      then show ?thesis using ct that(1) keep by (simp add: content_def)
    qed
    show "distinct (map (skey ?g) (removed (LHead h) l1 i l2 cl (LHead k)))" if "k < NHASH_DEF" for k
      unfolding eq [OF hk [OF that]] using contentD(3) [OF ct that] contentD(3) [OF ct h] cl by simp
  qed
qed

lemma remove_db_map:
  assumes th: "threaded g {} cl" and ct: "content g cl"
    and cl: "cl (hchain key) = l1 @ i # l2" and key: "skey g i = key"
  shows "db_map (remove (hchain key) l1 i g) (removed (hchain key) l1 i l2 cl) = (db_map g cl)(key := None)"
proof
  fix k
  let ?g = "remove (hchain key) l1 i g" and ?cl = "removed (hchain key) l1 i l2 cl"
  have i: "i < nslots g" and dist: "distinct (l1 @ i # l2)" using threadedD [OF th hchain_start [of key]] cl by auto
  have keep: "skey ?g j = skey g j \<and> sdata ?g j = sdata g j" if "j \<noteq> i" for j
    using skey_remove [OF i] that by simp
  have inj: "skey g j \<noteq> key" if "j \<in> set (l1 @ l2)" for j
  proof -
    have "distinct (map (skey g) (l1 @ i # l2))" using ct hashn_less [of key] cl by (metis content_def)
    with that key show ?thesis by (force simp: image_iff)
  qed
  show "db_map ?g ?cl k = ((db_map g cl)(key := None)) k"
  proof (cases "hashn k = hashn key")
    case True
    have "map (\<lambda>i. (skey ?g i, sdata ?g i)) (l1 @ l2) = map (\<lambda>i. (skey g i, sdata g i)) (l1 @ l2)"
      by (rule map_other [of i]) (use keep dist in auto)
    moreover have "?cl (hchain k) = l1 @ l2" by (simp add: True)
    ultimately have 1: "db_map ?g ?cl k = map_of (map (\<lambda>i. (skey g i, sdata g i)) (l1 @ l2)) k"
      unfolding db_map_def by (simp only:)
    have 2: "db_map g cl k = map_of (map (\<lambda>i. (skey g i, sdata g i)) (l1 @ i # l2)) k"
      unfolding db_map_def by (simp add: True cl)
    show ?thesis
    proof (cases "k = key")
      case True
      then have "k \<notin> fst ` set (map (\<lambda>i. (skey g i, sdata g i)) (l1 @ l2))" using inj by force
      then show ?thesis using True 1 by (simp only: map_of_eq_None_iff fun_upd_same simp_thms)
    next
      case False
      then show ?thesis unfolding 1 fun_upd_other [OF False] 2
        using key by (intro map_of_skip [symmetric]) simp
    qed
  next
    case False
    then have "i \<notin> set (cl (hchain k))"
      using threaded_disjoint [OF th hchain_start [of k] hchain_start [of key]] cl by auto
    then have "\<And>j. j \<in> set (cl (hchain k)) \<Longrightarrow> j \<noteq> i" by auto
    then have "db_map ?g ?cl k = db_map g cl k" using False keep by (intro db_map_cong) auto
    then show ?thesis using False by auto
  qed
qed

section \<open>The code\<close>

lemma same_shape_unlink:
  assumes "threaded g X cl" "s \<in> starts" "cl s = l1 @ i # l2"
  shows "same_shape g (unlink s l1 i g)" "loc_ok g (pred_loc s l1)" "wf_store (unlink s l1 i g)"
proof -
  show ok: "loc_ok g (pred_loc s l1)" using threadedD [OF assms(1,2)] assms by (intro pred_loc_ok) auto
  then show "same_shape g (unlink s l1 i g)" unfolding unlink_def by simp
  show "wf_store (unlink s l1 i g)"
    using threaded_unlink [OF assms] threadedD(1) [OF _ LFree_start] by blast
qed

lemma put_unlink_remove:
  assumes th: "threaded g {} cl" and s: "s \<in> starts" "s \<noteq> LFree" and cl: "cl s = l1 @ i # l2"
  shows "put (pred_loc s l1) (s_next (st_slots g ! i)) (push LFree i (blank_slot (st_slots g ! i)) g)
    = remove s l1 i g"
proof -
  have "i \<notin> set l1" using threadedD(3) [OF th s(1)] cl by auto
  note pl = pred_loc_simps [OF s(1) this]
  have i: "i < nslots g" using threadedD(4) [OF th s(1)] cl by auto
  have "ioff (st_slots (unlink s l1 i g)) i = ioff (st_slots g) i"
    using same_shape_unlink [OF th s(1) cl] threadedD(1) [OF th s(1)] i
    by (intro same_shape_ioff) (auto simp: wf_store_def)
  then show ?thesis
    unfolding remove_def using pl(1) pl(2) [OF LFree_start] s(2)
    by (subst put_push_commute) (auto simp: unlink_def)
qed

text \<open>The store while a record is deleted: blanked and on the free list, but still on its chain.\<close>

lemma blanked_store:
  fixes g cl s l1 i l2
  defines "c \<equiv> (blank_slot (st_slots g ! i))\<lparr>s_next := cell g LFree\<rparr>"
  defines "g1 \<equiv> put_slot i c g" and "g2 \<equiv> put LFree (ioff (st_slots g) i) (put_slot i c g)"
  assumes th: "threaded g {} cl" and s: "s \<in> starts" "s \<noteq> LFree" and cl: "cl s = l1 @ i # l2"
  shows "wf_store g" "i < nslots g" "slot_ok (doff (st_slots g) i) c" "shape c = shape (st_slots g ! i)"
    "int (ioff (st_slots g) i) \<le> PTR_MAX" "wf_store g1" "same_shape g g1" "wf_store g2" "same_shape g g2"
    "loc_ok g2 (pred_loc s l1)" "loc_off g2 (pred_loc s l1) = loc_off g (pred_loc s l1)"
    "put (pred_loc s l1) (s_next (st_slots g ! i)) g2 = remove s l1 i g"
    "dat_image ((st_slots g)[i := c]) = dat_image (st_slots (remove s l1 i g))"
proof -
  show wf: "wf_store g" and i: "i < nslots g" using threadedD [OF th s(1)] cl by auto
  then have ok: "slot_ok (doff (st_slots g) i) (st_slots g ! i)" by (auto simp: wf_store_def slots_okD)
  show c: "slot_ok (doff (st_slots g) i) c" "shape c = shape (st_slots g ! i)"
    unfolding c_def using slot_ok_next [OF slot_ok_blank [OF ok] start_cell_le [OF th LFree_start]] by simp_all
  show io: "int (ioff (st_slots g) i) \<le> PTR_MAX" using wf i by (simp add: wf_store_def)
  show g1: "wf_store g1" "same_shape g g1" unfolding g1_def using wf i c by auto
  show wf2: "wf_store g2" unfolding g2_def using g1 [unfolded g1_def] io by (intro wf_put) auto
  show sh2: "same_shape g g2"
    using g1(2) same_shape_put [of g1 LFree] unfolding g2_def g1_def same_shape_def by simp
  show "loc_ok g2 (pred_loc s l1)" "loc_off g2 (pred_loc s l1) = loc_off g (pred_loc s l1)"
    using same_shape_unlink(2) [OF th s(1) cl] same_shape_loc_ok [OF sh2] same_shape_loc_off [OF sh2 wf wf2] by auto
  have g2: "g2 = push LFree i (blank_slot (st_slots g ! i)) g" by (simp add: g2_def c_def push_def)
  show "put (pred_loc s l1) (s_next (st_slots g ! i)) g2 = remove s l1 i g"
    unfolding g2 by (rule put_unlink_remove [OF th s cl])
  show "dat_image ((st_slots g)[i := c]) = dat_image (st_slots (remove s l1 i g))"
    unfolding put_unlink_remove [OF th s cl, symmetric] dat_image_put dat_image_push c_def
    by (simp add: dat_image_def map_update)
qed

lemma dodelete_ok:
  assumes fs: "db_files M L (idx_image g) (dat_image (st_slots g)) db"
    and th: "threaded g {} cl" and s: "s \<in> starts" "s \<noteq> LFree" and cl: "cl s = l1 @ i # l2"
    and ld: "loaded (ioff (st_slots g) i) (doff (st_slots g) i) (st_slots g ! i) db"
    and po: "ptroff db = int (loc_off g (pred_loc s l1))" and L: "L FREE_OFF = None"
    and M: "length (idx_image g) \<le> M" "length (dat_image (st_slots g)) \<le> M"
  obtains db' where "db_dodelete db = Inr db'" "keeps db db'"
    "db_files M L (idx_image (remove s l1 i g)) (dat_image (st_slots (remove s l1 i g))) db'"
proof -
  let ?ss = "st_slots g" and ?L = "lset L (Some F_WRLCK) FREE_OFF 1"
  let ?c = "(blank_slot (?ss ! i))\<lparr>s_next := cell g LFree\<rparr>"
  let ?D = "dat_image (?ss[i := ?c])" and ?g1 = "put_slot i ?c g"
  let ?g2 = "put LFree (ioff ?ss i) ?g1"
  note b = blanked_store [OF th s cl]
  note wf = b(1) and i = b(2) and c = b(3,4) and io = b(5) and g1 = b(6,7) and wf2 = b(8) and sh2 = b(9) and pl = b(10,11) and D = b(13)
  have hdr: "hdr_ok g" using wf by (simp add: wf_store_def)
  have free_le: "int (cell g LFree) \<le> PTR_MAX" using start_cell_le [OF th LFree_start] .
  let ?db0 = "db\<lparr>datbuf := replicate (datlen db - 1) SPACE @ [NUL], idxbuf := blank_cstr (idxbuf db)\<rparr>"
  have fs0: "db_files M L (idx_image g) (dat_image ?ss) ?db0" using fs by (simp add: db_files_def)
  obtain db1 where 1: "idx_lock ''_db_dodelete: writew_lock error'' (Some F_WRLCK) (int FREE_OFF) 1 ?db0 = Inr db1"
    "db_files M ?L (idx_image g) (dat_image ?ss) db1" "keeps ?db0 db1" "rec_fields db1 = rec_fields ?db0"
    "datbuf db1 = datbuf ?db0"
    using idx_lock_ok [OF fs0] by blast
  have f1: "datoff db1 = int (doff ?ss i)" "cstr (datbuf db1) = s_data ?c"
    "ptrval db1 = int (s_next (?ss ! i))" "idxoff db1 = int (ioff ?ss i)"
    "cstr (idxbuf db1) = s_key ?c" "ptroff db1 = ptroff db"
    using 1(4,5) ld by (simp_all add: rec_fields_def loaded_def clib cstr_blank_cstr blank_slot_def)
  have dlen: "length (s_data ?c) = length (s_data (?ss ! i))" by (simp add: blank_slot_def)
  obtain db2 where 2: "db_writedat db1 (s_data ?c) (int (doff ?ss i)) SEEK_SET = Inr db2"
    "db_files M ?L (idx_image g) ?D db2" "keeps db1 db2" "datoff db2 = int (doff ?ss i)"
    "datlen db2 = length (s_data ?c) + 1" "idxoff db2 = idxoff db1" "ptrval db2 = ptrval db1"
    "ptroff db2 = ptroff db1" "idxbuf db2 = idxbuf db1"
    using writedat_slot [OF 1(2) i dlen refl M(2)] by blast
  obtain db3 where 3: "db_readptr db2 (int FREE_OFF) = Inr (int (cell g LFree), db3)"
    "db_files M ?L (idx_image g) ?D db3" "keeps db2 db3" "rec_fields db3 = rec_fields db2"
    using readptr_cell [OF 2(2) hdr, of LFree] free_le by auto
  have f3: "datoff db3 = int (doff ?ss i)" "datlen db3 = length (s_data ?c) + 1"
    "ptrval db3 = int (s_next (?ss ! i))" "idxoff db3 = int (ioff ?ss i)"
    "cstr (idxbuf db3) = s_key ?c" "ptroff db3 = ptroff db"
    using 3(4) 2 f1 by (simp_all add: rec_fields_def)
  obtain db4 where 4: "db_writeidx db3 (s_key ?c) (int (ioff ?ss i)) SEEK_SET (int (s_next ?c)) = Inr db4"
    "db_files M ?L (idx_image ?g1) ?D db4" "keeps db3 db4" "idxoff db4 = int (ioff ?ss i)" "ptroff db4 = ptroff db3"
    using writeidx_slot [OF 3(2) wf i c f3(1,2) M(1)] by blast
  have M1: "length (idx_image ?g1) \<le> M" using same_shape_idx_length [OF g1(2) wf g1(1)] M by simp
  obtain db5 where 5: "db_writeptr db4 (int FREE_OFF) (int (ioff ?ss i)) = Inr db5"
    "db_files M ?L (idx_image ?g2) ?D db5" "keeps db4 db5" "rec_fields db5 = rec_fields db4"
    using writeptr_cell [OF 4(2) _ _ _ M1 io, of LFree] g1 wf_cell_le [OF g1(1), of LFree]
    by (auto simp: wf_store_def)
  have M2: "length (idx_image ?g2) \<le> M" using same_shape_idx_length [OF sh2 wf wf2] M by simp
  have nx: "int (s_next (?ss ! i)) \<le> PTR_MAX" and hdr2: "hdr_ok ?g2"
    using wf i wf2 by (auto simp: slot_ok_def wf_store_def dest: slots_okD)
  obtain db6 where 6: "db_writeptr db5 (ptroff db) (int (s_next (?ss ! i))) = Inr db6"
    "db_files M ?L (idx_image (remove s l1 i g)) ?D db6" "keeps db5 db6"
    using writeptr_cell [OF 5(2) hdr2 pl(1) wf_cell_le [OF wf2 pl(1)] M2 nx]
    unfolding pl(2) b(12) po by blast
  obtain db7 where 7: "idx_lock ''_db_dodelete: un_lock error'' None (int FREE_OFF) 1 db6 = Inr db7"
    "db_files M L (idx_image (remove s l1 i g)) ?D db7" "keeps db6 db7"
    using idx_lock_ok [OF 6(2)] lset_undo [of L FREE_OFF] L by metis
  have f5: "idxoff db4 = int (ioff ?ss i)" "ptroff db5 = ptroff db" using 4(4,5) 5(4) f3(6) by (simp_all add: rec_fields_def)
  have "db_dodelete db = Inr db7"
    unfolding db_dodelete_def Let_def using 1(1) 2(1) 3(1) 4(1) 5(1) 6(1) 7(1)
    by (simp add: f1 f3 f5)
  moreover have "keeps db db7"
    using 1(3) 2(3) 3(3) 4(3) 5(3) 6(3) 7(3) by (simp add: keeps_def db_counts_def)
  ultimately show ?thesis using that 7(2) unfolding D by blast
qed

lemma no_locks_free [simp]: "lset no_locks ty (loc_off g (hchain key)) 1 FREE_OFF = None"
  by (simp add: lset_def in_range_def no_locks_def)

lemma same_shape_dat_length: "same_shape g g' \<Longrightarrow> length (dat_image (st_slots g')) = length (dat_image (st_slots g))"
  unfolding same_shape_def by (metis length_dat_image_shape)

lemma same_shape_remove:
  assumes "threaded g {} cl" "s \<in> starts" "s \<noteq> LFree" "cl s = l1 @ i # l2"
  shows "same_shape g (remove s l1 i g)" "wf_store (remove s l1 i g)"
proof -
  have i: "i < nslots g" using threadedD(4) [OF assms(1,2)] assms(4) by auto
  note u = same_shape_unlink [OF assms(1,2,4)]
  have "shape (st_slots (unlink s l1 i g) ! i) = shape (st_slots g ! i)"
    using u(1) i same_shape_length [OF u(1)] unfolding same_shape_def by (metis nth_map)
  then have "same_shape (unlink s l1 i g) (remove s l1 i g)"
    using i same_shape_length [OF u(1)] unfolding remove_def push_def same_shape_def by (simp add: put_slot_def)
  with u(1) show "same_shape g (remove s l1 i g)" by (simp add: same_shape_def)
  show "wf_store (remove s l1 i g)" using threaded_remove [OF assms] LFree_start threadedD(1) by blast
qed

lemma delete_ok:
  assumes "db_repr db m"
  obtains db' where "db_delete db key = Inr (if m key = None then - 1 else 0, db')"
    "db_repr db' (m(key := None))"
    "db_counts db' = (db_counts db)
       [(if m key = None then 1 else 0) := (if m key = None then cnt_delerr db else cnt_delok db) + 1]"
    "db_sizes db' = db_sizes db" "db_errno db' = db_errno db"
proof -
  note result = that
  obtain g cl where h: "db_holds no_locks g db" and inv: "db_inv g cl" and m: "db_map g cl = m"
    using assms by (auto simp: db_repr_def)
  let ?M = "flimit (idxfd db)" and ?D = "dat_image (st_slots g)" and ?off = "loc_off g (hchain key)"
  have th: "threaded g {} cl" and ct: "content g cl" using inv by (auto simp: db_inv_def)
  have M: "length (idx_image g) \<le> ?M" "length ?D \<le> ?M" using h by (simp_all add: db_holds_def)
  obtain r db1 ty where 1: "db_find_and_lock db key True = Inr (r, db1)"
    "db_files ?M (lset no_locks ty ?off 1) (idx_image g) ?D db1"
    "quiet db db1" "chainoff db1 = int ?off" and lo: "located g cl key r db1"
    using find_and_lock_ok [OF db_holds_files [OF h] th] by blast
  have fin: thesis
    if body: "(if r = 0 then andthen (db_dodelete db1) (\<lambda>db. Inr (0, db\<lparr>cnt_delok := cnt_delok db + 1\<rparr>))
              else Inr (- 1 :: int, db1\<lparr>cnt_delerr := cnt_delerr db1 + 1\<rparr>)) = Inr (if m key = None then - 1 else 0, db2)"
    and fs: "db_files ?M (lset no_locks ty ?off 1) (idx_image g') (dat_image (st_slots g')) db2" "chainoff db2 = int ?off"
    and cnt: "db_counts db2 = (db_counts db)
       [(if m key = None then 1 else 0) := (if m key = None then cnt_delerr db else cnt_delok db) + 1]"
    and err: "db_errno db2 = db_errno db"
    and g': "same_shape g g'" "wf_store g'" "db_inv g' cl'" "db_map g' cl' = m(key := None)"
    for db2 g' cl'
  proof -
    obtain db3 where 3: "idx_lock ''db_delete: un_lock error'' None (chainoff db2) 1 db2 = Inr db3"
      "db_files ?M no_locks (idx_image g') (dat_image (st_slots g')) db3" "keeps db2 db3"
      using release_chain [OF fs] by blast
    have len: "length (idx_image g') = length (idx_image g)" "length (dat_image (st_slots g')) = length ?D"
      using same_shape_idx_length [OF g'(1) _ g'(2)] threadedD(1) [OF th LFree_start]
        same_shape_dat_length [OF g'(1)] by auto
    have "db_delete db key = Inr (if m key = None then - 1 else 0, db3)"
      unfolding db_delete_def by (simp only: 1(1) andthen_simps prod.case body 3(1))
    moreover have "db_repr db3 (m(key := None))"
      using g' M len by (intro db_reprI [OF 3(2)]) simp_all
    moreover have "db_sizes db3 = db_sizes db"
      using 3(2) h len by (simp add: db_holds_def db_sizes_def db_files_def)
    ultimately show ?thesis using result 3(3) cnt err by (simp add: keeps_def)
  qed
  from lo show ?thesis
  proof (cases rule: locatedE)
    case absent
    have "m key = None" using m absent(2) by (auto simp: db_map_None)
    then show ?thesis using 1 absent(1) m inv threadedD(1) [OF th LFree_start]
      by (intro fin [of "db1\<lparr>cnt_delerr := cnt_delerr db1 + 1\<rparr>" g cl])
         (simp_all add: quiet_def db_counts_def same_shape_def fun_upd_idem)
  next
    case (found l1 i l2)
    have mk: "m key = Some (sdata g i)" using db_map_Some [OF ct, of i key] found m by auto
    obtain db2 where 2: "db_dodelete db1 = Inr db2" "keeps db1 db2"
      "db_files ?M (lset no_locks ty ?off 1) (idx_image (remove (hchain key) l1 i g))
        (dat_image (st_slots (remove (hchain key) l1 i g))) db2"
      using dodelete_ok [OF 1(2) th hchain_start loc.simps(3) [symmetric] found(2,4,5) no_locks_free M] by blast
    have inv': "db_inv (remove (hchain key) l1 i g) (removed (hchain key) l1 i l2 cl)"
      unfolding db_inv_def using threaded_remove [OF th hchain_start loc.simps(3) [symmetric] found(2)]
        remove_content [OF th ct hashn_less found(2)] by blast
    show ?thesis
      using remove_db_map [OF th ct found(2,3)] m mk 1(3,4) 2 inv' found(1)
        same_shape_remove [OF th hchain_start loc.simps(3) [symmetric] found(2)]
      by (intro fin [of "db2\<lparr>cnt_delok := cnt_delok db2 + 1\<rparr>" "remove (hchain key) l1 i g" "removed (hchain key) l1 i l2 cl"])
         (simp_all add: quiet_def keeps_def db_counts_def)
  qed
qed

end
