(* ===== verification/Kv_Interface.thy ===== *)
theory Kv_Interface
  imports C_Prelude
begin

text \<open>
  The interface of a key-value store: what a client of the database relies on.
  The locale \<open>kv_provider\<close> states one law per operation, relating the store to a
  map; the client lemma, proved once in the locale, is that every sequence of
  calls gives the results of the same sequence on the map.
\<close>

section \<open>Specification on maps\<close>

type_synonym kv_map = "string \<rightharpoonup> string"

text \<open>The flags of a store are those of \<^verbatim>\<open>apue_db.h\<close>: 1 inserts, 2 replaces, 3 does either.\<close>

definition kv_store :: "kv_map \<Rightarrow> string \<Rightarrow> string \<Rightarrow> int \<Rightarrow> int \<times> kv_map" where
  "kv_store m key data flag =
     (if flag \<notin> {1, 2, 3} then (- 1, m)
      else case m key of
             None \<Rightarrow> if flag = 2 then (- 1, m) else (0, m(key \<mapsto> data))
           | Some _ \<Rightarrow> if flag = 1 then (1, m) else (0, m(key \<mapsto> data)))"

definition kv_delete :: "kv_map \<Rightarrow> string \<Rightarrow> int \<times> kv_map" where
  "kv_delete m key = (if m key = None then - 1 else 0, m(key := None))"

datatype kv_op = Fetch string | Delete string | Store string string int

datatype kv_result = Data "string option" | Status int

fun kv_step :: "kv_map \<Rightarrow> kv_op \<Rightarrow> kv_result \<times> kv_map" where
  "kv_step m (Fetch key) = (Data (m key), m)"
| "kv_step m (Delete key) = (let (r, m) = kv_delete m key in (Status r, m))"
| "kv_step m (Store key data flag) = (let (r, m) = kv_store m key data flag in (Status r, m))"

fun kv_run :: "kv_map \<Rightarrow> kv_op list \<Rightarrow> kv_result list \<times> kv_map" where
  "kv_run m [] = ([], m)"
| "kv_run m (op # ops) =
     (let (r, m) = kv_step m op; (rs, m) = kv_run m ops in (r # rs, m))"

section \<open>Running the operations of a provider\<close>

fun run_op :: "('d \<Rightarrow> string \<Rightarrow> 'e + (string option \<times> 'd)) \<Rightarrow> ('d \<Rightarrow> string \<Rightarrow> 'e + (int \<times> 'd)) \<Rightarrow>
    ('d \<Rightarrow> string \<Rightarrow> string \<Rightarrow> int \<Rightarrow> 'e + (int \<times> 'd)) \<Rightarrow> 'd \<Rightarrow> kv_op \<Rightarrow> 'e + (kv_result \<times> 'd)" where
  "run_op f dl st d (Fetch key) = andthen (f d key) (\<lambda>(r, d). Inr (Data r, d))"
| "run_op f dl st d (Delete key) = andthen (dl d key) (\<lambda>(r, d). Inr (Status r, d))"
| "run_op f dl st d (Store key data flag) = andthen (st d key data flag) (\<lambda>(r, d). Inr (Status r, d))"

fun run_ops :: "('d \<Rightarrow> string \<Rightarrow> 'e + (string option \<times> 'd)) \<Rightarrow> ('d \<Rightarrow> string \<Rightarrow> 'e + (int \<times> 'd)) \<Rightarrow>
    ('d \<Rightarrow> string \<Rightarrow> string \<Rightarrow> int \<Rightarrow> 'e + (int \<times> 'd)) \<Rightarrow> 'd \<Rightarrow> kv_op list \<Rightarrow> 'e + (kv_result list \<times> 'd)" where
  "run_ops f dl st d [] = Inr ([], d)"
| "run_ops f dl st d (op # ops) =
     andthen (run_op f dl st d op) (\<lambda>(r, d).
     andthen (run_ops f dl st d ops) (\<lambda>(rs, d). Inr (r # rs, d)))"

text \<open>The calls a provider promises to serve: those that store only what can be stored.\<close>

definition op_ok :: "(string \<Rightarrow> string \<Rightarrow> bool) \<Rightarrow> kv_op \<Rightarrow> bool" where
  "op_ok storable op = (case op of Store key data _ \<Rightarrow> storable key data | _ \<Rightarrow> True)"

section \<open>The contract\<close>

text \<open>\<open>room n d\<close> says that \<open>n\<close> more records can be stored.\<close>

locale kv_provider =
  fixes fetch :: "'d \<Rightarrow> string \<Rightarrow> 'e + (string option \<times> 'd)"
    and delete :: "'d \<Rightarrow> string \<Rightarrow> 'e + (int \<times> 'd)"
    and store :: "'d \<Rightarrow> string \<Rightarrow> string \<Rightarrow> int \<Rightarrow> 'e + (int \<times> 'd)"
    and repr :: "'d \<Rightarrow> kv_map \<Rightarrow> bool"
    and room :: "nat \<Rightarrow> 'd \<Rightarrow> bool"
    and storable :: "string \<Rightarrow> string \<Rightarrow> bool"
  assumes fetch_law: "repr d m \<Longrightarrow> \<exists>d'. fetch d key = Inr (m key, d') \<and> repr d' m \<and> (\<forall>n. room n d \<longrightarrow> room n d')"
    and delete_law: "repr d m \<Longrightarrow>
      \<exists>d'. delete d key = Inr (fst (kv_delete m key), d') \<and> repr d' (snd (kv_delete m key)) \<and>
        (\<forall>n. room n d \<longrightarrow> room n d')"
    and store_law: "repr d m \<Longrightarrow> storable key data \<Longrightarrow> room (Suc n) d \<Longrightarrow>
      \<exists>d'. store d key data flag = Inr (fst (kv_store m key data flag), d') \<and>
        repr d' (snd (kv_store m key data flag)) \<and> room n d'"
    and room_Suc: "room (Suc n) d \<Longrightarrow> room n d"
begin

lemma step_refines:
  assumes "repr d m" "op_ok storable op" "room (Suc n) d"
  shows "\<exists>d'. run_op fetch delete store d op = Inr (fst (kv_step m op), d') \<and>
    repr d' (snd (kv_step m op)) \<and> room n d'"
proof (cases op)
  case (Fetch key)
  then show ?thesis using fetch_law [OF assms(1), of key] room_Suc [OF assms(3)] by auto
next
  case (Delete key)
  then show ?thesis using delete_law [OF assms(1), of key] room_Suc [OF assms(3)]
    by (auto split: prod.splits)
next
  case (Store key data flag)
  then have "storable key data" using assms(2) by (simp add: op_ok_def)
  from store_law [OF assms(1) this assms(3), of flag] Store show ?thesis
    by (auto split: prod.splits)
qed

lemma run_refines:
  assumes "repr d m" "list_all (op_ok storable) ops" "room (length ops) d"
  shows "\<exists>d'. run_ops fetch delete store d ops = Inr (fst (kv_run m ops), d') \<and> repr d' (snd (kv_run m ops))"
  using assms
proof (induction ops arbitrary: d m)
  case (Cons op ops)
  have ok: "op_ok storable op" "list_all (op_ok storable) ops" "room (Suc (length ops)) d" using Cons.prems by simp_all
  obtain d1 where 1: "run_op fetch delete store d op = Inr (fst (kv_step m op), d1)"
    "repr d1 (snd (kv_step m op))" "room (length ops) d1"
    using step_refines [OF Cons.prems(1) ok(1,3)] by blast
  from Cons.IH [OF 1(2) ok(2) 1(3)] 1(1) show ?case by (auto split: prod.splits)
qed simp

end

end
