(* ===== verification/Db_Store.thy ===== *)
theory Db_Store
  imports Db_Delete Kv_Interface
begin

text \<open>
  Storing: the four ways \<^verbatim>\<open>db_store\<close> writes a record (append, reuse of a free
  record of the same size, delete and append, overwrite in place), and the
  refinement of \<^verbatim>\<open>db_store\<close> to the update of a map.
\<close>

section \<open>What can be stored\<close>

definition valid_key :: "string \<Rightarrow> bool" where
  "valid_key key \<longleftrightarrow> c_string key \<and> SEP \<notin> set key \<and> key \<noteq> [] \<and> length key \<le> 1000"

definition valid_data :: "string \<Rightarrow> bool" where
  "valid_data data \<longleftrightarrow> c_string data \<and> DATLEN_MIN \<le> length data + 1 \<and> length data + 1 \<le> DATLEN_MAX"

text \<open>Room for one more record: its index offset still fits a pointer field, and the
  environment lets both files grow.\<close>

definition db_room :: "DB \<Rightarrow> bool" where
  "db_room db \<longleftrightarrow> int (length (fbytes (idxfd db))) \<le> PTR_MAX \<and>
     length (fbytes (idxfd db)) + 1035 \<le> flimit (idxfd db) \<and>
     length (fbytes (datfd db)) + 1024 \<le> flimit (idxfd db)"

section \<open>Sizes\<close>

lemma doff_le: "slots_ok ss \<Longrightarrow> i \<le> length ss \<Longrightarrow> doff ss i \<le> 1024 * i"
proof (induction i)
  case (Suc i)
  then have "length (s_data (ss ! i)) + 1 \<le> 1024" by (simp add: slots_ok_def slot_ok_def)
  with Suc show ?case by (simp add: doff_Suc)
qed (simp add: doff_def dat_image_def)

lemma ioff_lower: "slots_ok ss \<Longrightarrow> i \<le> length ss \<Longrightarrow> 17 * i \<le> ioff ss i"
proof (induction i)
  case (Suc i)
  then show ?case using ioff_less [of ss i "Suc i"] by simp
qed simp

lemma new_slot_ok:
  assumes "valid_key key" "valid_data data" "int nx \<le> PTR_MAX" "d < 10 ^ 10"
  shows "slot_ok d \<lparr>s_next = nx, s_key = key, s_data = data\<rparr>"
proof -
  have "length (dec d) \<le> 10" using assms(4) by (intro length_dec_le) auto
  moreover have "length (dec (length data + 1)) \<le> 4"
    using assms(2) by (intro length_dec_le) (auto simp: valid_data_def)
  moreover have "1 \<le> length (dec d)" "1 \<le> length (dec (length data + 1))"
    by (simp_all add: Suc_le_eq)
  ultimately show ?thesis using assms(1-3)
    by (cases key) (auto simp: slot_ok_def valid_key_def valid_data_def rec_body_def)
qed

lemma slot_ok_bytes_le: "slot_ok d s \<Longrightarrow> length (rec_bytes d s) \<le> 1035"
  by (simp add: length_rec_bytes slot_ok_def)

section \<open>Inserting into the map\<close>

lemma hchain_not_free [simp]: "hchain key \<noteq> LFree" by simp

lemma db_inv_push:
  assumes th: "threaded g {i} cl" and ct: "content g cl" and i: "i < nslots g"
    and c: "slot_ok (doff (st_slots g) i) c" "shape c = shape (st_slots g ! i)" "s_key c = key"
    and new: "\<forall>j \<in> set (cl (hchain key)). skey g j \<noteq> key"
  shows "db_inv (push (hchain key) i c g) (cl(hchain key := i # cl (hchain key)))"
    "db_map (push (hchain key) i c g) (cl(hchain key := i # cl (hchain key))) = (db_map g cl)(key \<mapsto> s_data c)"
proof -
  let ?g = "push (hchain key) i c g" and ?cl = "cl(hchain key := i # cl (hchain key))"
  have out: "i \<notin> set (cl t)" if "t \<in> starts" for t using threadedD(5) [OF th that] by auto
  have keep: "skey ?g j = skey g j \<and> sdata ?g j = sdata g j" if "j \<noteq> i" for j
    using skey_push [OF i] that by simp
  have at: "skey ?g i = key" "sdata ?g i = s_data c" using skey_push [OF i] c(3) by simp_all
  have eq: "map (skey ?g) (cl t) = map (skey g) (cl t)" if "t \<in> starts" for t
    using out [OF that] keep by (intro map_other) auto
  have hk: "LHead k \<in> starts" if "k < NHASH_DEF" for k using that by (simp add: starts_def)
  have "content ?g ?cl"
    unfolding content_def
  proof (intro conjI ballI allI impI)
    show "x = SPACE" if "j \<in> set (?cl LFree)" "x \<in> set (skey ?g j)" for j x
      using that contentD(1) [OF ct, of j x] out [of LFree] keep [of j] by (cases "j = i") auto
    show "hashn (skey ?g j) = k" if "k < NHASH_DEF" "j \<in> set (?cl (LHead k))" for j k
      using that contentD(2) [OF ct, of k j] out [OF hk [OF that(1)]] keep [of j] at
      by (cases "j = i") (auto split: if_splits)
    show "distinct (map (skey ?g) (?cl (LHead k)))" if "k < NHASH_DEF" for k
    proof (cases "k = hashn key")
      case True
      have "map (skey ?g) (?cl (LHead k)) = key # map (skey g) (cl (hchain key))"
        using eq [OF hchain_start [of key]] at True by simp
      moreover have "key \<notin> set (map (skey g) (cl (hchain key)))" using new by auto
      ultimately show ?thesis using contentD(3) [OF ct hashn_less [of key]] by (simp only: distinct.simps simp_thms)
    next
      case False
      then show ?thesis using contentD(3) [OF ct that] eq [OF hk [OF that]] by (simp del: map_eq_conv)
    qed
  qed
  moreover have "threaded ?g {} ?cl" using threaded_push [OF th hchain_start _ i c(1,2)] by simp
  ultimately show "db_inv ?g ?cl" by (simp add: db_inv_def)
  show "db_map ?g ?cl = (db_map g cl)(key \<mapsto> s_data c)"
  proof
    fix k
    have eq2: "map (\<lambda>i. (skey ?g i, sdata ?g i)) (cl (hchain k)) = map (\<lambda>i. (skey g i, sdata g i)) (cl (hchain k))"
      using out [OF hchain_start [of k]] by (rule map_other) (use keep in auto)
    show "db_map ?g ?cl k = ((db_map g cl)(key \<mapsto> s_data c)) k"
      using eq2 at unfolding db_map_def
      by (cases "hashn k = hashn key"; cases "k = key") (simp_all del: map_eq_conv)
  qed
qed

section \<open>Appending a record\<close>

lemma push_add_slot:
  assumes "s \<in> starts"
  shows "push s (nslots g) c (add_slot c g) =
    put s (ioff (st_slots g) (nslots g)) (add_slot (c\<lparr>s_next := cell g s\<rparr>) g)"
  using assms by (auto simp: push_def put_slot_def add_slot_def ioff_add_slot starts_def)

lemma add_slot_content:
  assumes th: "threaded g X cl" and ct: "content g cl"
  shows "content (add_slot c g) cl" "db_map (add_slot c g) cl = db_map g cl"
proof -
  have keep: "skey (add_slot c g) j = skey g j \<and> sdata (add_slot c g) j = sdata g j" if "j < nslots g" for j
    using that by (simp add: add_slot_def nth_append)
  have lt: "j < nslots g" if "s \<in> starts" "j \<in> set (cl s)" for s j using threadedD(4) [OF th that(1)] that(2) by auto
  have hk: "LHead k \<in> starts" if "k < NHASH_DEF" for k using that by (simp add: starts_def)
  have eq: "map (skey (add_slot c g)) (cl t) = map (skey g) (cl t)" if "t \<in> starts" for t
    using keep lt [OF that] by (intro map_cong) auto
  show "content (add_slot c g) cl"
    unfolding content_def
  proof (intro conjI ballI allI impI)
    show "x = SPACE" if "j \<in> set (cl LFree)" "x \<in> set (skey (add_slot c g) j)" for j x
      using that contentD(1) [OF ct that(1)] keep [OF lt [OF LFree_start that(1)]] by simp
    show "hashn (skey (add_slot c g) j) = k" if "k < NHASH_DEF" "j \<in> set (cl (LHead k))" for j k
      using contentD(2) [OF ct that] keep [OF lt [OF hk [OF that(1)] that(2)]] by simp
    show "distinct (map (skey (add_slot c g)) (cl (LHead k)))" if "k < NHASH_DEF" for k
      unfolding eq [OF hk [OF that]] by (rule contentD(3) [OF ct that])
  qed
  show "db_map (add_slot c g) cl = db_map g cl"
    using keep lt [OF hchain_start] by (intro ext db_map_cong) auto
qed

text \<open>What a successful store leaves behind.\<close>

definition holds_map :: "nat \<Rightarrow> locks \<Rightarrow> (string \<rightharpoonup> string) \<Rightarrow> DB \<Rightarrow> bool" where
  "holds_map M L m db \<longleftrightarrow> (\<exists>g cl. db_files M L (idx_image g) (dat_image (st_slots g)) db \<and>
     length (idx_image g) \<le> M \<and> length (dat_image (st_slots g)) \<le> M \<and> db_inv g cl \<and> db_map g cl = m)"

lemma holds_mapI:
  assumes "db_files M L (idx_image g) (dat_image (st_slots g)) db"
    "length (idx_image g) \<le> M" "length (dat_image (st_slots g)) \<le> M" "db_inv g cl" "db_map g cl = m"
  shows "holds_map M L m db"
  using assms unfolding holds_map_def by blast

text \<open>The data file has grown by \<open>d\<close> bytes since it had \<open>b\<close>; the index file has grown by a record exactly when the data file has.\<close>

definition grows :: "nat \<Rightarrow> nat \<Rightarrow> nat \<Rightarrow> DB \<Rightarrow> bool" where
  "grows d a b db \<longleftrightarrow> a \<le> length (fbytes (idxfd db)) \<and> length (fbytes (idxfd db)) \<le> a + 1035 \<and>
     (length (fbytes (idxfd db)) = a \<longleftrightarrow> d = 0) \<and> d \<le> 1024 \<and> length (fbytes (datfd db)) = b + d"

text \<open>The store after a record was appended at the front of its hash chain.\<close>

lemma append_store:
  fixes g cl key data
  defines "n \<equiv> nslots g" and "c \<equiv> \<lparr>s_next = cell g (hchain key), s_key = key, s_data = data\<rparr>"
  defines "g1 \<equiv> add_slot c g"
  defines "g2 \<equiv> put (hchain key) (ioff (st_slots g) n) g1" and "cl2 \<equiv> cl(hchain key := n # cl (hchain key))"
  assumes inv: "db_inv g cl" and new: "\<forall>j \<in> set (cl (hchain key)). skey g j \<noteq> key"
    and key: "valid_key key" and data: "valid_data data" and room: "int (length (idx_image g)) \<le> PTR_MAX"
  shows "slot_ok (doff (st_slots g) n) c" "int (ioff (st_slots g) n) \<le> PTR_MAX" "wf_store g1"
    "db_inv g2 cl2" "db_map g2 cl2 = (db_map g cl)(key \<mapsto> data)"
    "dat_image (st_slots g2) = dat_image (st_slots g1)" "length (idx_image g2) = length (idx_image g1)"
proof -
  have th: "threaded g {} cl" and ct: "content g cl" using inv by (auto simp: db_inv_def)
  have wf: "wf_store g" by (rule threadedD(1) [OF th LFree_start])
  then have hdr: "hdr_ok g" and oks: "slots_ok (st_slots g)" by (auto simp: wf_store_def)
  show io: "int (ioff (st_slots g) n) \<le> PTR_MAX" using room by (simp add: n_def length_idx_image [OF hdr])
  have "doff (st_slots g) n < 10 ^ 10" using doff_le [OF oks order_refl] ioff_lower [OF oks order_refl] io by (simp add: n_def)
  then show ok: "slot_ok (doff (st_slots g) n) c"
    unfolding c_def using key data start_cell_le [OF th hchain_start [of key]] by (intro new_slot_ok) auto
  show wf1: "wf_store g1" unfolding g1_def using wf ok io unfolding n_def by (rule wf_add_slot)
  have g2: "g2 = push (hchain key) n c (add_slot c g)"
    unfolding g2_def g1_def n_def using push_add_slot [OF hchain_start, of key g c] by (simp add: c_def)
  have th1: "threaded g1 {n} cl" unfolding g1_def n_def using threaded_add_slot [OF th ok [unfolded n_def] io [unfolded n_def]] by simp
  have n1: "n < nslots g1" "doff (st_slots g1) n = doff (st_slots g) n" "st_slots g1 ! n = c"
    by (simp_all add: g1_def n_def add_slot_def doff_add_slot)
  note a = add_slot_content [OF th ct, of c, folded g1_def]
  have new1: "\<forall>j \<in> set (cl (hchain key)). skey g1 j \<noteq> key"
    using new threadedD(4) [OF th hchain_start [of key]] by (auto simp: g1_def add_slot_def nth_append)
  show "db_inv g2 cl2" "db_map g2 cl2 = (db_map g cl)(key \<mapsto> data)"
    using db_inv_push [OF th1 a(1) n1(1) _ _ _ new1, of c] ok n1 a(2) by (simp_all add: g2 cl2_def g1_def c_def)
  show "dat_image (st_slots g2) = dat_image (st_slots g1)" by (simp add: g2_def)
  show "length (idx_image g2) = length (idx_image g1)"
    unfolding g2_def using same_shape_put [of g1 "hchain key"] wf_put [OF wf1 _ io, of "hchain key"]
    by (intro same_shape_idx_length [OF _ wf1]) (simp_all del: put.simps)
qed

lemma append_ok:
  assumes fs: "db_files M L (idx_image g) (dat_image (st_slots g)) db"
    and inv: "db_inv g cl" and new: "\<forall>j \<in> set (cl (hchain key)). skey g j \<noteq> key"
    and co: "chainoff db = int (loc_off g (hchain key))"
    and key: "valid_key key" and data: "valid_data data"
    and room: "int (length (idx_image g)) \<le> PTR_MAX" "length (idx_image g) + 1035 \<le> M"
      "length (dat_image (st_slots g)) + 1024 \<le> M"
    and L: "\<And>i. hdr_len \<le> i \<Longrightarrow> L i = None"
  obtains db1 db2 db3 where "db_writedat db data 0 SEEK_END = Inr db1"
    "db_writeidx db1 key 0 SEEK_END (int (cell g (hchain key))) = Inr db2"
    "db_writeptr db2 (chainoff db2) (idxoff db2) = Inr db3"
    "keeps db db3" "holds_map M L ((db_map g cl)(key \<mapsto> data)) db3"
    "grows (length data + 1) (length (idx_image g)) (length (dat_image (st_slots g))) db3"
proof -
  let ?ss = "st_slots g" and ?n = "nslots g"
  let ?c = "\<lparr>s_next = cell g (hchain key), s_key = key, s_data = data\<rparr>"
  let ?g1 = "add_slot ?c g"
  let ?g2 = "put (hchain key) (ioff ?ss ?n) ?g1"
  note st = append_store [OF inv new key data room(1)]
  note ok = st(1) and io = st(2) and wf1 = st(3) and inv2 = st(4,5) and D2 = st(6) and len2 = st(7)
  have "threaded g {} cl" using inv by (simp add: db_inv_def)
  then have hdr: "hdr_ok g" using threadedD(1) [OF _ LFree_start] unfolding wf_store_def by blast
  have dl: "length data + 1 \<le> 1024" using data by (simp add: valid_data_def)
  obtain db1 where 1: "db_writedat db data 0 SEEK_END = Inr db1"
    "db_files M L (idx_image g) (dat_image ?ss @ data @ [NEWLINE]) db1" "keeps db db1"
    "datoff db1 = int (length (dat_image ?ss))" "datlen db1 = length data + 1"
    using db_writedat_end [OF fs, of data] room(3) dl by auto
  have D: "dat_image ?ss @ data @ [NEWLINE] = dat_image (st_slots ?g1)"
    by (simp add: add_slot_def dat_append dat_bytes_def)
  obtain db2 where 2: "db_writeidx db1 key 0 SEEK_END (int (cell g (hchain key))) = Inr db2"
    "db_files M L (idx_image ?g1) (dat_image (st_slots ?g1)) db2" "keeps db1 db2"
    "idxoff db2 = int (length (idx_image g))"
    using db_writeidx_end [OF 1(2) slot_ok_fits [OF ok] _ _ _ L] slot_ok_bytes_le [OF ok] room(2) 1(4,5)
    unfolding D idx_add_slot by (auto simp: length_dat_image)
  have len1: "length (idx_image ?g1) \<le> length (idx_image g) + 1035"
    unfolding idx_add_slot using slot_ok_bytes_le [OF ok] by simp
  obtain db3 where 3: "db_writeptr db2 (int (loc_off ?g1 (hchain key))) (int (ioff ?ss ?n)) = Inr db3"
    "db_files M L (idx_image ?g2) (dat_image (st_slots ?g1)) db3" "keeps db2 db3"
    using writeptr_cell [OF 2(2) _ _ wf_cell_le [OF wf1] _ io, of "hchain key"] wf1 len1 room(2)
    by (auto simp: wf_store_def)
  have fs3: "db_files M L (idx_image ?g2) (dat_image (st_slots ?g2)) db3" using 3(2) unfolding D2 .
  have more: "length (idx_image g) < length (idx_image ?g1)" using length_rec_bytes [OF ok] unfolding idx_add_slot by simp
  have lenD: "length (dat_image (st_slots ?g1)) = length (dat_image ?ss) + (length data + 1)" unfolding D [symmetric] by simp
  have "db_writeptr db2 (chainoff db2) (idxoff db2) = Inr db3"
    using 3(1) 2(3,4) 1(3) co by (simp add: keeps_def length_idx_image [OF hdr])
  moreover have "keeps db db3" using 1(3) 2(3) 3(3) keeps_trans by blast
  moreover have "holds_map M L ((db_map g cl)(key \<mapsto> data)) db3"
    using len1 len2 lenD D2 dl room(2,3) by (intro holds_mapI [OF fs3 _ _ inv2]) auto
  moreover have "grows (length data + 1) (length (idx_image g)) (length (dat_image ?ss)) db3"
    using fs3 len1 len2 lenD D2 dl more by (simp add: grows_def db_files_def)
  ultimately show ?thesis using that 1(1) 2(1) by blast
qed

section \<open>Reusing a free record\<close>

text \<open>The result of \<^verbatim>\<open>_db_findfree\<close>: a record of the wanted size, taken off the free list.\<close>

definition freed :: "store \<Rightarrow> (loc \<Rightarrow> nat list) \<Rightarrow> nat \<Rightarrow> nat \<Rightarrow> nat list \<Rightarrow> nat \<Rightarrow> nat list \<Rightarrow> DB \<Rightarrow> bool" where
  "freed g cl kl dl l1 i l2 db \<longleftrightarrow> cl LFree = l1 @ i # l2 \<and> length (skey g i) = kl \<and> length (sdata g i) + 1 = dl \<and>
     idxoff db = int (ioff (st_slots g) i) \<and> datoff db = int (doff (st_slots g) i)"

lemma findfree_ok:
  assumes fs: "db_files M L (idx_image g) D db" and th: "threaded g {} cl" and L: "L FREE_OFF = None"
    and M: "length (idx_image g) \<le> M"
  obtains (none) db' where "db_findfree db kl dl = Inr (- 1, db')" "keeps db db'" "db_files M L (idx_image g) D db'"
  | (some) db' l1 i l2 where "db_findfree db kl dl = Inr (0, db')" "keeps db db'"
    "db_files M L (idx_image (unlink LFree l1 i g)) D db'" "freed g cl kl dl l1 i l2 db'"
proof -
  let ?ss = "st_slots g" and ?L = "lset L (Some F_WRLCK) FREE_OFF 1"
  note fD = threadedD [OF th LFree_start]
  have wf: "wf_store g" and hdr: "hdr_ok g" using fD by (auto simp: wf_store_def)
  obtain db1 where 1: "idx_lock ''_db_findfree: writew_lock error'' (Some F_WRLCK) (int FREE_OFF) 1 db = Inr db1"
    "db_files M ?L (idx_image g) D db1" "keeps db db1"
    using idx_lock_ok [OF fs] by blast
  obtain db2 where 2: "db_readptr db1 (int FREE_OFF) = Inr (int (cell g LFree), db2)"
    "db_files M ?L (idx_image g) D db2" "keeps db1 db2"
    using readptr_cell [OF 1(2) hdr, of LFree] start_cell_le [OF th LFree_start] by auto
  obtain s r db3 where 3: "findfree_loop kl dl (int FREE_OFF) (int (cell g LFree)) db2 = Some (Inr (s, r, db3))"
    "db_files M ?L (idx_image g) D db3" "keeps db2 db3"
    and or: "r = 0 \<or> (\<exists>l1 i l2. cl LFree = l1 @ i # l2 \<and>
          length (s_key (?ss ! i)) = kl \<and> length (s_data (?ss ! i)) + 1 = dl \<and>
          r = int (ioff ?ss i) \<and> loaded (ioff ?ss i) (doff ?ss i) (?ss ! i) db3 \<and>
          s = (if l1 = [] then int FREE_OFF else int (ioff ?ss (last l1))))"
    using findfree_loop_ok [OF wf fD(2,4) 2(2), of kl dl "int FREE_OFF"] by blast
  have k3: "keeps db db3" using 1(3) 2(3) 3(3) keeps_trans by blast
  have unlock: "\<exists>db'. idx_lock ''_db_findfree: un_lock error'' None (int FREE_OFF) 1 db4 = Inr db' \<and>
      db_files M L I D db' \<and> keeps db4 db' \<and> rec_fields db' = rec_fields db4"
    if "db_files M ?L I D db4" for db4 I
    using idx_lock_ok [OF that, of "''_db_findfree: un_lock error''" None FREE_OFF 1]
      lset_undo [of L FREE_OFF "Some F_WRLCK"] L by metis
  from or show ?thesis
  proof (elim disjE exE conjE)
    assume r: "r = 0"
    obtain db4 where 4: "idx_lock ''_db_findfree: un_lock error'' None (int FREE_OFF) 1 db3 = Inr db4"
      "db_files M L (idx_image g) D db4" "keeps db3 db4"
      using unlock [OF 3(2)] by blast
    have "db_findfree db kl dl = Inr (- 1, db4)"
      unfolding db_findfree_def using 1(1) 2(1) 3(1) 4(1) r by (simp add: returns_def)
    then show ?thesis using none k3 4 keeps_trans by blast
  next
    fix l1 i l2
    assume cl: "cl LFree = l1 @ i # l2" and sz: "length (s_key (?ss ! i)) = kl" "length (s_data (?ss ! i)) + 1 = dl"
      and r: "r = int (ioff ?ss i)" and ld: "loaded (ioff ?ss i) (doff ?ss i) (?ss ! i) db3"
      and s: "s = (if l1 = [] then int FREE_OFF else int (ioff ?ss (last l1)))"
    let ?pl = "pred_loc LFree l1"
    have s': "s = int (loc_off g ?pl)" using s by (simp add: pred_loc_def)
    note u = same_shape_unlink [OF th LFree_start cl]
    have i: "i < nslots g" using fD(4) cl by auto
    obtain db4 where 4: "db_writeptr db3 (int (loc_off g ?pl)) (int (cell g (LSlot i))) = Inr db4"
      "db_files M ?L (idx_image (unlink LFree l1 i g)) D db4" "keeps db3 db4" "rec_fields db4 = rec_fields db3"
      using writeptr_cell [OF 3(2) hdr u(2) wf_cell_le [OF wf u(2)] M cell_slot_le [OF wf i]]
      unfolding unlink_def by blast
    obtain db5 where 5: "idx_lock ''_db_findfree: un_lock error'' None (int FREE_OFF) 1 db4 = Inr db5"
      "db_files M L (idx_image (unlink LFree l1 i g)) D db5" "keeps db4 db5" "rec_fields db5 = rec_fields db4"
      using unlock [OF 4(2)] by blast
    have pv: "ptrval db3 = int (cell g (LSlot i))" "r \<noteq> 0" using ld r ioff_pos [of ?ss i] by (simp_all add: loaded_def)
    have "db_findfree db kl dl = Inr (0, db5)"
      unfolding db_findfree_def using 1(1) 2(1) 3(1) 4(1) 5(1) s' pv by (simp add: returns_def)
    moreover have "freed g cl kl dl l1 i l2 db5"
      using cl sz ld 4(4) 5(4) by (simp add: freed_def loaded_def rec_fields_def)
    moreover have "keeps db db5" using k3 4(3) 5(3) keeps_trans by blast
    ultimately show ?thesis using some 5(2) by blast
  qed
qed

lemma content_unlink:
  assumes "content g cl" "cl LFree = l1 @ i # l2"
  shows "content (unlink s l1' i' g) (cl(LFree := l1 @ l2))"
    "db_map (unlink s l1' i' g) (cl(LFree := l1 @ l2)) = db_map g cl"
proof -
  show "content (unlink s l1' i' g) (cl(LFree := l1 @ l2))"
    using assms unfolding content_def by simp
  show "db_map (unlink s l1' i' g) (cl(LFree := l1 @ l2)) = db_map g cl"
    by (intro ext db_map_cong) auto
qed

text \<open>The store after a free record was filled and put at the front of its hash chain.\<close>

lemma reuse_store:
  fixes g cl key data l1 i l2
  defines "u \<equiv> unlink LFree l1 i g" and "c \<equiv> \<lparr>s_next = cell g (hchain key), s_key = key, s_data = data\<rparr>"
  defines "g1 \<equiv> put_slot i c u"
  defines "g2 \<equiv> put (hchain key) (ioff (st_slots u) i) g1" and "cl2 \<equiv> (cl(LFree := l1 @ l2))(hchain key := i # cl (hchain key))"
  assumes inv: "db_inv g cl" and new: "\<forall>j \<in> set (cl (hchain key)). skey g j \<noteq> key"
    and fr: "freed g cl (length key) (length data + 1) l1 i l2 db" and key: "valid_key key" and data: "valid_data data"
  shows "i < nslots u" "int (ioff (st_slots u) i) \<le> PTR_MAX" "slot_ok (doff (st_slots u) i) c" "shape c = shape (st_slots u ! i)"
    "wf_store g" "same_shape g u" "wf_store u" "same_shape u g1" "wf_store g1" "same_shape u g2" "wf_store g2"
    "db_inv g2 cl2" "db_map g2 cl2 = (db_map g cl)(key \<mapsto> data)"
    "ioff (st_slots u) i = ioff (st_slots g) i" "doff (st_slots u) i = doff (st_slots g) i"
proof -
  have th: "threaded g {} cl" and ct: "content g cl" using inv by (auto simp: db_inv_def)
  have cl: "cl LFree = l1 @ i # l2" using fr by (simp add: freed_def)
  show sh: "same_shape g u" and wfu: "wf_store u" using same_shape_unlink [OF th LFree_start cl] by (simp_all add: u_def)
  show wf: "wf_store g" by (rule threadedD(1) [OF th LFree_start])
  have i: "i < nslots g" using threadedD(4) [OF th LFree_start] cl by auto
  show iu: "i < nslots u" using i same_shape_length [OF sh] by simp
  have oks: "slots_ok (st_slots g)" and ioi: "int (ioff (st_slots g) i) \<le> PTR_MAX" using wf i by (auto simp: wf_store_def)
  show offs: "ioff (st_slots u) i = ioff (st_slots g) i" "doff (st_slots u) i = doff (st_slots g) i"
    using same_shape_ioff [OF sh, of i] wf wfu i same_shape_doff [OF sh] by (auto simp: wf_store_def)
  then show "int (ioff (st_slots u) i) \<le> PTR_MAX" using ioi by simp
  have "doff (st_slots g) i < 10 ^ 10"
    using doff_le [OF oks less_imp_le [OF i]] ioff_lower [OF oks less_imp_le [OF i]] ioi by simp
  then show ok: "slot_ok (doff (st_slots u) i) c"
    unfolding offs c_def using key data start_cell_le [OF th hchain_start [of key]] by (intro new_slot_ok) auto
  show shc: "shape c = shape (st_slots u ! i)" using fr by (simp add: u_def c_def freed_def shape_def)
  show sh1: "same_shape u g1" and "wf_store g1" unfolding g1_def using wfu iu shc ok by auto
  have hc: "cell u (hchain key) = cell g (hchain key)"
    unfolding u_def unlink_def by (rule cell_put_other) (auto simp: pred_loc_def)
  have g2: "g2 = push (hchain key) i c u" unfolding g2_def g1_def push_def hc by (simp add: c_def)
  show "same_shape u g2" using sh1 unfolding g2_def same_shape_def by simp
  note cu = content_unlink [OF ct cl, of LFree l1 i, folded u_def]
  have thu: "threaded u {i} (cl(LFree := l1 @ l2))" unfolding u_def using threaded_unlink [OF th LFree_start cl] by simp
  have newu: "\<forall>j \<in> set ((cl(LFree := l1 @ l2)) (hchain key)). skey u j \<noteq> key" using new by (simp add: u_def)
  show inv2: "db_inv g2 cl2" "db_map g2 cl2 = (db_map g cl)(key \<mapsto> data)"
    using db_inv_push [OF thu cu(1) iu ok shc, of key] newu cu(2) by (simp_all add: g2 cl2_def c_def)
  show "wf_store g2" using inv2(1) LFree_start threadedD(1) unfolding db_inv_def by blast
qed

lemma reuse_ok:
  assumes fs: "db_files M L (idx_image (unlink LFree l1 i g)) (dat_image (st_slots g)) db"
    and inv: "db_inv g cl" and new: "\<forall>j \<in> set (cl (hchain key)). skey g j \<noteq> key"
    and fr: "freed g cl (length key) (length data + 1) l1 i l2 db"
    and co: "chainoff db = int (loc_off g (hchain key))"
    and key: "valid_key key" and data: "valid_data data"
    and M: "length (idx_image g) \<le> M" "length (dat_image (st_slots g)) \<le> M"
  obtains db1 db2 db3 where "db_writedat db data (datoff db) SEEK_SET = Inr db1"
    "db_writeidx db1 key (idxoff db1) SEEK_SET (int (cell g (hchain key))) = Inr db2"
    "db_writeptr db2 (chainoff db2) (idxoff db2) = Inr db3"
    "keeps db db3" "holds_map M L ((db_map g cl)(key \<mapsto> data)) db3"
    "grows 0 (length (idx_image g)) (length (dat_image (st_slots g))) db3"
proof -
  let ?u = "unlink LFree l1 i g" and ?hc = "hchain key"
  let ?c = "\<lparr>s_next = cell g ?hc, s_key = key, s_data = data\<rparr>"
  let ?g1 = "put_slot i ?c ?u" and ?g2 = "put ?hc (ioff (st_slots ?u) i) (put_slot i ?c ?u)"
  note st = reuse_store [OF inv new fr key data]
  have D: "dat_image (st_slots ?u) = dat_image (st_slots g)" by (simp add: unlink_def)
  have len: "length data = length (s_data (st_slots ?u ! i))" using st(4) by (simp add: shape_def)
  have M': "length (dat_image (st_slots ?u)) \<le> M" "length (idx_image ?u) \<le> M"
    using M D same_shape_idx_length [OF st(6,5,7)] by simp_all
  obtain db1 where 1: "db_writedat db data (int (doff (st_slots ?u) i)) SEEK_SET = Inr db1"
    "db_files M L (idx_image ?u) (dat_image (st_slots ?g1)) db1" "keeps db db1"
    "datoff db1 = int (doff (st_slots ?u) i)" "datlen db1 = length data + 1" "idxoff db1 = idxoff db"
    using writedat_slot [OF fs [folded D] st(1) len _ M'(1), of ?c] by (auto simp: put_slot_def)
  obtain db2 where 2: "db_writeidx db1 key (int (ioff (st_slots ?u) i)) SEEK_SET (int (cell g ?hc)) = Inr db2"
    "db_files M L (idx_image ?g1) (dat_image (st_slots ?g1)) db2" "keeps db1 db2"
    "idxoff db2 = int (ioff (st_slots ?u) i)"
    using writeidx_slot [OF 1(2) st(7,1,3,4) 1(4) _ M'(2)] 1(5) by auto
  have M1: "length (idx_image ?g1) \<le> M" using same_shape_idx_length [OF st(8,7,9)] M'(2) by simp
  have hdr1: "hdr_ok ?g1" using st(9) by (simp add: wf_store_def)
  have hok: "loc_ok ?g1 ?hc" by simp
  obtain db3 where 3: "db_writeptr db2 (int (loc_off ?g1 ?hc)) (int (ioff (st_slots ?u) i)) = Inr db3"
    "db_files M L (idx_image ?g2) (dat_image (st_slots ?g1)) db3" "keeps db2 db3"
    using writeptr_cell [OF 2(2) hdr1 hok wf_cell_le [OF st(9) hok] M1 st(2)] by blast
  have fs3: "db_files M L (idx_image ?g2) (dat_image (st_slots ?g2)) db3" using 3(2) by simp
  have lens: "length (idx_image ?g2) = length (idx_image g)" "length (dat_image (st_slots ?g2)) = length (dat_image (st_slots g))"
    using same_shape_idx_length [OF st(6,5,7)] same_shape_idx_length [OF st(10,7,11)]
      same_shape_dat_length [OF st(6)] same_shape_dat_length [OF st(10)] by simp_all
  have "db_writedat db data (datoff db) SEEK_SET = Inr db1"
    "db_writeidx db1 key (idxoff db1) SEEK_SET (int (cell g ?hc)) = Inr db2"
    using fr 1(1,6) 2(1) unfolding freed_def st(14,15) by simp_all
  moreover have "db_writeptr db2 (chainoff db2) (idxoff db2) = Inr db3"
    using 3(1) 2(3,4) 1(3) co by (simp add: keeps_def)
  moreover have "keeps db db3" using 1(3) 2(3) 3(3) keeps_trans by blast
  moreover have "holds_map M L ((db_map g cl)(key \<mapsto> data)) db3"
    using lens M by (intro holds_mapI [OF fs3 _ _ st(12,13)]) auto
  moreover have "grows 0 (length (idx_image g)) (length (dat_image (st_slots g))) db3"
    using fs3 lens by (simp add: grows_def db_files_def)
  ultimately show ?thesis using that by blast
qed

section \<open>Overwriting in place\<close>

lemma overwrite_inv:
  assumes inv: "db_inv g cl" and i: "i \<in> set (cl (hchain key))" "skey g i = key"
    and c: "c = (st_slots g ! i)\<lparr>s_data := data\<rparr>" "length data = length (sdata g i)" "c_string data"
  shows "db_inv (put_slot i c g) cl" "db_map (put_slot i c g) cl = (db_map g cl)(key \<mapsto> data)"
    "idx_image (put_slot i c g) = idx_image g"
proof -
  let ?g = "put_slot i c g"
  have th: "threaded g {} cl" and ct: "content g cl" using inv by (auto simp: db_inv_def)
  have wf: "wf_store g" and lt: "i < nslots g" using threadedD [OF th hchain_start [of key]] i by auto
  have sh: "shape c = shape (st_slots g ! i)" using c by (simp add: shape_def)
  have "slot_ok (doff (st_slots g) i) (st_slots g ! i)" using wf lt by (auto simp: wf_store_def slots_okD)
  then have ok: "slot_ok (doff (st_slots g) i) c"
    using c length_rec_body_shape [OF sh] by (simp add: slot_ok_def)
  have wf': "wf_store ?g" and ss: "same_shape g ?g" using wf lt sh ok by auto
  have keep: "skey ?g j = skey g j" "cell ?g (LSlot j) = cell g (LSlot j)" for j
    using lt c(1) by (cases "j = i"; simp add: put_slot_def)+
  have cells: "cell ?g s = cell g s" if "s \<in> starts" for s using that by (auto simp: starts_def put_slot_def)
  have chains: "chain_at ?g p (cl s) \<longleftrightarrow> chain_at g p (cl s)" if "s \<in> starts" for s p
    using keep(2) threadedD(4) [OF th that] wf wf'
    by (intro chain_at_nslots [OF ss]) (auto simp: wf_store_def)
  have "threaded ?g {} cl" using th wf' cells chains unfolding threaded_def by simp
  moreover have "content ?g cl" using ct keep(1) unfolding content_def by simp
  ultimately show inv': "db_inv ?g cl" by (simp add: db_inv_def)
  show "db_map ?g cl = (db_map g cl)(key \<mapsto> data)"
  proof
    fix k
    show "db_map ?g cl k = ((db_map g cl)(key \<mapsto> data)) k"
    proof (cases "k = key")
      case True
      then show ?thesis using db_map_Some [of ?g cl i key] inv' i keep(1) lt c(1)
        by (simp add: db_inv_def put_slot_def)
    next
      case False
      have eq: "sdata ?g j = sdata g j" if "skey g j \<noteq> key" for j
        using that i(2) lt by (cases "j = i") (auto simp: put_slot_def)
      have "map_of (map (\<lambda>j. (skey ?g j, sdata ?g j)) l) k = map_of (map (\<lambda>j. (skey g j, sdata g j)) l) k" for l
        using eq False keep(1) by (induction l) auto
      then show ?thesis using False by (simp add: db_map_def)
    qed
  qed
  have "rec_bytes (doff (st_slots g) i) c = rec_bytes (doff (st_slots g) i) (st_slots g ! i)"
    using c by (simp add: rec_bytes_def rec_body_def)
  moreover have "hdr_ok g" using wf by (simp add: wf_store_def)
  ultimately show "idx_image ?g = idx_image g"
    using idx_slot_split [OF _ lt] sh by (metis put_slot_id)
qed

lemma overwrite_ok:
  assumes fs: "db_files M L (idx_image g) (dat_image (st_slots g)) db" and inv: "db_inv g cl"
    and cl: "cl (hchain key) = l1 @ i # l2" and key: "skey g i = key"
    and ld: "loaded (ioff (st_slots g) i) (doff (st_slots g) i) (st_slots g ! i) db"
    and data: "length data = length (sdata g i)" "c_string data"
    and M: "length (idx_image g) \<le> M" "length (dat_image (st_slots g)) \<le> M"
  obtains db' where "db_writedat db data (datoff db) SEEK_SET = Inr db'" "keeps db db'"
    "holds_map M L ((db_map g cl)(key \<mapsto> data)) db'"
    "grows 0 (length (idx_image g)) (length (dat_image (st_slots g))) db'"
proof -
  let ?c = "(st_slots g ! i)\<lparr>s_data := data\<rparr>" and ?ss = "st_slots g"
  have im: "i \<in> set (cl (hchain key))" using cl by simp
  note o = overwrite_inv [OF inv im key refl data]
  have i: "i < nslots g" using inv im threadedD(4) [OF _ hchain_start [of key]] unfolding db_inv_def by fastforce
  obtain db' where d: "db_writedat db data (int (doff ?ss i)) SEEK_SET = Inr db'"
    "db_files M L (idx_image g) (dat_image (?ss[i := ?c])) db'" "keeps db db'"
    using writedat_slot [OF fs i data(1) _ M(2), of ?c] by auto
  have fs': "db_files M L (idx_image (put_slot i ?c g)) (dat_image (st_slots (put_slot i ?c g))) db'"
    using d(2) unfolding o(3) by (simp add: put_slot_def)
  have "same_shape g (put_slot i ?c g)" using i data(1) by (simp add: shape_def)
  then have len: "length (dat_image (st_slots (put_slot i ?c g))) = length (dat_image ?ss)"
    by (rule same_shape_dat_length)
  have "db_writedat db data (datoff db) SEEK_SET = Inr db'" using d(1) ld by (simp add: loaded_def)
  moreover have "holds_map M L ((db_map g cl)(key \<mapsto> data)) db'"
    using M o(3) len by (intro holds_mapI [OF fs' _ _ o(1,2)]) auto
  moreover have "grows 0 (length (idx_image g)) (length (dat_image ?ss)) db'"
    using fs' len o(3) by (simp add: grows_def db_files_def)
  ultimately show ?thesis using that d(3) by blast
qed

section \<open>The code\<close>

text \<open>Between taking and releasing the lock of the chain of \<open>key\<close>: the files hold \<open>m\<close>,
  counter \<open>k\<close> was increased since \<open>db\<close>, and the files grew by the record in the two ways that append it (counters 5 and 7), and not at all in the others.\<close>

definition added :: "nat \<Rightarrow> string \<Rightarrow> nat" where
  "added k data = (if k \<in> {5, 7} then length data + 1 else 0)"

definition store_done :: "DB \<Rightarrow> string \<Rightarrow> nat \<Rightarrow> locks \<Rightarrow> (string \<rightharpoonup> string) \<Rightarrow> DB \<Rightarrow> bool" where
  "store_done db data k L m db' \<longleftrightarrow> holds_map (flimit (idxfd db)) L m db' \<and> chainoff db' = chainoff db \<and>
     db_counts db' = (db_counts db)[k := db_counts db ! k + 1] \<and> db_errno db' = db_errno db \<and>
     grows (added k data) (length (fbytes (idxfd db))) (length (fbytes (datfd db))) db'"

lemma holds_map_upd_counts [simp]:
  "holds_map M L m (db\<lparr>cnt_stor1 := c\<rparr>) = holds_map M L m db"
  "holds_map M L m (db\<lparr>cnt_stor2 := c\<rparr>) = holds_map M L m db"
  "holds_map M L m (db\<lparr>cnt_stor3 := c\<rparr>) = holds_map M L m db"
  "holds_map M L m (db\<lparr>cnt_stor4 := c\<rparr>) = holds_map M L m db"
  "holds_map M L m (db\<lparr>cnt_storerr := c\<rparr>) = holds_map M L m db"
  "holds_map M L m (db\<lparr>db_errno := e\<rparr>) = holds_map M L m db"
  by (simp_all add: holds_map_def)

lemma grows_upd_counts [simp]:
  "grows d a b (db\<lparr>cnt_stor1 := c\<rparr>) = grows d a b db" "grows d a b (db\<lparr>cnt_stor2 := c\<rparr>) = grows d a b db"
  "grows d a b (db\<lparr>cnt_stor3 := c\<rparr>) = grows d a b db" "grows d a b (db\<lparr>cnt_stor4 := c\<rparr>) = grows d a b db"
  by (simp_all add: grows_def)

lemma db_counts_errno [simp]: "db_counts (db\<lparr>db_errno := e\<rparr>) = db_counts db"
  by (simp add: db_counts_def)

lemma chain_lock_high:
  "hdr_len \<le> i \<Longrightarrow> lset no_locks ty (loc_off g (hchain key)) 1 i = None"
proof -
  assume "hdr_len \<le> i"
  moreover have "7 * hashn key + 8 \<le> hdr_len" using hashn_less [of key] by linarith
  ultimately show ?thesis by (simp add: lset_def in_range_def no_locks_def)
qed

lemma store_new_ok:
  assumes fs: "db_files M (lset no_locks ty (loc_off g (hchain key)) 1) (idx_image g) (dat_image (st_slots g)) db"
    and inv: "db_inv g cl" and new: "\<forall>j \<in> set (cl (hchain key)). skey g j \<noteq> key"
    and co: "chainoff db = int (loc_off g (hchain key))" and v: "valid_key key" "valid_data data"
    and room: "db_room db"
  obtains k db' where "db_store_new db key data = Inr db'" "k \<in> {5, 6}"
    "store_done db data k (lset no_locks ty (loc_off g (hchain key)) 1) ((db_map g cl)(key \<mapsto> data)) db'"
proof -
  let ?L = "lset no_locks ty (loc_off g (hchain key)) 1" and ?D = "dat_image (st_slots g)"
  have th: "threaded g {} cl" using inv by (simp add: db_inv_def)
  have hdr: "hdr_ok g" using threadedD(1) [OF th LFree_start] by (simp add: wf_store_def)
  have M: "int (length (idx_image g)) \<le> PTR_MAX" "length (idx_image g) + 1035 \<le> M" "length ?D + 1024 \<le> M"
    and ff: "fbytes (idxfd db) = idx_image g" "fbytes (datfd db) = ?D" "flimit (idxfd db) = M"
    using room fs by (simp_all add: db_room_def db_files_def)
  have Mle: "length (idx_image g) \<le> M" "length ?D \<le> M" using M by simp_all
  obtain db1 where 1: "db_readptr db (int (loc_off g (hchain key))) = Inr (int (cell g (hchain key)), db1)"
    "db_files M ?L (idx_image g) ?D db1" "keeps db db1"
    using readptr_cell [OF fs hdr start_loc_ok [OF hchain_start] start_cell_le [OF th hchain_start]] by blast
  have co1: "chainoff db1 = int (loc_off g (hchain key))" using 1(3) co by (simp add: keeps_def)
  show ?thesis
    using 1(2) th no_locks_free Mle(1)
  proof (cases rule: findfree_ok [where kl = "length key" and dl = "length data + 1"])
    case (none db2)
    have co2: "chainoff db2 = int (loc_off g (hchain key))" using none(2) co1 by (simp add: keeps_def)
    obtain db3 db4 db5 where a: "db_writedat db2 data 0 SEEK_END = Inr db3"
      "db_writeidx db3 key 0 SEEK_END (int (cell g (hchain key))) = Inr db4"
      "db_writeptr db4 (chainoff db4) (idxoff db4) = Inr db5"
      "keeps db2 db5" "holds_map M ?L ((db_map g cl)(key \<mapsto> data)) db5"
      "grows (length data + 1) (length (idx_image g)) (length ?D) db5"
      using append_ok [OF none(3) inv new co2 v M chain_lock_high] by blast
    have "db_store_new db key data = Inr (db5\<lparr>cnt_stor1 := cnt_stor1 db5 + 1\<rparr>)"
      unfolding db_store_new_def co by (simp only: 1(1) none(1) a(1-3) andthen_simps prod.case) simp
    then show ?thesis using 1(3) none(2) a(4-6) ff
      by (intro that [of "db5\<lparr>cnt_stor1 := cnt_stor1 db5 + 1\<rparr>" 5]) (simp_all add: store_done_def added_def keeps_def db_counts_def)
  next
    case (some db2 l1 i l2)
    have co2: "chainoff db2 = int (loc_off g (hchain key))" using some(2) co1 by (simp add: keeps_def)
    obtain db3 db4 db5 where a: "db_writedat db2 data (datoff db2) SEEK_SET = Inr db3"
      "db_writeidx db3 key (idxoff db3) SEEK_SET (int (cell g (hchain key))) = Inr db4"
      "db_writeptr db4 (chainoff db4) (idxoff db4) = Inr db5"
      "keeps db2 db5" "holds_map M ?L ((db_map g cl)(key \<mapsto> data)) db5"
      "grows 0 (length (idx_image g)) (length ?D) db5"
      using reuse_ok [OF some(3) inv new some(4) co2 v Mle] by blast
    have "db_store_new db key data = Inr (db5\<lparr>cnt_stor2 := cnt_stor2 db5 + 1\<rparr>)"
      unfolding db_store_new_def co by (simp only: 1(1) some(1) a(1-3) andthen_simps prod.case) simp
    then show ?thesis using 1(3) some(2) a(4-6) ff
      by (intro that [of "db5\<lparr>cnt_stor2 := cnt_stor2 db5 + 1\<rparr>" 6]) (simp_all add: store_done_def added_def keeps_def db_counts_def)
  qed
qed

text \<open>A record of another size is deleted and appended again.\<close>

lemma store_moved_ok:
  assumes fs: "db_files M (lset no_locks ty (loc_off g (hchain key)) 1) (idx_image g) (dat_image (st_slots g)) db"
    and inv: "db_inv g cl" and cl: "cl (hchain key) = l1 @ i # l2" and key: "skey g i = key"
    and ld: "loaded (ioff (st_slots g) i) (doff (st_slots g) i) (st_slots g ! i) db"
    and po: "ptroff db = int (loc_off g (pred_loc (hchain key) l1))"
    and co: "chainoff db = int (loc_off g (hchain key))" and v: "valid_key key" "valid_data data"
    and room: "db_room db"
    and diff: "length data \<noteq> length (sdata g i)"
  obtains db' where "db_store_over db key data = Inr db'"
    "store_done db data 7 (lset no_locks ty (loc_off g (hchain key)) 1) ((db_map g cl)(key \<mapsto> data)) db'"
proof -
  let ?L = "lset no_locks ty (loc_off g (hchain key)) 1" and ?D = "dat_image (st_slots g)"
  have th: "threaded g {} cl" and ct: "content g cl" using inv by (simp_all add: db_inv_def)
  have M: "int (length (idx_image g)) \<le> PTR_MAX" "length (idx_image g) + 1035 \<le> M" "length ?D + 1024 \<le> M"
    and ff: "fbytes (idxfd db) = idx_image g" "fbytes (datfd db) = ?D" "flimit (idxfd db) = M"
    using room fs by (simp_all add: db_room_def db_files_def)
  have Mle: "length (idx_image g) \<le> M" "length ?D \<le> M" using M by simp_all
  have dl: "datlen db = length (sdata g i) + 1" using ld by (simp add: loaded_def)
  let ?g = "remove (hchain key) l1 i g" and ?cl = "removed (hchain key) l1 i l2 cl"
  have nf: "hchain key \<noteq> LFree" by simp
  obtain db1 where 1: "db_dodelete db = Inr db1" "keeps db db1"
    "db_files M ?L (idx_image ?g) (dat_image (st_slots ?g)) db1"
    using dodelete_ok [OF fs th hchain_start nf cl ld po no_locks_free Mle] by blast
  have thr: "threaded ?g {} ?cl" by (rule threaded_remove [OF th hchain_start nf cl])
  have inv1: "db_inv ?g ?cl"
    unfolding db_inv_def using thr remove_content [OF th ct hashn_less cl] by blast
  have m1: "db_map ?g ?cl = (db_map g cl)(key := None)" by (rule remove_db_map [OF th ct cl key])
  have new: "\<forall>j \<in> set (?cl (hchain key)). skey ?g j \<noteq> key"
    using m1 db_map_Some [of ?g ?cl _ key] inv1 unfolding db_inv_def by (metis fun_upd_same option.distinct(1))
  note sh = same_shape_remove [OF th hchain_start nf cl]
  have len: "length (idx_image ?g) = length (idx_image g)" "length (dat_image (st_slots ?g)) = length ?D"
    using same_shape_idx_length [OF sh(1) threadedD(1) [OF th LFree_start] sh(2)] same_shape_dat_length [OF sh(1)]
    by simp_all
  have hdr: "hdr_ok ?g" using sh(2) by (simp add: wf_store_def)
  have off: "loc_off ?g (hchain key) = loc_off g (hchain key)" by simp
  obtain db2 where 2: "db_readptr db1 (int (loc_off g (hchain key))) = Inr (int (cell ?g (hchain key)), db2)"
    "db_files M ?L (idx_image ?g) (dat_image (st_slots ?g)) db2" "keeps db1 db2"
    using readptr_cell [OF 1(3) hdr start_loc_ok [OF hchain_start [of key]] start_cell_le [OF thr hchain_start [of key]]]
    unfolding off by metis
  have co1: "chainoff db1 = int (loc_off g (hchain key))" and co2: "chainoff db2 = int (loc_off ?g (hchain key))"
    using 1(2) 2(3) co by (simp_all add: keeps_def)
  obtain db3 db4 db5 where a: "db_writedat db2 data 0 SEEK_END = Inr db3"
    "db_writeidx db3 key 0 SEEK_END (int (cell ?g (hchain key))) = Inr db4"
    "db_writeptr db4 (chainoff db4) (idxoff db4) = Inr db5" "keeps db2 db5"
    "holds_map M ?L ((db_map ?g ?cl)(key \<mapsto> data)) db5"
    "grows (length data + 1) (length (idx_image ?g)) (length (dat_image (st_slots ?g))) db5"
    using append_ok [OF 2(2) inv1 new co2 v M [folded len] chain_lock_high] by blast
  have "length data + 1 \<noteq> datlen db" using diff dl by simp
  then have "db_store_over db key data = Inr (db5\<lparr>cnt_stor3 := cnt_stor3 db5 + 1\<rparr>)"
    unfolding db_store_over_def
    by (simp only: 1(1) co1 2(1) a(1-3) andthen_simps prod.case if_True simp_thms)
  moreover have "holds_map M ?L ((db_map g cl)(key \<mapsto> data)) db5" "grows (length data + 1) (length (idx_image g)) (length ?D) db5"
    using a(5,6) unfolding m1 len by simp_all
  ultimately show ?thesis using 1(2) 2(3) a(4) ff
    by (intro that [of "db5\<lparr>cnt_stor3 := cnt_stor3 db5 + 1\<rparr>"]) (simp_all add: store_done_def added_def keeps_def db_counts_def)
qed

lemma store_over_ok:
  assumes fs: "db_files M (lset no_locks ty (loc_off g (hchain key)) 1) (idx_image g) (dat_image (st_slots g)) db"
    and inv: "db_inv g cl" and cl: "cl (hchain key) = l1 @ i # l2" and key: "skey g i = key"
    and ld: "loaded (ioff (st_slots g) i) (doff (st_slots g) i) (st_slots g ! i) db"
    and po: "ptroff db = int (loc_off g (pred_loc (hchain key) l1))"
    and co: "chainoff db = int (loc_off g (hchain key))" and v: "valid_key key" "valid_data data"
    and room: "db_room db"
  obtains db' where "db_store_over db key data = Inr db'"
    "store_done db data (if length data = length (sdata g i) then 8 else 7)
       (lset no_locks ty (loc_off g (hchain key)) 1) ((db_map g cl)(key \<mapsto> data)) db'"
proof -
  let ?L = "lset no_locks ty (loc_off g (hchain key)) 1" and ?D = "dat_image (st_slots g)"
  have th: "threaded g {} cl" and ct: "content g cl" using inv by (simp_all add: db_inv_def)
  have M: "int (length (idx_image g)) \<le> PTR_MAX" "length (idx_image g) + 1035 \<le> M" "length ?D + 1024 \<le> M"
    and ff: "fbytes (idxfd db) = idx_image g" "fbytes (datfd db) = ?D" "flimit (idxfd db) = M"
    using room fs by (simp_all add: db_room_def db_files_def)
  have Mle: "length (idx_image g) \<le> M" "length ?D \<le> M" using M by simp_all
  have dl: "datlen db = length (sdata g i) + 1" using ld by (simp add: loaded_def)
  show ?thesis
  proof (cases "length data = length (sdata g i)")
    case True
    have cs: "c_string data" using v(2) by (simp add: valid_data_def)
    obtain db' where w: "db_writedat db data (datoff db) SEEK_SET = Inr db'" "keeps db db'"
      "holds_map M ?L ((db_map g cl)(key \<mapsto> data)) db'" "grows 0 (length (idx_image g)) (length ?D) db'"
      using overwrite_ok [OF fs inv cl key ld True cs Mle] by blast
    show ?thesis
      by (rule that [of "db'\<lparr>cnt_stor4 := cnt_stor4 db' + 1\<rparr>"])
         (use True w ff dl in \<open>simp_all add: db_store_over_def store_done_def added_def keeps_def db_counts_def\<close>)
  next
    case False
    show ?thesis by (rule store_moved_ok [OF assms False]) (rule that, use False in simp_all)
  qed
qed

definition store_counter :: "(string \<rightharpoonup> string) \<Rightarrow> string \<Rightarrow> string \<Rightarrow> int \<Rightarrow> nat set" where
  "store_counter m key data flag =
     (if fst (kv_store m key data flag) \<noteq> 0 then {9}
      else case m key of None \<Rightarrow> {5, 6} | Some old \<Rightarrow> {if length data = length old then 8 else 7})"

lemma holds_map_repr:
  assumes "holds_map M no_locks m db" shows "db_repr db m"
  using assms unfolding holds_map_def by (blast intro: db_reprI)

lemma holds_map_release:
  assumes "holds_map M (lset no_locks ty off 1) m db" "chainoff db = int off"
  obtains db' where "idx_lock msg None (chainoff db) 1 db = Inr db'" "holds_map M no_locks m db'" "keeps db db'"
    "grows d a b db' = grows d a b db"
proof -
  obtain g cl where g: "db_files M (lset no_locks ty off 1) (idx_image g) (dat_image (st_slots g)) db"
    and rest: "length (idx_image g) \<le> M" "length (dat_image (st_slots g)) \<le> M" "db_inv g cl" "db_map g cl = m"
    using assms(1) unfolding holds_map_def by blast
  obtain db' where d: "idx_lock msg None (chainoff db) 1 db = Inr db'"
    "db_files M no_locks (idx_image g) (dat_image (st_slots g)) db'" "keeps db db'"
    using release_chain [OF g assms(2)] by blast
  have "grows d a b db' = grows d a b db" using d(2) g by (simp add: grows_def db_files_def)
  then show ?thesis using that d holds_mapI [OF d(2) rest] by blast
qed

text \<open>The part of \<^verbatim>\<open>db_store\<close> between locating the key and releasing its chain.\<close>

definition store_body :: "int \<Rightarrow> DB \<Rightarrow> string \<Rightarrow> string \<Rightarrow> int \<Rightarrow> db_error + (int \<times> DB)" where
  "store_body r db key data flag =
     (if r < 0
      then if flag = DB_REPLACE
           then Inr (- 1, db\<lparr>cnt_storerr := cnt_storerr db + 1, db_errno := ENOENT\<rparr>)
           else andthen (db_store_new db key data) (\<lambda>db. Inr (0, db))
      else if flag = DB_INSERT
           then Inr (1, db\<lparr>cnt_storerr := cnt_storerr db + 1\<rparr>)
           else andthen (db_store_over db key data) (\<lambda>db. Inr (0, db)))"

definition kv_errno :: "(string \<rightharpoonup> string) \<Rightarrow> string \<Rightarrow> int \<Rightarrow> errnum \<Rightarrow> errnum" where
  "kv_errno m key flag e = (if m key = None \<and> flag = DB_REPLACE then ENOENT else e)"

lemma store_body_ok:
  assumes fs: "db_files M (lset no_locks ty (loc_off g (hchain key)) 1) (idx_image g) (dat_image (st_slots g)) db"
    and inv: "db_inv g cl" and lo: "located g cl key r db"
    and co: "chainoff db = int (loc_off g (hchain key))" and v: "valid_key key" "valid_data data"
    and room: "db_room db" and flag: "flag \<in> {DB_INSERT, DB_REPLACE, DB_STORE}" and m: "db_map g cl = m"
  obtains k db' where "store_body r db key data flag = Inr (fst (kv_store m key data flag), db')"
    "k \<in> store_counter m key data flag" "db_errno db' = kv_errno m key flag (db_errno db)"
    "store_done db data k (lset no_locks ty (loc_off g (hchain key)) 1) (snd (kv_store m key data flag)) (db'\<lparr>db_errno := db_errno db\<rparr>)"
proof -
  let ?L = "lset no_locks ty (loc_off g (hchain key)) 1"
  have M: "length (idx_image g) \<le> M" "length (dat_image (st_slots g)) \<le> M"
    and ff: "fbytes (idxfd db) = idx_image g" "fbytes (datfd db) = dat_image (st_slots g)" "flimit (idxfd db) = M"
    using room fs by (simp_all add: db_room_def db_files_def)
  have same: "store_done db data 9 ?L m (db\<lparr>cnt_storerr := cnt_storerr db + 1\<rparr>)"
    using holds_mapI [OF fs M inv m] ff by (simp add: store_done_def added_def grows_def db_counts_def)
  show ?thesis
    using lo
  proof (cases rule: locatedE)
    case absent
    have mk: "m key = None" using m absent(2) by (auto simp: db_map_None)
    show ?thesis
    proof (cases "flag = DB_REPLACE")
      case True
      then show ?thesis using same mk absent(1)
        by (intro that [of "db\<lparr>cnt_storerr := cnt_storerr db + 1, db_errno := ENOENT\<rparr>" 9])
           (simp_all add: store_body_def kv_store_def store_counter_def kv_errno_def)
    next
      case False
      obtain k db' where s: "db_store_new db key data = Inr db'" "k \<in> {5, 6}"
        "store_done db data k ?L ((db_map g cl)(key \<mapsto> data)) db'"
        using store_new_ok [OF fs inv absent(2) co v room] by blast
      have e: "db_errno db' = db_errno db" using s(3) by (simp add: store_done_def added_def)
      show ?thesis using s mk absent(1) False flag m e
        by (intro that [of db' k])
           (auto simp: store_body_def kv_store_def store_counter_def kv_errno_def simp flip: e)
    qed
  next
    case (found l1 i l2)
    have mk: "m key = Some (sdata g i)"
      using db_map_Some [of g cl i key] found inv m by (simp add: db_inv_def)
    show ?thesis
    proof (cases "flag = DB_INSERT")
      case True
      then show ?thesis using same mk found(1)
        by (intro that [of "db\<lparr>cnt_storerr := cnt_storerr db + 1\<rparr>" 9])
           (simp_all add: store_body_def kv_store_def store_counter_def kv_errno_def)
    next
      case False
      obtain db' where s: "db_store_over db key data = Inr db'"
        "store_done db data (if length data = length (sdata g i) then 8 else 7) ?L ((db_map g cl)(key \<mapsto> data)) db'"
        using store_over_ok [OF fs inv found(2-5) co v room] by blast
      have e: "db_errno db' = db_errno db" using s(2) by (simp add: store_done_def added_def)
      show ?thesis using s mk found(1) False flag m e
        by (intro that [of db' "if length data = length (sdata g i) then 8 else 7"])
           (auto simp: store_body_def kv_store_def store_counter_def kv_errno_def simp flip: e)
    qed
  qed
qed

lemma store_ok:
  assumes repr: "db_repr db m" and v: "valid_key key" "valid_data data" and room: "db_room db"
    and flag: "flag \<in> {DB_INSERT, DB_REPLACE, DB_STORE}"
  obtains k db' where "db_store db key data flag = Inr (fst (kv_store m key data flag), db')"
    "db_repr db' (snd (kv_store m key data flag))"
    "k \<in> store_counter m key data flag" "db_counts db' = (db_counts db)[k := db_counts db ! k + 1]"
    "db_errno db' = kv_errno m key flag (db_errno db)" "flimit (idxfd db') = flimit (idxfd db)"
    "grows (added k data) (length (fbytes (idxfd db))) (length (fbytes (datfd db))) db'"
proof -
  obtain g cl where h: "db_holds no_locks g db" and inv: "db_inv g cl" and m: "db_map g cl = m"
    using repr by (auto simp: db_repr_def)
  let ?M = "flimit (idxfd db)" and ?D = "dat_image (st_slots g)" and ?off = "loc_off g (hchain key)"
  have th: "threaded g {} cl" using inv by (simp add: db_inv_def)
  obtain r db1 ty where 1: "db_find_and_lock db key True = Inr (r, db1)"
    "db_files ?M (lset no_locks ty ?off 1) (idx_image g) ?D db1"
    "quiet db db1" "chainoff db1 = int ?off" and lo: "located g cl key r db1"
    using find_and_lock_ok [OF db_holds_files [OF h] th] by blast
  have eq1: "fbytes (idxfd db1) = fbytes (idxfd db)" "fbytes (datfd db1) = fbytes (datfd db)"
    "flimit (idxfd db1) = flimit (idxfd db)"
    using 1(2) h by (simp_all add: db_holds_def db_files_def)
  have room1: "db_room db1" using room eq1 by (simp add: db_room_def)
  obtain k db2 where 2: "store_body r db1 key data flag = Inr (fst (kv_store m key data flag), db2)"
    "k \<in> store_counter m key data flag" "db_errno db2 = kv_errno m key flag (db_errno db1)"
    and sd: "store_done db1 data k (lset no_locks ty ?off 1) (snd (kv_store m key data flag)) (db2\<lparr>db_errno := db_errno db1\<rparr>)"
    using store_body_ok [OF 1(2) inv lo 1(4) v room1 flag m] by blast
  have hm: "holds_map ?M (lset no_locks ty ?off 1) (snd (kv_store m key data flag)) db2"
    and co2: "chainoff db2 = int ?off"
    and cnt: "db_counts db2 = (db_counts db)[k := db_counts db ! k + 1]"
    and gr: "grows (added k data) (length (fbytes (idxfd db))) (length (fbytes (datfd db))) db2"
    using sd 1(3,4) eq1 by (simp_all add: store_done_def added_def quiet_def grows_def)
  obtain db3 where 3: "idx_lock ''db_store: un_lock error'' None (chainoff db2) 1 db2 = Inr db3"
    "holds_map ?M no_locks (snd (kv_store m key data flag)) db3" "keeps db2 db3"
    "grows (added k data) (length (fbytes (idxfd db))) (length (fbytes (datfd db))) db3"
    using holds_map_release [OF hm co2] gr by metis
  have len: "\<not> (length data + 1 < DATLEN_MIN \<or> length data + 1 > DATLEN_MAX)"
    using v(2) by (auto simp: valid_data_def)
  have fl: "\<not> (flag \<noteq> DB_INSERT \<and> flag \<noteq> DB_REPLACE \<and> flag \<noteq> DB_STORE)" using flag by auto
  have "db_store db key data flag = Inr (fst (kv_store m key data flag), db3)"
    unfolding db_store_def if_not_P [OF len] if_not_P [OF fl] 1(1) andthen_simps prod.case store_body_def [symmetric]
    by (simp only: 2(1) 3(1) andthen_simps prod.case)
  moreover have "flimit (idxfd db3) = ?M" using 3(2) by (auto simp: holds_map_def db_files_def)
  ultimately show ?thesis
    using that holds_map_repr [OF 3(2)] 2(2,3) 3(3,4) cnt 1(3) by (simp add: keeps_def quiet_def)
qed

end
