(* ===== verification/Db_Scan.thy ===== *)
theory Db_Scan
  imports Db_Store
begin

text \<open>
  Opening, closing and sequential access: \<^verbatim>\<open>db_open\<close> makes an empty database,
  what is written survives closing and reopening, and after \<^verbatim>\<open>db_rewind\<close> the
  calls of \<^verbatim>\<open>db_nextrec\<close> go through the records of the map, each once.
\<close>

section \<open>A new database\<close>

definition empty_store :: store where
  "empty_store = \<lparr>st_free = 0, st_heads = replicate NHASH_DEF 0, st_slots = []\<rparr>"

lemma empty_image:
  "idx_image empty_store = concat (replicate (NHASH_DEF + 1) (ptr7 0)) @ [NEWLINE]"
proof -
  have "concat (replicate (Suc n) (ptr7 0)) = ptr7 0 @ concat (map ptr7 (replicate n 0))" for n
    by (simp add: map_replicate)
  from this [of NHASH_DEF] show ?thesis
    by (simp add: idx_image_def empty_store_def del: replicate.simps)
qed

lemma empty_inv: "db_inv empty_store (\<lambda>_. [])" "db_map empty_store (\<lambda>_. []) = Map.empty"
proof -
  have "wf_store empty_store"
    by (simp add: wf_store_def hdr_ok_def slots_ok_def empty_store_def)
  then have "threaded empty_store {} (\<lambda>_. [])"
    by (auto simp: threaded_def starts_def empty_store_def)
  then show "db_inv empty_store (\<lambda>_. [])" by (simp add: db_inv_def content_def)
  show "db_map empty_store (\<lambda>_. []) = Map.empty" by (simp add: db_map_def fun_eq_iff)
qed

lemma length_empty_image: "length (idx_image empty_store) = 967"
proof -
  have "hdr_ok empty_store" by (simp add: hdr_ok_def empty_store_def)
  then show ?thesis by (simp add: length_idx_image empty_store_def)
qed

lemma rewind_ok:
  assumes "db_files M L I D db"
  obtains db' where "db_rewind db = Inr db'" "db_files M L I D db'" "fpos (idxfd db') = hdr_len" "quiet db db'"
proof -
  have "unat (nhash db) = 137" using assms by (simp add: db_files_def)
  then have "db_rewind db = Inr (db\<lparr>idxoff := 967, idxfd := (idxfd db)\<lparr>fpos := 967\<rparr>\<rparr>)"
    unfolding db_rewind_def using lseek_set [of "idxfd db" 967] by simp
  then show ?thesis using that assms by (simp add: db_files_def quiet_def db_counts_def)
qed

definition opens :: "nat \<Rightarrow> (nat \<Rightarrow> nat \<Rightarrow> bool) \<Rightarrow> bool" where
  "opens lim refuse \<longleftrightarrow> hdr_len \<le> lim \<and> refuse = (\<lambda>_ _. False)"

lemma db_init_ok:
  assumes fs: "db_files M no_locks [] D db" and pos: "fpos (idxfd db) = 0" and M: "hdr_len \<le> M"
  obtains db' where "db_init db = Inr db'" "db_files M no_locks (idx_image empty_store) D db'" "quiet db db'"
proof -
  obtain db1 where 1: "idx_lock ''db_open: writew_lock error'' (Some F_WRLCK) (int 0) 0 db = Inr db1"
    "db_files M (lset no_locks (Some F_WRLCK) 0 0) [] D db1" "keeps db db1" "fpos (idxfd db1) = fpos (idxfd db)"
    using idx_lock_ok [OF fs] by blast
  let ?h = "idx_image empty_store"
  have b: "fbytes (idxfd db1) = []" "fpos (idxfd db1) = 0" "flimit (idxfd db1) = M" using 1(2,4) pos by (simp_all add: db_files_def)
  have w: "os_write (idxfd db1) ?h = (int (length ?h), (idxfd db1)\<lparr>fbytes := ?h, fpos := 967\<rparr>)"
    using b M length_empty_image by (subst os_write_fits) (simp_all add: pwrite_def)
  let ?db2 = "db1\<lparr>idxfd := (idxfd db1)\<lparr>fbytes := ?h, fpos := 967\<rparr>\<rparr>"
  have fs2: "db_files M (lset no_locks (Some F_WRLCK) 0 0) ?h D ?db2" using 1(2) by (simp add: db_files_def)
  obtain db3 where 3: "idx_lock ''db_open: un_lock error'' None (int 0) 0 ?db2 = Inr db3"
    "db_files M (lset (lset no_locks (Some F_WRLCK) 0 0) None 0 0) ?h D db3" "keeps ?db2 db3"
    using idx_lock_ok [OF fs2] by blast
  have h: "concat (replicate (NHASH_DEF + 1) (pad_left PTR_SZ (sdec 0))) @ [NEWLINE] = ?h"
    unfolding empty_image ptr7_def using sdec_int [of 0] by simp
  have "db_init db = Inr db3"
    unfolding db_init_def Let_def h using 1(1) b(1) w 3(1) by simp
  moreover have "lset (lset no_locks (Some F_WRLCK) 0 0) None 0 0 = no_locks"
    by (rule lset_undo_tail) (simp add: no_locks_def)
  ultimately show ?thesis using that 3(2,3) 1(3) by (simp add: keeps_def quiet_def db_counts_def)
qed

lemma open_new:
  assumes env: "opens lim refuse" and fl: "O_CREAT \<in> set oflag" "O_TRUNC \<in> set oflag" "O_EXCL \<notin> set oflag"
  obtains db fs' where "db_open fs lim refuse path oflag = Inr (Some db, fs')" "db_repr db Map.empty"
    "fpos (idxfd db) = hdr_len" "flimit (idxfd db) = lim" "length (fbytes (idxfd db)) = hdr_len"
    "fbytes (datfd db) = []"
proof -
  let ?db = "(db_alloc (fopened [] lim refuse) (fopened [] lim refuse))
    \<lparr>nhash := word_of_nat NHASH_DEF, hashoff := int HASH_OFF, db_name := path @ ''.dat''\<rparr>"
  have o: "os_open f p oflag = Some ([], f(p \<mapsto> []))" for f p
    using fl by (auto simp: os_open_def split: option.splits)
  have fs0: "db_files lim no_locks [] [] ?db"
    using env by (simp add: db_files_def db_alloc_def fopened_def opens_def grants_locks_def no_locks_def)
  have pos0: "fpos (idxfd ?db) = 0" by (simp add: db_alloc_def fopened_def)
  have M: "hdr_len \<le> lim" using env by (simp add: opens_def)
  obtain db1 where 1: "db_init ?db = Inr db1" "db_files lim no_locks (idx_image empty_store) [] db1"
    using db_init_ok [OF fs0 pos0 M] by blast
  obtain db2 where 2: "db_rewind db1 = Inr db2" "db_files lim no_locks (idx_image empty_store) [] db2"
    "fpos (idxfd db2) = hdr_len"
    using rewind_ok [OF 1(2)] by blast
  have "db_open fs lim refuse path oflag = Inr (Some db2, fs(path @ ''.idx'' \<mapsto> [], path @ ''.dat'' \<mapsto> []))"
    unfolding db_open_def Let_def o using 1(1) 2(1) fl by simp
  moreover have D: "dat_image (st_slots empty_store) = []" by (simp add: empty_store_def dat_image_def)
  have "db_repr db2 Map.empty"
    using 2(2) M length_empty_image empty_inv D by (intro db_reprI [of lim empty_store]) simp_all
  ultimately show ?thesis using that 2(2,3) length_empty_image by (simp add: db_files_def)
qed

section \<open>Closing and reopening\<close>

lemma reopen_ok:
  assumes repr: "db_repr db m" and ref: "refuse = (\<lambda>_ _. False)"
    and lim: "length (fbytes (idxfd db)) \<le> lim" "length (fbytes (datfd db)) \<le> lim"
    and fl: "O_TRUNC \<notin> set oflag" "O_CREAT \<notin> set oflag"
  obtains db' where "db_open (db_close db fs path) lim refuse path oflag = Inr (Some db', db_close db fs path)"
    "db_repr db' m" "fpos (idxfd db') = hdr_len"
proof -
  obtain g cl where h: "db_holds no_locks g db" and inv: "db_inv g cl" and m: "db_map g cl = m"
    using repr by (auto simp: db_repr_def)
  have b: "fbytes (idxfd db) = idx_image g" "fbytes (datfd db) = dat_image (st_slots g)"
    using h by (simp_all add: db_holds_def db_files_def)
  let ?fs = "db_close db fs path"
  have o: "os_open ?fs (path @ ''.idx'') oflag = Some (idx_image g, ?fs)"
    "os_open ?fs (path @ ''.dat'') oflag = Some (dat_image (st_slots g), ?fs)"
    using b fl by (simp_all add: os_open_def db_close_def)
  let ?db = "(db_alloc (fopened (idx_image g) lim refuse) (fopened (dat_image (st_slots g)) lim refuse))
    \<lparr>nhash := word_of_nat NHASH_DEF, hashoff := int HASH_OFF, db_name := path @ ''.dat''\<rparr>"
  have fs0: "db_files lim no_locks (idx_image g) (dat_image (st_slots g)) ?db"
    using ref by (simp add: db_files_def db_alloc_def fopened_def grants_locks_def no_locks_def)
  obtain db2 where 2: "db_rewind ?db = Inr db2" "db_files lim no_locks (idx_image g) (dat_image (st_slots g)) db2"
    "fpos (idxfd db2) = hdr_len"
    using rewind_ok [OF fs0] by blast
  have "db_open ?fs lim refuse path oflag = Inr (Some db2, ?fs)"
    unfolding db_open_def Let_def o using 2(1) fl o by simp
  moreover have "db_repr db2 m" using lim b inv m by (intro db_reprI [OF 2(2)]) auto
  ultimately show ?thesis using that 2(3) by blast
qed

section \<open>Sequential access\<close>

definition blank :: "string \<Rightarrow> bool" where
  "blank s \<longleftrightarrow> (\<forall>c \<in> set s. c = SPACE)"

definition live :: "slot list \<Rightarrow> (string \<times> string) list" where
  "live ss = map (\<lambda>s. (s_key s, s_data s)) (filter (\<lambda>s. \<not> blank (s_key s)) ss)"

text \<open>The open database holds \<open>m\<close>, and its cursor stands before the records \<open>rest\<close>.\<close>

definition db_cursor :: "DB \<Rightarrow> (string \<rightharpoonup> string) \<Rightarrow> (string \<times> string) list \<Rightarrow> bool" where
  "db_cursor db m rest \<longleftrightarrow> (\<exists>g cl i. db_holds no_locks g db \<and> db_inv g cl \<and> db_map g cl = m \<and>
     i \<le> nslots g \<and> fpos (idxfd db) = ioff (st_slots g) i \<and> rest = live (drop i (st_slots g)))"

lemma slot_in_chain:
  assumes inv: "db_inv g cl" and i: "i < nslots g" and nb: "\<not> blank (skey g i)"
  shows "i \<in> set (cl (hchain (skey g i)))"
proof -
  have th: "threaded g {} cl" and ct: "content g cl" using inv by (simp_all add: db_inv_def)
  have "i \<in> (\<Union>s \<in> starts. set (cl s))" using threaded_covered [OF th] i by auto
  then obtain s where s: "s \<in> starts" "i \<in> set (cl s)" by blast
  have "s \<noteq> LFree" using contentD(1) [OF ct] s nb by (auto simp: blank_def)
  then obtain h where h: "s = LHead h" "h < NHASH_DEF" using s(1) by (auto simp: starts_def)
  then have "hashn (skey g i) = h" using contentD(2) [OF ct] s by blast
  then show ?thesis using s h by simp
qed

lemma distinct_nonblank:
  assumes "\<And>i j. i < length ks \<Longrightarrow> j < length ks \<Longrightarrow> \<not> blank (ks ! i) \<Longrightarrow> ks ! i = ks ! j \<Longrightarrow> i = j"
  shows "distinct (filter (\<lambda>k. \<not> blank k) ks)"
  using assms
proof (induction ks)
  case (Cons k ks)
  have "distinct (filter (\<lambda>k. \<not> blank k) ks)"
    by (rule Cons.IH) (use Cons.prems [of "Suc _" "Suc _"] in simp)
  moreover have "k \<notin> set (filter (\<lambda>k. \<not> blank k) ks)" if "\<not> blank k"
    using Cons.prems [of 0 "Suc _"] that by (force simp: in_set_conv_nth)
  ultimately show ?case by simp
qed simp

lemma live_map:
  assumes inv: "db_inv g cl"
  shows "set (live (st_slots g)) = {(k, v). db_map g cl k = Some v \<and> \<not> blank k}"
    "distinct (map fst (live (st_slots g)))"
proof -
  have th: "threaded g {} cl" and ct: "content g cl" using inv by (simp_all add: db_inv_def)
  have to: "db_map g cl (skey g i) = Some (sdata g i)" if "i < nslots g" "\<not> blank (skey g i)" for i
    using db_map_Some [OF ct slot_in_chain [OF inv that] refl] .
  have from_map: "\<exists>i < nslots g. skey g i = k \<and> sdata g i = v" if "db_map g cl k = Some v" for k v
  proof -
    have "(k, v) \<in> set (map (\<lambda>i. (skey g i, sdata g i)) (cl (hchain k)))"
      using that unfolding db_map_def by (rule map_of_SomeD)
    then show ?thesis using threadedD(4) [OF th hchain_start [of k]] by auto
  qed
  show "set (live (st_slots g)) = {(k, v). db_map g cl k = Some v \<and> \<not> blank k}"
  proof (intro equalityI subsetI)
    fix x assume "x \<in> set (live (st_slots g))"
    then obtain i where "i < nslots g" "\<not> blank (skey g i)" "x = (skey g i, sdata g i)"
      by (auto simp: live_def in_set_conv_nth)
    then show "x \<in> {(k, v). db_map g cl k = Some v \<and> \<not> blank k}" using to by simp
  next
    fix x assume "x \<in> {(k, v). db_map g cl k = Some v \<and> \<not> blank k}"
    then obtain i where "i < nslots g" "x = (skey g i, sdata g i)" "\<not> blank (skey g i)"
      using from_map by (cases x) auto
    then show "x \<in> set (live (st_slots g))" by (auto simp: live_def)
  qed
  have inj: "i = j" if "i < nslots g" "j < nslots g" "\<not> blank (skey g i)" "skey g i = skey g j" for i j
  proof -
    have "distinct (map (skey g) (cl (hchain (skey g i))))" by (rule contentD(3) [OF ct hashn_less])
    moreover have "i \<in> set (cl (hchain (skey g i)))" "j \<in> set (cl (hchain (skey g i)))"
      using slot_in_chain [OF inv] that by metis+
    ultimately show ?thesis using that(4) by (auto simp: distinct_map dest: inj_onD)
  qed
  have keys: "map fst (live ss) = filter (\<lambda>k. \<not> blank k) (map s_key ss)" for ss
    by (induction ss) (auto simp: live_def)
  show "distinct (map fst (live (st_slots g)))"
    unfolding keys by (rule distinct_nonblank) (use inj in auto)
qed

lemma nextrec_loop_ok:
  assumes wf: "wf_store g" and fs: "db_files M L (idx_image g) D db"
    and i: "i \<le> nslots g" "fpos (idxfd db) = ioff (st_slots g) i"
  shows "\<exists>db'. keeps db db' \<and> db_files M L (idx_image g) D db' \<and>
    (nextrec_loop db = Some (Inr (False, db')) \<and> live (drop i (st_slots g)) = [] \<and>
       fpos (idxfd db') = ioff (st_slots g) (nslots g) \<or>
     (\<exists>j < nslots g. nextrec_loop db = Some (Inr (True, db')) \<and> \<not> blank (skey g j) \<and>
       live (drop i (st_slots g)) = (skey g j, sdata g j) # live (drop (Suc j) (st_slots g)) \<and>
       loaded (ioff (st_slots g) j) (doff (st_slots g) j) (st_slots g ! j) db' \<and>
       fpos (idxfd db') = ioff (st_slots g) (Suc j)))"
  using fs i
proof (induction "nslots g - i" arbitrary: i db)
  case 0
  have hdr: "hdr_ok g" using wf by (simp add: wf_store_def)
  have n: "i = nslots g" using 0 by simp
  then have "fpos (idxfd db) = length (idx_image g)" using 0 by (simp add: length_idx_image [OF hdr])
  then obtain db' where "db_readidx db 0 = Inr (- 1, db')" "db_files M L (idx_image g) D db'" "keeps db db'"
    "fpos (idxfd db') = length (idx_image g)"
    using db_readidx_eof [OF 0(2)] by blast
  then show ?case using n
    by (intro exI [of _ db']) (subst nextrec_loop.simps, simp add: live_def length_idx_image [OF hdr])
next
  case (Suc n)
  let ?ss = "st_slots g"
  have i: "i < nslots g" using Suc.hyps(2) by simp
  obtain db1 where 1: "db_readidx db 0 = Inr (int (cell g (LSlot i)), db1)"
    "db_files M L (idx_image g) D db1" "keeps db db1"
    "loaded (ioff ?ss i) (doff ?ss i) (?ss ! i) db1" "fpos (idxfd db1) = ioff ?ss (Suc i)"
    using readidx_slot [OF Suc.prems(1) wf i, of 0] Suc.prems(3) by blast
  have key: "cstr (idxbuf db1) = skey g i" using 1(4) by (simp add: loaded_def)
  have d: "drop i ?ss = ?ss ! i # drop (Suc i) ?ss" using i by (simp add: Cons_nth_drop_Suc)
  show ?case
  proof (cases "blank (skey g i)")
    case True
    have step: "nextrec_loop db = nextrec_loop db1"
      using 1(1) True key by (subst nextrec_loop.simps) (simp add: blank_def)
    have li: "live (drop i ?ss) = live (drop (Suc i) ?ss)" using True unfolding d by (simp add: live_def)
    have "n = nslots g - Suc i" "Suc i \<le> nslots g" using Suc.hyps(2) i by simp_all
    from Suc.hyps(1) [OF this(1) 1(2) this(2) 1(5)] show ?thesis
      unfolding step li using 1(3) keeps_trans by blast
  next
    case False
    then have "nextrec_loop db = Some (Inr (True, db1))"
      using 1(1) key by (subst nextrec_loop.simps) (auto simp: blank_def)
    moreover have "live (drop i ?ss) = (skey g i, sdata g i) # live (drop (Suc i) ?ss)"
      using False unfolding d by (simp add: live_def)
    ultimately show ?thesis using 1 i False by blast
  qed
qed

lemma db_cursorI:
  assumes "db_files M no_locks (idx_image g) (dat_image (st_slots g)) db"
    and "length (idx_image g) \<le> M" "length (dat_image (st_slots g)) \<le> M" "db_inv g cl" "db_map g cl = m"
    and "i \<le> nslots g" "fpos (idxfd db) = ioff (st_slots g) i" "rest = live (drop i (st_slots g))"
  shows "db_cursor db m rest"
  unfolding db_cursor_def using db_holdsI [OF assms(1-3)] assms(4-) by blast

lemma db_cursor_repr: "db_cursor db m rest \<Longrightarrow> db_repr db m"
  by (auto simp: db_cursor_def db_repr_def)

lemma rewind_cursor:
  assumes "db_repr db m"
  obtains db' rest where "db_rewind db = Inr db'" "db_cursor db' m rest"
    "set rest = {(k, v). m k = Some v \<and> \<not> blank k}" "distinct (map fst rest)"
proof -
  obtain g cl where h: "db_holds no_locks g db" and inv: "db_inv g cl" and m: "db_map g cl = m"
    using assms by (auto simp: db_repr_def)
  obtain db' where d: "db_rewind db = Inr db'" "fpos (idxfd db') = hdr_len"
    "db_files (flimit (idxfd db)) no_locks (idx_image g) (dat_image (st_slots g)) db'"
    using rewind_ok [OF db_holds_files [OF h]] by metis
  have "db_cursor db' m (live (st_slots g))"
    using h d(2) by (intro db_cursorI [OF d(3) _ _ inv m, of 0]) (simp_all add: db_holds_def)
  then show ?thesis using that d(1) live_map [OF inv] m by metis
qed

lemma nextrec_ok:
  assumes "db_cursor db m rest"
  obtains db' where "db_nextrec db = Inr (case rest of [] \<Rightarrow> None | r # _ \<Rightarrow> Some r, db')"
    "db_cursor db' m (tl rest)"
    "cnt_nextrec db' = (if rest = [] then cnt_nextrec db else cnt_nextrec db + 1)"
proof -
  obtain g cl i where h: "db_holds no_locks g db" and inv: "db_inv g cl" and m: "db_map g cl = m"
    and i: "i \<le> nslots g" "fpos (idxfd db) = ioff (st_slots g) i" and rest: "rest = live (drop i (st_slots g))"
    using assms by (auto simp: db_cursor_def)
  let ?M = "flimit (idxfd db)" and ?ss = "st_slots g" and ?L = "lset no_locks (Some F_RDLCK) FREE_OFF 1"
  have wf: "wf_store g" using inv threadedD(1) [OF _ LFree_start] by (auto simp: db_inv_def)
  have M: "length (idx_image g) \<le> ?M" "length (dat_image ?ss) \<le> ?M" using h by (simp_all add: db_holds_def)
  obtain db1 where 1: "idx_lock ''db_nextrec: readw_lock error'' (Some F_RDLCK) (int FREE_OFF) 1 db = Inr db1"
    "db_files ?M ?L (idx_image g) (dat_image ?ss) db1" "keeps db db1" "fpos (idxfd db1) = ioff ?ss i"
    using idx_lock_ok [OF db_holds_files [OF h]] i(2) by metis
  obtain db2 where 2: "keeps db1 db2" "db_files ?M ?L (idx_image g) (dat_image ?ss) db2"
    and or: "nextrec_loop db1 = Some (Inr (False, db2)) \<and> live (drop i ?ss) = [] \<and>
       fpos (idxfd db2) = ioff ?ss (nslots g) \<or>
     (\<exists>j < nslots g. nextrec_loop db1 = Some (Inr (True, db2)) \<and> \<not> blank (skey g j) \<and>
       live (drop i ?ss) = (skey g j, sdata g j) # live (drop (Suc j) ?ss) \<and>
       loaded (ioff ?ss j) (doff ?ss j) (?ss ! j) db2 \<and> fpos (idxfd db2) = ioff ?ss (Suc j))"
    using nextrec_loop_ok [OF wf 1(2) i(1) 1(4)] by blast
  have unlock: "\<exists>db'. idx_lock ''db_nextrec: un_lock error'' None (int FREE_OFF) 1 db4 = Inr db' \<and>
      db_files ?M no_locks (idx_image g) (dat_image ?ss) db' \<and> keeps db4 db' \<and> fpos (idxfd db') = fpos (idxfd db4)"
    if "db_files ?M ?L (idx_image g) (dat_image ?ss) db4" for db4
    using idx_lock_ok [OF that, of "''db_nextrec: un_lock error''" None FREE_OFF 1]
      lset_undo [of no_locks FREE_OFF "Some F_RDLCK"] by (metis no_locks_def)
  from or show ?thesis
  proof (elim disjE conjE exE)
    assume e: "nextrec_loop db1 = Some (Inr (False, db2))" "live (drop i ?ss) = []"
      "fpos (idxfd db2) = ioff ?ss (nslots g)"
    obtain db3 where 3: "idx_lock ''db_nextrec: un_lock error'' None (int FREE_OFF) 1 db2 = Inr db3"
      "db_files ?M no_locks (idx_image g) (dat_image ?ss) db3" "keeps db2 db3" "fpos (idxfd db3) = fpos (idxfd db2)"
      using unlock [OF 2(2)] by blast
    have "db_nextrec db = Inr (None, db3)"
      unfolding db_nextrec_def using 1(1) e(1) 3(1) by (simp add: returns_def)
    moreover have "db_cursor db3 m (tl rest)"
      using 3(4) e(2,3) rest M by (intro db_cursorI [OF 3(2) _ _ inv m, of "nslots g"]) (simp_all add: live_def)
    ultimately show ?thesis using that [of db3] e(2) rest 1(3) 2(1) 3(3) by (simp add: keeps_def db_counts_def)
  next
    fix j
    assume j: "j < nslots g" and f: "nextrec_loop db1 = Some (Inr (True, db2))"
      and li: "live (drop i ?ss) = (skey g j, sdata g j) # live (drop (Suc j) ?ss)"
      and ld: "loaded (ioff ?ss j) (doff ?ss j) (?ss ! j) db2" and pos: "fpos (idxfd db2) = ioff ?ss (Suc j)"
    obtain db3 where 3: "db_readdat db2 = Inr (sdata g j, db3)"
      "db_files ?M ?L (idx_image g) (dat_image ?ss) db3" "keeps db2 db3" "idxfd db3 = idxfd db2"
      using readdat_slot [OF 2(2) wf j ld] by blast
    let ?db3 = "db3\<lparr>cnt_nextrec := cnt_nextrec db3 + 1\<rparr>"
    have fs3: "db_files ?M ?L (idx_image g) (dat_image ?ss) ?db3" using 3(2) by simp
    obtain db4 where 4: "idx_lock ''db_nextrec: un_lock error'' None (int FREE_OFF) 1 ?db3 = Inr db4"
      "db_files ?M no_locks (idx_image g) (dat_image ?ss) db4" "keeps ?db3 db4" "fpos (idxfd db4) = fpos (idxfd ?db3)"
      using unlock [OF fs3] by blast
    have key: "cstr (idxbuf db2) = skey g j" using ld by (simp add: loaded_def)
    have "db_nextrec db = Inr (Some (skey g j, sdata g j), db4)"
      unfolding db_nextrec_def using 1(1) f 3(1) 4(1) key by (simp add: returns_def)
    moreover have "db_cursor db4 m (tl rest)"
      using 4(4) 3(4) pos li rest M j by (intro db_cursorI [OF 4(2) _ _ inv m, of "Suc j"]) simp_all
    ultimately show ?thesis using that [of db4] li rest 1(3) 2(1) 3(3) 4(3) by (simp add: keeps_def db_counts_def)
  qed
qed

text \<open>At most \<open>n\<close> calls of \<^verbatim>\<open>db_nextrec\<close>, up to the one that returns NULL.\<close>

fun nextrecs :: "nat \<Rightarrow> DB \<Rightarrow> db_error + ((string \<times> string) list \<times> DB)" where
  "nextrecs 0 db = Inr ([], db)"
| "nextrecs (Suc n) db =
     andthen (db_nextrec db) (\<lambda>(r, db).
     case r of None \<Rightarrow> Inr ([], db)
     | Some kv \<Rightarrow> andthen (nextrecs n db) (\<lambda>(kvs, db). Inr (kv # kvs, db)))"

lemma nextrecs_ok:
  assumes "db_cursor db m rest" "length rest \<le> n"
  shows "\<exists>db'. nextrecs n db = Inr (rest, db') \<and> db_cursor db' m []"
  using assms
proof (induction n arbitrary: db rest)
  case 0
  then show ?case by simp
next
  case (Suc n)
  obtain db1 where 1: "db_nextrec db = Inr (case rest of [] \<Rightarrow> None | r # _ \<Rightarrow> Some r, db1)"
    "db_cursor db1 m (tl rest)"
    using nextrec_ok [OF Suc.prems(1)] by blast
  show ?case
  proof (cases rest)
    case Nil
    with 1 show ?thesis by simp
  next
    case (Cons r rs)
    with 1 Suc obtain db2 where "nextrecs n db1 = Inr (rs, db2)" "db_cursor db2 m []"
      by (metis Suc_le_mono length_Cons list.sel(3))
    with 1 Cons show ?thesis by simp
  qed
qed

end
