(* ===== verification/Db_Client.thy ===== *)
theory Db_Client
  imports Db_Scan
begin

text \<open>
  The database as a provider of the key-value interface, and its correctness:
  every sequence of calls behaves as on a map, what is stored survives closing
  and reopening, and a scan lists the map.  The program \<^verbatim>\<open>t4.c\<close> is a client.
\<close>

section \<open>Room for several records\<close>

definition db_space :: "nat \<Rightarrow> DB \<Rightarrow> bool" where
  "db_space n db \<longleftrightarrow> int (length (fbytes (idxfd db)) + 1035 * n) \<le> PTR_MAX \<and>
     length (fbytes (idxfd db)) + 1035 * n \<le> flimit (idxfd db) \<and>
     length (fbytes (datfd db)) + 1024 * n \<le> flimit (idxfd db)"

definition storable :: "string \<Rightarrow> string \<Rightarrow> bool" where
  "storable key data \<longleftrightarrow> valid_key key \<and> valid_data data"

lemma db_space_Suc: "db_space (Suc n) db \<Longrightarrow> db_room db \<and> db_space n db"
  by (simp add: db_space_def db_room_def)

lemma db_space_grows:
  "db_space (Suc n) db \<Longrightarrow> grows d (length (fbytes (idxfd db))) (length (fbytes (datfd db))) db' \<Longrightarrow>
   flimit (idxfd db') = flimit (idxfd db) \<Longrightarrow> db_space n db'"
  by (simp add: db_space_def grows_def)

lemma db_space_sizes: "db_sizes db' = db_sizes db \<Longrightarrow> db_space n db' = db_space n db"
  by (simp add: db_space_def db_sizes_def)

lemma store_bad_flag:
  "flag \<notin> {DB_INSERT, DB_REPLACE, DB_STORE} \<Longrightarrow>
   db_store db key data flag = Inr (- 1, db\<lparr>db_errno := EINVAL\<rparr>)"
  by (simp add: db_store_def)

lemma db_repr_errno [simp]: "db_repr (db\<lparr>db_errno := e\<rparr>) m = db_repr db m"
  by (simp add: db_repr_def db_holds_def)

section \<open>The provider\<close>

interpretation kv: kv_provider db_fetch db_delete db_store db_repr db_space storable
proof (unfold_locales, goal_cases)
  case (1 d m key)
  then show ?case using fetch_ok [OF 1, of key] db_space_sizes by metis
next
  case (2 d m key)
  then show ?case using delete_ok [OF 2, of key] db_space_sizes unfolding kv_delete_def
    by (metis fst_conv snd_conv)
next
  case (3 d m key data n flag)
  show ?case
  proof (cases "flag \<in> {DB_INSERT, DB_REPLACE, DB_STORE}")
    case True
    obtain k d' where "db_store d key data flag = Inr (fst (kv_store m key data flag), d')"
      "db_repr d' (snd (kv_store m key data flag))" "flimit (idxfd d') = flimit (idxfd d)"
      "grows (added k data) (length (fbytes (idxfd d))) (length (fbytes (datfd d))) d'"
      using store_ok [OF 3(1) _ _ _ True] db_space_Suc [OF 3(3)] 3(2) unfolding storable_def by metis
    then show ?thesis using db_space_grows [OF 3(3)] by blast
  next
    case False
    then show ?thesis using 3 store_bad_flag [OF False] db_space_Suc [OF 3(3)]
      by (simp add: kv_store_def) (simp add: db_space_def)
  qed
next
  case (4 n d)
  then show ?case using db_space_Suc by blast
qed

section \<open>Correctness of the database\<close>

text \<open>C1: Every sequence of fetches, deletes and stores on an open database gives the
  results of the same sequence on a map, provided the records stored are valid
  and there is room for them; afterwards the files hold the final map and no
  lock is held.\<close>

theorem db_run_refines:
  assumes "db_repr db m" "list_all (op_ok storable) ops" "db_space (length ops) db"
  shows "\<exists>db'. run_ops db_fetch db_delete db_store db ops = Inr (fst (kv_run m ops), db') \<and>
    db_repr db' (snd (kv_run m ops))"
  using assms by (rule kv.run_refines)

lemma open_space:
  assumes "opens lim refuse" "967 + 1035 * n \<le> lim" "n \<le> 1000"
  obtains db fs' where "db_open fs lim refuse path [O_RDWR, O_CREAT, O_TRUNC] = Inr (Some db, fs')"
    "db_repr db Map.empty" "db_space n db" "length (fbytes (idxfd db)) = hdr_len" "fbytes (datfd db) = []"
    "flimit (idxfd db) = lim"
proof -
  obtain db fs' where o: "db_open fs lim refuse path [O_RDWR, O_CREAT, O_TRUNC] = Inr (Some db, fs')"
    "db_repr db Map.empty" "fpos (idxfd db) = hdr_len" "flimit (idxfd db) = lim"
    "length (fbytes (idxfd db)) = hdr_len" "fbytes (datfd db) = []"
    using open_new [OF assms(1), of "[O_RDWR, O_CREAT, O_TRUNC]" fs path] by auto
  then have "db_space n db" using assms(2,3) by (simp add: db_space_def)
  with o that show ?thesis by blast
qed

lemma example_db:
  "\<exists>db fs'. db_open Map.empty 9000 (\<lambda>_ _. False) ''t'' [O_RDWR, O_CREAT, O_TRUNC] = Inr (Some db, fs') \<and>
     db_repr db Map.empty \<and> db_space 6 db \<and> db_space (Suc 0) db \<and>
     length (fbytes (idxfd db)) = hdr_len \<and> fbytes (datfd db) = []"
proof -
  have "opens 9000 (\<lambda>_ _. False)" "967 + 1035 * 6 \<le> (9000 :: nat)" "6 \<le> (1000 :: nat)" by (simp_all add: opens_def)
  from open_space [OF this, of Map.empty "''t''"] obtain db fs' where
    o: "db_open Map.empty 9000 (\<lambda>_ _. False) ''t'' [O_RDWR, O_CREAT, O_TRUNC] = Inr (Some db, fs')"
      "db_repr db Map.empty" "db_space 6 db" "length (fbytes (idxfd db)) = hdr_len" "fbytes (datfd db) = []" by metis
  moreover have "db_space (Suc 0) db" using o(3) by (simp add: db_space_def)
  ultimately show ?thesis by blast
qed

theorem db_run_refines_witness:
  "\<exists>db fs' db'. db_open Map.empty 9000 (\<lambda>_ _. False) ''t'' [O_RDWR, O_CREAT, O_TRUNC] = Inr (Some db, fs') \<and>
     run_ops db_fetch db_delete db_store db
       [Store ''k'' ''v1'' 1, Store ''k'' ''v2'' 1, Store ''k'' ''longer'' 2, Fetch ''k'', Delete ''k'', Fetch ''k''] =
     Inr ([Status 0, Status 1, Status 0, Data (Some ''longer''), Status 0, Data None], db')"
proof -
  let ?ops = "[Store ''k'' ''v1'' 1, Store ''k'' ''v2'' 1, Store ''k'' ''longer'' 2, Fetch ''k'', Delete ''k'', Fetch ''k'']"
  obtain db fs' where o: "db_open Map.empty 9000 (\<lambda>_ _. False) ''t'' [O_RDWR, O_CREAT, O_TRUNC] = Inr (Some db, fs')"
    "db_repr db Map.empty" "db_space 6 db"
    using example_db by blast
  have ok: "list_all (op_ok storable) ?ops" and len: "length ?ops = 6"
    by (simp_all add: op_ok_def storable_def valid_key_def valid_data_def c_string_def)
  have res: "fst (kv_run Map.empty ?ops) =
      [Status 0, Status 1, Status 0, Data (Some ''longer''), Status 0, Data None]"
    by (simp add: kv_store_def kv_delete_def)
  show ?thesis
    using db_run_refines [OF o(2) ok, unfolded res len, OF o(3)] o(1) by blast
qed

text \<open>C2: A store of a valid record is the store of the map: the return value (0, 1 for an
  insert of a present key, -1 for a replace of an absent one), the new contents and
  the error number.  Exactly one counter goes up: \<^verbatim>\<open>cnt_stor1\<close> and \<^verbatim>\<open>cnt_stor3\<close> (5 and 7 in \<open>db_counts\<close>) exactly when the record was
  appended, so that the data file has grown by the data and the index file by a record; \<^verbatim>\<open>cnt_stor2\<close> and \<^verbatim>\<open>cnt_stor4\<close> (6 and 8) when it was
  written over a free record or over the old data, and \<^verbatim>\<open>cnt_storerr\<close> (9) when nothing was stored, with files of the same size.\<close>

theorem db_store_refines:
  assumes "db_repr db m" "valid_key key" "valid_data data" "db_room db"
    and "flag \<in> {DB_INSERT, DB_REPLACE, DB_STORE}"
  shows "\<exists>k db'. db_store db key data flag = Inr (fst (kv_store m key data flag), db') \<and>
    db_repr db' (snd (kv_store m key data flag)) \<and>
    k \<in> store_counter m key data flag \<and> db_counts db' = (db_counts db)[k := db_counts db ! k + 1] \<and>
    length (fbytes (datfd db')) = length (fbytes (datfd db)) + (if k = 5 \<or> k = 7 then length data + 1 else 0) \<and>
    (if k = 5 \<or> k = 7 then length (fbytes (idxfd db')) > length (fbytes (idxfd db)) else length (fbytes (idxfd db')) = length (fbytes (idxfd db))) \<and>
    db_errno db' = kv_errno m key flag (db_errno db)"
proof -
  obtain k db' where s: "db_store db key data flag = Inr (fst (kv_store m key data flag), db')" "db_repr db' (snd (kv_store m key data flag))"
    "k \<in> store_counter m key data flag" "db_counts db' = (db_counts db)[k := db_counts db ! k + 1]"
    "db_errno db' = kv_errno m key flag (db_errno db)"
    and g: "grows (added k data) (length (fbytes (idxfd db))) (length (fbytes (datfd db))) db'"
    using store_ok [OF assms] by metis
  then show ?thesis using g by (intro exI [of _ k] exI [of _ db']) (auto simp: grows_def added_def)
qed

theorem db_store_refines_witness:
  "\<exists>db fs' db'. db_open Map.empty 9000 (\<lambda>_ _. False) ''t'' [O_RDWR, O_CREAT, O_TRUNC] = Inr (Some db, fs') \<and>
     db_store db ''k'' ''v'' DB_STORE = Inr (0, db') \<and> db_repr db' [''k'' \<mapsto> ''v'']"
proof -
  obtain db fs' where o: "db_open Map.empty 9000 (\<lambda>_ _. False) ''t'' [O_RDWR, O_CREAT, O_TRUNC] = Inr (Some db, fs')"
    "db_repr db Map.empty" "db_space (Suc 0) db"
    using example_db by blast
  have "valid_key ''k''" "valid_data ''v''" by (simp_all add: valid_key_def valid_data_def c_string_def)
  then show ?thesis
    using db_store_refines [OF o(2), of "''k''" "''v''" DB_STORE] db_space_Suc [OF o(3)] o(1)
    by (auto simp: kv_store_def kv_errno_def)
qed

text \<open>A fetch returns exactly what the map holds for the key (NULL when it is absent),
  changes nothing but the counters, and never aborts or loops.\<close>

theorem db_fetch_correct:
  assumes "db_repr db m"
  shows "\<exists>db'. db_fetch db key = Inr (m key, db') \<and> db_repr db' m \<and> db_sizes db' = db_sizes db \<and>
    db_counts db' = (db_counts db)
      [(if m key = None then 3 else 2) := (if m key = None then cnt_fetcherr db else cnt_fetchok db) + 1]"
  using fetch_ok [OF assms, of key] by metis

theorem db_fetch_correct_witness:
  "\<exists>db fs' db'. db_open Map.empty 9000 (\<lambda>_ _. False) ''t'' [O_RDWR, O_CREAT, O_TRUNC] = Inr (Some db, fs') \<and>
     db_fetch db ''k'' = Inr (None, db')"
proof -
  obtain db fs' where o: "db_open Map.empty 9000 (\<lambda>_ _. False) ''t'' [O_RDWR, O_CREAT, O_TRUNC] = Inr (Some db, fs')"
    "db_repr db Map.empty"
    using example_db by blast
  then show ?thesis using db_fetch_correct [OF o(2), of "''k''"] by auto
qed

text \<open>A delete removes the key from the map and returns 0, or returns -1 and leaves the
  map alone when the key is absent; the files keep their sizes, since the record
  is blanked and put on the free list.\<close>

theorem db_delete_refines:
  assumes "db_repr db m"
  shows "\<exists>db'. db_delete db key = Inr (fst (kv_delete m key), db') \<and> db_repr db' (snd (kv_delete m key)) \<and>
    db_sizes db' = db_sizes db"
  using delete_ok [OF assms, of key] unfolding kv_delete_def by (metis fst_conv snd_conv)

theorem db_delete_refines_witness:
  "\<exists>db fs' db1 db2. db_open Map.empty 9000 (\<lambda>_ _. False) ''t'' [O_RDWR, O_CREAT, O_TRUNC] = Inr (Some db, fs') \<and>
     db_store db ''k'' ''v'' DB_STORE = Inr (0, db1) \<and> db_delete db1 ''k'' = Inr (0, db2) \<and>
     db_repr db2 Map.empty"
proof -
  obtain db fs' where o: "db_open Map.empty 9000 (\<lambda>_ _. False) ''t'' [O_RDWR, O_CREAT, O_TRUNC] = Inr (Some db, fs')"
    "db_repr db Map.empty" "db_space (Suc 0) db"
    using example_db by blast
  have "storable ''k'' ''v''" by (simp add: storable_def valid_key_def valid_data_def c_string_def)
  from kv.store_law [OF o(2) this o(3), of DB_STORE] obtain db1 where
    1: "db_store db ''k'' ''v'' DB_STORE = Inr (0, db1)" "db_repr db1 [''k'' \<mapsto> ''v'']"
    by (auto simp: kv_store_def)
  then show ?thesis using db_delete_refines [OF 1(2), of "''k''"] o(1) by (auto simp: kv_delete_def)
qed

section \<open>Opening, closing and scanning\<close>

text \<open>Opening with \<^verbatim>\<open>O_CREAT | O_TRUNC\<close> gives an empty database, whatever the two
  files held before, with the cursor before the first record.\<close>

theorem db_open_creates_empty:
  assumes "opens lim refuse" "O_CREAT \<in> set oflag" "O_TRUNC \<in> set oflag" "O_EXCL \<notin> set oflag"
  shows "\<exists>db fs'. db_open fs lim refuse path oflag = Inr (Some db, fs') \<and> db_repr db Map.empty \<and>
    db_cursor db Map.empty []"
proof -
  obtain db fs' where o: "db_open fs lim refuse path oflag = Inr (Some db, fs')" "db_repr db Map.empty"
    "fpos (idxfd db) = hdr_len" "length (fbytes (idxfd db)) = hdr_len"
    using open_new [OF assms, of fs path] by metis
  obtain g cl where h: "db_holds no_locks g db" and inv: "db_inv g cl" and m: "db_map g cl = Map.empty"
    using o(2) by (auto simp: db_repr_def)
  have "hdr_ok g" "slots_ok (st_slots g)"
    using inv threadedD(1) [OF _ LFree_start] by (auto simp: db_inv_def wf_store_def)
  then have "ioff (st_slots g) (nslots g) = hdr_len"
    using h o(4) length_idx_image [of g] by (simp add: db_holds_def db_files_def)
  then have "nslots g = 0"
    using ioff_less [OF \<open>slots_ok (st_slots g)\<close>, of 0 "nslots g"] by (cases "nslots g") auto
  then have "db_cursor db Map.empty []"
    unfolding db_cursor_def using h inv m o(3) by (intro exI [of _ g] exI [of _ cl] exI [of _ 0]) (simp add: live_def)
  with o(1,2) show ?thesis by blast
qed

theorem db_open_creates_empty_witness:
  "\<exists>db fs'. db_open [''x.idx'' \<mapsto> ''junk''] 2000 (\<lambda>_ _. False) ''x'' [O_RDWR, O_CREAT, O_TRUNC] = Inr (Some db, fs') \<and>
     db_repr db Map.empty"
  using db_open_creates_empty [of 2000 "\<lambda>_ _. False" "[O_RDWR, O_CREAT, O_TRUNC]" "[''x.idx'' \<mapsto> ''junk'']" "''x''"]
  by (auto simp: opens_def)

text \<open>C3: What the database holds when it is closed is what it holds when it is opened
  again.\<close>

theorem db_close_open_roundtrip:
  assumes "db_repr db m" "length (fbytes (idxfd db)) \<le> lim" "length (fbytes (datfd db)) \<le> lim"
    and "O_TRUNC \<notin> set oflag" "O_CREAT \<notin> set oflag"
  shows "\<exists>db'. db_open (db_close db fs path) lim (\<lambda>_ _. False) path oflag = Inr (Some db', db_close db fs path) \<and>
    db_repr db' m"
  using reopen_ok [OF assms(1) refl assms(2-5)] by metis

theorem db_close_open_roundtrip_witness:
  "\<exists>db fs' db'. db_open Map.empty 9000 (\<lambda>_ _. False) ''t'' [O_RDWR, O_CREAT, O_TRUNC] = Inr (Some db, fs') \<and>
     db_open (db_close db fs' ''t'') 9000 (\<lambda>_ _. False) ''t'' [O_RDWR] = Inr (Some db', db_close db fs' ''t'') \<and>
     db_repr db' Map.empty"
proof -
  obtain db fs' where o: "db_open Map.empty 9000 (\<lambda>_ _. False) ''t'' [O_RDWR, O_CREAT, O_TRUNC] = Inr (Some db, fs')"
    "db_repr db Map.empty" "length (fbytes (idxfd db)) = hdr_len" "fbytes (datfd db) = []"
    using example_db by blast
  then show ?thesis using db_close_open_roundtrip [OF o(2), of 9000 "[O_RDWR]" fs' "''t''"] by auto
qed

lemma distinct_singleton:
  assumes "distinct (map fst xs)" "set xs = {x}" shows "xs = [x]"
proof (cases xs)
  case (Cons y ys)
  with assms have "y = x" "set ys \<subseteq> {x}" "fst x \<notin> fst ` set ys" by auto
  with Cons show ?thesis by (cases ys) auto
qed (use assms in simp)

text \<open>C4: After a rewind the calls of \<^verbatim>\<open>db_nextrec\<close> return the records of the map with
  non-blank keys, each exactly once, and then NULL.\<close>

theorem db_scan_lists_map:
  assumes "db_repr db m"
  shows "\<exists>db1 rest. db_rewind db = Inr db1 \<and> set rest = {(k, v). m k = Some v \<and> \<not> blank k} \<and>
    distinct (map fst rest) \<and>
    (\<forall>n > length rest. \<exists>db2. nextrecs n db1 = Inr (rest, db2) \<and> db_repr db2 m)"
proof -
  obtain db1 rest where r: "db_rewind db = Inr db1" "db_cursor db1 m rest"
    "set rest = {(k, v). m k = Some v \<and> \<not> blank k}" "distinct (map fst rest)"
    using rewind_cursor [OF assms] by blast
  have "\<exists>db2. nextrecs n db1 = Inr (rest, db2) \<and> db_repr db2 m" if "length rest < n" for n
    using nextrecs_ok [OF r(2)] that db_cursor_repr by (meson less_imp_le)
  with r show ?thesis by blast
qed

theorem db_scan_lists_map_witness:
  "\<exists>db fs' db1 db2 db3. db_open Map.empty 9000 (\<lambda>_ _. False) ''t'' [O_RDWR, O_CREAT, O_TRUNC] = Inr (Some db, fs') \<and>
     db_store db ''k'' ''v'' DB_STORE = Inr (0, db1) \<and> db_rewind db1 = Inr db2 \<and>
     nextrecs 2 db2 = Inr ([(''k'', ''v'')], db3)"
proof -
  obtain db fs' where o: "db_open Map.empty 9000 (\<lambda>_ _. False) ''t'' [O_RDWR, O_CREAT, O_TRUNC] = Inr (Some db, fs')"
    "db_repr db Map.empty" "db_space (Suc 0) db"
    using example_db by blast
  have "storable ''k'' ''v''" by (simp add: storable_def valid_key_def valid_data_def c_string_def)
  from kv.store_law [OF o(2) this o(3), of DB_STORE] obtain db1 where
    1: "db_store db ''k'' ''v'' DB_STORE = Inr (0, db1)" "db_repr db1 [''k'' \<mapsto> ''v'']"
    by (auto simp: kv_store_def)
  obtain db2 rest where 2: "db_rewind db1 = Inr db2" "set rest = {(k, v). [''k'' \<mapsto> ''v''] k = Some v \<and> \<not> blank k}"
    "distinct (map fst rest)" "\<forall>n > length rest. \<exists>db3. nextrecs n db2 = Inr (rest, db3) \<and> db_repr db3 [''k'' \<mapsto> ''v'']"
    using db_scan_lists_map [OF 1(2)] by blast
  have "\<not> blank ''k''" by (simp add: blank_def)
  then have "{(k, v). [''k'' \<mapsto> ''v''] k = Some v \<and> \<not> blank k} = {(''k'', ''v'')}"
    by (auto split: if_splits)
  with 2(2) have "set rest = {(''k'', ''v'')}" by (rule trans)
  then have "rest = [(''k'', ''v'')]" by (rule distinct_singleton [OF 2(3)])
  then have "\<exists>db3. nextrecs 2 db2 = Inr ([(''k'', ''v'')], db3)" using 2(4) [rule_format, of 2] by auto
  then show ?thesis using o(1) 1(1) 2(1) by blast
qed

section \<open>The client t4.c\<close>

definition t4_store :: "DB \<Rightarrow> string \<Rightarrow> string \<Rightarrow> string \<Rightarrow> db_error + DB" where
  "t4_store db key data msg =
     andthen (db_store db key data DB_INSERT) (\<lambda>(r, db). if r \<noteq> 0 then Inl (Err_quit msg) else Inr db)"

definition t4_main :: "filesystem \<Rightarrow> nat \<Rightarrow> (nat \<Rightarrow> nat \<Rightarrow> bool) \<Rightarrow> db_error + filesystem" where
  "t4_main fs lim refuse =
     andthen (db_open fs lim refuse ''db4'' [O_RDWR, O_CREAT, O_TRUNC]) (\<lambda>(h, fs).
     case h of
       None \<Rightarrow> Inl (Err_sys ''db_open error'')
     | Some db \<Rightarrow>
         andthen (t4_store db ''Alpha'' ''data1'' ''db_store error for alpha'') (\<lambda>db.
         andthen (t4_store db ''beta'' ''Data for beta'' ''db_store error for beta'') (\<lambda>db.
         andthen (t4_store db ''gamma'' ''record3'' ''db_store error for gamma'') (\<lambda>db.
         Inr (db_close db fs ''db4'')))))"

lemma t4_store_ok:
  assumes "db_repr db m" "storable key data" "db_space (Suc n) db" "m key = None"
  obtains db' where "t4_store db key data msg = Inr db'" "db_repr db' (m(key \<mapsto> data))" "db_space n db'"
    "flimit (idxfd db') = flimit (idxfd db)"
proof -
  have kv: "kv_store m key data DB_INSERT = (0, m(key \<mapsto> data))" using assms(4) by (simp add: kv_store_def)
  have v: "valid_key key" "valid_data data" "db_room db" "DB_INSERT \<in> {DB_INSERT, DB_REPLACE, DB_STORE}"
    using assms(2) db_space_Suc [OF assms(3)] by (simp_all add: storable_def)
  obtain k db' where "db_store db key data DB_INSERT = Inr (0, db')" "db_repr db' (m(key \<mapsto> data))"
    "flimit (idxfd db') = flimit (idxfd db)"
    "grows (added k data) (length (fbytes (idxfd db))) (length (fbytes (datfd db))) db'"
    using store_ok [OF assms(1) v] unfolding kv by (metis fst_conv snd_conv)
  then show ?thesis using that db_space_grows [OF assms(3)] by (simp add: t4_store_def)
qed

lemma t4_data:
  "storable ''Alpha'' ''data1''" "storable ''beta'' ''Data for beta''" "storable ''gamma'' ''record3''"
  by (simp_all add: storable_def valid_key_def valid_data_def c_string_def)

text \<open>The program \<^verbatim>\<open>t4\<close>, given the space, ends without error, and the files it leaves
  behind open as a database that holds exactly its three records.\<close>

theorem t4_leaves_three_records:
  assumes "opens lim (\<lambda>_ _. False)" "967 + 1035 * 3 \<le> lim"
  shows "\<exists>fs' db. t4_main fs lim (\<lambda>_ _. False) = Inr fs' \<and>
    db_open fs' lim (\<lambda>_ _. False) ''db4'' [O_RDWR] = Inr (Some db, fs') \<and>
    db_repr db [''Alpha'' \<mapsto> ''data1'', ''beta'' \<mapsto> ''Data for beta'', ''gamma'' \<mapsto> ''record3'']"
proof -
  obtain db0 fs0 where 0: "db_open fs lim (\<lambda>_ _. False) ''db4'' [O_RDWR, O_CREAT, O_TRUNC] = Inr (Some db0, fs0)"
    "db_repr db0 Map.empty" "db_space (Suc (Suc (Suc 0))) db0"
    "flimit (idxfd db0) = lim"
    using open_space [OF assms(1), of "Suc (Suc (Suc 0))" fs "''db4''"] assms(2) by (simp, metis)
  let ?m1 = "[''Alpha'' \<mapsto> ''data1'']"
  let ?m2 = "?m1(''beta'' \<mapsto> ''Data for beta'')" and ?m3 = "?m1(''beta'' \<mapsto> ''Data for beta'', ''gamma'' \<mapsto> ''record3'')"
  obtain db1 where 1: "t4_store db0 ''Alpha'' ''data1'' ''db_store error for alpha'' = Inr db1"
    "db_repr db1 ?m1" "db_space (Suc (Suc 0)) db1" "flimit (idxfd db1) = flimit (idxfd db0)"
    using t4_store_ok [OF 0(2) t4_data(1) 0(3) refl] by blast
  have "?m1 ''beta'' = None" by simp
  then obtain db2 where 2: "t4_store db1 ''beta'' ''Data for beta'' ''db_store error for beta'' = Inr db2"
    "db_repr db2 ?m2" "db_space (Suc 0) db2" "flimit (idxfd db2) = flimit (idxfd db1)"
    using t4_store_ok [OF 1(2) t4_data(2) 1(3)] by blast
  have "?m2 ''gamma'' = None" by simp
  then obtain db3 where 3: "t4_store db2 ''gamma'' ''record3'' ''db_store error for gamma'' = Inr db3"
    "db_repr db3 ?m3" "db_space 0 db3" "flimit (idxfd db3) = flimit (idxfd db2)"
    using t4_store_ok [OF 2(2) t4_data(3) 2(3)] by blast
  have lim: "length (fbytes (idxfd db3)) \<le> lim" "length (fbytes (datfd db3)) \<le> lim"
    using 3(3,4) 2(4) 1(4) 0(4) by (simp_all add: db_space_def)
  have "t4_main fs lim (\<lambda>_ _. False) = Inr (db_close db3 fs0 ''db4'')"
    unfolding t4_main_def by (simp only: 0(1) 1(1) 2(1) 3(1) andthen_simps prod.case option.case)
  moreover obtain db where "db_open (db_close db3 fs0 ''db4'') lim (\<lambda>_ _. False) ''db4'' [O_RDWR] =
      Inr (Some db, db_close db3 fs0 ''db4'')" "db_repr db ?m3"
    using reopen_ok [OF 3(2) refl lim, of "[O_RDWR]" fs0 "''db4''"] by (simp, metis)
  ultimately show ?thesis by blast
qed

theorem t4_leaves_three_records_witness:
  "\<exists>fs' db. t4_main Map.empty 5000 (\<lambda>_ _. False) = Inr fs' \<and>
    db_open fs' 5000 (\<lambda>_ _. False) ''db4'' [O_RDWR] = Inr (Some db, fs') \<and>
    db_repr db [''Alpha'' \<mapsto> ''data1'', ''beta'' \<mapsto> ''Data for beta'', ''gamma'' \<mapsto> ''record3'']"
proof -
  have "opens 5000 (\<lambda>_ _. False)" "967 + 1035 * 3 \<le> (5000 :: nat)" by (simp_all add: opens_def)
  then show ?thesis by (rule t4_leaves_three_records)
qed

end
