(* ===== verification/Db_Errors.thy ===== *)
theory Db_Errors
  imports Db_Client
begin

text \<open>
  The database on arbitrary or unusual files: what is read into the buffers
  stays within them whatever the files contain, and a key with a separator,
  which \<^verbatim>\<open>db_store\<close> accepts, makes its record unreadable.
\<close>

section \<open>Bounds of the buffers\<close>

lemma parseidx_bounds:
  assumes "db_parseidx db buf = Inr (r, db')"
  shows "length (idxbuf db') = length buf \<and> 0 \<le> datoff db' \<and> 0 < datlen db' \<and> datlen db' \<le> DATLEN_MAX \<and>
    r = ptrval db' \<and> idxlen db' = idxlen db"
  using assms unfolding db_parseidx_def Let_def
  by (auto split: if_splits option.splits)

text \<open>C5: Whatever the index file contains, \<^verbatim>\<open>_db_readidx\<close> either aborts, reports the end
  of the file, or leaves a record whose index part fits the index buffer and
  whose data offset and length are within the limits; so the read of the data
  record that follows fits the data buffer.\<close>

theorem db_readidx_bounded:
  assumes "db_readidx db offset = Inr (r, db')"
  shows "(r = - 1 \<and> offset = 0) \<or>
    (IDXLEN_MIN \<le> idxlen db' \<and> idxlen db' \<le> IDXLEN_MAX \<and> length (idxbuf db') = idxlen db' \<and>
     0 \<le> datoff db' \<and> 0 < datlen db' \<and> datlen db' \<le> DATLEN_MAX \<and> r = ptrval db')"
  using assms unfolding db_readidx_def Let_def
  by (auto split: if_splits prod.splits dest: parseidx_bounds)

lemma readidx_example:
  "case db_readidx (db_alloc (fopened (''      0   6a:0:2'' @ [NEWLINE]) 100 (\<lambda>_ _. False)) (fopened [] 100 (\<lambda>_ _. False))) 0 of
     Inr (r, db') \<Rightarrow> r = 0 | Inl e \<Rightarrow> False"
  by code_simp

theorem db_readidx_bounded_witness:
  "\<exists>db'. db_readidx (db_alloc (fopened (''      0   6a:0:2'' @ [NEWLINE]) 100 (\<lambda>_ _. False)) (fopened [] 100 (\<lambda>_ _. False))) 0
       = Inr (0, db') \<and> length (idxbuf db') = idxlen db' \<and> datlen db' \<le> DATLEN_MAX"
  using readidx_example db_readidx_bounded [of _ 0 0] by (fastforce split: sum.splits prod.splits)

section \<open>Keys with a separator\<close>

lemma parseidx_separator:
  assumes k: "c_string k1" "SEP \<notin> set k1" "c_string k2" "SEP \<notin> set k2"
    and len: "idxlen db = length (k1 @ SEP # k2 @ SEP # dec d @ SEP # dec n @ [NEWLINE])"
  shows "db_parseidx db (k1 @ SEP # k2 @ SEP # dec d @ SEP # dec n @ [NEWLINE]) =
    Inl (Err_dump ''_db_readidx: too many separators'')"
proof -
  let ?b0 = "k1 @ SEP # k2 @ SEP # dec d @ SEP # dec n @ [NUL]"
  let ?b1 = "k1 @ NUL # k2 @ SEP # dec d @ SEP # dec n @ [NUL]"
  let ?b2 = "k1 @ NUL # k2 @ NUL # dec d @ SEP # dec n @ [NUL]"
  have nth: "(k1 @ SEP # k2 @ SEP # dec d @ SEP # dec n @ [NEWLINE]) ! (idxlen db - 1) = NEWLINE"
    "(k1 @ SEP # k2 @ SEP # dec d @ SEP # dec n @ [NEWLINE])[idxlen db - 1 := NUL] = ?b0"
    using len by (simp_all add: nth_append list_update_append)
  have s1: "strchr ?b0 SEP = Some (length k1)" using k by (simp add: strchr_found)
  have u1: "?b0[length k1 := NUL] = ?b1" by simp
  have s2: "strchr (drop (Suc (length k1)) ?b1) SEP = Some (length k2)" using k by (simp add: strchr_found)
  have u2: "?b1[Suc (length k1) + length k2 := NUL] = ?b2" by (simp add: list_update_append)
  have s3: "strchr (drop (Suc (Suc (length k1) + length k2)) ?b2) SEP \<noteq> None"
    using strchr_found [of "dec d" SEP] by (simp add: dec_not_special isdigit_not)
  show ?thesis
    unfolding db_parseidx_def Let_def nth s1 option.case u1 s2 u2 using s3 by simp
qed

text \<open>A key that contains the separator is written without an error, but the record can
  never be read again: reading it aborts the process with "too many separators",
  and so does every later search that meets it on its hash chain.\<close>

theorem separator_key_unreadable:
  assumes fs: "db_files M no_locks I D db" and I: "I \<noteq> []"
    and k: "c_string k1" "SEP \<notin> set k1" "c_string k2" "SEP \<notin> set k2"
    and dat: "datoff db = int d" "datlen db = length data + 1"
    and fits: "slot_fits d \<lparr>s_next = p, s_key = k1 @ SEP # k2, s_data = data\<rparr>"
    and M: "length I + 1035 \<le> M"
  shows "\<exists>db'. db_writeidx db (k1 @ SEP # k2) 0 SEEK_END (int p) = Inr db' \<and>
    db_readidx db' (idxoff db') = Inl (Err_dump ''_db_readidx: too many separators'')"
proof -
  let ?s = "\<lparr>s_next = p, s_key = k1 @ SEP # k2, s_data = data\<rparr>"
  have len: "length (rec_bytes d ?s) \<le> 1035"
    using length_rec_bytes_fits [OF fits] fits by (simp add: slot_fits_def)
  have L: "no_locks i = None" for i by (simp add: no_locks_def)
  obtain db' where w: "db_writeidx db (k1 @ SEP # k2) 0 SEEK_END (int p) = Inr db'"
    "db_files M no_locks (I @ rec_bytes d ?s) D db'" "idxoff db' = int (length I)"
    using db_writeidx_end [OF fs fits dat(1) _ _ L] dat(2) len M by auto
  have b: "fbytes (idxfd db') = I @ rec_bytes d ?s @ []" using w(2) by (simp add: db_files_def)
  have body: "rec_body d ?s = k1 @ SEP # k2 @ SEP # dec d @ SEP # dec (length data + 1) @ [NEWLINE]"
    by (simp add: rec_body_def)
  have "db_readidx db' (int (length I)) = Inl (Err_dump ''_db_readidx: too many separators'')"
    using db_readidx_parse [OF b refl fits] I parseidx_separator [OF k] by (simp only: body) simp
  with w(1,3) show ?thesis by auto
qed

theorem separator_key_unreadable_witness:
  "\<exists>db'. db_writeidx ((db_alloc (fopened ''x'' 2000 (\<lambda>_ _. False)) (fopened [] 2000 (\<lambda>_ _. False)))
       \<lparr>nhash := 137, hashoff := 7, datlen := 2\<rparr>) ''a:b'' 0 SEEK_END (int 0) = Inr db' \<and>
     db_readidx db' (idxoff db') = Inl (Err_dump ''_db_readidx: too many separators'')"
proof -
  let ?db = "(db_alloc (fopened ''x'' 2000 (\<lambda>_ _. False)) (fopened [] 2000 (\<lambda>_ _. False)))
       \<lparr>nhash := 137, hashoff := 7, datlen := 2\<rparr>"
  have "db_files 2000 no_locks ''x'' [] ?db" "datoff ?db = int 0" "datlen ?db = length ''v'' + 1"
    by (simp_all add: db_files_def db_alloc_def fopened_def no_locks_def grants_locks_def)
  moreover have "slot_fits 0 \<lparr>s_next = 0, s_key = ''a'' @ SEP # ''b'', s_data = ''v''\<rparr>"
    by code_simp
  ultimately show ?thesis
    using separator_key_unreadable [of 2000 "''x''" "[]" ?db "''a''" "''b''" 0 "''v''" 0]
    by (simp add: c_string_def)
qed

end
