(* ===== verification/Dlink.thy ===== *)
theory Dlink
  imports C_Prelude
begin

text \<open>
  Doubly linked lists of C structures.  The \<open>next\<close> and \<open>prev\<close> fields are
  functions from addresses to pointers (\<open>None\<close> is NULL); \<open>dll\<close> says that they
  link the addresses of a list between a head and a tail pointer.  The three
  updates that the sources make (append, insert in front, remove) are shown once
  here; the locale \<open>linked_queue\<close> is the contract of a queue built from them.
\<close>

section \<open>Linked lists\<close>

type_synonym addr = nat
type_synonym ptr = "addr option"

definition hd_opt :: "'a list \<Rightarrow> 'a option" where
  "hd_opt xs = (case xs of [] \<Rightarrow> None | x # _ \<Rightarrow> Some x)"

definition last_opt :: "'a list \<Rightarrow> 'a option" where
  "last_opt xs = (if xs = [] then None else Some (last xs))"

lemma hd_opt_simps [simp]: "hd_opt [] = None" "hd_opt (x # xs) = Some x"
  by (simp_all add: hd_opt_def)

lemma last_opt_simps [simp]: "last_opt [] = None" "last_opt (xs @ [x]) = Some x" "last_opt [x] = Some x"
  by (simp_all add: last_opt_def)

lemma hd_opt_append: "hd_opt (xs @ ys) = (if xs = [] then hd_opt ys else hd_opt xs)"
  by (cases xs) simp_all

lemma last_opt_append: "last_opt (xs @ ys) = (if ys = [] then last_opt xs else last_opt ys)"
  by (simp add: last_opt_def)

lemma last_opt_Cons: "last_opt (x # xs) = (if xs = [] then Some x else last_opt xs)"
  by (simp add: last_opt_def)

lemma hd_opt_None [simp]: "hd_opt xs = None \<longleftrightarrow> xs = []"
  by (cases xs) simp_all

lemma last_opt_None [simp]: "last_opt xs = None \<longleftrightarrow> xs = []"
  by (simp add: last_opt_def)

lemma hd_opt_SomeD: "hd_opt xs = Some x \<Longrightarrow> x \<in> set xs"
  by (cases xs) simp_all

lemma last_opt_SomeD: "last_opt xs = Some x \<Longrightarrow> x \<in> set xs"
  by (auto simp: last_opt_def split: if_splits)

lemma last_opt_SomeE: "last_opt xs = Some x \<Longrightarrow> \<exists>ys. xs = ys @ [x]"
  by (metis append_butlast_last_id last_opt_def option.distinct(1) option.inject)

lemma hd_opt_SomeE: "hd_opt xs = Some x \<Longrightarrow> \<exists>ys. xs = x # ys"
  by (cases xs) simp_all

definition dll :: "(addr \<Rightarrow> ptr) \<Rightarrow> (addr \<Rightarrow> ptr) \<Rightarrow> ptr \<Rightarrow> ptr \<Rightarrow> addr list \<Rightarrow> bool" where
  "dll nx pv h t xs \<longleftrightarrow> distinct xs \<and> h = hd_opt xs \<and> t = last_opt xs \<and>
     (\<forall>a x b. xs = a @ x # b \<longrightarrow> nx x = hd_opt b \<and> pv x = last_opt a)"

lemma dllD:
  assumes "dll nx pv h t xs"
  shows "distinct xs" "h = hd_opt xs" "t = last_opt xs"
    "xs = a @ x # b \<Longrightarrow> nx x = hd_opt b" "xs = a @ x # b \<Longrightarrow> pv x = last_opt a"
  using assms by (auto simp: dll_def)

lemma dll_empty: "dll nx pv None None []"
  by (simp add: dll_def)

text \<open>What each field must be after an update, element by element.\<close>

lemma dll_appendI:
  assumes d: "dll nx pv h t xs" and x: "x \<notin> set xs"
    and new: "nx' x = None" "pv' x = t"
    and old: "\<And>y. y \<in> set xs \<Longrightarrow> nx' y = (if Some y = t then Some x else nx y)" "\<And>y. y \<in> set xs \<Longrightarrow> pv' y = pv y"
  shows "dll nx' pv' (if t = None then Some x else h) (Some x) (xs @ [x])"
  unfolding dll_def
proof (intro conjI allI impI)
  show "distinct (xs @ [x])" using d x by (simp add: dll_def)
  show "(if t = None then Some x else h) = hd_opt (xs @ [x])"
    using dllD(2,3) [OF d] by (auto simp: hd_opt_append)
  show "Some x = last_opt (xs @ [x])" by simp
  fix a y b assume eq: "xs @ [x] = a @ y # b"
  consider "b = []" "y = x" "a = xs" | b' where "b = b' @ [x]" "xs = a @ y # b'"
    using eq by (cases b rule: rev_cases) auto
  then show "nx' y = hd_opt b" "pv' y = last_opt a"
  proof (atomize(full), cases)
    case 1
    then show "nx' y = hd_opt b \<and> pv' y = last_opt a" using new dllD(3) [OF d] by simp
  next
    case 2
    have ty: "Some y = t \<longleftrightarrow> b' = []"
      using dllD(1,3) [OF d] 2(2) by (auto simp: last_opt_append last_opt_Cons dest: last_opt_SomeD last_opt_SomeD [OF sym])
    then show "nx' y = hd_opt b \<and> pv' y = last_opt a"
      using old [of y] dllD(4,5) [OF d 2(2)] 2 by (auto simp: hd_opt_append)
  qed
qed

lemma dll_pushI:
  assumes d: "dll nx pv h t xs" and x: "x \<notin> set xs"
    and new: "nx' x = h" "pv' x = None"
    and old: "\<And>y. y \<in> set xs \<Longrightarrow> pv' y = (if Some y = h then Some x else pv y)" "\<And>y. y \<in> set xs \<Longrightarrow> nx' y = nx y"
  shows "dll nx' pv' (Some x) (if h = None then Some x else t) (x # xs)"
  unfolding dll_def
proof (intro conjI allI impI)
  show "distinct (x # xs)" using d x by (simp add: dll_def)
  show "Some x = hd_opt (x # xs)" by simp
  show "(if h = None then Some x else t) = last_opt (x # xs)"
    using dllD(2,3) [OF d] by (auto simp: last_opt_Cons)
  fix a y b assume eq: "x # xs = a @ y # b"
  consider "a = []" "y = x" "b = xs" | a' where "a = x # a'" "xs = a' @ y # b"
    using eq by (cases a) auto
  then show "nx' y = hd_opt b" "pv' y = last_opt a"
  proof (atomize(full), cases)
    case 1
    then show "nx' y = hd_opt b \<and> pv' y = last_opt a" using new dllD(2) [OF d] by simp
  next
    case 2
    have hy: "Some y = h \<longleftrightarrow> a' = []"
      using dllD(1,2) [OF d] 2(2) by (cases a') auto
    then show "nx' y = hd_opt b \<and> pv' y = last_opt a"
      using old [of y] dllD(4,5) [OF d 2(2)] 2 by (auto simp: last_opt_Cons)
  qed
qed

lemma dll_removeI:
  assumes d: "dll nx pv h t (a @ x # b)"
    and nx': "\<And>y. y \<in> set (a @ b) \<Longrightarrow> nx' y = (if Some y = pv x then nx x else nx y)"
    and pv': "\<And>y. y \<in> set (a @ b) \<Longrightarrow> pv' y = (if Some y = nx x then pv x else pv y)"
  shows "dll nx' pv' (if pv x = None then nx x else h) (if nx x = None then pv x else t) (a @ b)"
  unfolding dll_def
proof (intro conjI allI impI)
  have px: "nx x = hd_opt b" "pv x = last_opt a" using dllD(4,5) [OF d refl] by simp_all
  have dist: "distinct (a @ x # b)" by (rule dllD(1) [OF d])
  show "distinct (a @ b)" using dist by simp
  show "(if pv x = None then nx x else h) = hd_opt (a @ b)"
    using dllD(2) [OF d] px by (auto simp: hd_opt_append)
  show "(if nx x = None then pv x else t) = last_opt (a @ b)"
    using dllD(3) [OF d] px by (auto simp: last_opt_append last_opt_Cons)
  fix c y e assume eq: "a @ b = c @ y # e"
  have y: "y \<in> set (a @ b)" using eq by simp
  consider e' where "a = c @ y # e'" "e = e' @ b" | c' where "c = a @ c'" "b = c' @ y # e"
    using eq by (auto simp: append_eq_append_conv2 Cons_eq_append_conv append_eq_Cons_conv)
  then show "nx' y = hd_opt e" "pv' y = last_opt c"
  proof (atomize(full), cases)
    case 1
    have sp: "a @ x # b = c @ y # (e' @ x # b)" using 1 by simp
    have "Some y = pv x \<longleftrightarrow> e' = []" unfolding px 1(1)
      using dist 1 by (auto simp: last_opt_append last_opt_Cons dest: last_opt_SomeD last_opt_SomeD [OF sym])
    moreover have "Some y \<noteq> nx x" using px dist 1 by (auto dest: hd_opt_SomeD hd_opt_SomeD [OF sym])
    ultimately show "nx' y = hd_opt e \<and> pv' y = last_opt c"
      using nx' [OF y] pv' [OF y] dllD(4,5) [OF d sp] 1 px by (auto simp: hd_opt_append)
  next
    case 2
    have sp: "a @ x # b = (a @ x # c') @ y # e" using 2 by simp
    have "Some y = nx x \<longleftrightarrow> c' = []" unfolding px 2(2) using dist 2 by (cases c') auto
    moreover have "Some y \<noteq> pv x" using px dist 2 by (auto dest: last_opt_SomeD last_opt_SomeD [OF sym])
    ultimately show "nx' y = hd_opt e \<and> pv' y = last_opt c"
      using nx' [OF y] pv' [OF y] dllD(4,5) [OF d sp] 2 px by (auto simp: last_opt_append last_opt_Cons)
  qed
qed

text \<open>The addresses on a list are those met by following \<open>next\<close> from the head.\<close>

fun reach :: "(addr \<Rightarrow> ptr) \<Rightarrow> ptr \<Rightarrow> addr list \<Rightarrow> bool" where
  "reach nx p [] \<longleftrightarrow> p = None"
| "reach nx p (x # xs) \<longleftrightarrow> p = Some x \<and> reach nx (nx x) xs"

lemma dll_reach: "dll nx pv h t xs \<Longrightarrow> reach nx h xs"
proof -
  assume d: "dll nx pv h t xs"
  have "xs = a @ b \<Longrightarrow> reach nx (hd_opt b) b" for a b
  proof (induction b arbitrary: a)
    case (Cons y b)
    have "reach nx (hd_opt b) b" using Cons.IH [of "a @ [y]"] Cons.prems by simp
    then show ?case using dllD(4) [OF d Cons.prems] by simp
  qed simp
  from this [of "[]" xs] show ?thesis using dllD(2) [OF d] by simp
qed

section \<open>The contract of a queue\<close>

locale linked_queue =
  fixes repr :: "'s \<Rightarrow> addr list \<Rightarrow> bool"
    and enqueue :: "addr \<Rightarrow> 's \<Rightarrow> 's"
    and pushfront :: "addr \<Rightarrow> 's \<Rightarrow> 's"
    and detach :: "addr \<Rightarrow> 's \<Rightarrow> 's"
    and head :: "'s \<Rightarrow> ptr"
  assumes enqueue_law: "repr s xs \<Longrightarrow> x \<notin> set xs \<Longrightarrow> repr (enqueue x s) (xs @ [x])"
    and pushfront_law: "repr s xs \<Longrightarrow> x \<notin> set xs \<Longrightarrow> repr (pushfront x s) (x # xs)"
    and detach_law: "repr s (a @ x # b) \<Longrightarrow> repr (detach x s) (a @ b)"
    and head_law: "repr s xs \<Longrightarrow> head s = hd_opt xs"
begin

text \<open>Jobs come out in the order in which they went in.\<close>

lemma enqueue_all:
  "repr s xs \<Longrightarrow> distinct ys \<Longrightarrow> set xs \<inter> set ys = {} \<Longrightarrow> repr (fold enqueue ys s) (xs @ ys)"
proof (induction ys arbitrary: s xs)
  case (Cons y ys)
  have "repr (enqueue y s) (xs @ [y])" using enqueue_law Cons.prems by simp
  from Cons.IH [OF this] Cons.prems show ?case by simp
qed simp

lemma pushfront_detach: "repr s xs \<Longrightarrow> x \<notin> set xs \<Longrightarrow> repr (detach x (pushfront x s)) xs"
  using detach_law [of _ "[]" x xs] pushfront_law by simp

lemma detach_head:
  assumes "repr s (x # xs)"
  shows "head s = Some x" "repr (detach x s) xs"
  using head_law [OF assms] detach_law [of s "[]" x xs] assms by simp_all

end

end
