(* ===== verification/Rwlock_Queue.thy ===== *)
theory Rwlock_Queue
  imports Dlink
begin

text \<open>
  The job queue of \<^verbatim>\<open>apue.3e/threads/rwlock.c\<close>.  The queue structure and the memory
  that holds the jobs are one state; the functions run while they hold the
  reader-writer lock, so each is one step on that state.  Whether the lock
  functions succeed is a parameter where the source looks at the result.
\<close>

section \<open>Data\<close>

record rw_job =
  j_next :: ptr
  j_prev :: ptr
  j_id :: nat

record rw_queue =
  q_head :: ptr
  q_tail :: ptr
  q_mem :: "addr \<Rightarrow> rw_job"

definition set_next :: "addr \<Rightarrow> ptr \<Rightarrow> rw_queue \<Rightarrow> rw_queue" where
  "set_next a p q = q\<lparr>q_mem := (q_mem q)(a := (q_mem q a)\<lparr>j_next := p\<rparr>)\<rparr>"

definition set_prev :: "addr \<Rightarrow> ptr \<Rightarrow> rw_queue \<Rightarrow> rw_queue" where
  "set_prev a p q = q\<lparr>q_mem := (q_mem q)(a := (q_mem q a)\<lparr>j_prev := p\<rparr>)\<rparr>"

section \<open>Operations\<close>

text \<open>The result of \<^verbatim>\<open>pthread_rwlock_init\<close> is \<open>err\<close>.\<close>

definition queue_init :: "int \<Rightarrow> rw_queue \<Rightarrow> int \<times> rw_queue" where
  "queue_init err q =
     (let q = q\<lparr>q_head := None, q_tail := None\<rparr>
      in if err \<noteq> 0 then (err, q) else (0, q))"

definition job_insert :: "addr \<Rightarrow> rw_queue \<Rightarrow> rw_queue" where
  "job_insert jp q =
     (let q = set_next jp (q_head q) q;
          q = set_prev jp None q;
          q = (case q_head q of
                 Some h \<Rightarrow> set_prev h (Some jp) q
               | None \<Rightarrow> q\<lparr>q_tail := Some jp\<rparr>)
      in q\<lparr>q_head := Some jp\<rparr>)"

definition job_append :: "addr \<Rightarrow> rw_queue \<Rightarrow> rw_queue" where
  "job_append jp q =
     (let q = set_next jp None q;
          q = set_prev jp (q_tail q) q;
          q = (case q_tail q of
                 Some t \<Rightarrow> set_next t (Some jp) q
               | None \<Rightarrow> q\<lparr>q_head := Some jp\<rparr>)
      in q\<lparr>q_tail := Some jp\<rparr>)"

text \<open>A dereference of NULL is \<open>None\<close>.\<close>

definition job_remove :: "addr \<Rightarrow> rw_queue \<Rightarrow> rw_queue option" where
  "job_remove jp q =
     (let nx = j_next (q_mem q jp); pv = j_prev (q_mem q jp)
      in if Some jp = q_head q
         then let q = q\<lparr>q_head := nx\<rparr>
              in if q_tail q = Some jp then Some (q\<lparr>q_tail := None\<rparr>)
                 else map_option (\<lambda>n. set_prev n pv q) nx
         else if Some jp = q_tail q
         then let q = q\<lparr>q_tail := pv\<rparr>
              in map_option (\<lambda>p. set_next p nx q) pv
         else case pv of
                None \<Rightarrow> None
              | Some p \<Rightarrow> map_option (\<lambda>n. set_prev n pv (set_next p nx q)) nx)"

text \<open>The search loop; \<open>None\<close> is a chain that never ends.\<close>

partial_function (option) job_find_loop :: "rw_queue \<Rightarrow> nat \<Rightarrow> ptr \<Rightarrow> ptr option" where
  "job_find_loop q tid jp =
     (case jp of
        None \<Rightarrow> Some None
      | Some a \<Rightarrow> if j_id (q_mem q a) = tid then Some jp
                 else job_find_loop q tid (j_next (q_mem q a)))"

declare job_find_loop.simps [code]

definition job_find :: "bool \<Rightarrow> rw_queue \<Rightarrow> nat \<Rightarrow> ptr option" where
  "job_find rdlock_ok q tid = (if \<not> rdlock_ok then Some None else job_find_loop q tid (q_head q))"

section \<open>Correctness\<close>

definition rw_repr :: "rw_queue \<Rightarrow> addr list \<Rightarrow> bool" where
  "rw_repr q xs \<longleftrightarrow> dll (\<lambda>a. j_next (q_mem q a)) (\<lambda>a. j_prev (q_mem q a)) (q_head q) (q_tail q) xs"

lemma set_fields [simp]:
  "j_next (q_mem (set_next a p q) b) = (if b = a then p else j_next (q_mem q b))"
  "j_prev (q_mem (set_next a p q) b) = j_prev (q_mem q b)"
  "j_prev (q_mem (set_prev a p q) b) = (if b = a then p else j_prev (q_mem q b))"
  "j_next (q_mem (set_prev a p q) b) = j_next (q_mem q b)"
  "q_head (set_next a p q) = q_head q" "q_tail (set_next a p q) = q_tail q"
  "q_head (set_prev a p q) = q_head q" "q_tail (set_prev a p q) = q_tail q"
  by (simp_all add: set_next_def set_prev_def)

lemma insert_fields:
  "j_next (q_mem (job_insert x q) y) = (if y = x then q_head q else j_next (q_mem q y))"
  "j_prev (q_mem (job_insert x q) y) = (if Some y = q_head q then Some x else if y = x then None else j_prev (q_mem q y))"
  "q_head (job_insert x q) = Some x" "q_tail (job_insert x q) = (if q_head q = None then Some x else q_tail q)"
  by (cases "q_head q"; auto simp: job_insert_def Let_def)+

lemma append_fields:
  "j_prev (q_mem (job_append x q) y) = (if y = x then q_tail q else j_prev (q_mem q y))"
  "j_next (q_mem (job_append x q) y) = (if Some y = q_tail q then Some x else if y = x then None else j_next (q_mem q y))"
  "q_tail (job_append x q) = Some x" "q_head (job_append x q) = (if q_tail q = None then Some x else q_head q)"
  by (cases "q_tail q"; auto simp: job_append_def Let_def)+

lemma rw_insert_ok:
  assumes "rw_repr q xs" "x \<notin> set xs"
  shows "rw_repr (job_insert x q) (x # xs)"
proof -
  have "Some x \<noteq> q_head q" using assms dllD(2) [OF assms(1) [unfolded rw_repr_def]] hd_opt_SomeD by metis
  then show ?thesis using assms unfolding rw_repr_def insert_fields by (elim dll_pushI) auto
qed

lemma rw_append_ok:
  assumes "rw_repr q xs" "x \<notin> set xs"
  shows "rw_repr (job_append x q) (xs @ [x])"
proof -
  have "Some x \<noteq> q_tail q" using assms dllD(3) [OF assms(1) [unfolded rw_repr_def]] last_opt_SomeD by metis
  then show ?thesis using assms unfolding rw_repr_def append_fields by (elim dll_appendI) auto
qed

lemma rw_remove_ok:
  assumes d: "rw_repr q (a @ x # b)"
  obtains q' where "job_remove x q = Some q'" "rw_repr q' (a @ b)"
proof -
  let ?nx = "\<lambda>a. j_next (q_mem q a)" and ?pv = "\<lambda>a. j_prev (q_mem q a)"
  note D = d [unfolded rw_repr_def]
  have px: "?nx x = hd_opt b" "?pv x = last_opt a" using dllD(4,5) [OF D refl] by simp_all
  have dist: "distinct (a @ x # b)" by (rule dllD(1) [OF D])
  have h: "Some x = q_head q \<longleftrightarrow> a = []" using dllD(2) [OF D] dist by (cases a) auto
  have t: "Some x = q_tail q \<longleftrightarrow> b = []"
    using dllD(3) [OF D] dist
    by (auto simp: last_opt_append last_opt_Cons dest: last_opt_SomeD last_opt_SomeD [OF sym])
  have out: "hd_opt b \<noteq> Some x" "last_opt a \<noteq> Some x" using dist by (auto dest: hd_opt_SomeD last_opt_SomeD)
  have dj: "hd_opt b = Some n \<Longrightarrow> last_opt a = Some p \<Longrightarrow> n \<noteq> p" for n p
    using dist by (auto dest!: hd_opt_SomeD last_opt_SomeD)
  have ok: "rw_repr q' (a @ b)"
    if "\<And>y. y \<in> set (a @ b) \<Longrightarrow> j_next (q_mem q' y) = (if Some y = ?pv x then ?nx x else ?nx y)"
      "\<And>y. y \<in> set (a @ b) \<Longrightarrow> j_prev (q_mem q' y) = (if Some y = ?nx x then ?pv x else ?pv y)"
      "q_head q' = (if ?pv x = None then ?nx x else q_head q)"
      "q_tail q' = (if ?nx x = None then ?pv x else q_tail q)" for q'
    unfolding rw_repr_def that(3,4) by (rule dll_removeI [OF D that(1,2)])
  have "\<exists>q'. job_remove x q = Some q' \<and>
    (\<forall>y. j_next (q_mem q' y) = (if Some y = ?pv x then ?nx x else ?nx y)) \<and>
    (\<forall>y. j_prev (q_mem q' y) = (if Some y = ?nx x then ?pv x else ?pv y)) \<and>
    q_head q' = (if ?pv x = None then ?nx x else q_head q) \<and> q_tail q' = (if ?nx x = None then ?pv x else q_tail q)"
    unfolding job_remove_def Let_def px h
    using t by (cases "last_opt a"; cases "hd_opt b") auto
  then obtain q' where q': "job_remove x q = Some q'"
    "\<And>y. j_next (q_mem q' y) = (if Some y = ?pv x then ?nx x else ?nx y)"
    "\<And>y. j_prev (q_mem q' y) = (if Some y = ?nx x then ?pv x else ?pv y)"
    "q_head q' = (if ?pv x = None then ?nx x else q_head q)" "q_tail q' = (if ?nx x = None then ?pv x else q_tail q)"
    by (elim exE conjE) simp
  show ?thesis by (rule that [OF q'(1)], rule ok) (rule q')+
qed

lemma rw_find_loop_ok:
  "reach (\<lambda>a. j_next (q_mem q a)) p xs \<Longrightarrow>
   job_find_loop q tid p = Some (find (\<lambda>a. j_id (q_mem q a) = tid) xs)"
proof (induction xs arbitrary: p)
  case Nil
  then show ?case by (subst job_find_loop.simps) simp
next
  case (Cons x xs)
  then show ?case by (subst job_find_loop.simps) simp
qed

interpretation rwq: linked_queue rw_repr job_append job_insert "\<lambda>x q. the (job_remove x q)" q_head
proof (unfold_locales, goal_cases)
  case (1 s xs x) then show ?case by (rule rw_append_ok)
next
  case (2 s xs x) then show ?case by (rule rw_insert_ok)
next
  case (3 s a x b) then show ?case using rw_remove_ok by (metis option.sel)
next
  case (4 s xs) then show ?case by (simp add: rw_repr_def dll_def)
qed

section \<open>Properties\<close>

text \<open>After any number of jobs were appended to a freshly initialised queue, they stand
  on it in the order of the calls, and a lookup returns the first job in that
  order that the given thread handles, or NULL.\<close>

theorem rwlock_queue_fifo_find:
  assumes "distinct jobs"
  shows "let q' = fold job_append jobs (snd (queue_init err q))
    in rw_repr q' jobs \<and> job_find True q' tid = Some (find (\<lambda>a. j_id (q_mem q' a) = tid) jobs)"
proof -
  have "rw_repr (snd (queue_init err q)) []" by (simp add: rw_repr_def queue_init_def Let_def dll_def)
  from rwq.enqueue_all [OF this assms] have r: "rw_repr (fold job_append jobs (snd (queue_init err q))) jobs" by simp
  then show ?thesis using rw_find_loop_ok [OF dll_reach [OF r [unfolded rw_repr_def]]] by (simp add: job_find_def Let_def)
qed

definition rw_example :: rw_queue where
  "rw_example = \<lparr>q_head = Some 9, q_tail = None, q_mem = (\<lambda>a. \<lparr>j_next = Some 9, j_prev = Some 9, j_id = a mod 2\<rparr>)\<rparr>"

theorem rwlock_queue_fifo_find_witness:
  "let q' = fold job_append [4, 3, 5] (snd (queue_init 0 rw_example))
    in rw_repr q' [4, 3, 5] \<and> job_find True q' 1 = Some (Some 3)"
  using rwlock_queue_fifo_find [of "[4, 3, 5]" 0 rw_example 1]
  by (simp add: Let_def rw_example_def queue_init_def job_append_def set_next_def set_prev_def)

text \<open>Removing a job that is on the queue never follows a NULL pointer and takes exactly
  that job off it, wherever it stands.\<close>

theorem rwlock_queue_remove:
  assumes "rw_repr q (xs @ jp # ys)"
  shows "\<exists>q'. job_remove jp q = Some q' \<and> rw_repr q' (xs @ ys)"
  using rw_remove_ok [OF assms] by blast

theorem rwlock_queue_remove_witness:
  "\<exists>q'. job_remove 3 (job_append 5 (job_append 3 (job_append 4 (snd (queue_init 0 rw_example))))) = Some q' \<and>
    rw_repr q' [4, 5]"
proof -
  have "rw_repr (snd (queue_init 0 rw_example)) []" by (simp add: rw_repr_def queue_init_def Let_def dll_def)
  from rwq.enqueue_all [OF this, of "[4, 3, 5]"]
  have "rw_repr (job_append 5 (job_append 3 (job_append 4 (snd (queue_init 0 rw_example))))) ([4] @ 3 # [5])" by simp
  from rwlock_queue_remove [OF this] show ?thesis by simp
qed

end
