(* ===== verification/C_Bytes.thy ===== *)
theory C_Bytes
  imports C_Prelude "HOL-Library.Word"
begin

text \<open>
  Fixed-width integers as the bytes of memory and of the network: the sources
  run on a little-endian host, so \<^verbatim>\<open>htonl\<close> and \<^verbatim>\<open>htons\<close> reverse the bytes.
\<close>

section \<open>Bytes of numbers\<close>

definition le_bytes :: "nat \<Rightarrow> nat \<Rightarrow> cbuf" where
  "le_bytes k n = map (\<lambda>i. char_of (n div 256 ^ i)) [0..<k]"

fun le_val :: "cbuf \<Rightarrow> nat" where
  "le_val [] = 0"
| "le_val (c # cs) = of_char c + 256 * le_val cs"

lemma length_le_bytes [simp]: "length (le_bytes k n) = k"
  by (simp add: le_bytes_def)

lemma le_bytes_Suc: "le_bytes (Suc k) n = char_of n # le_bytes k (n div 256)"
  unfolding le_bytes_def upt_conv_Cons [OF zero_less_Suc] list.map
  by (simp add: map_Suc_upt [symmetric] div_mult2_eq del: upt_Suc)

lemma le_val_bytes: "le_val (le_bytes k n) = n mod 256 ^ k"
proof (induction k arbitrary: n)
  case 0
  then show ?case by (simp add: le_bytes_def)
next
  case (Suc k)
  have "n mod 256 + 256 * (n div 256 mod 256 ^ k) = n mod 256 ^ Suc k"
    using mod_mult2_eq [of n 256 "256 ^ k"] by simp
  then show ?case by (simp add: le_bytes_Suc Suc)
qed

lemma le_val_less: "le_val cs < 256 ^ length cs"
proof (induction cs)
  case (Cons c cs)
  have "of_char c < (256 :: nat)" by (rule nat_of_char_less_256)
  moreover have "256 * Suc (le_val cs) \<le> 256 * 256 ^ length cs" using Cons by (intro mult_le_mono2) simp
  ultimately show ?case unfolding le_val.simps length_Cons power_Suc mult_Suc_right by linarith
qed simp

lemma le_bytes_val: "le_bytes (length cs) (le_val cs) = cs"
proof (induction cs)
  case Nil
  then show ?case by (simp add: le_bytes_def)
next
  case (Cons c cs)
  have c: "of_char c < (256 :: nat)" by (rule nat_of_char_less_256)
  then have "char_of (of_char c + 256 * le_val cs :: nat) = c"
    by (metis char_of_mod_256 char_of_char mod_mult_self2)
  moreover have "(of_char c + 256 * le_val cs) div 256 = le_val cs" using c by simp
  ultimately show ?case using Cons by (simp add: le_bytes_Suc)
qed

section \<open>Words in memory\<close>

definition le32 :: "32 word \<Rightarrow> cbuf" where
  "le32 w = le_bytes 4 (unat w)"

definition get32 :: "cbuf \<Rightarrow> 32 word" where
  "get32 cs = word_of_nat (le_val (take 4 cs))"

definition htonl :: "32 word \<Rightarrow> 32 word" where
  "htonl w = get32 (rev (le32 w))"

definition le16 :: "16 word \<Rightarrow> cbuf" where
  "le16 w = le_bytes 2 (unat w)"

definition get16 :: "cbuf \<Rightarrow> 16 word" where
  "get16 cs = word_of_nat (le_val (take 2 cs))"

definition htons :: "16 word \<Rightarrow> 16 word" where
  "htons w = get16 (rev (le16 w))"

abbreviation ntohl :: "32 word \<Rightarrow> 32 word" where "ntohl \<equiv> htonl"
abbreviation ntohs :: "16 word \<Rightarrow> 16 word" where "ntohs \<equiv> htons"

lemma length_le32 [simp]: "length (le32 w) = 4" "length (le16 v) = 2"
  by (simp_all add: le32_def le16_def)

lemma get32_le32 [simp]: "get32 (le32 w @ r) = w" "get32 (le32 w) = w"
proof -
  have "unat w < 256 ^ 4" using unsigned_less [of w, where ?'a = nat] by simp
  then show "get32 (le32 w @ r) = w" "get32 (le32 w) = w"
    by (simp_all add: get32_def le32_def le_val_bytes)
qed

lemma get16_le16 [simp]: "get16 (le16 w @ r) = w" "get16 (le16 w) = w"
proof -
  have "unat w < 256 ^ 2" using unsigned_less [of w, where ?'a = nat] by simp
  then show "get16 (le16 w @ r) = w" "get16 (le16 w) = w"
    by (simp_all add: get16_def le16_def le_val_bytes)
qed

lemma le32_get32: "length cs = 4 \<Longrightarrow> le32 (get32 cs) = cs"
  using le_val_less [of cs] le_bytes_val [of cs] by (simp add: le32_def get32_def unat_of_nat)

lemma le16_get16: "length cs = 2 \<Longrightarrow> le16 (get16 cs) = cs"
  using le_val_less [of cs] le_bytes_val [of cs] by (simp add: le16_def get16_def unat_of_nat)

lemma le32_htonl: "le32 (htonl w) = rev (le32 w)"
  by (simp add: htonl_def le32_get32)

lemma le16_htons: "le16 (htons w) = rev (le16 w)"
  by (simp add: htons_def le16_get16)

lemma htonl_htonl [simp]: "htonl (htonl w) = w"
  unfolding htonl_def [of "htonl w"] le32_htonl by simp

lemma htons_htons [simp]: "htons (htons w) = w"
  unfolding htons_def [of "htons w"] le16_htons by simp

end
