(* ===== verification/Print_Util.thy ===== *)
theory Print_Util
  imports C_Bytes
begin

text \<open>
  Support for the print server, \<^verbatim>\<open>apue.3e/printer/util.c\<close>: timed reads from a
  socket and the scan of the configuration file.  A socket is the sequence of
  things that reading it will meet, and the bytes written to it.
\<close>

section \<open>Sockets\<close>

datatype event = Bytes cbuf | Timeout | Fail int

record conn =
  c_in :: "event list"
  c_out :: cbuf
  c_room :: nat

abbreviation ETIME :: int where "ETIME \<equiv> 62"
abbreviation EIO :: int where "EIO \<equiv> 5"

text \<open>A read returns bytes (none at the end of the stream) or fails with an error number.\<close>

datatype rd = Rd cbuf | Rd_err int

text \<open>\<open>Timeout\<close> and \<open>Fail\<close> are the outcomes 0 and -1 of \<^verbatim>\<open>select\<close>, or a failing \<^verbatim>\<open>read\<close>.\<close>

fun tread :: "conn \<Rightarrow> nat \<Rightarrow> rd \<times> conn" where
  "tread c nbytes =
     (case c_in c of
        [] \<Rightarrow> (Rd [], c)
      | Timeout # es \<Rightarrow> (Rd_err ETIME, c\<lparr>c_in := es\<rparr>)
      | Fail e # es \<Rightarrow> (Rd_err e, c\<lparr>c_in := es\<rparr>)
      | Bytes bs # es \<Rightarrow>
          (Rd (take nbytes bs),
           c\<lparr>c_in := (if length bs \<le> nbytes then es else Bytes (drop nbytes bs) # es)\<rparr>))"

declare tread.simps [simp del]

function treadn_loop :: "conn \<Rightarrow> nat \<Rightarrow> nat \<Rightarrow> cbuf \<Rightarrow> rd \<times> conn" where
  "treadn_loop c nbytes nleft buf =
     (if nleft = 0 then (Rd buf, c)
      else case tread c nleft of
             (Rd_err e, c) \<Rightarrow> if nleft = nbytes then (Rd_err e, c) else (Rd buf, c)
           | (Rd bs, c) \<Rightarrow> if length bs = 0 then (Rd buf, c)
                          else treadn_loop c nbytes (nleft - length bs) (buf @ bs))"
  by auto
termination
  by (relation "measure (\<lambda>(c, nbytes, nleft, buf). nleft)") auto

declare treadn_loop.simps [simp del]

definition treadn :: "conn \<Rightarrow> nat \<Rightarrow> rd \<times> conn" where
  "treadn c nbytes = treadn_loop c nbytes nbytes []"

text \<open>\<^verbatim>\<open>writen\<close> and \<^verbatim>\<open>write\<close> to a socket that takes \<open>c_room\<close> more bytes.\<close>

definition cwrite :: "conn \<Rightarrow> cbuf \<Rightarrow> int \<times> conn" where
  "cwrite c bs =
     (if bs \<noteq> [] \<and> c_room c = 0 then (- 1, c)
      else let w = take (c_room c) bs
           in (int (length w), c\<lparr>c_out := c_out c @ w, c_room := c_room c - length w\<rparr>))"

lemma cwrite_fits: "length bs \<le> c_room c \<Longrightarrow>
    cwrite c bs = (int (length bs), c\<lparr>c_out := c_out c @ bs, c_room := c_room c - length bs\<rparr>)"
  by (auto simp: cwrite_def)

section \<open>The configuration file\<close>

abbreviation MAXCFGLINE :: nat where "MAXCFGLINE \<equiv> 512"
abbreviation MAXKWLEN :: nat where "MAXKWLEN \<equiv> 16"

text \<open>\<^verbatim>\<open>fgets\<close>: up to \<open>n - 1\<close> characters, not past a newline; \<open>None\<close> at the end of the file.\<close>

fun fgets_take :: "nat \<Rightarrow> string \<Rightarrow> string" where
  "fgets_take 0 s = []"
| "fgets_take (Suc n) [] = []"
| "fgets_take (Suc n) (c # s) = (if c = CHR 0x0A then [c] else c # fgets_take n s)"

definition fgets :: "nat \<Rightarrow> string \<Rightarrow> (string \<times> string) option" where
  "fgets n s = (if s = [] then None
     else let line = fgets_take (n - 1) s in Some (line, drop (length line) s))"

text \<open>A conversion \<^verbatim>\<open>%ns\<close> of \<^verbatim>\<open>sscanf\<close>: skip white space, take at most \<open>n\<close> other characters.\<close>

definition scan_word :: "nat \<Rightarrow> string \<Rightarrow> string \<times> string" where
  "scan_word n s =
     (let s = dropWhile isspace s; w = take n (takeWhile (\<lambda>c. \<not> isspace c) s)
      in (w, drop (length w) s))"

lemma length_fgets_take: "length (fgets_take n s) \<le> length s"
  by (induction n s rule: fgets_take.induct) auto

lemma fgets_take_pos: "n \<noteq> 0 \<Longrightarrow> s \<noteq> [] \<Longrightarrow> fgets_take n s \<noteq> []"
  by (cases n; cases s) auto

function scan_lines :: "string \<Rightarrow> string \<Rightarrow> string option" where
  "scan_lines keyword cfg =
     (case fgets MAXCFGLINE cfg of
        None \<Rightarrow> None
      | Some (line, rest) \<Rightarrow>
          let line = cstr (line @ [NUL]);
              (keybuf, s) = scan_word (MAXKWLEN - 1) line;
              (valbuf, _) = scan_word (MAXCFGLINE - 1) s
          in if keybuf \<noteq> [] \<and> valbuf \<noteq> [] \<and> keyword = keybuf then Some valbuf
             else scan_lines keyword rest)"
  by auto
termination
proof (relation "measure (\<lambda>(k, t). length t)", goal_cases)
  case (2 keyword cfg x line rest)
  then show ?case using fgets_take_pos [of "MAXCFGLINE - 1" cfg]
    by (auto simp: fgets_def Let_def split: if_splits)
qed simp

declare scan_lines.simps [simp del]

datatype printd_error =
    Log_sys string
  | Log_quit string
  | Exit int
  | Never_ends
  | Overrun string

text \<open>The file system holds the configuration file or does not.\<close>

definition scan_configfile :: "string option \<Rightarrow> string \<Rightarrow> printd_error + string option" where
  "scan_configfile config keyword =
     (case config of
        None \<Rightarrow> Inl (Log_sys ''can't open /etc/printer.conf'')
      | Some cfg \<Rightarrow> Inr (scan_lines keyword cfg))"

definition get_printserver :: "string option \<Rightarrow> printd_error + string option" where
  "get_printserver config = scan_configfile config ''printserver''"

text \<open>\<open>gai\<close> stands for \<^verbatim>\<open>getaddrinfo\<close> of the system: an error code or a list of addresses.\<close>

definition getaddrlist :: "(string \<Rightarrow> string \<Rightarrow> int + 'a) \<Rightarrow> string \<Rightarrow> string \<Rightarrow> int + 'a" where
  "getaddrlist gai host service = gai host service"

definition get_printaddr :: "(string \<Rightarrow> string \<Rightarrow> int + 'a) \<Rightarrow> string option \<Rightarrow> printd_error + 'a option" where
  "get_printaddr gai config =
     andthen (scan_configfile config ''printer'') (\<lambda>r.
     case r of
       None \<Rightarrow> Inr None
     | Some p \<Rightarrow> (case getaddrlist gai p ''ipp'' of Inl err \<Rightarrow> Inr None | Inr ailist \<Rightarrow> Inr (Some ailist)))"

section \<open>Reading exactly so many bytes\<close>

lemma tread_out: "tread c n = (r, c') \<Longrightarrow> c_out c' = c_out c \<and> c_room c' = c_room c"
  by (auto simp: tread.simps split: list.splits event.splits)

lemma treadn_loop_ok:
  assumes "c_in c = map Bytes chunks @ rest" "\<forall>bs \<in> set chunks. bs \<noteq> []" "nleft \<le> length (concat chunks)"
  shows "\<exists>c' chunks'. treadn_loop c nbytes nleft buf = (Rd (buf @ take nleft (concat chunks)), c') \<and>
    c_in c' = map Bytes chunks' @ rest \<and> (\<forall>bs \<in> set chunks'. bs \<noteq> []) \<and>
    concat chunks' = drop nleft (concat chunks) \<and> c_out c' = c_out c \<and> c_room c' = c_room c"
  using assms
proof (induction nleft arbitrary: c chunks buf rule: less_induct)
  case (less n)
  show ?case
  proof (cases "n = 0")
    case True
    then show ?thesis using less.prems by (subst treadn_loop.simps) auto
  next
    case False
    then obtain bs cs where chunks: "chunks = bs # cs" using less.prems(3) by (cases chunks) auto
    then have bs: "bs \<noteq> []" and cs: "\<forall>bs \<in> set cs. bs \<noteq> []" using less.prems(2) by auto
    let ?c' = "c\<lparr>c_in := (if length bs \<le> n then map Bytes cs @ rest else Bytes (drop n bs) # map Bytes cs @ rest)\<rparr>"
    have t: "tread c n = (Rd (take n bs), ?c')" using less.prems(1) chunks by (simp add: tread.simps)
    have step: "treadn_loop c nbytes n buf = treadn_loop ?c' nbytes (n - length (take n bs)) (buf @ take n bs)"
      using False bs t by (subst treadn_loop.simps) simp
    show ?thesis
    proof (cases "length bs \<le> n")
      case True
      have "n - length bs < n" using bs False by (cases bs) auto
      moreover have "n - length bs \<le> length (concat cs)" using less.prems(3) chunks by simp
      ultimately obtain c' ch where "treadn_loop ?c' nbytes (n - length bs) (buf @ bs) =
          (Rd ((buf @ bs) @ take (n - length bs) (concat cs)), c')" "c_in c' = map Bytes ch @ rest"
          "\<forall>bs \<in> set ch. bs \<noteq> []" "concat ch = drop (n - length bs) (concat cs)" "c_out c' = c_out c" "c_room c' = c_room c"
        using less.IH [of "n - length bs" ?c' cs "buf @ bs"] cs True by auto
      then show ?thesis using step chunks True by auto
    next
      case False2: False
      have z: "n - length (take n bs) = 0" using False2 by simp
      have "treadn_loop c nbytes n buf = (Rd (buf @ take n bs), ?c')"
        unfolding step z by (subst treadn_loop.simps) simp
      then show ?thesis using chunks False2 cs by (auto intro!: exI [of _ "drop n bs # cs"])
    qed
  qed
qed

text \<open>When the socket delivers at least the requested number of bytes, in pieces of any
  size and before any timeout or error, \<^verbatim>\<open>treadn\<close> returns exactly the first so many
  bytes, and the rest is still there to be read.\<close>

theorem treadn_reads_exactly:
  assumes "c_in c = map Bytes chunks @ rest" "[] \<notin> set chunks" "nbytes \<le> length (concat chunks)"
  shows "\<exists>c' chunks'. treadn c nbytes = (Rd (take nbytes (concat chunks)), c') \<and>
    c_in c' = map Bytes chunks' @ rest \<and> concat chunks' = drop nbytes (concat chunks)"
proof -
  have "\<forall>bs \<in> set chunks. bs \<noteq> []" using assms(2) by auto
  from treadn_loop_ok [OF assms(1) this assms(3), of nbytes "[]"] show ?thesis
    unfolding treadn_def by auto
qed

theorem treadn_reads_exactly_witness:
  "\<exists>c' chunks'. treadn \<lparr>c_in = [Bytes ''ab'', Bytes ''cde'', Timeout], c_out = [], c_room = 0\<rparr> 4 = (Rd ''abcd'', c') \<and>
    c_in c' = map Bytes chunks' @ [Timeout] \<and> concat chunks' = ''e''"
  using treadn_reads_exactly [of "\<lparr>c_in = [Bytes ''ab'', Bytes ''cde'', Timeout], c_out = [], c_room = 0\<rparr>"
      "[''ab'', ''cde'']" "[Timeout]" 4] by simp

section \<open>Looking up a keyword\<close>

definition word_ok :: "nat \<Rightarrow> string \<Rightarrow> bool" where
  "word_ok n w \<longleftrightarrow> w \<noteq> [] \<and> length w \<le> n \<and> list_all (\<lambda>c. \<not> isspace c \<and> c \<noteq> NUL) w"

definition config_line :: "string \<times> string \<Rightarrow> string" where
  "config_line kv = fst kv @ '' '' @ snd kv @ [CHR 0x0A]"

lemma scan_word_ok:
  assumes "word_ok n w" "isspace c"
  shows "scan_word n (w @ c # s) = (w, c # s)"
proof -
  have "\<not> isspace (hd w)" "w \<noteq> []" "\<forall>c \<in> set w. \<not> isspace c" "length w \<le> n"
    using assms(1) by (auto simp: word_ok_def list_all_iff)
  then have "dropWhile isspace (w @ c # s) = w @ c # s" "takeWhile (\<lambda>c. \<not> isspace c) (w @ c # s) = w"
    using assms(2) by (cases w; simp)+
  then show ?thesis using \<open>length w \<le> n\<close> by (simp add: scan_word_def)
qed

lemma scan_word_skip: "isspace c \<Longrightarrow> scan_word n (c # s) = scan_word n s"
  by (simp add: scan_word_def)

lemma fgets_take_line: "CHR 0x0A \<notin> set l \<Longrightarrow> length l < n \<Longrightarrow> fgets_take n (l @ CHR 0x0A # s) = l @ [CHR 0x0A]"
proof (induction l arbitrary: n)
  case Nil
  then show ?case by (cases n) auto
next
  case (Cons c l)
  then show ?case by (cases n) auto
qed

lemma word_ok_chars: "word_ok n w \<Longrightarrow> c \<in> set w \<Longrightarrow> \<not> isspace c \<and> c \<noteq> NUL"
  by (auto simp: word_ok_def list_all_iff)

lemma isspace_newline: "isspace (CHR 0x0A)" "isspace (CHR '' '')"
  by (simp_all add: isspace_def)

lemma scan_lines_Cons:
  assumes k: "word_ok 15 k" and v: "word_ok 490 v"
  shows "scan_lines keyword (config_line (k, v) @ rest) = (if keyword = k then Some v else scan_lines keyword rest)"
proof -
  let ?l = "k @ '' '' @ v"
  have nl: "CHR 0x0A \<notin> set ?l"
    using word_ok_chars [OF k] word_ok_chars [OF v] isspace_newline by auto
  have len: "length ?l < 511" using k v by (simp add: word_ok_def)
  have ft: "fgets_take 511 (?l @ CHR 0x0A # rest) = ?l @ [CHR 0x0A]" by (rule fgets_take_line [OF nl len])
  have f: "fgets MAXCFGLINE (config_line (k, v) @ rest) = Some (?l @ [CHR 0x0A], rest)"
    using ft by (simp add: fgets_def config_line_def)
  have "c_string (?l @ [CHR 0x0A])" using word_ok_chars [OF k] word_ok_chars [OF v] by (auto simp: c_string_def)
  then have c: "cstr ((?l @ [CHR 0x0A]) @ [NUL]) = ?l @ [CHR 0x0A]" by (rule cstr_append_NUL)
  have w1: "scan_word (MAXKWLEN - 1) (?l @ [CHR 0x0A]) = (k, CHR '' '' # v @ [CHR 0x0A])"
    using scan_word_ok [OF k isspace_newline(2), of "v @ [CHR 0x0A]"] by simp
  have v511: "word_ok 511 v" using v by (auto simp: word_ok_def)
  have w2: "scan_word (MAXCFGLINE - 1) (CHR '' '' # v @ [CHR 0x0A]) = (v, [CHR 0x0A])"
    using scan_word_ok [OF v511 isspace_newline(1), of "[]"] scan_word_skip [OF isspace_newline(2)] by simp
  have ne: "k \<noteq> []" "v \<noteq> []" using k v by (auto simp: word_ok_def)
  show ?thesis
    by (subst scan_lines.simps) (simp only: f option.case prod.case c w1 w2 Let_def ne simp_thms)
qed

text \<open>A configuration file of keyword lines is searched as an association list: the
  value of the first line with the keyword, or NULL when no line has it.\<close>

theorem scan_configfile_lookup:
  assumes "list_all (\<lambda>(k, v). word_ok 15 k \<and> word_ok 490 v) entries"
  shows "scan_configfile (Some (concat (map config_line entries))) keyword = Inr (map_of entries keyword)"
proof -
  have "scan_lines keyword (concat (map config_line entries)) = map_of entries keyword"
    using assms
  proof (induction entries)
    case Nil
    then show ?case by (subst scan_lines.simps) (simp add: fgets_def)
  next
    case (Cons e es)
    obtain k v where e: "e = (k, v)" by (cases e)
    then have "word_ok 15 k" "word_ok 490 v" using Cons.prems by simp_all
    from scan_lines_Cons [OF this] Cons e show ?case by simp
  qed
  then show ?thesis by (simp add: scan_configfile_def)
qed

theorem scan_configfile_lookup_witness:
  "scan_configfile (Some (concat (map config_line [(''printserver'', ''host1''), (''printer'', ''laser'')]))) ''printer''
    = Inr (Some ''laser'')"
proof -
  have "list_all (\<lambda>(k, v). word_ok 15 k \<and> word_ok 490 v) [(''printserver'', ''host1''), (''printer'', ''laser'')]"
    by (simp add: word_ok_def isspace_def)
  from scan_configfile_lookup [OF this, of "''printer''"] show ?thesis by simp
qed

end
