(* ===== verification/Printd_Model.thy ===== *)
theory Printd_Model
  imports Print_Util Dlink Posix_File
begin

text \<open>
  The print spooling daemon, \<^verbatim>\<open>apue.3e/printer/printd.c\<close>: the queue of jobs, the job
  numbers and the file that keeps them, the list of worker threads, the spool
  directory, and the threads' bodies.  The state holds the globals of the source,
  the heap its structures live in and the files of the spool directory.  Each
  function that the source runs under a mutex is one step on this state.
\<close>

section \<open>Data\<close>

record printreq =
  pr_size :: "32 word"
  pr_flags :: "32 word"
  pr_usernm :: cbuf
  pr_jobnm :: cbuf

abbreviation USERNM_MAX :: nat where "USERNM_MAX \<equiv> 64"
abbreviation JOBNM_MAX :: nat where "JOBNM_MAX \<equiv> 256"
abbreviation MSGLEN_MAX :: nat where "MSGLEN_MAX \<equiv> 512"
abbreviation FILENMSZ :: nat where "FILENMSZ \<equiv> 64"
abbreviation IOBUFSZ :: nat where "IOBUFSZ \<equiv> 8192"
abbreviation PR_TEXT :: "32 word" where "PR_TEXT \<equiv> 1"

text \<open>\<^verbatim>\<open>sizeof(struct printreq)\<close>, and the structure as the bytes of memory.\<close>

abbreviation REQ_SIZE :: nat where "REQ_SIZE \<equiv> 328"

definition req_bytes :: "printreq \<Rightarrow> cbuf" where
  "req_bytes r = le32 (pr_size r) @ le32 (pr_flags r) @ pr_usernm r @ pr_jobnm r"

definition req_of :: "cbuf \<Rightarrow> printreq" where
  "req_of bs = \<lparr>pr_size = get32 bs, pr_flags = get32 (drop 4 bs),
     pr_usernm = take USERNM_MAX (drop 8 bs), pr_jobnm = take JOBNM_MAX (drop 72 bs)\<rparr>"

record printresp =
  rs_retcode :: "32 word"
  rs_jobid :: "32 word"
  rs_msg :: string

text \<open>Only the characters of the message are kept; the rest of its 512 bytes is padding.\<close>

definition resp_bytes :: "printresp \<Rightarrow> cbuf" where
  "resp_bytes r = le32 (rs_retcode r) @ le32 (rs_jobid r) @
     take MSGLEN_MAX (rs_msg r @ replicate MSGLEN_MAX NUL)"

record job =
  jb_next :: ptr
  jb_prev :: ptr
  jb_jobid :: "32 word"
  jb_req :: printreq

record worker =
  w_next :: ptr
  w_prev :: ptr
  w_tid :: nat
  w_sockfd :: nat

record printd =
  pd_jobs :: "addr \<Rightarrow> job"
  jobhead :: ptr
  jobtail :: ptr
  jobfd :: cfile
  nextjob :: "32 word"
  pd_workers :: "addr \<Rightarrow> worker"
  workers :: ptr
  pd_brk :: addr
  pd_limit :: addr
  spool :: "string \<rightharpoonup> cbuf"
  fs_deny :: "string \<Rightarrow> int option"
  fs_room :: "string \<Rightarrow> nat"
  reread :: bool
  printer_name :: string
  sock_closed :: "nat set"
  cancelled :: "nat set"

text \<open>
  \<^verbatim>\<open>malloc\<close> hands out addresses not used before, and fails when none is left.
\<close>

definition malloc :: "printd \<Rightarrow> addr option \<times> printd" where
  "malloc d = (if pd_brk d < pd_limit d then (Some (pd_brk d), d\<lparr>pd_brk := Suc (pd_brk d)\<rparr>) else (None, d))"

section \<open>Job numbers\<close>

definition SPOOLDIR :: string where "SPOOLDIR = ''/var/spool/printer''"

definition data_name :: "string \<Rightarrow> string" where "data_name n = SPOOLDIR @ ''/data/'' @ n"
definition req_name :: "string \<Rightarrow> string" where "req_name n = SPOOLDIR @ ''/reqs/'' @ n"

text \<open>\<^verbatim>\<open>%d\<close> of an \<^verbatim>\<open>int32_t\<close>, and the conversion of a \<^verbatim>\<open>long\<close> to it.\<close>

abbreviation dec32 :: "32 word \<Rightarrow> string" where "dec32 w \<equiv> sdec (sint w)"

text \<open>
  The buffer of the file name is used again for the job counter: what \<^verbatim>\<open>read\<close>
  does not overwrite is still the path.
\<close>

definition init_request :: "printd \<Rightarrow> printd_error + printd" where
  "init_request d =
     (let name = SPOOLDIR @ ''/jobno'';
          (r, f) = lock_request (jobfd d) (Some F_WRLCK) 0 0
      in if r < 0 then Inl (Log_quit ''daemon already running'')
         else
      let (bs, f) = os_read f FILENMSZ; n = length bs; d = d\<lparr>jobfd := f\<rparr>
      in if n = 0 then Inr (d\<lparr>nextjob := 1\<rparr>)
         else Inr (d\<lparr>nextjob := word_of_int (atol (bs @ drop n (name @ [NUL])))\<rparr>))"

definition update_jobno :: "printd \<Rightarrow> printd_error + printd" where
  "update_jobno d =
     (let (p, f) = lseek (jobfd d) 0 SEEK_SET
      in if p = - 1 then Inl (Log_sys ''can't seek in job file'')
         else let (n, f) = os_write f (dec32 (nextjob d))
              in if n < 0 then Inl (Log_sys ''can't update job file'')
                 else Inr (d\<lparr>jobfd := f\<rparr>))"

definition get_newjobno :: "printd \<Rightarrow> 32 word \<times> printd" where
  "get_newjobno d =
     (let jobid = nextjob d; n = jobid + 1
      in (jobid, d\<lparr>nextjob := (if sint n \<le> 0 then 1 else n)\<rparr>))"

section \<open>The job queue\<close>

definition jb_set_next :: "addr \<Rightarrow> ptr \<Rightarrow> printd \<Rightarrow> printd" where
  "jb_set_next a p d = d\<lparr>pd_jobs := (pd_jobs d)(a := (pd_jobs d a)\<lparr>jb_next := p\<rparr>)\<rparr>"

definition jb_set_prev :: "addr \<Rightarrow> ptr \<Rightarrow> printd \<Rightarrow> printd" where
  "jb_set_prev a p d = d\<lparr>pd_jobs := (pd_jobs d)(a := (pd_jobs d a)\<lparr>jb_prev := p\<rparr>)\<rparr>"

text \<open>The part of \<^verbatim>\<open>add_job\<close> that runs with \<^verbatim>\<open>joblock\<close> held, on the structure \<open>jp\<close>.\<close>

definition link_job :: "addr \<Rightarrow> printd \<Rightarrow> printd" where
  "link_job jp d =
     (let d = jb_set_next jp None d;
          d = jb_set_prev jp (jobtail d) d;
          d = (case jobtail d of
                 None \<Rightarrow> d\<lparr>jobhead := Some jp\<rparr>
               | Some t \<Rightarrow> jb_set_next t (Some jp) d)
      in d\<lparr>jobtail := Some jp\<rparr>)"

definition add_job :: "printreq \<Rightarrow> 32 word \<Rightarrow> printd \<Rightarrow> printd_error + printd" where
  "add_job reqp jobid d =
     (case malloc d of
        (None, d) \<Rightarrow> Inl (Log_sys ''malloc failed'')
      | (Some jp, d) \<Rightarrow>
          let d = d\<lparr>pd_jobs := (pd_jobs d)(jp := (pd_jobs d jp)\<lparr>jb_req := reqp, jb_jobid := jobid\<rparr>)\<rparr>
          in Inr (link_job jp d))"

definition replace_job :: "addr \<Rightarrow> printd \<Rightarrow> printd" where
  "replace_job jp d =
     (let d = jb_set_prev jp None d;
          d = jb_set_next jp (jobhead d) d;
          d = (case jobhead d of
                 None \<Rightarrow> d\<lparr>jobtail := Some jp\<rparr>
               | Some h \<Rightarrow> jb_set_prev h (Some jp) d)
      in d\<lparr>jobhead := Some jp\<rparr>)"

definition remove_job :: "addr \<Rightarrow> printd \<Rightarrow> printd" where
  "remove_job target d =
     (let d = (case jb_next (pd_jobs d target) of
                 Some n \<Rightarrow> jb_set_prev n (jb_prev (pd_jobs d target)) d
               | None \<Rightarrow> d\<lparr>jobtail := jb_prev (pd_jobs d target)\<rparr>)
      in case jb_prev (pd_jobs d target) of
           Some p \<Rightarrow> jb_set_next p (jb_next (pd_jobs d target)) d
         | None \<Rightarrow> d\<lparr>jobhead := jb_next (pd_jobs d target)\<rparr>)"

section \<open>The spool directory at start-up\<close>

text \<open>One entry of the directory of requests; \<open>fs_deny\<close> is a failing \<^verbatim>\<open>open\<close>.\<close>

definition queue_entry :: "string \<Rightarrow> printd \<Rightarrow> printd_error + printd" where
  "queue_entry d_name d =
     (if d_name = ''.'' \<or> d_name = ''..'' then Inr d
      else case (fs_deny d (req_name d_name), spool d (req_name d_name)) of
             (None, Some bs) \<Rightarrow>
               if length (take REQ_SIZE bs) \<noteq> REQ_SIZE
               then Inr (d\<lparr>spool := (spool d)(req_name d_name := None, data_name d_name := None)\<rparr>)
               else add_job (req_of bs) (word_of_int (atol (d_name @ [NUL]))) d
           | _ \<Rightarrow> Inr d)"

fun build_qonstart :: "string list \<Rightarrow> printd \<Rightarrow> printd_error + printd" where
  "build_qonstart [] d = Inr d"
| "build_qonstart (e # es) d = andthen (queue_entry e d) (build_qonstart es)"

section \<open>Worker threads\<close>

definition w_set_next :: "addr \<Rightarrow> ptr \<Rightarrow> printd \<Rightarrow> printd" where
  "w_set_next a p d = d\<lparr>pd_workers := (pd_workers d)(a := (pd_workers d a)\<lparr>w_next := p\<rparr>)\<rparr>"

definition w_set_prev :: "addr \<Rightarrow> ptr \<Rightarrow> printd \<Rightarrow> printd" where
  "w_set_prev a p d = d\<lparr>pd_workers := (pd_workers d)(a := (pd_workers d a)\<lparr>w_prev := p\<rparr>)\<rparr>"

text \<open>\<open>None\<close>: no memory, the thread ends.  When the list is not empty, only the old
  front is told of the new structure; \<^verbatim>\<open>workers\<close> is not assigned.\<close>

definition add_worker :: "nat \<Rightarrow> nat \<Rightarrow> printd \<Rightarrow> printd option" where
  "add_worker tid sockfd d =
     (case malloc d of
        (None, d) \<Rightarrow> None
      | (Some wtp, d) \<Rightarrow>
          let d = d\<lparr>pd_workers := (pd_workers d)(wtp := \<lparr>w_next = workers d, w_prev = None, w_tid = tid, w_sockfd = sockfd\<rparr>)\<rparr>
          in Some (case workers d of
                     None \<Rightarrow> d\<lparr>workers := Some wtp\<rparr>
                   | Some w \<Rightarrow> w_set_prev w (Some wtp) d))"

partial_function (option) kill_loop :: "printd \<Rightarrow> ptr \<Rightarrow> nat set \<Rightarrow> (nat set) option" where
  "kill_loop d wtp tids =
     (case wtp of
        None \<Rightarrow> Some tids
      | Some w \<Rightarrow> kill_loop d (w_next (pd_workers d w)) (insert (w_tid (pd_workers d w)) tids))"

declare kill_loop.simps [code]

definition kill_workers :: "printd \<Rightarrow> printd option" where
  "kill_workers d = map_option (\<lambda>tids. d\<lparr>cancelled := tids\<rparr>) (kill_loop d (workers d) (cancelled d))"

partial_function (option) find_worker :: "printd \<Rightarrow> nat \<Rightarrow> ptr \<Rightarrow> ptr option" where
  "find_worker d tid wtp =
     (case wtp of
        None \<Rightarrow> Some None
      | Some w \<Rightarrow> if w_tid (pd_workers d w) = tid then Some wtp
                 else find_worker d tid (w_next (pd_workers d w)))"

declare find_worker.simps [code]

definition client_cleanup :: "nat \<Rightarrow> printd \<Rightarrow> printd option" where
  "client_cleanup tid d =
     map_option (\<lambda>wtp.
       case wtp of
         None \<Rightarrow> d
       | Some w \<Rightarrow>
           let d = (case w_next (pd_workers d w) of
                      Some n \<Rightarrow> w_set_prev n (w_prev (pd_workers d w)) d
                    | None \<Rightarrow> d);
               d = (case w_prev (pd_workers d w) of
                      Some p \<Rightarrow> w_set_next p (w_next (pd_workers d w)) d
                    | None \<Rightarrow> d\<lparr>workers := w_next (pd_workers d w)\<rparr>)
           in d\<lparr>sock_closed := insert (w_sockfd (pd_workers d w)) (sock_closed d)\<rparr>)
     (find_worker d tid (workers d))"

section \<open>Accepting a job from a client\<close>

text \<open>Files of the spool directory: \<open>fs_deny\<close> is the error of a failing \<^verbatim>\<open>creat\<close>, \<open>fs_room\<close>
  the number of bytes a file can take before the disk is full.\<close>

abbreviation ENOSPC :: int where "ENOSPC \<equiv> 28"

definition creat :: "string \<Rightarrow> printd \<Rightarrow> int + printd" where
  "creat name d = (case fs_deny d name of Some e \<Rightarrow> Inl e | None \<Rightarrow> Inr (d\<lparr>spool := (spool d)(name \<mapsto> [])\<rparr>))"

definition fs_write :: "string \<Rightarrow> cbuf \<Rightarrow> printd \<Rightarrow> int \<times> printd" where
  "fs_write name bs d =
     (let old = (case spool d name of None \<Rightarrow> [] | Some o' \<Rightarrow> o'); w = take (fs_room d name - length old) bs
      in if w = [] \<and> bs \<noteq> [] then (- 1, d)
         else (int (length w), d\<lparr>spool := (spool d)(name \<mapsto> old @ w)\<rparr>))"

definition fs_unlink :: "string \<Rightarrow> printd \<Rightarrow> printd" where
  "fs_unlink name d = d\<lparr>spool := (spool d)(name := None)\<rparr>"

text \<open>The response on an error; the message is that of the byte-swapped error number.\<close>

definition fail_reply :: "(int \<Rightarrow> string) \<Rightarrow> int \<Rightarrow> conn \<Rightarrow> conn" where
  "fail_reply strerror errno c =
     (let retcode = htonl (word_of_int errno)
      in snd (cwrite c (resp_bytes \<lparr>rs_retcode = retcode, rs_jobid = 0, rs_msg = strerror (sint retcode)\<rparr>)))"

fun in_size :: "event list \<Rightarrow> nat" where
  "in_size [] = 0"
| "in_size (Bytes bs # es) = Suc (length bs) + in_size es"
| "in_size (e # es) = Suc (in_size es)"

lemma tread_in_size: "tread c n = (Rd bs, c') \<Longrightarrow> 0 < length bs \<Longrightarrow> in_size (c_in c') < in_size (c_in c)"
  by (auto simp: tread.simps split: list.splits event.splits if_splits)

text \<open>The loop that copies the file to the spool directory; \<open>junk\<close> is what the buffer
  holds before the first read.  The first component is the error number of a failed write.\<close>

function spool_loop :: "cbuf \<Rightarrow> string \<Rightarrow> bool \<Rightarrow> 32 word \<Rightarrow> conn \<Rightarrow> printd \<Rightarrow> int option \<times> 32 word \<times> conn \<times> printd" where
  "spool_loop junk name first flags c d =
     (case tread c IOBUFSZ of
        (Rd_err e, c) \<Rightarrow> (None, flags, c, d)
      | (Rd bs, c) \<Rightarrow>
          if length bs = 0 then (None, flags, c, d)
          else
            let flags = (if first \<and> take 4 (bs @ drop (length bs) junk) \<noteq> ''%!PS'' then or flags PR_TEXT else flags);
                (nw, d) = fs_write name bs d
            in if nw \<noteq> int (length bs)
               then (Some (if nw < 0 then ENOSPC else EIO), flags, c, d)
               else spool_loop junk name False flags c d)"
  by auto
termination
  by (relation "measure (\<lambda>(junk, name, first, flags, c, d). in_size (c_in c))") (auto dest: tread_in_size [OF sym])

declare spool_loop.simps [simp del]

text \<open>The body of \<^verbatim>\<open>client_thread\<close> between the registration of the worker and its
  cleanup: the value with which the thread exits, the connection and the state.\<close>

definition client_body :: "(int \<Rightarrow> string) \<Rightarrow> cbuf \<Rightarrow> conn \<Rightarrow> printd \<Rightarrow> printd_error + (int \<times> conn \<times> printd)" where
  "client_body strerror junk c d =
     (case treadn c REQ_SIZE of
        (Rd_err e, c) \<Rightarrow> Inr (1, fail_reply strerror e c, d)
      | (Rd bs, c) \<Rightarrow>
      if length bs \<noteq> REQ_SIZE then Inr (1, fail_reply strerror EIO c, d)
      else
      let req = req_of bs;
          req = req\<lparr>pr_size := ntohl (pr_size req), pr_flags := ntohl (pr_flags req)\<rparr>;
          (jobid, d) = get_newjobno d;
          dname = data_name (dec32 jobid); rname = req_name (dec32 jobid)
      in case creat dname d of
           Inl e \<Rightarrow> Inr (1, fail_reply strerror e c, d)
         | Inr d \<Rightarrow>
      (case spool_loop junk dname True (pr_flags req) c d of
         (Some e, _, c, d) \<Rightarrow> Inr (1, fail_reply strerror e c, fs_unlink dname d)
       | (None, flags, c, d) \<Rightarrow>
      let req = req\<lparr>pr_flags := flags\<rparr>
      in case creat rname d of
           Inl e \<Rightarrow> Inr (1, fail_reply strerror e c, fs_unlink dname d)
         | Inr d \<Rightarrow>
      let (nw, d) = fs_write rname (req_bytes req) d
      in if nw \<noteq> int REQ_SIZE
         then Inr (1, fail_reply strerror (if nw < 0 then ENOSPC else EIO) c, fs_unlink dname (fs_unlink rname d))
         else
      let c = snd (cwrite c (resp_bytes \<lparr>rs_retcode = 0, rs_jobid = htonl jobid, rs_msg = ''request ID '' @ dec32 jobid\<rparr>))
      in andthen (add_job req jobid d) (\<lambda>d. Inr (0, c, d))))"

definition cleanup :: "nat \<Rightarrow> int \<times> conn \<times> printd \<Rightarrow> printd_error + (int \<times> conn \<times> printd)" where
  "cleanup tid r = (case r of (v, c, d) \<Rightarrow>
     case client_cleanup tid d of None \<Rightarrow> Inl Never_ends | Some d \<Rightarrow> Inr (v, c, d))"

definition client_thread :: "(int \<Rightarrow> string) \<Rightarrow> cbuf \<Rightarrow> nat \<Rightarrow> nat \<Rightarrow> conn \<Rightarrow> printd \<Rightarrow>
    printd_error + (int \<times> conn \<times> printd)" where
  "client_thread strerror junk tid sockfd c d =
     (case add_worker tid sockfd d of
        None \<Rightarrow> cleanup tid (1, c, d)
      | Some d \<Rightarrow> andthen (client_body strerror junk c d) (cleanup tid))"

text \<open>One round of \<^verbatim>\<open>signal_thread\<close>.\<close>

datatype signal = SIGHUP | SIGTERM | Other_signal

definition signal_step :: "signal \<Rightarrow> printd \<Rightarrow> printd_error + printd" where
  "signal_step signo d =
     (case signo of
        SIGHUP \<Rightarrow> Inr (d\<lparr>reread := True\<rparr>)
      | SIGTERM \<Rightarrow> (case kill_workers d of None \<Rightarrow> Inl Never_ends | Some d \<Rightarrow> Inl (Exit 0))
      | Other_signal \<Rightarrow> (case kill_workers d of None \<Rightarrow> Inl Never_ends | Some d \<Rightarrow> Inl (Log_quit ''unexpected signal'')))"

end
