(* ===== verification/Printd_Jobs.thy ===== *)
theory Printd_Jobs
  imports Printd_Model
begin

text \<open>
  The job queue and the job numbers of the print daemon: the queue refines a list
  of requests, numbers are handed out without repetition, and the number file
  survives a restart.
\<close>

section \<open>The queue as a list\<close>

definition jq :: "printd \<Rightarrow> addr list \<Rightarrow> bool" where
  "jq d xs \<longleftrightarrow> dll (\<lambda>a. jb_next (pd_jobs d a)) (\<lambda>a. jb_prev (pd_jobs d a)) (jobhead d) (jobtail d) xs"

lemma jb_set_fields [simp]:
  "jb_next (pd_jobs (jb_set_next a p d) b) = (if b = a then p else jb_next (pd_jobs d b))"
  "jb_prev (pd_jobs (jb_set_next a p d) b) = jb_prev (pd_jobs d b)"
  "jb_prev (pd_jobs (jb_set_prev a p d) b) = (if b = a then p else jb_prev (pd_jobs d b))"
  "jb_next (pd_jobs (jb_set_prev a p d) b) = jb_next (pd_jobs d b)"
  "jb_req (pd_jobs (jb_set_next a p d) b) = jb_req (pd_jobs d b)"
  "jb_req (pd_jobs (jb_set_prev a p d) b) = jb_req (pd_jobs d b)"
  "jb_jobid (pd_jobs (jb_set_next a p d) b) = jb_jobid (pd_jobs d b)"
  "jb_jobid (pd_jobs (jb_set_prev a p d) b) = jb_jobid (pd_jobs d b)"
  "jobhead (jb_set_next a p d) = jobhead d" "jobtail (jb_set_next a p d) = jobtail d"
  "jobhead (jb_set_prev a p d) = jobhead d" "jobtail (jb_set_prev a p d) = jobtail d"
  by (simp_all add: jb_set_next_def jb_set_prev_def)

lemma link_fields:
  "jb_prev (pd_jobs (link_job x d) y) = (if y = x then jobtail d else jb_prev (pd_jobs d y))"
  "jb_next (pd_jobs (link_job x d) y) = (if Some y = jobtail d then Some x else if y = x then None else jb_next (pd_jobs d y))"
  "jobtail (link_job x d) = Some x" "jobhead (link_job x d) = (if jobtail d = None then Some x else jobhead d)"
  by (auto simp: link_job_def Let_def split: option.split)

lemma replace_fields:
  "jb_next (pd_jobs (replace_job x d) y) = (if y = x then jobhead d else jb_next (pd_jobs d y))"
  "jb_prev (pd_jobs (replace_job x d) y) = (if Some y = jobhead d then Some x else if y = x then None else jb_prev (pd_jobs d y))"
  "jobhead (replace_job x d) = Some x" "jobtail (replace_job x d) = (if jobhead d = None then Some x else jobtail d)"
  by (auto simp: replace_job_def Let_def split: option.split)

text \<open>What the operations on links leave alone.\<close>

definition same_but_links :: "printd \<Rightarrow> printd \<Rightarrow> bool" where
  "same_but_links d d' \<longleftrightarrow> (\<forall>a. jb_req (pd_jobs d' a) = jb_req (pd_jobs d a) \<and> jb_jobid (pd_jobs d' a) = jb_jobid (pd_jobs d a)) \<and>
     pd_brk d' = pd_brk d \<and> pd_limit d' = pd_limit d \<and> spool d' = spool d \<and> nextjob d' = nextjob d \<and>
     jobfd d' = jobfd d \<and> fs_deny d' = fs_deny d \<and> fs_room d' = fs_room d \<and>
     workers d' = workers d \<and> pd_workers d' = pd_workers d"

lemma links_only [simp]:
  "same_but_links d (link_job x d)" "same_but_links d (replace_job x d)" "same_but_links d (remove_job x d)"
  by (auto simp: same_but_links_def link_job_def replace_job_def remove_job_def Let_def jb_set_next_def jb_set_prev_def
      split: option.splits)

lemma jq_link: "jq d xs \<Longrightarrow> x \<notin> set xs \<Longrightarrow> jq (link_job x d) (xs @ [x])"
proof -
  assume j: "jq d xs" and x: "x \<notin> set xs"
  have "Some x \<noteq> jobtail d" using x dllD(3) [OF j [unfolded jq_def]] last_opt_SomeD by metis
  then show ?thesis using j x unfolding jq_def link_fields by (elim dll_appendI) auto
qed

lemma jq_replace: "jq d xs \<Longrightarrow> x \<notin> set xs \<Longrightarrow> jq (replace_job x d) (x # xs)"
proof -
  assume j: "jq d xs" and x: "x \<notin> set xs"
  have "Some x \<noteq> jobhead d" using x dllD(2) [OF j [unfolded jq_def]] hd_opt_SomeD by metis
  then show ?thesis using j x unfolding jq_def replace_fields by (elim dll_pushI) auto
qed

lemma jq_remove:
  assumes "jq d (a @ x # b)"
  shows "jq (remove_job x d) (a @ b)"
proof -
  let ?nx = "\<lambda>a. jb_next (pd_jobs d a)" and ?pv = "\<lambda>a. jb_prev (pd_jobs d a)"
  note D = assms [unfolded jq_def]
  have px: "?nx x = hd_opt b" "?pv x = last_opt a" using dllD(4,5) [OF D refl] by simp_all
  have dist: "distinct (a @ x # b)" by (rule dllD(1) [OF D])
  have out: "hd_opt b \<noteq> Some x" "last_opt a \<noteq> Some x" using dist by (auto dest: hd_opt_SomeD last_opt_SomeD)
  have f: "jb_next (pd_jobs (remove_job x d) y) = (if Some y = ?pv x then ?nx x else ?nx y)"
    "jb_prev (pd_jobs (remove_job x d) y) = (if Some y = ?nx x then ?pv x else ?pv y)"
    "jobhead (remove_job x d) = (if ?pv x = None then ?nx x else jobhead d)"
    "jobtail (remove_job x d) = (if ?nx x = None then ?pv x else jobtail d)" for y
    using out unfolding remove_job_def Let_def px
    by (cases "last_opt a"; cases "hd_opt b"; auto simp: px)+
  show ?thesis unfolding jq_def f(3,4) by (rule dll_removeI [OF D]) (simp_all only: f(1,2))
qed

interpretation jobq: linked_queue jq link_job replace_job remove_job jobhead
  by unfold_locales (auto simp: jq_link jq_replace jq_remove dest: dllD(2) [OF jq_def [THEN iffD1]])

text \<open>The requests that wait, in the order in which they will be printed.\<close>

definition pending :: "printd \<Rightarrow> (32 word \<times> printreq) list \<Rightarrow> bool" where
  "pending d q \<longleftrightarrow> (\<exists>xs. jq d xs \<and> (\<forall>x \<in> set xs. x < pd_brk d) \<and>
     q = map (\<lambda>a. (jb_jobid (pd_jobs d a), jb_req (pd_jobs d a))) xs)"

lemma same_links_map:
  "same_but_links d d' \<Longrightarrow> map (\<lambda>a. (jb_jobid (pd_jobs d' a), jb_req (pd_jobs d' a))) xs =
     map (\<lambda>a. (jb_jobid (pd_jobs d a), jb_req (pd_jobs d a))) xs"
  by (simp add: same_but_links_def)

lemma add_job_ok:
  assumes "pending d q" "pd_brk d < pd_limit d"
  obtains d' where "add_job r i d = Inr d'" "pending d' (q @ [(i, r)])" "pd_brk d' = Suc (pd_brk d)"
    "pd_limit d' = pd_limit d" "spool d' = spool d" "nextjob d' = nextjob d" "fs_deny d' = fs_deny d"
    "workers d' = workers d" "pd_workers d' = pd_workers d"
proof -
  obtain xs where xs: "jq d xs" "\<forall>x \<in> set xs. x < pd_brk d"
    "q = map (\<lambda>a. (jb_jobid (pd_jobs d a), jb_req (pd_jobs d a))) xs"
    using assms(1) by (auto simp: pending_def)
  let ?jp = "pd_brk d"
  let ?d1 = "d\<lparr>pd_brk := Suc ?jp, pd_jobs := (pd_jobs d)(?jp := (pd_jobs d ?jp)\<lparr>jb_req := r, jb_jobid := i\<rparr>)\<rparr>"
  have new: "?jp \<notin> set xs" using xs(2) by auto
  have "jb_next (pd_jobs ?d1 a) = jb_next (pd_jobs d a)" "jb_prev (pd_jobs ?d1 a) = jb_prev (pd_jobs d a)" for a by simp_all
  then have "jq ?d1 xs" using xs(1) unfolding jq_def by (simp add: fun_upd_def [symmetric] del: fun_upd_apply)
  then have j: "jq (link_job ?jp ?d1) (xs @ [?jp])" using new by (rule jq_link)
  note sb = links_only(1) [of ?d1 ?jp]
  have eq: "add_job r i d = Inr (link_job ?jp ?d1)" using assms(2) by (simp add: add_job_def malloc_def)
  have "map (\<lambda>a. (jb_jobid (pd_jobs ?d1 a), jb_req (pd_jobs ?d1 a))) xs = q" unfolding xs(3) using new by (intro map_cong) auto
  then have "pending (link_job ?jp ?d1) (q @ [(i, r)])"
    unfolding pending_def using j xs(2) same_links_map [OF sb, of "xs @ [?jp]"] sb
    by (intro exI [of _ "xs @ [?jp]"]) (auto simp: same_but_links_def)
  then show ?thesis using that [OF eq] sb by (simp add: same_but_links_def)
qed

lemma pending_links:
  assumes "jq d' xs" "same_but_links d d'" "\<forall>x \<in> set xs. x < pd_brk d"
  shows "pending d' (map (\<lambda>a. (jb_jobid (pd_jobs d a), jb_req (pd_jobs d a))) xs)"
  unfolding pending_def using assms same_links_map [OF assms(2), of xs]
  by (intro exI [of _ xs]) (auto simp: same_but_links_def)

lemma pick_up_ok:
  assumes "pending d ((i, r) # q)"
  obtains jp where "jobhead d = Some jp" "jb_jobid (pd_jobs d jp) = i" "jb_req (pd_jobs d jp) = r" "jp < pd_brk d"
    "pending (remove_job jp d) q"
    "\<And>d'. jq d' = jq (remove_job jp d) \<Longrightarrow> same_but_links d d' \<Longrightarrow> pending (replace_job jp d') ((i, r) # q)"
proof -
  obtain xs where xs: "jq d xs" "\<forall>x \<in> set xs. x < pd_brk d"
    "(i, r) # q = map (\<lambda>a. (jb_jobid (pd_jobs d a), jb_req (pd_jobs d a))) xs"
    using assms by (auto simp: pending_def)
  then obtain jp ys where jp: "xs = jp # ys" "i = jb_jobid (pd_jobs d jp)" "r = jb_req (pd_jobs d jp)"
    "q = map (\<lambda>a. (jb_jobid (pd_jobs d a), jb_req (pd_jobs d a))) ys" by (cases xs) auto
  note h = jobq.detach_head [OF xs(1) [unfolded jp(1)]]
  have fresh: "jp \<notin> set ys" using xs(1) jp(1) dllD(1) unfolding jq_def by (metis distinct.simps(2))
  have again: "pending (replace_job jp d') ((i, r) # q)"
    if "jq d' = jq (remove_job jp d)" "same_but_links d d'" for d'
  proof -
    have "jq (replace_job jp d') (jp # ys)" using h(2) that(1) fresh by (intro jq_replace) simp_all
    moreover have "same_but_links d (replace_job jp d')"
      using that(2) links_only(2) [where d = d' and x = jp] by (simp add: same_but_links_def)
    ultimately show ?thesis using pending_links [of "replace_job jp d'" "jp # ys" d] xs(2) jp by simp
  qed
  show ?thesis
    using that [of jp] h jp xs(2) again pending_links [OF h(2) links_only(3)] by simp
qed

text \<open>C6: The linked list of jobs is a queue: a new job goes to its end, the printer takes
  the job at its front, and a deferred job goes back to the front, so that it is
  printed before the others.\<close>

theorem printd_queue_refines:
  assumes "pending d q"
  shows "(pd_brk d < pd_limit d \<longrightarrow> (\<exists>d'. add_job r i d = Inr d' \<and> pending d' (q @ [(i, r)]))) \<and>
    (case q of
       [] \<Rightarrow> jobhead d = None
     | (i, r) # q' \<Rightarrow> \<exists>jp. jobhead d = Some jp \<and> jb_jobid (pd_jobs d jp) = i \<and> jb_req (pd_jobs d jp) = r \<and>
         pending (remove_job jp d) q' \<and> pending (replace_job jp (remove_job jp d)) q)"
proof (intro conjI impI)
  assume "pd_brk d < pd_limit d"
  from add_job_ok [OF assms this, of r i] show "\<exists>d'. add_job r i d = Inr d' \<and> pending d' (q @ [(i, r)])" by metis
next
  show "case q of [] \<Rightarrow> jobhead d = None
     | (i, r) # q' \<Rightarrow> \<exists>jp. jobhead d = Some jp \<and> jb_jobid (pd_jobs d jp) = i \<and> jb_req (pd_jobs d jp) = r \<and>
         pending (remove_job jp d) q' \<and> pending (replace_job jp (remove_job jp d)) q"
  proof (cases q)
    case Nil
    then show ?thesis using assms jobq.head_law by (auto simp: pending_def)
  next
    case (Cons p q')
    obtain i r where p: "p = (i, r)" by (cases p)
    from pick_up_ok [OF assms [unfolded Cons p]] obtain jp where
      "jobhead d = Some jp" "jb_jobid (pd_jobs d jp) = i" "jb_req (pd_jobs d jp) = r"
      "pending (remove_job jp d) q'" "pending (replace_job jp (remove_job jp d)) ((i, r) # q')"
      by (metis links_only(3))
    then show ?thesis using Cons p by auto
  qed
qed

definition printd0 :: printd where
  "printd0 = \<lparr>pd_jobs = (\<lambda>_. \<lparr>jb_next = None, jb_prev = None, jb_jobid = 0, jb_req = \<lparr>pr_size = 0, pr_flags = 0, pr_usernm = [], pr_jobnm = []\<rparr>\<rparr>),
     jobhead = None, jobtail = None, jobfd = fopened [] 100 (\<lambda>_ _. False), nextjob = 1,
     pd_workers = (\<lambda>_. \<lparr>w_next = None, w_prev = None, w_tid = 0, w_sockfd = 0\<rparr>), workers = None,
     pd_brk = 1, pd_limit = 1000, spool = Map.empty, fs_deny = (\<lambda>_. None), fs_room = (\<lambda>_. 100000),
     reread = False, printer_name = ''printer'', sock_closed = {}, cancelled = {}\<rparr>"

lemma pending_printd0: "pending printd0 []"
  by (auto simp: pending_def printd0_def jq_def dll_def intro: exI [of _ "[]"])

theorem printd_queue_refines_witness:
  "\<exists>d'. add_job (req_of []) 7 printd0 = Inr d' \<and> pending d' [(7, req_of [])]"
  using printd_queue_refines [OF pending_printd0, of "req_of []" 7] by (simp add: printd0_def)

section \<open>Job numbers\<close>

fun job_numbers :: "nat \<Rightarrow> printd \<Rightarrow> 32 word list" where
  "job_numbers 0 d = []"
| "job_numbers (Suc n) d = (let (i, d) = get_newjobno d in i # job_numbers n d)"

abbreviation (input) JOB_MAX :: int where "JOB_MAX \<equiv> 2147483647"

lemma sint_bounds32: "- 2147483648 \<le> sint (w :: 32 word)" "sint (w :: 32 word) \<le> JOB_MAX"
  using sint_greater_eq [of w] sint_less [of w] by simp_all

lemma sint_add1:
  assumes "0 < sint (w :: 32 word)"
  shows "sint (w + 1) = (if sint w = JOB_MAX then - 2147483648 else sint w + 1)"
proof -
  have "sint (w + 1) = signed_take_bit 31 (sint w + 1)" by (simp add: sint_word_add)
  moreover have "signed_take_bit 31 (2147483648 :: int) = - 2147483648" by (simp add: signed_take_bit_eq_take_bit_minus)
  ultimately show ?thesis using assms sint_bounds32 [of w] by (simp add: signed_take_bit_int_eq_self)
qed

lemma newjobno_next:
  assumes "0 < sint (nextjob d)"
  shows "sint (nextjob (snd (get_newjobno d))) = (sint (nextjob d) mod JOB_MAX) + 1"
  using assms sint_add1 [OF assms] sint_bounds32 [of "nextjob d"]
  by (auto simp: get_newjobno_def Let_def)

lemma job_numbers_nth:
  assumes "0 < sint (nextjob d)" "k < n"
  shows "sint (job_numbers n d ! k) = (sint (nextjob d) - 1 + int k) mod JOB_MAX + 1"
  using assms
proof (induction n arbitrary: d k)
  case (Suc n)
  let ?d = "snd (get_newjobno d)" and ?s = "sint (nextjob d)"
  have nx: "sint (nextjob ?d) = ?s mod JOB_MAX + 1" by (rule newjobno_next [OF Suc.prems(1)])
  show ?case
  proof (cases k)
    case 0
    then show ?thesis using Suc.prems(1) sint_bounds32 [of "nextjob d"] by (simp add: get_newjobno_def Let_def)
  next
    case (Suc j)
    have "0 < sint (nextjob ?d)" unfolding nx by (simp add: add.commute pos_mod_sign add_pos_nonneg)
    then have "sint (job_numbers n ?d ! j) = (?s mod JOB_MAX + int j) mod JOB_MAX + 1"
      using Suc.IH [of ?d j] Suc.prems(2) Suc nx by simp
    also have "\<dots> = (?s - 1 + int k) mod JOB_MAX + 1" using Suc by (simp add: mod_simps)
    finally show ?thesis using Suc by (simp add: case_prod_beta)
  qed
qed simp

lemma length_job_numbers [simp]: "length (job_numbers n d) = n"
  by (induction n arbitrary: d) (auto simp: case_prod_beta)

text \<open>Starting from a positive number, the daemon hands out positive job numbers only,
  and the same number again only after all 2147483647 of them were used.\<close>

theorem job_numbers_distinct:
  assumes "0 < sint (nextjob d)" "n \<le> 2147483647"
  shows "distinct (job_numbers n d) \<and> list_all (\<lambda>i. 0 < sint i) (job_numbers n d)"
proof
  note nth = job_numbers_nth [OF assms(1), of _ n]
  show "distinct (job_numbers n d)"
    unfolding distinct_conv_nth
  proof (intro allI impI)
    fix i j assume i: "i < length (job_numbers n d)" and j: "j < length (job_numbers n d)" and "i \<noteq> j"
    have "int i = int j" if "(sint (nextjob d) - 1 + int i) mod JOB_MAX = (sint (nextjob d) - 1 + int j) mod JOB_MAX"
    proof -
      have "JOB_MAX dvd int i - int j" using that by (simp add: mod_eq_dvd_iff algebra_simps)
      moreover have "\<bar>int i - int j\<bar> < JOB_MAX" using i j assms(2) by (simp add: abs_if)
      ultimately show ?thesis by (metis abs_of_pos dvd_imp_le_int eq_iff_diff_eq_0 linorder_not_less zero_less_numeral)
    qed
    then show "job_numbers n d ! i \<noteq> job_numbers n d ! j" using nth [of i] nth [of j] i j \<open>i \<noteq> j\<close> by auto
  qed
  show "list_all (\<lambda>i. 0 < sint i) (job_numbers n d)"
    unfolding list_all_length
  proof (intro allI impI)
    fix k assume "k < length (job_numbers n d)"
    moreover have "0 \<le> (sint (nextjob d) - 1 + int k) mod JOB_MAX" by simp
    ultimately show "0 < sint (job_numbers n d ! k)" using nth [of k] by simp
  qed
qed

theorem job_numbers_distinct_witness:
  "job_numbers 2 (printd0\<lparr>nextjob := 2147483647\<rparr>) = [2147483647, 1] \<and>
   distinct (job_numbers 2 (printd0\<lparr>nextjob := 2147483647\<rparr>))"
  using job_numbers_distinct [of "printd0\<lparr>nextjob := 2147483647\<rparr>" 2]
  by (simp add: printd0_def get_newjobno_def numeral_2_eq_2)

text \<open>A daemon that starts again continues with the job number that was last written
  to the number file, as long as that number was not shorter than the one before.\<close>

theorem jobno_file_roundtrip:
  assumes "0 < sint (nextjob d)" "length (fbytes (jobfd d)) \<le> length (dec32 (nextjob d))"
    and "10 \<le> flimit (jobfd d)" "update_jobno d = Inr d1"
    and "jobfd d2 = fopened (fbytes (jobfd d1)) lim (\<lambda>_ _. False)"
  shows "\<exists>d3. init_request d2 = Inr d3 \<and> nextjob d3 = nextjob d"
proof -
  let ?s = "sint (nextjob d)" and ?path = "SPOOLDIR @ ''/jobno''"
  define k where "k = nat ?s"
  have dec: "dec32 (nextjob d) = dec k" using assms(1) by (simp add: sdec_def k_def)
  have "k < 10 ^ 10" using sint_bounds32 [of "nextjob d"] assms(1) by (simp add: k_def)
  then have len: "length (dec k) \<le> 10" by (intro length_dec_le) auto
  have b: "fbytes (jobfd d1) = dec k"
  proof -
    have sk: "lseek (jobfd d) 0 SEEK_SET = (0, (jobfd d)\<lparr>fpos := 0\<rparr>)" using lseek_set [of "jobfd d" 0] by simp
    have "os_write ((jobfd d)\<lparr>fpos := 0\<rparr>) (dec k) =
        (int (length (dec k)), (jobfd d)\<lparr>fbytes := pwrite (fbytes (jobfd d)) 0 (dec k), fpos := length (dec k)\<rparr>)"
      using len assms(3) by (subst os_write_fits) simp_all
    then have "fbytes (jobfd d1) = pwrite (fbytes (jobfd d)) 0 (dec k)"
      using assms(4) by (auto simp: update_jobno_def sk dec)
    then show ?thesis using assms(2) dec by (simp add: pwrite_def)
  qed
  have rd: "os_read ((fopened (dec k) lim (\<lambda>_ _. False))\<lparr>flocks := L\<rparr>) FILENMSZ =
      (dec k, (fopened (dec k) lim (\<lambda>_ _. False))\<lparr>flocks := L, fpos := length (dec k)\<rparr>)" for L
    using len by (simp add: os_read_def fopened_def pread_def Let_def)
  have ne: "length (dec k) \<noteq> 0" by simp
  have nd: "\<not> isdigit c" if "c \<in> set (?path @ [NUL])" for c
    using that by (auto simp: SPOOLDIR_def isdigit_def)
  have "drop (length (dec k)) (?path @ [NUL]) \<noteq> []" using len by (simp add: SPOOLDIR_def)
  then have "\<not> isdigit (hd (drop (length (dec k)) (?path @ [NUL])))"
    using nd in_set_dropD [OF hd_in_set] by blast
  then have at: "atol (dec k @ drop (length (dec k)) (?path @ [NUL])) = int k" by (intro atol_dec) simp
  have "word_of_int (int k) = nextjob d" using assms(1) by (simp add: k_def)
  then show ?thesis
    using at ne unfolding init_request_def Let_def assms(5) b
    by (simp add: lock_request_def fopened_def [symmetric])
       (simp add: fopened_def rd [unfolded fopened_def, simplified])
qed

theorem jobno_file_roundtrip_witness:
  "\<exists>d1 d3. update_jobno (printd0\<lparr>nextjob := 12, jobfd := fopened ''7'' 100 (\<lambda>_ _. False)\<rparr>) = Inr d1 \<and>
     init_request (printd0\<lparr>jobfd := fopened (fbytes (jobfd d1)) 100 (\<lambda>_ _. False)\<rparr>) = Inr d3 \<and> nextjob d3 = 12"
proof -
  let ?d = "printd0\<lparr>nextjob := 12, jobfd := fopened ''7'' 100 (\<lambda>_ _. False)\<rparr>"
  have dec: "dec32 (nextjob ?d) = ''12''" by (simp add: sdec_def) code_simp
  obtain d1 where "update_jobno ?d = Inr d1"
    by (simp add: update_jobno_def dec [simplified] fopened_def lseek_def os_write_def Let_def)
  moreover have "\<exists>d3. init_request (printd0\<lparr>jobfd := fopened (fbytes (jobfd d1)) 100 (\<lambda>_ _. False)\<rparr>) = Inr d3 \<and>
      nextjob d3 = nextjob ?d"
    by (rule jobno_file_roundtrip [OF _ _ _ calculation])
       (simp_all add: dec [simplified] fopened_def)
  ultimately show ?thesis by auto
qed

end
