(* ===== verification/Printd_Spool.thy ===== *)
theory Printd_Spool
  imports Printd_Jobs
begin

text \<open>
  What the client threads of the print daemon leave in the spool directory: a job
  that is accepted is stored completely and queued, a job that is refused leaves
  nothing, and after a restart the stored requests are queued again.  The list of
  worker threads, on the other hand, loses workers.
\<close>

section \<open>Requests as bytes\<close>

definition req_ok :: "printreq \<Rightarrow> bool" where
  "req_ok r \<longleftrightarrow> length (pr_usernm r) = USERNM_MAX \<and> length (pr_jobnm r) = JOBNM_MAX"

lemma length_req_bytes: "req_ok r \<Longrightarrow> length (req_bytes r) = REQ_SIZE"
  by (simp add: req_ok_def req_bytes_def)

lemma req_of_bytes: "req_ok r \<Longrightarrow> req_of (req_bytes r) = r"
  by (cases r) (simp add: req_ok_def req_bytes_def req_of_def drop_Cons')

lemma req_of_ok: "length bs = REQ_SIZE \<Longrightarrow> req_ok (req_of bs)"
  by (simp add: req_ok_def req_of_def)

section \<open>The copy loop\<close>

text \<open>What a client sends up to the end of the stream, a timeout or an error.\<close>

fun payload :: "event list \<Rightarrow> cbuf" where
  "payload (Bytes bs # es) = (if bs = [] then [] else bs @ payload es)"
| "payload _ = []"

lemma payload_tread:
  assumes "tread c (Suc n) = (Rd bs, c')" "bs \<noteq> []"
  shows "payload (c_in c) = bs @ payload (c_in c')"
proof (cases "c_in c")
  case Nil
  with assms show ?thesis by (simp add: tread.simps)
next
  case (Cons e es)
  with assms show ?thesis
    by (cases e) (auto simp: tread.simps split: if_splits simp flip: append_assoc)
qed

lemma payload_tread_end:
  assumes "tread c (Suc n) = (r, c')" "r = Rd [] \<or> (\<exists>e. r = Rd_err e)"
  shows "payload (c_in c) = []"
proof (cases "c_in c")
  case (Cons e es)
  with assms show ?thesis by (cases e) (auto simp: tread.simps split: if_splits)
qed simp

definition only_spool :: "string \<Rightarrow> printd \<Rightarrow> printd \<Rightarrow> bool" where
  "only_spool name d d' \<longleftrightarrow> (\<exists>v. d' = d\<lparr>spool := (spool d)(name := v)\<rparr>)"

lemma only_spool_refl: "only_spool name d d"
  unfolding only_spool_def by (intro exI [of _ "spool d name"]) simp

lemma only_spool_trans: "only_spool n a b \<Longrightarrow> only_spool n b c \<Longrightarrow> only_spool n a c"
  by (auto simp: only_spool_def)

lemma fs_write_only: "fs_write name bs d = (n, d') \<Longrightarrow> only_spool name d d'"
  using only_spool_refl [of name d] by (auto simp: fs_write_def Let_def only_spool_def split: if_splits)

lemma fs_write_fits:
  assumes "spool d name = Some old" "length old + length bs \<le> fs_room d name"
  shows "fs_write name bs d = (int (length bs), d\<lparr>spool := (spool d)(name \<mapsto> old @ bs)\<rparr>)"
  using assms by (cases bs) (auto simp: fs_write_def Let_def)

lemma spool_loop_only:
  "spool_loop junk name first flags c d = (r, fl, c', d') \<Longrightarrow> only_spool name d d'"
proof (induction "in_size (c_in c)" arbitrary: c d first flags rule: less_induct)
  case less
  obtain t c1 where t: "tread c IOBUFSZ = (t, c1)" by (cases "tread c IOBUFSZ")
  show ?case
  proof (cases "\<exists>bs. t = Rd bs \<and> bs \<noteq> []")
    case True
    then obtain bs where bs: "t = Rd bs" "bs \<noteq> []" by blast
    obtain nw d1 where w: "fs_write name bs d = (nw, d1)" by (cases "fs_write name bs d")
    have d1: "only_spool name d d1" by (rule fs_write_only [OF w])
    have dec: "in_size (c_in c1) < in_size (c_in c)" using tread_in_size [of c IOBUFSZ bs c1] t bs by simp
    let ?fl = "if first \<and> take 4 (bs @ drop (length bs) junk) \<noteq> ''%!PS'' then or flags PR_TEXT else flags"
    have eq: "spool_loop junk name first flags c d =
        (if nw \<noteq> int (length bs) then (Some (if nw < 0 then ENOSPC else EIO), ?fl, c1, d1)
         else spool_loop junk name False ?fl c1 d1)"
      using t bs w by (subst spool_loop.simps) simp
    show ?thesis
    proof (cases "nw = int (length bs)")
      case True
      then have "only_spool name d1 d'" using less.prems eq by (intro less.hyps [OF dec]) simp
      with d1 show ?thesis by (rule only_spool_trans)
    next
      case False
      then show ?thesis using less.prems eq d1 by simp
    qed
  next
    case False
    then have "spool_loop junk name first flags c d = (None, flags, c1, d)"
      using t by (subst spool_loop.simps) (cases t; simp)
    then show ?thesis using less.prems only_spool_refl by simp
  qed
qed

lemma spool_loop_all:
  assumes "spool d name = Some old" "length old + length (payload (c_in c)) \<le> fs_room d name"
  shows "\<exists>fl c'. spool_loop junk name first flags c d =
    (None, fl, c', d\<lparr>spool := (spool d)(name \<mapsto> old @ payload (c_in c))\<rparr>) \<and> c_out c' = c_out c \<and> c_room c' = c_room c"
  using assms
proof (induction "in_size (c_in c)" arbitrary: c d old first flags rule: less_induct)
  case less
  obtain r c1 where t: "tread c IOBUFSZ = (r, c1)" by (cases "tread c IOBUFSZ")
  have o: "c_out c1 = c_out c" "c_room c1 = c_room c" using tread_out [OF t] by simp_all
  show ?case
  proof (cases "\<exists>bs. r = Rd bs \<and> bs \<noteq> []")
    case True
    then obtain bs where bs: "r = Rd bs" "bs \<noteq> []" by blast
    have p: "payload (c_in c) = bs @ payload (c_in c1)" using payload_tread [of c "IOBUFSZ - 1" bs c1] t bs by simp
    let ?d1 = "d\<lparr>spool := (spool d)(name \<mapsto> old @ bs)\<rparr>"
    have w: "fs_write name bs d = (int (length bs), ?d1)" using less.prems p by (intro fs_write_fits) simp_all
    have dec: "in_size (c_in c1) < in_size (c_in c)" using tread_in_size [of c IOBUFSZ bs c1] t bs by simp
    have pre: "spool ?d1 name = Some (old @ bs)" "length (old @ bs) + length (payload (c_in c1)) \<le> fs_room ?d1 name"
      using less.prems(2) p by simp_all
    let ?fl = "if first \<and> take 4 (bs @ drop (length bs) junk) \<noteq> ''%!PS'' then or flags PR_TEXT else flags"
    have step: "spool_loop junk name first flags c d = spool_loop junk name False ?fl c1 ?d1"
      using t bs w by (subst spool_loop.simps) simp
    obtain fl c' where "spool_loop junk name False ?fl c1 ?d1 =
        (None, fl, c', ?d1\<lparr>spool := (spool ?d1)(name \<mapsto> (old @ bs) @ payload (c_in c1))\<rparr>)"
      "c_out c' = c_out c1" "c_room c' = c_room c1"
      using less.hyps [OF dec pre] by blast
    then show ?thesis unfolding step p using o by simp
  next
    case False
    then have "r = Rd [] \<or> (\<exists>e. r = Rd_err e)" by (cases r) auto
    then have "payload (c_in c) = []" "spool_loop junk name first flags c d = (None, flags, c1, d)"
      using payload_tread_end [of c "IOBUFSZ - 1" r c1] t by (auto simp: spool_loop.simps [of _ _ _ _ c])
    then show ?thesis using less.prems(1) o by (auto simp: fun_upd_idem)
  qed
qed

section \<open>Accepted and refused jobs\<close>

lemma spool_names [simp]: "data_name n \<noteq> req_name m" "req_name m \<noteq> data_name n"
  "data_name n = data_name m \<longleftrightarrow> n = m" "req_name n = req_name m \<longleftrightarrow> n = m"
  by (auto simp: data_name_def req_name_def)

lemma pending_upd [simp]:
  "pending (d\<lparr>spool := s\<rparr>) q = pending d q" "pending (d\<lparr>nextjob := n\<rparr>) q = pending d q"
  by (simp_all add: pending_def jq_def)

definition accept_reply :: "32 word \<Rightarrow> cbuf" where
  "accept_reply i = resp_bytes \<lparr>rs_retcode = 0, rs_jobid = htonl i, rs_msg = ''request ID '' @ dec32 i\<rparr>"

lemma client_accepts:
  assumes q: "pending d q" and hdr: "treadn c REQ_SIZE = (Rd bs, c1)" "length bs = REQ_SIZE"
    and env: "fs_deny d = (\<lambda>_. None)" "pd_brk d < pd_limit d"
    and room: "length (payload (c_in c1)) \<le> fs_room d (data_name (dec32 (nextjob d)))"
      "REQ_SIZE \<le> fs_room d (req_name (dec32 (nextjob d)))"
  obtains c' c3 d' req where "client_body strerror junk c d = Inr (0, c', d')"
    "spool d' = (spool d)(data_name (dec32 (nextjob d)) \<mapsto> payload (c_in c1), req_name (dec32 (nextjob d)) \<mapsto> req_bytes req)"
    "pending d' (q @ [(nextjob d, req)])"
    "pr_size req = ntohl (get32 bs)" "pr_usernm req = pr_usernm (req_of bs)" "pr_jobnm req = pr_jobnm (req_of bs)"
    "c' = snd (cwrite c3 (accept_reply (nextjob d)))" "c_out c3 = c_out c1" "c_room c3 = c_room c1"
proof -
  let ?i = "nextjob d"
  let ?dn = "data_name (dec32 ?i)" and ?rn = "req_name (dec32 ?i)"
  let ?req0 = "(req_of bs)\<lparr>pr_size := ntohl (pr_size (req_of bs)), pr_flags := ntohl (pr_flags (req_of bs))\<rparr>"
  obtain d1 where g: "get_newjobno d = (?i, d1)" and d1: "\<exists>n. d1 = d\<lparr>nextjob := n\<rparr>"
    by (auto simp: get_newjobno_def Let_def)
  have f1: "fs_deny d1 = (\<lambda>_. None)" "fs_room d1 = fs_room d" "spool d1 = spool d" "pending d1 q"
    "pd_brk d1 = pd_brk d" "pd_limit d1 = pd_limit d"
    using d1 env(1) q by auto
  let ?d2 = "d1\<lparr>spool := (spool d)(?dn \<mapsto> [])\<rparr>"
  have c2: "creat ?dn d1 = Inr ?d2" using f1 by (simp add: creat_def)
  obtain fl c3 where l: "spool_loop junk ?dn True (pr_flags ?req0) c1 ?d2 =
      (None, fl, c3, ?d2\<lparr>spool := (spool ?d2)(?dn \<mapsto> [] @ payload (c_in c1))\<rparr>)"
    and o: "c_out c3 = c_out c1" "c_room c3 = c_room c1"
    using spool_loop_all [of ?d2 ?dn "[]" c1 junk True "pr_flags ?req0"] room(1) f1 by auto
  let ?d3 = "d1\<lparr>spool := (spool d)(?dn \<mapsto> payload (c_in c1))\<rparr>"
  have l3: "spool_loop junk ?dn True (pr_flags ?req0) c1 ?d2 = (None, fl, c3, ?d3)" using l by simp
  let ?req = "?req0\<lparr>pr_flags := fl\<rparr>"
  let ?d4 = "d1\<lparr>spool := (spool d)(?dn \<mapsto> payload (c_in c1), ?rn \<mapsto> [])\<rparr>"
  have c4: "creat ?rn ?d3 = Inr ?d4" using f1 by (simp add: creat_def)
  have len: "length (req_bytes ?req) = REQ_SIZE"
    by (rule length_req_bytes) (use req_of_ok [OF hdr(2)] in \<open>simp add: req_ok_def\<close>)
  let ?d5 = "d1\<lparr>spool := (spool d)(?dn \<mapsto> payload (c_in c1), ?rn \<mapsto> req_bytes ?req)\<rparr>"
  have w: "fs_write ?rn (req_bytes ?req) ?d4 = (int REQ_SIZE, ?d5)"
    using fs_write_fits [of ?d4 ?rn "[]" "req_bytes ?req"] len room(2) f1 by simp
  have "pending ?d5 q" "pd_brk ?d5 < pd_limit ?d5" using f1 env by simp_all
  then obtain d6 where a: "add_job ?req ?i ?d5 = Inr d6" "pending d6 (q @ [(?i, ?req)])" "spool d6 = spool ?d5"
    by (rule add_job_ok)
  have "client_body strerror junk c d = Inr (0, snd (cwrite c3 (accept_reply ?i)), d6)"
    unfolding client_body_def Let_def hdr(1) prod.case rd.case g c2 sum.case l3 option.case c4 w accept_reply_def
    using hdr(2) a(1) by (simp add: Let_def)
  then show thesis using a(2,3) o by (intro that [where req = ?req and ?c3.0 = c3]) (simp_all add: req_of_def)
qed

text \<open>A client whose request header arrives and whose files can be written is served:
  the thread ends with 0, the data file holds exactly what was sent, the request
  file holds the request, and the job stands at the end of the queue under the
  number it was given.\<close>

theorem client_job_accepted:
  assumes q: "pending d q" and hdr: "treadn c REQ_SIZE = (Rd bs, c1)" "length bs = REQ_SIZE"
    and env: "fs_deny d = (\<lambda>_. None)" "pd_brk d < pd_limit d"
    and room: "length (payload (c_in c1)) \<le> fs_room d (data_name (dec32 (nextjob d)))"
      "REQ_SIZE \<le> fs_room d (req_name (dec32 (nextjob d)))"
  shows "\<exists>c' d' req. client_body strerror junk c d = Inr (0, c', d') \<and>
    spool d' = (spool d)(data_name (dec32 (nextjob d)) \<mapsto> payload (c_in c1), req_name (dec32 (nextjob d)) \<mapsto> req_bytes req) \<and>
    pending d' (q @ [(nextjob d, req)]) \<and>
    pr_size req = ntohl (get32 bs) \<and> pr_usernm req = pr_usernm (req_of bs) \<and> pr_jobnm req = pr_jobnm (req_of bs)"
  by (rule client_accepts [OF assms]) blast

definition example_conn :: conn where
  "example_conn = \<lparr>c_in = [Bytes (replicate REQ_SIZE (CHR ''a'')), Bytes ''hi''], c_out = [], c_room = 1000\<rparr>"

lemma example_header:
  "treadn example_conn REQ_SIZE = (Rd (replicate REQ_SIZE (CHR ''a'')), example_conn\<lparr>c_in := [Bytes ''hi'']\<rparr>)"
proof -
  have "tread example_conn REQ_SIZE = (Rd (replicate REQ_SIZE (CHR ''a'')), example_conn\<lparr>c_in := [Bytes ''hi'']\<rparr>)"
    by (simp add: tread.simps example_conn_def)
  then show ?thesis by (simp add: treadn_def treadn_loop.simps)
qed

theorem client_job_accepted_witness:
  "\<exists>c' d'. client_body (\<lambda>_. []) [] example_conn printd0 = Inr (0, c', d') \<and>
     spool d' (data_name (dec32 1)) = Some ''hi''"
proof -
  have "pending printd0 []" "length (replicate REQ_SIZE (CHR ''a'')) = REQ_SIZE" "fs_deny printd0 = (\<lambda>_. None)"
    "pd_brk printd0 < pd_limit printd0" "nextjob printd0 = 1" "\<And>n. fs_room printd0 n = 100000"
    "payload (c_in (example_conn\<lparr>c_in := [Bytes ''hi'']\<rparr>)) = ''hi''"
    by (rule pending_printd0) (simp_all add: printd0_def)
  then show ?thesis
    using client_job_accepted [OF _ example_header, of printd0 "[]" "\<lambda>_. []" "[]"] by (auto simp del: length_replicate)
qed

lemma creat_only: "creat f d = Inr d' \<Longrightarrow> only_spool f d d'"
  by (auto simp: creat_def only_spool_def split: option.splits)

text \<open>The state a refused client leaves: the job number is used up, and the two files of the job
  are as they were or gone.\<close>

definition withdrawn :: "printd \<Rightarrow> printd \<Rightarrow> bool" where
  "withdrawn d e \<longleftrightarrow> (\<exists>n s. e = d\<lparr>nextjob := n, spool := s\<rparr> \<and> (\<forall>f. s f = spool d f \<or>
     s f = None \<and> f \<in> {data_name (dec32 (nextjob d)), req_name (dec32 (nextjob d))}))"

lemma withdrawnI:
  assumes "\<And>f. s f = spool d f \<or> s f = None \<and> f \<in> {data_name (dec32 (nextjob d)), req_name (dec32 (nextjob d))}"
  shows "withdrawn d (d\<lparr>nextjob := n, spool := s\<rparr>)"
  using assms unfolding withdrawn_def by blast

lemma withdrawn_number: "withdrawn d (d\<lparr>nextjob := n\<rparr>)"
  using withdrawnI [of "spool d" d n] by simp

lemma withdrawn_refl: "withdrawn d d"
  using withdrawn_number [of d "nextjob d"] by simp

lemma withdrawn_data:
  assumes "only_spool (data_name (dec32 (nextjob d))) (d\<lparr>nextjob := n\<rparr>) d3"
  shows "withdrawn d (fs_unlink (data_name (dec32 (nextjob d))) d3)"
proof -
  let ?dn = "data_name (dec32 (nextjob d))"
  have "fs_unlink ?dn d3 = d\<lparr>nextjob := n, spool := (spool d)(?dn := None)\<rparr>"
    using assms by (auto simp: only_spool_def fs_unlink_def)
  then show ?thesis using withdrawnI [of "(spool d)(?dn := None)" d n] by auto
qed

lemma withdrawn_both:
  assumes "only_spool (data_name (dec32 (nextjob d))) (d\<lparr>nextjob := n\<rparr>) d3"
    and "only_spool (req_name (dec32 (nextjob d))) d3 d5"
  shows "withdrawn d (fs_unlink (data_name (dec32 (nextjob d))) (fs_unlink (req_name (dec32 (nextjob d))) d5))"
proof -
  let ?dn = "data_name (dec32 (nextjob d))" and ?rn = "req_name (dec32 (nextjob d))"
  have "fs_unlink ?dn (fs_unlink ?rn d5) = d\<lparr>nextjob := n, spool := (spool d)(?rn := None, ?dn := None)\<rparr>"
    using assms by (auto simp: only_spool_def fs_unlink_def)
  then show ?thesis using withdrawnI [of "(spool d)(?rn := None, ?dn := None)" d n] by auto
qed

lemma client_body_withdrawn:
  assumes "client_body strerror junk c d = Inr (v, c', d')" "v \<noteq> 0"
  shows "withdrawn d d'"
proof -
  let ?dn = "data_name (dec32 (nextjob d))" and ?rn = "req_name (dec32 (nextjob d))"
  obtain n where g: "get_newjobno d = (nextjob d, d\<lparr>nextjob := n\<rparr>)" by (simp add: get_newjobno_def Let_def)
  obtain t c1 where t: "treadn c REQ_SIZE = (t, c1)" by (cases "treadn c REQ_SIZE")
  consider "d' = d" | bs where "t = Rd bs" "length bs = REQ_SIZE"
    using assms(1) t by (cases t) (auto simp: client_body_def split: if_splits)
  then show ?thesis
  proof cases
    case 2
    let ?req0 = "(req_of bs)\<lparr>pr_size := ntohl (pr_size (req_of bs)), pr_flags := ntohl (pr_flags (req_of bs))\<rparr>"
    note body = assms(1) [unfolded client_body_def t 2(1) prod.case rd.case Let_def g]
    show ?thesis
    proof (cases "creat ?dn (d\<lparr>nextjob := n\<rparr>)")
      case (Inl e)
      then show ?thesis using body 2(2) withdrawn_number [of d n] by simp
    next
      case (Inr d2)
      obtain r fl c3 d3 where l: "spool_loop junk ?dn True (pr_flags ?req0) c1 d2 = (r, fl, c3, d3)"
        by (cases "spool_loop junk ?dn True (pr_flags ?req0) c1 d2") auto
      note d3 = only_spool_trans [OF creat_only [OF Inr] spool_loop_only [OF l]]
      show ?thesis
      proof (cases "r = None \<and> (\<exists>d4. creat ?rn d3 = Inr d4)")
        case False
        then have "d' = fs_unlink ?dn d3" using body 2(2) Inr l by (cases r; cases "creat ?rn d3") auto
        then show ?thesis using withdrawn_data [OF d3] by simp
      next
        case True
        then obtain d4 where c4: "creat ?rn d3 = Inr d4" and r: "r = None" by blast
        let ?bs = "req_bytes (?req0\<lparr>pr_flags := fl\<rparr>)"
        obtain nw d5 where w: "fs_write ?rn ?bs d4 = (nw, d5)" by (cases "fs_write ?rn ?bs d4")
        have "nw \<noteq> int REQ_SIZE" using body 2(2) Inr l r c4 w assms(2) by (auto simp: andthen_Inr_iff)
        then have "d' = fs_unlink ?dn (fs_unlink ?rn d5)" using body 2(2) Inr l r c4 w by simp
        then show ?thesis using withdrawn_both [OF d3 only_spool_trans [OF creat_only [OF c4] fs_write_only [OF w]]] by simp
      qed
    qed
  qed (simp add: withdrawn_refl)
qed

text \<open>C8: A client that is refused leaves nothing behind: the queue is unchanged, and of the
  two files of the job none is left, and no other file was touched.\<close>

theorem client_job_refused:
  assumes "pending d q" "client_body strerror junk c d = Inr (v, c', d')" "v \<noteq> 0"
  shows "pending d' q \<and> (\<forall>f. spool d' f = spool d f \<or>
    spool d' f = None \<and> f \<in> {data_name (dec32 (nextjob d)), req_name (dec32 (nextjob d))})"
  using client_body_withdrawn [OF assms(2,3)] assms(1) by (auto simp: withdrawn_def)

theorem client_job_refused_witness:
  "\<exists>c' d'. client_body (\<lambda>_. []) [] (example_conn\<lparr>c_in := [Bytes ''short'', Timeout]\<rparr>) printd0 = Inr (1, c', d') \<and>
     pending d' []"
proof -
  let ?c = "example_conn\<lparr>c_in := [Bytes ''short'', Timeout]\<rparr>"
  have "treadn ?c REQ_SIZE = (Rd ''short'', ?c\<lparr>c_in := []\<rparr>)"
    by (simp add: treadn_def treadn_loop.simps tread.simps)
  then obtain c' where "client_body (\<lambda>_. []) [] ?c printd0 = Inr (1, c', printd0)"
    by (simp add: client_body_def)
  then show ?thesis using client_job_refused [OF pending_printd0, of "\<lambda>_. []" "[]" ?c 1 c' printd0] by auto
qed

section \<open>Restart\<close>

lemma queue_entry_ok:
  assumes "pending d q" "pd_brk d < pd_limit d" "fs_deny d = (\<lambda>_. None)"
    and "0 < sint i" "req_ok r" "spool d (req_name (dec32 i)) = Some (req_bytes r)"
  obtains d' where "queue_entry (dec32 i) d = Inr d'" "pending d' (q @ [(i, r)])" "pd_brk d' = Suc (pd_brk d)"
    "pd_limit d' = pd_limit d" "spool d' = spool d" "fs_deny d' = fs_deny d"
proof -
  have dec: "dec32 i = dec (nat (sint i))" using assms(4) by (simp add: sdec_def)
  have nd: "dec32 i \<noteq> ''.''" "dec32 i \<noteq> ''..''"
    unfolding dec using dec_not_special(3) [of "nat (sint i)"] by (metis list.set_intros(1))+
  have at: "word_of_int (atol (dec32 i @ [NUL])) = i"
    unfolding dec using assms(4) by (subst atol_dec) (simp_all add: isdigit_not)
  obtain d' where a: "add_job r i d = Inr d'" "pending d' (q @ [(i, r)])" "pd_brk d' = Suc (pd_brk d)"
    "pd_limit d' = pd_limit d" "spool d' = spool d" "fs_deny d' = fs_deny d"
    using add_job_ok [OF assms(1,2)] by metis
  have "queue_entry (dec32 i) d = Inr d'"
    using assms(3,6) nd length_req_bytes [OF assms(5)] req_of_bytes [OF assms(5)] at a(1)
    by (simp add: queue_entry_def)
  with a that show ?thesis by blast
qed

text \<open>When the daemon starts again, every request file left in the spool directory is
  queued again as the job it was, under its number, in the order of the directory.\<close>

theorem restart_requeues:
  assumes "pending d []" "fs_deny d = (\<lambda>_. None)" "pd_brk d + length js \<le> pd_limit d"
    and "list_all (\<lambda>(i, r). 0 < sint i \<and> req_ok r \<and> spool d (req_name (dec32 i)) = Some (req_bytes r)) js"
  shows "\<exists>d'. build_qonstart (''.'' # ''..'' # map (\<lambda>(i, r). dec32 i) js) d = Inr d' \<and> pending d' js"
proof -
  have "\<exists>d'. build_qonstart (map (\<lambda>(i, r). dec32 i) js) d = Inr d' \<and> pending d' (q @ js)"
    if "pending d q" "fs_deny d = (\<lambda>_. None)" "pd_brk d + length js \<le> pd_limit d"
      "list_all (\<lambda>(i, r). 0 < sint i \<and> req_ok r \<and> spool d (req_name (dec32 i)) = Some (req_bytes r)) js"
    for q d
    using that
  proof (induction js arbitrary: d q)
    case (Cons j js)
    obtain i r where j: "j = (i, r)" by (cases j)
    obtain d1 where 1: "queue_entry (dec32 i) d = Inr d1" "pending d1 (q @ [(i, r)])" "pd_brk d1 = Suc (pd_brk d)"
      "pd_limit d1 = pd_limit d" "spool d1 = spool d" "fs_deny d1 = fs_deny d"
      using queue_entry_ok [OF Cons.prems(1) _ Cons.prems(2), of i r] Cons.prems(3,4) j by auto
    have "\<exists>d'. build_qonstart (map (\<lambda>(i, r). dec32 i) js) d1 = Inr d' \<and> pending d' ((q @ [(i, r)]) @ js)"
      by (rule Cons.IH [OF 1(2)]) (use 1 Cons.prems in auto)
    then show ?case using 1(1) j by simp
  qed simp
  from this [OF assms] have "\<exists>d'. build_qonstart (map (\<lambda>(i, r). dec32 i) js) d = Inr d' \<and> pending d' js" by simp
  then show ?thesis by (simp add: queue_entry_def)
qed

definition example_req :: printreq where
  "example_req = \<lparr>pr_size = 2, pr_flags = 0, pr_usernm = replicate 64 (CHR ''u''), pr_jobnm = replicate 256 (CHR ''j'')\<rparr>"

theorem restart_requeues_witness:
  "\<exists>d'. build_qonstart (''.'' # ''..'' # map (\<lambda>(i, r). dec32 i) [(7, example_req)])
     (printd0\<lparr>spool := [req_name (dec32 7) \<mapsto> req_bytes example_req]\<rparr>) = Inr d' \<and> pending d' [(7, example_req)]"
  by (rule restart_requeues)
     (simp_all add: pending_printd0, simp_all add: printd0_def req_ok_def example_req_def)

section \<open>Workers\<close>

text \<open>The list of workers loses threads: when a second client is served while the first
  is still active, its worker cannot be reached from the list, so that
  terminating the daemon cancels the first thread only and the cleanup of the
  second neither finds its entry nor closes its socket.\<close>

theorem second_worker_lost:
  assumes "workers d = None" "pd_brk d + 2 \<le> pd_limit d" "t1 \<noteq> t2"
  shows "\<exists>d1 d2 d3. add_worker t1 s1 d = Some d1 \<and> add_worker t2 s2 d1 = Some d2 \<and>
    kill_workers d2 = Some d3 \<and> cancelled d3 = insert t1 (cancelled d) \<and> client_cleanup t2 d2 = Some d2"
proof -
  let ?a = "pd_brk d"
  let ?d1 = "d\<lparr>pd_brk := Suc ?a, pd_workers := (pd_workers d)(?a := \<lparr>w_next = None, w_prev = None, w_tid = t1, w_sockfd = s1\<rparr>),
    workers := Some ?a\<rparr>"
  let ?d2 = "w_set_prev ?a (Some (Suc ?a)) (?d1\<lparr>pd_brk := Suc (Suc ?a), pd_workers := (pd_workers ?d1)
    (Suc ?a := \<lparr>w_next = Some ?a, w_prev = None, w_tid = t2, w_sockfd = s2\<rparr>)\<rparr>)"
  have 1: "add_worker t1 s1 d = Some ?d1" using assms by (simp add: add_worker_def malloc_def)
  have 2: "add_worker t2 s2 ?d1 = Some ?d2" using assms by (simp add: add_worker_def malloc_def)
  have w: "workers ?d2 = Some ?a" "w_next (pd_workers ?d2 ?a) = None" "w_tid (pd_workers ?d2 ?a) = t1" "cancelled ?d2 = cancelled d"
    by (simp_all add: w_set_prev_def)
  have "kill_loop ?d2 (Some ?a) X = Some (insert t1 X)" for X
    using w by (subst kill_loop.simps) (simp, subst kill_loop.simps, simp)
  then have k: "kill_workers ?d2 = Some (?d2\<lparr>cancelled := insert t1 (cancelled d)\<rparr>)"
    unfolding kill_workers_def w(1,4) by simp
  have "find_worker ?d2 t2 (Some ?a) = Some None"
    using w assms(3) by (subst find_worker.simps) (simp, subst find_worker.simps, simp)
  then have "client_cleanup t2 ?d2 = Some ?d2" unfolding client_cleanup_def w(1) by simp
  with 1 2 k show ?thesis
    by (intro exI [of _ ?d1] exI [of _ ?d2] exI [of _ "?d2\<lparr>cancelled := insert t1 (cancelled d)\<rparr>"]) simp
qed

theorem second_worker_lost_witness:
  "\<exists>d1 d2 d3. add_worker 11 5 printd0 = Some d1 \<and> add_worker 12 6 d1 = Some d2 \<and>
    kill_workers d2 = Some d3 \<and> cancelled d3 = {11}"
  using second_worker_lost [of printd0 11 12 5 6] by (auto simp: printd0_def)

end
