(* ===== verification/Printd_Printer.thy ===== *)
theory Printd_Printer
  imports Printd_Spool
begin

text \<open>
  The thread of the print daemon that talks to the printer: the IPP and HTTP
  headers, sending a job, and the parser of the printer's response.  An access
  past the end of a buffer is the error \<open>Overrun\<close>.
\<close>

section \<open>The IPP header\<close>

abbreviation (input) TAG_URI :: nat where "TAG_URI \<equiv> 69"

text \<open>The bytes that \<^verbatim>\<open>add_option\<close> writes at \<^verbatim>\<open>cp\<close>.\<close>

definition add_option :: "nat \<Rightarrow> string \<Rightarrow> string \<Rightarrow> cbuf" where
  "add_option tag optname optval =
     [char_of tag] @ le16 (htons (word_of_nat (length optname))) @ optname @
     le16 (htons (word_of_nat (length optval))) @ optval"





definition CRLF :: string where "CRLF = [CHR 0x0D, CHR 0x0A]"


section \<open>The response of the printer\<close>

text \<open>Reading more data into a buffer that may have to grow; fresh memory holds \<open>junk\<close>.\<close>

definition readmore :: "(nat \<Rightarrow> char) \<Rightarrow> conn \<Rightarrow> cbuf \<Rightarrow> nat \<Rightarrow> nat option \<times> cbuf \<times> conn" where
  "readmore junk c bp off =
     (let bp = (if off \<ge> length bp then bp @ map junk [length bp..<length bp + IOBUFSZ] else bp)
      in case tread c (length bp - off) of
           (Rd bs, c) \<Rightarrow>
             if bs \<noteq> [] then (Some (off + length bs), take off bp @ bs @ drop (off + length bs) bp, c)
             else (None, bp, c)
         | (Rd_err e, c) \<Rightarrow> (None, bp, c))"

function skip_while :: "(char \<Rightarrow> bool) \<Rightarrow> cbuf \<Rightarrow> nat \<Rightarrow> nat option" where
  "skip_while P bp i =
     (if i \<ge> length bp then None else if P (bp ! i) then skip_while P bp (Suc i) else Some i)"
  by auto
termination by (relation "measure (\<lambda>(P, bp, i). length bp - i)") auto

declare skip_while.simps [simp del]

definition to_lower :: "char \<Rightarrow> char" where
  "to_lower c = (let n = of_char c :: nat in if 65 \<le> n \<and> n \<le> 90 then char_of (n + 32) else c)"

fun strncasecmp_at :: "cbuf \<Rightarrow> nat \<Rightarrow> string \<Rightarrow> bool option" where
  "strncasecmp_at bp i [] = Some True"
| "strncasecmp_at bp i (p # ps) =
     (if i \<ge> length bp then None
      else if to_lower (bp ! i) = p then strncasecmp_at bp (Suc i) ps else Some False)"

text \<open>The test \<^verbatim>\<open>*cp == a && *(cp + 1) == b && ...\<close>, which reads no further than it needs.\<close>

fun strncmp_at :: "cbuf \<Rightarrow> nat \<Rightarrow> string \<Rightarrow> bool option" where
  "strncmp_at bp i [] = Some True"
| "strncmp_at bp i (p # ps) =
     (if i \<ge> length bp then None
      else if bp ! i = p then strncmp_at bp (Suc i) ps else Some False)"

text \<open>\<open>Out\<close>: \<^verbatim>\<open>goto out\<close> after a failed read; \<open>Oob\<close>: an access outside the buffer.\<close>

datatype 'a ps = Out conn | Oob | Go 'a

type_synonym ps_state = "conn \<times> cbuf \<times> nat \<times> nat"

text \<open>\<^verbatim>\<open>if (i >= datsz)\<close> get more; the caller adds the end offset that \<^verbatim>\<open>readmore\<close> returns
  to the number of bytes it had.\<close>

definition more_if :: "(nat \<Rightarrow> char) \<Rightarrow> bool \<Rightarrow> ps_state \<Rightarrow> ps_state ps" where
  "more_if junk b st = (case st of (c, bp, i, datsz) \<Rightarrow>
     if b then case readmore junk c bp i of
                 (None, bp, c) \<Rightarrow> Out c
               | (Some nr, bp, c) \<Rightarrow> Go (c, bp, i, datsz + nr)
     else Go st)"

function scan_c :: "cbuf \<Rightarrow> nat \<Rightarrow> nat \<Rightarrow> nat option" where
  "scan_c bp i datsz =
     (if i \<ge> length bp then None
      else if bp ! i = CHR ''C'' \<or> bp ! i = CHR ''c'' \<or> i \<ge> datsz then Some i
      else scan_c bp (Suc i) datsz)"
  by auto
termination by (relation "measure (\<lambda>(bp, i, datsz). length bp - i)") auto

declare scan_c.simps [simp del]

partial_function (option) find_length :: "(nat \<Rightarrow> char) \<Rightarrow> ps_state \<Rightarrow> ps_state ps option" where
  "find_length junk st =
     (case st of (c, bp, i, datsz) \<Rightarrow>
      case scan_c bp i datsz of
        None \<Rightarrow> Some Oob
      | Some i \<Rightarrow>
      case more_if junk (i \<ge> datsz) (c, bp, i, datsz) of
        Out c \<Rightarrow> Some (Out c)
      | Oob \<Rightarrow> Some Oob
      | Go (c, bp, i, datsz) \<Rightarrow>
      case strncasecmp_at bp i ''content-length:'' of
        None \<Rightarrow> Some Oob
      | Some eq \<Rightarrow> if eq then Some (Go (c, bp, i + 15, datsz)) else find_length junk (c, bp, Suc i, datsz))"

declare find_length.simps [code]

text \<open>The search for the blank line that ends the HTTP header, one pass over the data.\<close>

function scan_end :: "cbuf \<Rightarrow> nat \<Rightarrow> nat \<Rightarrow> (bool \<times> nat) option" where
  "scan_end bp i datsz =
     (if i + 2 \<ge> datsz then Some (False, i)
      else case strncmp_at bp i [CHR 0x0A, CHR 0x0D, CHR 0x0A] of
             None \<Rightarrow> None
           | Some eq \<Rightarrow> if eq then Some (True, i + 3) else scan_end bp (Suc i) datsz)"
  by auto
termination by (relation "measure (\<lambda>(bp, i, datsz). datsz - i)") auto

declare scan_end.simps [simp del]

partial_function (option) find_end :: "(nat \<Rightarrow> char) \<Rightarrow> ps_state \<Rightarrow> ps_state ps option" where
  "find_end junk st =
     (case st of (c, bp, i, datsz) \<Rightarrow>
      case scan_end bp i datsz of
        None \<Rightarrow> Some Oob
      | Some (found, i) \<Rightarrow>
      case more_if junk (i \<ge> datsz) (c, bp, i, datsz) of
        Out c \<Rightarrow> Some (Out c)
      | Oob \<Rightarrow> Some Oob
      | Go st \<Rightarrow> if found then Some (Go st) else find_end junk st)"

declare find_end.simps [code]

text \<open>The rest of the response after the header: the IPP status and the request it is for.\<close>

definition ipp_response :: "(nat \<Rightarrow> char) \<Rightarrow> int \<Rightarrow> 32 word \<Rightarrow> ps_state \<Rightarrow> bool ps" where
  "ipp_response junk len jobid st =
     (case st of (c, bp, i, datsz) \<Rightarrow>
      case more_if junk (int datsz - int i < len) st of
        Out c \<Rightarrow> Out c
      | Oob \<Rightarrow> Oob
      | Go (c, bp, i, datsz) \<Rightarrow>
      if i + 8 > length bp then Oob
      else let status = unat (ntohs (get16 (drop (i + 2) bp))); rid = ntohl (get32 (drop (i + 4) bp))
           in Go (rid = jobid \<and> status \<le> 0xff))"

text \<open>Sequencing: a search that never ends is \<open>None\<close>.\<close>

definition ps_then :: "'a ps option \<Rightarrow> ('a \<Rightarrow> 'b ps option) \<Rightarrow> 'b ps option" where
  "ps_then r f =
     (case r of
        None \<Rightarrow> None
      | Some p \<Rightarrow> (case p of Out c \<Rightarrow> Some (Out c) | Oob \<Rightarrow> Some Oob | Go x \<Rightarrow> f x))"

definition oob_then :: "'a option \<Rightarrow> ('a \<Rightarrow> 'b ps option) \<Rightarrow> 'b ps option" where
  "oob_then r f = (case r of None \<Rightarrow> Some Oob | Some x \<Rightarrow> f x)"

text \<open>The status line of the response: the status code and the end of the line, which is
  overwritten with a NUL, or \<open>Bad_format\<close>.\<close>

datatype status = Bad_format | Status int nat cbuf

definition status_code :: "cbuf \<Rightarrow> status ps option" where
  "status_code bp =
     oob_then (skip_while isspace bp 8) (\<lambda>statcode.
     oob_then (skip_while isdigit bp statcode) (\<lambda>cp.
     if cp = statcode then Some (Go Bad_format)
     else let bp = bp[cp := NUL]
          in oob_then (skip_while (\<lambda>x. x \<noteq> CHR 0x0D \<and> x \<noteq> CHR 0x0A) bp (Suc cp)) (\<lambda>cp.
             let bp = bp[cp := NUL]
             in Some (Go (Status (atol (drop statcode bp)) cp bp)))))"

text \<open>A successful HTTP response: the length of the content, the end of the header, the
  IPP response.\<close>

definition http_success :: "(nat \<Rightarrow> char) \<Rightarrow> 32 word \<Rightarrow> ps_state \<Rightarrow> bool ps option" where
  "http_success junk jobid st =
     ps_then (find_length junk st) (\<lambda>(c, bp, i, datsz).
     oob_then (skip_while isspace bp i) (\<lambda>contentlen.
     oob_then (skip_while isdigit bp contentlen) (\<lambda>cp.
     let bp = bp[cp := NUL]; i = Suc cp; len = atol (drop contentlen bp)
     in ps_then (Some (more_if junk (i \<ge> datsz) (c, bp, i, datsz))) (\<lambda>st.
        ps_then (find_end junk st) (\<lambda>st.
        Some (ipp_response junk len jobid st))))))"

text \<open>One response: \<open>Again\<close> when the loop goes on to read another one.\<close>

datatype verdict = Again cbuf | Verdict bool

definition one_response :: "(nat \<Rightarrow> char) \<Rightarrow> 32 word \<Rightarrow> conn \<Rightarrow> cbuf \<Rightarrow> nat \<Rightarrow> verdict ps option" where
  "one_response junk jobid c bp datsz =
     ps_then (status_code bp) (\<lambda>s.
     case s of
       Bad_format \<Rightarrow> Some (Go (Again bp))
     | Status code cp bp \<Rightarrow>
         if 100 \<le> code \<and> code \<le> 199 then Some (Go (Again bp))
         else if \<not> (200 \<le> code \<and> code \<le> 299)
         then if datsz \<ge> length bp then Some Oob else Some (Go (Verdict False))
         else ps_then (http_success junk jobid (c, bp, cp, datsz)) (\<lambda>ok. Some (Go (Verdict ok))))"

text \<open>The result is whether the printer accepted the job.\<close>

partial_function (option) status_loop :: "(nat \<Rightarrow> char) \<Rightarrow> 32 word \<Rightarrow> conn \<Rightarrow> cbuf \<Rightarrow> (printd_error + bool) option" where
  "status_loop junk jobid c bp =
     (case tread c (length bp) of (r, c) \<Rightarrow>
      case r of
        Rd_err e \<Rightarrow> Some (Inr False)
      | Rd bs \<Rightarrow>
      if bs = [] then Some (Inr False)
      else case one_response junk jobid c (bs @ drop (length bs) bp) (length bs) of
             None \<Rightarrow> None
           | Some p \<Rightarrow>
             (case p of
                Out c \<Rightarrow> Some (Inr False)
              | Oob \<Rightarrow> Some (Inl (Overrun ''printer_status''))
              | Go v \<Rightarrow> (case v of Verdict ok \<Rightarrow> Some (Inr ok) | Again bp \<Rightarrow> status_loop junk jobid c bp)))"

declare status_loop.simps [code]

definition printer_status :: "(nat \<Rightarrow> char) \<Rightarrow> 32 word \<Rightarrow> conn \<Rightarrow> printd_error + bool" where
  "printer_status junk jobid c =
     (case status_loop junk jobid c (map junk [0..<IOBUFSZ]) of None \<Rightarrow> Inl Never_ends | Some r \<Rightarrow> r)"

section \<open>Sending a job\<close>







section \<open>Properties\<close>

text \<open>Reading an attribute back, as a receiver does.\<close>

definition parse_option :: "cbuf \<Rightarrow> (nat \<times> string \<times> string \<times> cbuf)" where
  "parse_option b =
     (let tag = of_char (b ! 0); n = unat (ntohs (get16 (drop 1 b))); nm = take n (drop 3 b);
          b2 = drop (3 + n) b; m = unat (ntohs (get16 b2))
      in (tag, nm, take m (drop 2 b2), drop (2 + m) b2))"

text \<open>An attribute of the IPP header is read back as the tag, name and value it was made
  from, and what follows it is found right after it.\<close>

theorem add_option_roundtrip:
  assumes "tag < 256" "length optname < 65536" "length optval < 65536"
  shows "parse_option (add_option tag optname optval @ rest) = (tag, optname, optval, rest)"
proof -
  have u: "unat (word_of_nat (length optname) :: 16 word) = length optname"
    "unat (word_of_nat (length optval) :: 16 word) = length optval"
    using assms by (simp_all add: unat_of_nat)
  have d: "drop (3 + length optname) (add_option tag optname optval @ rest) =
      le16 (htons (word_of_nat (length optval))) @ optval @ rest"
    by (simp add: add_option_def numeral_3_eq_3)
  have g: "get16 (drop 1 (add_option tag optname optval @ rest)) = htons (word_of_nat (length optname))"
    by (simp add: add_option_def)
  show ?thesis
    using assms(1) unfolding parse_option_def Let_def g htons_htons u d get16_le16 by (simp add: add_option_def u)
qed

theorem add_option_roundtrip_witness:
  "parse_option (add_option TAG_URI ''printer-uri'' ''http://laser/ipp'' @ ''x'') = (TAG_URI, ''printer-uri'', ''http://laser/ipp'', ''x'')"
  by (rule add_option_roundtrip) simp_all

text \<open>What happens between picking up a job and sending it touches neither the queue nor the spool.\<close>

abbreviation aside :: "cfile \<Rightarrow> bool \<Rightarrow> string \<Rightarrow> printd \<Rightarrow> printd" where
  "aside f b n d \<equiv> d\<lparr>jobfd := f, reread := b, printer_name := n\<rparr>"

lemma aside_pending: "pending (aside f b n d) q = pending d q"
  by (simp add: pending_def jq_def)

lemma aside_replace: "replace_job jp (aside f b n d) = aside f b n (replace_job jp d)"
  by (simp add: replace_job_def Let_def jb_set_next_def jb_set_prev_def split: option.split)






section \<open>The end of the header\<close>

lemma skip_while_app:
  "\<forall>x \<in> set xs. P x \<Longrightarrow> \<not> P y \<Longrightarrow> skip_while P (pre @ xs @ y # rest) (length pre) = Some (length pre + length xs)"
proof (induction xs arbitrary: pre)
  case (Cons x xs)
  then show ?case using Cons.IH [of "pre @ [x]"] by (subst skip_while.simps) simp
qed (subst skip_while.simps, simp)

lemma scan_end_again: "scan_end bp i datsz = Some (False, i') \<Longrightarrow> scan_end bp i' datsz = Some (False, i')"
proof (induction bp i datsz rule: scan_end.induct)
  case (1 bp i datsz)
  show ?case
  proof (cases "i + 2 \<ge> datsz")
    case True
    then show ?thesis using 1(2) by (simp add: scan_end.simps)
  next
    case False
    with 1(2) have "strncmp_at bp i [CHR 0x0A, CHR 0x0D, CHR 0x0A] = Some False" "scan_end bp (Suc i) datsz = Some (False, i')"
      by (auto simp: scan_end.simps [of bp i] split: option.splits if_splits)
    then show ?thesis using 1(1) [OF False] by blast
  qed
qed

lemma find_end_spins:
  assumes "scan_end bp i datsz = Some (False, i')" "i' < datsz"
  shows "find_end junk (c, bp, i, datsz) = None"
proof (rule ccontr)
  assume "find_end junk (c, bp, i, datsz) \<noteq> None"
  then obtain r where r: "find_end junk (c, bp, i, datsz) = Some r" by auto
  have "\<forall>i. st = (c, bp, i, datsz) \<longrightarrow> scan_end bp i datsz \<noteq> Some (False, i')" if "find_end junk st = Some r" for st
    using that
  proof (rule find_end.raw_induct [rotated], goal_cases)
    case (1 fe j st r)
    show ?case
    proof (intro allI impI notI)
      fix i
      assume st: "st = (c, bp, i, datsz)" and s: "scan_end bp i datsz = Some (False, i')"
      have "fe j (c, bp, i', datsz) = Some r" using 1(2) st s assms(2) by (simp add: more_if_def)
      from 1(1) [OF this] show False using scan_end_again [OF s] by simp
    qed
  qed
  then show False using r assms(1) by blast
qed

text \<open>A complete successful response with the IPP response as its body.\<close>

definition ok_header :: "nat \<Rightarrow> string" where
  "ok_header n = ''HTTP/1.1 200 OK'' @ CRLF @ ''Content-Length: '' @ dec n @ CRLF"

definition nul_header :: string where
  "nul_header = ''HTTP/1.1 200'' @ [NUL] @ ''OK'' @ [NUL, CHR 0x0A]"

lemma strncasecmp_app: "map to_lower xs = ps \<Longrightarrow> strncasecmp_at (pre @ xs @ rest) (length pre) ps = Some True"
proof (induction ps arbitrary: pre xs)
  case (Cons p ps)
  then obtain x ys where "xs = x # ys" "to_lower x = p" "map to_lower ys = ps" by auto
  then show ?case using Cons.IH [of ys "pre @ [x]"] by simp
qed simp

definition len_header :: string where
  "len_header = nul_header @ ''Content-Length: ''"

lemma length_CRLF [simp]: "length CRLF = 2"
  by (simp add: CRLF_def)

lemma length_ok_header [simp]: "length (ok_header n) = 35 + length (dec n)"
  by (simp add: ok_header_def)

lemma length_len_header [simp]: "length len_header = 33"
  by (simp add: len_header_def nul_header_def)

lemma status_code_ok:
  "status_code (''HTTP/1.1 200 OK'' @ CRLF @ rest) = Some (Go (Status 200 15 (nul_header @ rest)))"
proof -
  have "skip_while isspace (''HTTP/1.1 200 OK'' @ CRLF @ rest) 8 = Some 9"
    using skip_while_app [of "'' ''" isspace "CHR ''2''" "''HTTP/1.1''" "''00 OK'' @ CRLF @ rest"] by (simp add: isspace_def eval_nat_numeral)
  moreover have "skip_while isdigit (''HTTP/1.1 200 OK'' @ CRLF @ rest) 9 = Some 12"
    using skip_while_app [of "''200''" isdigit "CHR '' ''" "''HTTP/1.1 ''" "''OK'' @ CRLF @ rest"] by (simp add: isdigit_def eval_nat_numeral)
  moreover have "skip_while (\<lambda>x. x \<noteq> CHR 0x0D \<and> x \<noteq> CHR 0x0A) ((''HTTP/1.1 200 OK'' @ CRLF @ rest)[12 := NUL]) 13 = Some 15"
    using skip_while_app [of "''OK''" "\<lambda>x. x \<noteq> CHR 0x0D \<and> x \<noteq> CHR 0x0A" "CHR 0x0D" "''HTTP/1.1 200'' @ [NUL]" "CHR 0x0A # rest"]
    by (simp add: CRLF_def eval_nat_numeral)
  moreover have "(''HTTP/1.1 200 OK'' @ CRLF @ rest)[12 := NUL, 15 := NUL] = nul_header @ rest"
    by (simp add: CRLF_def nul_header_def eval_nat_numeral)
  moreover have "atol (drop 9 (nul_header @ rest)) = 200"
    by (simp add: nul_header_def atol_def isspace_def isdigit_def digits_val_def digit_val_def eval_nat_numeral)
  ultimately show ?thesis by (simp add: status_code_def oob_then_def Let_def)
qed

lemma find_length_ok:
  assumes "32 \<le> datsz"
  shows "find_length junk (c, nul_header @ ''Content-Length:'' @ rest, 15, datsz) =
    Some (Go (c, nul_header @ ''Content-Length:'' @ rest, 32, datsz))"
proof -
  have low: "map to_lower ''Content-Length:'' = ''content-length:''" by code_simp
  have len: "length nul_header = 17" by (simp add: nul_header_def)
  have "scan_c (nul_header @ ''Content-Length:'' @ rest) 15 datsz = Some 17"
    using assms by (simp add: scan_c.simps nul_header_def)
  moreover have "strncasecmp_at (nul_header @ ''Content-Length:'' @ rest) 17 ''content-length:'' = Some True"
    using strncasecmp_app [of "''Content-Length:''" "''content-length:''" nul_header rest] low len by simp
  ultimately show ?thesis using assms by (subst find_length.simps) (simp add: more_if_def)
qed

text \<open>The length of the content and the position after it.\<close>

lemma content_length_ok:
  "skip_while isspace (len_header @ dec n @ CRLF @ rest) 32 = Some 33"
  "skip_while isdigit (len_header @ dec n @ CRLF @ rest) 33 = Some (33 + length (dec n))"
  "(len_header @ dec n @ CRLF @ rest)[33 + length (dec n) := NUL] = len_header @ dec n @ NUL # CHR 0x0A # rest"
  "atol (drop 33 (len_header @ dec n @ NUL # CHR 0x0A # rest)) = int n"
proof -
  obtain x xs where x: "dec n = x # xs" by (cases "dec n") auto
  then have dx: "isdigit x" using isdigit_dec [of x n] by simp
  then have "\<not> isspace x" by (auto simp: isdigit_def isspace_def)
  then show "skip_while isspace (len_header @ dec n @ CRLF @ rest) 32 = Some 33"
    using skip_while_app [of "'' ''" isspace x "nul_header @ ''Content-Length:''" "xs @ CRLF @ rest"]
    by (simp add: len_header_def x nul_header_def isspace_def eval_nat_numeral)
  show "skip_while isdigit (len_header @ dec n @ CRLF @ rest) 33 = Some (33 + length (dec n))"
    using skip_while_app [of "dec n" isdigit "CHR 0x0D" len_header "CHR 0x0A # rest"]
    by (simp add: CRLF_def isdigit_dec) (simp add: isdigit_def)
  show "(len_header @ dec n @ CRLF @ rest)[33 + length (dec n) := NUL] = len_header @ dec n @ NUL # CHR 0x0A # rest"
    by (simp add: CRLF_def list_update_append)
  show "atol (drop 33 (len_header @ dec n @ NUL # CHR 0x0A # rest)) = int n"
    by (simp add: atol_dec isdigit_def)
qed

lemma http_success_header:
  assumes "35 + length (dec n) \<le> datsz"
  shows "http_success junk jobid (c, len_header @ dec n @ CRLF @ rest, 15, datsz) =
    ps_then (find_end junk (c, len_header @ dec n @ NUL # CHR 0x0A # rest, 34 + length (dec n), datsz))
      (\<lambda>st. Some (ipp_response junk (int n) jobid st))"
proof -
  have "find_length junk (c, len_header @ dec n @ CRLF @ rest, 15, datsz) =
      Some (Go (c, len_header @ dec n @ CRLF @ rest, 32, datsz))"
    using assms find_length_ok [of datsz junk c "'' '' @ dec n @ CRLF @ rest"] by (simp add: len_header_def)
  then show ?thesis
    unfolding http_success_def using assms content_length_ok [of n rest]
    by (simp add: ps_then_def oob_then_def Let_def more_if_def del: drop_append split: option.split ps.split)
qed

lemma printer_status_first:
  assumes "c_in c = Bytes (ok_header n @ rest) # es" "length (ok_header n @ rest) \<le> IOBUFSZ"
  obtains c' tail where "printer_status junk jobid c =
    (case http_success junk jobid (c', len_header @ dec n @ CRLF @ rest @ tail, 15, 35 + length (dec n) + length rest) of
       None \<Rightarrow> Inl Never_ends
     | Some p \<Rightarrow> (case p of Out c \<Rightarrow> Inr False | Oob \<Rightarrow> Inl (Overrun ''printer_status'') | Go ok \<Rightarrow> Inr ok))"
proof
  let ?tail = "drop (length (ok_header n @ rest)) (map junk [0..<IOBUFSZ])"
  let ?c = "c\<lparr>c_in := es\<rparr>"
  have e: "(ok_header n @ rest) @ t = ''HTTP/1.1 200 OK'' @ CRLF @ (''Content-Length: '' @ dec n @ CRLF @ rest @ t)" for t
    by (simp add: ok_header_def)
  have "tread c (length (map junk [0..<IOBUFSZ])) = (Rd (ok_header n @ rest), ?c)"
    using assms by (simp add: tread.simps)
  moreover have "ok_header n @ rest \<noteq> []" by (simp add: ok_header_def)
  moreover have "one_response junk jobid ?c ((ok_header n @ rest) @ ?tail) (length (ok_header n @ rest)) =
      ps_then (http_success junk jobid (?c, len_header @ dec n @ CRLF @ rest @ ?tail, 15,
        35 + length (dec n) + length rest)) (\<lambda>ok. Some (Go (Verdict ok)))"
    unfolding one_response_def e status_code_ok ps_then_def length_append length_ok_header
    by (simp add: len_header_def)
  ultimately show "printer_status junk jobid c =
    (case http_success junk jobid (?c, len_header @ dec n @ CRLF @ rest @ ?tail, 15, 35 + length (dec n) + length rest) of
       None \<Rightarrow> Inl Never_ends
     | Some p \<Rightarrow> (case p of Out c \<Rightarrow> Inr False | Oob \<Rightarrow> Inl (Overrun ''printer_status'') | Go ok \<Rightarrow> Inr ok))"
    unfolding printer_status_def
    by (subst status_loop.simps) (auto simp: ps_then_def split: option.split ps.split)
qed

text \<open>When the whole response of the printer comes in one piece, \<^verbatim>\<open>printer_status\<close>
  reports success exactly when the IPP response in it is for this job and has a
  status of the success class.\<close>

theorem printer_status_verdict:
  assumes "c_in c = Bytes (ok_header (length body) @ CRLF @ body) # es" "8 \<le> length body"
    "length (ok_header (length body) @ CRLF @ body) \<le> IOBUFSZ"
  shows "printer_status junk jobid c =
    Inr (ntohl (get32 (drop 4 body)) = jobid \<and> unat (ntohs (get16 (drop 2 body))) \<le> 255)"
proof -
  let ?n = "length body"
  let ?d = "35 + length (dec ?n) + length (CRLF @ body)"
  obtain c' tail where ps: "printer_status junk jobid c =
    (case http_success junk jobid (c', len_header @ dec ?n @ CRLF @ (CRLF @ body) @ tail, 15, ?d) of
       None \<Rightarrow> Inl Never_ends
     | Some p \<Rightarrow> (case p of Out c \<Rightarrow> Inr False | Oob \<Rightarrow> Inl (Overrun ''printer_status'') | Go ok \<Rightarrow> Inr ok))"
    by (rule printer_status_first [OF assms(1,3)])
  have ne: "body \<noteq> []" using assms(2) by auto
  let ?pre = "len_header @ dec ?n @ [NUL]"
  have len: "length ?pre = 34 + length (dec ?n)" by simp
  define bp where "bp = ?pre @ [CHR 0x0A] @ CRLF @ body @ tail"
  have "strncmp_at bp (34 + length (dec ?n)) [CHR 0x0A, CHR 0x0D, CHR 0x0A] = Some True"
    unfolding bp_def len [symmetric] by (simp add: CRLF_def nth_append)
  then have "scan_end bp (34 + length (dec ?n)) ?d = Some (True, 37 + length (dec ?n))"
    using assms(2) by (subst scan_end.simps) (simp add: CRLF_def)
  then have e: "find_end junk (c', bp, 34 + length (dec ?n), ?d) = Some (Go (c', bp, 37 + length (dec ?n), ?d))"
    using ne by (subst find_end.simps) (simp add: more_if_def)
  have dr: "drop (37 + length (dec ?n) + k) bp = drop k (body @ tail)" for k
  proof -
    have "drop (4 + k) (a # b # c # d # x) = drop k x" for a b c d :: char and x by (simp add: eval_nat_numeral)
    then show ?thesis unfolding bp_def CRLF_def using len by (simp add: drop_append)
  qed
  have "length bp \<ge> 37 + length (dec ?n) + 8" using assms(2) len unfolding bp_def by (simp add: CRLF_def)
  then have "ipp_response junk (int ?n) jobid (c', bp, 37 + length (dec ?n), ?d) =
      Go (ntohl (get32 (drop 4 body @ tail)) = jobid \<and> unat (ntohs (get16 (drop 2 body @ tail))) \<le> 255)"
    using dr [of 2] dr [of 4] assms(2) by (simp add: ipp_response_def more_if_def CRLF_def)
  moreover have "get32 (drop 4 body @ tail) = get32 (drop 4 body)" "get16 (drop 2 body @ tail) = get16 (drop 2 body)"
    using assms(2) by (simp_all add: get32_def get16_def)
  ultimately show ?thesis
    unfolding ps using http_success_header [of ?n ?d junk jobid c' "(CRLF @ body) @ tail"] e
    by (simp add: bp_def ps_then_def)
qed

theorem printer_status_verdict_witness:
  "printer_status (\<lambda>_. NUL) 1
     \<lparr>c_in = [Bytes (ok_header 8 @ CRLF @ [CHR 0x01, CHR 0x01] @ le16 (htons 0) @ le32 (htonl 1))], c_out = [], c_room = 0\<rparr> = Inr True"
  using printer_status_verdict [where body = "[CHR 0x01, CHR 0x01] @ le16 (htons 0) @ le32 (htonl 1)" and es = "[]" and
    junk = "\<lambda>_. NUL" and jobid = 1 and c = "\<lparr>c_in = [Bytes (ok_header 8 @ CRLF @ [CHR 0x01, CHR 0x01] @ le16 (htons 0) @ le32 (htonl 1))],
      c_out = [], c_room = 0\<rparr>"]
  by (simp add: dec.simps)

text \<open>When the first read ends with the line that holds the content length,
  \<^verbatim>\<open>printer_status\<close> never returns, whatever the printer sends afterwards: the search
  for the blank line stops two bytes before the end of the data, where it neither
  reads more nor moves on.\<close>

theorem printer_status_hangs:
  assumes "c_in c = Bytes (ok_header n) # es" "length (ok_header n) \<le> IOBUFSZ"
  shows "printer_status junk jobid c = Inl Never_ends"
proof -
  let ?d = "35 + length (dec n) + length ([] :: string)"
  obtain c' tail where ps: "printer_status junk jobid c =
    (case http_success junk jobid (c', len_header @ dec n @ CRLF @ [] @ tail, 15, ?d) of
       None \<Rightarrow> Inl Never_ends
     | Some p \<Rightarrow> (case p of Out c \<Rightarrow> Inr False | Oob \<Rightarrow> Inl (Overrun ''printer_status'') | Go ok \<Rightarrow> Inr ok))"
    by (rule printer_status_first [of c n "[]" es]) (use assms in simp_all)
  have "scan_end bp (34 + length (dec n)) ?d = Some (False, 34 + length (dec n))" for bp
    by (subst scan_end.simps) simp
  then show ?thesis
    unfolding ps using http_success_header [of n ?d junk jobid c' "[] @ tail"] find_end_spins
    by (simp add: ps_then_def)
qed

theorem printer_status_hangs_witness:
  "printer_status (\<lambda>_. NUL) 1 \<lparr>c_in = [Bytes (ok_header 8), Bytes (CRLF @ replicate 8 NUL)], c_out = [], c_room = 0\<rparr> = Inl Never_ends"
  by (rule printer_status_hangs [where n = 8 and es = "[Bytes (CRLF @ replicate 8 NUL)]"]) (simp_all add: dec.simps)

section \<open>A round of the printer thread\<close>

























end
