(* ===== verification/Full_Transfer.thy ===== *)
theory Full_Transfer
  imports Print_Util
begin

text \<open>
  Functions that repeat \<^verbatim>\<open>read\<close> and \<^verbatim>\<open>write\<close> until everything is transferred: \<^verbatim>\<open>readn\<close> and \<^verbatim>\<open>writen\<close> of
  \<^verbatim>\<open>apue.3e/advio\<close>, those of \<^verbatim>\<open>objc/memo/memo/base/apue\<close> (\<^verbatim>\<open>readn.c\<close>, \<^verbatim>\<open>written.c\<close>), which repeat interrupted calls, and
  \<^verbatim>\<open>writen\<close> of \<^verbatim>\<open>unpv13e/sock\<close>.  The locales \<open>full_reader\<close> and \<open>full_writer\<close> state what they have in
  common.
\<close>

section \<open>Reading\<close>

abbreviation (input) SYS_EINTR :: int where "SYS_EINTR \<equiv> 4"

text \<open>\<^verbatim>\<open>read\<close> is \<open>tread\<close>: some of the bytes that are there, an error, or the end of the file.  The result is
  the number that is returned and the bytes in the buffer.\<close>

function readn_loop :: "conn \<Rightarrow> nat \<Rightarrow> nat \<Rightarrow> cbuf \<Rightarrow> (int \<times> cbuf) \<times> conn" where
  "readn_loop c n nleft buf =
     (if nleft = 0 then ((int n, buf), c)
      else case tread c nleft of
             (Rd_err e, c) \<Rightarrow> if nleft = n then ((- 1, buf), c) else ((int (n - nleft), buf), c)
           | (Rd bs, c) \<Rightarrow> if bs = [] then ((int (n - nleft), buf), c)
                          else readn_loop c n (nleft - length bs) (buf @ bs))"
  by auto
termination
  by (relation "measure (\<lambda>(c, n, nleft, buf). nleft)") auto

declare readn_loop.simps [simp del]

definition readn :: "conn \<Rightarrow> nat \<Rightarrow> (int \<times> cbuf) \<times> conn" where
  "readn c n = readn_loop c n n []"

lemma tread_progress: "tread c n = (r, c') \<Longrightarrow> r = Rd_err e \<Longrightarrow> length (c_in c') < length (c_in c)"
  by (auto simp: tread.simps split: list.splits event.splits)

lemma tread_no_longer: "tread c n = (r, c') \<Longrightarrow> length (c_in c') \<le> length (c_in c)"
  by (auto simp: tread.simps split: list.splits event.splits)

text \<open>The version that calls \<^verbatim>\<open>read\<close> again after \<^verbatim>\<open>EINTR\<close>.\<close>

function memo_readn_loop :: "conn \<Rightarrow> nat \<Rightarrow> nat \<Rightarrow> cbuf \<Rightarrow> (int \<times> cbuf) \<times> conn" where
  "memo_readn_loop c n nleft buf =
     (if nleft = 0 then ((int n, buf), c)
      else case tread c nleft of
             (Rd_err e, c) \<Rightarrow> if e = SYS_EINTR then memo_readn_loop c n nleft buf else ((- 1, buf), c)
           | (Rd bs, c) \<Rightarrow> if bs = [] then ((int (n - nleft), buf), c)
                          else memo_readn_loop c n (nleft - length bs) (buf @ bs))"
  by auto
termination
proof (relation "measures [\<lambda>(c, n, nleft, buf). nleft, \<lambda>(c, n, nleft, buf). length (c_in c)]")
qed (auto dest: tread_progress [OF sym])

declare memo_readn_loop.simps [simp del]

definition memo_readn :: "conn \<Rightarrow> nat \<Rightarrow> (int \<times> cbuf) \<times> conn" where
  "memo_readn c n = memo_readn_loop c n n []"

text \<open>\<^verbatim>\<open>Readn\<close> and \<^verbatim>\<open>Writen\<close> end the process on an error.\<close>

definition memo_Readn :: "conn \<Rightarrow> nat \<Rightarrow> string + (int \<times> cbuf) \<times> conn" where
  "memo_Readn c n = (case memo_readn c n of ((k, buf), c) \<Rightarrow> if k < 0 then Inl ''readn error'' else Inr ((k, buf), c))"

section \<open>Writing\<close>

text \<open>What each call of \<^verbatim>\<open>write\<close> meets: an error number, or room for a number of bytes; after the
  script there is room for everything.\<close>

datatype wres = W_err int | W_room nat

record sink =
  w_script :: "wres list"
  w_out :: cbuf

definition os_put :: "sink \<Rightarrow> cbuf \<Rightarrow> (int + nat) \<times> sink" where
  "os_put s bs =
     (case w_script s of
        [] \<Rightarrow> (Inr (length bs), s\<lparr>w_out := w_out s @ bs\<rparr>)
      | W_err e # ws \<Rightarrow> (Inl e, s\<lparr>w_script := ws\<rparr>)
      | W_room k # ws \<Rightarrow> (Inr (min k (length bs)), s\<lparr>w_script := ws, w_out := w_out s @ take k bs\<rparr>))"

text \<open>A read before the beginning of the buffer.\<close>

datatype wfault = Before_buffer

function writen_loop :: "sink \<Rightarrow> cbuf \<Rightarrow> nat \<Rightarrow> wfault + (int \<times> sink)" where
  "writen_loop s bs pos =
     (if pos \<ge> length bs then Inr (int (length bs), s)
      else case os_put s (drop pos bs) of
             (Inl e, s) \<Rightarrow> Inr (if pos = 0 then - 1 else int pos, s)
           | (Inr w, s) \<Rightarrow> if w = 0 then Inr (int pos, s) else writen_loop s bs (pos + w))"
  by auto
termination
  by (relation "measure (\<lambda>(s, bs, pos). length bs - pos)") auto

declare writen_loop.simps [simp del]

definition writen :: "sink \<Rightarrow> cbuf \<Rightarrow> wfault + (int \<times> sink)" where
  "writen s bs = writen_loop s bs 0"

lemma os_put_error: "os_put s bs = (Inl e, s') \<Longrightarrow> length (w_script s') < length (w_script s)"
  by (auto simp: os_put_def split: list.splits wres.splits)

function memo_writen_loop :: "sink \<Rightarrow> cbuf \<Rightarrow> nat \<Rightarrow> wfault + (int \<times> sink)" where
  "memo_writen_loop s bs pos =
     (if pos \<ge> length bs then Inr (int (length bs), s)
      else case os_put s (drop pos bs) of
             (Inl e, s) \<Rightarrow> if e = SYS_EINTR then memo_writen_loop s bs pos else Inr (- 1, s)
           | (Inr w, s) \<Rightarrow> if w = 0 then Inr (- 1, s) else memo_writen_loop s bs (pos + w))"
  by auto
termination
proof (relation "measures [\<lambda>(s, bs, pos). length bs - pos, \<lambda>(s, bs, pos). length (w_script s)]")
qed (auto dest: os_put_error [OF sym])

declare memo_writen_loop.simps [simp del]

definition memo_writen :: "sink \<Rightarrow> cbuf \<Rightarrow> wfault + (int \<times> sink)" where
  "memo_writen s bs = memo_writen_loop s bs 0"

definition memo_Writen :: "sink \<Rightarrow> cbuf \<Rightarrow> string + sink" where
  "memo_Writen s bs =
     (case memo_writen s bs of
        Inl f \<Rightarrow> Inl ''writen error''
      | Inr (k, s) \<Rightarrow> if k \<noteq> int (length bs) then Inl ''writen error'' else Inr s)"

text \<open>In \<^verbatim>\<open>sock/writen.c\<close> the result of \<^verbatim>\<open>write\<close> is kept in an unsigned variable, so that -1 is not found to be an
  error: the pointer moves back by one and the count of bytes left grows by one.\<close>

lemma os_put_script: "os_put s bs = (r, s') \<Longrightarrow> w_script s' = tl (w_script s) \<and> (w_script s = [] \<longrightarrow> r = Inr (length bs))"
  by (auto simp: os_put_def split: list.splits wres.splits)

function sock_writen_loop :: "sink \<Rightarrow> cbuf \<Rightarrow> int \<Rightarrow> wfault + (int \<times> sink)" where
  "sock_writen_loop s bs pos =
     (if pos < 0 then Inl Before_buffer
      else if pos \<ge> int (length bs) then Inr (int (length bs), s)
      else case os_put s (drop (nat pos) bs) of
             (Inl e, s) \<Rightarrow> sock_writen_loop s bs (pos - 1)
           | (Inr w, s) \<Rightarrow> if w = 0 then Inr (0, s) else sock_writen_loop s bs (pos + int w))"
  by auto
termination
proof (relation "measures [\<lambda>(s, bs, pos). length (w_script s), \<lambda>(s, bs, pos). nat (int (length bs) - pos)]")
qed (auto dest!: os_put_script [OF sym])

declare sock_writen_loop.simps [simp del]

definition sock_writen :: "sink \<Rightarrow> cbuf \<Rightarrow> wfault + (int \<times> sink)" where
  "sock_writen s bs = sock_writen_loop s bs 0"

section \<open>What a reader promises\<close>

fun stream_bytes :: "event list \<Rightarrow> cbuf" where
  "stream_bytes [] = []"
| "stream_bytes (Bytes bs # es) = bs @ stream_bytes es"
| "stream_bytes (e # es) = stream_bytes es"

text \<open>Events that are bytes, or bytes and interrupted calls.\<close>

definition is_bytes :: "event \<Rightarrow> bool" where
  "is_bytes e \<longleftrightarrow> (\<exists>bs. e = Bytes bs \<and> bs \<noteq> [])"

definition is_signal :: "event \<Rightarrow> bool" where
  "is_signal e \<longleftrightarrow> is_bytes e \<or> e = Fail SYS_EINTR"

text \<open>Records of given sizes are read one after the other, however the stream is cut up.\<close>

fun read_records :: "(conn \<Rightarrow> nat \<Rightarrow> (int \<times> cbuf) \<times> conn) \<Rightarrow> nat list \<Rightarrow> conn \<Rightarrow> cbuf list" where
  "read_records rdn [] c = []"
| "read_records rdn (n # ns) c = (case rdn c n of ((k, buf), c') \<Rightarrow> buf # read_records rdn ns c')"

fun pieces :: "nat list \<Rightarrow> cbuf \<Rightarrow> cbuf list" where
  "pieces [] bs = []"
| "pieces (n # ns) bs = take n bs # pieces ns (drop n bs)"

lemma pieces_concat: "pieces (map length bs) (concat bs) = bs"
  by (induction bs) simp_all

locale full_reader =
  fixes rdn :: "conn \<Rightarrow> nat \<Rightarrow> (int \<times> cbuf) \<times> conn" and ok :: "event \<Rightarrow> bool"
  assumes reads: "list_all ok (c_in c) \<Longrightarrow> \<exists>c'. rdn c n = ((int (length (take n (stream_bytes (c_in c)))), take n (stream_bytes (c_in c))), c') \<and>
    list_all ok (c_in c') \<and> stream_bytes (c_in c') = drop n (stream_bytes (c_in c))"
begin

lemma read_records_pieces: "list_all ok (c_in c) \<Longrightarrow> read_records rdn ns c = pieces ns (stream_bytes (c_in c))"
proof (induction ns arbitrary: c)
  case (Cons n ns)
  obtain c' where "rdn c n = ((int (length (take n (stream_bytes (c_in c)))), take n (stream_bytes (c_in c))), c')"
    "list_all ok (c_in c')" "stream_bytes (c_in c') = drop n (stream_bytes (c_in c))" using reads [OF Cons.prems, of n] by blast
  then show ?case using Cons.IH [of c'] by simp
qed simp

lemma read_again:
  assumes "list_all ok (c_in c)" "rdn c m = (r, c1)" "rdn c1 n = (r', c2)"
  shows "\<exists>c'. rdn c (m + n) = ((fst r + fst r', snd r @ snd r'), c') \<and> stream_bytes (c_in c') = stream_bytes (c_in c2)"
proof -
  have 1: "r = (int (length (take m (stream_bytes (c_in c)))), take m (stream_bytes (c_in c)))" "list_all ok (c_in c1)" "stream_bytes (c_in c1) = drop m (stream_bytes (c_in c))"
    using reads [OF assms(1), of m] assms(2) by auto
  have 2: "r' = (int (length (take n (stream_bytes (c_in c1)))), take n (stream_bytes (c_in c1)))" "stream_bytes (c_in c2) = drop n (stream_bytes (c_in c1))"
    using reads [OF 1(2), of n] assms(3) by auto
  show ?thesis using reads [OF assms(1), of "m + n"] 1 2 by (auto simp: take_add add.commute)
qed

end

lemma tread_bytes:
  assumes "list_all is_signal (c_in c)" "0 < n"
  shows "tread c n = (Rd [], c) \<and> c_in c = [] \<or>
    (\<exists>c'. tread c n = (Rd_err SYS_EINTR, c') \<and> list_all is_signal (c_in c') \<and> stream_bytes (c_in c') = stream_bytes (c_in c) \<and>
       length (c_in c') < length (c_in c) \<and> \<not> list_all is_bytes (c_in c)) \<or>
    (\<exists>bs c'. tread c n = (Rd bs, c') \<and> bs \<noteq> [] \<and> length bs \<le> n \<and> list_all is_signal (c_in c') \<and>
       (list_all is_bytes (c_in c) \<longrightarrow> list_all is_bytes (c_in c')) \<and> stream_bytes (c_in c) = bs @ stream_bytes (c_in c'))"
proof (cases "c_in c")
  case Nil
  then show ?thesis by (simp add: tread.simps)
next
  case (Cons e es)
  then show ?thesis using assms by (cases e) (auto simp: tread.simps is_signal_def is_bytes_def)
qed

lemma segments: "[] \<notin> set bss \<Longrightarrow> list_all is_bytes (map Bytes bss) \<and> stream_bytes (map Bytes bss) = concat bss"
  by (induction bss) (auto simp: is_bytes_def)

lemma take_split: "length bs \<le> n \<Longrightarrow> take n (bs @ d) = bs @ take (n - length bs) d" "length bs \<le> n \<Longrightarrow> drop n (bs @ d) = drop (n - length bs) d"
  by simp_all

lemma bytes_signal: "list_all is_bytes es \<Longrightarrow> list_all is_signal es"
  by (auto simp: list_all_iff is_signal_def)

lemma readn_loop_ok:
  assumes "list_all is_bytes (c_in c)" "nleft \<le> n"
  shows "\<exists>c'. readn_loop c n nleft buf = ((int (n - nleft + length (take nleft (stream_bytes (c_in c)))), buf @ take nleft (stream_bytes (c_in c))), c') \<and>
    list_all is_bytes (c_in c') \<and> stream_bytes (c_in c') = drop nleft (stream_bytes (c_in c))"
  using assms
proof (induction nleft arbitrary: c buf rule: less_induct)
  case (less k)
  show ?case
  proof (cases "k = 0")
    case True
    then show ?thesis using less.prems by (simp add: readn_loop.simps)
  next
    case False
    consider "tread c k = (Rd [], c)" "c_in c = []" |
      bs c' where "tread c k = (Rd bs, c')" "bs \<noteq> []" "length bs \<le> k" "list_all is_bytes (c_in c')" "stream_bytes (c_in c) = bs @ stream_bytes (c_in c')"
      using tread_bytes [OF bytes_signal [OF less.prems(1)], of k] less.prems(1) False by auto
    then show ?thesis
    proof cases
      case 1
      then show ?thesis using False by (simp add: readn_loop.simps)
    next
      case 2
      have "0 < length bs" using 2 by simp
      then have "readn_loop c n k buf = readn_loop c' n (k - length bs) (buf @ bs)" "k - length bs < k" "k - length bs \<le> n"
        using 2 False less.prems by (simp_all add: readn_loop.simps [of c])
      then show ?thesis using less.IH [of "k - length bs" c' "buf @ bs"] 2 less.prems(2) by auto
    qed
  qed
qed

lemma memo_readn_loop_ok:
  assumes "list_all is_signal (c_in c)" "nleft \<le> n"
  shows "\<exists>c'. memo_readn_loop c n nleft buf = ((int (n - nleft + length (take nleft (stream_bytes (c_in c)))), buf @ take nleft (stream_bytes (c_in c))), c') \<and>
    list_all is_signal (c_in c') \<and> stream_bytes (c_in c') = drop nleft (stream_bytes (c_in c))"
  using assms
proof (induction c n nleft buf rule: memo_readn_loop.induct)
  case (1 c n k buf)
  show ?case
  proof (cases "k = 0")
    case True
    then show ?thesis using "1.prems" by (simp add: memo_readn_loop.simps)
  next
    case False
    consider "tread c k = (Rd [], c)" "c_in c = []" |
      c' where "tread c k = (Rd_err SYS_EINTR, c')" "list_all is_signal (c_in c')" "stream_bytes (c_in c') = stream_bytes (c_in c)" |
      bs c' where "tread c k = (Rd bs, c')" "bs \<noteq> []" "length bs \<le> k" "list_all is_signal (c_in c')" "stream_bytes (c_in c) = bs @ stream_bytes (c_in c')"
      using tread_bytes [OF "1.prems"(1), of k] False by auto
    then show ?thesis
    proof cases
      case 1
      then show ?thesis using False by (simp add: memo_readn_loop.simps)
    next
      case (2 c')
      then have "memo_readn_loop c n k buf = memo_readn_loop c' n k buf" using False by (simp add: memo_readn_loop.simps [of c])
      then show ?thesis using "1.IH"(2) [OF False 2(1) [symmetric] refl refl] 2 "1.prems"(2) by simp
    next
      case (3 bs c')
      then have "memo_readn_loop c n k buf = memo_readn_loop c' n (k - length bs) (buf @ bs)" "k - length bs \<le> n"
        using False "1.prems"(2) by (simp_all add: memo_readn_loop.simps [of c])
      then show ?thesis using "1.IH"(1) [OF False 3(1) [symmetric] refl 3(2)] 3 "1.prems"(2) by auto
    qed
  qed
qed

lemma readn_loop_out: "c_out (snd (readn_loop c n nleft buf)) = c_out c"
proof (induction c n nleft buf rule: readn_loop.induct)
  case (1 c n nleft buf)
  show ?case
  proof (cases "nleft = 0")
    case False
    obtain r c' where t: "tread c nleft = (r, c')" by fastforce
    then show ?thesis using False "1.IH" [OF False t [symmetric]] tread_out [OF t]
      by (cases r) (auto simp: readn_loop.simps [of c])
  qed (simp add: readn_loop.simps)
qed

lemma readn_out: "c_out (snd (readn c n)) = c_out c"
  by (simp add: readn_def readn_loop_out)

interpretation rd: full_reader readn is_bytes
  by unfold_locales (use readn_loop_ok [of _ _ _ "[]"] in \<open>fastforce simp: readn_def\<close>)

interpretation mrd: full_reader memo_readn is_signal
  by unfold_locales (use memo_readn_loop_ok [of _ _ _ "[]"] in \<open>fastforce simp: memo_readn_def\<close>)

section \<open>What a writer promises\<close>

definition is_room :: "wres \<Rightarrow> bool" where
  "is_room w \<longleftrightarrow> (\<exists>k. w = W_room k \<and> 0 < k)"

definition is_room_signal :: "wres \<Rightarrow> bool" where
  "is_room_signal w \<longleftrightarrow> is_room w \<or> w = W_err SYS_EINTR"

fun write_all :: "(sink \<Rightarrow> cbuf \<Rightarrow> wfault + (int \<times> sink)) \<Rightarrow> cbuf list \<Rightarrow> sink \<Rightarrow> wfault + sink" where
  "write_all wrn [] s = Inr s"
| "write_all wrn (b # bs) s = andthen (wrn s b) (\<lambda>(k, s). write_all wrn bs s)"

locale full_writer =
  fixes wrn :: "sink \<Rightarrow> cbuf \<Rightarrow> wfault + (int \<times> sink)" and ok :: "wres \<Rightarrow> bool"
  assumes writes: "list_all ok (w_script s) \<Longrightarrow> \<exists>s'. wrn s bs = Inr (int (length bs), s') \<and>
    list_all ok (w_script s') \<and> w_out s' = w_out s @ bs"
begin

text \<open>Blocks are written in order, whatever the sizes that single calls accept.\<close>

lemma write_all_concat: "list_all ok (w_script s) \<Longrightarrow> \<exists>s'. write_all wrn bs s = Inr s' \<and> w_out s' = w_out s @ concat bs"
proof (induction bs arbitrary: s)
  case (Cons b bs)
  then obtain s1 where "wrn s b = Inr (int (length b), s1)" "list_all ok (w_script s1)" "w_out s1 = w_out s @ b" using writes by metis
  then show ?case using Cons.IH [of s1] by auto
qed simp

end

lemma os_put_ok:
  assumes "list_all is_room_signal (w_script s)" "bs \<noteq> []"
  shows "(\<exists>s'. os_put s bs = (Inl SYS_EINTR, s') \<and> list_all is_room_signal (w_script s') \<and> w_out s' = w_out s \<and> \<not> list_all is_room (w_script s)) \<or>
    (\<exists>w s'. os_put s bs = (Inr w, s') \<and> 0 < w \<and> w \<le> length bs \<and> list_all is_room_signal (w_script s') \<and>
      (list_all is_room (w_script s) \<longrightarrow> list_all is_room (w_script s')) \<and> w_out s' = w_out s @ take w bs)"
  using assms by (auto simp: os_put_def is_room_signal_def is_room_def min_def split: list.split wres.split)

lemma room_signal: "list_all is_room ws \<Longrightarrow> list_all is_room_signal ws"
  by (auto simp: list_all_iff is_room_signal_def)

lemma take_drop_append: "drop pos bs = take w (drop pos bs) @ drop (pos + w) bs"
  by (metis add.commute append_take_drop_id drop_drop)

lemma writen_loop_ok:
  "list_all is_room (w_script s) \<Longrightarrow> \<exists>s'. writen_loop s bs pos = Inr (int (length bs), s') \<and> list_all is_room (w_script s') \<and> w_out s' = w_out s @ drop pos bs"
proof (induction s bs pos rule: writen_loop.induct)
  case (1 s bs pos)
  show ?case
  proof (cases "pos < length bs")
    case True
    then obtain w s1 where w: "os_put s (drop pos bs) = (Inr w, s1)" "0 < w" "list_all is_room (w_script s1)" "w_out s1 = w_out s @ take w (drop pos bs)"
      using os_put_ok [OF room_signal [OF "1.prems"], of "drop pos bs"] "1.prems" by auto
    then have "writen_loop s bs pos = writen_loop s1 bs (pos + w)" using True by (simp add: writen_loop.simps [of s])
    then show ?thesis using "1.IH" [of _ s1 w] w True take_drop_append [of pos bs w] by simp
  qed (use "1.prems" in \<open>simp add: writen_loop.simps\<close>)
qed

lemma memo_writen_loop_ok:
  "list_all is_room_signal (w_script s) \<Longrightarrow> \<exists>s'. memo_writen_loop s bs pos = Inr (int (length bs), s') \<and>
     list_all is_room_signal (w_script s') \<and> w_out s' = w_out s @ drop pos bs"
proof (induction s bs pos rule: memo_writen_loop.induct)
  case (1 s bs pos)
  show ?case
  proof (cases "pos < length bs")
    case True
    consider s1 where "os_put s (drop pos bs) = (Inl SYS_EINTR, s1)" "list_all is_room_signal (w_script s1)" "w_out s1 = w_out s" |
      w s1 where "os_put s (drop pos bs) = (Inr w, s1)" "0 < w" "list_all is_room_signal (w_script s1)" "w_out s1 = w_out s @ take w (drop pos bs)"
      using os_put_ok [OF "1.prems", of "drop pos bs"] True by auto
    then show ?thesis
    proof cases
      case (1 s1)
      then show ?thesis using "1.IH"(1) [of _ s1] True by (simp add: memo_writen_loop.simps [of s])
    next
      case (2 w s1)
      then show ?thesis using "1.IH"(2) [of _ s1 w] True take_drop_append [of pos bs w] by (simp add: memo_writen_loop.simps [of s])
    qed
  qed (use "1.prems" in \<open>simp add: memo_writen_loop.simps\<close>)
qed

lemma sock_writen_loop_ok:
  "list_all is_room (w_script s) \<Longrightarrow> 0 \<le> pos \<Longrightarrow> \<exists>s'. sock_writen_loop s bs pos = Inr (int (length bs), s') \<and>
     list_all is_room (w_script s') \<and> w_out s' = w_out s @ drop (nat pos) bs"
proof (induction s bs pos rule: sock_writen_loop.induct)
  case (1 s bs pos)
  show ?case
  proof (cases "pos < int (length bs)")
    case True
    then have "drop (nat pos) bs \<noteq> []" using "1.prems"(2) by simp
    then obtain w s1 where w: "os_put s (drop (nat pos) bs) = (Inr w, s1)" "0 < w" "list_all is_room (w_script s1)"
        "w_out s1 = w_out s @ take w (drop (nat pos) bs)"
      using os_put_ok [OF room_signal [OF "1.prems"(1)], of "drop (nat pos) bs"] "1.prems" by auto
    then have "sock_writen_loop s bs pos = sock_writen_loop s1 bs (pos + int w)" using True "1.prems"(2) by (simp add: sock_writen_loop.simps [of s])
    then show ?thesis using "1.IH"(2) [of _ s1 w] w True "1.prems"(2) take_drop_append [of "nat pos" bs w] by (simp add: nat_add_distrib)
  qed (use "1.prems" in \<open>simp add: sock_writen_loop.simps\<close>)
qed

interpretation wr: full_writer writen is_room
  by unfold_locales (use writen_loop_ok [where pos = 0] in \<open>simp add: writen_def\<close>)

interpretation mwr: full_writer memo_writen is_room_signal
  by unfold_locales (use memo_writen_loop_ok [where pos = 0] in \<open>simp add: memo_writen_def\<close>)

interpretation swr: full_writer sock_writen is_room
  by unfold_locales (use sock_writen_loop_ok [where pos = 0] in \<open>simp add: sock_writen_def\<close>)

section \<open>Properties\<close>

text \<open>C29: Blocks written one after the other by \<^verbatim>\<open>writen\<close> of \<^verbatim>\<open>objc/memo/memo/base\<close> come back from \<^verbatim>\<open>readn\<close> as they were
  written, whatever the number of bytes single calls of \<^verbatim>\<open>write\<close> accept, however the bytes are cut up for the reader and
  whichever calls are interrupted by signals.\<close>

theorem transfer_roundtrip:
  assumes "list_all is_room_signal (w_script s)" "w_out s = []"
  shows "\<exists>s'. write_all memo_writen bs s = Inr s' \<and>
    (\<forall>c. list_all is_signal (c_in c) \<and> stream_bytes (c_in c) = w_out s' \<longrightarrow> read_records memo_readn (map length bs) c = bs)"
proof -
  obtain s' where s': "write_all memo_writen bs s = Inr s'" "w_out s' = concat bs" using mwr.write_all_concat [OF assms(1), of bs] assms(2) by auto
  have "read_records memo_readn (map length bs) c = bs" if "list_all is_signal (c_in c) \<and> stream_bytes (c_in c) = w_out s'" for c
    using mrd.read_records_pieces [of c "map length bs"] that s'(2) by (simp add: pieces_concat)
  then show ?thesis using s'(1) by blast
qed

theorem transfer_roundtrip_witness:
  "\<exists>s'. write_all memo_writen [''abc'', ''de''] \<lparr>w_script = [W_room 1, W_err 4, W_room 7], w_out = []\<rparr> = Inr s' \<and>
    (\<forall>c. list_all is_signal (c_in c) \<and> stream_bytes (c_in c) = w_out s' \<longrightarrow> read_records memo_readn (map length [''abc'', ''de'']) c = [''abc'', ''de''])"
proof (rule transfer_roundtrip)
qed (simp_all add: is_room_signal_def is_room_def)

lemma writen_loop_count:
  assumes "writen_loop s bs pos = Inr (k, s')" "pos \<le> length bs"
  shows "(k = - 1 \<and> pos = 0 \<and> w_out s' = w_out s) \<or> (int pos \<le> k \<and> k \<le> int (length bs) \<and> w_out s' = w_out s @ take (nat k - pos) (drop pos bs))"
  using assms
proof (induction s bs pos rule: writen_loop.induct)
  case (1 s bs pos)
  obtain r s1 where p: "os_put s (drop pos bs) = (r, s1)" by fastforce
  show ?case
  proof (cases r)
    case (Inl e)
    then show ?thesis using p 1(2, 3) by (auto simp: writen_loop.simps [of s] os_put_def split: if_splits list.splits wres.splits)
  next
    case (Inr w)
    have w: "w \<le> length bs - pos" "w_out s1 = w_out s @ take w (drop pos bs)"
      using p Inr by (auto simp: os_put_def min_def split: list.splits wres.splits)
    show ?thesis
    proof (cases "length bs \<le> pos \<or> w = 0")
      case True
      then show ?thesis using p Inr 1(2, 3) w by (auto simp: writen_loop.simps [of s] split: if_splits)
    next
      case False
      then have l: "writen_loop s1 bs (pos + w) = Inr (k, s')" using p Inr 1(2) by (simp add: writen_loop.simps [of s])
      have "\<not> length bs \<le> pos" "w \<noteq> 0" "pos + w \<le> length bs" using False w(1) by auto
      then have k: "int (pos + w) \<le> k" "k \<le> int (length bs)" "w_out s' = w_out s1 @ take (nat k - (pos + w)) (drop (pos + w) bs)"
        using "1.IH" [OF _ _ _ _ l] p Inr by force+
      have "take (nat k - pos) (drop pos bs) = take w (drop pos bs) @ take (nat k - (pos + w)) (drop (pos + w) bs)"
        using k(1) take_add [of w "nat k - (pos + w)" "drop pos bs"] by (simp add: add.commute)
      then show ?thesis using k w(2) by simp
    qed
  qed
qed

text \<open>Whatever \<^verbatim>\<open>write\<close> does, \<^verbatim>\<open>writen\<close> of \<^verbatim>\<open>apue.3e/advio\<close> accounts for the output: -1 means that nothing was written, and any
  other result is the number of bytes of the buffer that have been written.\<close>

theorem writen_accounts:
  assumes "writen s bs = Inr (k, s')"
  shows "(k = - 1 \<and> w_out s' = w_out s) \<or> (0 \<le> k \<and> k \<le> int (length bs) \<and> w_out s' = w_out s @ take (nat k) bs)"
  using writen_loop_count [OF assms [unfolded writen_def]] by auto

theorem writen_accounts_witness:
  "(2 :: int) = - 1 \<or> (0 \<le> (2 :: int) \<and> w_out \<lparr>w_script = [], w_out = ''ab''\<rparr> = [] @ take (nat 2) ''abc'')"
  using writen_accounts [of "\<lparr>w_script = [W_room 2, W_err 32], w_out = []\<rparr>" "''abc''" 2 "\<lparr>w_script = [], w_out = ''ab''\<rparr>"]
  by (simp add: writen_def writen_loop.simps os_put_def)

text \<open>The writer of \<^verbatim>\<open>unpv13e/sock\<close> does not stop when its first \<^verbatim>\<open>write\<close> fails: it goes on before the beginning of the
  buffer.\<close>

theorem sock_writen_error: "w_script s = W_err e # ws \<Longrightarrow> bs \<noteq> [] \<Longrightarrow> sock_writen s bs = Inl Before_buffer"
  by (simp add: sock_writen_def sock_writen_loop.simps [of s] sock_writen_loop.simps [of _ _ "- 1"] os_put_def)

end
