(* ===== verification/Print_Client.thy ===== *)
theory Print_Client
  imports Printd_Spool Full_Transfer
begin

text \<open>
  The command \<^verbatim>\<open>print\<close>, \<^verbatim>\<open>apue.3e/printer/print.c\<close>: it sends a header and the file to the print
  daemon and reads the response.  With the client thread of the daemon it gives the whole
  way of a file into the queue.
\<close>

section \<open>Sending a file\<close>

datatype print_error = Err_sys string | Err_quit string | Overread

text \<open>The last thing the command prints; \<open>Rejected\<close> goes with the exit status 1.\<close>

datatype print_out = Rejected string | Job_ID int

definition job_name :: "string \<Rightarrow> string" where
  "job_name fname =
     (if length fname \<ge> JOBNM_MAX then ''... '' @ take (JOBNM_MAX - 5) (drop (length fname - JOBNM_MAX + 5) fname)
      else fname)"

text \<open>The header; \<open>pw_name\<close> is what \<^verbatim>\<open>getpwuid\<close> finds, \<open>ujunk\<close> and \<open>jjunk\<close> what the arrays hold before.\<close>

definition build_header :: "string option \<Rightarrow> cbuf \<Rightarrow> cbuf \<Rightarrow> string \<Rightarrow> nat \<Rightarrow> bool \<Rightarrow> printreq" where
  "build_header pw_name ujunk jjunk fname nbytes txt =
     \<lparr>pr_size = htonl (word_of_nat nbytes),
      pr_flags = (if txt then htonl PR_TEXT else 0),
      pr_usernm = (case pw_name of
          None \<Rightarrow> strcpy ujunk ''unknown''
        | Some name \<Rightarrow> (strncpy ujunk name (USERNM_MAX - 1))[USERNM_MAX - 1 := NUL]),
      pr_jobnm = strcpy jjunk (job_name fname)\<rparr>"

text \<open>The copy loop: a failing \<^verbatim>\<open>read\<close> does not end it, \<^verbatim>\<open>writen\<close> is then called with the length -1.\<close>

function send_loop :: "conn \<Rightarrow> conn \<Rightarrow> print_error + conn" where
  "send_loop fd sock =
     (case tread fd IOBUFSZ of
        (Rd_err e, fd) \<Rightarrow> Inl Overread
      | (Rd buf, fd) \<Rightarrow>
          if length buf = 0 then Inr sock
          else
            let (nw, sock) = cwrite sock buf
            in if nw \<noteq> int (length buf)
               then Inl (if nw < 0 then Err_sys ''can't write to print server'' else Err_quit ''short write to print server'')
               else send_loop fd sock)"
  by auto
termination
  by (relation "measure (\<lambda>(fd, sock). in_size (c_in fd))") (auto dest: tread_in_size [OF sym])

declare send_loop.simps [simp del]

abbreviation RESP_SIZE :: nat where "RESP_SIZE \<equiv> 520"

definition submit_file :: "string option \<Rightarrow> cbuf \<Rightarrow> cbuf \<Rightarrow>
    conn \<Rightarrow> conn \<Rightarrow> string \<Rightarrow> nat \<Rightarrow> bool \<Rightarrow> print_error + (print_out \<times> conn)" where
  "submit_file pw_name ujunk jjunk fd sock fname nbytes txt =
     (let req = build_header pw_name ujunk jjunk fname nbytes txt;
          (nw, sock) = cwrite sock (req_bytes req)
      in if nw \<noteq> int REQ_SIZE
         then Inl (if nw < 0 then Err_sys ''can't write to print server'' else Err_quit ''short write to print server'')
         else
      andthen (send_loop fd sock) (\<lambda>sock.
      case readn sock RESP_SIZE of
        ((nr, res), sock) \<Rightarrow>
          if nr \<noteq> int RESP_SIZE then Inl (Err_sys ''can't read response from server'')
          else if get32 res \<noteq> 0 then Inr (Rejected (cstr (drop 8 res)), sock)
          else Inr (Job_ID (uint (ntohl (get32 (drop 4 res)))), sock)))"

section \<open>The header\<close>

lemma length_job_name: "length (job_name fname) < JOBNM_MAX"
  by (auto simp: job_name_def)

lemma c_string_job_name: "c_string fname \<Longrightarrow> c_string (job_name fname)"
  by (auto simp: job_name_def c_string_def dest!: in_set_takeD in_set_dropD)

lemma header_ok:
  assumes "length ujunk = USERNM_MAX" "length jjunk = JOBNM_MAX"
  shows "req_ok (build_header pw_name ujunk jjunk fname nbytes txt)"
  using assms length_job_name [of fname]
  by (auto simp: req_ok_def build_header_def strcpy_def strncpy_def split: option.split)

lemma header_names:
  assumes "length ujunk = USERNM_MAX" "c_string fname" "c_string name"
  shows "cstr (pr_jobnm (build_header pw ujunk jjunk fname nbytes txt)) = job_name fname"
    "cstr (pr_usernm (build_header None ujunk jjunk fname nbytes txt)) = ''unknown''"
    "cstr (pr_usernm (build_header (Some name) ujunk jjunk fname nbytes txt)) = take (USERNM_MAX - 1) name"
proof -
  show "cstr (pr_jobnm (build_header pw ujunk jjunk fname nbytes txt)) = job_name fname"
    using c_string_job_name [OF assms(2)] by (simp add: build_header_def cstr_strcpy)
  show "cstr (pr_usernm (build_header None ujunk jjunk fname nbytes txt)) = ''unknown''"
    by (simp add: build_header_def cstr_strcpy)
  let ?n = "take 63 name"
  obtain k where "(strncpy ujunk name 63)[63 := NUL] = ?n @ NUL # k"
  proof (cases "length name < 63")
    case True
    then have "replicate (63 - length name) NUL = NUL # replicate (62 - length name) NUL"
      by (simp add: Suc_diff_Suc flip: replicate_Suc)
    moreover obtain j where "63 - length name = Suc j" using True by (metis Suc_diff_Suc)
    ultimately show ?thesis using that True assms(1) by (simp add: strncpy_def list_update_append take_replicate min_def)
  next
    case False
    then show ?thesis using that assms(1) by (simp add: strncpy_def list_update_append drop_Cons' Cons_nth_drop_Suc [symmetric])
  qed
  moreover have "c_string ?n" using assms(3) by (auto simp: c_string_def dest: in_set_takeD)
  ultimately show "cstr (pr_usernm (build_header (Some name) ujunk jjunk fname nbytes txt)) = take (USERNM_MAX - 1) name"
    by (simp add: build_header_def cstr_append_NUL)
qed

section \<open>The bytes that are sent\<close>

lemma send_loop_all:
  assumes "c_in fd = map Bytes blocks" "[] \<notin> set blocks" "length (concat blocks) \<le> c_room sock"
  shows "send_loop fd sock = Inr (sock\<lparr>c_out := c_out sock @ concat blocks, c_room := c_room sock - length (concat blocks)\<rparr>)"
  using assms
proof (induction "in_size (c_in fd)" arbitrary: fd sock blocks rule: less_induct)
  case less
  show ?case
  proof (cases blocks)
    case Nil
    then show ?thesis using less.prems by (subst send_loop.simps) (simp add: tread.simps)
  next
    case (Cons b bs)
    let ?b = "take IOBUFSZ b" and ?bs = "if length b \<le> IOBUFSZ then bs else drop IOBUFSZ b # bs"
    let ?fd = "fd\<lparr>c_in := map Bytes ?bs\<rparr>"
    let ?sock = "sock\<lparr>c_out := c_out sock @ ?b, c_room := c_room sock - length ?b\<rparr>"
    have t: "tread fd IOBUFSZ = (Rd ?b, ?fd)" using less.prems Cons by (simp add: tread.simps)
    have ne: "?b \<noteq> []" and all: "concat blocks = ?b @ concat ?bs" using less.prems(2) Cons by (auto simp flip: append_assoc)
    have w: "cwrite sock ?b = (int (length ?b), ?sock)"
      using less.prems(3) all by (intro cwrite_fits) simp
    have "send_loop ?fd ?sock = Inr (?sock\<lparr>c_out := c_out ?sock @ concat ?bs, c_room := c_room ?sock - length (concat ?bs)\<rparr>)"
    proof (rule less.hyps)
      show "in_size (c_in ?fd) < in_size (c_in fd)" using tread_in_size [OF t] ne by simp
      show "[] \<notin> set ?bs" using less.prems(2) Cons by auto
      show "length (concat ?bs) \<le> c_room ?sock" using less.prems(3) all by simp
    qed simp
    moreover have "send_loop fd sock = send_loop ?fd ?sock"
      using t ne w by (subst send_loop.simps) simp
    ultimately show ?thesis using all by simp
  qed
qed

text \<open>The response to a job that was accepted.\<close>

lemma accept_reply_fields:
  "length (accept_reply i) = RESP_SIZE" "get32 (accept_reply i) = 0" "ntohl (get32 (drop 4 (accept_reply i))) = i"
  by (simp_all add: accept_reply_def resp_bytes_def)

lemma submit_file_ok:
  assumes doc: "c_in fd = map Bytes blocks" "[] \<notin> set blocks"
    and junk: "length ujunk = USERNM_MAX" "length jjunk = JOBNM_MAX"
    and room: "REQ_SIZE + length (concat blocks) \<le> c_room sock"
    and reply: "c_in sock = map Bytes segs" "[] \<notin> set segs" "concat segs = accept_reply i"
  shows "\<exists>sock'. submit_file pw ujunk jjunk fd sock fname nbytes txt = Inr (Job_ID (uint i), sock') \<and>
    c_out sock' = c_out sock @ req_bytes (build_header pw ujunk jjunk fname nbytes txt) @ concat blocks"
proof -
  let ?h = "req_bytes (build_header pw ujunk jjunk fname nbytes txt)"
  have l: "length ?h = REQ_SIZE" by (rule length_req_bytes [OF header_ok [OF junk]])
  let ?s1 = "sock\<lparr>c_out := c_out sock @ ?h, c_room := c_room sock - REQ_SIZE\<rparr>"
  have w: "cwrite sock ?h = (int REQ_SIZE, ?s1)" using cwrite_fits [of ?h sock] l room by simp
  let ?s2 = "?s1\<lparr>c_out := c_out ?s1 @ concat blocks, c_room := c_room ?s1 - length (concat blocks)\<rparr>"
  have s: "send_loop fd ?s1 = Inr ?s2" using doc room by (intro send_loop_all) simp_all
  have "list_all is_bytes (c_in ?s2)" "stream_bytes (c_in ?s2) = accept_reply i" using reply segments [of segs] by simp_all
  then obtain sock' where r: "readn ?s2 RESP_SIZE = ((int RESP_SIZE, accept_reply i), sock')"
    using rd.reads [of ?s2 RESP_SIZE] accept_reply_fields(1) [of i] by auto
  then have "c_out sock' = c_out ?s2" using readn_out [of ?s2 RESP_SIZE] by simp
  then show ?thesis
    unfolding submit_file_def Let_def w prod.case s andthen_simps r using accept_reply_fields [of i] by simp
qed

end
