(* ===== verification/Inet_Addr.thy ===== *)
theory Inet_Addr
  imports C_Bytes
begin

text \<open>
  Conversion of IPv4 addresses between text and bytes:
  \<^verbatim>\<open>unpv13e/libfree/inet_pton.c\<close> and \<^verbatim>\<open>inet_ntop.c\<close> (the IPv4 half),
  \<^verbatim>\<open>inet_pton_ipv4.c\<close>, \<^verbatim>\<open>inet_ntop_ipv4.c\<close> and \<^verbatim>\<open>inet_aton.c\<close>.
  A C string argument is the list of characters before its NUL; an access outside
  a buffer is \<open>Overflow\<close>.
\<close>

type_synonym byte = "8 word"

abbreviation (input) AF_UNSPEC :: int where "AF_UNSPEC \<equiv> 0"
abbreviation (input) AF_LOCAL :: int where "AF_LOCAL \<equiv> 1"
abbreviation (input) AF_INET :: int where "AF_INET \<equiv> 2"
abbreviation (input) AF_INET6 :: int where "AF_INET6 \<equiv> 10"

section \<open>Text to bytes\<close>

text \<open>The outcome of a conversion: \<open>Reject\<close> is the return value 0 with the destination
  untouched, \<open>Bad_family\<close> is \<open>-1\<close>, \<open>Accept\<close> is 1 and the bytes stored.\<close>

datatype conv = Reject | Bad_family | Overflow | Accept "byte list"

text \<open>\<open>tmp\<close> holds the bytes written so far; \<^verbatim>\<open>*tp\<close> is the last of them.\<close>

fun pton4_loop :: "string \<Rightarrow> byte list \<Rightarrow> bool \<Rightarrow> nat \<Rightarrow> conv" where
  "pton4_loop [] tmp saw_digit octets =
     (if octets < 4 then Reject else if length tmp < 4 then Overflow else Accept (take 4 tmp))"
| "pton4_loop (ch # src) tmp saw_digit octets =
     (if isdigit ch then
        let new = unat (last tmp) * 10 + digit_val ch
        in if new > 255 then Reject
           else
        let tmp = butlast tmp @ [word_of_nat new]
        in if \<not> saw_digit
           then if Suc octets > 4 then Reject else pton4_loop src tmp True (Suc octets)
           else pton4_loop src tmp True octets
      else if ch = CHR ''.'' \<and> saw_digit then
        if octets = 4 then Reject
        else if length tmp = 4 then Overflow
        else pton4_loop src (tmp @ [0]) False octets
      else Reject)"

definition inet_pton4 :: "string \<Rightarrow> conv" where
  "inet_pton4 src = pton4_loop src [0] False 0"

text \<open>\<^verbatim>\<open>inet_aton\<close>: the accumulators are 64-bit \<^verbatim>\<open>u_long\<close>s.\<close>

fun aton_loop :: "string \<Rightarrow> nat \<Rightarrow> 64 word \<Rightarrow> 64 word \<Rightarrow> (nat \<times> 64 word) option" where
  "aton_loop [] dots acc addr =
     (if acc > 255 then None else Some (dots, or (push_bit 8 addr) acc))"
| "aton_loop (cc # cp) dots acc addr =
     (if isdigit cc then aton_loop cp dots (acc * 10 + word_of_nat (digit_val cc)) addr
      else if cc = CHR ''.'' then
        if Suc dots > 3 then None
        else if acc > 255 then None
        else aton_loop cp (Suc dots) 0 (or (push_bit 8 addr) acc)
      else None)"

text \<open>The bytes of \<^verbatim>\<open>s_addr\<close> in network order.\<close>

definition be32_bytes :: "64 word \<Rightarrow> byte list" where
  "be32_bytes a = map (\<lambda>i. ucast (drop_bit (8 * (3 - i)) a)) [0..<4]"

definition inet_aton :: "string \<Rightarrow> byte list option" where
  "inet_aton cp =
     (case aton_loop cp 0 0 0 of
        None \<Rightarrow> None
      | Some (dots, addr) \<Rightarrow>
          let addr = (if dots < 3 then push_bit (8 * (3 - dots)) addr else addr)
          in Some (be32_bytes addr))"

definition inet_pton_ipv4 :: "int \<Rightarrow> string \<Rightarrow> conv" where
  "inet_pton_ipv4 family strptr =
     (if family = AF_INET then
        case inet_aton strptr of Some in_val \<Rightarrow> Accept in_val | None \<Rightarrow> Reject
      else Bad_family)"

section \<open>Bytes to text\<close>

text \<open>The outcome: \<^verbatim>\<open>NULL\<close> with \<^verbatim>\<open>ENOSPC\<close> or \<^verbatim>\<open>EAFNOSUPPORT\<close>, a write past the end of a
  buffer, or the string in \<^verbatim>\<open>dst\<close>, a buffer of \<open>size'\<close> bytes.\<close>

datatype text_conv = No_space | No_family | Smash | Dst string

definition dotted :: "byte list \<Rightarrow> string" where
  "dotted src = dec (unat (src ! 0)) @ ''.'' @ dec (unat (src ! 1)) @ ''.'' @
     dec (unat (src ! 2)) @ ''.'' @ dec (unat (src ! 3))"

definition strcpy_to :: "nat \<Rightarrow> string \<Rightarrow> text_conv" where
  "strcpy_to size' tmp = (if length tmp + 1 > size' then Smash else Dst tmp)"

definition inet_ntop4 :: "byte list \<Rightarrow> nat \<Rightarrow> text_conv" where
  "inet_ntop4 src size' =
     (let tmp = dotted src
      in if length tmp + 1 > 16 then Smash
         else if length tmp > size' then No_space
         else strcpy_to size' tmp)"

definition inet_ntop_ipv4 :: "int \<Rightarrow> byte list \<Rightarrow> nat \<Rightarrow> text_conv" where
  "inet_ntop_ipv4 family p len =
     (if family = AF_INET then
        let temp = take 15 (dotted p)
        in if length temp \<ge> len then No_space else strcpy_to len temp
      else No_family)"

section \<open>The dotted quad as a grammar\<close>

definition octet :: "string \<Rightarrow> bool" where
  "octet s \<longleftrightarrow> s \<noteq> [] \<and> (\<forall>c \<in> set s. isdigit c) \<and> digits_val s \<le> 255"

fun join :: "string \<Rightarrow> string list \<Rightarrow> string" where
  "join sep [] = []"
| "join sep [s] = s"
| "join sep (s # t # ss) = s @ sep @ join sep (t # ss)"

definition dotted_quad :: "string \<Rightarrow> byte list \<Rightarrow> bool" where
  "dotted_quad s bs \<longleftrightarrow> (\<exists>fs. length fs = 4 \<and> (\<forall>f \<in> set fs. octet f) \<and> s = join ''.'' fs \<and>
     bs = map (\<lambda>f. word_of_nat (digits_val f)) fs)"

text \<open>The digits of one octet.\<close>

lemma digits_val_mono: "digits_val (s @ t) \<ge> digits_val s"
proof (induction t rule: rev_induct)
  case (snoc c t)
  then show ?case unfolding append_assoc [symmetric] digits_val_append by simp
qed simp

lemma pton4_digits:
  assumes "\<forall>c \<in> set s. isdigit c" "digits_val (p @ s) \<le> 255"
  shows "pton4_loop (s @ r) (tmp @ [word_of_nat (digits_val p)]) True octets =
    pton4_loop r (tmp @ [word_of_nat (digits_val (p @ s))]) True octets"
  using assms
proof (induction s arbitrary: p)
  case (Cons c s)
  have le: "digits_val (p @ [c]) \<le> 255" "digits_val p \<le> 255"
    using Cons.prems(2) digits_val_mono [of "p @ [c]" s] digits_val_mono [of p "c # s"] by simp_all
  then have "unat (word_of_nat (digits_val p) :: byte) = digits_val p" by (simp add: unat_of_nat)
  moreover have "pton4_loop (s @ r) (tmp @ [word_of_nat (digits_val (p @ [c]))]) True octets =
      pton4_loop r (tmp @ [word_of_nat (digits_val ((p @ [c]) @ s))]) True octets"
    using Cons.prems by (intro Cons.IH) simp_all
  ultimately show ?case using Cons.prems(1) le(1) by (simp add: Let_def)
qed simp

lemma pton4_octet:
  assumes "octet f" "octets < 4"
  shows "pton4_loop (f @ r) (tmp @ [0]) False octets =
    pton4_loop r (tmp @ [word_of_nat (digits_val f)]) True (Suc octets)"
proof -
  obtain c s where f: "f = c # s" using assms(1) by (cases f) (auto simp: octet_def)
  have c: "isdigit c" "\<forall>c \<in> set s. isdigit c" "digits_val ([c] @ s) \<le> 255" using assms(1) f by (auto simp: octet_def)
  have "digits_val [c] = digit_val c" "\<not> 255 < digit_val c"
    using digit_val_less [OF c(1)] by (simp_all add: digits_val_def)
  then show ?thesis
    using pton4_digits [OF c(2,3), of r tmp "Suc octets"] c assms(2) unfolding f by (simp add: Let_def)
qed

lemma pton4_complete: "dotted_quad s bs \<Longrightarrow> inet_pton4 s = Accept bs"
proof -
  assume "dotted_quad s bs"
  then obtain fs where fs: "length fs = 4" "\<forall>f \<in> set fs. octet f" "s = join ''.'' fs"
    "bs = map (\<lambda>f. word_of_nat (digits_val f)) fs" unfolding dotted_quad_def by auto
  then obtain a b c d where q: "fs = [a, b, c, d]" by (auto simp: length_Suc_conv eval_nat_numeral)
  have o: "octet a" "octet b" "octet c" "octet d" using fs(2) q by auto
  show ?thesis
    using pton4_octet [OF o(1), of 0 "''.'' @ b @ ''.'' @ c @ ''.'' @ d" "[]"]
      pton4_octet [OF o(2), of "Suc 0" "''.'' @ c @ ''.'' @ d" "[word_of_nat (digits_val a)]"]
      pton4_octet [OF o(3), of "Suc (Suc 0)" "''.'' @ d" "[word_of_nat (digits_val a), word_of_nat (digits_val b)]"]
      pton4_octet [OF o(4), of "Suc (Suc (Suc 0))" "[]" "[word_of_nat (digits_val a), word_of_nat (digits_val b), word_of_nat (digits_val c)]"]
    unfolding inet_pton4_def fs(3,4) q by (simp add: isdigit_def)
qed

lemma pton4_sound:
  assumes "pton4_loop src (pre @ [word_of_nat (digits_val p)]) saw octets = Accept bs"
    "saw \<longleftrightarrow> p \<noteq> []" "\<forall>c \<in> set p. isdigit c" "digits_val p \<le> 255"
    "octets = length pre + (if saw then 1 else 0)" "length pre \<le> 3"
  shows "\<exists>q gs. octet (p @ q) \<and> (\<forall>g \<in> set gs. octet g) \<and> src = join ''.'' (q # gs) \<and> length pre + length gs = 3 \<and>
    bs = pre @ map (\<lambda>f. word_of_nat (digits_val f)) ((p @ q) # gs)"
  using assms
proof (induction src arbitrary: pre p saw octets)
  case Nil
  then have "p \<noteq> []" "length pre = 3" by (auto split: if_splits)
  then show ?case using Nil by (intro exI [of _ "[]"]) (auto simp: octet_def split: if_splits)
next
  case (Cons ch src)
  have u: "unat (word_of_nat (digits_val p) :: byte) = digits_val p" using Cons.prems(4) by (simp add: unat_of_nat)
  show ?case
  proof (cases "isdigit ch")
    case True
    then have v: "digits_val (p @ [ch]) \<le> 255" and
      r: "pton4_loop src (pre @ [word_of_nat (digits_val (p @ [ch]))]) True (length pre + 1) = Accept bs"
      using Cons.prems u by (auto simp: Let_def split: if_splits)
    then obtain q gs where "octet ((p @ [ch]) @ q)" "\<forall>g \<in> set gs. octet g" "src = join ''.'' (q # gs)"
      "length pre + length gs = 3" "bs = pre @ map (\<lambda>f. word_of_nat (digits_val f)) (((p @ [ch]) @ q) # gs)"
      using Cons.IH [OF r _ _ v] Cons.prems(3,6) True by auto
    moreover have "join ''.'' ((ch # q) # gs) = ch # join ''.'' (q # gs)" by (cases gs) simp_all
    ultimately show ?thesis by (intro exI [of _ "ch # q"] exI [of _ gs]) simp
  next
    case False
    then have s: "ch = CHR ''.''" "saw" "octets \<noteq> 4" "length pre \<noteq> 3" and
      r: "pton4_loop src ((pre @ [word_of_nat (digits_val p)]) @ [word_of_nat (digits_val [])]) False octets = Accept bs"
      using Cons.prems by (auto simp: digits_val_def split: if_splits)
    obtain q gs where "octet q" "\<forall>g \<in> set gs. octet g" "src = join ''.'' (q # gs)"
      "Suc (length pre) + length gs = 3" "bs = (pre @ [word_of_nat (digits_val p)]) @ map (\<lambda>f. word_of_nat (digits_val f)) (q # gs)"
      using Cons.IH [OF r] Cons.prems(5,6) s by (auto simp: digits_val_def)
    then show ?thesis using s Cons.prems(2-4)
      by (intro exI [of _ "[]"] exI [of _ "q # gs"]) (auto simp: octet_def)
  qed
qed

lemma pton4_no_overflow:
  "length tmp = octets + (if saw then 0 else 1) \<Longrightarrow> octets \<le> 4 \<Longrightarrow> saw \<or> octets < 4 \<Longrightarrow> 0 < length tmp \<Longrightarrow>
    pton4_loop src tmp saw octets \<noteq> Overflow"
proof (induction src arbitrary: tmp saw octets)
  case (Cons ch src)
  then show ?case by (cases saw) (auto simp: Let_def)
qed auto

lemma pton4_safe: "inet_pton4 s \<noteq> Overflow"
  unfolding inet_pton4_def by (rule pton4_no_overflow) simp_all

lemma pton4_quad:
  assumes "inet_pton4 s = Accept bs"
  shows "dotted_quad s bs"
proof -
  have "pton4_loop s ([] @ [word_of_nat (digits_val [])]) False 0 = Accept bs"
    using assms by (simp add: inet_pton4_def digits_val_def)
  from pton4_sound [OF this] obtain q gs where "octet q" "\<forall>g \<in> set gs. octet g" "s = join ''.'' (q # gs)" "length gs = 3"
    "bs = map (\<lambda>f. word_of_nat (digits_val f)) (q # gs)" by (auto simp: digits_val_def)
  then show ?thesis unfolding dotted_quad_def by (intro exI [of _ "q # gs"]) simp
qed

text \<open>C30: \<^verbatim>\<open>inet_pton4\<close> accepts exactly the dotted quads, four decimal fields of value at
  most 255, and stores their values; it never writes outside its four bytes.\<close>

theorem inet_pton4_dotted_quad:
  "(inet_pton4 s = Accept bs \<longleftrightarrow> dotted_quad s bs) \<and> inet_pton4 s \<noteq> Overflow"
  using pton4_complete pton4_quad pton4_safe by blast

section \<open>Printing and parsing\<close>

lemma octet_dec: "octet (dec (unat (b :: byte)))"
  using unsigned_less [of b, where ?'a = nat] isdigit_dec by (fastforce simp: octet_def)

lemma dotted_is_quad: "length bs = 4 \<Longrightarrow> dotted_quad (dotted bs) bs"
proof -
  assume "length bs = 4"
  then obtain a b c d where q: "bs = [a, b, c, d]" by (auto simp: length_Suc_conv eval_nat_numeral)
  show ?thesis unfolding dotted_quad_def q dotted_def
    by (intro exI [of _ "map (\<lambda>b. dec (unat b)) [a, b, c, d]"]) (auto simp: octet_dec)
qed

lemma length_dec_byte: "length (dec (unat (b :: byte))) \<le> 3"
  using unsigned_less [of b, where ?'a = nat] by (intro length_dec_le) simp_all

lemma length_dotted: "length (dotted bs) \<le> 15"
  using length_dec_byte [of "bs ! 0"] length_dec_byte [of "bs ! 1"] length_dec_byte [of "bs ! 2"] length_dec_byte [of "bs ! 3"]
  by (simp add: dotted_def)

lemma inet_ntop4_eq:
  "inet_ntop4 bs n = (if length (dotted bs) > n then No_space else if length (dotted bs) = n then Smash else Dst (dotted bs))"
  using length_dotted [of bs] by (auto simp: inet_ntop4_def strcpy_to_def Let_def)

text \<open>What \<^verbatim>\<open>inet_ntop4\<close> prints for four bytes into a buffer of at least 16 bytes,
  \<^verbatim>\<open>inet_pton4\<close> reads back as the same bytes.\<close>

theorem inet_ntop4_roundtrip:
  assumes "length bs = 4" "16 \<le> n"
  shows "\<exists>s. inet_ntop4 bs n = Dst s \<and> inet_pton4 s = Accept bs"
  using assms length_dotted [of bs] pton4_complete [OF dotted_is_quad [OF assms(1)]] by (auto simp: inet_ntop4_eq)

theorem inet_ntop4_roundtrip_witness:
  "\<exists>s. inet_ntop4 [127, 0, 0, 1] 16 = Dst s \<and> inet_pton4 s = Accept [127, 0, 0, 1]"
  by (rule inet_ntop4_roundtrip) simp_all

text \<open>The space check of \<^verbatim>\<open>inet_ntop4\<close> is off by one: when the text is exactly as long
  as the buffer, the terminating NUL is written past its end, where the other
  version of the function, in \<^verbatim>\<open>inet_ntop_ipv4.c\<close>, reports the lack of space.\<close>

theorem inet_ntop4_off_by_one:
  "inet_ntop4 bs (length (dotted bs)) = Smash \<and> inet_ntop_ipv4 AF_INET bs (length (dotted bs)) = No_space"
  using length_dotted [of bs] by (simp add: inet_ntop4_eq inet_ntop_ipv4_def)

section \<open>The older conversion\<close>

lemma aton_digits:
  "\<forall>c \<in> set s. isdigit c \<Longrightarrow> aton_loop (s @ r) dots (word_of_nat (digits_val p)) addr =
    aton_loop r dots (word_of_nat (digits_val (p @ s))) addr"
proof (induction s arbitrary: p)
  case (Cons c s)
  then show ?case using Cons.IH [of "p @ [c]"] by (simp add: mult.commute)
qed simp

lemma aton_octet:
  assumes "octet f"
  shows "aton_loop (f @ r) dots 0 addr = aton_loop r dots (word_of_nat (digits_val f)) addr"
    "\<not> (word_of_nat (digits_val f) :: 64 word) > 255"
proof -
  show "aton_loop (f @ r) dots 0 addr = aton_loop r dots (word_of_nat (digits_val f)) addr"
    using aton_digits [of f r dots "[]" addr] assms by (simp add: octet_def digits_val_def)
  have "digits_val f \<le> 255" using assms by (simp add: octet_def)
  then show "\<not> (word_of_nat (digits_val f) :: 64 word) > 255"
    by (simp add: not_less word_le_nat_alt unat_of_nat)
qed

lemma word_of_byte: "n \<le> 255 \<Longrightarrow> (word_of_nat n :: 64 word) = ucast (word_of_nat n :: byte)"
  by (simp add: unsigned_of_nat take_bit_nat_eq_self)

lemma be32_packed:
  "be32_bytes (or (push_bit 8 (or (push_bit 8 (or (push_bit 8 (ucast (a :: byte))) (ucast (b :: byte)))) (ucast (c :: byte)))) (ucast (d :: byte))) =
    [a, b, c, d]"
  unfolding be32_bytes_def
  by (auto simp: upt_rec intro!: bit_word_eqI) (auto simp: bit_simps dest: bit_imp_le_length)

text \<open>On a dotted quad the older \<^verbatim>\<open>inet_aton\<close> finds the same four bytes as
  \<^verbatim>\<open>inet_pton4\<close>, so that the IPv4-only version of \<^verbatim>\<open>inet_pton\<close> built on it accepts
  every address that the newer one accepts.\<close>

theorem inet_aton_agrees:
  assumes "inet_pton4 s = Accept bs"
  shows "inet_aton s = Some bs \<and> inet_pton_ipv4 AF_INET s = Accept bs"
proof -
  have "dotted_quad s bs" using assms by (rule pton4_quad)
  then obtain a b c d where o: "octet a" "octet b" "octet c" "octet d" and s: "s = a @ ''.'' @ b @ ''.'' @ c @ ''.'' @ d"
    and bs: "bs = map (\<lambda>f. word_of_nat (digits_val f)) [a, b, c, d]"
    unfolding dotted_quad_def by (auto simp: length_Suc_conv eval_nat_numeral)
  have le: "digits_val a \<le> 255" "digits_val b \<le> 255" "digits_val c \<le> 255" "digits_val d \<le> 255" using o by (auto simp: octet_def)
  have "aton_loop s 0 0 0 = Some (3, or (push_bit 8 (or (push_bit 8 (or (push_bit 8 (word_of_nat (digits_val a)))
      (word_of_nat (digits_val b)))) (word_of_nat (digits_val c)))) (word_of_nat (digits_val d)))"
    unfolding s by (simp add: aton_octet o isdigit_def aton_octet(1) [OF o(4), of "[]", simplified])
  then have "inet_aton s = Some bs"
    unfolding inet_aton_def bs le [THEN word_of_byte] by (simp add: be32_packed [simplified])
  then show ?thesis by (simp add: inet_pton_ipv4_def)
qed

theorem inet_aton_agrees_witness:
  "inet_aton ''10.0.0.255'' = Some [10, 0, 0, 255] \<and> inet_pton_ipv4 AF_INET ''10.0.0.255'' = Accept [10, 0, 0, 255]"
  by (rule inet_aton_agrees) code_simp

text \<open>The converse fails: the accumulator wraps around, and a missing field counts as zero.\<close>

lemma inet_aton_lax:
  "inet_aton ''18446744073709551617.2.3.4'' = Some [1, 2, 3, 4]" "inet_aton [] = Some [0, 0, 0, 0]"
  "inet_aton ''10.1'' = Some [10, 1, 0, 0]"
  by code_simp+

end
