(* ===== verification/Inet_Addr6.thy ===== *)
theory Inet_Addr6
  imports Inet_Addr
begin

text \<open>
  Conversion of IPv6 addresses, \<^verbatim>\<open>unpv13e/libfree/inet_pton.c\<close> and
  \<^verbatim>\<open>inet_ntop.c\<close>: the parser with its \<^verbatim>\<open>::\<close> shorthand and embedded IPv4
  addresses, the printer that shortens the longest run of zeros, and the
  functions that dispatch on the address family.
\<close>

abbreviation (input) IN6ADDRSZ :: nat where "IN6ADDRSZ \<equiv> 16"
abbreviation (input) INT16SZ :: nat where "INT16SZ \<equiv> 2"

section \<open>Text to bytes\<close>

text \<open>The position of a character in \<^verbatim>\<open>xdigits_l\<close> or \<^verbatim>\<open>xdigits_u\<close>.\<close>

definition xdigit :: "char \<Rightarrow> nat option" where
  "xdigit ch =
     (let n = of_char ch :: nat
      in if 48 \<le> n \<and> n \<le> 57 then Some (n - 48)
         else if 97 \<le> n \<and> n \<le> 102 then Some (n - 87)
         else if 65 \<le> n \<and> n \<le> 70 then Some (n - 55)
         else None)"

definition put16 :: "byte list \<Rightarrow> nat \<Rightarrow> nat \<Rightarrow> byte list" where
  "put16 tmp tp val = tmp[tp := word_of_nat (val div 256), Suc tp := word_of_nat val]"

text \<open>The state after the loop: the array, \<^verbatim>\<open>tp\<close> and \<^verbatim>\<open>colonp\<close> as indices into it,
  \<^verbatim>\<open>saw_xdigit\<close> and \<^verbatim>\<open>val\<close>; \<open>None\<close> when the function returns 0.\<close>

type_synonym pton6_state = "byte list \<times> nat \<times> nat option \<times> bool \<times> nat"

fun pton6_loop :: "string \<Rightarrow> string \<Rightarrow> byte list \<Rightarrow> nat \<Rightarrow> nat option \<Rightarrow> bool \<Rightarrow> nat \<Rightarrow> pton6_state option" where
  "pton6_loop [] curtok tmp tp colonp saw_xdigit val = Some (tmp, tp, colonp, saw_xdigit, val)"
| "pton6_loop (ch # src) curtok tmp tp colonp saw_xdigit val =
     (case xdigit ch of
        Some d \<Rightarrow>
          let val = val * 16 + d
          in if val > 0xffff then None else pton6_loop src curtok tmp tp colonp True val
      | None \<Rightarrow>
          if ch = CHR '':'' then
            if \<not> saw_xdigit
            then if colonp \<noteq> None then None else pton6_loop src src tmp tp (Some tp) saw_xdigit val
            else if tp + INT16SZ > IN6ADDRSZ then None
            else pton6_loop src src (put16 tmp tp val) (tp + 2) colonp False 0
          else if ch = CHR ''.'' \<and> tp + 4 \<le> IN6ADDRSZ then
            case inet_pton4 curtok of
              Accept bs \<Rightarrow> Some (take tp tmp @ bs @ drop (tp + 4) tmp, tp + 4, colonp, False, val)
            | _ \<Rightarrow> None
          else None)"

text \<open>Moving what follows the \<^verbatim>\<open>::\<close> to the end, byte by byte.\<close>

function shift6 :: "byte list \<Rightarrow> nat \<Rightarrow> nat \<Rightarrow> nat \<Rightarrow> byte list" where
  "shift6 tmp colonp n i =
     (if i > n then tmp
      else shift6 (tmp[IN6ADDRSZ - i := tmp ! (colonp + n - i), colonp + n - i := 0]) colonp n (Suc i))"
  by auto
termination by (relation "measure (\<lambda>(tmp, colonp, n, i). Suc n - i)") auto

declare shift6.simps [simp del]

definition pton6_end :: "pton6_state \<Rightarrow> conv" where
  "pton6_end st = (case st of (tmp, tp, colonp, saw_xdigit, val) \<Rightarrow>
     if saw_xdigit \<and> tp + INT16SZ > IN6ADDRSZ then Reject
     else
     let (tmp, tp) = (if saw_xdigit then (put16 tmp tp val, tp + 2) else (tmp, tp));
         (tmp, tp) = (case colonp of None \<Rightarrow> (tmp, tp) | Some cp \<Rightarrow> (shift6 tmp cp (tp - cp) 1, IN6ADDRSZ))
     in if tp \<noteq> IN6ADDRSZ then Reject else Accept tmp)"

definition pton6_run :: "string \<Rightarrow> conv" where
  "pton6_run src =
     (case pton6_loop src src (replicate IN6ADDRSZ 0) 0 None False 0 of None \<Rightarrow> Reject | Some st \<Rightarrow> pton6_end st)"

definition inet_pton6 :: "string \<Rightarrow> conv" where
  "inet_pton6 src =
     (case src of
        [] \<Rightarrow> pton6_run src
      | c # src' \<Rightarrow>
          if c = CHR '':'' then (if take 1 src' \<noteq> '':'' then Reject else pton6_run src') else pton6_run src)"

definition inet_pton :: "int \<Rightarrow> string \<Rightarrow> conv" where
  "inet_pton af src =
     (if af = AF_INET then inet_pton4 src else if af = AF_INET6 then inet_pton6 src else Bad_family)"

section \<open>Bytes to text\<close>

definition hexdigit :: "nat \<Rightarrow> char" where
  "hexdigit d = (if d < 10 then char_of (48 + d) else char_of (87 + d))"

fun hex :: "nat \<Rightarrow> string" where
  "hex n = (if n < 16 then [hexdigit n] else hex (n div 16) @ [hexdigit (n mod 16)])"

declare hex.simps [simp del]

definition words6 :: "byte list \<Rightarrow> nat list" where
  "words6 src = map (\<lambda>i. unat (src ! (2 * i)) * 256 + unat (src ! (2 * i + 1))) [0..<8]"

text \<open>A run of zero words: \<open>None\<close> for the base \<open>-1\<close>.\<close>

type_synonym run = "(nat \<times> nat) option"

definition better :: "run \<Rightarrow> run \<Rightarrow> run" where
  "better cur best =
     (case cur of
        None \<Rightarrow> best
      | Some (cb, cl) \<Rightarrow> (case best of None \<Rightarrow> cur | Some (bb, bl) \<Rightarrow> if cl > bl then cur else best))"

fun find_run :: "nat list \<Rightarrow> nat \<Rightarrow> run \<Rightarrow> run \<Rightarrow> run" where
  "find_run [] i cur best = better cur best"
| "find_run (w # ws) i cur best =
     (if w = 0
      then find_run ws (Suc i) (case cur of None \<Rightarrow> Some (i, 1) | Some (b, l) \<Rightarrow> Some (b, Suc l)) best
      else find_run ws (Suc i) None (better cur best))"

definition best_run :: "nat list \<Rightarrow> run" where
  "best_run ws =
     (case find_run ws 0 None None of
        None \<Rightarrow> None
      | Some (b, l) \<Rightarrow> if l < 2 then None else Some (b, l))"

definition in_run :: "run \<Rightarrow> nat \<Rightarrow> bool" where
  "in_run best i = (case best of None \<Rightarrow> False | Some (b, l) \<Rightarrow> b \<le> i \<and> i < b + l)"

definition embedded :: "nat list \<Rightarrow> run \<Rightarrow> bool" where
  "embedded words best = (case best of None \<Rightarrow> False
     | Some (b, l) \<Rightarrow> b = 0 \<and> (l = 6 \<or> l = 5 \<and> words ! 5 = 0xffff))"

text \<open>\<open>out\<close> is what \<^verbatim>\<open>tmp\<close> holds before \<^verbatim>\<open>tp\<close>; \<open>ws\<close> are the words from \<open>i\<close> on.\<close>

fun format6 :: "byte list \<Rightarrow> nat list \<Rightarrow> run \<Rightarrow> nat list \<Rightarrow> nat \<Rightarrow> string \<Rightarrow> text_conv" where
  "format6 src words best [] i out = Dst out"
| "format6 src words best (w # ws) i out =
     (if in_run best i then
        format6 src words best ws (Suc i) (if best = Some (i, snd (the best)) then out @ '':'' else out)
      else
        let out = (if i \<noteq> 0 then out @ '':'' else out)
        in if i = 6 \<and> embedded words best then
             case inet_ntop4 (drop 12 src) (46 - length out) of Dst s \<Rightarrow> Dst (out @ s) | r \<Rightarrow> r
           else format6 src words best ws (Suc i) (out @ hex w))"

definition inet_ntop6 :: "byte list \<Rightarrow> nat \<Rightarrow> text_conv" where
  "inet_ntop6 src size' =
     (let words = words6 src; best = best_run words
      in case format6 src words best words 0 [] of
           Dst out \<Rightarrow>
             let out = (case best of None \<Rightarrow> out | Some (b, l) \<Rightarrow> if b + l = 8 then out @ '':'' else out)
             in if length out + 1 > 46 then Smash
                else if length out + 1 > size' then No_space
                else strcpy_to size' out
         | r \<Rightarrow> r)"

definition inet_ntop :: "int \<Rightarrow> byte list \<Rightarrow> nat \<Rightarrow> text_conv" where
  "inet_ntop af src size' =
     (if af = AF_INET then inet_ntop4 src size' else if af = AF_INET6 then inet_ntop6 src size' else No_family)"

section \<open>Parsing groups\<close>

definition wbytes :: "nat list \<Rightarrow> byte list" where
  "wbytes ws = concat (map (\<lambda>w. [word_of_nat (w div 256), word_of_nat w]) ws)"

definition colons :: "nat list \<Rightarrow> string" where
  "colons ws = concat (map (\<lambda>w. hex w @ '':'') ws)"

lemma wbytes_simps [simp]:
  "wbytes [] = []" "wbytes (w # ws) = word_of_nat (w div 256) # word_of_nat w # wbytes ws"
  "wbytes (ws @ vs) = wbytes ws @ wbytes vs" "length (wbytes ws) = 2 * length ws"
  by (simp_all add: wbytes_def length_concat comp_def sum_list_triv)

lemma colons_simps [simp]:
  "colons [] = []" "colons (w # ws) = hex w @ CHR '':'' # colons ws" "colons (ws @ vs) = colons ws @ colons vs"
  by (simp_all add: colons_def)

lemma xdigit_hexdigit: "d < 16 \<Longrightarrow> xdigit (hexdigit d) = Some d"
  by (simp add: xdigit_def hexdigit_def)

lemma xdigit_sep: "xdigit (CHR '':'') = None" "xdigit (CHR ''.'') = None"
  by (simp_all add: xdigit_def)

lemma pton6_hex:
  "w < 65536 \<Longrightarrow> pton6_loop (hex w @ r) cur tmp tp col saw 0 = pton6_loop r cur tmp tp col True w"
proof (induction w arbitrary: r rule: hex.induct)
  case (1 w)
  show ?case
  proof (cases "w < 16")
    case True
    then show ?thesis by (simp add: hex.simps [of w] xdigit_hexdigit)
  next
    case False
    have "w div 16 * 16 + w mod 16 = w" by simp
    then show ?thesis using False 1 by (simp add: hex.simps [of w] xdigit_hexdigit)
  qed
qed

lemma put16_at: "length A = tp \<Longrightarrow> put16 (A @ x # y # B) tp w = A @ wbytes [w] @ B"
  by (simp add: put16_def list_update_append)

lemma pton6_group:
  assumes "w < 65536" "length A = tp" "length A + 2 \<le> IN6ADDRSZ"
  shows "pton6_loop (hex w @ CHR '':'' # r) cur (A @ x # y # B) tp col False 0 =
    pton6_loop r r (A @ wbytes [w] @ B) (tp + 2) col False 0"
  using assms by (simp add: pton6_hex xdigit_sep put16_at)

lemma pton6_groups:
  assumes "\<forall>w \<in> set ws. w < 65536" "length A = tp" "length A + 2 * length ws + length B = IN6ADDRSZ"
    "length Z = 2 * length ws"
  shows "pton6_loop (colons ws @ r) cur (A @ Z @ B) tp col False 0 =
    pton6_loop r (if ws = [] then cur else r) (A @ wbytes ws @ B) (tp + 2 * length ws) col False 0"
  using assms
proof (induction ws arbitrary: A tp cur Z)
  case (Cons w ws)
  obtain x y Z' where Z: "Z = x # y # Z'" "length Z' = 2 * length ws"
    using Cons.prems(4) by (cases Z; cases "tl Z") auto
  have "pton6_loop (colons (w # ws) @ r) cur (A @ Z @ B) tp col False 0 =
      pton6_loop (colons ws @ r) (colons ws @ r) ((A @ wbytes [w]) @ Z' @ B) (tp + 2) col False 0"
    using pton6_group [of w A tp "colons ws @ r" cur x y "Z' @ B" col] Cons.prems Z by simp
  also have "\<dots> = pton6_loop r (if ws = [] then colons ws @ r else r) ((A @ wbytes [w]) @ wbytes ws @ B) (tp + 2 + 2 * length ws) col False 0"
    using Cons.prems Z by (intro Cons.IH) simp_all
  finally show ?case by (simp add: algebra_simps)
qed simp

lemma shift6_gap:
  "length A + length xs + g + length ys = IN6ADDRSZ \<Longrightarrow> 0 < g \<Longrightarrow>
    shift6 (A @ xs @ replicate g 0 @ ys) (length A) (length xs + length ys) (Suc (length ys)) = A @ replicate g 0 @ xs @ ys"
proof (induction xs arbitrary: ys rule: rev_induct)
  case Nil
  then show ?case by (simp add: shift6.simps)
next
  case (snoc x xs)
  obtain h where g: "g = Suc h" using snoc.prems(2) by (cases g) auto
  have at: "15 - length ys = length (A @ xs @ [x] @ replicate h 0)"
    "length A + (length (xs @ [x]) + length ys) - Suc (length ys) = length (A @ xs)"
    using snoc.prems(1) g by auto
  let ?t = "A @ (xs @ [x]) @ replicate g 0 @ ys"
  have t: "?t = (A @ xs) @ x # replicate h 0 @ 0 # ys" by (simp add: g replicate_append_same)
  have "?t ! length (A @ xs) = x" unfolding t by (rule nth_append_length)
  moreover have "?t[length (A @ xs @ [x] @ replicate h 0) := x, length (A @ xs) := 0] = A @ xs @ replicate g 0 @ x # ys"
    unfolding t by (simp add: list_update_append g)
  ultimately have "shift6 ?t (length A) (length (xs @ [x]) + length ys) (Suc (length ys)) =
      shift6 (A @ xs @ replicate g 0 @ x # ys) (length A) (length xs + length (x # ys)) (Suc (length (x # ys)))"
    by (subst shift6.simps) (simp add: at del: length_append, simp)
  then show ?case using snoc.IH [of "x # ys"] snoc.prems by simp
qed

section \<open>The tail after the double colon\<close>

text \<open>Parsing the rest of the text with the double colon behind it, and the end of the function.\<close>

definition tail6 :: "string \<Rightarrow> byte list \<Rightarrow> conv" where
  "tail6 r A =
     (case pton6_loop r r (A @ replicate (IN6ADDRSZ - length A) 0) (length A) (Some (length A)) False 0 of
        None \<Rightarrow> Reject | Some st \<Rightarrow> pton6_end st)"

lemma pton6_end_shift:
  assumes "length A + length X + g = IN6ADDRSZ" "0 < g"
  shows "pton6_end (A @ X @ replicate g 0, length A + length X, Some (length A), False, v) = Accept (A @ replicate g 0 @ X)"
  using shift6_gap [of A X g "[]"] assms by (simp add: pton6_end_def)

lemma pton6_end_last:
  assumes "length A + length X + 2 + g = IN6ADDRSZ" "0 < g"
  shows "pton6_end (A @ X @ replicate (2 + g) 0, length A + length X, Some (length A), True, w) =
    Accept (A @ replicate g 0 @ X @ wbytes [w])"
proof -
  have "put16 (A @ X @ replicate (2 + g) 0) (length A + length X) w = A @ (X @ wbytes [w]) @ replicate g 0"
    using put16_at [of "A @ X" "length A + length X" 0 0 "replicate g 0" w] by simp
  then show ?thesis using shift6_gap [of A "X @ wbytes [w]" g "[]"] assms by (simp add: pton6_end_def)
qed

lemma tail6_groups:
  assumes "\<forall>w \<in> set ws. w < 65536" "w < 65536" "length A + 2 * length ws + 2 + g = IN6ADDRSZ" "0 < g"
  shows "tail6 (colons ws @ hex w) A = Accept (A @ replicate g 0 @ wbytes (ws @ [w]))"
proof -
  have r: "replicate (IN6ADDRSZ - length A) (0 :: byte) = replicate (2 * length ws) 0 @ replicate (2 + g) 0"
  proof -
    have "IN6ADDRSZ - length A = 2 * length ws + (2 + g)" using assms(3) by simp
    then show ?thesis by (simp only: replicate_add)
  qed
  have "pton6_loop (colons ws @ hex w) (colons ws @ hex w) (A @ replicate (2 * length ws) 0 @ replicate (2 + g) 0)
      (length A) (Some (length A)) False 0 =
      Some (A @ wbytes ws @ replicate (2 + g) 0, length A + 2 * length ws, Some (length A), True, w)"
    using assms pton6_groups [of ws A "length A" "replicate (2 + g) 0" "replicate (2 * length ws) 0" "hex w"]
      pton6_hex [of w "[]"] by simp
  then show ?thesis
    using pton6_end_last [of A "wbytes ws" g w] assms unfolding tail6_def r by simp
qed

lemma tail6_empty: "length A + g = IN6ADDRSZ \<Longrightarrow> 0 < g \<Longrightarrow> tail6 [] A = Accept (A @ replicate g 0)"
  using pton6_end_shift [of A "[]" g] by (simp add: tail6_def) (metis add_diff_cancel_left')

text \<open>An embedded IPv4 address: its first octet is read as a hexadecimal number first.\<close>

lemma pton6_digits:
  "\<forall>c \<in> set s. isdigit c \<Longrightarrow> (v + 1) * 16 ^ length s \<le> 65536 \<Longrightarrow>
    \<exists>v' saw'. pton6_loop (s @ r) cur tmp tp col saw v = pton6_loop r cur tmp tp col saw' v'"
proof (induction s arbitrary: v saw)
  case (Cons c s)
  have x: "xdigit c = Some (digit_val c)" "digit_val c < 10"
    using Cons.prems(1) digit_val_less [of c] by (auto simp: xdigit_def digit_val_def isdigit_def)
  have "(v * 16 + digit_val c + 1) * 16 ^ length s \<le> ((v + 1) * 16) * 16 ^ length s"
    by (rule mult_le_mono1) (use x(2) in simp)
  then have b: "(v * 16 + digit_val c + 1) * 16 ^ length s \<le> 65536" 
    using Cons.prems(2) unfolding length_Cons power_Suc mult.assoc by (rule order_trans)
  have "v * 16 + digit_val c + 1 \<le> (v * 16 + digit_val c + 1) * 16 ^ length s"
    using mult_le_mono2 [of 1 "16 ^ length s" "v * 16 + digit_val c + 1"] by simp
  from order_trans [OF this b] have "v * 16 + digit_val c + 1 \<le> 65536" .
  then show ?case using x Cons.IH [OF _ b, of True] Cons.prems(1) by simp
qed auto

lemma pton6_embedded:
  assumes "length bs = 4" "tp + 4 \<le> IN6ADDRSZ"
  shows "\<exists>v. pton6_loop (dotted bs) (dotted bs) tmp tp col False 0 =
    Some (take tp tmp @ bs @ drop (tp + 4) tmp, tp + 4, col, False, v)"
proof -
  obtain r where r: "dotted bs = dec (unat (bs ! 0)) @ CHR ''.'' # r" by (simp add: dotted_def)
  have "(0 + 1) * 16 ^ length (dec (unat (bs ! 0))) \<le> (16 ^ 3 :: nat)"
    using power_increasing [OF length_dec_byte [of "bs ! 0"], of "16 :: nat"] by simp
  then obtain v saw where "pton6_loop (dotted bs) (dotted bs) tmp tp col False 0 = pton6_loop (CHR ''.'' # r) (dotted bs) tmp tp col saw v"
    using pton6_digits [of "dec (unat (bs ! 0))" 0 "CHR ''.'' # r" "dotted bs" tmp tp col False] isdigit_dec unfolding r by auto
  then show ?thesis using assms pton4_complete [OF dotted_is_quad [OF assms(1)]] by (simp add: xdigit_sep)
qed

lemma tail6_embedded:
  assumes "\<forall>w \<in> set ws. w < 65536" "length bs = 4" "length A + 2 * length ws + 4 + g = IN6ADDRSZ" "0 < g"
  shows "tail6 (colons ws @ dotted bs) A = Accept (A @ replicate g 0 @ wbytes ws @ bs)"
proof -
  have r: "replicate (IN6ADDRSZ - length A) (0 :: byte) = replicate (2 * length ws) 0 @ replicate (4 + g) 0"
  proof -
    have "IN6ADDRSZ - length A = 2 * length ws + (4 + g)" using assms(3) by simp
    then show ?thesis by (simp only: replicate_add)
  qed
  let ?t = "A @ wbytes ws @ replicate (4 + g) 0"
  obtain v where v: "pton6_loop (dotted bs) (dotted bs) ?t (length A + 2 * length ws) (Some (length A)) False 0 =
      Some (take (length A + 2 * length ws) ?t @ bs @ drop (length A + 2 * length ws + 4) ?t, length A + 2 * length ws + 4,
        Some (length A), False, v)"
    using pton6_embedded [of bs "length A + 2 * length ws" ?t "Some (length A)"] assms by auto
  have "pton6_loop (colons ws @ dotted bs) (colons ws @ dotted bs) (A @ replicate (2 * length ws) 0 @ replicate (4 + g) 0)
      (length A) (Some (length A)) False 0 =
      Some (A @ (wbytes ws @ bs) @ replicate g 0, length A + 2 * length ws + 4, Some (length A), False, v)"
    using assms pton6_groups [of ws A "length A" "replicate (4 + g) 0" "replicate (2 * length ws) 0" "dotted bs"] v
    by (cases "ws = []") simp_all
  then show ?thesis
    using pton6_end_shift [of A "wbytes ws @ bs" g v] assms unfolding tail6_def r by (simp add: add.assoc)
qed

section \<open>The whole address\<close>

lemma hd_hex: "hex w \<noteq> []" "hd (hex w) \<noteq> CHR '':''"
proof -
  show ne: "hex w \<noteq> []" for w by (subst hex.simps) simp
  have "xdigit (hd (hex w)) \<noteq> None"
  proof (induction w rule: hex.induct)
    case (1 w)
    then show ?case using ne [of "w div 16"] by (subst hex.simps) (auto simp: xdigit_hexdigit hd_append)
  qed
  then show "hd (hex w) \<noteq> CHR '':''" using xdigit_sep by metis
qed

lemma inet_pton6_plain: "s \<noteq> [] \<Longrightarrow> hd s \<noteq> CHR '':'' \<Longrightarrow> inet_pton6 s = pton6_run s"
  by (cases s) (simp_all add: inet_pton6_def)

lemma inet_pton6_run:
  assumes "\<forall>w \<in> set pre. w < 65536" "length pre \<le> 8"
  shows "inet_pton6 ((if pre = [] then '':'' else colons pre) @ CHR '':'' # r) = tail6 r (wbytes pre)"
proof (cases "pre = []")
  case True
  then show ?thesis by (simp add: inet_pton6_def pton6_run_def tail6_def xdigit_sep)
next
  case False
  then obtain p ps where p: "pre = p # ps" by (cases pre) auto
  let ?k = "IN6ADDRSZ - 2 * length pre"
  have z: "replicate IN6ADDRSZ (0 :: byte) = replicate (2 * length pre) 0 @ replicate ?k 0"
    using assms(2) by (simp flip: replicate_add)
  have "pton6_loop (colons pre @ CHR '':'' # r) (colons pre @ CHR '':'' # r) (replicate IN6ADDRSZ 0) 0 None False 0 =
      pton6_loop r r (wbytes pre @ replicate ?k 0) (2 * length pre) (Some (2 * length pre)) False 0"
    using pton6_groups [of pre "[]" 0 "replicate ?k 0" "replicate (2 * length pre) 0" "CHR '':'' # r"] assms False
    unfolding z by (simp add: xdigit_sep)
  moreover have "inet_pton6 (colons pre @ CHR '':'' # r) = pton6_run (colons pre @ CHR '':'' # r)"
    using hd_hex [of p] by (intro inet_pton6_plain) (simp_all add: p)
  ultimately show ?thesis using False by (simp add: pton6_run_def tail6_def)
qed

lemma inet_pton6_full:
  assumes "\<forall>w \<in> set ws. w < 65536" "w < 65536" "length ws = 7"
  shows "inet_pton6 (colons ws @ hex w) = Accept (wbytes (ws @ [w]))"
proof -
  obtain p ps where p: "ws = p # ps" using assms(3) by (cases ws) auto
  have z: "replicate IN6ADDRSZ (0 :: byte) = replicate (2 * length ws) 0 @ [0, 0]"
    using assms(3) by (simp add: eval_nat_numeral)
  have "pton6_loop (colons ws @ hex w) (colons ws @ hex w) (replicate IN6ADDRSZ 0) 0 None False 0 =
      Some (wbytes ws @ [0, 0], 14, None, True, w)"
    using pton6_groups [of ws "[]" 0 "[0, 0]" "replicate (2 * length ws) 0" "hex w"] pton6_hex [of w "[]"] assms
    unfolding z by simp
  moreover have "put16 (wbytes ws @ [0, 0]) 14 w = wbytes (ws @ [w])"
    using put16_at [of "wbytes ws" 14 0 0 "[]" w] assms(3) by simp
  moreover have "inet_pton6 (colons ws @ hex w) = pton6_run (colons ws @ hex w)"
    using hd_hex [of p] by (intro inet_pton6_plain) (simp_all add: p)
  ultimately show ?thesis by (simp add: pton6_run_def pton6_end_def)
qed

section \<open>The longest run of zeros\<close>

definition zero_run :: "nat list \<Rightarrow> nat \<Rightarrow> run \<Rightarrow> bool" where
  "zero_run ws i r \<longleftrightarrow> (case r of None \<Rightarrow> True
     | Some (b, l) \<Rightarrow> 0 < l \<and> b + l \<le> i \<and> (\<forall>j. b \<le> j \<longrightarrow> j < b + l \<longrightarrow> ws ! j = 0))"

lemma zero_run_better: "zero_run ws i cur \<Longrightarrow> zero_run ws i best \<Longrightarrow> zero_run ws i (better cur best)"
  by (auto simp: better_def split: option.split)

lemma zero_run_Suc: "zero_run ws i r \<Longrightarrow> zero_run ws (Suc i) r"
  by (auto simp: zero_run_def split: option.splits)

lemma find_run_zeros:
  assumes "drop i ws = us" "i \<le> length ws" "zero_run ws i cur" "\<forall>b l. cur = Some (b, l) \<longrightarrow> b + l = i" "zero_run ws i best"
  shows "zero_run ws (length ws) (find_run us i cur best)"
  using assms
proof (induction us arbitrary: i cur best)
  case Nil
  then show ?case using zero_run_better [of ws i cur best] by simp
next
  case (Cons w us)
  have i: "i < length ws" using Cons.prems(1) by (cases "i < length ws") simp_all
  have w: "ws ! i = w" "drop (Suc i) ws = us" "Suc i \<le> length ws"
    using Cons.prems(1) Cons_nth_drop_Suc [OF i] i by simp_all
  show ?case
  proof (cases "w = 0")
    case True
    let ?c = "case cur of None \<Rightarrow> Some (i, 1) | Some (b, l) \<Rightarrow> Some (b, Suc l)"
    have "zero_run ws (Suc i) ?c" using Cons.prems(3,4) w(1) True
      by (auto simp: zero_run_def less_Suc_eq split: option.splits)
    moreover have "\<forall>b l. ?c = Some (b, l) \<longrightarrow> b + l = Suc i" using Cons.prems(4) by (auto split: option.splits)
    ultimately show ?thesis using Cons.IH [of "Suc i" ?c best] w True zero_run_Suc [OF Cons.prems(5)] by simp
  next
    case False
    have "zero_run ws (Suc i) None" by (simp add: zero_run_def)
    then show ?thesis
      using Cons.IH [of "Suc i" None "better cur best"] w False zero_run_Suc [OF zero_run_better [OF Cons.prems(3,5)]] by simp
  qed
qed

lemma best_run_split:
  assumes "best_run ws = Some (b, l)"
  shows "2 \<le> l" "b + l \<le> length ws" "ws = take b ws @ replicate l 0 @ drop (b + l) ws"
proof -
  have f: "find_run ws 0 None None = Some (b, l)" "2 \<le> l"
    using assms by (auto simp: best_run_def split: option.splits if_splits)
  then have z: "b + l \<le> length ws" "\<forall>j. b \<le> j \<longrightarrow> j < b + l \<longrightarrow> ws ! j = 0"
    using find_run_zeros [of 0 ws ws None None] by (auto simp: zero_run_def)
  have "take l (drop b ws) = replicate l 0" using z by (intro nth_equalityI) auto
  then show "ws = take b ws @ replicate l 0 @ drop (b + l) ws"
    by (metis append_take_drop_id drop_drop add.commute)
  show "2 \<le> l" "b + l \<le> length ws" using f z by auto
qed

section \<open>Printing\<close>

abbreviation more :: "nat list \<Rightarrow> string" where
  "more ws \<equiv> concat (map (\<lambda>w. CHR '':'' # hex w) ws)"

lemma more_colons: "more ws @ CHR '':'' # r = CHR '':'' # colons ws @ r"
  by (induction ws) auto

lemma more_last: "more (ws @ [w]) = CHR '':'' # colons ws @ hex w"
  using more_colons [of ws "hex w"] by simp

lemma format6_more:
  assumes "\<forall>j. i \<le> j \<longrightarrow> j < i + length us \<longrightarrow> \<not> in_run best j" "0 < i" "\<not> embedded words best \<or> i + length us \<le> 6"
  shows "format6 src words best (us @ vs) i out = format6 src words best vs (i + length us) (out @ more us)"
  using assms
proof (induction us arbitrary: i out)
  case (Cons u us)
  have "\<not> in_run best i" "\<not> (i = 6 \<and> embedded words best)" using Cons.prems by auto
  then have "format6 src words best ((u # us) @ vs) i out = format6 src words best (us @ vs) (Suc i) (out @ CHR '':'' # hex u)"
    using Cons.prems(2) by (simp add: Let_def) blast
  then show ?case using Cons.IH [of "Suc i" "out @ CHR '':'' # hex u"] Cons.prems by simp
qed simp

lemma format6_pre:
  assumes "\<forall>j < length us. \<not> in_run best j" "\<not> embedded words best \<or> length us \<le> 6" "us \<noteq> []"
  shows "format6 src words best (us @ vs) 0 [] = format6 src words best vs (length us) (hex (hd us) @ more (tl us))"
proof -
  obtain u ts where u: "us = u # ts" using assms(3) by (cases us) auto
  have "\<not> in_run best 0" using assms(1) u by auto
  then show ?thesis using format6_more [of "Suc 0" ts best words src vs "hex u"] assms u by auto
qed

lemma format6_in_run:
  assumes "best = Some (b, l)" "b < i" "i + k \<le> b + l"
  shows "format6 src words best (replicate k 0 @ vs) i out = format6 src words best vs (i + k) out"
  using assms
proof (induction k arbitrary: i)
  case (Suc k)
  then show ?case using Suc.IH [of "Suc i"] by (simp add: in_run_def)
qed simp

lemma format6_run:
  assumes "best = Some (b, l)" "0 < l"
  shows "format6 src words best (replicate l 0 @ vs) b out = format6 src words best vs (b + l) (out @ '':'')"
proof -
  obtain k where "l = Suc k" using assms(2) by (cases l) auto
  then show ?thesis using format6_in_run [OF assms(1), of "Suc b" k] assms(1) by (simp add: in_run_def)
qed

section \<open>Round trip\<close>

lemma length_hex: "w < 65536 \<Longrightarrow> length (hex w) \<le> 4"
proof -
  have "w < 16 ^ Suc k \<Longrightarrow> length (hex w) \<le> Suc k" for k
  proof (induction k arbitrary: w)
    case (Suc k)
    then have "w div 16 < 16 ^ Suc k" by (simp add: less_mult_imp_div_less)
    then show ?case using Suc.IH by (subst hex.simps) simp
  qed (simp add: hex.simps)
  from this [of 3] show "w < 65536 \<Longrightarrow> length (hex w) \<le> 4" by simp
qed

lemma length_colons: "\<forall>w \<in> set ws. w < 65536 \<Longrightarrow> length (colons ws) \<le> 5 * length ws"
  by (induction ws) (auto dest: length_hex)

lemma words6_facts:
  "length (words6 src) = 8" "\<forall>w \<in> set (words6 src). w < 65536" "length src = 16 \<Longrightarrow> wbytes (words6 src) = src"
proof -
  show "length (words6 src) = 8" by (simp add: words6_def)
  have lt: "unat (b :: byte) < 256" for b using unsigned_less [of b, where ?'a = nat] by simp
  have "unat (x :: byte) * 256 + unat (y :: byte) < 65536" for x y using lt [of x] lt [of y] by simp
  then show "\<forall>w \<in> set (words6 src). w < 65536" by (auto simp: words6_def)
  have z: "(256 :: byte) = 0" by code_simp
  have w: "[word_of_nat ((unat x * 256 + unat y) div 256), word_of_nat (unat x * 256 + unat y)] = [x, y]" for x y :: byte
    using lt [of y] by (simp add: div_mult_self3 z)
  assume "length src = 16"
  then have "src = concat (map (\<lambda>i. [src ! (2 * i), src ! (2 * i + 1)]) [0..<8])"
    by (auto simp: upt_rec list_eq_iff_nth_eq less_Suc_eq eval_nat_numeral)
  then show "wbytes (words6 src) = src" unfolding wbytes_def words6_def map_map comp_def w by simp
qed

lemma wbytes_zeros [simp]: "wbytes (replicate l 0) = replicate (2 * l) 0"
  by (induction l) simp_all

text \<open>The text before the run, and what the loop adds after it.\<close>

lemma format6_to_run:
  assumes "best_run ws = Some (b, l)" "length ws = 8"
  shows "format6 src ws (Some (b, l)) ws 0 [] =
    format6 src ws (Some (b, l)) (drop (b + l) ws) (b + l) (if take b ws = [] then '':'' else colons (take b ws))"
proof -
  note r = best_run_split [OF assms(1)]
  let ?pre = "take b ws" and ?post = "drop (b + l) ws" and ?best = "Some (b, l)"
  have lb: "length ?pre = b" "0 < l" using r by auto
  have out: "format6 src ws ?best (replicate l 0 @ ?post) b t = format6 src ws ?best ?post (b + l) (t @ '':'')" for t
    using lb by (intro format6_run) simp_all
  have split: "format6 src ws ?best ws 0 [] = format6 src ws ?best (?pre @ replicate l 0 @ ?post) 0 []"
    using arg_cong [OF r(3), of "\<lambda>us. format6 src ws ?best us 0 []"] .
  show ?thesis
  proof (cases "?pre = []")
    case True
    then have "b = 0" using lb(1) by (metis list.size(3))
    then show ?thesis using out [of "[]"] True unfolding split by simp
  next
    case False
    then obtain p ps where p: "?pre = p # ps" by (cases ?pre) auto
    have "\<not> embedded ws ?best" using False lb by (auto simp: embedded_def)
    moreover have "\<forall>j < length ?pre. \<not> in_run ?best j" using lb by (auto simp: in_run_def)
    ultimately have "format6 src ws ?best (?pre @ replicate l 0 @ ?post) 0 [] =
        format6 src ws ?best (replicate l 0 @ ?post) b (hex p @ more ps)"
      using format6_pre [of ?pre ?best ws src "replicate l 0 @ ?post"] False lb p by simp
    moreover have "(hex p @ more ps) @ '':'' = colons ?pre" using more_colons [of ps "[]"] p by simp
    ultimately show ?thesis using out [of "hex p @ more ps"] False unfolding split by simp
  qed
qed

lemma format6_after:
  assumes "b + l + length post = 8" "0 < l" "\<not> embedded ws (Some (b, l))"
  shows "format6 src ws (Some (b, l)) post (b + l) out = Dst (out @ more post)"
  using format6_more [of "b + l" post "Some (b, l)" ws src "[]" out] assms by (simp add: in_run_def)

lemma inet_ntop6_dst:
  assumes "format6 bs (words6 bs) (best_run (words6 bs)) (words6 bs) 0 [] = Dst out"
    "s = (case best_run (words6 bs) of None \<Rightarrow> out | Some (b, l) \<Rightarrow> if b + l = 8 then out @ '':'' else out)"
    "length s \<le> 45" "46 \<le> n"
  shows "inet_ntop6 bs n = Dst s"
  using assms by (simp add: inet_ntop6_def Let_def strcpy_to_def)

lemma ntop6_no_run:
  assumes "length bs = 16" "46 \<le> n" "best_run (words6 bs) = None"
  shows "\<exists>s. inet_ntop6 bs n = Dst s \<and> inet_pton6 s = Accept bs"
proof -
  note w = words6_facts(1,2) [of bs] words6_facts(3) [OF assms(1)]
  obtain us u where u: "words6 bs = us @ [u]" using w(1) by (cases "words6 bs" rule: rev_cases) auto
  let ?s = "colons us @ hex u"
  have small: "\<forall>w \<in> set us. w < 65536" "u < 65536" and len: "length us = 7" using w(1,2) u by auto
  have ne: "words6 bs \<noteq> []" using w(1) by auto
  have "CHR '':'' # hex (hd (words6 bs)) @ more (tl (words6 bs)) = more (words6 bs)" using ne by (cases "words6 bs") auto
  also have "\<dots> = CHR '':'' # ?s" unfolding u by (rule more_last)
  finally have "hex (hd (words6 bs)) @ more (tl (words6 bs)) = ?s" by simp
  then have f: "format6 bs (words6 bs) None (words6 bs) 0 [] = Dst ?s"
    using format6_pre [of "words6 bs" None "words6 bs" bs "[]"] ne by (simp add: in_run_def embedded_def)
  have "length ?s \<le> 45" using length_colons [OF small(1)] length_hex [OF small(2)] len by simp
  then have "inet_ntop6 bs n = Dst ?s" using assms f by (intro inet_ntop6_dst) simp_all
  moreover have "inet_pton6 ?s = Accept bs" using inet_pton6_full [OF small len] w(3) u by simp
  ultimately show ?thesis by blast
qed

lemma ntop6_run:
  assumes "length bs = 16" "46 \<le> n" "best_run (words6 bs) = Some (b, l)" "\<not> embedded (words6 bs) (Some (b, l))"
  shows "\<exists>s. inet_ntop6 bs n = Dst s \<and> inet_pton6 s = Accept bs"
proof -
  note w = words6_facts(1,2) [of bs] words6_facts(3) [OF assms(1)] and r = best_run_split [OF assms(3)]
  let ?pre = "take b (words6 bs)" and ?post = "drop (b + l) (words6 bs)"
  let ?o = "if ?pre = [] then '':'' else colons ?pre"
  have lens: "length ?pre = b" "b + l + length ?post = 8" "length ?pre \<le> 8" "0 < l" using r w(1) by auto
  have small: "\<forall>w \<in> set ?pre. w < 65536" "\<forall>w \<in> set ?post. w < 65536" using w(2) by (auto dest: in_set_takeD in_set_dropD)
  have bs: "bs = wbytes ?pre @ replicate (2 * l) 0 @ wbytes ?post"
    using w(3) r(3) wbytes_simps(3) wbytes_zeros by metis
  have f: "format6 bs (words6 bs) (Some (b, l)) (words6 bs) 0 [] = Dst (?o @ more ?post)"
    using format6_to_run [OF assms(3) w(1)] format6_after [OF lens(2,4) assms(4)] by simp
  have lo: "length ?o \<le> 5 * b + 1" using length_colons [OF small(1)] lens(1) by auto
  show ?thesis
  proof (cases "?post = []")
    case True
    have "inet_ntop6 bs n = Dst (?o @ '':'')"
      using assms f True lens lo r(1) by (intro inet_ntop6_dst) auto
    moreover have "inet_pton6 (?o @ CHR '':'' # []) = Accept (wbytes ?pre @ replicate (2 * l) 0)"
      unfolding inet_pton6_run [OF small(1) lens(3)] using lens True by (intro tail6_empty) auto
    ultimately show ?thesis using bs True by auto
  next
    case False
    then obtain us u where u: "?post = us @ [u]" by (cases ?post rule: rev_cases) auto
    have sm: "\<forall>w \<in> set us. w < 65536" "u < 65536" and len: "length us + 1 = length ?post" using small(2) u by auto
    have more: "more ?post = CHR '':'' # colons us @ hex u" unfolding u by (rule more_last)
    have "length (?o @ more ?post) \<le> 45"
      using lo length_colons [OF sm(1)] length_hex [OF sm(2)] len lens unfolding more by simp
    then have "inet_ntop6 bs n = Dst (?o @ more ?post)" using assms f lens False by (intro inet_ntop6_dst) auto
    moreover have "inet_pton6 (?o @ more ?post) = Accept (wbytes ?pre @ replicate (2 * l) 0 @ wbytes (us @ [u]))"
      unfolding more inet_pton6_run [OF small(1) lens(3)] using sm len lens by (intro tail6_groups) auto
    then have "inet_pton6 (?o @ more ?post) = Accept bs" using bs unfolding u [symmetric] by simp
    ultimately show ?thesis by blast
  qed
qed

lemma ntop6_embedded:
  assumes "length bs = 16" "46 \<le> n" "best_run (words6 bs) = Some (b, l)" "embedded (words6 bs) (Some (b, l))"
  shows "\<exists>s. inet_ntop6 bs n = Dst s \<and> inet_pton6 s = Accept bs"
proof -
  note w = words6_facts(1,2) [of bs] words6_facts(3) [OF assms(1)] and r = best_run_split [OF assms(3)]
  obtain a0 a1 a2 a3 a4 a5 g h where W: "words6 bs = [a0, a1, a2, a3, a4, a5, g, h]"
    using w(1) by (auto simp: length_Suc_conv eval_nat_numeral)
  have b: "b = 0" "l = 6 \<or> l = 5 \<and> a5 = 0xffff" using assms(4) W by (auto simp: embedded_def)
  let ?v4 = "drop 12 bs"
  define gs where "gs = (if l = 6 then [] else [0xffff :: nat])"
  have gs: "length gs = 6 - l" "l \<le> 6" "0 < l" "\<forall>w \<in> set gs. w < 65536" using b by (auto simp: gs_def)
  have post: "drop l (words6 bs) = gs @ [g, h]" using b(2) W by (auto simp: gs_def)
  have "drop 12 (wbytes (words6 bs)) = wbytes [g, h]" unfolding W by simp
  then have v4: "?v4 = wbytes [g, h]" using w(3) by simp
  have bs: "bs = replicate (2 * l) 0 @ wbytes gs @ ?v4"
    using arg_cong [OF r(3), of wbytes] w(3) b(1) post v4 by simp
  have nt: "inet_ntop4 ?v4 m = Dst (dotted ?v4)" if "16 \<le> m" for m
    using length_dotted [of ?v4] that by (simp add: inet_ntop4_eq)
  have f: "format6 bs (words6 bs) (Some (b, l)) (words6 bs) 0 [] = Dst ('':'' @ CHR '':'' # colons gs @ dotted ?v4)"
  proof -
    have "format6 bs (words6 bs) (Some (b, l)) (words6 bs) 0 [] = format6 bs (words6 bs) (Some (0, l)) (gs @ [g, h]) l '':''"
      using format6_to_run [OF assms(3) w(1), of bs] b(1) post by simp
    also have "\<dots> = format6 bs (words6 bs) (Some (0, l)) [g, h] 6 ('':'' @ more gs)"
      using format6_more [of l gs "Some (0, l)" "words6 bs" bs "[g, h]" "'':''"] gs by (simp add: in_run_def)
    also have "\<dots> = Dst ('':'' @ more gs @ CHR '':'' # dotted ?v4)"
      using assms(4) b gs nt [where m = "46 - length ('':'' @ more gs @ '':'')"] length_hex [where w = 65535] by (auto simp: in_run_def gs_def)
    finally show ?thesis using more_colons [of gs "dotted ?v4"] by simp
  qed
  have "length ('':'' @ CHR '':'' # colons gs @ dotted ?v4) \<le> 45"
    using length_dotted [of ?v4] length_colons [OF gs(4)] gs by simp
  then have "inet_ntop6 bs n = Dst ('':'' @ CHR '':'' # colons gs @ dotted ?v4)"
    using assms f b(1) gs by (intro inet_ntop6_dst) auto
  moreover have "inet_pton6 ('':'' @ CHR '':'' # colons gs @ dotted ?v4) = Accept ([] @ replicate (2 * l) 0 @ wbytes gs @ ?v4)"
    using inet_pton6_run [of "[]" "colons gs @ dotted ?v4"] tail6_embedded [of gs ?v4 "[]" "2 * l"] gs assms(1) by simp
  ultimately show ?thesis using bs by auto
qed

text \<open>C31: What \<^verbatim>\<open>inet_ntop6\<close> prints for sixteen bytes into a buffer of at least 46 bytes,
  whether a run of zeros is shortened or an IPv4 address is embedded, \<^verbatim>\<open>inet_pton6\<close>
  reads back as the same bytes.\<close>

theorem inet_ntop6_roundtrip:
  assumes "length bs = 16" "46 \<le> n"
  shows "\<exists>s. inet_ntop6 bs n = Dst s \<and> inet_pton6 s = Accept bs"
proof (cases "best_run (words6 bs)")
  case None
  then show ?thesis by (rule ntop6_no_run [OF assms])
next
  case (Some r)
  then show ?thesis using ntop6_run [OF assms] ntop6_embedded [OF assms] by (cases r) blast
qed

theorem inet_ntop6_roundtrip_witness:
  "\<exists>s. inet_ntop6 (replicate 15 0 @ [1]) 46 = Dst s \<and> inet_pton6 s = Accept (replicate 15 0 @ [1])"
  by (rule inet_ntop6_roundtrip) simp_all

text \<open>A full address with \<^verbatim>\<open>::\<close> in it loses what follows the colons: the shift
  finds the source and the target in the same place and clears it, where the
  comment says that \<^verbatim>\<open>::\<close> in a full address is ignored.\<close>

theorem inet_pton6_full_colons:
  assumes "\<forall>w \<in> set ws. w < 65536" "w < 65536" "length ws = 7"
  shows "inet_pton6 (colons ws @ CHR '':'' # hex w) = Accept (wbytes (ws @ [0]))"
proof -
  have z: "length (wbytes ws) = 14" "replicate 2 (0 :: byte) = [0, 0]"
    using assms(3) by (simp_all add: numeral_2_eq_2)
  have "pton6_loop (hex w) (hex w) (wbytes ws @ [0, 0]) 14 (Some 14) False 0 = Some (wbytes ws @ [0, 0], 14, Some 14, True, w)"
    using pton6_hex [of w "[]"] assms(2) by simp
  moreover have "put16 (wbytes ws @ [0, 0]) 14 w = wbytes ws @ wbytes [w]"
    using put16_at [of "wbytes ws" 14 0 0 "[]" w] assms(3) by simp
  moreover have "shift6 (wbytes ws @ [x, y]) 14 2 1 = wbytes ws @ [0, 0]" for x y
    using assms(3) by (simp add: shift6.simps list_update_append)
  ultimately have "tail6 (hex w) (wbytes ws) = Accept (wbytes (ws @ [0]))"
    unfolding tail6_def z(1) by (simp add: pton6_end_def z(2))
  then show ?thesis using inet_pton6_run [of ws "hex w"] assms by (cases "ws = []") simp_all
qed

theorem inet_pton6_full_colons_witness:
  "inet_pton6 ''1:2:3:4:5:6:7::8'' = Accept [0, 1, 0, 2, 0, 3, 0, 4, 0, 5, 0, 6, 0, 7, 0, 0]"
proof -
  have "colons [1, 2, 3, 4, 5, 6, 7] @ CHR '':'' # hex 8 = ''1:2:3:4:5:6:7::8''" by code_simp
  then show ?thesis using inet_pton6_full_colons [of "[1, 2, 3, 4, 5, 6, 7]" 8] by simp
qed

text \<open>A trailing colon is accepted.\<close>

lemma inet_pton6_trailing_colon:
  assumes "\<forall>w \<in> set ws. w < 65536" "length ws = 8"
  shows "inet_pton6 (colons ws) = Accept (wbytes ws)"
proof -
  obtain p ps where p: "ws = p # ps" using assms(2) by (cases ws) auto
  have "inet_pton6 (colons ws) = pton6_run (colons ws)" using hd_hex [of p] by (intro inet_pton6_plain) (simp_all add: p)
  then show ?thesis
    using pton6_groups [of ws "[]" 0 "[]" "replicate 16 0" "[]"] assms by (simp add: pton6_run_def pton6_end_def)
qed

end
