(* ===== verification/Gai_Model.thy ===== *)
theory Gai_Model
  imports Inet_Addr6
begin

text \<open>
  Protocol-independent lookup of hosts and services,
  \<^verbatim>\<open>unpv13e/libfree/getaddrinfo.c\<close> and \<^verbatim>\<open>getnameinfo.c\<close>, compiled with IPv4, IPv6 and
  Unix domain support and without \<^verbatim>\<open>REENTRANT\<close>.  The resolver functions of the system
  are parameters.  A chain of \<^verbatim>\<open>addrinfo\<close> structures is a list; the heap is the number
  of allocations that will still succeed and the number of blocks in use.
\<close>

unbundle bit_operations_syntax

section \<open>Data\<close>

abbreviation AI_PASSIVE :: "32 word" where "AI_PASSIVE \<equiv> 1"
abbreviation AI_CANONNAME :: "32 word" where "AI_CANONNAME \<equiv> 2"
abbreviation AI_CLONE :: "32 word" where "AI_CLONE \<equiv> 4"

abbreviation (input) SOCK_STREAM :: int where "SOCK_STREAM \<equiv> 1"
abbreviation (input) SOCK_DGRAM :: int where "SOCK_DGRAM \<equiv> 2"
abbreviation (input) SOCK_RAW :: int where "SOCK_RAW \<equiv> 3"

abbreviation (input) EAI_ADDRFAMILY :: int where "EAI_ADDRFAMILY \<equiv> 1"
abbreviation (input) EAI_AGAIN :: int where "EAI_AGAIN \<equiv> 2"
abbreviation (input) EAI_BADFLAGS :: int where "EAI_BADFLAGS \<equiv> 3"
abbreviation (input) EAI_FAIL :: int where "EAI_FAIL \<equiv> 4"
abbreviation (input) EAI_FAMILY :: int where "EAI_FAMILY \<equiv> 5"
abbreviation (input) EAI_MEMORY :: int where "EAI_MEMORY \<equiv> 6"
abbreviation (input) EAI_NODATA :: int where "EAI_NODATA \<equiv> 7"
abbreviation (input) EAI_NONAME :: int where "EAI_NONAME \<equiv> 8"
abbreviation (input) EAI_SERVICE :: int where "EAI_SERVICE \<equiv> 9"
abbreviation (input) EAI_SOCKTYPE :: int where "EAI_SOCKTYPE \<equiv> 10"

text \<open>Socket addresses: the port in network order, and the bytes of the address.
  \<open>Sempty\<close> is a block of no bytes.\<close>

datatype sockaddr = Sin "16 word" "byte list" | Sin6 "16 word" "byte list" | Sun string | Sempty

record addrinfo =
  ai_flags :: "32 word"
  ai_family :: int
  ai_socktype :: int
  ai_protocol :: int
  ai_addrlen :: nat
  ai_canonname :: "string option"
  ai_addr :: "sockaddr option"

definition ai_zero :: addrinfo where
  "ai_zero = \<lparr>ai_flags = 0, ai_family = 0, ai_socktype = 0, ai_protocol = 0, ai_addrlen = 0, ai_canonname = None, ai_addr = None\<rparr>"

record hostent =
  h_name :: "string option"
  h_addrtype :: int
  h_addr_list :: "byte list list"

text \<open>The heap, the resolver's option \<^verbatim>\<open>RES_USE_INET6\<close>, and the paths that were unlinked.\<close>

record gai =
  quota :: nat
  live :: nat
  use_inet6 :: bool
  unlinked :: "string list"

definition calloc :: "gai \<Rightarrow> gai option" where
  "calloc g = (if quota g = 0 then None else Some (g\<lparr>quota := quota g - 1, live := Suc (live g)\<rparr>))"

definition free :: "gai \<Rightarrow> gai" where
  "free g = g\<lparr>live := live g - 1\<rparr>"

fun freeaddrinfo :: "addrinfo list \<Rightarrow> gai \<Rightarrow> gai" where
  "freeaddrinfo [] g = g"
| "freeaddrinfo (ai # ais) g =
     (let g = (if ai_addr ai \<noteq> None then free g else g);
          g = (if ai_canonname ai \<noteq> None then free g else g)
      in freeaddrinfo ais (free g))"

text \<open>What the language leaves undefined: releasing through a pointer that was never
  set, and following the null pointer.\<close>

datatype gai_fault = Uninit_free | Null_deref

type_synonym hostdb = "bool \<Rightarrow> string \<Rightarrow> int + hostent"
type_synonym servdb = "string \<Rightarrow> string \<Rightarrow> 16 word option"

section \<open>Checking the arguments\<close>

definition check_hints :: "addrinfo \<Rightarrow> int option" where
  "check_hints hints =
     (if ai_flags hints AND NOT (AI_PASSIVE OR AI_CANONNAME) \<noteq> 0 then Some EAI_BADFLAGS
      else if ai_family hints = AF_UNSPEC then None
      else if ai_family hints = AF_INET \<or> ai_family hints = AF_INET6 then
        if ai_socktype hints \<noteq> 0 \<and> ai_socktype hints \<noteq> SOCK_STREAM \<and> ai_socktype hints \<noteq> SOCK_DGRAM \<and>
           ai_socktype hints \<noteq> SOCK_RAW
        then Some EAI_SOCKTYPE else None
      else if ai_family hints = AF_LOCAL then
        if ai_socktype hints \<noteq> 0 \<and> ai_socktype hints \<noteq> SOCK_STREAM \<and> ai_socktype hints \<noteq> SOCK_DGRAM
        then Some EAI_SOCKTYPE else None
      else Some EAI_FAMILY)"

definition empty_arg :: "string option \<Rightarrow> bool" where
  "empty_arg s = (s = None \<or> s = Some [])"

text \<open>The host string and the address family to look for, from line 220 on.\<close>

definition choose_host :: "string option \<Rightarrow> string option \<Rightarrow> addrinfo \<Rightarrow> int + (string option \<times> addrinfo)" where
  "choose_host host serv hints =
     (if empty_arg host then
        if empty_arg serv then Inl EAI_NONAME
        else if ai_flags hints AND AI_PASSIVE \<noteq> 0 then
          if ai_family hints = AF_INET then Inr (Some ''0.0.0.0'', hints)
          else if ai_family hints = AF_INET6 then Inr (Some ''0::0'', hints)
          else if ai_family hints = AF_LOCAL then
            if take 1 (the serv) \<noteq> ''/'' then Inl EAI_ADDRFAMILY else Inr (host, hints)
          else Inl EAI_ADDRFAMILY
        else Inr (Some ''localhost'', hints)
      else if ai_family hints = 0 then
        let hints = (case inet_pton AF_INET (the host) of Accept _ \<Rightarrow> hints\<lparr>ai_family := AF_INET\<rparr> | _ \<Rightarrow> hints);
            hints = (case inet_pton AF_INET6 (the host) of Accept _ \<Rightarrow> hints\<lparr>ai_family := AF_INET6\<rparr> | _ \<Rightarrow> hints)
        in Inr (host, hints)
      else Inr (host, hints))"

section \<open>The host\<close>

abbreviation (input) HENTBUFSIZ :: nat where "HENTBUFSIZ \<equiv> 8192"

definition isxdigit :: "char \<Rightarrow> bool" where
  "isxdigit c \<longleftrightarrow> xdigit c \<noteq> None"

definition h_error :: "int \<Rightarrow> int" where
  "h_error h_errno =
     (if h_errno = 1 then EAI_NONAME
      else if h_errno = 2 then EAI_AGAIN
      else if h_errno = 3 then EAI_FAIL
      else if h_errno = 4 then EAI_NODATA
      else EAI_NONAME)"

text \<open>An address written in digits makes up its own entry; other strings go to
  \<^verbatim>\<open>gethostbyname\<close>, which takes the resolver's option as its first argument here.\<close>

definition getaddrinfo_host :: "hostdb \<Rightarrow> string \<Rightarrow> int \<Rightarrow> gai \<Rightarrow> (int + hostent) \<times> gai" where
  "getaddrinfo_host gethostbyname host family g =
     (let numeric = (\<lambda>af bs. \<lparr>h_name = Some (take (HENTBUFSIZ - 1) host), h_addrtype = af, h_addr_list = [bs]\<rparr>);
          dns = (\<lambda>_. let g = (if family = AF_INET6 then g\<lparr>use_inet6 := True\<rparr> else g)
                in (case gethostbyname (use_inet6 g) host of
                      Inl h_errno \<Rightarrow> (Inl (h_error h_errno), g)
                    | Inr h \<Rightarrow> (Inr h, g)));
          try6 = (\<lambda>_. if isxdigit (hd host) \<or> hd host = CHR '':'' then
                   case inet_pton AF_INET6 host of Accept bs \<Rightarrow> (Inr (numeric AF_INET6 bs), g) | _ \<Rightarrow> dns ()
                 else dns ())
      in if isdigit (hd host) then
           case inet_pton AF_INET host of Accept bs \<Rightarrow> (Inr (numeric AF_INET bs), g) | _ \<Rightarrow> try6 ()
         else try6 ())"

text \<open>One structure for each address, from line 350 on; the first component tells
  whether the memory was enough.\<close>

definition host_node :: "addrinfo \<Rightarrow> int \<Rightarrow> addrinfo" where
  "host_node hints addrtype =
     ai_zero\<lparr>ai_socktype := ai_socktype hints,
       ai_flags := (if ai_socktype hints = 0 then AI_CLONE else 0),
       ai_protocol := ai_protocol hints, ai_family := addrtype\<rparr>"

definition host_addr :: "byte list \<Rightarrow> addrinfo \<Rightarrow> addrinfo" where
  "host_addr ap ai =
     (if ai_family ai = AF_INET then ai\<lparr>ai_addr := Some (Sin 0 (take 4 ap)), ai_addrlen := 16\<rparr>
      else ai\<lparr>ai_addr := Some (Sin6 0 (take 16 ap)), ai_addrlen := 28\<rparr>)"

fun host_nodes :: "addrinfo \<Rightarrow> int \<Rightarrow> byte list list \<Rightarrow> addrinfo list \<Rightarrow> gai \<Rightarrow> bool \<times> addrinfo list \<times> gai" where
  "host_nodes hints addrtype [] ais g = (True, ais, g)"
| "host_nodes hints addrtype (ap # aps) ais g =
     (case calloc g of
        None \<Rightarrow> (False, ais, g)
      | Some g \<Rightarrow>
          let ai = host_node hints addrtype
          in if addrtype = AF_INET \<or> addrtype = AF_INET6 then
               case calloc g of
                 None \<Rightarrow> (False, ais @ [ai], g)
               | Some g \<Rightarrow> host_nodes hints addrtype aps (ais @ [host_addr ap ai]) g
             else host_nodes hints addrtype aps (ais @ [ai]) g)"

text \<open>The canonical name goes to the first structure.\<close>

definition set_canonname :: "addrinfo \<Rightarrow> hostent \<Rightarrow> string \<Rightarrow> addrinfo list \<Rightarrow> gai \<Rightarrow> gai_fault + (bool \<times> addrinfo list \<times> gai)" where
  "set_canonname hints h host ais g =
     (if ai_flags hints AND AI_CANONNAME = 0 then Inr (True, ais, g)
      else case calloc g of
             None \<Rightarrow> if ais = [] then Inl Null_deref else Inr (False, ais, g)
           | Some g \<Rightarrow>
               (case ais of
                  [] \<Rightarrow> Inl Null_deref
                | ai # rest \<Rightarrow>
                    let name = (case h_name h of Some n \<Rightarrow> n | None \<Rightarrow> host)
                    in Inr (True, ai\<lparr>ai_canonname := Some name\<rparr> # rest, g)))"

section \<open>The service\<close>

text \<open>The structures that \<^verbatim>\<open>getaddrinfo_clone\<close> links in after \<open>ai\<close>; \<open>False\<close> when memory ran out.\<close>

definition getaddrinfo_clone :: "addrinfo \<Rightarrow> gai \<Rightarrow> bool \<times> addrinfo list \<times> gai" where
  "getaddrinfo_clone ai g =
     (case calloc g of
        None \<Rightarrow> (False, [], g)
      | Some g \<Rightarrow>
          let new = ai\<lparr>ai_flags := 0, ai_canonname := None, ai_addr := None\<rparr>
          in case calloc g of
               None \<Rightarrow> (False, [new], g)
             | Some g \<Rightarrow>
                 (True, [new\<lparr>ai_addr := Some (case ai_addr ai of Some sa \<Rightarrow> sa | None \<Rightarrow> Sempty)\<rparr>], g))"

definition set_port :: "16 word \<Rightarrow> int \<Rightarrow> addrinfo \<Rightarrow> int \<times> addrinfo" where
  "set_port port socktype ai =
     (let ai = ai\<lparr>ai_socktype := socktype\<rparr>
      in if ai_family ai = AF_INET then
           (1, ai\<lparr>ai_addr := map_option (\<lambda>sa. case sa of Sin p a \<Rightarrow> Sin port a | _ \<Rightarrow> sa) (ai_addr ai)\<rparr>)
         else if ai_family ai = AF_INET6 then
           (1, ai\<lparr>ai_addr := map_option (\<lambda>sa. case sa of Sin6 p a \<Rightarrow> Sin6 port a | _ \<Rightarrow> sa) (ai_addr ai)\<rparr>)
         else (0, ai))"

text \<open>\<open>-1\<close> when memory ran out, otherwise the number of structures filled in.\<close>

fun getaddrinfo_port :: "addrinfo list \<Rightarrow> 16 word \<Rightarrow> int \<Rightarrow> gai \<Rightarrow> int \<times> addrinfo list \<times> gai" where
  "getaddrinfo_port [] port socktype g = (0, [], g)"
| "getaddrinfo_port (ai # ais) port socktype g =
     (let go_on = (\<lambda>k seg g. case getaddrinfo_port ais port socktype g of
                     (n, ais, g) \<Rightarrow> (if n < 0 then n else k + n, seg @ ais, g))
      in if ai_flags ai AND AI_CLONE \<noteq> 0 \<and> ai_socktype ai \<noteq> 0 then
           case getaddrinfo_clone ai g of
             (ok, new, g) \<Rightarrow>
               if \<not> ok then (- 1, ai # new @ ais, g)
               else case set_port port socktype (hd new) of (k, new) \<Rightarrow> go_on k [ai, new] g
         else if ai_flags ai AND AI_CLONE = 0 \<and> ai_socktype ai \<noteq> socktype then go_on 0 [ai] g
         else case set_port port socktype ai of (k, ai) \<Rightarrow> go_on k [ai] g)"

definition serv_lookup :: "servdb \<Rightarrow> string \<Rightarrow> string \<Rightarrow> int \<Rightarrow> addrinfo \<Rightarrow> addrinfo list \<Rightarrow> gai \<Rightarrow> int \<times> addrinfo list \<times> gai" where
  "serv_lookup getservbyname serv proto socktype hints ais g =
     (if ai_socktype hints = 0 \<or> ai_socktype hints = socktype then
        case getservbyname serv proto of
          None \<Rightarrow> (0, ais, g)
        | Some s_port \<Rightarrow> getaddrinfo_port ais s_port socktype g
      else (0, ais, g))"

definition getaddrinfo_serv :: "servdb \<Rightarrow> addrinfo list \<Rightarrow> addrinfo \<Rightarrow> string \<Rightarrow> gai \<Rightarrow> int \<times> addrinfo list \<times> gai" where
  "getaddrinfo_serv getservbyname ais hints serv g =
     (if isdigit (hd serv) \<and> ai_socktype hints \<noteq> 0 then
        case getaddrinfo_port ais (htons (word_of_int (atol (serv @ [NUL])))) (ai_socktype hints) g of
          (rc, ais, g) \<Rightarrow> (if rc = 0 then EAI_NONAME else if rc < 0 then EAI_MEMORY else 0, ais, g)
      else
        case serv_lookup getservbyname serv ''tcp'' SOCK_STREAM hints ais g of
          (rc, ais, g) \<Rightarrow>
            if rc < 0 then (EAI_MEMORY, ais, g)
            else case serv_lookup getservbyname serv ''udp'' SOCK_DGRAM hints ais g of
                   (rc2, ais, g) \<Rightarrow>
                     if rc2 < 0 then (EAI_MEMORY, ais, g)
                     else (if rc + rc2 = 0 then (if ai_socktype hints = 0 then EAI_NONAME else EAI_SERVICE) else 0, ais, g))"

section \<open>Unix domain sockets\<close>

text \<open>When the first allocation fails the function returns \<^verbatim>\<open>NULL\<close>, that is 0; when the
  second one fails, the first block is not released.\<close>

definition addrinfo_local :: "string \<Rightarrow> addrinfo \<Rightarrow> gai \<Rightarrow> int \<times> addrinfo list option \<times> gai" where
  "addrinfo_local path hints g =
     (if ai_socktype hints = 0 then (EAI_SOCKTYPE, None, g)
      else case calloc g of
             None \<Rightarrow> (0, None, g)
           | Some g \<Rightarrow>
               (case calloc g of
                  None \<Rightarrow> (EAI_MEMORY, None, g)
                | Some g \<Rightarrow>
                    (0, Some [ai_zero\<lparr>ai_family := AF_LOCAL, ai_socktype := ai_socktype hints, ai_addrlen := 110,
                                 ai_addr := Some (Sun (take 108 path))\<rparr>],
                     if ai_flags hints AND AI_PASSIVE \<noteq> 0 then g\<lparr>unlinked := path # unlinked g\<rparr> else g)))"

section \<open>The whole function\<close>

text \<open>From line 350 to the end, with \<^verbatim>\<open>aihead\<close> initialised.\<close>

definition bad :: "int \<Rightarrow> addrinfo list \<Rightarrow> gai \<Rightarrow> gai_fault + (int \<times> addrinfo list option \<times> gai)" where
  "bad error aihead g = Inr (error, None, freeaddrinfo aihead g)"

definition getaddrinfo_list :: "servdb \<Rightarrow> string \<Rightarrow> string option \<Rightarrow> addrinfo \<Rightarrow> hostent \<Rightarrow> gai \<Rightarrow>
    gai_fault + (int \<times> addrinfo list option \<times> gai)" where
  "getaddrinfo_list getservbyname host serv hints h g =
     (case host_nodes hints (h_addrtype h) (h_addr_list h) [] g of
        (ok, ais, g) \<Rightarrow>
          if \<not> ok then bad EAI_MEMORY ais g
          else andthen (set_canonname hints h host ais g) (\<lambda>(ok, ais, g).
            if \<not> ok then bad EAI_MEMORY ais g
            else if empty_arg serv then Inr (0, Some ais, g)
            else case getaddrinfo_serv getservbyname ais hints (the serv) g of
                   (rc, ais, g) \<Rightarrow> if rc \<noteq> 0 then bad rc ais g else Inr (0, Some ais, g)))"

text \<open>From line 284 on: paths of the Unix domain, then the lookup of the host.  An error
  here releases \<^verbatim>\<open>aihead\<close>, which is not yet initialised.\<close>

definition getaddrinfo_named :: "hostdb \<Rightarrow> servdb \<Rightarrow> string option \<Rightarrow> string option \<Rightarrow> addrinfo \<Rightarrow> gai \<Rightarrow>
    gai_fault + (int \<times> addrinfo list option \<times> gai)" where
  "getaddrinfo_named gethostbyname getservbyname host serv hints g =
     (if host \<noteq> None \<and> take 1 (the host) = ''/'' then Inr (addrinfo_local (the host) hints g)
      else if serv \<noteq> None \<and> take 1 (the serv) = ''/'' then Inr (addrinfo_local (the serv) hints g)
      else case getaddrinfo_host gethostbyname (the host) (ai_family hints) g of
             (Inl rc, g) \<Rightarrow> Inl Uninit_free
           | (Inr h, g) \<Rightarrow>
               if ai_family hints \<noteq> AF_UNSPEC \<and> ai_family hints \<noteq> h_addrtype h then Inl Uninit_free
               else getaddrinfo_list getservbyname (the host) serv hints h g)"

definition getaddrinfo :: "hostdb \<Rightarrow> servdb \<Rightarrow> string option \<Rightarrow> string option \<Rightarrow> addrinfo option \<Rightarrow> gai \<Rightarrow>
    gai_fault + (int \<times> addrinfo list option \<times> gai)" where
  "getaddrinfo gethostbyname getservbyname host serv hintsptr g =
     (let hints = (case hintsptr of None \<Rightarrow> ai_zero | Some h \<Rightarrow> h)
      in if check_hints hints \<noteq> None then Inl Uninit_free
         else case choose_host host serv hints of
                Inl e \<Rightarrow> Inl Uninit_free
              | Inr (host, hints) \<Rightarrow> getaddrinfo_named gethostbyname getservbyname host serv hints g)"

section \<open>Addresses to names\<close>

text \<open>The copies made by \<^verbatim>\<open>strncpy\<close> are not terminated when the text is too long.  The buffers \<^verbatim>\<open>host\<close> and \<^verbatim>\<open>serv\<close> are \<open>None\<close> when they are not written.\<close>

definition do_ipv46 :: "(byte list \<Rightarrow> int \<Rightarrow> hostent option) \<Rightarrow> (16 word \<Rightarrow> string option) \<Rightarrow> nat \<Rightarrow> nat \<Rightarrow>
    byte list \<Rightarrow> int \<Rightarrow> 16 word \<Rightarrow> int \<times> cbuf option \<times> cbuf option" where
  "do_ipv46 gethostbyaddr getservbyport hostlen servlen aptr family port =
     (let h = (if hostlen > 0 then Option.bind (gethostbyaddr aptr family) h_name else None);
          host = map_option (\<lambda>n. strncpy [] n hostlen) h
      in if hostlen > 0 \<and> h = None then (1, None, None)
         else if servlen > 0 then
           case getservbyport port of
             Some s_name \<Rightarrow> (0, host, Some (strncpy [] s_name servlen))
           | None \<Rightarrow> (1, host, None)
         else (0, host, None))"

definition getnameinfo :: "(byte list \<Rightarrow> int \<Rightarrow> hostent option) \<Rightarrow> (16 word \<Rightarrow> string option) \<Rightarrow> sockaddr \<Rightarrow> nat \<Rightarrow> nat \<Rightarrow>
    int \<times> cbuf option \<times> cbuf option" where
  "getnameinfo gethostbyaddr getservbyport sa hostlen servlen =
     (case sa of
        Sin port a \<Rightarrow> do_ipv46 gethostbyaddr getservbyport hostlen servlen a AF_INET port
      | Sin6 port a \<Rightarrow> do_ipv46 gethostbyaddr getservbyport hostlen servlen a AF_INET6 port
      | _ \<Rightarrow> (1, None, None))"

end
