(* ===== verification/Gai_Props.thy ===== *)
theory Gai_Props
  imports Gai_Model
begin

text \<open>
  Correctness of \<^verbatim>\<open>getaddrinfo\<close>: the blocks it allocates are those of the list it
  returns, the list is the product of the addresses and the socket types of the
  service, numeric arguments need no resolver, and the paths on which an error
  releases through an uninitialised pointer.
\<close>

section \<open>Memory\<close>

definition node_cost :: "addrinfo \<Rightarrow> nat" where
  "node_cost ai = 1 + (if ai_addr ai = None then 0 else 1) + (if ai_canonname ai = None then 0 else 1)"

definition cost :: "addrinfo list \<Rightarrow> nat" where
  "cost ais = sum_list (map node_cost ais)"

lemma cost_simps [simp]:
  "cost [] = 0" "cost (ai # ais) = node_cost ai + cost ais" "cost (xs @ ys) = cost xs + cost ys"
  by (simp_all add: cost_def)

lemma callocE:
  assumes "calloc g = Some g'"
  obtains "live g' = Suc (live g)" "quota g = Suc (quota g')"
  using assms by (auto simp: calloc_def split: if_splits)

lemma freeaddrinfo_live: "cost ais \<le> live g \<Longrightarrow> live (freeaddrinfo ais g) = live g - cost ais"
  by (induction ais arbitrary: g) (auto simp: node_cost_def free_def Let_def)

lemma node_facts [simp]:
  "node_cost (host_node hints fam) = 1" "node_cost (host_addr ap (host_node hints fam)) = 2"
  "ai_canonname (host_node hints fam) = None" "ai_canonname (host_addr ap (host_node hints fam)) = None"
  by (simp_all add: node_cost_def host_node_def host_addr_def ai_zero_def)

lemma host_nodes_live:
  "host_nodes hints fam aps ais g = (ok, ais', g') \<Longrightarrow> live g' + cost ais = live g + cost ais'"
proof (induction aps arbitrary: ais g)
  case (Cons ap aps)
  show ?case using Cons.prems
    by (auto simp: Let_def elim!: callocE split: option.splits if_splits dest!: Cons.IH)
qed simp

lemma clone_live: "getaddrinfo_clone ai g = (ok, new, g') \<Longrightarrow> live g' = live g + cost new"
  by (auto simp: getaddrinfo_clone_def node_cost_def Let_def elim!: callocE split: option.splits)

lemma clone_one: "getaddrinfo_clone ai g = (True, new, g') \<Longrightarrow> new = [hd new]"
  by (auto simp: getaddrinfo_clone_def Let_def split: option.splits)

lemma set_port_cost: "set_port port st ai = (k, ai') \<Longrightarrow> node_cost ai' = node_cost ai"
  by (auto simp: set_port_def node_cost_def Let_def split: if_splits)

lemma port_live:
  "getaddrinfo_port ais port st g = (n, ais', g') \<Longrightarrow> live g' + cost ais = live g + cost ais'"
proof (induction ais arbitrary: n ais' g g')
  case (Cons ai ais)
  show ?case
  proof (cases "ai_flags ai AND AI_CLONE \<noteq> 0 \<and> ai_socktype ai \<noteq> 0")
    case True
    obtain ok new g1 where c: "getaddrinfo_clone ai g = (ok, new, g1)" by (metis prod_cases3)
    note l = clone_live [OF c]
    show ?thesis
    proof (cases ok)
      case True
      obtain k a where a: "set_port port st (hd new) = (k, a)" by fastforce
      obtain m rest g2 where r: "getaddrinfo_port ais port st g1 = (m, rest, g2)" by (metis prod_cases3)
      obtain b where "new = [b]" using clone_one [of ai g new g1] c True by auto
      then have "node_cost a = cost new" using set_port_cost [OF a] by simp
      then show ?thesis using Cons.IH [OF r] Cons.prems \<open>ai_flags ai AND AI_CLONE \<noteq> 0 \<and> _\<close> c True a r l
        by (auto simp: Let_def split: if_splits)
    next
      case False
      then show ?thesis using Cons.prems \<open>ai_flags ai AND AI_CLONE \<noteq> 0 \<and> _\<close> c l by (auto simp: Let_def)
    qed
  next
    case False
    obtain k a where a: "set_port port st ai = (k, a)" by fastforce
    obtain m rest g2 where r: "getaddrinfo_port ais port st g = (m, rest, g2)" by (metis prod_cases3)
    show ?thesis using Cons.IH [OF r] Cons.prems False set_port_cost [OF a] a r
      by (auto simp: Let_def split: if_splits)
  qed
qed simp

lemma serv_lookup_live:
  "serv_lookup sdb serv proto st hints ais g = (n, ais', g') \<Longrightarrow> live g' + cost ais = live g + cost ais'"
  by (auto simp: serv_lookup_def dest: port_live split: if_splits option.splits)

lemma serv_live:
  assumes "getaddrinfo_serv sdb ais hints serv g = (rc, ais', g')"
  shows "live g' + cost ais = live g + cost ais'"
proof (cases "isdigit (hd serv) \<and> ai_socktype hints \<noteq> 0")
  case True
  then show ?thesis using assms by (auto simp: getaddrinfo_serv_def dest: port_live split: prod.splits)
next
  case False
  obtain n1 a1 g1 where 1: "serv_lookup sdb serv ''tcp'' SOCK_STREAM hints ais g = (n1, a1, g1)" by (metis prod_cases3)
  obtain n2 a2 g2 where 2: "serv_lookup sdb serv ''udp'' SOCK_DGRAM hints a1 g1 = (n2, a2, g2)" by (metis prod_cases3)
  show ?thesis using assms False 1 2 serv_lookup_live [OF 1] serv_lookup_live [OF 2]
    by (auto simp: getaddrinfo_serv_def split: if_splits)
qed

lemma canonname_live:
  "set_canonname hints h host ais g = Inr (ok, ais', g') \<Longrightarrow> \<forall>ai \<in> set ais. ai_canonname ai = None \<Longrightarrow>
    live g' + cost ais = live g + cost ais'"
  by (auto simp: set_canonname_def node_cost_def Let_def elim!: callocE split: if_splits option.splits list.splits)

lemma host_nodes_no_name:
  "host_nodes hints fam aps ais g = (ok, ais', g') \<Longrightarrow> \<forall>ai \<in> set ais. ai_canonname ai = None \<Longrightarrow>
    ai \<in> set ais' \<Longrightarrow> ai_canonname ai = None"
proof (induction aps arbitrary: ais g)
  case (Cons ap aps)
  show ?case
    using Cons.prems Cons.IH [of "ais @ [host_node hints fam]"] Cons.IH [of "ais @ [host_addr ap (host_node hints fam)]"]
    by (auto simp: Let_def split: option.splits if_splits)
qed simp

definition is_path :: "string option \<Rightarrow> bool" where
  "is_path s \<longleftrightarrow> s \<noteq> None \<and> take 1 (the s) = ''/''"

lemma choose_host_path:
  "choose_host host serv hints = Inr (host', hints') \<Longrightarrow> \<not> is_path host \<Longrightarrow> \<not> is_path host'"
  by (auto simp: choose_host_def is_path_def Let_def split: if_splits conv.splits)

lemma list_live:
  assumes "getaddrinfo_list sdb host serv hints h g = Inr (e, r, g')"
  shows "live g' = live g + cost (case r of None \<Rightarrow> [] | Some ais \<Rightarrow> ais)"
proof -
  obtain ok1 a1 g1 where 1: "host_nodes hints (h_addrtype h) (h_addr_list h) [] g = (ok1, a1, g1)" by (metis prod_cases3)
  have l1: "live g1 = live g + cost a1" using host_nodes_live [OF 1] by simp
  have freed: "live (freeaddrinfo a g2) = live g" if "live g2 = live g + cost a" for a g2
    using that freeaddrinfo_live [of a g2] by simp
  show ?thesis
  proof (cases ok1)
    case False
    then show ?thesis using assms 1 freed [OF l1] by (auto simp: getaddrinfo_list_def bad_def)
  next
    case True
    then obtain ok2 a2 g2 where 2: "set_canonname hints h host a1 g1 = Inr (ok2, a2, g2)"
      using assms 1 by (auto simp: getaddrinfo_list_def andthen_Inr_iff)
    have l2: "live g2 = live g + cost a2" using canonname_live [OF 2] host_nodes_no_name [OF 1] l1 by simp
    obtain rc a3 g3 where 3: "getaddrinfo_serv sdb a2 hints (the serv) g2 = (rc, a3, g3)" by (metis prod_cases3)
    have l3: "live g3 = live g + cost a3" using serv_live [OF 3] l2 by simp
    show ?thesis
      using assms 1 True 2 3 freed [OF l2] freed [OF l3] l2 l3 by (auto simp: getaddrinfo_list_def bad_def split: if_splits)
  qed
qed

lemma getaddrinfo_host_live: "getaddrinfo_host hdb host family g = (r, g') \<Longrightarrow> live g' = live g \<and> quota g' = quota g"
  by (auto simp: getaddrinfo_host_def Let_def split: if_splits conv.splits sum.splits)

text \<open>C32: \<^verbatim>\<open>getaddrinfo\<close> leaks no memory on hosts and services of the Internet families:
  after every return, whatever failed, the blocks in use are those from before and
  those of the list that was returned.\<close>

theorem getaddrinfo_no_leak:
  assumes "getaddrinfo hdb sdb host serv hintsptr g = Inr (e, r, g')" "\<not> is_path host" "\<not> is_path serv"
  shows "live g' = live g + cost (case r of None \<Rightarrow> [] | Some ais \<Rightarrow> ais)"
proof -
  let ?hints = "case hintsptr of None \<Rightarrow> ai_zero | Some h \<Rightarrow> h"
  obtain host' hints where c: "choose_host host serv ?hints = Inr (host', hints)"
    using assms(1) by (auto simp: getaddrinfo_def getaddrinfo_named_def Let_def split: if_splits sum.splits)
  have "\<not> is_path host'" using choose_host_path [OF c assms(2)] .
  then obtain h g1 where h: "getaddrinfo_host hdb (the host') (ai_family hints) g = (Inr h, g1)"
    and l: "getaddrinfo_list sdb (the host') serv hints h g1 = Inr (e, r, g')"
    using assms c by (auto simp: getaddrinfo_def getaddrinfo_named_def is_path_def Let_def split: if_splits sum.splits prod.splits)
  show ?thesis using list_live [OF l] getaddrinfo_host_live [OF h] by simp
qed

definition gai0 :: gai where
  "gai0 = \<lparr>quota = 100, live = 0, use_inet6 = False, unlinked = []\<rparr>"

text \<open>The errors that are found before the list is started.\<close>

definition early_error :: "hostdb \<Rightarrow> string option \<Rightarrow> string option \<Rightarrow> addrinfo \<Rightarrow> gai \<Rightarrow> bool" where
  "early_error hdb host serv hints g \<longleftrightarrow> check_hints hints \<noteq> None \<or>
    (case choose_host host serv hints of
       Inl e \<Rightarrow> True
     | Inr (host', hints') \<Rightarrow>
         \<not> is_path host' \<and> \<not> is_path serv \<and>
         (case fst (getaddrinfo_host hdb (the host') (ai_family hints') g) of
            Inl rc \<Rightarrow> True
          | Inr h \<Rightarrow> ai_family hints' \<noteq> 0 \<and> ai_family hints' \<noteq> h_addrtype h))"

text \<open>An error that is found before the list is started, a bad flag, family or socket
  type, no name at all, a host that the resolver does not know or that has another
  address family, makes \<^verbatim>\<open>getaddrinfo\<close> release memory through an uninitialised pointer.\<close>

theorem getaddrinfo_early_errors:
  assumes "early_error hdb host serv hints g"
  shows "getaddrinfo hdb sdb host serv (Some hints) g = Inl Uninit_free"
proof (cases "check_hints hints = None")
  case True
  show ?thesis
  proof (cases "choose_host host serv hints")
    case (Inl e)
    then show ?thesis using True by (simp add: getaddrinfo_def getaddrinfo_named_def)
  next
    case (Inr r)
    obtain host' hints' where r: "r = (host', hints')" by fastforce
    obtain res g' where h: "getaddrinfo_host hdb (the host') (ai_family hints') g = (res, g')" by fastforce
    show ?thesis using assms True Inr r h
      by (cases res) (simp_all add: early_error_def getaddrinfo_def getaddrinfo_named_def is_path_def)
  qed
qed (simp add: getaddrinfo_def getaddrinfo_named_def)

theorem getaddrinfo_early_errors_witness:
  "getaddrinfo (\<lambda>_ _. Inl 1) (\<lambda>_ _. None) (Some ''here'') None (Some (ai_zero\<lparr>ai_flags := 8\<rparr>)) gai0 = Inl Uninit_free"
  by (rule getaddrinfo_early_errors) (simp add: early_error_def check_hints_def ai_zero_def)

section \<open>Names\<close>

text \<open>An entry of the result: address family, flags, socket type, port and address.\<close>

definition endpoint :: "int \<Rightarrow> 32 word \<Rightarrow> int \<Rightarrow> 16 word \<Rightarrow> byte list \<Rightarrow> addrinfo" where
  "endpoint fam flags socktype port ap =
     ai_zero\<lparr>ai_flags := flags, ai_family := fam, ai_socktype := socktype,
       ai_addrlen := (if fam = AF_INET then 16 else 28),
       ai_addr := Some (if fam = AF_INET then Sin port (take 4 ap) else Sin6 port (take 16 ap))\<rparr>"

abbreviation inet_family :: "int \<Rightarrow> bool" where
  "inet_family fam \<equiv> fam = AF_INET \<or> fam = AF_INET6"

definition take_mem :: "nat \<Rightarrow> gai \<Rightarrow> gai" where
  "take_mem n g = g\<lparr>quota := quota g - n, live := live g + n\<rparr>"

lemma take_mem_simps [simp]:
  "take_mem 0 g = g" "take_mem m (take_mem n g) = take_mem (n + m) g"
  "quota (take_mem n g) = quota g - n" "live (take_mem n g) = live g + n" "use_inet6 (take_mem n g) = use_inet6 g"
  by (simp_all add: take_mem_def)

lemma calloc_ok: "0 < quota g \<Longrightarrow> calloc g = Some (take_mem 1 g)"
  by (simp add: calloc_def take_mem_def)

lemma host_nodes_ok:
  assumes "inet_family fam" "2 * length aps \<le> quota g" "ai_protocol hints = 0"
  shows "host_nodes hints fam aps ais g =
    (True, ais @ map (endpoint fam (if ai_socktype hints = 0 then AI_CLONE else 0) (ai_socktype hints) 0) aps, take_mem (2 * length aps) g)"
  using assms(2)
proof (induction aps arbitrary: ais g)
  case (Cons ap aps)
  have "host_addr ap (host_node hints fam) =
      endpoint fam (if ai_socktype hints = 0 then AI_CLONE else 0) (ai_socktype hints) 0 ap"
    using assms by (auto simp: host_addr_def host_node_def endpoint_def ai_zero_def)
  moreover have "calloc g = Some (take_mem 1 g)" "calloc (take_mem 1 g) = Some (take_mem 2 g)"
    using Cons.prems by (simp_all add: calloc_ok numeral_2_eq_2)
  ultimately show ?case
    using Cons.IH [where g = "take_mem 2 g"] Cons.prems assms(1) by (auto simp: Let_def numeral_2_eq_2)
qed simp

lemma set_port_endpoint:
  "inet_family fam \<Longrightarrow> set_port port st (endpoint fam flags st' port' ap) = (1, endpoint fam flags st port ap)"
  by (auto simp: set_port_def endpoint_def ai_zero_def)

lemma endpoint_fields [simp]:
  "ai_flags (endpoint fam flags st port ap) = flags" "ai_socktype (endpoint fam flags st port ap) = st"
  by (simp_all add: endpoint_def ai_zero_def)

lemma port_first:
  assumes "inet_family fam" "flags AND AI_CLONE = 0 \<longrightarrow> st' = st" "flags AND AI_CLONE \<noteq> 0 \<longrightarrow> st' = 0"
  shows "getaddrinfo_port (map (endpoint fam flags st' port') aps) port st g =
    (int (length aps), map (endpoint fam flags st port) aps, g)"
  by (induction aps) (use assms in \<open>auto simp: set_port_endpoint Let_def\<close>)

lemma clone_endpoint:
  "2 \<le> quota g \<Longrightarrow> getaddrinfo_clone (endpoint fam flags st port ap) g = (True, [endpoint fam 0 st port ap], take_mem 2 g)"
  by (simp add: getaddrinfo_clone_def calloc_ok Let_def) (simp add: endpoint_def ai_zero_def numeral_2_eq_2)

lemma port_clones:
  assumes "inet_family fam" "2 * length aps \<le> quota g" "st1 \<noteq> 0"
  shows "getaddrinfo_port (map (endpoint fam AI_CLONE st1 port1) aps) port2 st2 g =
    (int (length aps), concat (map (\<lambda>ap. [endpoint fam AI_CLONE st1 port1 ap, endpoint fam 0 st2 port2 ap]) aps),
     take_mem (2 * length aps) g)"
  using assms(2)
proof (induction aps arbitrary: g)
  case (Cons ap aps)
  then show ?case using Cons.IH [of "take_mem 2 g"] assms(1,3)
    by (simp add: Let_def clone_endpoint set_port_endpoint)
qed simp

text \<open>A host name: not an address in digits, not a path.\<close>

definition host_name :: "string \<Rightarrow> bool" where
  "host_name host \<longleftrightarrow> host \<noteq> [] \<and> hd host \<noteq> CHR ''/'' \<and>
     (\<forall>bs. inet_pton4 host \<noteq> Accept bs) \<and> (\<forall>bs. inet_pton6 host \<noteq> Accept bs)"

lemma no_accept: "(\<forall>bs. c \<noteq> Accept bs) \<Longrightarrow> (case c of Accept bs \<Rightarrow> f bs | _ \<Rightarrow> x) = x"
  by (cases c) simp_all

lemma take1_hd: "s \<noteq> [] \<Longrightarrow> take 1 s = [hd s]"
  by (cases s) simp_all

lemma getaddrinfo_host_name:
  assumes "host_name host" "hdb (use_inet6 g) host = Inr h"
  shows "getaddrinfo_host hdb host 0 g = (Inr h, g)"
  using assms unfolding host_name_def by (simp add: getaddrinfo_host_def inet_pton_def no_accept)

lemma choose_host_name:
  "host_name host \<Longrightarrow> choose_host (Some host) serv ai_zero = Inr (Some host, ai_zero)"
  unfolding host_name_def by (simp add: choose_host_def empty_arg_def inet_pton_def no_accept ai_zero_def)

lemma check_zero: "check_hints ai_zero = None"
  by (simp add: check_hints_def ai_zero_def)

text \<open>Without hints, a service that exists for both TCP and UDP on a host with several
  addresses gives two entries for each address, as the comment of
  \<^verbatim>\<open>getaddrinfo_port\<close> describes: in the order of the addresses, first the stream socket
  with the TCP port, then the datagram socket with the UDP port.\<close>

theorem getaddrinfo_product:
  assumes "host_name host" "hdb (use_inet6 g) host = Inr h" "inet_family (h_addrtype h)" "h_addr_list h \<noteq> []"
    "serv \<noteq> []" "hd serv \<noteq> CHR ''/''" "sdb serv ''tcp'' = Some pt" "sdb serv ''udp'' = Some pu"
    "4 * length (h_addr_list h) \<le> quota g"
  shows "getaddrinfo hdb sdb (Some host) (Some serv) None g =
    Inr (0, Some (concat (map (\<lambda>ap. [endpoint (h_addrtype h) AI_CLONE SOCK_STREAM pt ap, endpoint (h_addrtype h) 0 SOCK_DGRAM pu ap])
      (h_addr_list h))), take_mem (4 * length (h_addr_list h)) g)"
proof -
  let ?fam = "h_addrtype h" and ?as = "h_addr_list h"
  let ?list = "concat (map (\<lambda>ap. [endpoint ?fam AI_CLONE SOCK_STREAM pt ap, endpoint ?fam 0 SOCK_DGRAM pu ap]) ?as)"
  have z: "ai_socktype ai_zero = 0" "ai_protocol ai_zero = 0" "ai_flags ai_zero = 0" "ai_family ai_zero = 0" by (simp_all add: ai_zero_def)
  have "host_nodes ai_zero ?fam ?as [] g = (True, map (endpoint ?fam AI_CLONE 0 0) ?as, take_mem (2 * length ?as) g)"
    using host_nodes_ok [OF assms(3), of ?as g ai_zero "[]"] assms(9) z by simp
  moreover have "set_canonname ai_zero h host ais g' = Inr (True, ais, g')" for ais g' by (simp add: set_canonname_def z)
  moreover have "getaddrinfo_serv sdb (map (endpoint ?fam AI_CLONE 0 0) ?as) ai_zero serv (take_mem (2 * length ?as) g) =
      (0, ?list, take_mem (4 * length ?as) g)"
    using port_first [OF assms(3), of AI_CLONE 0 SOCK_STREAM 0 ?as pt "take_mem (2 * length ?as) g"]
      port_clones [OF assms(3), of ?as "take_mem (2 * length ?as) g" SOCK_STREAM pt pu SOCK_DGRAM] assms(4,7,8,9)
    by (simp add: getaddrinfo_serv_def serv_lookup_def z)
  ultimately have "getaddrinfo_list sdb host (Some serv) ai_zero h g = Inr (0, Some ?list, take_mem (4 * length ?as) g)"
    using assms(5) by (simp add: getaddrinfo_list_def empty_arg_def)
  moreover have "host \<noteq> []" "hd host \<noteq> CHR ''/''" using assms(1) by (simp_all add: host_name_def)
  ultimately show ?thesis
    using choose_host_name [OF assms(1), of "Some serv"] getaddrinfo_host_name [OF assms(1), of hdb g h] assms(2,5,6)
    by (simp add: getaddrinfo_def getaddrinfo_named_def check_zero z take1_hd del: One_nat_def)
qed

lemma host_name_example: "host_name ''h''"
proof -
  have "inet_pton4 ''h'' = Reject" "inet_pton6 ''h'' = Reject" by code_simp+
  then show ?thesis by (simp add: host_name_def)
qed

theorem getaddrinfo_no_leak_witness:
  "\<exists>e r g'. getaddrinfo (\<lambda>_ _. Inr \<lparr>h_name = None, h_addrtype = AF_INET, h_addr_list = [[10, 0, 0, 1]]\<rparr>) (\<lambda>_ _. None)
     (Some ''h'') (Some ''daytime'') None (gai0\<lparr>quota := 1\<rparr>) = Inr (e, r, g') \<and> live g' = 0"
proof -
  let ?hdb = "\<lambda>_ _. Inr \<lparr>h_name = None, h_addrtype = AF_INET, h_addr_list = [[10, 0, 0, 1]]\<rparr>"
  have "\<exists>g'. getaddrinfo ?hdb (\<lambda>_ _. None) (Some ''h'') (Some ''daytime'') None (gai0\<lparr>quota := 1\<rparr>) = Inr (EAI_MEMORY, None, g')"
    using choose_host_name [OF host_name_example] getaddrinfo_host_name [OF host_name_example, of ?hdb]
    by (simp add: getaddrinfo_def getaddrinfo_named_def check_zero gai0_def, simp add: ai_zero_def getaddrinfo_list_def bad_def calloc_def Let_def)
  then show ?thesis using getaddrinfo_no_leak [of ?hdb "\<lambda>_ _. None" "Some ''h''" "Some ''daytime''" None "gai0\<lparr>quota := 1\<rparr>" EAI_MEMORY None]
    by (auto simp: is_path_def gai0_def)
qed

theorem getaddrinfo_product_witness:
  "getaddrinfo (\<lambda>_ _. Inr \<lparr>h_name = None, h_addrtype = AF_INET, h_addr_list = [[10, 0, 0, 1], [10, 0, 0, 2]]\<rparr>)
     (\<lambda>_ p. if p = ''tcp'' then Some 13 else Some 14) (Some ''h'') (Some ''daytime'') None gai0 =
   Inr (0, Some [endpoint AF_INET AI_CLONE SOCK_STREAM 13 [10, 0, 0, 1], endpoint AF_INET 0 SOCK_DGRAM 14 [10, 0, 0, 1],
       endpoint AF_INET AI_CLONE SOCK_STREAM 13 [10, 0, 0, 2], endpoint AF_INET 0 SOCK_DGRAM 14 [10, 0, 0, 2]],
     take_mem 8 gai0)"
  using getaddrinfo_product [OF host_name_example, of "\<lambda>_ _. Inr \<lparr>h_name = None, h_addrtype = AF_INET, h_addr_list = [[10, 0, 0, 1], [10, 0, 0, 2]]\<rparr>"
    gai0 "\<lparr>h_name = None, h_addrtype = AF_INET, h_addr_list = [[10, 0, 0, 1], [10, 0, 0, 2]]\<rparr>" "''daytime''"
    "\<lambda>_ p. if p = ''tcp'' then Some 13 else Some 14" 13 14]
  by (simp add: gai0_def)

section \<open>Numeric hosts and services\<close>

lemma pton6_digits_any:
  "\<forall>c \<in> set s. isdigit c \<Longrightarrow> pton6_loop (s @ r) cur tmp tp col saw v = None \<or>
    (\<exists>v' saw'. pton6_loop (s @ r) cur tmp tp col saw v = pton6_loop r cur tmp tp col saw' v')"
proof (induction s arbitrary: v saw)
  case (Cons c s)
  have "xdigit c = Some (digit_val c)" using Cons.prems by (auto simp: xdigit_def digit_val_def isdigit_def)
  then show ?case using Cons.IH [of True "v * 16 + digit_val c"] Cons.prems by (auto simp: Let_def)
qed auto

lemma quad_start:
  assumes "dotted_quad s bs"
  obtains a r where "s = a @ CHR ''.'' # r" "octet a" "length bs = 4"
proof -
  obtain fs where fs: "length fs = 4" "\<forall>f \<in> set fs. octet f" "s = join ''.'' fs" "bs = map (\<lambda>f. word_of_nat (digits_val f)) fs"
    using assms by (auto simp: dotted_quad_def)
  then obtain a b c d where "fs = [a, b, c, d]" by (auto simp: length_Suc_conv eval_nat_numeral)
  then show ?thesis using that [of a "b @ ''.'' @ c @ ''.'' @ d"] fs by simp
qed

lemma quad_not_v6: "dotted_quad s bs \<Longrightarrow> inet_pton6 s \<noteq> Accept xs"
proof -
  assume q: "dotted_quad s bs"
  obtain a r where s: "s = a @ CHR ''.'' # r" "octet a" by (rule quad_start [OF q])
  have a: "a \<noteq> []" "\<forall>c \<in> set a. isdigit c" using s(2) by (auto simp: octet_def)
  then have "hd s \<noteq> CHR '':''" "s \<noteq> []" using s(1) by (cases a; auto simp: isdigit_def)+
  then have "inet_pton6 s = pton6_run s" by (intro inet_pton6_plain)
  moreover have "pton6_run s = Reject"
    using pton6_digits_any [OF a(2), of "CHR ''.'' # r" s "replicate 16 0" 0 None False 0] pton4_complete [OF q]
    unfolding s(1) [symmetric] by (auto simp: pton6_run_def xdigit_sep pton6_end_def)
  ultimately show ?thesis by simp
qed

text \<open>A dotted quad and a port number, with a socket type given, are looked up without
  the resolver: whatever the host and service databases hold, the result is one
  entry with that address and that port in network order.\<close>

theorem getaddrinfo_numeric:
  assumes "dotted_quad host bs" "st = SOCK_STREAM \<or> st = SOCK_DGRAM" "2 \<le> quota g"
  shows "getaddrinfo hdb sdb (Some host) (Some (dec p)) (Some (ai_zero\<lparr>ai_socktype := st\<rparr>)) g =
    Inr (0, Some [endpoint AF_INET 0 st (htons (word_of_nat p)) bs], take_mem 2 g)"
proof -
  let ?h = "ai_zero\<lparr>ai_socktype := st\<rparr>" and ?h2 = "ai_zero\<lparr>ai_socktype := st, ai_family := AF_INET\<rparr>"
  obtain a r where s: "host = a @ CHR ''.'' # r" "octet a" "length bs = 4" by (rule quad_start [OF assms(1)])
  have d: "isdigit (hd host)" "host \<noteq> []" using s by (auto simp: octet_def hd_append intro: hd_in_set)
  have dp: "isdigit (hd (dec p))" "dec p \<noteq> []" using isdigit_dec [of "hd (dec p)" p] by simp_all
  have slash: "c \<noteq> CHR ''/''" if "isdigit c" for c using that by (auto simp: isdigit_def)
  have p4: "inet_pton4 host = Accept bs" using pton4_complete [OF assms(1)] .
  have p6: "\<forall>xs. inet_pton6 host \<noteq> Accept xs" using quad_not_v6 [OF assms(1)] by blast
  have st: "st \<noteq> 0" using assms(2) by auto
  have "check_hints ?h = None" by (simp add: check_hints_def ai_zero_def)
  moreover have "choose_host (Some host) (Some (dec p)) ?h = Inr (Some host, ?h2)"
    using d p4 p6 by (simp add: choose_host_def empty_arg_def inet_pton_def no_accept ai_zero_def)
  moreover have "getaddrinfo_host hdb host AF_INET g =
      (Inr \<lparr>h_name = Some (take (HENTBUFSIZ - 1) host), h_addrtype = AF_INET, h_addr_list = [bs]\<rparr>, g)"
    using d p4 by (simp add: getaddrinfo_host_def inet_pton_def)
  moreover have "host_nodes ?h2 AF_INET [bs] [] g = (True, [endpoint AF_INET 0 st 0 bs], take_mem 2 g)"
    using host_nodes_ok [of AF_INET "[bs]" g ?h2 "[]"] assms(3) st by (simp add: ai_zero_def)
  moreover have "set_canonname ?h2 h host ais g' = Inr (True, ais, g')" for h ais g' by (simp add: set_canonname_def ai_zero_def)
  moreover have "getaddrinfo_serv sdb [endpoint AF_INET 0 st 0 bs] ?h2 (dec p) (take_mem 2 g) =
      (0, [endpoint AF_INET 0 st (htons (word_of_nat p)) bs], take_mem 2 g)"
    using dp st atol_dec [of "[NUL]" p] port_first [of AF_INET 0 st st 0 "[bs]" "htons (word_of_nat p)" "take_mem 2 g"]
    by (simp add: getaddrinfo_serv_def isdigit_not)
  ultimately show ?thesis
    using d dp slash by (simp add: getaddrinfo_def getaddrinfo_named_def getaddrinfo_list_def empty_arg_def take1_hd ai_zero_def del: One_nat_def)
qed

theorem getaddrinfo_numeric_witness:
  "getaddrinfo (\<lambda>_ _. Inl 1) (\<lambda>_ _. None) (Some (dotted [127, 0, 0, 1])) (Some (dec 80)) (Some (ai_zero\<lparr>ai_socktype := SOCK_STREAM\<rparr>)) gai0 =
    Inr (0, Some [endpoint AF_INET 0 SOCK_STREAM (htons 80) [127, 0, 0, 1]], take_mem 2 gai0)"
  using getaddrinfo_numeric [OF dotted_is_quad [of "[127, 0, 0, 1]"], of SOCK_STREAM gai0 "\<lambda>_ _. Inl 1" "\<lambda>_ _. None" 80]
  by (simp add: gai0_def)

end
