(* ===== verification/Memstream.thy ===== *)
theory Memstream
  imports C_Bytes
begin

text \<open>
  Memory streams, \<^verbatim>\<open>apue.3e/exercises/fmemopen.c\<close>: the structure behind the stream and
  the functions that the standard I/O library calls to read, write, seek and close.
  An access outside the buffer is the result \<open>None\<close>.
\<close>

unbundle bit_operations_syntax

section \<open>The stream\<close>

record memstream =
  ms_buf :: cbuf
  rsize :: nat
  vsize :: nat
  curpos :: nat
  ms_flags :: "32 word"

abbreviation (input) MS_READ :: "32 word" where "MS_READ \<equiv> 1"
abbreviation (input) MS_WRITE :: "32 word" where "MS_WRITE \<equiv> 2"
abbreviation (input) MS_APPEND :: "32 word" where "MS_APPEND \<equiv> 4"
abbreviation (input) MS_TRUNCATE :: "32 word" where "MS_TRUNCATE \<equiv> 8"
abbreviation (input) MS_MYBUF :: "32 word" where "MS_MYBUF \<equiv> 16"

definition has :: "memstream \<Rightarrow> 32 word \<Rightarrow> bool" where
  "has ms f \<longleftrightarrow> ms_flags ms AND f \<noteq> 0"

text \<open>Conversion of a \<^verbatim>\<open>size_t\<close> or \<^verbatim>\<open>fpos_t\<close> value to \<^verbatim>\<open>int\<close>.\<close>

definition to_int :: "int \<Rightarrow> int" where
  "to_int n = sint (word_of_int n :: 32 word)"

section \<open>Opening\<close>

fun type_loop :: "string \<Rightarrow> 32 word \<Rightarrow> 32 word" where
  "type_loop [] flags = flags"
| "type_loop (c # cp) flags =
     (if c = CHR ''r'' then if flags \<noteq> 0 then 0 else type_loop cp (flags OR MS_READ)
      else if c = CHR ''w'' then if flags \<noteq> 0 then 0 else type_loop cp (flags OR (MS_WRITE OR MS_TRUNCATE))
      else if c = CHR ''a'' then if flags \<noteq> 0 then 0 else type_loop cp (flags OR MS_APPEND)
      else if c = CHR ''+'' then if flags = 0 then 0 else type_loop cp (flags OR (MS_READ OR MS_WRITE))
      else if c = CHR ''b'' then if flags = 0 then 0 else type_loop cp flags
      else 0)"

definition type_to_flags :: "string \<Rightarrow> 32 word" where
  "type_to_flags type = type_loop type 0"

function ms_find_end :: "cbuf \<Rightarrow> nat \<Rightarrow> nat \<Rightarrow> nat" where
  "ms_find_end buf len off =
     (if off < len then if buf ! off = NUL then off else ms_find_end buf len (Suc off) else off)"
  by auto
termination by (relation "measure (\<lambda>(buf, len, off). len - off)") auto

declare ms_find_end.simps [simp del]

text \<open>\<open>mem\<close> is the number of allocations that succeed, \<open>junk\<close> what a fresh buffer holds,
  \<open>funopen\<close> whether the library can make the stream.  The result is an error number or
  the stream, and the number of blocks that stay allocated; \<open>None\<close> is the error number of
  \<^verbatim>\<open>funopen\<close>.\<close>

abbreviation (input) EINVAL :: int where "EINVAL \<equiv> 22"
abbreviation (input) ENOMEM :: int where "ENOMEM \<equiv> 12"
abbreviation (input) EBADF :: int where "EBADF \<equiv> 9"

definition set_vsize :: "memstream \<Rightarrow> memstream" where
  "set_vsize ms =
     ms\<lparr>vsize := (if has ms MS_APPEND then curpos ms else if has ms MS_TRUNCATE then 0 else rsize ms)\<rparr>"

definition fmemopen :: "nat \<Rightarrow> (nat \<Rightarrow> char) \<Rightarrow> bool \<Rightarrow> cbuf option \<Rightarrow> nat \<Rightarrow> string \<Rightarrow> (int option + memstream) \<times> nat" where
  "fmemopen mem junk funopen buf size' type =
     (if size' = 0 then (Inl (Some EINVAL), 0)
      else if mem = 0 then (Inl (Some ENOMEM), 0)
      else let flags = type_to_flags type
           in if flags = 0 then (Inl (Some EINVAL), 0)
              else case buf of
                     None \<Rightarrow>
                       if flags AND (MS_READ OR MS_WRITE) \<noteq> (MS_READ OR MS_WRITE) then (Inl (Some EINVAL), 0)
                       else if mem = 1 then (Inl (Some ENOMEM), 0)
                       else let ms = set_vsize \<lparr>ms_buf = map junk [0..<size'], rsize = size', vsize = 0, curpos = 0,
                                       ms_flags = flags OR MS_MYBUF\<rparr>
                            in if funopen then (Inr ms, 2) else (Inl None, 0)
                   | Some b \<Rightarrow>
                       let ms = set_vsize \<lparr>ms_buf = b, rsize = size', vsize = 0,
                                  curpos = (if flags AND MS_APPEND \<noteq> 0 then ms_find_end b size' 0 else 0), ms_flags = flags\<rparr>
                       in if funopen then (Inr ms, 1) else (Inl None, 0))"

section \<open>Reading, writing and seeking\<close>

text \<open>The return value, the bytes read and the stream.\<close>

definition mstream_read :: "nat \<Rightarrow> memstream \<Rightarrow> (int \<times> cbuf \<times> memstream) option" where
  "mstream_read len ms =
     (if \<not> has ms MS_READ then Some (- 1, [], ms)
      else if curpos ms \<ge> vsize ms then Some (0, [], ms)
      else let nr = min len (vsize ms - curpos ms)
           in if curpos ms + nr > length (ms_buf ms) then None
              else Some (int nr, take nr (drop (curpos ms) (ms_buf ms)), ms\<lparr>curpos := curpos ms + nr\<rparr>))"

definition put_byte :: "nat \<Rightarrow> memstream \<Rightarrow> memstream" where
  "put_byte i ms = ms\<lparr>ms_buf := (ms_buf ms)[i := NUL]\<rparr>"

definition mstream_write :: "cbuf \<Rightarrow> memstream \<Rightarrow> (int \<times> memstream) option" where
  "mstream_write bs ms =
     (if \<not> has ms (MS_APPEND OR MS_WRITE) then Some (- 1, ms)
      else
        let off = to_int (int (if has ms MS_APPEND then vsize ms else curpos ms));
            nw = min (length bs) (nat ((int (rsize ms) - off) mod 2 ^ 64))
        in if off < 0 \<or> nat off + nw > length (ms_buf ms) then None
           else
             let ms = ms\<lparr>ms_buf := pwrite (ms_buf ms) (nat off) (take nw bs), curpos := nat off + nw\<rparr>;
                 ms = (if curpos ms > vsize ms then
                         let ms = ms\<lparr>vsize := curpos ms\<rparr>
                         in if ms_flags ms AND (MS_READ OR MS_WRITE) = (MS_READ OR MS_WRITE) \<and> vsize ms < rsize ms
                            then put_byte (vsize ms) ms else ms
                       else ms);
                 ms = (if has ms (MS_WRITE OR MS_APPEND) \<and> \<not> has ms MS_READ then
                         put_byte (if curpos ms < rsize ms then curpos ms else rsize ms - 1) ms
                       else ms)
             in Some (int nw, ms))"

datatype ms_whence = Ms_SET | Ms_END | Ms_CUR

definition mstream_seek :: "int \<Rightarrow> ms_whence \<Rightarrow> memstream \<Rightarrow> int \<times> memstream" where
  "mstream_seek pos whence ms =
     (let off = to_int (case whence of
                  Ms_SET \<Rightarrow> pos
                | Ms_END \<Rightarrow> int (vsize ms) + pos
                | Ms_CUR \<Rightarrow> int (curpos ms) + pos)
      in if off < 0 \<or> off > int (vsize ms) then (- 1, ms)
         else (off, ms\<lparr>curpos := nat off\<rparr>))"

text \<open>The number of blocks that closing releases.\<close>

definition mstream_close :: "memstream \<Rightarrow> nat" where
  "mstream_close ms = (if has ms MS_MYBUF then 2 else 1)"

section \<open>Invariant\<close>

definition ms_ok :: "memstream \<Rightarrow> bool" where
  "ms_ok ms \<longleftrightarrow> curpos ms \<le> vsize ms \<and> vsize ms \<le> rsize ms \<and> rsize ms = length (ms_buf ms) \<and> 0 < rsize ms \<and> rsize ms < 2 ^ 31"

lemma to_int_small: "0 \<le> n \<Longrightarrow> n < 2 ^ 31 \<Longrightarrow> to_int n = n"
  by (simp add: to_int_def signed_of_int signed_take_bit_int_eq_self)

datatype ms_op = Ms_read nat | Ms_write cbuf | Ms_seek int ms_whence

definition ms_step :: "ms_op \<Rightarrow> memstream \<Rightarrow> memstream option" where
  "ms_step op ms =
     (case op of
        Ms_read n \<Rightarrow> map_option (\<lambda>(r, bs, ms). ms) (mstream_read n ms)
      | Ms_write bs \<Rightarrow> map_option snd (mstream_write bs ms)
      | Ms_seek pos whence \<Rightarrow> Some (snd (mstream_seek pos whence ms)))"

fun ms_run :: "ms_op list \<Rightarrow> memstream \<Rightarrow> memstream option" where
  "ms_run [] ms = Some ms"
| "ms_run (op # ops) ms = Option.bind (ms_step op ms) (ms_run ops)"

lemma put_byte_fields [simp]:
  "curpos (put_byte i ms) = curpos ms" "vsize (put_byte i ms) = vsize ms" "rsize (put_byte i ms) = rsize ms"
  "length (ms_buf (put_byte i ms)) = length (ms_buf ms)" "ms_flags (put_byte i ms) = ms_flags ms"
  "has (put_byte i ms) f = has ms f"
  by (simp_all add: put_byte_def has_def)

lemma read_ok: "ms_ok ms \<Longrightarrow> \<exists>r bs ms'. mstream_read n ms = Some (r, bs, ms') \<and> ms_ok ms'"
  by (auto simp: ms_ok_def mstream_read_def Let_def)

lemma seek_ok: "ms_ok ms \<Longrightarrow> ms_ok (snd (mstream_seek pos whence ms))"
  by (auto simp: ms_ok_def mstream_seek_def Let_def)

text \<open>A write on a stream that may be written, with the bounds of the invariant in place.\<close>

definition written :: "cbuf \<Rightarrow> nat \<Rightarrow> memstream \<Rightarrow> memstream" where
  "written w off ms =
     (let ms = ms\<lparr>ms_buf := pwrite (ms_buf ms) off w, curpos := off + length w\<rparr>;
          ms = (if curpos ms > vsize ms then
                  let ms = ms\<lparr>vsize := curpos ms\<rparr>
                  in if ms_flags ms AND (MS_READ OR MS_WRITE) = (MS_READ OR MS_WRITE) \<and> vsize ms < rsize ms
                     then put_byte (vsize ms) ms else ms
                else ms)
      in if has ms (MS_WRITE OR MS_APPEND) \<and> \<not> has ms MS_READ then
           put_byte (if curpos ms < rsize ms then curpos ms else rsize ms - 1) ms
         else ms)"

lemma write_eq:
  assumes "ms_ok ms" "has ms (MS_APPEND OR MS_WRITE)" "off = (if has ms MS_APPEND then vsize ms else curpos ms)"
    "w = take (rsize ms - off) bs"
  shows "mstream_write bs ms = Some (int (length w), written w off ms)"
proof -
  have o: "off \<le> rsize ms" "to_int (int off) = int off"
    using assms(1,3) to_int_small [of "int off"] by (auto simp: ms_ok_def)
  have "(int (rsize ms) - int off) mod 2 ^ 64 = int (rsize ms - off)"
    using assms(1) o(1) by (simp add: ms_ok_def of_nat_diff)
  then have "min (length bs) (nat ((int (rsize ms) - int off) mod 2 ^ 64)) = length w" "take (length w) bs = w"
    using assms(4) by (auto simp: min_def)
  then show ?thesis using assms(1,2) o assms(4) unfolding mstream_write_def assms(3) [symmetric] o(2)
    by (simp add: Let_def written_def ms_ok_def)
qed

lemma written_ok:
  assumes "ms_ok ms" "off \<le> vsize ms" "off + length w \<le> rsize ms"
  shows "ms_ok (written w off ms)"
  using assms by (auto simp: written_def ms_ok_def Let_def length_pwrite put_byte_def)

lemma write_ok: "ms_ok ms \<Longrightarrow> \<exists>n ms'. mstream_write bs ms = Some (n, ms') \<and> ms_ok ms'"
proof (cases "has ms (MS_APPEND OR MS_WRITE)")
  case True
  assume ok: "ms_ok ms"
  let ?off = "if has ms MS_APPEND then vsize ms else curpos ms"
  have "ms_ok (written (take (rsize ms - ?off) bs) ?off ms)" using ok by (intro written_ok) (auto simp: ms_ok_def)
  then show ?thesis using write_eq [OF ok True refl refl] by auto
qed (simp add: mstream_write_def)

lemma run_ok: "ms_ok ms \<Longrightarrow> \<exists>ms'. ms_run ops ms = Some ms' \<and> ms_ok ms'"
proof (induction ops arbitrary: ms)
  case (Cons op ops)
  have "\<exists>ms'. ms_step op ms = Some ms' \<and> ms_ok ms'"
  proof (cases op)
    case (Ms_read n)
    then show ?thesis using read_ok [OF Cons.prems, of n] by (auto simp: ms_step_def)
  next
    case (Ms_write bs)
    then show ?thesis using write_ok [OF Cons.prems, of bs] by (auto simp: ms_step_def)
  next
    case (Ms_seek pos whence)
    then show ?thesis using seek_ok [OF Cons.prems] by (simp add: ms_step_def)
  qed
  then show ?case using Cons.IH by auto
qed simp

lemma ms_find_end_le: "off \<le> len \<Longrightarrow> ms_find_end buf len off \<le> len"
  by (induction buf len off rule: ms_find_end.induct) (subst ms_find_end.simps, simp)

text \<open>A stream that \<^verbatim>\<open>fmemopen\<close> opens on a buffer of less than 2 GB keeps its position
  within its contents and its contents within the buffer under every sequence of
  reads, writes and seeks, and no operation touches memory outside the buffer.\<close>

theorem memstream_in_bounds:
  assumes "fmemopen mem junk fun buf n type = (Inr ms, blocks)" "n < 2 ^ 31"
    "\<forall>b. buf = Some b \<longrightarrow> length b = n"
  shows "\<exists>ms'. ms_run ops ms = Some ms' \<and> ms_ok ms'"
proof (rule run_ok)
  show "ms_ok ms"
    using assms ms_find_end_le [of 0 n]
    by (auto simp: fmemopen_def set_vsize_def ms_ok_def has_def Let_def split: if_splits option.splits)
qed

theorem memstream_in_bounds_witness:
  "\<exists>ms blocks ms'. fmemopen 2 (\<lambda>_. NUL) True None 4 ''w+'' = (Inr ms, blocks) \<and>
     ms_run [Ms_write ''hello'', Ms_seek 1 Ms_SET, Ms_read 10] ms = Some ms' \<and> ms_ok ms'"
proof -
  obtain ms blocks where f: "fmemopen 2 (\<lambda>_. NUL) True None 4 ''w+'' = (Inr ms, blocks)"
    by (simp add: fmemopen_def type_to_flags_def)
  show ?thesis
    using f memstream_in_bounds [OF f, of "[Ms_write ''hello'', Ms_seek 1 Ms_SET, Ms_read 10]"] by auto
qed

section \<open>The stream as a file\<close>

type_synonym afile = "cbuf \<times> nat"

definition ms_abs :: "memstream \<Rightarrow> afile" where
  "ms_abs ms = (take (vsize ms) (ms_buf ms), curpos ms)"

definition af_read :: "nat \<Rightarrow> afile \<Rightarrow> cbuf \<times> afile" where
  "af_read n f = (case f of (c, p) \<Rightarrow> let r = take n (drop p c) in (r, (c, p + length r)))"

text \<open>A file that can grow to \<open>cap\<close> bytes.\<close>

definition af_write :: "nat \<Rightarrow> cbuf \<Rightarrow> afile \<Rightarrow> nat \<times> afile" where
  "af_write cap bs f = (case f of (c, p) \<Rightarrow> let w = take (cap - p) bs in (length w, (pwrite c p w, p + length w)))"

definition updatable :: "memstream \<Rightarrow> bool" where
  "updatable ms \<longleftrightarrow> ms_flags ms AND (MS_READ OR MS_WRITE) = (MS_READ OR MS_WRITE) \<and> \<not> has ms MS_APPEND"

lemma updatable_has:
  assumes "updatable ms"
  shows "has ms MS_READ" "has ms (MS_APPEND OR MS_WRITE)" "\<not> has ms MS_APPEND"
proof -
  let ?f = "ms_flags ms"
  have f: "?f AND 3 = 3" using assms by (simp add: updatable_def)
  have "?f AND 1 = (?f AND 3) AND 1" "?f AND 2 = (?f AND 3) AND 2" "?f AND 2 = (?f AND 6) AND 2"
    by (simp_all add: and.assoc)
  then have "?f AND 1 = 1" "?f AND 6 \<noteq> 0" unfolding f by auto
  then show "has ms MS_READ" "has ms (MS_APPEND OR MS_WRITE)" by (simp_all add: has_def)
  show "\<not> has ms MS_APPEND" using assms by (simp add: updatable_def)
qed

lemma take_pwrite:
  assumes "p \<le> v" "v \<le> length b" "p + length w \<le> length b"
  shows "take (max v (p + length w)) (pwrite b p w) = pwrite (take v b) p w"
proof -
  have pw: "pwrite b p w = take p b @ w @ drop (p + length w) b" "pwrite (take v b) p w = take p b @ w @ drop (p + length w) (take v b)"
    using assms by (simp_all add: pwrite_def min_absorb1)
  show ?thesis
  proof (cases "v \<le> p + length w")
    case True
    then show ?thesis unfolding pw using assms by (simp add: max_absorb2)
  next
    case False
    then show ?thesis unfolding pw using assms by (simp add: max_absorb1 drop_take)
  qed
qed

lemma written_abs:
  assumes "ms_ok ms" "updatable ms" "off \<le> vsize ms" "off + length w \<le> rsize ms"
  shows "ms_abs (written w off ms) = (pwrite (take (vsize ms) (ms_buf ms)) off w, off + length w)"
proof -
  have "take (max (vsize ms) (off + length w)) (pwrite (ms_buf ms) off w) = pwrite (take (vsize ms) (ms_buf ms)) off w"
    using assms by (intro take_pwrite) (auto simp: ms_ok_def)
  then show ?thesis using updatable_has [OF assms(2)]
    by (auto simp: written_def ms_abs_def Let_def put_byte_def has_def max_def)
qed

lemma updatable_keeps: "updatable (ms\<lparr>curpos := p\<rparr>) = updatable ms" "updatable (written w off ms) = updatable ms"
  by (simp_all add: updatable_def has_def written_def Let_def)

lemma ms_read_abs:
  assumes "ms_ok ms" "updatable ms"
  shows "\<exists>ms'. mstream_read n ms = Some (int (length (fst (af_read n (ms_abs ms)))), fst (af_read n (ms_abs ms)), ms') \<and>
      ms_abs ms' = snd (af_read n (ms_abs ms)) \<and> ms_ok ms' \<and> updatable ms'"
proof -
  let ?r = "take n (drop (curpos ms) (take (vsize ms) (ms_buf ms)))"
  have len: "length ?r = min n (vsize ms - curpos ms)" using assms(1) by (auto simp: ms_ok_def)
  have r: "?r = take (min n (vsize ms - curpos ms)) (drop (curpos ms) (ms_buf ms))" by (simp add: drop_take)
  show ?thesis
  proof (cases "curpos ms = vsize ms")
    case True
    then show ?thesis using assms updatable_has(1) [OF assms(2)] by (simp add: mstream_read_def af_read_def ms_abs_def)
  next
    case False
    then have "mstream_read n ms = Some (int (length ?r), ?r, ms\<lparr>curpos := curpos ms + length ?r\<rparr>)"
      using assms(1) updatable_has(1) [OF assms(2)] unfolding len r by (auto simp: mstream_read_def ms_ok_def Let_def)
    then show ?thesis using assms len updatable_keeps(1) [where ms = ms]
      by (auto simp: af_read_def ms_abs_def Let_def ms_ok_def simp del: length_take length_drop)
  qed
qed

lemma ms_write_abs:
  assumes "ms_ok ms" "updatable ms"
  shows "\<exists>ms'. mstream_write bs ms = Some (int (fst (af_write (rsize ms) bs (ms_abs ms))), ms') \<and>
      ms_abs ms' = snd (af_write (rsize ms) bs (ms_abs ms)) \<and> ms_ok ms' \<and> updatable ms'"
proof -
  note u = updatable_has [OF assms(2)]
  let ?w = "take (rsize ms - curpos ms) bs"
  have b: "curpos ms \<le> vsize ms" "curpos ms + length ?w \<le> rsize ms" using assms(1) by (auto simp: ms_ok_def)
  show ?thesis
    using write_eq [OF assms(1) u(2), of "curpos ms" ?w bs] u(3) written_abs [OF assms b] written_ok [OF assms(1) b]
      updatable_keeps(2) [of ?w "curpos ms" ms] assms(2)
    by (simp add: af_write_def ms_abs_def Let_def)
qed

text \<open>C38: A stream open for reading and writing behaves as a file of bounded size: reads
  return the bytes at the position, writes replace or append bytes there as far as
  the buffer goes, and both move the position past them.  The modes are those with an update that do not append, r+ and w+; a stream opened with a+, which writes at the end wherever the position is, is left out.\<close>

theorem memstream_refines_file:
  assumes "ms_ok ms" "updatable ms"
  shows "(\<exists>ms'. mstream_read n ms = Some (int (length (fst (af_read n (ms_abs ms)))), fst (af_read n (ms_abs ms)), ms') \<and>
      ms_abs ms' = snd (af_read n (ms_abs ms)) \<and> ms_ok ms' \<and> updatable ms') \<and>
    (\<exists>ms'. mstream_write bs ms = Some (int (fst (af_write (rsize ms) bs (ms_abs ms))), ms') \<and>
      ms_abs ms' = snd (af_write (rsize ms) bs (ms_abs ms)) \<and> ms_ok ms' \<and> updatable ms')"
  using ms_read_abs [OF assms] ms_write_abs [OF assms] by blast

theorem memstream_refines_file_witness:
  "\<exists>ms'. mstream_write ''hello'' \<lparr>ms_buf = replicate 4 NUL, rsize = 4, vsize = 0, curpos = 0, ms_flags = 3\<rparr> = Some (4, ms') \<and>
     ms_abs ms' = (''hell'', 4)"
  using memstream_refines_file [of "\<lparr>ms_buf = replicate 4 NUL, rsize = 4, vsize = 0, curpos = 0, ms_flags = 3\<rparr>" 0 "''hello''"]
  by (auto simp: ms_ok_def updatable_def has_def af_write_def ms_abs_def pwrite_def)

text \<open>A stream open for writing only puts a NUL after what was written even in the middle of
  its contents, so that a later write at the beginning cuts the text off.\<close>

lemma memstream_write_truncates:
  "\<exists>ms. ms_run [Ms_write ''hello'', Ms_seek 0 Ms_SET, Ms_write ''J'']
     \<lparr>ms_buf = replicate 8 NUL, rsize = 8, vsize = 0, curpos = 0, ms_flags = type_to_flags ''w''\<rparr> = Some ms \<and> cstr (ms_buf ms) = ''J''"
  by (simp add: ms_step_def mstream_write_def mstream_seek_def has_def type_to_flags_def to_int_def pwrite_def put_byte_def
    Let_def cstr_def eval_nat_numeral)

end
