(* ===== verification/In_Cksum.thy ===== *)
theory In_Cksum
  imports Inet_Addr
begin

text \<open>
  The Internet checksum, \<^verbatim>\<open>unpv13e/libfree/in_cksum.c\<close>, on a little-endian host: the
  32-bit accumulator, the odd byte at the end and the two folds of the carries.
\<close>

unbundle bit_operations_syntax

section \<open>The function\<close>

text \<open>The 16-bit word at \<^verbatim>\<open>w\<close>, widened to the accumulator.\<close>

definition word_at :: "byte \<Rightarrow> byte \<Rightarrow> 32 word" where
  "word_at a b = word_of_nat (unat a + 256 * unat b)"

fun cksum_loop :: "byte list \<Rightarrow> 32 word \<Rightarrow> 32 word" where
  "cksum_loop [] acc = acc"
| "cksum_loop [a] acc = acc + word_at a 0"
| "cksum_loop (a # b # w) acc = cksum_loop w (acc + word_at a b)"

definition in_cksum :: "byte list \<Rightarrow> 16 word" where
  "in_cksum addr =
     (let acc = cksum_loop addr 0;
          acc = drop_bit 16 acc + (acc AND 0xffff);
          acc = acc + drop_bit 16 acc
      in ucast (NOT acc))"

section \<open>One's complement sums\<close>

fun total :: "byte list \<Rightarrow> nat" where
  "total [] = 0"
| "total [a] = unat a"
| "total (a # b # w) = unat a + 256 * unat b + total w"

text \<open>The residue in \<open>1..65535\<close>, or 0 for the sum 0.\<close>

definition fold16 :: "nat \<Rightarrow> nat" where
  "fold16 s = (if s = 0 then 0 else 1 + (s - 1) mod 65535)"

lemma byte_less: "unat (b :: byte) < 256"
  using unsigned_less [of b, where ?'a = nat] by simp

lemma total_less: "total bs \<le> 65535 * ((length bs + 1) div 2)"
proof (induction bs rule: total.induct)
  case (2 a)
  then show ?case using byte_less [of a] by simp
next
  case (3 a b w)
  then show ?case using byte_less [of a] byte_less [of b] by simp
qed simp

lemma cksum_total: "cksum_loop bs s = s + word_of_nat (total bs)"
  by (induction bs s rule: cksum_loop.induct) (simp_all add: word_at_def)

lemma fold16_two:
  assumes "s < 4294967296" "s1 = s div 65536 + s mod 65536"
  shows "(s1 + s1 div 65536) mod 65536 = fold16 s" "s1 \<le> 131070"
proof -
  define q r where "q = s div 65536" and "r = s mod 65536"
  have s: "s = 65536 * q + r" and b: "q \<le> 65535" "r \<le> 65535" and s1: "s1 = q + r"
    using assms by (auto simp: q_def r_def)
  show "s1 \<le> 131070" using b s1 by simp
  show "(s1 + s1 div 65536) mod 65536 = fold16 s"
  proof (cases "s = 0")
    case True
    then show ?thesis using assms(2) by (simp add: fold16_def)
  next
    case False
    then have "s - 1 = (q + r - 1) + 65535 * q" using s by (cases "q + r") auto
    then have m: "(s - 1) mod 65535 = (q + r - 1) mod 65535" by simp
    show ?thesis
    proof (cases "q + r < 65536")
      case True
      then have "(q + r - 1) mod 65535 = q + r - 1" by simp
      then show ?thesis using False True m s s1 by (cases "q + r = 0") (simp_all add: fold16_def)
    next
      case big: False
      have "q + r - 1 = (q + r - 65536) + 65535" using big by simp
      then have "(q + r - 1) mod 65535 = (q + r - 65536) mod 65535" by (metis mod_add_self2)
      moreover have "q + r - 65536 < 65535" using b by simp
      ultimately have "(q + r - 1) mod 65535 = q + r - 65536" by simp
      moreover have "s1 div 65536 = 1" using big b s1 by (simp add: div_nat_eqI)
      moreover have "(q + r + 1) mod 65536 = (q + r - 65535 + 65536) mod 65536" using big by simp
      moreover have "(q + r - 65535 + 65536) mod 65536 = q + r - 65535" using b big by (simp only: mod_add_self2) simp
      moreover have "q + r - 65535 = Suc (q + r - 65536)" using big by linarith
      ultimately show ?thesis using False m big s1 by (simp add: fold16_def)
    qed
  qed
qed

lemma unat_total:
  assumes "length bs \<le> 131074"
  shows "unat (cksum_loop bs 0) = total bs" "total bs < 4294967296"
proof -
  have "65535 * ((length bs + 1) div 2) \<le> 65535 * 65537" using assms by (intro mult_le_mono2) simp
  then show "total bs < 4294967296" using total_less [of bs] by simp
  then show "unat (cksum_loop bs 0) = total bs" by (simp add: cksum_total unat_of_nat)
qed

lemma unat_high: "unat (drop_bit 16 (w :: 32 word)) = unat w div 65536"
  by (simp only: unat_drop_bit_eq) (simp add: drop_bit_eq_div)

lemma unat_low: "unat ((w :: 32 word) AND 0xffff) = unat w mod 65536"
proof -
  have "w AND 0xffff = take_bit 16 w" by (simp add: take_bit_eq_mask mask_eq_exp_minus_1)
  then have "unat (w AND 0xffff) = take_bit 16 (unat w)" by (simp only: unsigned_take_bit_eq)
  then show ?thesis by (simp add: take_bit_eq_mod)
qed

lemma unat_not16: "unat (ucast (NOT (w :: 32 word)) :: 16 word) = 65535 - unat w mod 65536"
proof -
  have "ucast (NOT w) = NOT (ucast w :: 16 word)" by (rule bit_word_eqI) (simp add: bit_simps)
  also have "\<dots> = - 1 - ucast w" by (simp add: not_eq_complement)
  finally have "unat (ucast (NOT w) :: 16 word) = 65535 - unat (ucast w :: 16 word)"
    by (simp add: unat_sub unsigned_minus_1_eq_mask mask_eq_exp_minus_1)
  moreover have "unat (ucast w :: 16 word) = unat w mod 65536" by (simp add: unsigned_ucast_eq take_bit_eq_mod)
  ultimately show ?thesis by simp
qed

lemma in_cksum_fold:
  assumes "length bs \<le> 131074"
  shows "unat (in_cksum bs) = 65535 - fold16 (total bs)"
proof -
  note t = unat_total [OF assms]
  let ?s = "cksum_loop bs 0" and ?t = "total bs"
  let ?t1 = "?t div 65536 + ?t mod 65536"
  let ?s1 = "drop_bit 16 ?s + (?s AND 0xffff)"
  note f = fold16_two [OF t(2) refl]
  have s1: "unat ?s1 = ?t1" using f(2) t unat_high [of ?s] unat_low [of ?s]
    by (simp add: unat_plus_if_size word_size del: drop_bit_eq_div)
  have "?t1 div 65536 \<le> 1" using f(2) by (simp add: div_le_mono [of _ 131070 65536, simplified])
  then have "unat (?s1 + drop_bit 16 ?s1) = ?t1 + ?t1 div 65536"
    using f(2) s1 unat_high [of ?s1] by (simp add: unat_plus_if_size word_size)
  then show ?thesis using f(1) by (simp add: in_cksum_def Let_def unat_not16)
qed

section \<open>Properties\<close>

lemma total_append: "even (length xs) \<Longrightarrow> total (xs @ ys) = total xs + total ys"
  by (induction xs rule: total.induct) simp_all

lemma fold16_complement: "fold16 (s + (65535 - fold16 s)) = 65535"
proof (cases "s = 0")
  case False
  define k m where "k = (s - 1) div 65535" and "m = (s - 1) mod 65535"
  have "s - 1 = 65535 * k + m" "m < 65535" by (simp_all add: k_def m_def)
  then have s: "s = 65535 * k + m + 1" and f: "fold16 s = m + 1" using False by (simp_all add: fold16_def m_def)
  then have e: "s + (65535 - fold16 s) = 65534 + 65535 * k + 1" using \<open>m < 65535\<close> by simp
  have "(65534 + 65535 * k) mod 65535 = (65534 :: nat)" by simp
  then show ?thesis unfolding e by (simp add: fold16_def)
qed (simp add: fold16_def)

text \<open>The two bytes of a checksum in memory.\<close>

definition cksum_bytes :: "16 word \<Rightarrow> byte list" where
  "cksum_bytes c = [ucast c, ucast (drop_bit 8 c)]"

lemma total_cksum_bytes: "total (cksum_bytes c @ rest) = unat c + total rest"
proof -
  have "unat (ucast c :: byte) = unat c mod 256" by (simp add: unsigned_ucast_eq take_bit_eq_mod)
  moreover have "unat (drop_bit 8 c) = unat c div 256" by (simp only: unat_drop_bit_eq) (simp add: drop_bit_eq_div)
  then have "unat (ucast (drop_bit 8 c) :: byte) = unat c div 256"
    using unsigned_less [of c, where ?'a = nat] by (simp only: unsigned_ucast_eq take_bit_eq_mod) simp
  ultimately show ?thesis by (simp add: cksum_bytes_def)
qed

text \<open>A packet of at most 128 KB with the checksum of the rest in a field at an even
  offset has the checksum 0, which is what the receiver tests.\<close>

theorem in_cksum_verifies:
  assumes "even (length hdr)" "length hdr + 2 + length rest \<le> 131074"
  shows "in_cksum (hdr @ cksum_bytes (in_cksum (hdr @ [0, 0] @ rest)) @ rest) = 0"
proof -
  let ?c = "in_cksum (hdr @ [0, 0] @ rest)" and ?s = "total hdr + total rest"
  have "unat ?c = 65535 - fold16 ?s"
    using in_cksum_fold [of "hdr @ [0, 0] @ rest"] assms by (simp add: total_append)
  then have "total (hdr @ cksum_bytes ?c @ rest) = ?s + (65535 - fold16 ?s)"
    using assms(1) by (simp add: total_append total_cksum_bytes)
  moreover have "length (hdr @ cksum_bytes ?c @ rest) \<le> 131074" using assms(2) by (simp add: cksum_bytes_def)
  ultimately have "unat (in_cksum (hdr @ cksum_bytes ?c @ rest)) = 0"
    using in_cksum_fold [of "hdr @ cksum_bytes ?c @ rest"] by (simp add: fold16_complement)
  then show ?thesis by (simp add: unat_eq_0)
qed

theorem in_cksum_verifies_witness:
  "in_cksum ([8, 0] @ cksum_bytes (in_cksum ([8, 0] @ [0, 0] @ [1, 2, 3])) @ [1, 2, 3]) = 0"
  by (rule in_cksum_verifies) simp_all

end
