(* ===== verification/Foo_Table.thy ===== *)
theory Foo_Table
  imports C_Prelude "HOL-Library.Word" "HOL-Library.Multiset"
begin

text \<open>
  Reference-counted objects in a hash table shared by threads,
  \<^verbatim>\<open>apue.3e/threads/mutex2.c\<close> and \<^verbatim>\<open>mutex3.c\<close>.  Each section of the code that runs with
  a mutex held is one operation on the shared state; an access to an object that
  was released, a null pointer followed and a loop that does not end are faults.
\<close>

section \<open>Data\<close>

type_synonym addr = nat
type_synonym ptr = "addr option"

record foo =
  f_count :: int
  f_id :: int
  f_next :: ptr

record foos =
  fo :: "addr \<Rightarrow> foo"
  fh :: "nat \<Rightarrow> ptr"
  fo_brk :: addr
  fo_limit :: addr
  fo_live :: "addr set"

abbreviation (input) NHASH :: nat where "NHASH \<equiv> 29"

text \<open>The conversion of a negative identifier to \<^verbatim>\<open>unsigned long\<close> wraps around.\<close>

definition HASH :: "int \<Rightarrow> nat" where
  "HASH i = unat (word_of_int i :: 64 word) mod NHASH"

datatype foo_fault = Dangling | Null | Spin | Overflow

text \<open>The count is a 32-bit \<^verbatim>\<open>int\<close>.\<close>

abbreviation (input) INT_MAX :: int where "INT_MAX \<equiv> 2147483647"

definition upd :: "addr \<Rightarrow> (foo \<Rightarrow> foo) \<Rightarrow> foos \<Rightarrow> foos" where
  "upd a f s = s\<lparr>fo := (fo s)(a := f (fo s a))\<rparr>"

section \<open>Operations\<close>

text \<open>\<open>init\<close> is the success of \<^verbatim>\<open>pthread_mutex_init\<close>.\<close>

definition free_foo :: "addr \<Rightarrow> foos \<Rightarrow> foos" where
  "free_foo fp s = s\<lparr>fo_live := fo_live s - {fp}\<rparr>"

definition foo_alloc :: "bool \<Rightarrow> int \<Rightarrow> foos \<Rightarrow> ptr \<times> foos" where
  "foo_alloc init i s =
     (if fo_brk s < fo_limit s then
        let fp = fo_brk s;
            s = s\<lparr>fo_brk := Suc fp, fo_live := insert fp (fo_live s)\<rparr>;
            s = upd fp (\<lambda>f. f\<lparr>f_count := 1, f_id := i\<rparr>) s
        in if \<not> init then (None, free_foo fp s)
           else
             let idx = HASH i;
                 s = upd fp (\<lambda>f. f\<lparr>f_next := fh s idx\<rparr>) s
             in (Some fp, s\<lparr>fh := (fh s)(idx := Some fp)\<rparr>)
      else (None, s))"

text \<open>\<^verbatim>\<open>fp->f_count++\<close>: overflow is undefined, so it is a fault.\<close>

definition incr_count :: "addr \<Rightarrow> foos \<Rightarrow> foo_fault + foos" where
  "incr_count fp s =
     (if fp \<notin> fo_live s then Inl Dangling
      else if f_count (fo s fp) = INT_MAX then Inl Overflow
      else Inr (upd fp (\<lambda>f. f\<lparr>f_count := f_count f + 1\<rparr>) s))"

definition foo_hold :: "addr \<Rightarrow> foos \<Rightarrow> foo_fault + foos" where
  "foo_hold fp s = incr_count fp s"

text \<open>The search along a chain: \<open>None\<close> when it does not end.\<close>

partial_function (option) find_foo :: "foos \<Rightarrow> int \<Rightarrow> ptr \<Rightarrow> (foo_fault + ptr) option" where
  "find_foo s i fp =
     (case fp of
        None \<Rightarrow> Some (Inr None)
      | Some a \<Rightarrow>
          if a \<notin> fo_live s then Some (Inl Dangling)
          else if f_id (fo s a) = i then Some (Inr (Some a))
          else find_foo s i (f_next (fo s a)))"

declare find_foo.simps [code]

definition foo_find :: "int \<Rightarrow> foos \<Rightarrow> foo_fault + (ptr \<times> foos)" where
  "foo_find i s =
     (case find_foo s i (fh s (HASH i)) of
        None \<Rightarrow> Inl Spin
      | Some r \<Rightarrow> andthen r (\<lambda>fp.
          case fp of
            None \<Rightarrow> Inr (None, s)
          | Some a \<Rightarrow> andthen (foo_hold a s) (\<lambda>s. Inr (Some a, s))))"

text \<open>Removing \<open>fp\<close> from its chain.\<close>

partial_function (option) pred_foo :: "foos \<Rightarrow> addr \<Rightarrow> ptr \<Rightarrow> (foo_fault + addr) option" where
  "pred_foo s fp tfp =
     (case tfp of
        None \<Rightarrow> Some (Inl Null)
      | Some a \<Rightarrow>
          if a \<notin> fo_live s then Some (Inl Dangling)
          else if f_next (fo s a) = Some fp then Some (Inr a)
          else pred_foo s fp (f_next (fo s a)))"

declare pred_foo.simps [code]

definition unlink_foo :: "addr \<Rightarrow> foos \<Rightarrow> foo_fault + foos" where
  "unlink_foo fp s =
     (let idx = HASH (f_id (fo s fp)); tfp = fh s idx
      in if tfp = Some fp then Inr (s\<lparr>fh := (fh s)(idx := f_next (fo s fp))\<rparr>)
         else case pred_foo s fp tfp of
                None \<Rightarrow> Inl Spin
              | Some r \<Rightarrow> andthen r (\<lambda>a. Inr (upd a (\<lambda>f. f\<lparr>f_next := f_next (fo s fp)\<rparr>) s)))"

text \<open>\<^verbatim>\<open>foo_rele\<close> of \<^verbatim>\<open>mutex2.c\<close> up to the first unlock of \<^verbatim>\<open>f_lock\<close>; \<open>True\<close>: this may be the last
  reference, the mutexes have to be taken again in order.\<close>

definition foo_rele_first :: "addr \<Rightarrow> foos \<Rightarrow> foo_fault + (bool \<times> foos)" where
  "foo_rele_first fp s =
     (if fp \<notin> fo_live s then Inl Dangling
      else if f_count (fo s fp) = 1 then Inr (True, s)
      else Inr (False, upd fp (\<lambda>f. f\<lparr>f_count := f_count f - 1\<rparr>) s))"

text \<open>The rest of it, with both mutexes held.\<close>

definition foo_rele_last :: "addr \<Rightarrow> foos \<Rightarrow> foo_fault + foos" where
  "foo_rele_last fp s =
     (if fp \<notin> fo_live s then Inl Dangling
      else if f_count (fo s fp) \<noteq> 1 then Inr (upd fp (\<lambda>f. f\<lparr>f_count := f_count f - 1\<rparr>) s)
      else andthen (unlink_foo fp s) (\<lambda>s. Inr (free_foo fp s)))"

text \<open>\<^verbatim>\<open>mutex3.c\<close>: the count is protected by \<^verbatim>\<open>hashlock\<close>, and releasing is one section.\<close>

definition foo3_hold :: "addr \<Rightarrow> foos \<Rightarrow> foo_fault + foos" where
  "foo3_hold fp s = incr_count fp s"

definition foo3_find :: "int \<Rightarrow> foos \<Rightarrow> foo_fault + (ptr \<times> foos)" where
  "foo3_find i s =
     (case find_foo s i (fh s (HASH i)) of
        None \<Rightarrow> Inl Spin
      | Some r \<Rightarrow> andthen r (\<lambda>fp.
          case fp of
            None \<Rightarrow> Inr (None, s)
          | Some a \<Rightarrow> andthen (incr_count a s) (\<lambda>s. Inr (Some a, s))))"

definition foo3_rele :: "addr \<Rightarrow> foos \<Rightarrow> foo_fault + foos" where
  "foo3_rele fp s =
     (if fp \<notin> fo_live s then Inl Dangling
      else let s = upd fp (\<lambda>f. f\<lparr>f_count := f_count f - 1\<rparr>) s
           in if f_count (fo s fp) = 0 then andthen (unlink_foo fp s) (\<lambda>s. Inr (free_foo fp s))
              else Inr s)"

text \<open>\<^verbatim>\<open>foo_rele\<close> of \<^verbatim>\<open>mutex2.c\<close> when no other thread runs between its two sections.\<close>

definition foo_rele :: "addr \<Rightarrow> foos \<Rightarrow> foo_fault + foos" where
  "foo_rele fp s =
     andthen (foo_rele_first fp s) (\<lambda>(again, s). if again then foo_rele_last fp s else Inr s)"

section \<open>Chains\<close>

fun chain :: "(addr \<Rightarrow> ptr) \<Rightarrow> ptr \<Rightarrow> addr list \<Rightarrow> bool" where
  "chain nx p [] \<longleftrightarrow> p = None"
| "chain nx p (a # as) \<longleftrightarrow> p = Some a \<and> chain nx (nx a) as"

lemma chain_cong: "(\<And>a. a \<in> set as \<Longrightarrow> nx a = nx' a) \<Longrightarrow> chain nx p as = chain nx' p as"
  by (induction as arbitrary: p) auto

abbreviation nexts :: "foos \<Rightarrow> addr \<Rightarrow> ptr" where
  "nexts s \<equiv> \<lambda>a. f_next (fo s a)"

lemma find_chain:
  assumes "chain (nexts s) p as" "set as \<subseteq> fo_live s"
  shows "find_foo s i p = Some (Inr (find (\<lambda>a. f_id (fo s a) = i) as))"
  using assms
proof (induction as arbitrary: p)
  case Nil
  then show ?case by (simp add: find_foo.simps)
next
  case (Cons a as)
  then show ?case by (subst find_foo.simps) simp
qed

lemma pred_chain:
  assumes "chain (nexts s) p (xs @ a # fp # ys)" "set (xs @ [a]) \<subseteq> fo_live s" "distinct (xs @ a # fp # ys)"
  shows "pred_foo s fp p = Some (Inr a)"
  using assms
proof (induction xs arbitrary: p)
  case Nil
  then show ?case by (subst pred_foo.simps) simp
next
  case (Cons x xs)
  have "f_next (fo s x) \<noteq> Some fp" using Cons.prems by (cases xs) auto
  then show ?case using Cons by (subst pred_foo.simps) simp
qed

lemma foo_chain_unlink:
  "chain nx p (xs @ a # fp # ys) \<Longrightarrow> distinct (xs @ a # fp # ys) \<Longrightarrow> chain (nx(a := nx fp)) p (xs @ a # ys)"
proof (induction xs arbitrary: p)
  case Nil
  then show ?case by (auto intro: chain_cong [THEN iffD1, rotated])
qed auto

section \<open>The table\<close>

text \<open>\<open>cs i\<close> is the chain of bucket \<open>i\<close>.\<close>

definition chains :: "foos \<Rightarrow> (nat \<Rightarrow> addr list) \<Rightarrow> bool" where
  "chains s cs \<longleftrightarrow>
     (\<forall>i. chain (nexts s) (fh s i) (cs i) \<and> distinct (cs i) \<and> (\<forall>a \<in> set (cs i). HASH (f_id (fo s a)) = i)) \<and>
     fo_live s = (\<Union>i. set (cs i)) \<and> (\<forall>a \<in> fo_live s. a < fo_brk s)"

text \<open>\<open>R\<close> is the bag of references that exist.\<close>

definition counts :: "foos \<Rightarrow> addr multiset \<Rightarrow> bool" where
  "counts s R \<longleftrightarrow> fo_live s = set_mset R \<and> (\<forall>a \<in> fo_live s. f_count (fo s a) = int (count R a))"

definition table :: "foos \<Rightarrow> addr multiset \<Rightarrow> bool" where
  "table s R \<longleftrightarrow> (\<exists>cs. chains s cs) \<and> counts s R"

lemma chainsD:
  assumes "chains s cs"
  shows "chain (nexts s) (fh s i) (cs i)" "distinct (cs i)" "a \<in> set (cs i) \<Longrightarrow> HASH (f_id (fo s a)) = i"
    "set (cs i) \<subseteq> fo_live s" "a \<in> fo_live s \<Longrightarrow> a \<in> set (cs (HASH (f_id (fo s a))))"
    "a \<in> fo_live s \<Longrightarrow> a < fo_brk s"
  using assms by (auto simp: chains_def)

text \<open>Only the counts of the objects change.\<close>

lemma chains_upd_count [simp]: "chains (upd a (\<lambda>f. f\<lparr>f_count := g f\<rparr>) s) cs = chains s cs"
proof -
  have "nexts (upd a (\<lambda>f. f\<lparr>f_count := g f\<rparr>) s) = nexts s" by (auto simp: upd_def)
  moreover have "(\<lambda>b. f_id (fo (upd a (\<lambda>f. f\<lparr>f_count := g f\<rparr>) s) b)) = (\<lambda>b. f_id (fo s b))" by (auto simp: upd_def)
  then have "f_id (fo (upd a (\<lambda>f. f\<lparr>f_count := g f\<rparr>) s) b) = f_id (fo s b)" for b by (rule fun_cong)
  ultimately show ?thesis by (simp add: chains_def) (simp add: upd_def)
qed

lemma upd_simps [simp]:
  "fo_live (upd a f s) = fo_live s" "fh (upd a f s) = fh s" "fo_brk (upd a f s) = fo_brk s"
  "fo_limit (upd a f s) = fo_limit s" "fo (upd a f s) b = (if b = a then f (fo s a) else fo s b)"
  by (auto simp: upd_def)

lemma chains_alloc:
  assumes "chains s cs" "foo_alloc True i s = (Some fp, s')"
  shows "\<exists>cs. chains s' cs" "fp \<notin> fo_live s" "fo_live s' = insert fp (fo_live s)"
    "f_id (fo s' fp) = i" "f_count (fo s' fp) = 1" "b \<noteq> fp \<Longrightarrow> fo s' b = fo s b"
proof -
  note c = chainsD [OF assms(1)]
  have fp: "fp = fo_brk s" using assms(2) by (auto simp: foo_alloc_def Let_def split: if_splits)
  then show n: "fp \<notin> fo_live s" using c(6) by blast
  show l: "fo_live s' = insert fp (fo_live s)" and "f_id (fo s' fp) = i" and "f_count (fo s' fp) = 1"
    and o: "b \<noteq> fp \<Longrightarrow> fo s' b = fo s b" for b
    using assms(2) by (auto simp: foo_alloc_def Let_def split: if_splits)
  have h: "fh s' = (fh s)(HASH i := Some fp)" "f_next (fo s' fp) = fh s (HASH i)" "f_id (fo s' fp) = i" "fo_brk s' = Suc fp"
    using assms(2) by (auto simp: foo_alloc_def Let_def split: if_splits)
  let ?cs = "cs(HASH i := fp # cs (HASH i))"
  have nj: "fp \<notin> set (cs j)" for j using n c(4) by blast
  have k: "chain (nexts s') p (cs j) = chain (nexts s) p (cs j)" for p j
    by (rule chain_cong) (use o nj in metis)
  have "chains s' ?cs" unfolding chains_def
  proof (intro conjI allI ballI)
    fix j
    show "chain (nexts s') (fh s' j) (?cs j)" using c(1) k h by simp
    show "distinct (?cs j)" using c(2) nj by simp
    fix a assume "a \<in> set (?cs j)"
    then show "HASH (f_id (fo s' a)) = j" using c(3) h o nj by (cases "a = fp") (auto split: if_splits)
  next
    show "fo_live s' = (\<Union>i. set (?cs i))" using l assms(1) by (auto simp: chains_def split: if_splits)
  next
    fix a assume "a \<in> fo_live s'"
    then show "a < fo_brk s'" using l h fp c(6) by force
  qed
  then show "\<exists>cs. chains s' cs" by blast
qed

lemma chains_alloc_fail:
  assumes "chains s cs" "foo_alloc init i s = (None, s')"
  shows "chains s' cs" "fo_live s' = fo_live s" "a \<in> fo_live s \<Longrightarrow> fo s' a = fo s a"
proof -
  note c = chainsD [OF assms(1)]
  have n: "fo_brk s \<notin> fo_live s" using c(6) by blast
  then show l: "fo_live s' = fo_live s"
    using assms(2) by (auto simp: foo_alloc_def free_foo_def Let_def split: if_splits)
  have o: "fo s' a = fo s a" if "a \<noteq> fo_brk s" for a
    using assms(2) that by (auto simp: foo_alloc_def free_foo_def Let_def split: if_splits)
  then show "a \<in> fo_live s \<Longrightarrow> fo s' a = fo s a" using n by metis
  have h: "fh s' = fh s" "fo_brk s \<le> fo_brk s'"
    using assms(2) by (auto simp: foo_alloc_def free_foo_def Let_def split: if_splits)
  have ne: "a \<noteq> fo_brk s" if "a \<in> set (cs j)" for a j using that n c(4) by blast
  have k: "chain (nexts s') p (cs j) = chain (nexts s) p (cs j)" for p j
    by (rule chain_cong) (use o ne in metis)
  show "chains s' cs" unfolding chains_def
  proof (intro conjI allI ballI)
    fix j
    show "chain (nexts s') (fh s' j) (cs j)" "distinct (cs j)" using c(1,2) k h by simp_all
    fix a assume "a \<in> set (cs j)"
    then show "HASH (f_id (fo s' a)) = j" using c(3) o ne by metis
  next
    show "fo_live s' = (\<Union>i. set (cs i))" using l assms(1) by (simp add: chains_def)
  next
    fix a assume "a \<in> fo_live s'"
    then show "a < fo_brk s'" using l h c(6) by fastforce
  qed
qed

lemma chains_free:
  assumes "chains s cs" "cs i = xs @ fp # ys" "fh s' = (fh s)(i := p)" "chain (nexts s') p (xs @ ys)"
    and "\<And>j a. j \<noteq> i \<Longrightarrow> a \<in> set (cs j) \<Longrightarrow> nexts s' a = nexts s a" "\<And>a. f_id (fo s' a) = f_id (fo s a)"
    and "fo_live s' = fo_live s" "fo_brk s' = fo_brk s"
  shows "chains (free_foo fp s') (cs(i := xs @ ys))"
  unfolding chains_def
proof (intro conjI allI ballI)
  note c = chainsD [OF assms(1)]
  have d: "distinct (xs @ fp # ys)" using c(2) [of i] assms(2) by simp
  have other: "fp \<notin> set (cs j)" if "j \<noteq> i" for j
    using that c(3) [of fp j] c(3) [of fp i] assms(2) by auto
  have live: "fo_live s = (\<Union>i. set (cs i))" using assms(1) by (simp add: chains_def)
  {
    fix j
    show "chain (nexts (free_foo fp s')) (fh (free_foo fp s') j) ((cs(i := xs @ ys)) j)"
    proof (cases "j = i")
      case False
      then have "chain (nexts s') (fh s j) (cs j) = chain (nexts s) (fh s j) (cs j)" by (intro chain_cong assms(5))
      then show ?thesis using False c(1) assms(3) by (simp add: free_foo_def)
    qed (use assms(3,4) in \<open>simp add: free_foo_def\<close>)
    show "distinct ((cs(i := xs @ ys)) j)" using d c(2) by auto
    fix a assume "a \<in> set ((cs(i := xs @ ys)) j)"
    then have "a \<in> set (cs j)" using assms(2) by (auto split: if_splits)
    then show "HASH (f_id (fo (free_foo fp s') a)) = j" using c(3) assms(6) by (simp add: free_foo_def)
  next
    fix a assume "a \<in> fo_live (free_foo fp s')"
    then show "a < fo_brk (free_foo fp s')" using c(6) assms(7,8) by (simp add: free_foo_def)
  }
  have "(\<Union>j. set ((cs(i := xs @ ys)) j)) = set (xs @ ys) \<union> (\<Union>j \<in> - {i}. set (cs j))" by (auto split: if_splits)
  also have "\<dots> = set (cs i) \<union> (\<Union>j \<in> - {i}. set (cs j)) - {fp}" using d assms(2) other by auto
  also have "\<dots> = (\<Union>j. set (cs j)) - {fp}" by auto
  finally show "fo_live (free_foo fp s') = (\<Union>j. set ((cs(i := xs @ ys)) j))" using assms(7) live by (simp add: free_foo_def)
qed


lemma unlink_chains:
  assumes "chains s cs" "fp \<in> fo_live s"
  obtains s' cs' where "unlink_foo fp s = Inr s'" "chains (free_foo fp s') cs'" "fo_live s' = fo_live s"
    "\<And>a. f_count (fo s' a) = f_count (fo s a)" "\<And>a. f_id (fo s' a) = f_id (fo s a)"
proof -
  note c = chainsD [OF assms(1)]
  define i where "i = HASH (f_id (fo s fp))"
  obtain xs ys where e: "cs i = xs @ fp # ys" using c(5) [OF assms(2)] unfolding i_def by (meson split_list)
  have d: "distinct (xs @ fp # ys)" and k: "chain (nexts s) (fh s i) (xs @ fp # ys)" and l: "set (xs @ fp # ys) \<subseteq> fo_live s"
    using c(1,2,4) [of i] e by simp_all
  show ?thesis
  proof (cases xs rule: rev_cases)
    case Nil
    let ?s = "s\<lparr>fh := (fh s)(i := nexts s fp)\<rparr>"
    have "unlink_foo fp s = Inr ?s" using k Nil by (simp add: unlink_foo_def i_def)
    moreover have "chains (free_foo fp ?s) (cs(i := xs @ ys))"
      by (rule chains_free [OF assms(1) e, where p = "nexts s fp"]) (use k Nil in simp_all)
    ultimately show ?thesis by (rule that) simp_all
  next
    case (snoc zs a)
    let ?s = "upd a (\<lambda>f. f\<lparr>f_next := nexts s fp\<rparr>) s"
    have z: "chain (nexts s) (fh s i) (zs @ a # fp # ys)" "distinct (zs @ a # fp # ys)" "set (zs @ [a]) \<subseteq> fo_live s"
      using k d l snoc by simp_all
    have n: "nexts ?s = (nexts s)(a := nexts s fp)" by auto
    have "fh s i \<noteq> Some fp" using z(1,2) by (cases zs) auto
    then have "unlink_foo fp s = Inr ?s" using pred_chain [OF z(1,3,2)] by (simp add: unlink_foo_def i_def Let_def)
    moreover have "chains (free_foo fp ?s) (cs(i := xs @ ys))"
    proof (rule chains_free [OF assms(1) e, where p = "fh s i"])
      show "chain (nexts ?s) (fh s i) (xs @ ys)" using foo_chain_unlink [OF z(1,2)] snoc unfolding n by simp
      have "a \<in> set (cs i)" using e snoc by simp
      then show "nexts ?s b = nexts s b" if "j \<noteq> i" "b \<in> set (cs j)" for j b
        using that c(3) by auto
    qed auto
    ultimately show ?thesis by (rule that) simp_all
  qed
qed

section \<open>What each operation keeps\<close>

lemma tableI: "chains s cs \<Longrightarrow> counts s R \<Longrightarrow> table s R"
  by (auto simp: table_def)

lemma table_live: "table s R \<Longrightarrow> a \<in> fo_live s \<longleftrightarrow> a \<in># R"
  by (simp add: table_def counts_def)

lemma table_count: "table s R \<Longrightarrow> a \<in># R \<Longrightarrow> f_count (fo s a) = int (count R a)"
  by (simp add: table_def counts_def)

lemma table_alloc:
  assumes "table s R" "foo_alloc True i s = (Some fp, s')"
  shows "table s' (add_mset fp R)" "fp \<notin># R" "f_id (fo s' fp) = i"
proof -
  obtain cs where c: "chains s cs" and n: "counts s R" using assms(1) by (auto simp: table_def)
  note a = chains_alloc [OF c assms(2)]
  show "fp \<notin># R" "f_id (fo s' fp) = i" using a n by (simp_all add: counts_def)
  then have "counts s' (add_mset fp R)"
    using a(3,5,6) n by (auto simp: counts_def not_in_iff)
  then show "table s' (add_mset fp R)" using a(1) by (simp add: table_def)
qed

lemma table_alloc_fail: "table s R \<Longrightarrow> foo_alloc init i s = (None, s') \<Longrightarrow> table s' R"
  using chains_alloc_fail by (fastforce simp: table_def counts_def)

lemma foo_alloc_init: "foo_alloc init i s = (Some fp, s') \<Longrightarrow> init"
  by (auto simp: foo_alloc_def Let_def split: if_splits)

lemma table_incr:
  assumes "table s R" "a \<in># R" "int (count R a) < INT_MAX"
  obtains s' where "incr_count a s = Inr s'" "table s' (add_mset a R)" "\<And>b. f_id (fo s' b) = f_id (fo s b)"
proof -
  let ?s = "upd a (\<lambda>f. f\<lparr>f_count := f_count f + 1\<rparr>) s"
  have "incr_count a s = Inr ?s" using assms table_count [OF assms(1,2)] by (simp add: incr_count_def table_live)
  moreover have "table ?s (add_mset a R)" using assms(1,2) by (auto simp: table_def counts_def)
  ultimately show ?thesis using that by simp
qed

lemma table_decr:
  assumes "table s R" "a \<in># R" "count R a \<noteq> 1"
  shows "table (upd a (\<lambda>f. f\<lparr>f_count := f_count f - 1\<rparr>) s) (R - {#a#})"
proof -
  have "count R a \<noteq> 0" using assms(2) by simp
  then have "1 < count R a" using assms(3) by linarith
  then have "b \<in># R - {#a#} \<longleftrightarrow> b \<in># R" for b using assms(2) by (cases "b = a") (simp_all add: in_diff_count)
  then have "set_mset (R - {#a#}) = set_mset R" by blast
  then show ?thesis using assms by (auto simp: table_def counts_def of_nat_diff)
qed

lemma table_free:
  assumes "chains s cs" "fo_live s = set_mset R" "count R a = 1" "\<And>b. b \<in># R \<Longrightarrow> b \<noteq> a \<Longrightarrow> f_count (fo s b) = int (count R b)"
  obtains s' where "unlink_foo a s = Inr s'" "table (free_foo a s') (R - {#a#})"
proof -
  have a: "a \<in> fo_live s" using assms(2,3) by (simp add: count_inI)
  obtain s' cs' where u: "unlink_foo a s = Inr s'" "chains (free_foo a s') cs'" "fo_live s' = fo_live s"
    "\<And>a. f_count (fo s' a) = f_count (fo s a)" using unlink_chains [OF assms(1) a] by metis
  have "b \<in># R - {#a#} \<longleftrightarrow> b \<in># R \<and> b \<noteq> a" for b
    using assms(3) by (cases "b = a") (simp_all add: in_diff_count)
  then have "set_mset (R - {#a#}) = set_mset R - {a}" by blast
  then have "counts (free_foo a s') (R - {#a#})" using u(3,4) assms(2,4) by (auto simp: counts_def free_foo_def)
  then show ?thesis using that u tableI by blast
qed

lemma table_rele_last:
  assumes "table s R" "a \<in># R"
  obtains s' where "foo_rele_last a s = Inr s'" "table s' (R - {#a#})"
proof (cases "count R a = 1")
  case True
  obtain cs where "chains s cs" "fo_live s = set_mset R" using assms(1) by (auto simp: table_def counts_def)
  then obtain s' where "unlink_foo a s = Inr s'" "table (free_foo a s') (R - {#a#})"
    using table_free True table_count [OF assms(1)] by metis
  then show ?thesis using that True assms by (simp add: foo_rele_last_def table_live table_count)
next
  case False
  then show ?thesis using that table_decr [OF assms False] assms by (simp add: foo_rele_last_def table_live table_count)
qed

lemma table_rele_first:
  assumes "table s R" "a \<in># R"
  shows "foo_rele_first a s = Inr (count R a = 1, if count R a = 1 then s else upd a (\<lambda>f. f\<lparr>f_count := f_count f - 1\<rparr>) s)"
  using assms by (simp add: foo_rele_first_def table_live table_count)

lemma table_find:
  assumes "table s R"
  obtains r where "find_foo s i (fh s (HASH i)) = Some (Inr r)"
    "\<And>a. r = None \<Longrightarrow> a \<in># R \<Longrightarrow> f_id (fo s a) \<noteq> i" "\<And>a. r = Some a \<Longrightarrow> a \<in># R \<and> f_id (fo s a) = i"
proof -
  obtain cs where c: "chains s cs" using assms by (auto simp: table_def)
  note c = chainsD [OF c]
  let ?b = "cs (HASH i)" and ?P = "\<lambda>a. f_id (fo s a) = i"
  have "find_foo s i (fh s (HASH i)) = Some (Inr (find ?P ?b))" by (rule find_chain [OF c(1,4)])
  then show ?thesis
  proof (rule that)
    fix a
    show "f_id (fo s a) \<noteq> i" if "find ?P ?b = None" "a \<in># R"
    proof
      assume "f_id (fo s a) = i"
      then have "a \<in> set ?b" using c(5) [of a] that(2) table_live [OF assms] by simp
      then show False using that(1) \<open>f_id (fo s a) = i\<close> by (simp add: find_None_iff)
    qed
    assume "find ?P ?b = Some a"
    then obtain k where "k < length ?b" "a = ?b ! k" "?P a" by (auto simp: find_Some_iff)
    then show "a \<in># R \<and> f_id (fo s a) = i" using c(4) [of "HASH i"] table_live [OF assms] nth_mem by blast
  qed
qed

text \<open>\<^verbatim>\<open>foo_find\<close> in both files.\<close>

lemma foo3_find_eq: "foo3_find = foo_find"
  unfolding foo3_find_def foo_find_def foo_hold_def by (rule refl)

lemma table_foo_find:
  assumes "table s R" "\<And>a. a \<in># R \<Longrightarrow> int (count R a) < INT_MAX"
  obtains a s' where "foo_find i s = Inr (Some a, s')" "table s' (add_mset a R)" "a \<in># R" "f_id (fo s a) = i"
  | "foo_find i s = Inr (None, s)" "\<And>a. a \<in># R \<Longrightarrow> f_id (fo s a) \<noteq> i"
proof -
  obtain r where r: "find_foo s i (fh s (HASH i)) = Some (Inr r)"
    "\<And>a. r = None \<Longrightarrow> a \<in># R \<Longrightarrow> f_id (fo s a) \<noteq> i" "\<And>a. r = Some a \<Longrightarrow> a \<in># R \<and> f_id (fo s a) = i"
    using table_find [OF assms(1)] by blast
  show ?thesis
  proof (cases r)
    case None
    then show ?thesis using that(2) r by (simp add: foo_find_def)
  next
    case (Some a)
    then have a: "a \<in># R" "f_id (fo s a) = i" using r(3) by auto
    then obtain s' where "incr_count a s = Inr s'" "table s' (add_mset a R)" using table_incr assms by metis
    then show ?thesis using that(1) a r(1) Some by (simp add: foo_find_def foo_hold_def)
  qed
qed

text \<open>Releasing in one section and in two.\<close>

lemma table_rele2:
  assumes "table s R" "a \<in># R"
  obtains s' where "foo_rele a s = Inr s'" "table s' (R - {#a#})"
proof (cases "count R a = 1")
  case True
  then show ?thesis using that table_rele_last [OF assms] table_rele_first [OF assms] by (auto simp: foo_rele_def)
next
  case False
  then show ?thesis using that table_decr [OF assms False] table_rele_first [OF assms] by (simp add: foo_rele_def)
qed

lemma table_rele3:
  assumes "table s R" "a \<in># R"
  obtains s' where "foo3_rele a s = Inr s'" "table s' (R - {#a#})"
proof -
  let ?s = "upd a (\<lambda>f. f\<lparr>f_count := f_count f - 1\<rparr>) s"
  have l: "a \<in> fo_live s" "f_count (fo s a) = int (count R a)" using assms by (simp_all add: table_live table_count)
  show ?thesis
  proof (cases "count R a = 1")
    case True
    obtain cs where "chains s cs" and live: "fo_live s = set_mset R" using assms(1) by (auto simp: table_def counts_def)
    then have "chains ?s cs" by simp
    then obtain s' where "unlink_foo a ?s = Inr s'" "table (free_foo a s') (R - {#a#})"
    proof (rule table_free)
      show "fo_live ?s = set_mset R" "count R a = 1" using live True by simp_all
      show "f_count (fo ?s b) = int (count R b)" if "b \<in># R" "b \<noteq> a" for b
        using that table_count [OF assms(1)] by simp
    qed
    then show ?thesis using that True l by (simp add: foo3_rele_def)
  next
    case False
    then show ?thesis using that table_decr [OF assms False] l by (simp add: foo3_rele_def)
  qed
qed

end
