(* ===== verification/Foo_Threads.thy ===== *)
theory Foo_Threads
  imports Foo_Table
begin

text \<open>
  Threads that share the table of \<^verbatim>\<open>apue.3e/threads/mutex2.c\<close>: the interface of a
  reference-counted table, which both versions of the code provide, and the
  interleavings of the sections of \<^verbatim>\<open>mutex2.c\<close>, in which \<^verbatim>\<open>foo_rele\<close> gives up its mutex
  before it takes both and tests the count again.
\<close>

section \<open>The interface of the table\<close>

locale refcounted =
  fixes holdf :: "addr \<Rightarrow> foos \<Rightarrow> foo_fault + foos"
    and findf :: "int \<Rightarrow> foos \<Rightarrow> foo_fault + (ptr \<times> foos)"
    and relef :: "addr \<Rightarrow> foos \<Rightarrow> foo_fault + foos"
  assumes hold_law: "table s R \<Longrightarrow> a \<in># R \<Longrightarrow> int (count R a) < INT_MAX \<Longrightarrow>
      \<exists>s'. holdf a s = Inr s' \<and> table s' (add_mset a R)"
    and find_law: "table s R \<Longrightarrow> (\<And>a. a \<in># R \<Longrightarrow> int (count R a) < INT_MAX) \<Longrightarrow>
      (\<exists>a s'. findf i s = Inr (Some a, s') \<and> table s' (add_mset a R) \<and> a \<in># R \<and> f_id (fo s a) = i) \<or>
      findf i s = Inr (None, s) \<and> (\<forall>a. a \<in># R \<longrightarrow> f_id (fo s a) \<noteq> i)"
    and rele_law: "table s R \<Longrightarrow> a \<in># R \<Longrightarrow> \<exists>s'. relef a s = Inr s' \<and> table s' (R - {#a#})"
begin

text \<open>Giving back what was taken leaves the same references.\<close>

lemma hold_rele:
  assumes "table s R" "a \<in># R" "int (count R a) < INT_MAX"
  shows "\<exists>s'. andthen (holdf a s) (relef a) = Inr s' \<and> table s' R"
proof -
  obtain s1 where h: "holdf a s = Inr s1" "table s1 (add_mset a R)" using hold_law [OF assms] by blast
  then obtain s' where "relef a s1 = Inr s'" "table s' R" using rele_law [of s1 "add_mset a R" a] by auto
  then show ?thesis using h by simp
qed

text \<open>The object lives until its last reference is released, and no longer.\<close>

lemma rele_frees:
  assumes "table s R" "a \<in># R" "relef a s = Inr s'"
  shows "fo_live s' = (if count R a = 1 then fo_live s - {a} else fo_live s)"
proof -
  have t: "table s' (R - {#a#})" using rele_law [OF assms(1,2)] assms(3) by simp
  have "b \<in># R - {#a#} \<longleftrightarrow> b \<in># R \<and> (b = a \<longrightarrow> count R a \<noteq> 1)" for b
    using assms(2) by (cases "b = a") (auto simp: in_diff_count nat_neq_iff simp flip: count_greater_zero_iff)
  then show ?thesis using table_live [OF t] table_live [OF assms(1)] by (intro set_eqI) auto
qed

lemma release_all:
  assumes "table s R"
  shows "mset as = R \<Longrightarrow> \<exists>s'. fold (\<lambda>a r. andthen r (relef a)) as (Inr s) = Inr s' \<and> fo_live s' = {}"
  using assms
proof (induction as arbitrary: s R)
  case Nil
  then show ?case by (auto simp: table_def counts_def)
next
  case (Cons a as)
  then obtain s' where "relef a s = Inr s'" "table s' (mset as)" using rele_law [of s R a] by auto
  then show ?case using Cons.IH by simp
qed

end

interpretation m2: refcounted foo_hold foo_find foo_rele
proof (unfold_locales, goal_cases)
  case (1 s R a)
  then show ?case using table_incr unfolding foo_hold_def by metis
next
  case (2 s R i)
  then show ?case using table_foo_find by metis
next
  case (3 s R a)
  then show ?case using table_rele2 by metis
qed

interpretation m3: refcounted foo3_hold foo3_find foo3_rele
proof (unfold_locales, goal_cases)
  case (1 s R a)
  then show ?case using table_incr unfolding foo3_hold_def by metis
next
  case (2 s R i)
  then show ?case using table_foo_find unfolding foo3_find_eq by metis
next
  case (3 s R a)
  then show ?case using table_rele3 by metis
qed

section \<open>Interleavings\<close>

text \<open>\<open>held\<close>: the references of each thread; \<open>pend t\<close>: the object whose release the thread \<open>t\<close> has
  begun and has to finish with both mutexes.\<close>

record foo_sys =
  shared :: foos
  held :: "(nat \<times> addr) multiset"
  pend :: "nat \<Rightarrow> ptr"

definition foo_start :: "nat \<Rightarrow> foo_sys" where
  "foo_start limit =
     \<lparr>shared = \<lparr>fo = (\<lambda>_. \<lparr>f_count = 0, f_id = 0, f_next = None\<rparr>), fh = (\<lambda>_. None), fo_brk = 0, fo_limit = limit, fo_live = {}\<rparr>,
      held = {#}, pend = (\<lambda>_. None)\<rparr>"

inductive foo_step :: "foo_sys \<Rightarrow> foo_sys \<Rightarrow> bool" where
  alloc: "pend S t = None \<Longrightarrow> foo_alloc init i (shared S) = (Some a, s') \<Longrightarrow>
    foo_step S (S\<lparr>shared := s', held := add_mset (t, a) (held S)\<rparr>)"
| alloc_fail: "pend S t = None \<Longrightarrow> foo_alloc init i (shared S) = (None, s') \<Longrightarrow> foo_step S (S\<lparr>shared := s'\<rparr>)"
| hold: "pend S t = None \<Longrightarrow> (t, a) \<in># held S \<Longrightarrow> foo_hold a (shared S) = Inr s' \<Longrightarrow>
    foo_step S (S\<lparr>shared := s', held := add_mset (t, a) (held S)\<rparr>)"
| find: "pend S t = None \<Longrightarrow> foo_find i (shared S) = Inr (Some a, s') \<Longrightarrow>
    foo_step S (S\<lparr>shared := s', held := add_mset (t, a) (held S)\<rparr>)"
| find_none: "pend S t = None \<Longrightarrow> foo_find i (shared S) = Inr (None, s') \<Longrightarrow> foo_step S (S\<lparr>shared := s'\<rparr>)"
| rele_first: "pend S t = None \<Longrightarrow> (t, a) \<in># held S \<Longrightarrow> foo_rele_first a (shared S) = Inr (again, s') \<Longrightarrow>
    foo_step S (if again then S\<lparr>shared := s', pend := (pend S)(t := Some a)\<rparr>
                else S\<lparr>shared := s', held := held S - {#(t, a)#}\<rparr>)"
| rele_last: "pend S t = Some a \<Longrightarrow> foo_rele_last a (shared S) = Inr s' \<Longrightarrow>
    foo_step S (S\<lparr>shared := s', held := held S - {#(t, a)#}, pend := (pend S)(t := None)\<rparr>)"

inductive foo_reach :: "nat \<Rightarrow> foo_sys \<Rightarrow> bool" where
  start: "foo_reach n (foo_start n)"
| step: "foo_reach n S \<Longrightarrow> foo_step S S' \<Longrightarrow> foo_reach n S'"

definition refs :: "foo_sys \<Rightarrow> addr multiset" where
  "refs S = image_mset snd (held S)"

definition foo_inv :: "foo_sys \<Rightarrow> bool" where
  "foo_inv S \<longleftrightarrow> table (shared S) (refs S) \<and> (\<forall>t a. pend S t = Some a \<longrightarrow> (t, a) \<in># held S)"

lemma refs_mem: "(t, a) \<in># held S \<Longrightarrow> a \<in># refs S"
  by (force simp: refs_def)

lemma refs_remove: "(t, a) \<in># held S \<Longrightarrow> image_mset snd (held S - {#(t, a)#}) = refs S - {#a#}"
  by (simp add: refs_def image_mset_Diff)

lemma mem_other: "(u, b) \<in># M \<Longrightarrow> u \<noteq> t \<Longrightarrow> (u, b) \<in># M - {#(t, a)#}"
  by (simp add: in_diff_count)

text \<open>A successful find or hold, whatever the counts.\<close>

lemma table_hold_Inr:
  assumes "table s R" "a \<in># R" "foo_hold a s = Inr s'"
  shows "table s' (add_mset a R)"
  using assms by (auto simp: foo_hold_def incr_count_def table_def counts_def split: if_splits)

lemma table_find_Inr:
  assumes "table s R" "foo_find i s = Inr (r, s')"
  shows "table s' (case r of None \<Rightarrow> R | Some a \<Rightarrow> add_mset a R)"
proof -
  obtain r' where r: "find_foo s i (fh s (HASH i)) = Some (Inr r')" "\<And>a. r' = Some a \<Longrightarrow> a \<in># R \<and> f_id (fo s a) = i"
    using table_find [OF assms(1), where i = i] by metis
  show ?thesis
  proof (cases r')
    case None
    then show ?thesis using assms r(1) by (simp add: foo_find_def)
  next
    case (Some a)
    then have "foo_hold a s = Inr s'" "r = Some a" using assms(2) r(1) by (simp_all add: foo_find_def andthen_Inr_iff)
    moreover have "a \<in># R" using r(2) Some by blast
    ultimately show ?thesis using table_hold_Inr [OF assms(1)] by simp
  qed
qed

lemma foo_step_inv: "foo_step S S' \<Longrightarrow> foo_inv S \<Longrightarrow> foo_inv S'"
proof (induction rule: foo_step.induct)
  case (alloc S t init i a s')
  then show ?case using table_alloc(1) foo_alloc_init by (fastforce simp: foo_inv_def refs_def)
next
  case (alloc_fail S t init i s')
  then show ?case using table_alloc_fail by (auto simp: foo_inv_def refs_def)
next
  case (hold S t a s')
  then have "table s' (add_mset a (refs S))" using table_hold_Inr refs_mem by (auto simp: foo_inv_def)
  then show ?case using hold by (auto simp: foo_inv_def refs_def)
next
  case (find S t i a s')
  then have "table s' (add_mset a (refs S))" using table_find_Inr by (fastforce simp: foo_inv_def)
  then show ?case using find by (auto simp: foo_inv_def refs_def)
next
  case (find_none S t i s')
  then have "table s' (refs S)" using table_find_Inr by (fastforce simp: foo_inv_def)
  then show ?case using find_none by (auto simp: foo_inv_def refs_def)
next
  case (rele_first S t a again s')
  then have T: "table (shared S) (refs S)" "a \<in># refs S" by (auto simp: foo_inv_def refs_mem)
  have f: "again = (count (refs S) a = 1)"
    "s' = (if again then shared S else upd a (\<lambda>f. f\<lparr>f_count := f_count f - 1\<rparr>) (shared S))"
    using rele_first(3) table_rele_first [OF T] by auto
  show ?case
  proof (cases again)
    case True
    then show ?thesis using rele_first T f by (auto simp: foo_inv_def refs_def)
  next
    case False
    then have "table s' (refs S - {#a#})" using f table_decr [OF T] by simp
    moreover have "pend S u = Some b \<Longrightarrow> (u, b) \<in># held S - {#(t, a)#}" for u b
      using rele_first(1,4) by (intro mem_other) (auto simp: foo_inv_def)
    ultimately show ?thesis using False refs_remove [OF rele_first(2)] by (simp add: foo_inv_def refs_def)
  qed
next
  case (rele_last S t a s')
  then have T: "table (shared S) (refs S)" and m: "(t, a) \<in># held S" by (auto simp: foo_inv_def)
  note T = T refs_mem [OF m]
  have "table s' (refs S - {#a#})" using table_rele_last [OF T] rele_last(2) by (metis Inr_inject)
  moreover have "pend S u = Some b \<Longrightarrow> u \<noteq> t \<Longrightarrow> (u, b) \<in># held S - {#(t, a)#}" for u b
    using rele_last(3) by (intro mem_other) (auto simp: foo_inv_def)
  ultimately show ?case using refs_remove [OF m] by (auto simp: foo_inv_def refs_def)
qed

lemma foo_start_inv: "foo_inv (foo_start n)"
proof -
  have "chains (shared (foo_start n)) (\<lambda>_. [])" by (simp add: chains_def foo_start_def)
  then show ?thesis by (auto simp: foo_inv_def table_def counts_def refs_def foo_start_def)
qed

lemma foo_reach_inv: "foo_reach n S \<Longrightarrow> foo_inv S"
  by (induction rule: foo_reach.induct) (auto intro: foo_start_inv foo_step_inv)

section \<open>A second thread finds the object during its release\<close>

definition demo_foo :: "nat \<Rightarrow> foos" where
  "demo_foo c = \<lparr>fo = (\<lambda>_. \<lparr>f_count = 0, f_id = 0, f_next = None\<rparr>)(0 := \<lparr>f_count = int c, f_id = 7, f_next = None\<rparr>),
     fh = (\<lambda>_. None)(7 := Some 0), fo_brk = 1, fo_limit = 2, fo_live = {0}\<rparr>"

lemma HASH_7: "HASH 7 = 7"
  by (simp add: HASH_def)

lemma demo_alloc: "foo_alloc True 7 (shared (foo_start 2)) = (Some 0, demo_foo 1)"
  by (simp add: foo_alloc_def foo_start_def demo_foo_def upd_def HASH_7)

lemma demo_find: "foo_find 7 (demo_foo 1) = Inr (Some 0, demo_foo 2)"
  by (simp add: foo_find_def demo_foo_def HASH_7 find_foo.simps foo_hold_def incr_count_def upd_def)

definition demo_sys :: foo_sys where
  "demo_sys = \<lparr>shared = demo_foo 2, held = {#(1, 0), (0, 0)#}, pend = (\<lambda>_. None)(0 := Some 0)\<rparr>"

lemma demo_reach: "foo_reach 2 demo_sys"
proof -
  let ?S1 = "\<lparr>shared = demo_foo 1, held = {#(0, 0)#}, pend = (\<lambda>_. None)\<rparr>"
  let ?S2 = "\<lparr>shared = demo_foo 1, held = {#(0, 0)#}, pend = (\<lambda>_. None)(0 := Some 0)\<rparr>"
  have "foo_step (foo_start 2) ?S1" using foo_step.alloc [OF _ demo_alloc, of 0] by (simp add: foo_start_def)
  moreover have "foo_step ?S1 ?S2" using foo_step.rele_first [of ?S1 0 0 True "demo_foo 1"]
    by (simp add: foo_rele_first_def demo_foo_def)
  moreover have "foo_step ?S2 demo_sys" using foo_step.find [of ?S2 1 7 0 "demo_foo 2"]
    by (simp add: demo_find [simplified] demo_sys_def)
  ultimately show ?thesis by (meson foo_reach.intros)
qed

section \<open>Properties\<close>

text \<open>C39: In every state the threads can reach, in any order of their sections, the objects
  that are allocated are the ones some thread has a reference to, and \<^verbatim>\<open>f_count\<close> is the number of
  references: no object is freed too early and none is leaked.\<close>

theorem foo_refcount_invariant:
  assumes "foo_reach n S"
  shows "fo_live (shared S) = snd ` set_mset (held S) \<and>
    (\<forall>a. a \<in> fo_live (shared S) \<longrightarrow> f_count (fo (shared S) a) = int (size (filter_mset (\<lambda>r. snd r = a) (held S))))"
proof -
  have t: "table (shared S) (refs S)" using foo_reach_inv [OF assms] by (simp add: foo_inv_def)
  have "count (refs S) a = size (filter_mset (\<lambda>r. snd r = a) (held S))" for a
    by (simp add: refs_def count_image_mset' size_multiset_overloaded_eq eq_commute [of a])
  then show ?thesis using t by (simp add: table_def counts_def refs_def)
qed

theorem foo_refcount_invariant_witness:
  "fo_live (shared demo_sys) = {0} \<and> f_count (fo (shared demo_sys) 0) = 2"
  using foo_refcount_invariant [OF demo_reach] by (simp add: demo_sys_def demo_foo_def)

text \<open>C40: While there are fewer than \<open>2\<^sup>3\<^sup>1 - 1\<close> references, no section faults in a reachable state: a
  thread with a reference can take another or release it, in one or in two sections, and a
  search ends, without following a pointer to an object that was freed.\<close>

theorem foo_no_fault:
  assumes "foo_reach n S" "size (held S) < 2147483647"
  shows "(\<forall>t a. (t, a) \<in># held S \<longrightarrow>
      (\<exists>s. foo_hold a (shared S) = Inr s) \<and> (\<exists>r. foo_rele_first a (shared S) = Inr r) \<and> (\<exists>s. foo_rele_last a (shared S) = Inr s)) \<and>
    (\<forall>t a. pend S t = Some a \<longrightarrow> (\<exists>s. foo_rele_last a (shared S) = Inr s)) \<and>
    (\<forall>i. \<exists>r. foo_find i (shared S) = Inr r)"
proof -
  have t: "table (shared S) (refs S)" and p: "\<And>t a. pend S t = Some a \<Longrightarrow> (t, a) \<in># held S"
    using foo_reach_inv [OF assms(1)] by (auto simp: foo_inv_def)
  have b: "int (count (refs S) a) < INT_MAX" for a
    using count_le_size [of "refs S" a] assms(2) by (simp add: refs_def)
  have l: "\<exists>s. foo_rele_last a (shared S) = Inr s" if "(t, a) \<in># held S" for t a
    using table_rele_last [OF t refs_mem [OF that]] by metis
  moreover have "\<exists>s. foo_hold a (shared S) = Inr s" "\<exists>r. foo_rele_first a (shared S) = Inr r" if "(t, a) \<in># held S" for t a
    using m2.hold_law [OF t refs_mem [OF that] b] table_rele_first [OF t refs_mem [OF that]] by blast+
  moreover have "\<exists>r. foo_find i (shared S) = Inr r" for i using m2.find_law [OF t b] by blast
  ultimately show ?thesis using p by blast
qed

theorem foo_no_fault_witness: "\<exists>s. foo_rele_last 0 (shared demo_sys) = Inr s"
proof -
  have "size (held demo_sys) < 2147483647" by (simp add: demo_sys_def)
  moreover have "(0, 0) \<in># held demo_sys" by (simp add: demo_sys_def)
  ultimately show ?thesis using foo_no_fault [OF demo_reach] by blast
qed

end
