(* ===== verification/Opend_Model.thy ===== *)
theory Opend_Model
  imports C_Prelude "HOL-Library.Word"
begin

text \<open>
  The open server, \<^verbatim>\<open>apue.3e/ipc2/opend\<close>: the array of connected clients (\<^verbatim>\<open>client.c\<close>), the
  requests (\<^verbatim>\<open>cliargs.c\<close>, \<^verbatim>\<open>request.c\<close>) and the two versions of the main loop (\<^verbatim>\<open>loop.select.c\<close>,
  \<^verbatim>\<open>loop.poll.c\<close>), each round of which is a function of what \<^verbatim>\<open>select\<close> or \<^verbatim>\<open>poll\<close> reports, what
  \<^verbatim>\<open>serv_accept\<close> returns and what can be read from the connections.
\<close>

section \<open>State\<close>

datatype opend_error =
    Oerr_sys string
  | Olog_sys string
  | Olog_quit string
  | Out_of_bounds

text \<open>The calls of \<^verbatim>\<open>log_msg\<close>, by their arguments; \<open>Log_format\<close> is a call whose format is the message.\<close>

datatype olog =
    Log_request string int
  | Log_format string
  | Log_sent int int string
  | Log_new int int
  | Log_closed int int

datatype oreply = Reply_err string | Reply_fd int

text \<open>The globals and what the server does to the outside.\<close>

record ost =
  errmsg :: string
  pathname :: string
  o_flag :: int
  replies :: "(int \<times> oreply) list"
  logs :: "olog list"
  closed :: "int list"

record client_ent =
  cl_fd :: int
  cl_uid :: int

text \<open>\<open>cl_limit\<close>: how many entries the memory has room for; \<open>cl_junk\<close>: what new memory holds.\<close>

record opend = ost +
  client :: "client_ent list"
  cl_limit :: nat
  cl_junk :: int

text \<open>What the server calls: \<open>os_argv\<close> is the splitting into arguments by \<^verbatim>\<open>buf_args\<close> (which fails
  when there are too many), \<open>os_open\<close> gives the text of an error or a descriptor, and \<open>os_send\<close>
  is the success of \<^verbatim>\<open>send_fd\<close>.\<close>

record opend_os =
  os_argv :: "string \<Rightarrow> string list option"
  os_openf :: "string \<Rightarrow> int \<Rightarrow> string + int"
  os_send :: "int \<Rightarrow> int \<Rightarrow> bool"

definition logging :: "olog \<Rightarrow> 'a ost_scheme \<Rightarrow> 'a ost_scheme" where
  "logging l s = s\<lparr>logs := logs s @ [l]\<rparr>"

definition replying :: "int \<Rightarrow> oreply \<Rightarrow> 'a ost_scheme \<Rightarrow> 'a ost_scheme" where
  "replying fd r s = s\<lparr>replies := replies s @ [(fd, r)]\<rparr>"

section \<open>Clients\<close>

abbreviation NALLOC :: nat where "NALLOC \<equiv> 10"

definition client_alloc :: "'a opend_scheme \<Rightarrow> opend_error + 'a opend_scheme" where
  "client_alloc s =
     (if length (client s) + NALLOC > cl_limit s then Inl (Oerr_sys ''can't alloc for client array'')
      else Inr (s\<lparr>client := client s @ replicate NALLOC \<lparr>cl_fd = - 1, cl_uid = cl_junk s\<rparr>\<rparr>))"

text \<open>The index of the first entry with the descriptor.\<close>

fun find_fd :: "int \<Rightarrow> client_ent list \<Rightarrow> nat option" where
  "find_fd fd [] = None"
| "find_fd fd (e # es) = (if cl_fd e = fd then Some 0 else map_option Suc (find_fd fd es))"

function client_search :: "int \<Rightarrow> int \<Rightarrow> 'a opend_scheme \<Rightarrow> opend_error + (nat \<times> 'a opend_scheme)" where
  "client_search fd uid s =
     (case find_fd (- 1) (client s) of
        Some i \<Rightarrow> Inr (i, s\<lparr>client := (client s)[i := \<lparr>cl_fd = fd, cl_uid = uid\<rparr>]\<rparr>)
      | None \<Rightarrow>
          (case client_alloc s of
             Inl e \<Rightarrow> Inl e
           | Inr s \<Rightarrow> client_search fd uid s))"
  by auto
termination
  by (relation "measure (\<lambda>(fd, uid, s). cl_limit s - length (client s))") (auto simp: client_alloc_def split: if_splits)

declare client_search.simps [simp del]

definition client_add :: "int \<Rightarrow> int \<Rightarrow> 'a opend_scheme \<Rightarrow> opend_error + (nat \<times> 'a opend_scheme)" where
  "client_add fd uid s =
     andthen (if client s = [] then client_alloc s else Inr s) (client_search fd uid)"

definition client_del :: "int \<Rightarrow> 'a opend_scheme \<Rightarrow> opend_error + 'a opend_scheme" where
  "client_del fd s =
     (case find_fd fd (client s) of
        None \<Rightarrow> Inl (Olog_quit ''can't find client entry'')
      | Some i \<Rightarrow> Inr (s\<lparr>client := (client s)[i := (client s ! i)\<lparr>cl_fd := - 1\<rparr>]\<rparr>))"

section \<open>Requests\<close>

abbreviation MAXLINE :: nat where "MAXLINE \<equiv> 4096"

definition snprintf_errmsg :: "string \<Rightarrow> 'a ost_scheme \<Rightarrow> 'a ost_scheme" where
  "snprintf_errmsg msg s = s\<lparr>errmsg := take (MAXLINE - 2) msg\<rparr>"

definition cli_args :: "string list \<Rightarrow> 'a ost_scheme \<Rightarrow> bool \<times> 'a ost_scheme" where
  "cli_args argv s =
     (if length argv \<noteq> 3 \<or> argv ! 0 \<noteq> ''open''
      then (False, s\<lparr>errmsg := ''usage: <pathname> <oflag>'' @ [CHR 0x0A]\<rparr>)
      else (True, s\<lparr>pathname := argv ! 1, o_flag := sint (word_of_int (atol (argv ! 2)) :: 32 word)\<rparr>))"

definition buf_args :: "opend_os \<Rightarrow> string \<Rightarrow> 'a ost_scheme \<Rightarrow> bool \<times> 'a ost_scheme" where
  "buf_args os buf s = (case os_argv os buf of None \<Rightarrow> (False, s) | Some argv \<Rightarrow> cli_args argv s)"

definition refuse :: "int \<Rightarrow> 'a ost_scheme \<Rightarrow> 'a ost_scheme" where
  "refuse clifd s = replying clifd (Reply_err (errmsg s)) s"

text \<open>\<open>buf\<close> is the \<^verbatim>\<open>nread\<close> bytes that were read.\<close>

definition handle_request :: "opend_os \<Rightarrow> cbuf \<Rightarrow> int \<Rightarrow> int \<Rightarrow> 'a ost_scheme \<Rightarrow> opend_error + 'a ost_scheme" where
  "handle_request os buf clifd uid s =
     (if last buf \<noteq> NUL
      then Inr (refuse clifd (snprintf_errmsg (''request from uid '' @ sdec uid @ '' not null terminated: '' @
              pad_left (length buf) (cstr (buf @ [NUL])) @ [CHR 0x0A]) s))
      else
      let s = logging (Log_request (cstr buf) uid) s; (ok, s) = buf_args os (cstr buf) s
      in if \<not> ok then Inr (logging (Log_format (errmsg s)) (refuse clifd s))
         else case os_openf os (pathname s) (o_flag s) of
                Inl msg \<Rightarrow>
                  let s = snprintf_errmsg (''can't open '' @ pathname s @ '': '' @ msg @ [CHR 0x0A]) s
                  in Inr (logging (Log_format (errmsg s)) (refuse clifd s))
              | Inr newfd \<Rightarrow>
                  if \<not> os_send os clifd newfd then Inl (Olog_sys ''send_fd error'')
                  else let s = replying clifd (Reply_fd newfd) s;
                           s = logging (Log_sent newfd clifd (pathname s)) s
                       in Inr (s\<lparr>closed := closed s @ [newfd]\<rparr>))"

section \<open>The loop with select\<close>

datatype read_result = Read_error | Read_eof | Read_data cbuf

record sel = opend +
  allset :: "int set"
  sel_maxfd :: int
  sel_maxi :: int
  sel_listen :: int

abbreviation FD_SETSIZE :: int where "FD_SETSIZE \<equiv> 1024"

text \<open>The server at the start of its loop; \<open>fd\<close> is what \<^verbatim>\<open>serv_listen\<close> returned.\<close>

definition sel_start :: "int \<Rightarrow> nat \<Rightarrow> int \<Rightarrow> opend_error + sel" where
  "sel_start fd limit junk =
     (if fd < 0 then Inl (Olog_sys ''serv_listen error'')
      else if fd \<ge> FD_SETSIZE then Inl Out_of_bounds
      else Inr \<lparr>errmsg = [], pathname = [], o_flag = 0, replies = [], logs = [], closed = [],
      client = [], cl_limit = limit, cl_junk = junk, allset = {fd}, sel_maxfd = fd, sel_maxi = - 1, sel_listen = fd\<rparr>)"

definition sel_accept :: "(int \<times> int) option \<Rightarrow> sel \<Rightarrow> opend_error + sel" where
  "sel_accept conn s =
     (case conn of
        None \<Rightarrow> Inl (Olog_sys ''serv_accept error'')
      | Some (clifd, uid) \<Rightarrow>
          andthen (client_add clifd uid s) (\<lambda>(i, s).
          if clifd \<ge> FD_SETSIZE then Inl Out_of_bounds
          else
            let s = s\<lparr>allset := insert clifd (allset s)\<rparr>;
                s = (if clifd > sel_maxfd s then s\<lparr>sel_maxfd := clifd\<rparr> else s);
                s = (if int i > sel_maxi s then s\<lparr>sel_maxi := int i\<rparr> else s)
            in Inr (logging (Log_new uid clifd) s)))"

definition sel_serve :: "opend_os \<Rightarrow> (int \<Rightarrow> read_result) \<Rightarrow> nat \<Rightarrow> sel \<Rightarrow> opend_error + sel" where
  "sel_serve os rdf i s =
     (let clifd = cl_fd (client s ! i); uid = cl_uid (client s ! i)
      in case rdf clifd of
           Read_error \<Rightarrow> Inl (Olog_sys ''read error'')
         | Read_eof \<Rightarrow>
             andthen (client_del clifd (logging (Log_closed uid clifd) s)) (\<lambda>s.
             Inr (s\<lparr>allset := allset s - {clifd}, closed := closed s @ [clifd]\<rparr>))
         | Read_data buf \<Rightarrow> handle_request os buf clifd uid s)"

fun sel_scan :: "opend_os \<Rightarrow> (int \<Rightarrow> bool) \<Rightarrow> (int \<Rightarrow> read_result) \<Rightarrow> nat list \<Rightarrow> sel \<Rightarrow> opend_error + sel" where
  "sel_scan os rset rdf [] s = Inr s"
| "sel_scan os rset rdf (i # is) s =
     (if i \<ge> length (client s) then Inl Out_of_bounds
      else if cl_fd (client s ! i) < 0 then sel_scan os rset rdf is s
      else if rset (cl_fd (client s ! i)) then andthen (sel_serve os rdf i s) (sel_scan os rset rdf is)
      else sel_scan os rset rdf is s)"

text \<open>\<open>sel\<close> is the set that \<^verbatim>\<open>select\<close> leaves, or nothing if it fails.\<close>

definition sel_round :: "opend_os \<Rightarrow> (int \<Rightarrow> bool) option \<Rightarrow> (int \<times> int) option \<Rightarrow> (int \<Rightarrow> read_result) \<Rightarrow> sel \<Rightarrow> opend_error + sel" where
  "sel_round os sel conn rdf s =
     (case sel of
        None \<Rightarrow> Inl (Olog_sys ''select error'')
      | Some rset \<Rightarrow>
          if rset (sel_listen s) then sel_accept conn s
          else sel_scan os rset rdf [0..<nat (sel_maxi s + 1)] s)"

section \<open>The loop with poll\<close>

text \<open>The two bits of \<^verbatim>\<open>revents\<close> that the code tests.\<close>

record pollfd =
  p_fd :: int
  p_in :: bool
  p_hup :: bool

text \<open>The length of \<open>pfds\<close> is \<^verbatim>\<open>maxfd\<close>.\<close>

record pol = opend +
  pfds :: "pollfd list"
  numfd :: nat

abbreviation no_pollfd :: pollfd where "no_pollfd \<equiv> \<lparr>p_fd = - 1, p_in = False, p_hup = False\<rparr>"

definition pol_start :: "int \<Rightarrow> nat \<Rightarrow> int \<Rightarrow> opend_error + pol" where
  "pol_start fd limit junk =
     (if fd < 0 then Inl (Olog_sys ''serv_listen error'') else
      andthen (client_add fd 0
       \<lparr>errmsg = [], pathname = [], o_flag = 0, replies = [], logs = [], closed = [],
        client = [], cl_limit = limit, cl_junk = junk, pfds = replicate NALLOC no_pollfd, numfd = 1\<rparr>) (\<lambda>(i, s).
     Inr (s\<lparr>pfds := (pfds s)[0 := (pfds s ! 0)\<lparr>p_fd := fd\<rparr>]\<rparr>)))"

definition grow_pollfd :: "pol \<Rightarrow> opend_error + pol" where
  "grow_pollfd s =
     (if length (pfds s) + NALLOC > cl_limit s then Inl (Oerr_sys ''realloc error'')
      else Inr (s\<lparr>pfds := pfds s @ replicate NALLOC no_pollfd\<rparr>))"

definition pol_accept :: "(int \<times> int) option \<Rightarrow> pol \<Rightarrow> opend_error + pol" where
  "pol_accept conn s =
     (case conn of
        None \<Rightarrow> Inl (Olog_sys ''serv_accept error'')
      | Some (clifd, uid) \<Rightarrow>
          andthen (client_add clifd uid s) (\<lambda>(i, s).
          andthen (if numfd s = length (pfds s) then grow_pollfd s else Inr s) (\<lambda>s.
          let s = s\<lparr>pfds := (pfds s)[numfd s := \<lparr>p_fd = clifd, p_in = False, p_hup = False\<rparr>], numfd := numfd s + 1\<rparr>
          in Inr (logging (Log_new uid clifd) s))))"

text \<open>The end of a connection; the last entry is moved to its place.\<close>

definition pol_hungup :: "nat \<Rightarrow> pol \<Rightarrow> opend_error + pol" where
  "pol_hungup i s =
     (let fd = p_fd (pfds s ! i)
      in andthen (client_del fd (logging (Log_closed (cl_uid (client s ! i)) fd) s)) (\<lambda>s.
         let s = s\<lparr>closed := closed s @ [fd]\<rparr>;
             s = (if i < numfd s - 1 then s\<lparr>pfds := (pfds s)[i := pfds s ! (numfd s - 1)]\<rparr> else s)
         in Inr (s\<lparr>numfd := numfd s - 1\<rparr>)))"

text \<open>One entry: the index to go on with.\<close>

definition pol_entry :: "opend_os \<Rightarrow> (int \<Rightarrow> read_result) \<Rightarrow> nat \<Rightarrow> pol \<Rightarrow> opend_error + (nat \<times> pol)" where
  "pol_entry os rdf i s =
     (let p = pfds s ! i; hungup = andthen (pol_hungup i s) (\<lambda>s'. Inr (if i < numfd s - 1 then i else Suc i, s'))
      in if p_hup p then hungup
         else if \<not> p_in p then Inr (Suc i, s)
         else case rdf (p_fd p) of
                Read_error \<Rightarrow> Inl (Olog_sys ''read error'')
              | Read_eof \<Rightarrow> hungup
              | Read_data buf \<Rightarrow> andthen (handle_request os buf (p_fd p) (cl_uid (client s ! i)) s) (\<lambda>s. Inr (Suc i, s)))"

text \<open>Each entry moves on or removes one.\<close>

lemma handle_request_more: "handle_request os buf fd uid s = Inr s' \<Longrightarrow> ost.more s' = ost.more s"
  by (auto simp: handle_request_def Let_def refuse_def replying_def logging_def snprintf_errmsg_def buf_args_def cli_args_def
      split: if_splits option.splits sum.splits prod.splits)

lemma numfd_more: "ost.more (s' :: pol) = ost.more s \<Longrightarrow> numfd s' = numfd s"
  by (cases s; cases s') simp

lemma pol_entry_less:
  assumes "pol_entry os rdf i s = Inr (i', s')" "i < numfd s"
  shows "numfd s' - i' < numfd s - i"
proof -
  have "numfd s2 = numfd s - 1" if "pol_hungup i s = Inr s2" for s2
    using that by (auto simp: pol_hungup_def Let_def andthen_Inr_iff client_del_def logging_def split: option.splits if_splits)
  moreover have "numfd s2 = numfd s" if "handle_request os buf fd uid s = Inr s2" for buf fd uid s2
    using numfd_more [OF handle_request_more [OF that]] .
  ultimately show ?thesis using assms
    by (auto simp: pol_entry_def Let_def andthen_Inr_iff split: if_splits read_result.splits)
qed

function pol_scan :: "opend_os \<Rightarrow> (int \<Rightarrow> read_result) \<Rightarrow> nat \<Rightarrow> pol \<Rightarrow> opend_error + pol" where
  "pol_scan os rdf i s =
     (if i \<ge> numfd s then Inr s
      else if i \<ge> length (client s) \<or> i \<ge> length (pfds s) then Inl Out_of_bounds
      else case pol_entry os rdf i s of Inl e \<Rightarrow> Inl e | Inr (i, s) \<Rightarrow> pol_scan os rdf i s)"
  by auto
termination
  by (relation "measure (\<lambda>(os, rdf, i, s). numfd s - i)") (auto dest: pol_entry_less)

declare pol_scan.simps [simp del]

text \<open>What \<^verbatim>\<open>poll\<close> reports for each descriptor, or nothing if it fails.\<close>

definition pol_round :: "opend_os \<Rightarrow> (int \<Rightarrow> bool \<times> bool) option \<Rightarrow> (int \<times> int) option \<Rightarrow> (int \<Rightarrow> read_result) \<Rightarrow> pol \<Rightarrow> opend_error + pol" where
  "pol_round os pol conn rdf s =
     (case pol of
        None \<Rightarrow> Inl (Olog_sys ''poll error'')
      | Some revs \<Rightarrow>
          let s = s\<lparr>pfds := map (\<lambda>p. p\<lparr>p_in := fst (revs (p_fd p)), p_hup := snd (revs (p_fd p))\<rparr>) (take (numfd s) (pfds s)) @
                     drop (numfd s) (pfds s)\<rparr>
          in andthen (if p_in (pfds s ! 0) then pol_accept conn s else Inr s) (\<lambda>s.
             pol_scan os rdf 1 s))"

end
