(* ===== verification/Opend_Props.thy ===== *)
theory Opend_Props
  imports Opend_Model
begin

text \<open>
  The open server as a map from connections to the users behind them: the array of clients
  implements the map, and the loop with \<^verbatim>\<open>select\<close> serves every request for the user whose
  connection it came from.  The loop with \<^verbatim>\<open>poll\<close> does not.
\<close>

section \<open>The array of clients as a map\<close>

definition entries_ok :: "client_ent list \<Rightarrow> bool" where
  "entries_ok es \<longleftrightarrow> (\<forall>i < length es. - 1 \<le> cl_fd (es ! i)) \<and>
     (\<forall>i < length es. \<forall>j < length es. cl_fd (es ! i) = cl_fd (es ! j) \<longrightarrow> cl_fd (es ! i) \<noteq> - 1 \<longrightarrow> i = j)"

definition conns :: "client_ent list \<Rightarrow> int \<rightharpoonup> int" where
  "conns es fd = (if fd < 0 then None else map_option (\<lambda>i. cl_uid (es ! i)) (find_fd fd es))"

lemma find_fd_Some: "find_fd fd es = Some i \<Longrightarrow> i < length es \<and> cl_fd (es ! i) = fd"
  by (induction es arbitrary: i) (auto split: if_splits)

lemma find_fd_None: "find_fd fd es = None \<longleftrightarrow> (\<forall>i < length es. cl_fd (es ! i) \<noteq> fd)"
  by (induction es) (auto simp: nth_Cons' less_Suc_eq_0_disj)

lemma entries_okD:
  assumes "entries_ok es"
  shows "i < length es \<Longrightarrow> - 1 \<le> cl_fd (es ! i)"
    "i < length es \<Longrightarrow> j < length es \<Longrightarrow> cl_fd (es ! i) = cl_fd (es ! j) \<Longrightarrow> cl_fd (es ! i) \<noteq> - 1 \<Longrightarrow> i = j"
  using assms unfolding entries_ok_def by blast+

lemma conns_nth:
  assumes "entries_ok es" "i < length es" "cl_fd (es ! i) \<noteq> - 1"
  shows "conns es (cl_fd (es ! i)) = Some (cl_uid (es ! i))"
proof -
  obtain j where j: "find_fd (cl_fd (es ! i)) es = Some j" using assms(2) find_fd_None by (metis not_Some_eq)
  then have "j = i" using find_fd_Some [OF j] entries_okD(2) [OF assms(1)] assms(2,3) by metis
  moreover have "\<not> cl_fd (es ! i) < 0" using entries_okD(1) [OF assms(1,2)] assms(3) by linarith
  ultimately show ?thesis using j by (simp add: conns_def)
qed

lemma conns_SomeD: "conns es fd = Some u \<Longrightarrow> 0 \<le> fd \<and> (\<exists>i < length es. es ! i = \<lparr>cl_fd = fd, cl_uid = u\<rparr>)"
proof -
  assume a: "conns es fd = Some u"
  then obtain i where "find_fd fd es = Some i" "cl_uid (es ! i) = u" "0 \<le> fd" by (auto simp: conns_def split: if_splits)
  then show ?thesis using find_fd_Some [of fd es i] by (intro conjI exI [of _ i]) auto
qed

lemma conns_iff:
  assumes "entries_ok es"
  shows "conns es fd = Some u \<longleftrightarrow> 0 \<le> fd \<and> (\<exists>i < length es. es ! i = \<lparr>cl_fd = fd, cl_uid = u\<rparr>)"
  using conns_SomeD conns_nth [OF assms] by (fastforce simp: neq_iff)

lemma conns_eqI:
  assumes "\<And>fd u. conns es fd = Some u \<longleftrightarrow> m fd = Some u"
  shows "conns es = m"
  by (rule ext) (metis assms not_Some_eq)

text \<open>Taking a free entry, and freeing one.\<close>

lemma entries_add:
  assumes ok: "entries_ok es" and i: "i < length es" "cl_fd (es ! i) = - 1" and fd: "0 \<le> fd" "conns es fd = None"
  shows "entries_ok (es[i := \<lparr>cl_fd = fd, cl_uid = uid\<rparr>])" "conns (es[i := \<lparr>cl_fd = fd, cl_uid = uid\<rparr>]) = (conns es)(fd \<mapsto> uid)"
proof -
  let ?es = "es[i := \<lparr>cl_fd = fd, cl_uid = uid\<rparr>]"
  have free: "cl_fd (es ! j) \<noteq> fd" if "j < length es" for j
    using conns_nth [OF ok that] fd by auto
  have e: "?es ! j = (if j = i then \<lparr>cl_fd = fd, cl_uid = uid\<rparr> else es ! j)" if "j < length es" for j
    using that by simp
  show ok': "entries_ok ?es"
    unfolding entries_ok_def length_list_update
  proof (intro conjI allI impI)
    fix j assume j: "j < length es"
    show "- 1 \<le> cl_fd (?es ! j)" using e [OF j] entries_okD(1) [OF ok j] fd(1) by simp
    fix k assume "k < length es" "cl_fd (?es ! j) = cl_fd (?es ! k)" "cl_fd (?es ! j) \<noteq> - 1"
    then show "j = k" using e j free entries_okD(2) [OF ok] by (metis client_ent.select_convs(1))
  qed
  show "conns ?es = (conns es)(fd \<mapsto> uid)"
  proof (rule conns_eqI)
    fix g u
    show "conns ?es g = Some u \<longleftrightarrow> ((conns es)(fd \<mapsto> uid)) g = Some u"
    proof (cases "g = fd")
      case True
      then show ?thesis using conns_nth [OF ok', of i] i fd(1) by auto
    next
      case False
      then have "(\<exists>j < length es. ?es ! j = \<lparr>cl_fd = g, cl_uid = u\<rparr>) \<longleftrightarrow> (\<exists>j < length es. es ! j = \<lparr>cl_fd = g, cl_uid = u\<rparr>)" if "0 \<le> g"
        using that e i by (metis client_ent.select_convs(1) neg_0_le_iff_le not_one_le_zero)
      then show ?thesis using False conns_iff [OF ok'] conns_iff [OF ok] by auto
    qed
  qed
qed

lemma entries_del:
  assumes ok: "entries_ok es" and i: "i < length es" "cl_fd (es ! i) = fd" "0 \<le> fd"
  shows "entries_ok (es[i := (es ! i)\<lparr>cl_fd := - 1\<rparr>])" "conns (es[i := (es ! i)\<lparr>cl_fd := - 1\<rparr>]) = (conns es)(fd := None)"
proof -
  let ?es = "es[i := (es ! i)\<lparr>cl_fd := - 1\<rparr>]"
  have e: "?es ! j = (if j = i then (es ! i)\<lparr>cl_fd := - 1\<rparr> else es ! j)" if "j < length es" for j
    using that by simp
  show ok': "entries_ok ?es"
    unfolding entries_ok_def length_list_update
  proof (intro conjI allI impI)
    fix j assume j: "j < length es"
    show "- 1 \<le> cl_fd (?es ! j)" using e [OF j] entries_okD(1) [OF ok j] by simp
    fix k assume k: "k < length es" "cl_fd (?es ! j) = cl_fd (?es ! k)" "cl_fd (?es ! j) \<noteq> - 1"
    then show "j = k" using e [OF j] e [OF k(1)] entries_okD(2) [OF ok j k(1)] by (auto split: if_splits)
  qed
  show "conns ?es = (conns es)(fd := None)"
  proof (rule conns_eqI)
    fix g u
    have "(\<exists>j < length es. ?es ! j = \<lparr>cl_fd = g, cl_uid = u\<rparr>) \<longleftrightarrow> g \<noteq> fd \<and> (\<exists>j < length es. es ! j = \<lparr>cl_fd = g, cl_uid = u\<rparr>)" if "0 \<le> g"
    proof
      assume "\<exists>j < length es. ?es ! j = \<lparr>cl_fd = g, cl_uid = u\<rparr>"
      then obtain j where j: "j < length es" "?es ! j = \<lparr>cl_fd = g, cl_uid = u\<rparr>" by blast
      then have "j \<noteq> i" using e [of j] that by (cases "es ! i") auto
      then have "es ! j = \<lparr>cl_fd = g, cl_uid = u\<rparr>" "g \<noteq> fd" using j e [of j] i that entries_okD(2) [OF ok j(1) i(1)] by auto
      then show "g \<noteq> fd \<and> (\<exists>j < length es. es ! j = \<lparr>cl_fd = g, cl_uid = u\<rparr>)" using j by blast
    next
      assume "g \<noteq> fd \<and> (\<exists>j < length es. es ! j = \<lparr>cl_fd = g, cl_uid = u\<rparr>)"
      then show "\<exists>j < length es. ?es ! j = \<lparr>cl_fd = g, cl_uid = u\<rparr>" using e i by (metis client_ent.select_convs(1))
    qed
    then show "conns ?es g = Some u \<longleftrightarrow> ((conns es)(fd := None)) g = Some u"
      using conns_iff [OF ok'] conns_iff [OF ok] by auto
  qed
qed

lemma entries_grow:
  assumes ok: "entries_ok es"
  shows "entries_ok (es @ replicate n \<lparr>cl_fd = - 1, cl_uid = u\<rparr>)" "conns (es @ replicate n \<lparr>cl_fd = - 1, cl_uid = u\<rparr>) = conns es"
proof -
  let ?es = "es @ replicate n \<lparr>cl_fd = - 1, cl_uid = u\<rparr>"
  have e: "?es ! j = (if j < length es then es ! j else \<lparr>cl_fd = - 1, cl_uid = u\<rparr>)" if "j < length ?es" for j
    using that by (simp add: nth_append)
  show ok': "entries_ok ?es" unfolding entries_ok_def
  proof (intro conjI allI impI)
    fix j assume j: "j < length ?es"
    show "- 1 \<le> cl_fd (?es ! j)" using e [OF j] entries_okD(1) [OF ok, of j] by simp
    fix k assume k: "k < length ?es" "cl_fd (?es ! j) = cl_fd (?es ! k)" "cl_fd (?es ! j) \<noteq> - 1"
    then show "j = k" using e [OF j] e [OF k(1)] entries_okD(2) [OF ok, of j k] by (auto split: if_splits)
  qed
  show "conns ?es = conns es"
  proof (rule conns_eqI)
    fix g v
    have "(\<exists>j < length ?es. ?es ! j = \<lparr>cl_fd = g, cl_uid = v\<rparr>) \<longleftrightarrow> (\<exists>j < length es. es ! j = \<lparr>cl_fd = g, cl_uid = v\<rparr>)" if "0 \<le> g"
      using that e by (auto split: if_splits intro: trans_less_add1)
    then show "conns ?es g = Some v \<longleftrightarrow> conns es g = Some v" using conns_iff [OF ok'] conns_iff [OF ok] by auto
  qed
qed

section \<open>The interface of the table\<close>

locale fd_table =
  fixes ok :: "'s \<Rightarrow> bool" and users :: "'s \<Rightarrow> int \<rightharpoonup> int"
    and add :: "int \<Rightarrow> int \<Rightarrow> 's \<Rightarrow> opend_error + (nat \<times> 's)" and del :: "int \<Rightarrow> 's \<Rightarrow> opend_error + 's"
  assumes add_law: "ok s \<Longrightarrow> 0 \<le> fd \<Longrightarrow> users s fd = None \<Longrightarrow> add fd uid s = Inr (i, s') \<Longrightarrow>
      ok s' \<and> users s' = (users s)(fd \<mapsto> uid)"
    and del_law: "ok s \<Longrightarrow> users s fd = Some uid \<Longrightarrow> \<exists>s'. del fd s = Inr s' \<and> ok s' \<and> users s' = (users s)(fd := None)"
begin

text \<open>A connection that comes and goes leaves the others alone.\<close>

lemma add_del:
  assumes "ok s" "0 \<le> fd" "users s fd = None" "add fd uid s = Inr (i, s1)"
  shows "\<exists>s'. del fd s1 = Inr s' \<and> ok s' \<and> users s' = users s"
proof -
  have a: "ok s1" "users s1 = (users s)(fd \<mapsto> uid)" using add_law [OF assms] by simp_all
  then obtain s' where "del fd s1 = Inr s'" "ok s'" "users s' = (users s1)(fd := None)"
    using del_law [of s1 fd uid] by auto
  then show ?thesis using a(2) assms(3) by (auto simp: fun_upd_idem)
qed

lemma add_uid: "ok s \<Longrightarrow> 0 \<le> fd \<Longrightarrow> users s fd = None \<Longrightarrow> add fd uid s = Inr (i, s') \<Longrightarrow> users s' fd = Some uid"
  by (drule (3) add_law) simp

end

definition table_ok :: "'a opend_scheme \<Rightarrow> bool" where "table_ok s \<longleftrightarrow> entries_ok (client s)"
definition users_of :: "'a opend_scheme \<Rightarrow> int \<rightharpoonup> int" where "users_of s = conns (client s)"

text \<open>How the array changes when a client is added at the index \<open>i\<close>.\<close>

definition took :: "nat \<Rightarrow> int \<Rightarrow> client_ent list \<Rightarrow> client_ent list \<Rightarrow> bool" where
  "took i fd es es' \<longleftrightarrow> i < length es' \<and> length es \<le> length es' \<and> cl_fd (es' ! i) = fd \<and>
     (\<forall>j < length es'. j \<noteq> i \<longrightarrow> cl_fd (es' ! j) \<noteq> - 1 \<longrightarrow> j < length es \<and> es' ! j = es ! j)"

lemma took_grow: "took i fd (es @ replicate n \<lparr>cl_fd = - 1, cl_uid = u\<rparr>) es' \<Longrightarrow> took i fd es es'"
  unfolding took_def
proof (elim conjE, intro conjI allI impI)
  let ?r = "es @ replicate n \<lparr>cl_fd = - 1, cl_uid = u\<rparr>"
  assume a: "\<forall>j < length es'. j \<noteq> i \<longrightarrow> cl_fd (es' ! j) \<noteq> - 1 \<longrightarrow> j < length ?r \<and> es' ! j = ?r ! j"
  fix j assume "j < length es'" "j \<noteq> i" "cl_fd (es' ! j) \<noteq> - 1"
  with a have "j < length ?r" "es' ! j = ?r ! j" "cl_fd (?r ! j) \<noteq> - 1" by auto
  then show "j < length es" "es' ! j = es ! j" by (cases "j < length es"; simp add: nth_append)+
qed simp_all

lemma took_update: "i < length es \<Longrightarrow> took i fd es (es[i := \<lparr>cl_fd = fd, cl_uid = u\<rparr>])"
  by (simp add: took_def)

lemma search_ok:
  assumes "table_ok s" "0 \<le> fd" "users_of s fd = None" "client_search fd uid s = Inr (i, s')"
  shows "table_ok s' \<and> users_of s' = (users_of s)(fd \<mapsto> uid) \<and> (\<exists>es. s' = s\<lparr>client := es\<rparr> \<and> took i fd (client s) es)"
  using assms
proof (induction fd uid s arbitrary: i s' rule: client_search.induct)
  case (1 fd uid s)
  show ?case
  proof (cases "find_fd (- 1) (client s)")
    case None
    then obtain s1 where a: "client_alloc s = Inr s1" "client_search fd uid s1 = Inr (i, s')"
      using 1(5) by (subst (asm) client_search.simps) (auto split: sum.splits)
    let ?n = "replicate NALLOC \<lparr>cl_fd = - 1, cl_uid = cl_junk s\<rparr>"
    have s1: "s1 = s\<lparr>client := client s @ ?n\<rparr>" using a(1) by (auto simp: client_alloc_def split: if_splits)
    have t: "table_ok s1" "users_of s1 = users_of s"
      using entries_grow [of "client s" NALLOC "cl_junk s"] 1(2) s1 by (simp_all add: table_ok_def users_of_def)
    have "users_of s1 fd = None" using t(2) 1(4) by simp
    from 1(1) [OF None a(1) t(1) 1(3) this a(2)] show ?thesis using t(2) s1 took_grow by auto
  next
    case (Some k)
    then have k: "k < length (client s)" "cl_fd (client s ! k) = - 1" using find_fd_Some by blast+
    have "i = k" "s' = s\<lparr>client := (client s)[k := \<lparr>cl_fd = fd, cl_uid = uid\<rparr>]\<rparr>"
      using 1(5) Some by (subst (asm) client_search.simps, simp)+
    then show ?thesis using entries_add [OF _ k, of fd uid] took_update [OF k(1)] 1(2,3,4)
      by (auto simp: table_ok_def users_of_def)
  qed
qed

lemma client_add_search: "client_add fd uid s = client_search fd uid s"
proof (cases "client s = []")
  case True
  then show ?thesis by (subst client_search.simps) (simp add: client_add_def andthen_def)
qed (simp add: client_add_def)

lemma add_ok:
  assumes "table_ok s" "0 \<le> fd" "users_of s fd = None" "client_add fd uid s = Inr (i, s')"
  shows "table_ok s'" "users_of s' = (users_of s)(fd \<mapsto> uid)" "\<exists>es. s' = s\<lparr>client := es\<rparr> \<and> took i fd (client s) es"
  using search_ok [OF assms(1-3) assms(4) [unfolded client_add_search]] by auto

lemma del_ok:
  assumes "table_ok s" "users_of s fd = Some uid"
  obtains i where "i < length (client s)" "cl_fd (client s ! i) = fd"
    "client_del fd s = Inr (s\<lparr>client := (client s)[i := (client s ! i)\<lparr>cl_fd := - 1\<rparr>]\<rparr>)"
    "table_ok (s\<lparr>client := (client s)[i := (client s ! i)\<lparr>cl_fd := - 1\<rparr>]\<rparr>)"
    "users_of (s\<lparr>client := (client s)[i := (client s ! i)\<lparr>cl_fd := - 1\<rparr>]\<rparr>) = (users_of s)(fd := None)"
proof -
  obtain i where i: "find_fd fd (client s) = Some i" "0 \<le> fd" using assms(2) by (auto simp: users_of_def conns_def split: if_splits)
  then have l: "i < length (client s)" "cl_fd (client s ! i) = fd" using find_fd_Some by blast+
  show ?thesis
    by (rule that [OF l]) (use entries_del [OF _ l i(2)] assms(1) i in \<open>simp_all add: client_del_def table_ok_def users_of_def\<close>)
qed

interpretation st: fd_table "table_ok :: sel \<Rightarrow> bool" users_of client_add client_del
  by unfold_locales (use add_ok(1,2) del_ok in metis)+

interpretation pt: fd_table "table_ok :: pol \<Rightarrow> bool" users_of client_add client_del
  by unfold_locales (use add_ok(1,2) del_ok in metis)+

section \<open>What the server promises\<close>

text \<open>Serving connections of given users, with no array.\<close>

fun serve_all :: "opend_os \<Rightarrow> (int \<Rightarrow> read_result) \<Rightarrow> (int \<times> int) list \<Rightarrow> ost \<Rightarrow> opend_error + ost" where
  "serve_all os rdf [] o' = Inr o'"
| "serve_all os rdf ((fd, uid) # ps) o' =
     (case rdf fd of
        Read_error \<Rightarrow> Inl (Olog_sys ''read error'')
      | Read_eof \<Rightarrow> serve_all os rdf ps ((logging (Log_closed uid fd) o')\<lparr>closed := closed o' @ [fd]\<rparr>)
      | Read_data buf \<Rightarrow> andthen (handle_request os buf fd uid o') (serve_all os rdf ps))"

inductive server_step :: "opend_os \<Rightarrow> (int \<rightharpoonup> int) \<times> ost \<Rightarrow> (int \<rightharpoonup> int) \<times> ost \<Rightarrow> bool" for os where
  accept: "c fd = None \<Longrightarrow> server_step os (c, o') (c(fd \<mapsto> uid), logging (Log_new uid fd) o')"
| serve: "distinct (map fst ps) \<Longrightarrow> set ps = {(fd, u). c fd = Some u \<and> rset fd} \<Longrightarrow> serve_all os rdf ps o' = Inr o'' \<Longrightarrow>
    server_step os (c, o') (c |` {fd. rset fd \<longrightarrow> rdf fd \<noteq> Read_eof}, o'')"

section \<open>The select loop keeps the promise\<close>

lemma handle_trunc:
  "handle_request os buf fd uid (ost.truncate s) = map_sum id ost.truncate (handle_request os buf fd uid s)"
  by (auto simp: handle_request_def Let_def refuse_def replying_def logging_def snprintf_errmsg_def buf_args_def cli_args_def
      ost.truncate_def split: option.split sum.split)

text \<open>The ready connections among the entries \<open>is\<close>.\<close>

definition ready_conns :: "(int \<Rightarrow> bool) \<Rightarrow> nat list \<Rightarrow> client_ent list \<Rightarrow> (int \<times> int) list" where
  "ready_conns rset is es = map (\<lambda>i. (cl_fd (es ! i), cl_uid (es ! i))) (filter (\<lambda>i. \<not> cl_fd (es ! i) < 0 \<and> rset (cl_fd (es ! i))) is)"

lemma ready_conns_cong: "(\<And>i. i \<in> set is \<Longrightarrow> es ! i = es' ! i) \<Longrightarrow> ready_conns rset is es = ready_conns rset is es'"
  unfolding ready_conns_def by (induction "is") auto

lemma ready_conns_Cons: "ready_conns rset (i # is) es =
    (if \<not> cl_fd (es ! i) < 0 \<and> rset (cl_fd (es ! i)) then [(cl_fd (es ! i), cl_uid (es ! i))] else []) @ ready_conns rset is es"
  by (simp add: ready_conns_def)

lemma client_more: "ost.more s' = ost.more s \<Longrightarrow> client (s' :: sel) = client s \<and> allset s' = allset s \<and> sel_maxfd s' = sel_maxfd s \<and>
    sel_maxi s' = sel_maxi s \<and> sel_listen s' = sel_listen s"
  by (cases s; cases s') simp

text \<open>A step that changes at most the entries \<open>I\<close> and keeps the connections \<open>K\<close>.\<close>

definition served :: "int set \<Rightarrow> nat set \<Rightarrow> sel \<Rightarrow> sel \<Rightarrow> bool" where
  "served K I s s' \<longleftrightarrow> table_ok s' \<and> users_of s' = (users_of s) |` K \<and> allset s' = allset s \<inter> K \<and>
     length (client s') = length (client s) \<and> (\<forall>j. j \<notin> I \<longrightarrow> client s' ! j = client s ! j) \<and>
     (\<forall>j < length (client s). cl_fd (client s' ! j) \<noteq> - 1 \<longrightarrow> cl_fd (client s ! j) \<noteq> - 1) \<and>
     sel_maxi s' = sel_maxi s \<and> sel_maxfd s' = sel_maxfd s \<and> sel_listen s' = sel_listen s"

lemma served_refl: "table_ok s \<Longrightarrow> served UNIV {} s s"
  by (simp add: served_def restrict_map_def)

lemma served_trans: "served K I s1 s2 \<Longrightarrow> served L J s2 s3 \<Longrightarrow> served (K \<inter> L) (I \<union> J) s1 s3"
  by (auto simp: served_def)

text \<open>One connection.\<close>

lemma serve_one:
  assumes "table_ok s" "i < length (client s)" "\<not> cl_fd (client s ! i) < 0"
  defines "fd \<equiv> cl_fd (client s ! i)" and "uid \<equiv> cl_uid (client s ! i)"
  shows "map_sum id ost.truncate (sel_serve os rdf i s) = serve_all os rdf [(fd, uid)] (ost.truncate s)"
    "sel_serve os rdf i s = Inr s' \<Longrightarrow> served {g. g = fd \<longrightarrow> rdf fd \<noteq> Read_eof} {i} s s'"
proof -
  have u: "users_of s fd = Some uid"
    using conns_nth [of "client s" i] assms by (simp add: table_ok_def users_of_def)
  let ?l = "logging (Log_closed uid fd) s"
  have "table_ok ?l" "users_of ?l fd = Some uid" using assms(1) u by (simp_all add: table_ok_def users_of_def logging_def)
  then obtain k where k: "k < length (client ?l)" "cl_fd (client ?l ! k) = fd"
    and d: "client_del fd ?l = Inr (?l\<lparr>client := (client ?l)[k := (client ?l ! k)\<lparr>cl_fd := - 1\<rparr>]\<rparr>)"
      "table_ok (?l\<lparr>client := (client ?l)[k := (client ?l ! k)\<lparr>cl_fd := - 1\<rparr>]\<rparr>)"
      "users_of (?l\<lparr>client := (client ?l)[k := (client ?l ! k)\<lparr>cl_fd := - 1\<rparr>]\<rparr>) = (users_of ?l)(fd := None)"
    by (rule del_ok)
  have c: "client ?l = client s" by (simp add: logging_def)
  have "k = i" using entries_okD(2) [of "client s" k i] assms(1-3) k unfolding c by (auto simp: table_ok_def fd_def)
  note d = d [unfolded c this]
  have all: "(users_of s) |` {g. g = fd \<longrightarrow> rdf fd \<noteq> Read_eof} = (if rdf fd = Read_eof then (users_of s)(fd := None) else users_of s)"
    by (auto simp: restrict_map_def)
  have ul: "users_of ?l = users_of s" by (simp add: users_of_def logging_def)
  show "map_sum id ost.truncate (sel_serve os rdf i s) = serve_all os rdf [(fd, uid)] (ost.truncate s)"
  proof (cases "rdf fd")
    case Read_eof
    then show ?thesis using d(1) unfolding sel_serve_def Let_def fd_def [symmetric] uid_def [symmetric]
      by (simp add: logging_def ost.truncate_def)
  next
    case (Read_data buf)
    then show ?thesis unfolding sel_serve_def Let_def fd_def [symmetric] uid_def [symmetric]
      by (cases "handle_request os buf fd uid s") (simp_all add: handle_trunc)
  qed (simp add: sel_serve_def fd_def)
  assume s': "sel_serve os rdf i s = Inr s'"
  show "served {g. g = fd \<longrightarrow> rdf fd \<noteq> Read_eof} {i} s s'"
  proof (cases "rdf fd")
    case Read_eof
    then have e: "s' = (?l\<lparr>client := (client s)[i := (client s ! i)\<lparr>cl_fd := - 1\<rparr>]\<rparr>)\<lparr>allset := allset s - {fd}, closed := closed s @ [fd]\<rparr>"
      using s' d(1) unfolding sel_serve_def Let_def fd_def [symmetric] uid_def [symmetric] by (simp add: logging_def)
    show ?thesis unfolding served_def all using Read_eof d(2,3) ul assms(2) unfolding e
      by (auto simp: table_ok_def users_of_def logging_def nth_list_update)
  next
    case (Read_data buf)
    then have "ost.more s' = ost.more s" using s' handle_request_more unfolding sel_serve_def Let_def fd_def [symmetric] by simp
    then show ?thesis using client_more [of s' s] assms(1) Read_data by (auto simp: served_def table_ok_def users_of_def)
  qed (use s' in \<open>simp add: sel_serve_def fd_def\<close>)
qed

lemma serve_all_append: "serve_all os rdf (ps @ qs) o' = andthen (serve_all os rdf ps o') (serve_all os rdf qs)"
  by (induction ps arbitrary: o') (auto simp: andthen_def split: read_result.split sum.split)

text \<open>All entries \<open>is\<close>, errors included.\<close>

lemma scan_ok:
  assumes "table_ok s" "distinct is" "\<forall>i \<in> set is. i < length (client s)"
  shows "map_sum id ost.truncate (sel_scan os rset rdf is s) = serve_all os rdf (ready_conns rset is (client s)) (ost.truncate s) \<and>
    (\<forall>s'. sel_scan os rset rdf is s = Inr s' \<longrightarrow>
      served {g. g \<in> fst ` set (ready_conns rset is (client s)) \<longrightarrow> rdf g \<noteq> Read_eof} (set is) s s')"
  using assms
proof (induction "is" arbitrary: s)
  case Nil
  then show ?case by (simp add: ready_conns_def served_refl)
next
  case (Cons i "is")
  let ?fd = "cl_fd (client s ! i)" and ?uid = "cl_uid (client s ! i)"
  have i: "i < length (client s)" "i \<notin> set is" using Cons.prems by auto
  show ?case
  proof (cases "\<not> ?fd < 0 \<and> rset ?fd")
    case False
    then have "sel_scan os rset rdf (i # is) s = sel_scan os rset rdf is s" "ready_conns rset (i # is) (client s) = ready_conns rset is (client s)"
      using i by (auto simp: ready_conns_Cons)
    moreover have "served K (set is) s s' \<Longrightarrow> served K (set (i # is)) s s'" for K s' by (auto simp: served_def)
    ultimately show ?thesis using Cons.IH [of s] Cons.prems by auto
  next
    case True
    note one = serve_one [OF Cons.prems(1) i(1), where os = os and rdf = rdf]
    have r: "ready_conns rset (i # is) (client s) = [(?fd, ?uid)] @ ready_conns rset is (client s)" using True by (simp add: ready_conns_Cons)
    have e: "sel_scan os rset rdf (i # is) s = andthen (sel_serve os rdf i s) (sel_scan os rset rdf is)" using True i by simp
    show ?thesis
    proof (cases "sel_serve os rdf i s")
      case (Inl x)
      then have "serve_all os rdf [(?fd, ?uid)] (ost.truncate s) = Inl x" using one(1) True by (metis id_apply map_sum.simps(1))
      then show ?thesis unfolding e r serve_all_append using Inl by simp
    next
      case (Inr s1)
      have s1: "served {g. g = ?fd \<longrightarrow> rdf ?fd \<noteq> Read_eof} {i} s s1" using one(2) True Inr by simp
      have o1: "serve_all os rdf [(?fd, ?uid)] (ost.truncate s) = Inr (ost.truncate s1)" using one(1) True Inr by (metis map_sum.simps(2))
      have rc: "ready_conns rset is (client s1) = ready_conns rset is (client s)"
        by (rule ready_conns_cong) (use s1 i in \<open>auto simp: served_def\<close>)
      have IH: "map_sum id ost.truncate (sel_scan os rset rdf is s1) = serve_all os rdf (ready_conns rset is (client s)) (ost.truncate s1)"
        "sel_scan os rset rdf is s1 = Inr s' \<Longrightarrow>
          served {g. g \<in> fst ` set (ready_conns rset is (client s)) \<longrightarrow> rdf g \<noteq> Read_eof} (set is) s1 s'" for s'
      proof -
        have "table_ok s1" "distinct is" "\<forall>i \<in> set is. i < length (client s1)" using Cons.prems s1 by (auto simp: served_def)
        note h = Cons.IH [OF this, unfolded rc]
        show "map_sum id ost.truncate (sel_scan os rset rdf is s1) = serve_all os rdf (ready_conns rset is (client s)) (ost.truncate s1)"
          using h by blast
        show "sel_scan os rset rdf is s1 = Inr s' \<Longrightarrow>
          served {g. g \<in> fst ` set (ready_conns rset is (client s)) \<longrightarrow> rdf g \<noteq> Read_eof} (set is) s1 s'" for s'
          using h by blast
      qed
      have K: "{g. g = ?fd \<longrightarrow> rdf ?fd \<noteq> Read_eof} \<inter> {g. g \<in> fst ` set (ready_conns rset is (client s)) \<longrightarrow> rdf g \<noteq> Read_eof} =
          {g. g \<in> fst ` set (ready_conns rset (i # is) (client s)) \<longrightarrow> rdf g \<noteq> Read_eof}" unfolding r by auto
      have "map_sum id ost.truncate (sel_scan os rset rdf (i # is) s) = serve_all os rdf (ready_conns rset (i # is) (client s)) (ost.truncate s)"
        unfolding e r serve_all_append o1 Inr andthen_simps by (rule IH(1))
      moreover have "served {g. g \<in> fst ` set (ready_conns rset (i # is) (client s)) \<longrightarrow> rdf g \<noteq> Read_eof} (set (i # is)) s s'"
        if "sel_scan os rset rdf (i # is) s = Inr s'" for s'
        using served_trans [OF s1 IH(2), of s'] that unfolding K e Inr by simp
      ultimately show ?thesis by blast
    qed
  qed
qed

section \<open>Reachable states\<close>

definition sel_inv :: "sel \<Rightarrow> bool" where
  "sel_inv s \<longleftrightarrow> table_ok s \<and> allset s = insert (sel_listen s) (dom (users_of s)) \<and> users_of s (sel_listen s) = None \<and>
     - 1 \<le> sel_maxi s \<and> sel_maxi s < int (length (client s)) \<and>
     (\<forall>i < length (client s). cl_fd (client s ! i) \<noteq> - 1 \<longrightarrow> int i \<le> sel_maxi s) \<and> (\<forall>fd \<in> allset s. fd \<le> sel_maxfd s)"

text \<open>\<^verbatim>\<open>select\<close> reports descriptors of its set, and a new connection has a descriptor that is not in use.\<close>

inductive sel_reach :: "opend_os \<Rightarrow> sel \<Rightarrow> bool" for os where
  start: "sel_start fd limit junk = Inr s \<Longrightarrow> sel_reach os s"
| round: "sel_reach os s \<Longrightarrow> (\<And>fd. rset fd \<Longrightarrow> fd \<in> allset s) \<Longrightarrow>
    (\<And>fd uid. conn = Some (fd, uid) \<Longrightarrow> 0 \<le> fd \<and> fd \<notin> allset s) \<Longrightarrow>
    sel_round os (Some rset) conn rdf s = Inr s' \<Longrightarrow> sel_reach os s'"

lemma accept_ok:
  assumes "sel_inv s" "0 \<le> fd" "fd \<notin> allset s" "sel_accept (Some (fd, uid)) s = Inr s'"
  shows "sel_inv s' \<and> users_of s' = (users_of s)(fd \<mapsto> uid) \<and> ost.truncate s' = logging (Log_new uid fd) (ost.truncate s)"
proof -
  have t: "table_ok s" and n: "users_of s fd = None" and a: "allset s = insert (sel_listen s) (dom (users_of s))"
    and l: "users_of s (sel_listen s) = None" and m: "\<And>g. g \<in> allset s \<Longrightarrow> g \<le> sel_maxfd s"
    and mi: "- 1 \<le> sel_maxi s" "sel_maxi s < int (length (client s))"
      "\<And>i. i < length (client s) \<Longrightarrow> cl_fd (client s ! i) \<noteq> - 1 \<Longrightarrow> int i \<le> sel_maxi s"
    using assms(1,3) by (auto simp: sel_inv_def)
  obtain i s1 where c: "client_add fd uid s = Inr (i, s1)" using assms(4) by (auto simp: sel_accept_def andthen_Inr_iff)
  obtain es where es: "s1 = s\<lparr>client := es\<rparr>" "took i fd (client s) es" "table_ok s1" "users_of s1 = (users_of s)(fd \<mapsto> uid)"
    using add_ok [OF t assms(2) n c] by blast
  define mf where "mf = (if fd > sel_maxfd s then fd else sel_maxfd s)"
  define mx where "mx = (if int i > sel_maxi s then int i else sel_maxi s)"
  have s': "s' = logging (Log_new uid fd) (s\<lparr>client := es, allset := insert fd (allset s), sel_maxfd := mf, sel_maxi := mx\<rparr>)"
    using assms(4) c es(1) by (auto simp: sel_accept_def andthen_Inr_iff Let_def mf_def mx_def split: if_splits)
  have u: "users_of s' = (users_of s)(fd \<mapsto> uid)" "table_ok s'" using es s' by (simp_all add: users_of_def table_ok_def logging_def)
  have "int j \<le> mx" if "j < length es" "cl_fd (es ! j) \<noteq> - 1" for j
    using mi(3) [of j] es(2) that by (cases "j = i") (auto simp: took_def mx_def)
  moreover have "- 1 \<le> mx" "mx < int (length es)" using mi es(2) by (auto simp: mx_def took_def)
  moreover have "\<forall>g \<in> insert fd (allset s). g \<le> mf" using m by (force simp: mf_def)
  moreover have "users_of s' (sel_listen s) = None" using u(1) l a assms(3) by auto
  moreover have "insert fd (allset s) = insert (sel_listen s) (dom (users_of s'))" using a u(1) by auto
  ultimately have "sel_inv s'" using u(2) unfolding sel_inv_def s' by (simp add: logging_def)
  then show ?thesis using u(1) s' by (simp add: logging_def ost.truncate_def)
qed

lemma ready_all:
  fixes rset :: "int \<Rightarrow> bool"
  assumes "sel_inv s"
  defines "ps \<equiv> ready_conns rset [0..<nat (sel_maxi s + 1)] (client s)"
  shows "set ps = {(fd, u). users_of s fd = Some u \<and> rset fd}" "distinct (map fst ps)"
proof -
  let ?is = "[0..<nat (sel_maxi s + 1)]" and ?ps = "ready_conns rset [0..<nat (sel_maxi s + 1)] (client s)"
  have t: "table_ok s" and mi: "sel_maxi s < int (length (client s))"
    "\<And>i. i < length (client s) \<Longrightarrow> cl_fd (client s ! i) \<noteq> - 1 \<Longrightarrow> int i \<le> sel_maxi s"
    using assms(1) by (auto simp: sel_inv_def)
  show "set ps = {(fd, u). users_of s fd = Some u \<and> rset fd}"
    unfolding ps_def
  proof (rule set_eqI, clarify)
    fix fd u
    have "(fd, u) \<in> set ?ps \<longleftrightarrow> (\<exists>i < length (client s). int i \<le> sel_maxi s \<and> 0 \<le> fd \<and> rset fd \<and> client s ! i = \<lparr>cl_fd = fd, cl_uid = u\<rparr>)"
    proof
      assume "(fd, u) \<in> set ?ps"
      then obtain i where "i < nat (sel_maxi s + 1)" "fd = cl_fd (client s ! i)" "u = cl_uid (client s ! i)" "0 \<le> fd" "rset fd"
        by (auto simp: ready_conns_def)
      then show "\<exists>i < length (client s). int i \<le> sel_maxi s \<and> 0 \<le> fd \<and> rset fd \<and> client s ! i = \<lparr>cl_fd = fd, cl_uid = u\<rparr>"
        using mi(1) by (intro exI [of _ i]) auto
    next
      assume "\<exists>i < length (client s). int i \<le> sel_maxi s \<and> 0 \<le> fd \<and> rset fd \<and> client s ! i = \<lparr>cl_fd = fd, cl_uid = u\<rparr>"
      then obtain i where "int i \<le> sel_maxi s" "0 \<le> fd" "rset fd" "client s ! i = \<lparr>cl_fd = fd, cl_uid = u\<rparr>" by blast
      then show "(fd, u) \<in> set ?ps" by (auto simp: ready_conns_def image_iff intro!: exI [of _ i])
    qed
    also have "\<dots> \<longleftrightarrow> users_of s fd = Some u \<and> rset fd"
      using t mi(2) conns_iff [of "client s" fd u] by (fastforce simp: table_ok_def users_of_def)
    finally show "(fd, u) \<in> set ?ps \<longleftrightarrow> (fd, u) \<in> {(fd, u). users_of s fd = Some u \<and> rset fd}" by simp
  qed
  have "inj_on (\<lambda>i. cl_fd (client s ! i)) (set (filter (\<lambda>i. \<not> cl_fd (client s ! i) < 0 \<and> rset (cl_fd (client s ! i))) ?is))"
    using entries_okD(2) [of "client s"] t mi(1) by (intro inj_onI) (auto simp: table_ok_def)
  then show "distinct (map fst ps)" by (simp add: ps_def ready_conns_def distinct_map comp_def)
qed

lemma served_inv:
  assumes "sel_inv s" "served K I s s'" "sel_listen s \<in> K"
  shows "sel_inv s'"
proof -
  have a: "allset s = insert (sel_listen s) (dom (users_of s))" using assms(1) by (simp add: sel_inv_def)
  have "dom (users_of s') = dom (users_of s) \<inter> K" using assms(2) by (simp add: served_def)
  then have "allset s' = insert (sel_listen s') (dom (users_of s'))" using assms(2,3) a by (auto simp: served_def)
  moreover have "users_of s' (sel_listen s') = None" using assms(1,2) by (simp add: served_def sel_inv_def restrict_map_def)
  moreover have "allset s' \<subseteq> allset s" using assms(2) by (auto simp: served_def)
  ultimately show ?thesis using assms(1,2) unfolding sel_inv_def served_def by auto
qed

lemma scan_round_ok:
  assumes "sel_inv s" "\<not> rset (sel_listen s)" "sel_scan os rset rdf [0..<nat (sel_maxi s + 1)] s = Inr s'"
  shows "sel_inv s' \<and> server_step os (users_of s, ost.truncate s) (users_of s', ost.truncate s')"
proof -
  let ?is = "[0..<nat (sel_maxi s + 1)]"
  have t: "table_ok s" and mi: "sel_maxi s < int (length (client s))" using assms(1) by (auto simp: sel_inv_def)
  have "\<forall>i \<in> set ?is. i < length (client s)" using mi by auto
  note sc = scan_ok [OF t distinct_upt this, where os = os and rset = rset and rdf = rdf]
  let ?ps = "ready_conns rset ?is (client s)"
  note set_ps = ready_all(1) [OF assms(1), of rset] and d = ready_all(2) [OF assms(1), of rset]
  have sv: "served {g. g \<in> fst ` set ?ps \<longrightarrow> rdf g \<noteq> Read_eof} (set ?is) s s'"
    using conjunct2 [OF sc] assms(3) by blast
  have tr: "serve_all os rdf ?ps (ost.truncate s) = Inr (ost.truncate s')" using conjunct1 [OF sc] unfolding assms(3) by simp
  have K: "users_of s |` {g. g \<in> fst ` set ?ps \<longrightarrow> rdf g \<noteq> Read_eof} = users_of s |` {fd. rset fd \<longrightarrow> rdf fd \<noteq> Read_eof}"
    (is "?l = ?r")
  proof
    fix x show "?l x = ?r x" unfolding set_ps by (cases "users_of s x") (auto simp: restrict_map_def image_iff)
  qed
  have "sel_listen s \<notin> fst ` set ?ps" using set_ps assms(2) by auto
  then have "sel_inv s'" by (intro served_inv [OF assms(1) sv]) simp
  moreover have "server_step os (users_of s, ost.truncate s) (users_of s', ost.truncate s')"
    using server_step.serve [OF d set_ps tr] sv K by (simp add: served_def)
  ultimately show ?thesis by simp
qed

lemma start_inv: "sel_start fd limit junk = Inr s \<Longrightarrow> sel_inv s \<and> users_of s = Map.empty"
  by (auto simp: sel_start_def sel_inv_def table_ok_def users_of_def entries_ok_def conns_def fun_eq_iff split: if_splits)

lemma round_ok:
  assumes "sel_inv s" "\<And>fd uid. conn = Some (fd, uid) \<Longrightarrow> 0 \<le> fd \<and> fd \<notin> allset s" "sel_round os (Some rset) conn rdf s = Inr s'"
  shows "sel_inv s' \<and> server_step os (users_of s, ost.truncate s) (users_of s', ost.truncate s')"
proof (cases "rset (sel_listen s)")
  case True
  then obtain fd uid where c: "conn = Some (fd, uid)" "sel_accept (Some (fd, uid)) s = Inr s'"
    using assms(3) by (cases conn) (auto simp: sel_round_def sel_accept_def)
  then have f: "0 \<le> fd" "fd \<notin> allset s" using assms(2) by auto
  then have "users_of s fd = None" using assms(1) by (auto simp: sel_inv_def)
  then show ?thesis using accept_ok [OF assms(1) f c(2)] server_step.accept by auto
next
  case False
  then show ?thesis using scan_round_ok [of s rset os rdf s'] assms(1,3) by (simp add: sel_round_def)
qed

definition ost0 :: ost where
  "ost0 = \<lparr>errmsg = [], pathname = [], o_flag = 0, replies = [], logs = [], closed = []\<rparr>"

lemma reach_ok: "sel_reach os s \<Longrightarrow> sel_inv s \<and> (server_step os)\<^sup>*\<^sup>* (Map.empty, ost0) (users_of s, ost.truncate s)"
proof (induction rule: sel_reach.induct)
  case (start fd limit junk s)
  then show ?case using start_inv [OF start] by (auto simp: sel_start_def ost.truncate_def ost0_def split: if_splits)
next
  case (round s rset conn rdf s')
  then show ?case using round_ok [of s conn os rset rdf s'] by (meson rtranclp.rtrancl_into_rtrancl)
qed

text \<open>When a round fails.  Serving fails with a read that fails, or when a descriptor cannot be sent.\<close>

definition cannot_send :: "opend_os \<Rightarrow> int \<Rightarrow> read_result \<Rightarrow> bool" where
  "cannot_send os fd r \<longleftrightarrow> (\<exists>buf path fl newfd. r = Read_data buf \<and> last buf = NUL \<and> os_openf os path fl = Inr newfd \<and> \<not> os_send os fd newfd)"

lemma handle_errors: "handle_request os buf fd uid s = Inl e \<Longrightarrow> e = Olog_sys ''send_fd error'' \<and> cannot_send os fd (Read_data buf)"
  by (auto simp: handle_request_def cannot_send_def Let_def split: if_splits option.splits sum.splits prod.splits)

lemma serve_errors:
  "serve_all os rdf ps o' = Inl e \<Longrightarrow> \<exists>fd \<in> fst ` set ps. e = Olog_sys ''read error'' \<and> rdf fd = Read_error \<or> e = Olog_sys ''send_fd error'' \<and> cannot_send os fd (rdf fd)"
proof (induction ps arbitrary: o')
  case (Cons p ps)
  obtain fd u where p: "p = (fd, u)" by (cases p)
  show ?case
  proof (cases "rdf fd")
    case (Read_data buf)
    then show ?thesis using Cons p handle_errors [of os buf fd u o' e] by (fastforce simp: andthen_Inl_iff)
  qed (use Cons p in auto)
qed simp

lemma find_free_grown: "find_fd (- 1) (es @ replicate (Suc n) \<lparr>cl_fd = - 1, cl_uid = u\<rparr>) \<noteq> None"
  by (induction es) simp_all

lemma add_errors:
  assumes "client_add fd uid s = Inl e"
  shows "cl_limit s < length (client s) + NALLOC"
proof (rule ccontr)
  assume "\<not> cl_limit s < length (client s) + NALLOC"
  then have a: "client_alloc s = Inr (s\<lparr>client := client s @ replicate NALLOC \<lparr>cl_fd = - 1, cl_uid = cl_junk s\<rparr>\<rparr>)" by (simp add: client_alloc_def)
  have "client_search fd uid (s\<lparr>client := client s @ replicate NALLOC \<lparr>cl_fd = - 1, cl_uid = cl_junk s\<rparr>\<rparr>) \<noteq> Inl e"
    using find_free_grown [of "client s" 9 "cl_junk s"] by (subst client_search.simps) (auto split: option.split)
  then show False using assms unfolding client_add_search by (subst (asm) client_search.simps) (auto simp: a split: option.splits)
qed

lemma accept_errors: "sel_accept (Some (fd, uid)) s = Inl e \<Longrightarrow> cl_limit s < length (client s) + NALLOC \<or> FD_SETSIZE \<le> fd"
  using add_errors [of fd uid s e] by (auto simp: sel_accept_def andthen_Inl_iff Let_def split: if_splits)

section \<open>Properties\<close>

text \<open>C10: The open server with \<^verbatim>\<open>select\<close>, in every state it can reach, has done what a server does that
  keeps a map from connections to users: each round accepts one connection or serves every
  ready connection once, on behalf of the user it was accepted for, and drops those that are
  closed.  It watches the connections of the map.  And it goes on: a round that serves fails only when a read from a ready connection fails, or when a
  descriptor that was opened for one cannot be sent; a round that accepts fails only for lack of memory or with a descriptor that does not fit the set.\<close>

theorem opend_select_refines:
  assumes "sel_reach os s"
  shows "(server_step os)\<^sup>*\<^sup>* (Map.empty, ost0) (users_of s, ost.truncate s) \<and>
    allset s = insert (sel_listen s) (dom (users_of s)) \<and>
    (\<forall>rset conn rdf e. \<not> rset (sel_listen s) \<longrightarrow> sel_round os (Some rset) conn rdf s = Inl e \<longrightarrow>
      (\<exists>fd \<in> dom (users_of s). rset fd \<and>
        (e = Olog_sys ''read error'' \<and> rdf fd = Read_error \<or> e = Olog_sys ''send_fd error'' \<and> cannot_send os fd (rdf fd)))) \<and>
    (\<forall>rset fd uid rdf e. rset (sel_listen s) \<longrightarrow> sel_round os (Some rset) (Some (fd, uid)) rdf s = Inl e \<longrightarrow>
      cl_limit s < length (client s) + NALLOC \<or> FD_SETSIZE \<le> fd)"
proof -
  have i: "sel_inv s" and r: "(server_step os)\<^sup>*\<^sup>* (Map.empty, ost0) (users_of s, ost.truncate s)"
    using reach_ok [OF assms] by simp_all
  have t: "table_ok s" "\<forall>j \<in> set [0..<nat (sel_maxi s + 1)]. j < length (client s)" using i by (auto simp: sel_inv_def)
  have "\<exists>fd \<in> dom (users_of s). rset fd \<and>
      (e = Olog_sys ''read error'' \<and> rdf fd = Read_error \<or> e = Olog_sys ''send_fd error'' \<and> cannot_send os fd (rdf fd))"
    if "\<not> rset (sel_listen s)" "sel_round os (Some rset) conn rdf s = Inl e" for rset conn rdf e
  proof -
    let ?is = "[0..<nat (sel_maxi s + 1)]"
    have "sel_scan os rset rdf ?is s = Inl e" using that by (simp add: sel_round_def)
    then have "serve_all os rdf (ready_conns rset ?is (client s)) (ost.truncate s) = Inl e"
      using scan_ok [OF t(1) distinct_upt t(2), of os rset rdf] by (metis id_apply map_sum.simps(1))
    from serve_errors [OF this] show ?thesis unfolding ready_all(1) [OF i, of rset] by fastforce
  qed
  moreover have "cl_limit s < length (client s) + NALLOC \<or> FD_SETSIZE \<le> fd"
    if "rset (sel_listen s)" "sel_round os (Some rset) (Some (fd, uid)) rdf s = Inl e" for rset fd uid rdf e
    using that accept_errors [of fd uid s e] by (simp add: sel_round_def)
  ultimately show ?thesis using i r unfolding sel_inv_def by blast
qed

text \<open>A server that listens on the descriptor 3, with a client of the user 100, which sends a request.\<close>

definition demo_os :: opend_os where
  "demo_os = \<lparr>os_argv = (\<lambda>_. Some [''open'', ''f'', ''0'']), os_openf = (\<lambda>_ _. Inr 9), os_send = (\<lambda>_ _. True)\<rparr>"

definition demo_sel :: sel where
  "demo_sel = \<lparr>errmsg = [], pathname = [], o_flag = 0, replies = [], logs = [Log_new 100 5], closed = [],
     client = \<lparr>cl_fd = 5, cl_uid = 100\<rparr> # replicate 9 \<lparr>cl_fd = - 1, cl_uid = 0\<rparr>, cl_limit = 20, cl_junk = 0,
     allset = {5, 3}, sel_maxfd = 5, sel_maxi = 0, sel_listen = 3\<rparr>"

lemma demo_accept:
  "andthen (sel_start 3 20 0) (sel_round demo_os (Some (\<lambda>fd. fd = 3)) (Some (5, 100)) (\<lambda>_. Read_eof)) = Inr demo_sel"
  by (simp add: sel_start_def sel_round_def sel_accept_def client_add_def client_alloc_def client_search.simps
      logging_def demo_sel_def numeral_eq_Suc)

lemma demo_reach_sel: "sel_reach demo_os demo_sel"
proof -
  obtain s0 where s0: "sel_start 3 20 0 = Inr s0" "sel_round demo_os (Some (\<lambda>fd. fd = 3)) (Some (5, 100)) (\<lambda>_. Read_eof) s0 = Inr demo_sel"
    using demo_accept by (auto simp: andthen_Inr_iff)
  moreover have "allset s0 = {3}" using s0(1) by (auto simp: sel_start_def)
  ultimately show ?thesis using sel_reach.round [OF sel_reach.start [OF s0(1)] _ _ s0(2)] by auto
qed

theorem opend_select_refines_witness:
  "(server_step demo_os)\<^sup>*\<^sup>* (Map.empty, ost0) ([5 \<mapsto> 100], ost.truncate demo_sel) \<and> allset demo_sel = {3, 5} \<and>
   (\<exists>s'. sel_round demo_os (Some (\<lambda>fd. fd = 5)) None (\<lambda>_. Read_eof) demo_sel = Inr s')"
proof -
  have "users_of demo_sel fd = [5 \<mapsto> 100] fd" for fd
    by (auto simp: users_of_def conns_def demo_sel_def numeral_eq_Suc)
  then have u: "users_of demo_sel = [5 \<mapsto> 100]" by blast
  note w = opend_select_refines [OF demo_reach_sel]
  have l: "\<not> (\<lambda>fd. fd = 5) (sel_listen demo_sel)" by (simp add: demo_sel_def)
  have n: "\<not> (e = Olog_sys ''read error'' \<and> Read_eof = Read_error \<or> e = Olog_sys ''send_fd error'' \<and> cannot_send demo_os fd Read_eof)" for e fd
    by (simp add: cannot_send_def)
  have "sel_round demo_os (Some (\<lambda>fd. fd = 5)) None (\<lambda>_. Read_eof) demo_sel \<noteq> Inl e" for e
  proof
    assume "sel_round demo_os (Some (\<lambda>fd. fd = 5)) None (\<lambda>_. Read_eof) demo_sel = Inl e"
    with l spec [OF conjunct1 [OF conjunct2 [OF conjunct2 [OF w]]], where x = "\<lambda>fd. fd = 5"]
    obtain fd where "e = Olog_sys ''read error'' \<and> Read_eof = Read_error \<or> e = Olog_sys ''send_fd error'' \<and> cannot_send demo_os fd Read_eof" by blast
    then show False using n by blast
  qed
  then have "\<exists>s'. sel_round demo_os (Some (\<lambda>fd. fd = 5)) None (\<lambda>_. Read_eof) demo_sel = Inr s'"
    by (cases "sel_round demo_os (Some (\<lambda>fd. fd = 5)) None (\<lambda>_. Read_eof) demo_sel") auto
  then show ?thesis using w u by (auto simp: demo_sel_def)
qed

section \<open>The poll loop\<close>

text \<open>Two clients connect, of the users \<open>u1\<close> and \<open>u2\<close>; the first one leaves, and its place in the array
  of \<^verbatim>\<open>poll\<close> is taken by the second, whose request is then handled as one of the user \<open>u1\<close>: the index
  into the one array is used for the other.\<close>

definition poll_story :: "opend_os \<Rightarrow> int \<Rightarrow> int \<Rightarrow> opend_error + pol" where
  "poll_story os u1 u2 =
     andthen (pol_start 3 20 0) (\<lambda>s.
     andthen (pol_round os (Some (\<lambda>fd. (fd = 3, False))) (Some (5, u1)) (\<lambda>_. Read_eof) s) (\<lambda>s.
     andthen (pol_round os (Some (\<lambda>fd. (fd = 3, False))) (Some (6, u2)) (\<lambda>_. Read_eof) s) (\<lambda>s.
     andthen (pol_round os (Some (\<lambda>fd. (False, fd = 5))) None (\<lambda>_. Read_eof) s) (\<lambda>s.
     pol_round os (Some (\<lambda>fd. (fd = 6, False))) None (\<lambda>_. Read_data [CHR ''x'', NUL]) s))))"

lemmas poll_defs = pol_start_def pol_round_def pol_accept_def pol_scan.simps pol_entry_def pol_hungup_def client_add_def
  client_alloc_def client_search.simps client_del_def logging_def handle_request_def buf_args_def cli_args_def refuse_def replying_def cstr_def Let_def

lemma poll_wrong_user:
  "\<exists>s. poll_story demo_os u1 u2 = Inr s \<and>
    logs s = [Log_new u1 5, Log_new u2 6, Log_closed u1 5, Log_request ''x'' u1, Log_sent 9 6 ''f''] \<and> users_of s 6 = Some u2"
  by (simp add: poll_story_def poll_defs users_of_def conns_def demo_os_def numeral_eq_Suc)

end
