(* ===== verification/Fd_Passing.thy ===== *)
theory Fd_Passing
  imports Opend_Props
begin

text \<open>
  Passing descriptors and errors over a Unix domain socket, \<^verbatim>\<open>apue.3e/ipc2/sendfd2.c\<close> and \<^verbatim>\<open>recvfd2.c\<close>, and the client
  \<^verbatim>\<open>csopen\<close> of the open server (\<^verbatim>\<open>ipc2/open/open.c\<close>, \<^verbatim>\<open>ipc2/open.fe/open.c\<close>).  The protocol: any text, then a null byte and a
  status byte; with the status 0 comes a descriptor and the credentials of the sender.
\<close>

section \<open>Sending\<close>

text \<open>A message: two bytes and, with a descriptor, the control data (descriptor and user).\<close>

record fdmsg =
  m_buf :: cbuf
  m_ctl :: "(int \<times> int) option"

definition to_char :: "int \<Rightarrow> char" where
  "to_char i = char_of (nat (i mod 256))"

text \<open>\<open>mem\<close>: the control buffer can be allocated; \<open>sent\<close>: what \<^verbatim>\<open>sendmsg\<close> returns.\<close>

definition send_msg :: "int \<Rightarrow> int \<Rightarrow> fdmsg" where
  "send_msg uid fd_to_send =
     (if fd_to_send < 0 then
        let status = to_char (- fd_to_send)
        in \<lparr>m_buf = [NUL, if status = NUL then CHR 0x01 else status], m_ctl = None\<rparr>
      else \<lparr>m_buf = [NUL, NUL], m_ctl = Some (fd_to_send, uid)\<rparr>)"

definition send_fd :: "bool \<Rightarrow> (fdmsg \<Rightarrow> int) \<Rightarrow> int \<Rightarrow> int \<Rightarrow> int \<times> fdmsg option" where
  "send_fd mem sendmsg uid fd_to_send =
     (if 0 \<le> fd_to_send \<and> \<not> mem then (- 1, None)
      else let msg = send_msg uid fd_to_send
           in if sendmsg msg \<noteq> 2 then (- 1, None) else (0, Some msg))"

section \<open>Receiving\<close>

text \<open>What one call of \<^verbatim>\<open>recvmsg\<close> returns: an error, or at most \<^verbatim>\<open>MAXLINE\<close> bytes (none when the connection is closed) and
  the control data that came with them, with the descriptor as it is numbered here.\<close>

datatype recvd = R_err | R_msg cbuf "(int \<times> int) option"

datatype dump = Message_format | No_fd

text \<open>The loop over the buffer: nothing up to the first null byte, which must be the last byte but one.  The result is
  the length without the two bytes, and the status with the new descriptor and the user when they have come.\<close>

definition scan_buf :: "cbuf \<Rightarrow> (int \<times> int) option \<Rightarrow> dump + (nat \<times> (int \<times> int option) option)" where
  "scan_buf buf ctl =
     (let k = length (takeWhile (\<lambda>c. c \<noteq> NUL) buf); nr = length buf in
      if k = nr then Inr (nr, None)
      else if k + 1 \<noteq> nr - 1 then Inl Message_format
      else let status = int (of_char (buf ! (nr - 1))) in
           if status = 0 then
             (case ctl of None \<Rightarrow> Inl No_fd | Some (fd, uid) \<Rightarrow> Inr (nr - 2, Some (fd, Some uid)))
           else Inr (nr - 2, Some (- status, None)))"

text \<open>\<open>wr\<close> is the user's function; \<open>out\<close> what it has been given.  The result: the value returned, the user, what was given to the
  function, and the calls of \<^verbatim>\<open>recvmsg\<close> that are left.\<close>

fun recv_ufd :: "(cbuf \<Rightarrow> int) \<Rightarrow> cbuf \<Rightarrow> recvd list \<Rightarrow> dump + (int \<times> int option \<times> cbuf \<times> recvd list)" where
  "recv_ufd wr out [] = Inr (- 1, None, out, [])"
| "recv_ufd wr out (R_err # rs) = Inr (- 1, None, out, rs)"
| "recv_ufd wr out (R_msg buf ctl # rs) =
     (if buf = [] then Inr (- 1, None, out, rs)
      else andthen (scan_buf buf ctl) (\<lambda>(nr, final).
        let text_part = take nr buf; uid = (case final of None \<Rightarrow> None | Some (fd, u) \<Rightarrow> u) in
        if nr > 0 \<and> wr text_part \<noteq> int nr then Inr (- 1, uid, out @ text_part, rs)
        else (case final of
                Some (newfd, uid) \<Rightarrow> Inr (newfd, uid, out @ text_part, rs)
              | None \<Rightarrow> recv_ufd wr (out @ text_part) rs)))"

text \<open>What comes before the loop: the option for credentials, and the control buffer, which is allocated in the first round of the first call
  (\<open>mem\<close>: it has been, or the allocation succeeds).\<close>

definition recv_ufd_call :: "bool \<Rightarrow> bool \<Rightarrow> (cbuf \<Rightarrow> int) \<Rightarrow> recvd list \<Rightarrow> dump + (int \<times> int option \<times> cbuf \<times> recvd list)" where
  "recv_ufd_call sockopt mem wr rs =
     (if \<not> sockopt then Inr (- 1, None, [], rs)
      else if \<not> mem then Inr (- 1, None, [], rs)
      else recv_ufd wr [] rs)"

section \<open>The client of the open server\<close>

datatype cs_fault = Buf_overflow | Recv_dump dump

text \<open>\<open>bufsz\<close> is the size of the array \<^verbatim>\<open>buf\<close> for \<^verbatim>\<open>oflag\<close>: 12, or 10 in \<^verbatim>\<open>open.fe\<close>.\<close>

definition cs_request :: "nat \<Rightarrow> string \<Rightarrow> int \<Rightarrow> cs_fault + cbuf" where
  "cs_request bufsz name oflag =
     (let buf = '' '' @ sdec oflag in
      if length buf + 1 > bufsz then Inl Buf_overflow
      else Inr (''open '' @ name @ buf @ [NUL]))"

text \<open>\<open>recv\<close> is the call of \<^verbatim>\<open>recv_fd\<close>: a descriptor and what else it reports.\<close>

definition csopen :: "nat \<Rightarrow> bool \<Rightarrow> (cbuf \<Rightarrow> int) \<Rightarrow> dump + (int \<times> 'a) \<Rightarrow> string \<Rightarrow> int \<Rightarrow> cs_fault + (int \<times> 'a option)" where
  "csopen bufsz connected writev recv name oflag =
     (if \<not> connected then Inr (- 1, None)
      else andthen (cs_request bufsz name oflag) (\<lambda>req.
        if writev req \<noteq> int (length req) then Inr (- 1, None)
        else (case recv of Inl d \<Rightarrow> Inl (Recv_dump d) | Inr (fd, x) \<Rightarrow> Inr (fd, Some x))))"

section \<open>The round trip\<close>

text \<open>The status as it arrives.\<close>

definition sent_status :: "int \<Rightarrow> int" where
  "sent_status fd = (if - fd mod 256 = 0 then 1 else - fd mod 256)"

lemma of_char_to_char: "int (of_char (to_char i)) = i mod 256"
proof -
  have "nat (i mod 256) < 256" by (simp add: nat_less_iff)
  then show ?thesis by (simp add: to_char_def)
qed

lemma of_char_0: "int (of_char c) = 0 \<longleftrightarrow> c = NUL"
proof -
  have "int (of_char c) = 0 \<longleftrightarrow> (of_char c :: nat) = of_char NUL" by simp
  then show ?thesis by (simp only: of_char_eq_iff)
qed

lemma to_char_NUL: "to_char i = NUL \<longleftrightarrow> i mod 256 = 0"
  using of_char_0 [of "to_char i"] by (simp only: of_char_to_char)

lemma scan_text: "c_string t \<Longrightarrow> scan_buf t ctl = Inr (length t, None)"
proof -
  assume "c_string t"
  then have "takeWhile (\<lambda>c. c \<noteq> NUL) t = t" by (auto simp: c_string_def takeWhile_eq_all_conv)
  then show ?thesis unfolding scan_buf_def Let_def by (simp only: if_True refl)
qed

lemma scan_final:
  assumes "c_string t"
  shows "scan_buf (t @ [NUL, c]) ctl =
    (if c = NUL then (case ctl of None \<Rightarrow> Inl No_fd | Some (fd, uid) \<Rightarrow> Inr (length t, Some (fd, Some uid)))
     else Inr (length t, Some (- int (of_char c), None)))"
proof -
  have "takeWhile (\<lambda>c. c \<noteq> NUL) (t @ NUL # cs) = t" for cs
    using assms by (subst takeWhile_append2) (auto simp: c_string_def)
  then have tw: "takeWhile (\<lambda>c. c \<noteq> NUL) (t @ [NUL, c]) = t" .
  have n: "(t @ [NUL, c]) ! (length (t @ [NUL, c]) - 1) = c" "length (t @ [NUL, c]) - 2 = length t" by (simp_all add: nth_append)
  show ?thesis unfolding scan_buf_def Let_def tw n of_char_0 by simp
qed

text \<open>The message of \<^verbatim>\<open>send_fd\<close> as it arrives behind some text.\<close>

lemma scan_sent:
  assumes "c_string t"
  shows "scan_buf (t @ m_buf (send_msg uid fd)) (map_option (map_prod num id) (m_ctl (send_msg uid fd))) =
    Inr (length t, Some (if 0 \<le> fd then (num fd, Some uid) else (- sent_status fd, None)))"
proof (cases "fd < 0")
  case True
  then show ?thesis using of_char_to_char [of "- fd"] to_char_NUL [of "- fd"]
    by (auto simp: send_msg_def Let_def scan_final [OF assms] sent_status_def)
next
  case False
  then show ?thesis by (simp add: send_msg_def scan_final [OF assms])
qed

definition accepts :: "(cbuf \<Rightarrow> int) \<Rightarrow> bool" where
  "accepts wr \<longleftrightarrow> (\<forall>bs. wr bs = int (length bs))"

lemma acceptsD: "accepts wr \<Longrightarrow> wr bs = int (length bs)"
  by (simp add: accepts_def)

lemma recv_text:
  assumes "accepts wr" "\<And>seg. seg \<in> set segs \<Longrightarrow> seg \<noteq> [] \<and> c_string seg"
  shows "recv_ufd wr out (map (\<lambda>seg. R_msg seg None) segs @ rs) = recv_ufd wr (out @ concat segs) rs"
  using assms(2)
proof (induction segs arbitrary: out)
  case (Cons seg segs)
  then have "seg \<noteq> []" "c_string seg" by auto
  then show ?case using Cons.IH [of "out @ seg"] Cons.prems by (simp add: scan_text acceptsD [OF assms(1)])
qed simp

lemma recv_final:
  assumes "accepts wr" "c_string t"
  shows "recv_ufd wr out (R_msg (t @ m_buf (send_msg uid fd)) (map_option (map_prod num id) (m_ctl (send_msg uid fd))) # rs) =
    Inr (if 0 \<le> fd then num fd else - sent_status fd, if 0 \<le> fd then Some uid else None, out @ t, rs)"
proof -
  have "m_buf (send_msg uid fd) \<noteq> []" by (simp add: send_msg_def Let_def)
  then show ?thesis using scan_sent [OF assms(2), of uid fd num] by (cases "0 \<le> fd") (simp_all add: acceptsD [OF assms(1)])
qed

text \<open>What a connection delivers that has the text \<open>t\<close> and then the message of \<^verbatim>\<open>send_fd\<close>: the text in any pieces,
  the last of which may come with the message.  The system numbers descriptors anew for the receiver (\<open>num\<close>).\<close>

definition delivers :: "(int \<Rightarrow> int) \<Rightarrow> string \<Rightarrow> fdmsg \<Rightarrow> recvd list \<Rightarrow> recvd list \<Rightarrow> bool" where
  "delivers num t m rs rest \<longleftrightarrow> (\<exists>segs last. concat segs @ last = t \<and> [] \<notin> set segs \<and>
     rs = map (\<lambda>seg. R_msg seg None) segs @ R_msg (last @ m_buf m) (map_option (map_prod num id) (m_ctl m)) # rest)"

lemma fd_roundtrip_value:
  assumes "accepts wr" "c_string t" "send_fd mem sendmsg uid fd = (0, Some m)" "delivers num t m rs rest"
  shows "recv_ufd wr [] rs = Inr (if 0 \<le> fd then num fd else - sent_status fd, if 0 \<le> fd then Some uid else None, t, rest)"
proof -
  have m: "m = send_msg uid fd" using assms(3) by (auto simp: send_fd_def Let_def split: if_splits)
  obtain segs last where s: "concat segs @ last = t" "[] \<notin> set segs"
    "rs = map (\<lambda>seg. R_msg seg None) segs @ R_msg (last @ m_buf m) (map_option (map_prod num id) (m_ctl m)) # rest"
    using assms(4) by (auto simp: delivers_def)
  have c: "seg \<noteq> [] \<and> c_string seg" if "seg \<in> set segs" for seg using assms(2) s(1,2) that by (auto simp: c_string_def)
  have "c_string last" using assms(2) s(1) by (auto simp: c_string_def)
  then show ?thesis unfolding s(3) m by (simp only: recv_text [OF assms(1) c] recv_final [OF assms(1)] append_Nil s(1))
qed

text \<open>The same for the whole call; when the option cannot be set or there is no memory it returns -1 and leaves the message on the connection.\<close>

lemma fd_call_roundtrip:
  assumes "accepts wr" "c_string t" "send_fd mem sendmsg uid fd = (0, Some m)" "delivers num t m rs rest"
  shows "recv_ufd_call sockopt mem' wr rs =
    (if sockopt \<and> mem' then Inr (if 0 \<le> fd then num fd else - sent_status fd, if 0 \<le> fd then Some uid else None, t, rest) else Inr (- 1, None, [], rs))"
  using fd_roundtrip_value [OF assms] by (simp add: recv_ufd_call_def)

text \<open>What \<^verbatim>\<open>csopen\<close> sends is what the server takes it for.\<close>

lemma cs_request_parsed:
  assumes req: "cs_request bufsz name oflag = Inr req"
  shows "last req = NUL"
    and "c_string name \<Longrightarrow> 0 \<le> oflag \<Longrightarrow> oflag < 2 ^ 31 \<Longrightarrow>
      os_argv os (''open '' @ name @ '' '' @ sdec oflag) = Some [''open'', name, sdec oflag] \<Longrightarrow>
      buf_args os (cstr req) u = (True, u\<lparr>pathname := name, o_flag := oflag\<rparr>)"
proof -
  have r: "req = ''open '' @ name @ '' '' @ sdec oflag @ [NUL]" using req by (auto simp: cs_request_def Let_def split: if_splits)
  then show "last req = NUL" by simp
  assume path: "c_string name" "0 \<le> oflag" "oflag < 2 ^ 31"
    and argv: "os_argv os (''open '' @ name @ '' '' @ sdec oflag) = Some [''open'', name, sdec oflag]"
  have d: "sdec oflag = dec (nat oflag)" using path(2) by (simp add: sdec_def)
  have "c_string (''open '' @ name @ '' '' @ sdec oflag)" using path(1) c_string_dec [of "nat oflag"] unfolding d by (simp add: c_string_append c_string_def)
  then have c: "cstr req = ''open '' @ name @ '' '' @ sdec oflag" using cstr_append_NUL [of "''open '' @ name @ '' '' @ sdec oflag" "[]"] r by simp
  have "sint (word_of_int oflag :: 32 word) = oflag" using path(2,3) by (simp add: int_word_sint)
  then show "buf_args os (cstr req) u = (True, u\<lparr>pathname := name, o_flag := oflag\<rparr>)"
    using argv atol_dec [of "[]" "nat oflag"] path(2) unfolding c d by (simp add: buf_args_def cli_args_def)
qed

section \<open>Properties\<close>

text \<open>C11: What \<^verbatim>\<open>send_fd\<close> sends after a text, \<^verbatim>\<open>recv_ufd\<close> receives, however the text is cut up: a descriptor with the user of the
  sender, or an error number, which is the same for -1 to -255 and is never 0; the text goes to the user's
  function, and what follows on the connection is left there.\<close>

theorem fd_passing_roundtrip:
  assumes "accepts wr" "c_string t" "send_fd mem sendmsg uid fd = (0, Some m)" "delivers num t m rs rest"
  shows "recv_ufd wr [] rs = Inr (if 0 \<le> fd then num fd else - sent_status fd, if 0 \<le> fd then Some uid else None, t, rest) \<and>
    (fd < 0 \<longrightarrow> 0 < sent_status fd \<and> sent_status fd < 256) \<and> (- 256 < fd \<and> fd < 0 \<longrightarrow> - sent_status fd = fd)"
proof -
  have "sent_status fd = - fd" if "- 256 < fd \<and> fd < 0" using that by (simp add: sent_status_def)
  then show ?thesis using fd_roundtrip_value [OF assms] by (auto simp: sent_status_def)
qed

theorem fd_passing_roundtrip_witness:
  "recv_ufd (\<lambda>b. int (length b)) [] [R_msg ''no '' None, R_msg (''file'' @ [NUL, CHR 0x02]) None] = Inr (- 2, None, ''no file'', [])"
proof -
  have c: "to_char 2 = CHR 0x02" by (simp add: to_char_def char_of_def bit_iff_odd)
  have s: "send_fd True (\<lambda>_. 2) 0 (- 2) = (0, Some \<lparr>m_buf = [NUL, CHR 0x02], m_ctl = None\<rparr>)"
    by (simp add: send_fd_def send_msg_def c)
  have d: "delivers (\<lambda>n. n) ''no file'' \<lparr>m_buf = [NUL, CHR 0x02], m_ctl = None\<rparr> [R_msg ''no '' None, R_msg (''file'' @ [NUL, CHR 0x02]) None] []"
    unfolding delivers_def by (rule exI [of _ "[''no '']"], rule exI [of _ "''file''"]) simp
  show ?thesis using fd_passing_roundtrip [OF _ _ s d, of "\<lambda>b. int (length b)"] by (simp add: accepts_def c_string_def sent_status_def)
qed

text \<open>When the null byte and the status byte arrive in two pieces, the receiver ends with a dump.\<close>

lemma split_status: "recv_ufd wr out (R_msg (t @ [NUL]) ctl # rs) = Inl Message_format" if "c_string t"
proof -
  have "takeWhile (\<lambda>c. c \<noteq> NUL) (t @ [NUL]) = t" using that by (subst takeWhile_append2) (auto simp: c_string_def)
  then show ?thesis by (simp add: scan_buf_def)
qed

text \<open>Opening a file through the open server: the server takes the request of \<^verbatim>\<open>csopen\<close> for the path and flags that were
  given, and the value of \<^verbatim>\<open>csopen\<close> is the descriptor it has opened, as numbered in the client, or -1 with the
  server's message printed.  \<^verbatim>\<open>buf_args\<close> splits the request at white space; \<^verbatim>\<open>send_err\<close> sends its message and then the error number.\<close>

theorem csopen_opens:
  assumes path: "c_string name" "0 \<le> oflag" "oflag < 2 ^ 31" "length (sdec oflag) + 2 \<le> bufsz"
    and req: "cs_request bufsz name oflag = Inr req"
    and argv: "os_argv os (''open '' @ name @ '' '' @ sdec oflag) = Some [''open'', name, sdec oflag]"
    and os: "\<And>newfd. os_openf os name oflag = Inr newfd \<Longrightarrow> 0 \<le> newfd \<and> os_send os clifd newfd"
      "\<And>msg. os_openf os name oflag = Inl msg \<Longrightarrow> c_string msg"
    and client: "accepts wr" "accepts writev"
  shows "\<exists>s' r. handle_request os req clifd uid s = Inr s' \<and> replies s' = replies s @ [(clifd, r)] \<and>
    (case r of
       Reply_fd newfd \<Rightarrow> os_openf os name oflag = Inr newfd \<and>
         (\<forall>rs rest. delivers num [] (send_msg suid newfd) rs rest \<longrightarrow>
           csopen bufsz True writev (recv_ufd wr [] rs) name oflag = Inr (num newfd, Some (Some suid, [], rest)))
     | Reply_err m \<Rightarrow> (\<exists>msg. os_openf os name oflag = Inl msg \<and> m = take (MAXLINE - 2) (''can't open '' @ name @ '': '' @ msg @ [CHR 0x0A])) \<and>
         (\<forall>rs rest. delivers num m (send_msg suid (- 1)) rs rest \<longrightarrow>
           csopen bufsz True writev (recv_ufd wr [] rs) name oflag = Inr (- 1, Some (None, m, rest))))"
proof -
  note n = cs_request_parsed(1) [OF req]
  have a: "buf_args os (cstr req) u = (True, u\<lparr>pathname := name, o_flag := oflag\<rparr>)" for u :: "'a ost_scheme"
    by (rule cs_request_parsed(2) [OF req path(1-3) argv])
  have recv: "csopen bufsz True writev (recv_ufd wr [] rs) name oflag = Inr (v, Some x)" if "recv_ufd wr [] rs = Inr (v, x)" for rs v x
    using that req client(2) by (simp add: csopen_def acceptsD)
  have fd: "send_fd True (\<lambda>_. 2) suid f = (0, Some (send_msg suid f))" for f by (simp add: send_fd_def)
  show ?thesis
  proof (cases "os_openf os name oflag")
    case (Inl msg)
    let ?m = "take (MAXLINE - 2) (''can't open '' @ name @ '': '' @ msg @ [CHR 0x0A])"
    have "c_string ?m" using path(1) os(2) [OF Inl] by (auto simp: c_string_def dest: in_set_takeD)
    then have "csopen bufsz True writev (recv_ufd wr [] rs) name oflag = Inr (- 1, Some (None, ?m, rest))"
      if "delivers num ?m (send_msg suid (- 1)) rs rest" for rs rest
      using fd_roundtrip_value [OF client(1) _ fd that] by (intro recv) (simp add: sent_status_def)
    then show ?thesis using Inl n a
      by (auto simp: handle_request_def Let_def logging_def refuse_def replying_def snprintf_errmsg_def intro!: exI [of _ "Reply_err ?m"])
  next
    case (Inr newfd)
    have "csopen bufsz True writev (recv_ufd wr [] rs) name oflag = Inr (num newfd, Some (Some suid, [], rest))"
      if "delivers num [] (send_msg suid newfd) rs rest" for rs rest
      using fd_roundtrip_value [OF client(1) _ fd that] os(1) [OF Inr] by (intro recv) simp
    then show ?thesis using Inr n a os(1) [OF Inr]
      by (auto simp: handle_request_def Let_def logging_def replying_def intro!: exI [of _ "Reply_fd newfd"])
  qed
qed

definition example_os :: opend_os where
  "example_os = \<lparr>os_argv = (\<lambda>b. if b = ''open f 0'' then Some [''open'', ''f'', ''0''] else None),
     os_openf = (\<lambda>p fl. Inr 5), os_send = (\<lambda>_ _. True)\<rparr>"

theorem csopen_opens_witness:
  "csopen 12 True (\<lambda>b. int (length b)) (recv_ufd (\<lambda>b. int (length b)) [] [R_msg [NUL, NUL] (Some (8, 100))]) ''f'' 0 =
     Inr (8, Some (Some 100, [], []))"
proof -
  let ?s = "\<lparr>errmsg = [], pathname = [], o_flag = 0, replies = [], logs = [], closed = []\<rparr>" and ?n = "\<lambda>n. n + 3"
  have d: "sdec 0 = ''0''" by (simp add: sdec_def dec.simps digit_def char_of_def bit_iff_odd)
  have req: "cs_request 12 ''f'' 0 = Inr (''open f 0'' @ [NUL])" by (simp add: cs_request_def d)
  have a: "os_argv example_os (''open '' @ ''f'' @ '' '' @ sdec 0) = Some [''open'', ''f'', sdec 0]" by (simp add: example_os_def d)
  have o: "\<And>newfd. os_openf example_os ''f'' 0 = Inr newfd \<Longrightarrow> 0 \<le> newfd \<and> os_send example_os 9 newfd"
    "\<And>msg. os_openf example_os ''f'' 0 = Inl msg \<Longrightarrow> c_string msg" by (auto simp: example_os_def)
  have acc: "accepts (\<lambda>b. int (length b))" by (simp add: accepts_def)
  have "delivers ?n [] (send_msg 100 5) [R_msg [NUL, NUL] (Some (8, 100))] []" by (simp add: delivers_def send_msg_def)
  moreover have "os_openf example_os ''f'' 0 = Inr 5" by (simp add: example_os_def)
  ultimately show ?thesis
    using csopen_opens [where s = ?s and num = ?n and suid = 100 and uid = 1, OF _ _ _ _ req a o acc acc]
    by (auto simp: c_string_def d simp del: recv_ufd.simps split: oreply.split_asm) (metis oreply.exhaust)
qed

end
