(* ===== verification/Opend_Fork.thy ===== *)
theory Opend_Fork
  imports Fd_Passing
begin

text \<open>
  The open server that a client starts for itself, \<^verbatim>\<open>apue.3e/ipc2/opend.fe\<close>: its requests (\<^verbatim>\<open>request.c\<close>; \<^verbatim>\<open>cliargs.c\<close> is the one
  of \<^verbatim>\<open>opend\<close>) and its loop (\<^verbatim>\<open>main.c\<close>), which ends when the client closes the pipe.  It keeps no log and knows of one
  client only.
\<close>

section \<open>The server\<close>

abbreviation (input) STDOUT_FILENO :: int where "STDOUT_FILENO \<equiv> 1"

definition fe_request :: "opend_os \<Rightarrow> cbuf \<Rightarrow> int \<Rightarrow> 'a ost_scheme \<Rightarrow> opend_error + 'a ost_scheme" where
  "fe_request os buf fd s =
     (if last buf \<noteq> NUL
      then Inr (refuse fd (snprintf_errmsg (''request not null terminated: '' @ pad_left (length buf) (cstr (buf @ [NUL])) @ [CHR 0x0A]) s))
      else
      let (ok, s) = buf_args os (cstr buf) s
      in if \<not> ok then Inr (refuse fd s)
         else case os_openf os (pathname s) (o_flag s) of
                Inl msg \<Rightarrow> Inr (refuse fd (snprintf_errmsg (''can't open '' @ pathname s @ '': '' @ msg @ [CHR 0x0A]) s))
              | Inr newfd \<Rightarrow>
                  if \<not> os_send os fd newfd then Inl (Oerr_sys ''send_fd error'')
                  else let s = replying fd (Reply_fd newfd) s in Inr (s\<lparr>closed := closed s @ [newfd]\<rparr>))"

text \<open>The reads of the loop; the flag says whether the server has left it.\<close>

fun fe_main :: "opend_os \<Rightarrow> read_result list \<Rightarrow> ost \<Rightarrow> opend_error + (bool \<times> ost)" where
  "fe_main os [] s = Inr (False, s)"
| "fe_main os (Read_error # rs) s = Inl (Oerr_sys ''read error on stream pipe'')"
| "fe_main os (Read_eof # rs) s = Inr (True, s)"
| "fe_main os (Read_data buf # rs) s = andthen (fe_request os buf STDOUT_FILENO s) (fe_main os rs)"

section \<open>The two servers\<close>

text \<open>On a request that ends with a null byte the server does what \<^verbatim>\<open>opend\<close> does, less its log.\<close>

lemma fe_request_agrees:
  assumes "last buf = NUL" "handle_request os buf fd uid s = Inr t"
  shows "\<exists>u. fe_request os buf fd s = Inr u \<and> replies u = replies t \<and> closed u = closed t \<and> errmsg u = errmsg t \<and> pathname u = pathname t \<and> o_flag u = o_flag t"
proof -
  have l: "buf_args os b (s\<lparr>logs := x\<rparr>) = (let (ok, u) = buf_args os b s in (ok, u\<lparr>logs := x\<rparr>))" for b x
    by (auto simp: buf_args_def cli_args_def split: option.splits)
  obtain ok v where b: "buf_args os (cstr buf) s = (ok, v)" by fastforce
  show ?thesis using assms
    by (auto simp: handle_request_def fe_request_def l b Let_def logging_def refuse_def replying_def snprintf_errmsg_def split: if_splits sum.splits)
qed

section \<open>A session\<close>

text \<open>What is to be opened, the answer to it, and the descriptors that were opened for it.\<close>

definition open_reply :: "opend_os \<Rightarrow> string \<times> int \<Rightarrow> oreply" where
  "open_reply os r = (case os_openf os (fst r) (snd r) of
     Inl msg \<Rightarrow> Reply_err (take (MAXLINE - 2) (''can't open '' @ fst r @ '': '' @ msg @ [CHR 0x0A])) | Inr newfd \<Rightarrow> Reply_fd newfd)"

definition opened :: "opend_os \<Rightarrow> string \<times> int \<Rightarrow> int list" where
  "opened os r = (case os_openf os (fst r) (snd r) of Inl msg \<Rightarrow> [] | Inr newfd \<Rightarrow> [newfd])"

definition fe_good :: "opend_os \<Rightarrow> nat \<Rightarrow> string \<times> int \<Rightarrow> cbuf \<Rightarrow> bool" where
  "fe_good os bufsz r req \<longleftrightarrow> cs_request bufsz (fst r) (snd r) = Inr req \<and> c_string (fst r) \<and> 0 \<le> snd r \<and> snd r < 2 ^ 31 \<and>
     os_argv os (''open '' @ fst r @ '' '' @ sdec (snd r)) = Some [''open'', fst r, sdec (snd r)]"

lemma fe_request_served:
  assumes "fe_good os bufsz r req" "\<And>newfd. os_send os fd newfd"
  shows "\<exists>u. fe_request os req fd s = Inr u \<and> replies u = replies s @ [(fd, open_reply os r)] \<and> closed u = closed s @ opened os r"
proof -
  have g: "cs_request bufsz (fst r) (snd r) = Inr req" using assms(1) by (simp add: fe_good_def)
  have a: "buf_args os (cstr req) s = (True, s\<lparr>pathname := fst r, o_flag := snd r\<rparr>)"
    using cs_request_parsed(2) [OF g, of os s] assms(1) by (simp add: fe_good_def)
  show ?thesis using a assms(2) cs_request_parsed(1) [OF g]
    by (auto simp: fe_request_def open_reply_def opened_def refuse_def replying_def snprintf_errmsg_def Let_def split: sum.splits)
qed

text \<open>A client that starts its own open server and asks for files one after the other: each request of \<^verbatim>\<open>csopen\<close>, read
  whole, gets one answer, in order, with the descriptor or the message that \<^verbatim>\<open>open\<close> gives for that path and those
  flags; the server closes each descriptor it has sent, and it exits when the client has closed the pipe.\<close>

theorem fe_session_answers:
  assumes "list_all2 (fe_good os bufsz) rs reqs" "\<And>newfd. os_send os STDOUT_FILENO newfd"
  shows "\<exists>t. fe_main os (map Read_data reqs @ Read_eof # rest) s = Inr (True, t) \<and>
    replies t = replies s @ map (\<lambda>r. (STDOUT_FILENO, open_reply os r)) rs \<and> closed t = closed s @ concat (map (opened os) rs)"
  using assms(1)
proof (induction arbitrary: s rule: list_all2_induct)
  case (Cons r rs req reqs)
  obtain u where u: "fe_request os req STDOUT_FILENO s = Inr u" "replies u = replies s @ [(STDOUT_FILENO, open_reply os r)]"
    "closed u = closed s @ opened os r"
    using fe_request_served [OF Cons(1) assms(2), of s] by blast
  show ?case using Cons.IH [of u] u by simp
qed simp

theorem fe_session_answers_witness:
  "\<exists>t. fe_main example_os [Read_data (''open f 0'' @ [NUL]), Read_eof] \<lparr>errmsg = [], pathname = [], o_flag = 0, replies = [], logs = [], closed = []\<rparr> = Inr (True, t) \<and>
     replies t = [(1, Reply_fd 5)] \<and> closed t = [5]"
proof -
  have d: "sdec 0 = ''0''" by (simp add: sdec_def dec.simps digit_def char_of_def bit_iff_odd)
  have "list_all2 (fe_good example_os 10) [(''f'', 0)] [''open f 0'' @ [NUL]]"
    by (simp add: fe_good_def cs_request_def d example_os_def c_string_def)
  from fe_session_answers [OF this, of "[]" "\<lparr>errmsg = [], pathname = [], o_flag = 0, replies = [], logs = [], closed = []\<rparr>"] show ?thesis
    by (simp add: example_os_def open_reply_def opened_def)
qed

end
