(* ===== verification/Merge_Sort.thy ===== *)
theory Merge_Sort
  imports C_Prelude "HOL-Library.Multiset"
begin

text \<open>
  Sorting with threads, \<^verbatim>\<open>apue.3e/threads/barrier.c\<close>: each thread sorts its range of the array with
  the library's \<^verbatim>\<open>heapsort\<close>; when all have reached the barrier, the main thread merges the ranges.
\<close>

section \<open>The program\<close>

abbreviation (input) NTHR :: nat where "NTHR \<equiv> 8"
abbreviation (input) NUMNUM :: nat where "NUMNUM \<equiv> 8000000"
abbreviation (input) TNUM :: nat where "TNUM \<equiv> 1000000"
abbreviation (input) LONG_MAX :: int where "LONG_MAX \<equiv> 9223372036854775807"

definition complong :: "int \<Rightarrow> int \<Rightarrow> int" where
  "complong l1 l2 = (if l1 = l2 then 0 else if l1 < l2 then - 1 else 1)"

text \<open>The range of a thread, of \<open>tnum\<close> numbers from \<open>idx\<close> on; \<open>heapsort\<close> is the library function.\<close>

definition thr_fn :: "((int \<Rightarrow> int \<Rightarrow> int) \<Rightarrow> int list \<Rightarrow> int list) \<Rightarrow> nat \<Rightarrow> nat \<Rightarrow> int list \<Rightarrow> int list" where
  "thr_fn heapsort tnum idx nums =
     take idx nums @ heapsort complong (take tnum (drop idx nums)) @ drop (idx + tnum) nums"

text \<open>The inner loop of \<^verbatim>\<open>merge\<close>, for the range \<open>i\<close>; \<open>minidx\<close> has no value before the first assignment.\<close>

definition pick_step :: "nat \<Rightarrow> int list \<Rightarrow> nat list \<Rightarrow> nat \<Rightarrow> int \<times> nat option \<Rightarrow> int \<times> nat option" where
  "pick_step tnum nums idx i = (\<lambda>(num, minidx).
     if idx ! i < (i + 1) * tnum \<and> nums ! (idx ! i) < num then (nums ! (idx ! i), Some i) else (num, minidx))"

text \<open>The outer loop: \<open>None\<close> when \<^verbatim>\<open>minidx\<close> has no value or the index is past the array.\<close>

fun merge_loop :: "nat \<Rightarrow> nat \<Rightarrow> int list \<Rightarrow> nat \<Rightarrow> nat list \<Rightarrow> nat option \<Rightarrow> int list \<Rightarrow> int list option" where
  "merge_loop nthr tnum nums 0 idx minidx snums = Some snums"
| "merge_loop nthr tnum nums (Suc n) idx minidx snums =
     (let (num, minidx) = fold (pick_step tnum nums idx) [0..<nthr] (LONG_MAX, minidx)
      in case minidx of
           None \<Rightarrow> None
         | Some m \<Rightarrow>
             if idx ! m \<ge> length nums then None
             else merge_loop nthr tnum nums n (idx[m := idx ! m + 1]) minidx (snums @ [nums ! (idx ! m)]))"

definition merge :: "nat \<Rightarrow> nat \<Rightarrow> int list \<Rightarrow> int list option" where
  "merge nthr tnum nums = merge_loop nthr tnum nums (nthr * tnum) (map (\<lambda>i. i * tnum) [0..<nthr]) None []"

text \<open>The threads reach the barrier in the order \<open>order\<close>; \<open>create i\<close> is the success of \<^verbatim>\<open>pthread_create\<close>.\<close>

datatype sort_error = Cant_create_thread | Bad_index

definition sort_main :: "((int \<Rightarrow> int \<Rightarrow> int) \<Rightarrow> int list \<Rightarrow> int list) \<Rightarrow> nat \<Rightarrow> nat \<Rightarrow> (nat \<Rightarrow> bool) \<Rightarrow> nat list \<Rightarrow> int list \<Rightarrow> sort_error + int list" where
  "sort_main heapsort nthr tnum create order nums =
     (if \<not> list_all create [0..<nthr] then Inl Cant_create_thread
      else case merge nthr tnum (fold (\<lambda>i. thr_fn heapsort tnum (i * tnum)) order nums) of
             None \<Rightarrow> Inl Bad_index
           | Some snums \<Rightarrow> Inr snums)"

section \<open>Merging\<close>

text \<open>What is left of each range.\<close>

definition rests :: "nat \<Rightarrow> int list \<Rightarrow> nat list \<Rightarrow> nat \<Rightarrow> int list" where
  "rests tnum nums idx i = drop (idx ! i) (take ((i + 1) * tnum) nums)"

lemma pick_fold:
  fixes R :: "nat \<Rightarrow> int list"
  assumes "\<And>i. i < k \<Longrightarrow> (idx ! i < (i + 1) * tnum \<longleftrightarrow> R i \<noteq> []) \<and> (R i \<noteq> [] \<longrightarrow> nums ! (idx ! i) = hd (R i))"
  shows "\<exists>num mi. fold (pick_step tnum nums idx) [0..<k] (LONG_MAX, mi0) = (num, mi) \<and> num \<le> LONG_MAX \<and>
    (\<forall>i < k. R i \<noteq> [] \<longrightarrow> num \<le> hd (R i)) \<and>
    (num = LONG_MAX \<or> (\<exists>m < k. mi = Some m \<and> R m \<noteq> [] \<and> hd (R m) = num))"
  using assms
proof (induction k)
  case (Suc k)
  then obtain num mi where h: "fold (pick_step tnum nums idx) [0..<k] (LONG_MAX, mi0) = (num, mi)" "num \<le> LONG_MAX"
    "\<forall>i < k. R i \<noteq> [] \<longrightarrow> num \<le> hd (R i)" "num = LONG_MAX \<or> (\<exists>m < k. mi = Some m \<and> R m \<noteq> [] \<and> hd (R m) = num)"
    by (metis less_SucI)
  have k: "idx ! k < (k + 1) * tnum \<longleftrightarrow> R k \<noteq> []" "R k \<noteq> [] \<Longrightarrow> nums ! (idx ! k) = hd (R k)" using Suc.prems by auto
  have f: "fold (pick_step tnum nums idx) [0..<Suc k] (LONG_MAX, mi0) =
      (if R k \<noteq> [] \<and> hd (R k) < num then (hd (R k), Some k) else (num, mi))"
    using h(1) k by (auto simp: pick_step_def)
  show ?case
  proof (cases "R k \<noteq> [] \<and> hd (R k) < num")
    case True
    then show ?thesis unfolding f using h(2,3) by (auto simp: less_Suc_eq intro: order.trans [OF less_imp_le])
  next
    case False
    then show ?thesis unfolding f using h(2,3,4) by (auto simp: less_Suc_eq)
  qed
qed simp

text \<open>The invariant of the outer loop: \<open>R i\<close> is the rest of the range \<open>i\<close>.\<close>

definition merging :: "nat \<Rightarrow> nat \<Rightarrow> int list \<Rightarrow> nat list \<Rightarrow> int list \<Rightarrow> bool" where
  "merging nthr tnum nums idx snums \<longleftrightarrow> length idx = nthr \<and> length nums = nthr * tnum \<and>
     (\<forall>i < nthr. i * tnum \<le> idx ! i \<and> idx ! i \<le> (i + 1) * tnum \<and> sorted (rests tnum nums idx i)) \<and>
     sorted snums \<and> (\<forall>i < nthr. \<forall>x \<in> set snums. \<forall>y \<in> set (rests tnum nums idx i). x \<le> y)"

definition left :: "nat \<Rightarrow> nat \<Rightarrow> int list \<Rightarrow> nat list \<Rightarrow> int multiset" where
  "left nthr tnum nums idx = (\<Sum>i < nthr. mset (rests tnum nums idx i))"

lemma range_le: "i < nthr \<Longrightarrow> (i + 1) * tnum \<le> nthr * (tnum :: nat)"
  by (intro mult_le_mono1) simp

lemma rests_head:
  assumes "merging nthr tnum nums idx snums" "i < nthr"
  shows "idx ! i < (i + 1) * tnum \<longleftrightarrow> rests tnum nums idx i \<noteq> []"
    "rests tnum nums idx i \<noteq> [] \<Longrightarrow> nums ! (idx ! i) = hd (rests tnum nums idx i) \<and> idx ! i < length nums"
proof -
  have l: "(i + 1) * tnum \<le> length nums" using assms range_le by (simp add: merging_def)
  then show *: "idx ! i < (i + 1) * tnum \<longleftrightarrow> rests tnum nums idx i \<noteq> []" by (auto simp: rests_def)
  assume "rests tnum nums idx i \<noteq> []"
  then have "idx ! i < (i + 1) * tnum" using * by blast
  then show "nums ! (idx ! i) = hd (rests tnum nums idx i) \<and> idx ! i < length nums"
    using l by (simp add: rests_def hd_drop_conv_nth)
qed

lemma rests_step:
  assumes "merging nthr tnum nums idx snums" "m < nthr" "rests tnum nums idx m = x # xs" "i < nthr"
  shows "rests tnum nums (idx[m := idx ! m + 1]) i = (if i = m then xs else rests tnum nums idx i)"
proof (cases "i = m")
  case True
  have "drop (Suc (idx ! m)) (take ((m + 1) * tnum) nums) = tl (drop (idx ! m) (take ((m + 1) * tnum) nums))" by (simp add: drop_Suc tl_drop)
  then show ?thesis using assms True by (simp add: rests_def merging_def)
next
  case False
  then show ?thesis by (simp add: rests_def)
qed

lemma left_step:
  assumes "merging nthr tnum nums idx snums" "m < nthr" "rests tnum nums idx m = x # xs"
  shows "left nthr tnum nums idx = add_mset x (left nthr tnum nums (idx[m := idx ! m + 1]))"
proof -
  have r: "rests tnum nums (idx[m := idx ! m + 1]) i = (if i = m then xs else rests tnum nums idx i)" if "i < nthr" for i
    using rests_step [OF assms that] .
  have "left nthr tnum nums idx = mset (x # xs) + (\<Sum>i \<in> {..<nthr} - {m}. mset (rests tnum nums idx i))"
    using assms(2,3) by (simp add: left_def sum.remove [of _ m])
  also have "(\<Sum>i \<in> {..<nthr} - {m}. mset (rests tnum nums idx i)) =
      (\<Sum>i \<in> {..<nthr} - {m}. mset (rests tnum nums (idx[m := idx ! m + 1]) i))"
    by (rule sum.cong) (use r in auto)
  also have "mset (x # xs) + \<dots> = add_mset x (left nthr tnum nums (idx[m := idx ! m + 1]))"
    using assms(2) r [OF assms(2)] by (simp add: left_def sum.remove [of "{..<nthr}" m])
  finally show ?thesis .
qed

lemma merging_step:
  assumes M: "merging nthr tnum nums idx snums" and m: "m < nthr" "rests tnum nums idx m = x # xs"
    and least: "\<And>i. i < nthr \<Longrightarrow> rests tnum nums idx i \<noteq> [] \<Longrightarrow> x \<le> hd (rests tnum nums idx i)"
  shows "merging nthr tnum nums (idx[m := idx ! m + 1]) (snums @ [x])"
proof -
  let ?idx = "idx[m := idx ! m + 1]"
  note r = rests_step [OF M m]
  have s: "sorted (rests tnum nums idx i)" if "i < nthr" for i using M that by (simp add: merging_def)
  have lx: "x \<le> y" if "i < nthr" "y \<in> set (rests tnum nums idx i)" for i y
    using least [OF that(1)] s [OF that(1)] that(2) by (cases "rests tnum nums idx i") auto
  have sub: "set (rests tnum nums ?idx i) \<subseteq> set (rests tnum nums idx i)" if "i < nthr" for i using r [OF that] m(2) by auto
  have "sorted (rests tnum nums ?idx i)" if "i < nthr" for i using r [OF that] s [OF that] s [OF m(1)] m(2) by auto
  moreover have "i * tnum \<le> ?idx ! i \<and> ?idx ! i \<le> (i + 1) * tnum" if "i < nthr" for i
    using M that m rests_head(1) [OF M m(1)] by (cases "i = m") (auto simp: merging_def)
  moreover have "sorted (snums @ [x])" using M m by (auto simp: merging_def sorted_append)
  moreover have "a \<le> y" if "i < nthr" "a \<in> set (snums @ [x])" "y \<in> set (rests tnum nums ?idx i)" for i a y
    using M that lx [OF that(1)] sub [OF that(1)] by (auto simp: merging_def)
  ultimately show ?thesis using M unfolding merging_def by simp
qed

lemma merge_loop_ok:
  assumes "merging nthr tnum nums idx snums" "size (left nthr tnum nums idx) = n" "\<forall>x \<in> set nums. x < LONG_MAX"
  shows "\<exists>s. merge_loop nthr tnum nums n idx mi snums = Some s \<and> sorted s \<and> mset s = mset snums + left nthr tnum nums idx"
  using assms
proof (induction n arbitrary: idx mi snums)
  case 0
  then show ?case by (auto simp: merging_def)
next
  case (Suc n)
  let ?R = "rests tnum nums idx"
  have small: "hd (?R i) < LONG_MAX" if "?R i \<noteq> []" for i
    using hd_in_set [OF that] Suc.prems(3) by (auto simp: rests_def dest!: in_set_dropD in_set_takeD)
  obtain num mi' where f: "fold (pick_step tnum nums idx) [0..<nthr] (LONG_MAX, mi) = (num, mi')"
    "\<forall>i < nthr. ?R i \<noteq> [] \<longrightarrow> num \<le> hd (?R i)" "num = LONG_MAX \<or> (\<exists>m < nthr. mi' = Some m \<and> ?R m \<noteq> [] \<and> hd (?R m) = num)"
    using pick_fold [of nthr idx tnum ?R nums mi] rests_head [OF Suc.prems(1)] by auto
  have "\<exists>i < nthr. ?R i \<noteq> []"
  proof (rule ccontr)
    assume "\<not> ?thesis"
    then have "left nthr tnum nums idx = {#}" by (simp add: left_def)
    then show False using Suc.prems(2) by simp
  qed
  then have "num \<noteq> LONG_MAX" using f(2) small by force
  then obtain m where m: "m < nthr" "mi' = Some m" "?R m \<noteq> []" "hd (?R m) = num" using f(3) by blast
  then obtain xs where x: "?R m = num # xs" by (cases "?R m") auto
  have v: "nums ! (idx ! m) = num" "idx ! m < length nums" using rests_head(2) [OF Suc.prems(1) m(1,3)] m(4) by auto
  let ?idx = "idx[m := idx ! m + 1]"
  note l = left_step [OF Suc.prems(1) m(1) x]
  have "merging nthr tnum nums ?idx (snums @ [num])" using f(2) by (intro merging_step [OF Suc.prems(1) m(1) x]) blast
  moreover have "size (left nthr tnum nums ?idx) = n" using Suc.prems(2) l by simp
  ultimately obtain s where "merge_loop nthr tnum nums n ?idx mi' (snums @ [num]) = Some s" "sorted s"
    "mset s = mset (snums @ [num]) + left nthr tnum nums ?idx" using Suc.IH Suc.prems(3) by blast
  then show ?case using f(1) m(2) v l by simp
qed

section \<open>The ranges of the threads\<close>

definition rng :: "nat \<Rightarrow> int list \<Rightarrow> nat \<Rightarrow> int list" where
  "rng tnum nums i = take tnum (drop (i * tnum) nums)"

lemma mset_ranges: "k * tnum \<le> length nums \<Longrightarrow> mset (take (k * tnum) nums) = (\<Sum>i < k. mset (rng tnum nums i))"
proof (induction k)
  case (Suc k)
  have "Suc k * tnum = k * tnum + tnum" by simp
  then have "take (Suc k * tnum) nums = take (k * tnum) nums @ rng tnum nums k" by (simp only: rng_def take_add)
  then show ?case using Suc by (simp add: add.commute)
qed simp

lemma length_rng: "i < nthr \<Longrightarrow> length nums = nthr * tnum \<Longrightarrow> length (rng tnum nums i) = tnum"
  using range_le [of i nthr tnum] by (simp add: rng_def)

definition sorts :: "((int \<Rightarrow> int \<Rightarrow> int) \<Rightarrow> int list \<Rightarrow> int list) \<Rightarrow> bool" where
  "sorts heapsort \<longleftrightarrow> (\<forall>xs. sorted (heapsort complong xs) \<and> mset (heapsort complong xs) = mset xs)"

lemma sortsD: "sorts hs \<Longrightarrow> sorted (hs complong xs) \<and> mset (hs complong xs) = mset xs \<and> length (hs complong xs) = length xs"
  by (metis sorts_def size_mset)

lemma thr_fn_ok:
  assumes "sorts hs" "i < nthr" "length nums = nthr * tnum"
  shows "length (thr_fn hs tnum (i * tnum) nums) = length nums" "mset (thr_fn hs tnum (i * tnum) nums) = mset nums"
    "j < nthr \<Longrightarrow> rng tnum (thr_fn hs tnum (i * tnum) nums) j = (if j = i then hs complong (rng tnum nums i) else rng tnum nums j)"
proof -
  let ?t = "thr_fn hs tnum (i * tnum) nums"
  have b: "(k + 1) * tnum \<le> length nums" if "k < nthr" for k using range_le [OF that] assms(3) by simp
  have h: "length (hs complong (rng tnum nums i)) = tnum" using sortsD [OF assms(1)] length_rng [OF assms(2,3)] by simp
  have t: "?t = take (i * tnum) nums @ hs complong (rng tnum nums i) @ drop (i * tnum + tnum) nums" by (simp add: thr_fn_def rng_def)
  show l: "length ?t = length nums" using h b [OF assms(2)] unfolding t by simp
  have "nums = take (i * tnum) nums @ rng tnum nums i @ drop (i * tnum + tnum) nums"
    by (metis append_take_drop_id add.commute drop_drop rng_def)
  then have "mset nums = mset (take (i * tnum) nums) + mset (rng tnum nums i) + mset (drop (i * tnum + tnum) nums)"
    by (metis mset_append add.assoc)
  then show "mset ?t = mset nums" unfolding t using sortsD [OF assms(1)] by simp
  assume j: "j < nthr"
  show "rng tnum ?t j = (if j = i then hs complong (rng tnum nums i) else rng tnum nums j)"
  proof (cases "j = i")
    case True
    then show ?thesis using h b [OF assms(2)] unfolding t by (simp add: rng_def)
  next
    case False
    have out: "?t ! k = nums ! k" if "k < length nums" "k < i * tnum \<or> i * tnum + tnum \<le> k" for k
      using that h b [OF assms(2)] unfolding t by (auto simp: nth_append)
    have "rng tnum ?t j ! k = rng tnum nums j ! k" if "k < tnum" for k
    proof -
      have "j * tnum + k < i * tnum \<or> i * tnum + tnum \<le> j * tnum + k"
      proof (cases "j < i")
        case True
        then have "(j + 1) * tnum \<le> i * tnum" by (intro mult_le_mono1) simp
        then show ?thesis using that by simp
      next
        case nl: False
        then have "(i + 1) * tnum \<le> j * tnum" using False by (intro mult_le_mono1) simp
        then show ?thesis by simp
      qed
      moreover have "j * tnum + k < length nums" using b [OF j] that by simp
      ultimately show ?thesis using out that l by (simp add: rng_def)
    qed
    then show ?thesis using False length_rng [OF j] l assms(3) by (auto intro!: nth_equalityI)
  qed
qed

lemma threads_ok:
  assumes "sorts hs" "set order \<subseteq> {..<nthr}" "length nums = nthr * tnum"
  defines "t \<equiv> fold (\<lambda>i. thr_fn hs tnum (i * tnum)) order nums"
  shows "length t = length nums \<and> mset t = mset nums \<and> (\<forall>j < nthr. j \<in> set order \<or> sorted (rng tnum nums j) \<longrightarrow> sorted (rng tnum t j))"
  using assms(2,3) unfolding t_def
proof (induction order arbitrary: nums)
  case (Cons i order)
  let ?u = "thr_fn hs tnum (i * tnum) nums"
  note u = thr_fn_ok [OF assms(1), of i nthr nums tnum]
  have i: "i < nthr" using Cons.prems by simp
  have "sorted (rng tnum ?u j)" if "j < nthr" "j = i \<or> sorted (rng tnum nums j)" for j
    using that u(3) [OF i Cons.prems(2)] sortsD [OF assms(1)] by auto
  then show ?case using Cons.IH [of ?u] Cons.prems u(1,2) [OF i Cons.prems(2)] by auto
qed simp

lemma merge_ok:
  assumes "length nums = nthr * tnum" "\<forall>j < nthr. sorted (rng tnum nums j)" "\<forall>x \<in> set nums. x < LONG_MAX"
  shows "\<exists>s. merge nthr tnum nums = Some s \<and> sorted s \<and> mset s = mset nums"
proof -
  let ?idx = "map (\<lambda>i. i * tnum) [0..<nthr]"
  have r: "rests tnum nums ?idx i = rng tnum nums i" if "i < nthr" for i
    using that by (simp add: rests_def rng_def take_drop add.commute)
  have "merging nthr tnum nums ?idx []" using assms r by (simp add: merging_def)
  moreover have e: "left nthr tnum nums ?idx = mset nums"
    using mset_ranges [of nthr tnum nums] assms(1) r by (simp add: left_def)
  ultimately show ?thesis using merge_loop_ok [of nthr tnum nums ?idx "[]" "nthr * tnum" None] assms(1,3)
    by (simp add: merge_def)
qed

text \<open>C12: Eight million numbers below \<^verbatim>\<open>LONG_MAX\<close> are sorted, in whatever order the threads reach the
  barrier, provided the library's \<^verbatim>\<open>heapsort\<close> sorts: every access of \<^verbatim>\<open>merge\<close> is in bounds, and the
  array \<^verbatim>\<open>snums\<close> is the sorted permutation of \<^verbatim>\<open>nums\<close>.\<close>

theorem parallel_sort_sorts:
  assumes "sorts hs" "length nums = NUMNUM" "\<forall>x \<in> set nums. x < LONG_MAX" "set order = {..<NTHR}"
    "\<And>i. i < NTHR \<Longrightarrow> create i"
  shows "sort_main hs NTHR TNUM create order nums = Inr (sort nums)"
proof -
  let ?t = "fold (\<lambda>i. thr_fn hs TNUM (i * TNUM)) order nums"
  have t: "length ?t = length nums" "mset ?t = mset nums" "\<forall>j < NTHR. sorted (rng TNUM ?t j)"
    using threads_ok [OF assms(1), of order NTHR nums TNUM] assms(2,4) by auto
  moreover have "\<forall>x \<in> set ?t. x < LONG_MAX" using t(2) assms(3) by (metis set_mset_mset)
  ultimately obtain s where "merge NTHR TNUM ?t = Some s" "sorted s" "mset s = mset nums"
    using merge_ok [of ?t NTHR TNUM] assms(2) by auto
  then have "merge NTHR TNUM ?t = Some (sort nums)" by (metis properties_for_sort)
  moreover have "list_all create [0..<NTHR]" using assms(5) by (simp add: list_all_iff)
  ultimately show ?thesis by (simp add: sort_main_def)
qed

theorem parallel_sort_sorts_witness:
  "sort_main (\<lambda>_. sort) NTHR TNUM (\<lambda>_. True) [3, 1, 2, 0, 7, 6, 5, 4] (replicate NUMNUM 5) = Inr (sort (replicate NUMNUM 5))"
proof (rule parallel_sort_sorts)
  show "sorts (\<lambda>_. sort)" by (simp add: sorts_def)
  show "length (replicate NUMNUM (5 :: int)) = NUMNUM" by (rule length_replicate)
  show "\<forall>x \<in> set (replicate NUMNUM (5 :: int)). x < LONG_MAX" using in_set_replicate by fastforce
  show "set [3, 1, 2, 0, 7, 6, 5, 4] = {..<NTHR}" by (auto simp: lessThan_nat_numeral)
qed simp

text \<open>With a number equal to \<^verbatim>\<open>LONG_MAX\<close> the merge reads \<^verbatim>\<open>minidx\<close> before it has a value.\<close>

lemma merge_long_max: "merge 2 1 [LONG_MAX, LONG_MAX] = None"
  by (simp add: merge_def numeral_eq_Suc pick_step_def)

end
