(* ===== verification/Readline.thy ===== *)
theory Readline
  imports Print_Util
begin

text \<open>
  Reading lines from a descriptor: one character at a time (\<^verbatim>\<open>unpv13e/server/readline.c\<close>), through a
  buffer of the caller (\<^verbatim>\<open>server/readline_r.c\<close>) and through a buffer of the thread
  (\<^verbatim>\<open>threads/readline.c\<close>).  A descriptor is the sequence of things that reading it meets, as for
  the print server.
\<close>

section \<open>Sources of characters\<close>

abbreviation (input) RL_MAXLINE :: nat where "RL_MAXLINE \<equiv> 4096"
abbreviation (input) EINTR :: int where "EINTR \<equiv> 4"
abbreviation (input) NL :: char where "NL \<equiv> CHR 0x0A"

datatype got = Got char | Got_eof | Got_error

text \<open>\<^verbatim>\<open>read(fd, &c, 1)\<close>.\<close>

definition read1 :: "conn \<Rightarrow> got \<times> conn" where
  "read1 c = (case tread c 1 of
       (Rd_err e, c) \<Rightarrow> (Got_error, c)
     | (Rd bs, c) \<Rightarrow> (case bs of [] \<Rightarrow> (Got_eof, c) | ch # _ \<Rightarrow> (Got ch, c)))"

text \<open>\<open>rl_pos\<close> is the index of \<^verbatim>\<open>rl_bufptr\<close> in \<^verbatim>\<open>rl_buf\<close>.\<close>

record Rline =
  rl_cnt :: int
  rl_pos :: nat
  rl_buf :: cbuf

lemma tread_error_less: "tread c n = (Rd_err e, c') \<Longrightarrow> length (c_in c') < length (c_in c)"
  by (auto simp: tread.simps split: list.splits event.splits)

text \<open>\<^verbatim>\<open>my_read_r\<close> and \<^verbatim>\<open>my_read\<close>; an interrupted \<^verbatim>\<open>read\<close> is repeated.\<close>

function fill_read :: "Rline \<Rightarrow> conn \<Rightarrow> got \<times> Rline \<times> conn" where
  "fill_read r c =
     (case tread c RL_MAXLINE of
        (Rd_err e, c) \<Rightarrow>
          let r = r\<lparr>rl_cnt := - 1\<rparr>
          in if e = EINTR then fill_read r c else (Got_error, r, c)
      | (Rd bs, c) \<Rightarrow>
          if bs = [] then (Got_eof, r\<lparr>rl_cnt := 0\<rparr>, c)
          else (Got (bs ! 0), r\<lparr>rl_buf := bs @ drop (length bs) (rl_buf r), rl_pos := 1, rl_cnt := int (length bs) - 1\<rparr>, c))"
  by auto
termination
  by (relation "measure (\<lambda>(r, c). length (c_in c))") (auto dest: tread_error_less [OF sym])

declare fill_read.simps [simp del]

definition my_read :: "Rline \<times> conn \<Rightarrow> got \<times> Rline \<times> conn" where
  "my_read = (\<lambda>(r, c).
     if rl_cnt r \<le> 0 then fill_read r c
     else (Got (rl_buf r ! rl_pos r), r\<lparr>rl_cnt := rl_cnt r - 1, rl_pos := rl_pos r + 1\<rparr>, c))"

section \<open>Lines\<close>

text \<open>The loop: the value returned and the bytes stored.  The versions differ in what they return
  at the end of the stream.\<close>

function readline_loop :: "(nat \<Rightarrow> cbuf \<Rightarrow> int \<times> cbuf) \<Rightarrow> ('s \<Rightarrow> got \<times> 's) \<Rightarrow> nat \<Rightarrow> nat \<Rightarrow> cbuf \<Rightarrow> 's \<Rightarrow> (int \<times> cbuf) \<times> 's" where
  "readline_loop eof getc maxlen n buf s =
     (if n \<ge> maxlen then ((int n, buf @ [NUL]), s)
      else case getc s of
             (Got ch, s) \<Rightarrow> if ch = NL then ((int n, buf @ [ch, NUL]), s) else readline_loop eof getc maxlen (Suc n) (buf @ [ch]) s
           | (Got_eof, s) \<Rightarrow> (eof n buf, s)
           | (Got_error, s) \<Rightarrow> ((- 1, buf), s))"
  by auto
termination
  by (relation "measure (\<lambda>(eof, getc, maxlen, n, buf, s). maxlen - n)") auto

declare readline_loop.simps [simp del]

definition eof_server :: "nat \<Rightarrow> cbuf \<Rightarrow> int \<times> cbuf" where
  "eof_server n buf = (if n = 1 then (0, buf) else (int n, buf @ [NUL]))"

definition eof_threads :: "nat \<Rightarrow> cbuf \<Rightarrow> int \<times> cbuf" where
  "eof_threads n buf = (int n - 1, buf @ [NUL])"

definition readline :: "nat \<Rightarrow> conn \<Rightarrow> (int \<times> cbuf) \<times> conn" where
  "readline maxlen c = readline_loop eof_server read1 maxlen 1 [] c"

definition readline_rinit :: "cbuf \<Rightarrow> Rline" where
  "readline_rinit junk = \<lparr>rl_cnt = 0, rl_pos = 0, rl_buf = junk\<rparr>"

definition readline_r :: "nat \<Rightarrow> Rline \<times> conn \<Rightarrow> (int \<times> cbuf) \<times> Rline \<times> conn" where
  "readline_r maxlen rc = readline_loop eof_server my_read maxlen 1 [] rc"

text \<open>\<^verbatim>\<open>readline\<close> of the threads; each thread has a buffer of its own, created at its first call.\<close>

definition readline_t :: "nat \<Rightarrow> nat \<Rightarrow> (nat \<rightharpoonup> Rline) \<times> conn \<Rightarrow> (int \<times> cbuf) \<times> (nat \<rightharpoonup> Rline) \<times> conn" where
  "readline_t tid maxlen = (\<lambda>(keys, c).
     let tsd = (case keys tid of None \<Rightarrow> \<lparr>rl_cnt = 0, rl_pos = 0, rl_buf = replicate RL_MAXLINE NUL\<rparr> | Some r \<Rightarrow> r);
         (res, tsd, c) = readline_loop eof_threads my_read maxlen 1 [] (tsd, c)
     in (res, keys(tid \<mapsto> tsd), c))"

section \<open>What a source of characters promises\<close>

text \<open>The line at the head of a stream: at most \<open>k\<close> characters, up to the first newline.\<close>

fun first_line :: "nat \<Rightarrow> cbuf \<Rightarrow> cbuf" where
  "first_line 0 cs = []"
| "first_line (Suc k) [] = []"
| "first_line (Suc k) (ch # cs) = (if ch = NL then [ch] else ch # first_line k cs)"

lemma first_line_Nil [simp]: "first_line k [] = []"
  by (cases k) simp_all

definition ends_line :: "cbuf \<Rightarrow> bool" where
  "ends_line l \<longleftrightarrow> l \<noteq> [] \<and> last l = NL"

text \<open>The answers to calls in a row: each gives a line, counted, and leaves the rest of the stream.\<close>

fun run_lines :: "('s \<Rightarrow> (int \<times> cbuf) \<times> 's) \<Rightarrow> nat \<Rightarrow> 's \<Rightarrow> (int \<times> cbuf) list" where
  "run_lines f 0 s = []"
| "run_lines f (Suc k) s = (case f s of (r, s) \<Rightarrow> r # run_lines f k s)"

definition answer :: "(nat \<Rightarrow> cbuf \<Rightarrow> int \<times> cbuf) \<Rightarrow> nat \<Rightarrow> cbuf \<Rightarrow> int \<times> cbuf" where
  "answer eof maxlen cs =
     (let l = first_line (maxlen - 1) cs
      in if length l < maxlen - 1 \<and> \<not> ends_line l then eof (1 + length l) l
         else (int (1 + length l) - (if ends_line l then 1 else 0), l @ [NUL]))"

fun answers :: "(nat \<Rightarrow> cbuf \<Rightarrow> int \<times> cbuf) \<Rightarrow> nat \<Rightarrow> nat \<Rightarrow> cbuf \<Rightarrow> (int \<times> cbuf) list" where
  "answers eof 0 maxlen cs = []"
| "answers eof (Suc k) maxlen cs = answer eof maxlen cs # answers eof k maxlen (drop (length (first_line (maxlen - 1) cs)) cs)"

locale char_source =
  fixes getc :: "'s \<Rightarrow> got \<times> 's" and good :: "'s \<Rightarrow> bool" and rest :: "'s \<Rightarrow> cbuf"
  assumes getc_eof: "good s \<Longrightarrow> rest s = [] \<Longrightarrow> \<exists>s'. getc s = (Got_eof, s') \<and> good s' \<and> rest s' = []"
    and getc_char: "good s \<Longrightarrow> rest s = ch # cs \<Longrightarrow> \<exists>s'. getc s = (Got ch, s') \<and> good s' \<and> rest s' = cs"
begin

lemma loop_line:
  assumes "good s" "k = maxlen - n"
  defines "l \<equiv> first_line k (rest s)"
  shows "\<exists>s'. good s' \<and> rest s' = drop (length l) (rest s) \<and>
    readline_loop eof getc maxlen n buf s =
      (if length l < k \<and> \<not> ends_line l then eof (n + length l) (buf @ l)
       else (int (n + length l) - (if ends_line l then 1 else 0), buf @ l @ [NUL]), s')"
  using assms(1,2) unfolding l_def
proof (induction k arbitrary: n buf s)
  case 0
  then show ?case by (subst readline_loop.simps) (auto simp: ends_line_def)
next
  case (Suc k)
  have lt: "\<not> maxlen \<le> n" "k = maxlen - Suc n" using Suc.prems(2) by simp_all
  show ?case
  proof (cases "rest s")
    case Nil
    then obtain s' where "getc s = (Got_eof, s')" "good s'" "rest s' = []" using getc_eof Suc.prems(1) by blast
    then show ?thesis using Nil lt by (subst readline_loop.simps) (auto simp: ends_line_def)
  next
    case (Cons ch cs)
    then obtain s1 where g: "getc s = (Got ch, s1)" "good s1" "rest s1 = cs" using getc_char Suc.prems(1) by blast
    show ?thesis
    proof (cases "ch = NL")
      case True
      then show ?thesis using g Cons lt by (subst readline_loop.simps) (auto simp: ends_line_def)
    next
      case False
      then have "ends_line (ch # first_line k cs) = ends_line (first_line k cs)" by (auto simp: ends_line_def)
      then show ?thesis using Suc.IH [OF g(2) lt(2), of "buf @ [ch]"] g Cons lt False by (subst readline_loop.simps) auto
    qed
  qed
qed

lemma line_answer:
  assumes "good s"
  obtains s' where "good s'" "rest s' = drop (length (first_line (maxlen - 1) (rest s))) (rest s)"
    "readline_loop eof getc maxlen 1 [] s = (answer eof maxlen (rest s), s')"
  using loop_line [OF assms refl, of maxlen 1 eof "[]"] by (auto simp: answer_def Let_def)

lemma run_loop: "good s \<Longrightarrow> run_lines (readline_loop eof getc maxlen 1 []) k s = answers eof k maxlen (rest s)"
proof (induction k arbitrary: s)
  case (Suc k)
  then show ?case by (elim line_answer [of s maxlen eof]) simp
qed simp

end

section \<open>The two sources\<close>

fun stream :: "event list \<Rightarrow> cbuf" where
  "stream (Bytes bs # es) = bs @ stream es"
| "stream (_ # es) = stream es"
| "stream [] = []"

definition plain :: "event \<Rightarrow> bool" where "plain e \<longleftrightarrow> (\<exists>bs. e = Bytes bs \<and> bs \<noteq> [])"

definition calm :: "conn \<Rightarrow> bool" where "calm c \<longleftrightarrow> list_all plain (c_in c)"

text \<open>With signals in between.\<close>

definition fair :: "conn \<Rightarrow> bool" where "fair c \<longleftrightarrow> list_all (\<lambda>e. plain e \<or> e = Fail EINTR) (c_in c)"

interpretation unbuffered: char_source read1 calm "\<lambda>c. stream (c_in c)"
proof (unfold_locales, goal_cases)
  case (1 s)
  then have "c_in s = []" by (cases "c_in s") (auto simp: calm_def plain_def)
  then show ?case using 1 by (simp add: read1_def tread.simps)
next
  case (2 s ch cs)
  then obtain b es where e: "c_in s = Bytes b # es" "b \<noteq> []" by (cases "c_in s") (auto simp: calm_def plain_def)
  then obtain bs where b: "b = ch # bs" "bs @ stream es = cs" using 2(2) by (cases b) auto
  then show ?case using e 2(1) by (cases bs) (auto simp: read1_def tread.simps calm_def plain_def)
qed

definition buffered_ok :: "Rline \<times> conn \<Rightarrow> bool" where
  "buffered_ok = (\<lambda>(r, c). fair c \<and> (0 < rl_cnt r \<longrightarrow> rl_pos r + nat (rl_cnt r) \<le> length (rl_buf r)))"

definition buffered_rest :: "Rline \<times> conn \<Rightarrow> cbuf" where
  "buffered_rest = (\<lambda>(r, c). take (nat (rl_cnt r)) (drop (rl_pos r) (rl_buf r)) @ stream (c_in c))"

lemma fill_read_ok:
  assumes "fair c"
  shows "case stream (c_in c) of
      [] \<Rightarrow> \<exists>s'. fill_read r c = (Got_eof, s') \<and> buffered_ok s' \<and> buffered_rest s' = []
    | ch # cs \<Rightarrow> \<exists>s'. fill_read r c = (Got ch, s') \<and> buffered_ok s' \<and> buffered_rest s' = cs"
  using assms
proof (induction r c rule: fill_read.induct)
  case (1 r c)
  show ?case
  proof (cases "c_in c")
    case Nil
    then show ?thesis using 1(2) by (subst fill_read.simps) (simp add: tread.simps buffered_ok_def buffered_rest_def)
  next
    case (Cons e es)
    then have f: "fair (c\<lparr>c_in := es\<rparr>)" and ev: "plain e \<or> e = Fail EINTR" using 1(2) by (auto simp: fair_def)
    show ?thesis
    proof (cases "e = Fail EINTR")
      case True
      then have t: "tread c RL_MAXLINE = (Rd_err EINTR, c\<lparr>c_in := es\<rparr>)" using Cons by (simp add: tread.simps)
      have eq: "fill_read r c = fill_read (r\<lparr>rl_cnt := - 1\<rparr>) (c\<lparr>c_in := es\<rparr>)" by (subst fill_read.simps) (simp add: t)
      have st: "stream (c_in c) = stream (c_in (c\<lparr>c_in := es\<rparr>))" using Cons True by simp
      show ?thesis unfolding st eq by (rule 1(1) [OF t [symmetric] refl refl refl f])
    next
      case False
      then obtain b bs where e: "e = Bytes (b # bs)" using ev by (auto simp: plain_def neq_Nil_conv)
      let ?t = "take RL_MAXLINE (b # bs)"
      let ?es = "if length (b # bs) \<le> RL_MAXLINE then es else Bytes (drop RL_MAXLINE (b # bs)) # es"
      have t: "tread c RL_MAXLINE = (Rd ?t, c\<lparr>c_in := ?es\<rparr>)" using Cons e by (simp add: tread.simps)
      let ?r = "r\<lparr>rl_buf := ?t @ drop (length ?t) (rl_buf r), rl_pos := 1, rl_cnt := int (length ?t) - 1\<rparr>"
      have "fill_read r c = (Got b, ?r, c\<lparr>c_in := ?es\<rparr>)" by (subst fill_read.simps, unfold t) simp
      moreover have "buffered_ok (?r, c\<lparr>c_in := ?es\<rparr>)" using f by (auto simp: buffered_ok_def fair_def plain_def)
      moreover have "buffered_rest (?r, c\<lparr>c_in := ?es\<rparr>) = bs @ stream es" 
        by (auto simp: buffered_rest_def take_Cons' drop_Cons' simp flip: append_assoc)
      ultimately show ?thesis using Cons e by simp
    qed
  qed
qed

lemma my_read_buffered:
  assumes "buffered_ok (r, c)" "0 < rl_cnt r"
  shows "\<exists>ch s'. my_read (r, c) = (Got ch, s') \<and> buffered_ok s' \<and> buffered_rest (r, c) = ch # buffered_rest s'"
proof -
  define k where "k = nat (rl_cnt r - 1)"
  have k: "nat (rl_cnt r) = Suc k" "nat (rl_cnt r - 1) = k" using assms(2) by (simp_all add: k_def)
  have b: "rl_pos r + Suc k \<le> length (rl_buf r)" using assms k by (simp add: buffered_ok_def)
  then have "drop (rl_pos r) (rl_buf r) = rl_buf r ! rl_pos r # drop (Suc (rl_pos r)) (rl_buf r)" by (intro Cons_nth_drop_Suc [symmetric]) simp
  then show ?thesis using assms k b by (auto simp: my_read_def buffered_ok_def buffered_rest_def)
qed

interpretation buffered: char_source my_read buffered_ok buffered_rest
proof (unfold_locales, goal_cases)
  case (1 s)
  obtain r c where s: "s = (r, c)" by (cases s)
  have "\<not> 0 < rl_cnt r" using my_read_buffered [of r c] 1 s by auto
  then have "my_read s = fill_read r c" "stream (c_in c) = []" "fair c" using 1 s by (auto simp: my_read_def buffered_rest_def buffered_ok_def)
  then show ?case using fill_read_ok [of c r] by simp
next
  case (2 s ch cs)
  obtain r c where s: "s = (r, c)" by (cases s)
  show ?case
  proof (cases "0 < rl_cnt r")
    case True
    then show ?thesis using my_read_buffered [of r c] 2 s by auto
  next
    case False
    then have "my_read s = fill_read r c" "stream (c_in c) = ch # cs" "fair c" using 2 s by (auto simp: my_read_def buffered_rest_def buffered_ok_def)
    then show ?thesis using fill_read_ok [of c r] by simp
  qed
qed

section \<open>Properties\<close>

text \<open>C13: The buffered \<^verbatim>\<open>readline_r\<close> gives, call after call, the same counts and lines as the \<^verbatim>\<open>readline\<close>
  that reads one character at a time, and they are the lines of the stream in order, however it is cut
  into pieces and even when reads of the buffered version are interrupted by signals.\<close>

theorem readline_r_agrees:
  assumes "calm c" "fair c'" "stream (c_in c') = stream (c_in c)"
  shows "run_lines (readline_r maxlen) k (readline_rinit junk, c') = answers eof_server k maxlen (stream (c_in c)) \<and>
    run_lines (readline maxlen) k c = answers eof_server k maxlen (stream (c_in c))"
proof -
  have "buffered_ok (readline_rinit junk, c')" "buffered_rest (readline_rinit junk, c') = stream (c_in c)"
    using assms(2,3) by (simp_all add: buffered_ok_def buffered_rest_def readline_rinit_def)
  moreover have "readline_r maxlen = readline_loop eof_server my_read maxlen 1 []" "readline maxlen = readline_loop eof_server read1 maxlen 1 []"
    by (simp_all add: fun_eq_iff readline_r_def readline_def)
  ultimately show ?thesis using buffered.run_loop unbuffered.run_loop [OF assms(1)] by simp
qed

definition example_lines :: cbuf where
  "example_lines = [CHR ''a'', CHR ''b'', NL, CHR ''c'']"

theorem readline_r_agrees_witness:
  "run_lines (readline_r 100) 3 (readline_rinit [], \<lparr>c_in = [Bytes [CHR ''a''], Fail EINTR, Bytes [CHR ''b'', NL, CHR ''c'']], c_out = [], c_room = 0\<rparr>) =
     [(3, [CHR ''a'', CHR ''b'', NL, NUL]), (2, [CHR ''c'', NUL]), (0, [])]"
proof -
  let ?c' = "\<lparr>c_in = [Bytes [CHR ''a''], Fail EINTR, Bytes [CHR ''b'', NL, CHR ''c'']], c_out = [], c_room = 0\<rparr>"
  let ?c = "\<lparr>c_in = [Bytes example_lines], c_out = [], c_room = 0\<rparr>"
  have "calm ?c" "fair ?c'" "stream (c_in ?c') = stream (c_in ?c)" by (simp_all add: calm_def fair_def plain_def example_lines_def)
  then have "run_lines (readline_r 100) 3 (readline_rinit [], ?c') = answers eof_server 3 100 example_lines"
    using readline_r_agrees [of ?c ?c' 100 3 "[]"] by simp
  also have "\<dots> = [(3, [CHR ''a'', CHR ''b'', NL, NUL]), (2, [CHR ''c'', NUL]), (0, [])]"
    by (simp add: example_lines_def numeral_eq_Suc answer_def ends_line_def eof_server_def)
  finally show ?thesis .
qed

text \<open>The count is one more than the bytes of the line when there is no newline at its end; the version
  of the threads counts right at the end of the stream.\<close>

lemma server_counts_one_more:
  assumes "cs \<noteq> []" "1 < maxlen" "l = first_line (maxlen - 1) cs" "\<not> ends_line l"
  shows "answer eof_server maxlen cs = (int (length l) + 1, l @ [NUL])"
proof -
  obtain k c t where "maxlen - 1 = Suc k" "cs = c # t" using assms(1,2) by (metis Suc_diff_Suc neq_Nil_conv One_nat_def)
  then have "l \<noteq> []" using assms(3) by simp
  then show ?thesis using assms(3,4) by (simp add: answer_def Let_def eof_server_def)
qed

lemma threads_count: "length l < maxlen - 1 \<Longrightarrow> l = first_line (maxlen - 1) cs \<Longrightarrow> answer eof_threads maxlen cs = (int (length l), l @ [NUL])"
  by (simp add: answer_def Let_def eof_threads_def)

lemma readline_t_lines:
  assumes "fair c" "keys tid = None"
  shows "fst (readline_t tid maxlen (keys, c)) = answer eof_threads maxlen (stream (c_in c))"
proof -
  let ?r = "\<lparr>rl_cnt = 0, rl_pos = 0, rl_buf = replicate RL_MAXLINE NUL\<rparr>"
  have "buffered_ok (?r, c)" "buffered_rest (?r, c) = stream (c_in c)"
    using assms(1) by (simp_all add: buffered_ok_def buffered_rest_def)
  then obtain s' where "readline_loop eof_threads my_read maxlen 1 [] (?r, c) = (answer eof_threads maxlen (stream (c_in c)), s')"
    using buffered.line_answer [of "(?r, c)" maxlen eof_threads] by metis
  then show ?thesis using assms(2) by (cases s') (simp add: readline_t_def)
qed

text \<open>But its buffer belongs to the thread and not to the descriptor: what was read ahead from one is
  returned for another.\<close>

lemma readline_t_mixes:
  "(case readline_t 1 100 (Map.empty, \<lparr>c_in = [Bytes [CHR ''a'', NL, CHR ''b'']], c_out = [], c_room = 0\<rparr>) of
      (_, keys, _) \<Rightarrow> fst (readline_t 1 100 (keys, \<lparr>c_in = [Bytes [CHR ''x'', NL]], c_out = [], c_room = 0\<rparr>))) =
   (3, [CHR ''b'', CHR ''x'', NL, NUL])"
  by (simp add: readline_t_def readline_loop.simps my_read_def fill_read.simps tread.simps)

end
