(* ===== verification/Web_Child.thy ===== *)
theory Web_Child
  imports Readline
begin

text \<open>
  The function that serves one connection in the servers of \<^verbatim>\<open>unpv13e/server\<close>, \<^verbatim>\<open>web_child.c\<close> and, with \<^verbatim>\<open>readline_r\<close>,
  \<^verbatim>\<open>web_child_r.c\<close>: each line is a number of bytes that is sent back.  Both are one loop over the lines of a
  \<open>char_source\<close>.
\<close>

section \<open>The loop\<close>

abbreviation (input) MAXN :: int where "MAXN \<equiv> 16384"

datatype child_end = Conn_closed | Bad_request int | Readline_error | Write_error

text \<open>\<open>ok k\<close> is the success of the \<open>k\<close>-th \<^verbatim>\<open>Writen\<close>; \<open>out\<close> are the numbers of bytes that were sent.\<close>

partial_function (option) child_loop :: "(nat \<Rightarrow> bool) \<Rightarrow> ('s \<Rightarrow> (int \<times> cbuf) \<times> 's) \<Rightarrow> nat list \<Rightarrow> 's \<Rightarrow> (child_end \<times> nat list) option" where
  "child_loop ok rl out s =
     (case rl s of ((nread, line), s) \<Rightarrow>
        if nread < 0 then Some (Readline_error, out)
        else if nread = 0 then Some (Conn_closed, out)
        else let ntowrite = sint (word_of_int (atol line) :: 32 word) in
             if ntowrite \<le> 0 \<or> ntowrite > MAXN then Some (Bad_request ntowrite, out)
             else if \<not> ok (length out) then Some (Write_error, out)
             else child_loop ok rl (out @ [nat ntowrite]) s)"

definition web_child :: "(nat \<Rightarrow> bool) \<Rightarrow> conn \<Rightarrow> (child_end \<times> nat list) option" where
  "web_child ok c = child_loop ok (readline RL_MAXLINE) [] c"

definition web_child_r :: "(nat \<Rightarrow> bool) \<Rightarrow> cbuf \<Rightarrow> conn \<Rightarrow> (child_end \<times> nat list) option" where
  "web_child_r ok junk c = child_loop ok (readline_r RL_MAXLINE) [] (readline_rinit junk, c)"

section \<open>What the client is served\<close>

text \<open>The requests in a sequence of characters.\<close>

function requests :: "(nat \<Rightarrow> bool) \<Rightarrow> nat list \<Rightarrow> cbuf \<Rightarrow> child_end \<times> nat list" where
  "requests ok out cs =
     (let l = first_line (RL_MAXLINE - 1) cs; n = sint (word_of_int (atol (l @ [NUL])) :: 32 word) in
      if l = [] then (Conn_closed, out)
      else if n \<le> 0 \<or> n > MAXN then (Bad_request n, out)
      else if \<not> ok (length out) then (Write_error, out)
      else requests ok (out @ [nat n]) (drop (length l) cs))"
  by auto
termination
proof (relation "measure (\<lambda>(ok, out, cs). length cs)", goal_cases)
  case (2 ok out cs l n)
  then have "cs \<noteq> []" by auto
  then show ?case using 2 by simp
qed simp

declare requests.simps [simp del]

context char_source
begin

lemma child_loop_requests:
  "good s \<Longrightarrow> child_loop ok (readline_loop eof_server getc RL_MAXLINE 1 []) out s = Some (requests ok out (rest s))"
proof (induction "length (rest s)" arbitrary: out s rule: less_induct)
  case less
  let ?l = "first_line (RL_MAXLINE - 1) (rest s)" and ?a = "answer eof_server RL_MAXLINE (rest s)"
  obtain s' where s': "good s'" "rest s' = drop (length ?l) (rest s)"
    "readline_loop eof_server getc RL_MAXLINE 1 [] s = (?a, s')"
    using line_answer [OF less.prems] by blast
  show ?case
  proof (cases "?l = []")
    case True
    then have "fst ?a = 0" by (simp add: answer_def ends_line_def eof_server_def)
    then show ?thesis using s'(3) True by (subst child_loop.simps, subst requests.simps) (auto split: prod.splits)
  next
    case False
    then have a: "snd ?a = ?l @ [NUL]" "0 < fst ?a" by (auto simp: answer_def Let_def ends_line_def eof_server_def)
    have "rest s \<noteq> []" using False by auto
    then have "length (rest s') < length (rest s)" using False s'(2) by simp
    then have ih: "child_loop ok (readline_loop eof_server getc RL_MAXLINE 1 []) out' s' = Some (requests ok out' (rest s'))" for out'
      using less.hyps s'(1) by blast
    obtain n where p: "?a = (n, ?l @ [NUL])" "0 < n" using a by (cases ?a) auto
    show ?thesis
      by (subst child_loop.simps, subst requests.simps) (use s'(2,3) p False ih in \<open>simp add: Let_def del: first_line.simps\<close>)
  qed
qed

end

section \<open>The client\<close>

text \<open>The request of \<^verbatim>\<open>client.c\<close>.\<close>

definition client_request :: "int \<Rightarrow> cbuf" where
  "client_request nbytes = take (RL_MAXLINE - 1) (sdec nbytes @ [NL])"

lemma client_request_dec:
  assumes "n \<le> 16384"
  shows "client_request (int n) = dec n @ [NL]" "length (dec n) \<le> 5"
proof -
  show "length (dec n) \<le> 5" using length_dec_le [of n 5] assms by simp
  then show "client_request (int n) = dec n @ [NL]" by (simp add: client_request_def)
qed

lemma first_line_append: "length l < k \<Longrightarrow> NL \<notin> set l \<Longrightarrow> first_line k (l @ NL # cs) = l @ [NL]"
proof (induction l arbitrary: k)
  case Nil
  then show ?case by (cases k) auto
next
  case (Cons c l)
  then show ?case by (cases k) auto
qed

lemma requests_one:
  assumes "0 < n" "n \<le> 16384" "ok (length out)"
  shows "requests ok out (client_request (int n) @ cs) = requests ok (out @ [n]) cs"
proof -
  note d = client_request_dec [OF assms(2)]
  have l: "first_line (RL_MAXLINE - 1) (dec n @ NL # cs) = dec n @ [NL]" using d(2) by (intro first_line_append) (auto dest: isdigit_dec simp: isdigit_not)
  have "sint (word_of_int (int n) :: 32 word) = int n" using assms(2) unfolding int_word_sint by simp
  moreover have "atol (dec n @ [NL, NUL]) = int n" by (rule atol_dec) (simp add: isdigit_not)
  ultimately have "sint (word_of_int (atol ((dec n @ [NL]) @ [NUL])) :: 32 word) = int n" by simp
  then show ?thesis by (subst requests.simps) (use l d(1) assms in \<open>simp add: Let_def\<close>)
qed

lemma requests_served:
  assumes "\<forall>n \<in> set ns. 0 < n \<and> n \<le> 16384" "\<forall>k < length out + length ns. ok k"
  shows "requests ok out (concat (map (\<lambda>n. client_request (int n)) ns)) = (Conn_closed, out @ ns)"
  using assms
proof (induction ns arbitrary: out)
  case Nil
  then show ?case by (simp add: requests.simps)
next
  case (Cons n ns)
  then show ?case using requests_one [of n ok out] Cons.IH [of "out @ [n]"] by simp
qed

section \<open>Properties\<close>

text \<open>Both versions return, and do the same, on every sequence of bytes, however it is cut into pieces: they serve its lines in order up to its
  end, the first line that is not a number from 1 to 16384, or the first failing write.  Requests of the client
  \<^verbatim>\<open>client.c\<close> are served one by one with the number of bytes asked for, until the client closes the connection.\<close>

theorem web_child_serves:
  assumes "calm c" "fair c'" "stream (c_in c') = stream (c_in c)"
  shows "web_child ok c = Some (requests ok [] (stream (c_in c))) \<and>
    web_child_r ok junk c' = Some (requests ok [] (stream (c_in c))) \<and>
    (\<forall>ns. stream (c_in c) = concat (map (\<lambda>n. client_request (int n)) ns) \<and> (\<forall>n \<in> set ns. 0 < n \<and> n \<le> 16384) \<and> (\<forall>k < length ns. ok k) \<longrightarrow>
      requests ok [] (stream (c_in c)) = (Conn_closed, ns))"
proof -
  have b: "buffered_ok (readline_rinit junk, c')" "buffered_rest (readline_rinit junk, c') = stream (c_in c)"
    using assms(2,3) by (simp_all add: buffered_ok_def buffered_rest_def readline_rinit_def)
  have f: "readline_r RL_MAXLINE = readline_loop eof_server my_read RL_MAXLINE 1 []" "readline RL_MAXLINE = readline_loop eof_server read1 RL_MAXLINE 1 []"
    by (simp_all add: fun_eq_iff readline_r_def readline_def)
  show ?thesis unfolding web_child_def web_child_r_def f
    using unbuffered.child_loop_requests [OF assms(1)] buffered.child_loop_requests [OF b(1)] b(2) requests_served [where out = "[]"] by auto
qed

theorem web_child_serves_witness:
  "web_child (\<lambda>_. True) \<lparr>c_in = [Bytes (client_request 4000 @ client_request 3)], c_out = [], c_room = 0\<rparr> = Some (Conn_closed, [4000, 3]) \<and>
   web_child_r (\<lambda>_. True) [] \<lparr>c_in = [Bytes (client_request 4000), Fail EINTR, Bytes (client_request 3)], c_out = [], c_room = 0\<rparr> = Some (Conn_closed, [4000, 3])"
proof -
  let ?c = "\<lparr>c_in = [Bytes (client_request 4000 @ client_request 3)], c_out = [], c_room = 0\<rparr>"
  let ?c' = "\<lparr>c_in = [Bytes (client_request 4000), Fail EINTR, Bytes (client_request 3)], c_out = [], c_room = 0\<rparr>"
  have n: "client_request 4000 \<noteq> []" "client_request 3 \<noteq> []" using client_request_dec(1) [of 4000] client_request_dec(1) [of 3] by auto
  have "calm ?c" "fair ?c'" "stream (c_in ?c') = stream (c_in ?c)" by (simp_all add: calm_def fair_def plain_def n)
  note w = web_child_serves [OF this, of "\<lambda>_. True" "[]"]
  have "stream (c_in ?c) = concat (map (\<lambda>n. client_request (int n)) [4000, 3])" by simp
  then have "requests (\<lambda>_. True) [] (stream (c_in ?c)) = (Conn_closed, [4000, 3])"
    using spec [OF conjunct2 [OF conjunct2 [OF w]], of "[4000, 3]"] by simp
  then show ?thesis using w by simp
qed

end
