(* ===== verification/Echo_Client.thy ===== *)
theory Echo_Client
  imports C_Prelude "HOL-Library.Sublist"
begin

text \<open>
  The echo client of \<^verbatim>\<open>unpv13e\<close> that copies its standard input to a socket and the socket to its
  standard output, in the version with nonblocking descriptors and two buffers
  (\<^verbatim>\<open>nonblock/strclinonb.c\<close>) and in the version with blocking calls (\<^verbatim>\<open>select/strcliselect02.c\<close>).  One
  round of each loop is a function of what \<^verbatim>\<open>select\<close>, \<^verbatim>\<open>read\<close> and \<^verbatim>\<open>write\<close> report.  The locale \<open>relay\<close>
  states what both promise.
\<close>

section \<open>Descriptors\<close>

abbreviation (input) MAXLINE :: nat where "MAXLINE \<equiv> 4096"
abbreviation (input) EWOULDBLOCK :: int where "EWOULDBLOCK \<equiv> 11"

text \<open>The result of a \<^verbatim>\<open>read\<close>: an error number, or the bytes that are there (none at the end of the
  file), of which the call takes as many as it asked for.  The result of a \<^verbatim>\<open>write\<close>: an error number,
  or how many bytes there is room for.\<close>

datatype rd = Rd_err int | Rd_data cbuf
datatype wr = Wr_err int | Wr_room nat

datatype cli_stop = Returned | Err_sys string | Err_quit string

text \<open>The bytes that went through the four descriptors so far, and at which lengths of \<open>sock_out\<close>
  the sending half of the connection was shut down.\<close>

record traffic =
  std_in :: cbuf
  sock_out :: cbuf
  sock_in :: cbuf
  std_out :: cbuf
  fins :: "nat list"

text \<open>What one round meets: the descriptors that are ready, and the results of the calls.\<close>

record cli_io =
  r_stdin :: bool
  r_sock :: bool
  w_stdout :: bool
  w_sock :: bool
  rd_stdin :: rd
  rd_sock :: rd
  wr_stdout :: wr
  wr_sock :: wr

definition shutdown_wr :: "'a traffic_scheme \<Rightarrow> 'a traffic_scheme" where
  "shutdown_wr s = s\<lparr>fins := fins s @ [length (sock_out s)]\<rparr>"

section \<open>The nonblocking version\<close>

record nb_cli = traffic +
  to_buf :: cbuf
  toiptr :: nat
  tooptr :: nat
  fr_buf :: cbuf
  friptr :: nat
  froptr :: nat
  stdineof :: bool

definition nb_start :: "cbuf \<Rightarrow> cbuf \<Rightarrow> nb_cli" where
  "nb_start to fr = \<lparr>std_in = [], sock_out = [], sock_in = [], std_out = [], fins = [],
     to_buf = to, toiptr = 0, tooptr = 0, fr_buf = fr, friptr = 0, froptr = 0, stdineof = False\<rparr>"

text \<open>The descriptors that the round asks \<^verbatim>\<open>select\<close> about, in the order standard input, socket
  (reading), standard output, socket (writing).\<close>

definition nb_sets :: "nb_cli \<Rightarrow> bool \<times> bool \<times> bool \<times> bool" where
  "nb_sets s = (\<not> stdineof s \<and> toiptr s < MAXLINE, friptr s < MAXLINE, froptr s \<noteq> friptr s, tooptr s \<noteq> toiptr s)"

definition nb_read_stdin :: "rd \<Rightarrow> nb_cli \<Rightarrow> (cli_stop \<times> nb_cli) + (bool \<times> nb_cli)" where
  "nb_read_stdin r s =
     (case r of
        Rd_err e \<Rightarrow> if e \<noteq> EWOULDBLOCK then Inl (Err_sys ''read error on stdin'', s) else Inr (False, s)
      | Rd_data bs \<Rightarrow>
          let bs = take (MAXLINE - toiptr s) bs in
          if bs = [] then
            let s = s\<lparr>stdineof := True\<rparr>
            in Inr (False, if tooptr s = toiptr s then shutdown_wr s else s)
          else Inr (True, s\<lparr>std_in := std_in s @ bs, to_buf := pwrite (to_buf s) (toiptr s) bs,
                            toiptr := toiptr s + length bs\<rparr>))"

definition nb_read_sock :: "rd \<Rightarrow> nb_cli \<Rightarrow> (cli_stop \<times> nb_cli) + (bool \<times> nb_cli)" where
  "nb_read_sock r s =
     (case r of
        Rd_err e \<Rightarrow> if e \<noteq> EWOULDBLOCK then Inl (Err_sys ''read error on socket'', s) else Inr (False, s)
      | Rd_data bs \<Rightarrow>
          let bs = take (MAXLINE - friptr s) bs in
          if bs = [] then
            (if stdineof s then Inl (Returned, s)
             else Inl (Err_quit ''str_cli: server terminated prematurely'', s))
          else Inr (True, s\<lparr>sock_in := sock_in s @ bs, fr_buf := pwrite (fr_buf s) (friptr s) bs,
                            friptr := friptr s + length bs\<rparr>))"

definition nb_write_stdout :: "wr \<Rightarrow> nb_cli \<Rightarrow> (cli_stop \<times> nb_cli) + nb_cli" where
  "nb_write_stdout w s =
     (case w of
        Wr_err e \<Rightarrow> if e \<noteq> EWOULDBLOCK then Inl (Err_sys ''write error to stdout'', s) else Inr s
      | Wr_room k \<Rightarrow>
          let bs = take k (pread (fr_buf s) (froptr s) (friptr s - froptr s));
              s = s\<lparr>std_out := std_out s @ bs, froptr := froptr s + length bs\<rparr>
          in Inr (if froptr s = friptr s then s\<lparr>froptr := 0, friptr := 0\<rparr> else s))"

definition nb_write_sock :: "wr \<Rightarrow> nb_cli \<Rightarrow> (cli_stop \<times> nb_cli) + nb_cli" where
  "nb_write_sock w s =
     (case w of
        Wr_err e \<Rightarrow> if e \<noteq> EWOULDBLOCK then Inl (Err_sys ''write error to socket'', s) else Inr s
      | Wr_room k \<Rightarrow>
          let bs = take k (pread (to_buf s) (tooptr s) (toiptr s - tooptr s));
              s = s\<lparr>sock_out := sock_out s @ bs, tooptr := tooptr s + length bs\<rparr>
          in Inr (if tooptr s = toiptr s
                  then let s = s\<lparr>tooptr := 0, toiptr := 0\<rparr> in if stdineof s then shutdown_wr s else s
                  else s))"

definition nb_round :: "cli_io \<Rightarrow> nb_cli \<Rightarrow> (cli_stop \<times> nb_cli) + nb_cli" where
  "nb_round io s =
     (case nb_sets s of (ri, rs, wo, ws) \<Rightarrow>
      andthen (if ri \<and> r_stdin io then nb_read_stdin (rd_stdin io) s else Inr (False, s)) (\<lambda>(ws', s).
      andthen (if rs \<and> r_sock io then nb_read_sock (rd_sock io) s else Inr (False, s)) (\<lambda>(wo', s).
      andthen (if (wo \<and> w_stdout io \<or> wo') \<and> froptr s < friptr s then nb_write_stdout (wr_stdout io) s else Inr s) (\<lambda>s.
      if (ws \<and> w_sock io \<or> ws') \<and> tooptr s < toiptr s then nb_write_sock (wr_sock io) s else Inr s))))"

section \<open>The blocking version\<close>

record sel_cli = traffic +
  sc_stdineof :: bool

definition sc_start :: sel_cli where
  "sc_start = \<lparr>std_in = [], sock_out = [], sock_in = [], std_out = [], fins = [], sc_stdineof = False\<rparr>"

text \<open>The wrappers \<^verbatim>\<open>Read\<close>, \<^verbatim>\<open>Write\<close> and \<^verbatim>\<open>Writen\<close> end the program on an error; \<^verbatim>\<open>Write\<close> and
  \<^verbatim>\<open>Writen\<close> also when not everything was written.\<close>

definition sc_sock :: "cli_io \<Rightarrow> sel_cli \<Rightarrow> (cli_stop \<times> sel_cli) + sel_cli" where
  "sc_sock io s =
     (case rd_sock io of
        Rd_err e \<Rightarrow> Inl (Err_sys ''read error'', s)
      | Rd_data bs \<Rightarrow>
          let bs = take MAXLINE bs in
          if bs = [] then
            (if sc_stdineof s then Inl (Returned, s)
             else Inl (Err_quit ''str_cli: server terminated prematurely'', s))
          else let s = s\<lparr>sock_in := sock_in s @ bs\<rparr> in
            (case wr_stdout io of
               Wr_err e \<Rightarrow> Inl (Err_sys ''write error'', s)
             | Wr_room k \<Rightarrow> let s' = s\<lparr>std_out := std_out s @ take k bs\<rparr>
                 in if k < length bs then Inl (Err_sys ''write error'', s') else Inr s'))"

definition sc_stdin :: "cli_io \<Rightarrow> sel_cli \<Rightarrow> (cli_stop \<times> sel_cli) + sel_cli" where
  "sc_stdin io s =
     (case rd_stdin io of
        Rd_err e \<Rightarrow> Inl (Err_sys ''read error'', s)
      | Rd_data bs \<Rightarrow>
          let bs = take MAXLINE bs in
          if bs = [] then Inr (shutdown_wr (s\<lparr>sc_stdineof := True\<rparr>))
          else let s = s\<lparr>std_in := std_in s @ bs\<rparr> in
            (case wr_sock io of
               Wr_err e \<Rightarrow> Inl (Err_sys ''writen error'', s)
             | Wr_room k \<Rightarrow> let s' = s\<lparr>sock_out := sock_out s @ take k bs\<rparr>
                 in if k < length bs then Inl (Err_sys ''writen error'', s') else Inr s'))"

definition sc_round :: "cli_io \<Rightarrow> sel_cli \<Rightarrow> (cli_stop \<times> sel_cli) + sel_cli" where
  "sc_round io s =
     andthen (if r_sock io then sc_sock io s else Inr s) (\<lambda>s'.
     if \<not> sc_stdineof s \<and> r_stdin io then sc_stdin io s' else Inr s')"

section \<open>What a relay promises\<close>

text \<open>Running rounds until the loop is left.\<close>

fun relay_run :: "('e \<Rightarrow> 's \<Rightarrow> (cli_stop \<times> 's) + 's) \<Rightarrow> 'e list \<Rightarrow> 's \<Rightarrow> (cli_stop \<times> 's) + 's" where
  "relay_run round [] s = Inr s"
| "relay_run round (e # es) s = andthen (round e s) (relay_run round es)"

text \<open>Both directions deliver a prefix of what was read, and the connection is shut down at most
  once, after everything was sent.\<close>

definition relayed :: "'a traffic_scheme \<Rightarrow> bool" where
  "relayed s \<longleftrightarrow> prefix (sock_out s) (std_in s) \<and> prefix (std_out s) (sock_in s) \<and>
     (fins s = [] \<or> fins s = [length (sock_out s)] \<and> sock_out s = std_in s)"

locale relay =
  fixes round :: "'e \<Rightarrow> 'a traffic_scheme \<Rightarrow> (cli_stop \<times> 'a traffic_scheme) + 'a traffic_scheme"
    and inv :: "'a traffic_scheme \<Rightarrow> bool" and final :: "cli_stop \<Rightarrow> 'a traffic_scheme \<Rightarrow> bool"
  assumes keeps: "inv s \<Longrightarrow> round e s = Inr s' \<Longrightarrow> inv s'"
    and leaves: "inv s \<Longrightarrow> round e s = Inl (r, s') \<Longrightarrow> final r s'"
    and faithful: "inv s \<Longrightarrow> relayed s" "final r s \<Longrightarrow> relayed s"
begin

lemma run_keeps: "inv s \<Longrightarrow> relay_run round es s = Inr s' \<Longrightarrow> inv s'"
  by (induction es arbitrary: s) (auto simp: andthen_Inr_iff intro: keeps)

lemma run_leaves: "inv s \<Longrightarrow> relay_run round es s = Inl (r, s') \<Longrightarrow> final r s'"
  by (induction es arbitrary: s) (auto simp: andthen_Inl_iff intro: keeps leaves)

lemma run_relayed: "inv s \<Longrightarrow> relayed (case relay_run round es s of Inl (r, s') \<Rightarrow> s' | Inr s' \<Rightarrow> s')"
  using run_keeps run_leaves faithful by (auto split: sum.split) blast+

end

section \<open>The buffers\<close>

text \<open>A buffer between an input and an output: the bytes between its two pointers are those that
  were read and not yet written, and an empty buffer starts at its beginning.\<close>

definition half :: "cbuf \<Rightarrow> cbuf \<Rightarrow> cbuf \<Rightarrow> nat \<Rightarrow> nat \<Rightarrow> bool" where
  "half inp out buf i p \<longleftrightarrow> p \<le> i \<and> i \<le> MAXLINE \<and> length buf = MAXLINE \<and>
     inp = out @ pread buf p (i - p) \<and> (p = i \<longrightarrow> i = 0)"

lemma half_start: "length buf = MAXLINE \<Longrightarrow> half [] [] buf 0 0"
  by (simp add: half_def pread_def)

lemma half_fill:
  assumes "half inp out buf i p" "length bs \<le> MAXLINE - i" "bs \<noteq> []"
  shows "half (inp @ bs) out (pwrite buf i bs) (i + length bs) p"
proof -
  have h: "p \<le> i" "i \<le> MAXLINE" "length buf = MAXLINE" "inp = out @ pread buf p (i - p)"
    using assms(1) by (auto simp: half_def)
  have "pread (pwrite buf i bs) p (i + length bs - p) = pread buf p (i - p) @ bs"
    using h by (simp add: pread_def pwrite_def take_drop drop_append)
  moreover have "0 < length bs" using assms(3) by simp
  ultimately show ?thesis using h assms(2) by (auto simp: half_def layout)
qed

lemma half_fill_take:
  assumes "half inp out buf i p" "i < MAXLINE" "bs \<noteq> []"
  shows "half (inp @ take (MAXLINE - i) bs) out (pwrite buf i (take (MAXLINE - i) bs)) (i + min (length bs) (MAXLINE - i)) p"
  using half_fill [OF assms(1), of "take (MAXLINE - i) bs"] assms(2,3) by simp

lemma half_drain:
  fixes k :: nat
  assumes "half inp out buf i p" "p < i"
  defines "bs \<equiv> take k (pread buf p (i - p))"
  shows "length bs \<le> i - p" "p + length bs = i \<Longrightarrow> half inp (out @ bs) buf 0 0"
    "p + length bs \<noteq> i \<Longrightarrow> half inp (out @ bs) buf i (p + length bs)"
proof -
  have h: "p \<le> i" "i \<le> MAXLINE" "length buf = MAXLINE" "inp = out @ pread buf p (i - p)"
    using assms(1) by (auto simp: half_def)
  have l: "length (pread buf p (i - p)) = i - p" using h by (simp add: pread_def)
  show a: "length bs \<le> i - p" using l by (simp add: bs_def)
  have e: "pread buf p (i - p) = bs @ pread buf (p + length bs) (i - (p + length bs))" (is "_ = bs @ ?r")
  proof -
    have b: "bs = take (length bs) (pread buf p (i - p))" by (simp add: bs_def min_def)
    have "drop (length bs) (pread buf p (i - p)) = ?r"
      by (simp add: pread_def drop_take add.commute)
    then show ?thesis using b append_take_drop_id by metis
  qed
  show "half inp (out @ bs) buf 0 0" if "p + length bs = i"
    using that h e by (simp add: half_def pread_def)
  show "half inp (out @ bs) buf i (p + length bs)" if "p + length bs \<noteq> i"
    using that h e a by (simp add: half_def)
qed

lemma half_prefix: "half inp out buf i p \<Longrightarrow> prefix out inp"
  by (auto simp: half_def)

lemma half_empty: "half inp out buf i i \<Longrightarrow> out = inp"
  by (simp add: half_def pread_def)

section \<open>The nonblocking client\<close>

definition nb_inv :: "nb_cli \<Rightarrow> bool" where
  "nb_inv s \<longleftrightarrow> half (std_in s) (sock_out s) (to_buf s) (toiptr s) (tooptr s) \<and>
     half (sock_in s) (std_out s) (fr_buf s) (friptr s) (froptr s) \<and>
     fins s = (if stdineof s \<and> tooptr s = toiptr s then [length (sock_out s)] else [])"

lemma half_pointers: "half inp out buf i p \<Longrightarrow> p \<le> i"
  by (simp add: half_def)

text \<open>What holds when the loop is left.\<close>

abbreviation (input) nb_final :: "cli_stop \<times> nb_cli \<Rightarrow> bool" where
  "nb_final \<equiv> \<lambda>(r, s). nb_inv s \<and> (r = Returned \<longrightarrow> stdineof s)"

lemma nb_read_stdin_ok: "nb_inv s \<Longrightarrow> \<not> stdineof s \<Longrightarrow> yields (\<lambda>(b, s). nb_inv s) nb_final (nb_read_stdin r s)"
  by (auto simp: nb_inv_def nb_read_stdin_def Let_def shutdown_wr_def not_le intro: half_fill_take
      dest: half_pointers split: rd.splits)

lemma nb_read_sock_ok: "nb_inv s \<Longrightarrow> yields (\<lambda>(b, s). nb_inv s) nb_final (nb_read_sock r s)"
  by (auto simp: nb_inv_def nb_read_sock_def Let_def not_le intro: half_fill_take split: rd.splits)

lemma nb_write_stdout_ok: "nb_inv s \<Longrightarrow> froptr s < friptr s \<Longrightarrow> yields nb_inv nb_final (nb_write_stdout w s)"
  by (auto simp: nb_inv_def nb_write_stdout_def Let_def intro: half_drain simp del: length_take split: wr.splits)

lemma nb_write_sock_ok: "nb_inv s \<Longrightarrow> tooptr s < toiptr s \<Longrightarrow> yields nb_inv nb_final (nb_write_sock w s)"
  by (auto simp: nb_inv_def nb_write_sock_def Let_def shutdown_wr_def intro: half_drain simp del: length_take split: wr.splits)

lemma nb_round_ok: "nb_inv s \<Longrightarrow> yields nb_inv nb_final (nb_round io s)"
  unfolding nb_round_def nb_sets_def prod.case
  by (rule yields_andthen_pair [of nb_inv], simp add: nb_read_stdin_ok, rule yields_andthen_pair [of nb_inv],
      simp add: nb_read_sock_ok, rule yields_andthen [of nb_inv], simp add: nb_write_stdout_ok, simp add: nb_write_sock_ok)

lemma nb_inv_relayed: "nb_inv s \<Longrightarrow> relayed s"
  by (auto simp: nb_inv_def relayed_def half_prefix half_empty)

interpretation nb: relay nb_round nb_inv "\<lambda>r s. nb_inv s \<and> (r = Returned \<longrightarrow> stdineof s)"
  by unfold_locales (auto dest: yieldsD [OF nb_round_ok] nb_inv_relayed)

lemma nb_start_inv: "length to = MAXLINE \<Longrightarrow> length fr = MAXLINE \<Longrightarrow> nb_inv (nb_start to fr)"
  by (simp add: nb_inv_def nb_start_def half_start)

text \<open>The round always waits for something, and a socket that takes the bytes gets all of them.\<close>

lemma nb_waits: "nb_inv s \<Longrightarrow> nb_sets s \<noteq> (False, False, False, False)"
  by (auto simp: nb_inv_def nb_sets_def half_def)

lemma nb_drains:
  assumes "nb_inv s" "w_sock io" "wr_sock io = Wr_room k" "MAXLINE \<le> k" "\<not> r_stdin io" "\<not> r_sock io" "\<not> w_stdout io"
  shows "\<exists>s'. nb_round io s = Inr s' \<and> sock_out s' = std_in s \<and> std_in s' = std_in s \<and>
    fins s' = (if stdineof s then [length (std_in s)] else [])"
proof (cases "tooptr s = toiptr s")
  case True
  then show ?thesis using assms half_empty by (fastforce simp: nb_round_def nb_sets_def nb_inv_def)
next
  case False
  let ?p = "pread (to_buf s) (tooptr s) (toiptr s - tooptr s)"
  have h: "tooptr s < toiptr s" "std_in s = sock_out s @ ?p" "length ?p = toiptr s - tooptr s" "toiptr s \<le> MAXLINE" "fins s = []"
    using assms(1) False by (auto simp: nb_inv_def half_def pread_def)
  then have "take k ?p = ?p" using assms(4) by simp
  then have "nb_write_sock (Wr_room k) s = Inr (let t = s\<lparr>sock_out := std_in s, tooptr := 0, toiptr := 0\<rparr>
      in if stdineof s then shutdown_wr t else t)"
    using h by (simp add: nb_write_sock_def Let_def)
  moreover have "nb_round io s = nb_write_sock (Wr_room k) s"
    using assms h False by (simp add: nb_round_def nb_sets_def)
  ultimately show ?thesis using h by (simp add: Let_def shutdown_wr_def)
qed

text \<open>C20: After any rounds of the nonblocking client its pointers are within the buffers; the bytes
  that were read from standard input are those that were written to the socket followed by those
  between the pointers, and likewise from the socket to standard output; the connection is shut down
  exactly when the input has ended and everything was written, at that point and only once; the
  loop waits for at least one descriptor.  It returns only after the end of the input.\<close>

theorem nb_client_relays:
  assumes "length to = MAXLINE" "length fr = MAXLINE"
  shows "case relay_run nb_round ios (nb_start to fr) of
      Inr s \<Rightarrow> tooptr s \<le> toiptr s \<and> toiptr s \<le> MAXLINE \<and> froptr s \<le> friptr s \<and> friptr s \<le> MAXLINE \<and>
        std_in s = sock_out s @ pread (to_buf s) (tooptr s) (toiptr s - tooptr s) \<and>
        sock_in s = std_out s @ pread (fr_buf s) (froptr s) (friptr s - froptr s) \<and>
        fins s = (if stdineof s \<and> sock_out s = std_in s then [length (sock_out s)] else []) \<and>
        nb_sets s \<noteq> (False, False, False, False)
    | Inl (r, s) \<Rightarrow> relayed s \<and> (r = Returned \<longrightarrow> stdineof s)"
proof (cases "relay_run nb_round ios (nb_start to fr)")
  case (Inl x)
  then show ?thesis using nb.run_leaves [OF nb_start_inv [OF assms]] nb_inv_relayed by (cases x) fastforce
next
  case (Inr s)
  have i: "nb_inv s" using nb.run_keeps [OF nb_start_inv [OF assms] Inr] .
  have h: "half (std_in s) (sock_out s) (to_buf s) (toiptr s) (tooptr s)" "half (sock_in s) (std_out s) (fr_buf s) (friptr s) (froptr s)"
    using i by (simp_all add: nb_inv_def)
  have "tooptr s = toiptr s \<longleftrightarrow> sock_out s = std_in s" using h(1) by (auto simp: half_def pread_def)
  then have "fins s = (if stdineof s \<and> sock_out s = std_in s then [length (sock_out s)] else [])"
    using i by (simp add: nb_inv_def)
  then show ?thesis using h [unfolded half_def] nb_waits [OF i] by (unfold Inr sum.case) blast
qed

text \<open>The reply of the server is lost when it could not be written before the connection ends: the
  client returns with bytes of the socket still in its buffer.\<close>

definition idle_io :: cli_io where
  "idle_io = \<lparr>r_stdin = False, r_sock = False, w_stdout = False, w_sock = False, rd_stdin = Rd_data [], rd_sock = Rd_data [],
     wr_stdout = Wr_err EWOULDBLOCK, wr_sock = Wr_err EWOULDBLOCK\<rparr>"

theorem nb_client_loses_reply:
  assumes "length to = MAXLINE" "length fr = MAXLINE" "bs \<noteq> []" "length bs < MAXLINE"
  shows "\<exists>s. relay_run nb_round [idle_io\<lparr>r_stdin := True, r_sock := True, rd_sock := Rd_data bs\<rparr>, idle_io\<lparr>r_sock := True\<rparr>]
      (nb_start to fr) = Inl (Returned, s) \<and> sock_in s = bs \<and> std_out s = []"
proof -
  let ?s = "(nb_start to fr)\<lparr>stdineof := True, fins := [0], sock_in := bs, fr_buf := pwrite fr 0 bs, friptr := length bs\<rparr>"
  have "take MAXLINE bs = bs" using assms(4) by simp
  then have "nb_round (idle_io\<lparr>r_stdin := True, r_sock := True, rd_sock := Rd_data bs\<rparr>) (nb_start to fr) = Inr ?s"
    using assms(3) by (simp add: nb_round_def nb_sets_def nb_start_def nb_read_stdin_def nb_read_sock_def nb_write_stdout_def
        idle_io_def shutdown_wr_def)
  moreover have "nb_round (idle_io\<lparr>r_sock := True\<rparr>) ?s = Inl (Returned, ?s)"
    using assms(4) by (simp add: nb_round_def nb_sets_def nb_start_def nb_read_sock_def idle_io_def)
  ultimately show ?thesis by (simp add: nb_start_def)
qed

theorem nb_client_relays_witness:
  "\<exists>s. relay_run nb_round [idle_io\<lparr>r_stdin := True, r_sock := True, rd_sock := Rd_data ''ab''\<rparr>, idle_io\<lparr>r_sock := True\<rparr>]
      (nb_start (replicate MAXLINE NUL) (replicate MAXLINE NUL)) = Inl (Returned, s) \<and>
    sock_in s = ''ab'' \<and> std_out s = [] \<and> relayed s \<and> stdineof s"
proof -
  let ?b = "replicate MAXLINE NUL"
  let ?ios = "[idle_io\<lparr>r_stdin := True, r_sock := True, rd_sock := Rd_data ''ab''\<rparr>, idle_io\<lparr>r_sock := True\<rparr>]"
  obtain s where s: "relay_run nb_round ?ios (nb_start ?b ?b) = Inl (Returned, s)" "sock_in s = ''ab''" "std_out s = []"
    using nb_client_loses_reply [of ?b ?b "''ab''"] by auto
  have "relayed s \<and> (Returned = Returned \<longrightarrow> stdineof s)"
    using nb_client_relays [of ?b ?b ?ios, unfolded s(1)] by simp
  then show ?thesis using s by blast
qed

section \<open>The blocking client\<close>

text \<open>Between the rounds everything that was read has been written.\<close>

definition sc_inv :: "sel_cli \<Rightarrow> bool" where
  "sc_inv s \<longleftrightarrow> sock_out s = std_in s \<and> std_out s = sock_in s \<and>
     fins s = (if sc_stdineof s then [length (sock_out s)] else [])"

abbreviation (input) sc_final :: "cli_stop \<times> sel_cli \<Rightarrow> bool" where
  "sc_final \<equiv> \<lambda>(r, s). relayed s \<and> (r = Returned \<longrightarrow> sc_inv s \<and> sc_stdineof s)"

lemma sc_sock_ok: "sc_inv s \<Longrightarrow> yields (\<lambda>t. sc_inv t \<and> sc_stdineof t = sc_stdineof s) sc_final (sc_sock io s)"
  by (auto simp: sc_inv_def relayed_def sc_sock_def Let_def take_is_prefix not_less simp del: take_take length_take split: rd.splits wr.splits)

lemma sc_stdin_ok: "sc_inv s \<Longrightarrow> \<not> sc_stdineof s \<Longrightarrow> yields sc_inv sc_final (sc_stdin io s)"
  by (auto simp: sc_inv_def relayed_def sc_stdin_def shutdown_wr_def Let_def take_is_prefix not_less simp del: take_take length_take split: rd.splits wr.splits)

lemma sc_round_ok: "sc_inv s \<Longrightarrow> yields sc_inv sc_final (sc_round io s)"
  unfolding sc_round_def
  by (rule yields_andthen [of "\<lambda>t. sc_inv t \<and> sc_stdineof t = sc_stdineof s"]) (simp_all add: sc_sock_ok sc_stdin_ok)

interpretation sc: relay sc_round sc_inv "\<lambda>r s. relayed s \<and> (r = Returned \<longrightarrow> sc_inv s \<and> sc_stdineof s)"
proof
  show "relayed s" if "sc_inv s" for s using that by (auto simp: sc_inv_def relayed_def)
qed (auto dest: yieldsD [OF sc_round_ok])

text \<open>The blocking client loses nothing: whatever rounds it runs, both directions have delivered
  a prefix of what was read, and when it returns everything that came from the input was sent, then
  the connection was shut down, and everything that came back was written.\<close>

theorem sel_client_lossless:
  "case relay_run sc_round ios sc_start of
     Inr s \<Rightarrow> sock_out s = std_in s \<and> std_out s = sock_in s
   | Inl (r, s) \<Rightarrow> relayed s \<and>
       (r = Returned \<longrightarrow> sock_out s = std_in s \<and> fins s = [length (std_in s)] \<and> std_out s = sock_in s)"
proof -
  have i: "sc_inv sc_start" by (simp add: sc_inv_def sc_start_def)
  show ?thesis using sc.run_keeps [OF i, of ios] sc.run_leaves [OF i, of ios]
    by (auto simp: sc_inv_def split: sum.splits)
qed

theorem sel_client_lossless_witness:
  "\<exists>s. relay_run sc_round [idle_io\<lparr>r_stdin := True, rd_stdin := Rd_data ''ab'', wr_sock := Wr_room 2\<rparr>,
        idle_io\<lparr>r_sock := True, rd_sock := Rd_data ''AB'', wr_stdout := Wr_room 9\<rparr>, idle_io\<lparr>r_stdin := True\<rparr>, idle_io\<lparr>r_sock := True\<rparr>]
      sc_start = Inl (Returned, s) \<and> std_in s = ''ab'' \<and> sock_out s = ''ab'' \<and> fins s = [2] \<and> std_out s = ''AB''"
    (is "\<exists>s. relay_run sc_round ?ios sc_start = _ \<and> _")
proof -
  have "relay_run sc_round ?ios sc_start =
      Inl (Returned, \<lparr>std_in = ''ab'', sock_out = ''ab'', sock_in = ''AB'', std_out = ''AB'', fins = [2], sc_stdineof = True\<rparr>)"
    by (simp add: sc_round_def sc_sock_def sc_stdin_def sc_start_def shutdown_wr_def idle_io_def Let_def)
  then show ?thesis using sel_client_lossless [of ?ios] by auto
qed

end
