(* ===== verification/Counted_Scan.thy ===== *)
theory Counted_Scan
  imports C_Prelude
begin

text \<open>
  A loop over an array of descriptors that stops early: \<^verbatim>\<open>select\<close> and \<^verbatim>\<open>poll\<close> return how many
  descriptors are ready, the loop counts down for each one it has served and breaks when the count is used up.  The
  locale \<open>one_by_one\<close> says when the break skips nothing.  The echo servers (theories \<^verbatim>\<open>Echo_Server_Model\<close>, \<^verbatim>\<open>Echo_Servers\<close>) and the pool of
  processes (theory \<^verbatim>\<open>Server_Pool\<close>) use it.
\<close>

fun counted :: "(int \<Rightarrow> bool) \<Rightarrow> (nat \<Rightarrow> 's \<Rightarrow> bool) \<Rightarrow> (nat \<Rightarrow> 's \<Rightarrow> 'e + 's) \<Rightarrow> nat list \<Rightarrow> int \<Rightarrow> 's \<Rightarrow> 'e + 's" where
  "counted stop due serve [] n s = Inr s"
| "counted stop due serve (i # is) n s =
     (if due i s then andthen (serve i s) (\<lambda>s. if stop (n - 1) then Inr s else counted stop due serve is (n - 1) s)
      else counted stop due serve is n s)"

text \<open>The loop without the break.\<close>

abbreviation scan_all :: "(nat \<Rightarrow> 's \<Rightarrow> bool) \<Rightarrow> (nat \<Rightarrow> 's \<Rightarrow> 'e + 's) \<Rightarrow> nat list \<Rightarrow> 's \<Rightarrow> 'e + 's" where
  "scan_all due serve is s \<equiv> counted (\<lambda>_. False) due serve is 0 s"

lemma counted_none: "filter (\<lambda>i. due i s) is = [] \<Longrightarrow> counted stop due serve is n s = Inr s"
  by (induction "is") (auto split: if_splits)

lemma counted_no_stop: "counted (\<lambda>_. False) due serve is n s = counted (\<lambda>_. False) due serve is m s"
proof (induction "is" arbitrary: n m s)
  case (Cons i "is")
  have "counted (\<lambda>_. False) due serve is (n - 1) t = counted (\<lambda>_. False) due serve is (m - 1) t" for t by (rule Cons.IH)
  then show ?case using Cons.IH [of n s m] by simp
qed simp

text \<open>What holds for the part of the array that has been passed.\<close>

lemma scan_all_prefix:
  assumes "\<And>ps i qs s. is = ps @ i # qs \<Longrightarrow> Q ps s \<Longrightarrow> due i s \<Longrightarrow> yields (Q (ps @ [i])) E (serve i s)"
    and "\<And>ps i qs s. is = ps @ i # qs \<Longrightarrow> Q ps s \<Longrightarrow> \<not> due i s \<Longrightarrow> Q (ps @ [i]) s"
    and "Q [] s"
  shows "yields (Q is) E (scan_all due serve is s)"
proof -
  have "yields (Q is) E (scan_all due serve qs s)" if "is = ps @ qs" "Q ps s" for ps qs s
    using that
  proof (induction qs arbitrary: ps s)
    case (Cons i qs)
    have rest: "yields (Q is) E (scan_all due serve qs t)" if "Q (ps @ [i]) t" for t
      using Cons.IH [of "ps @ [i]" t] Cons.prems(1) that by simp
    show ?case
    proof (cases "due i s")
      case True
      have "yields (Q (ps @ [i])) E (serve i s)" by (rule assms(1) [OF Cons.prems True])
      then have "yields (Q is) E (andthen (serve i s) (scan_all due serve qs))" by (rule yields_andthen) (rule rest)
      then show ?thesis using True by (simp add: counted_no_stop [where n = "- 1" and m = 0])
    qed (use assms(2) [OF Cons.prems] rest in simp)
  qed simp
  from this [of "[]" "is" s] show ?thesis using assms(3) by simp
qed

locale one_by_one =
  fixes due :: "nat \<Rightarrow> 's \<Rightarrow> bool" and serve :: "nat \<Rightarrow> 's \<Rightarrow> 'e + 's"
  assumes others: "serve i s = Inr s' \<Longrightarrow> j \<noteq> i \<Longrightarrow> due j s' \<longleftrightarrow> due j s"
begin

lemma counted_all:
  assumes "distinct is" "\<And>k. stop k \<Longrightarrow> k \<le> 0" "int (length (filter (\<lambda>i. due i s) is)) \<le> n"
  shows "counted stop due serve is n s = scan_all due serve is s"
  using assms(1,3)
proof (induction "is" arbitrary: n s)
  case (Cons i "is")
  show ?case
  proof (cases "due i s")
    case True
    have "(if stop (n - 1) then Inr s' else counted stop due serve is (n - 1) s') = counted (\<lambda>_. False) due serve is (- 1) s'"
      if "serve i s = Inr s'" for s'
    proof -
      have "filter (\<lambda>j. due j s') is = filter (\<lambda>j. due j s) is"
        using others [OF that] Cons.prems(1) by (intro filter_cong refl) (metis distinct.simps(2))
      then have l: "int (length (filter (\<lambda>j. due j s') is)) \<le> n - 1" using Cons.prems(2) True by simp
      show ?thesis
      proof (cases "stop (n - 1)")
        case stop: True
        have "length (filter (\<lambda>j. due j s') is) = 0" using assms(2) [OF stop] l by linarith
        then have "filter (\<lambda>j. due j s') is = []" by simp
        then show ?thesis using stop by (simp add: counted_none)
      next
        case False
        have "counted stop due serve is (n - 1) s' = scan_all due serve is s'" using Cons.IH [of s' "n - 1"] Cons.prems(1) l by simp
        then show ?thesis using False counted_no_stop [of due serve "is" 0 s' "- 1"] by simp
      qed
    qed
    then show ?thesis using True by (cases "serve i s") simp_all
  qed (use Cons in simp)
qed simp

text \<open>When the count is exact, entries behind those that were counted are not looked at.\<close>

lemma counted_exact:
  assumes "distinct is" "\<And>k. stop k \<longleftrightarrow> k \<le> 0" "int (length (filter (\<lambda>i. due i s) is)) = n" "0 < n"
  shows "counted stop due serve (is @ js) n s = scan_all due serve is s"
  using assms(1,3,4)
proof (induction "is" arbitrary: n s)
  case (Cons i "is")
  show ?case
  proof (cases "due i s")
    case True
    have "(if stop (n - 1) then Inr s' else counted stop due serve (is @ js) (n - 1) s') = counted (\<lambda>_. False) due serve is (- 1) s'"
      if "serve i s = Inr s'" for s'
    proof -
      have "filter (\<lambda>j. due j s') is = filter (\<lambda>j. due j s) is"
        using others [OF that] Cons.prems(1) by (intro filter_cong refl) (metis distinct.simps(2))
      then have l: "int (length (filter (\<lambda>j. due j s') is)) = n - 1" using Cons.prems(2) True by simp
      show ?thesis
      proof (cases "n - 1 \<le> 0")
        case le: True
        have "length (filter (\<lambda>j. due j s') is) = 0" using le l by linarith
        then have "filter (\<lambda>j. due j s') is = []" by simp
        then show ?thesis using le assms(2) by (simp add: counted_none)
      next
        case False
        have "counted stop due serve (is @ js) (n - 1) s' = scan_all due serve is s'" using Cons.IH [of s' "n - 1"] Cons.prems(1) l False by simp
        then show ?thesis using False assms(2) counted_no_stop [of due serve "is" 0 s' "- 1"] by simp
      qed
    qed
    then show ?thesis using True by (cases "serve i s") simp_all
  next
    case False
    then show ?thesis using Cons.IH [of s n] Cons.prems by simp
  qed
qed simp

end

end
