(* ===== verification/Fd_Slots.thy ===== *)
theory Fd_Slots
  imports Counted_Scan
begin

text \<open>
  The array of descriptors of a server: an entry with -1 is available, a new connection gets the first such entry, and the entry of a connection
  that has gone is set to -1.  The echo servers (theory \<^verbatim>\<open>Echo_Server_Model\<close>) and the daemon for ICMP errors (theory \<^verbatim>\<open>Icmp_Daemon\<close>) keep one.
\<close>

abbreviation (input) FD_SETSIZE :: nat where "FD_SETSIZE \<equiv> 1024"

text \<open>The index of the first entry that is available.\<close>

definition first_free :: "int list \<Rightarrow> nat" where
  "first_free cl = length (takeWhile (\<lambda>fd. \<not> fd < 0) cl)"

definition srv_open :: "int list \<Rightarrow> int set" where
  "srv_open cl = {fd \<in> set cl. 0 \<le> fd}"

definition slots_distinct :: "int list \<Rightarrow> bool" where
  "slots_distinct cl \<longleftrightarrow> (\<forall>i < length cl. \<forall>j < length cl. 0 \<le> cl ! i \<and> cl ! i = cl ! j \<longrightarrow> i = j)"

lemma slots_distinctD: "slots_distinct cl \<Longrightarrow> i < length cl \<Longrightarrow> j < length cl \<Longrightarrow> 0 \<le> cl ! i \<Longrightarrow> cl ! i = cl ! j \<Longrightarrow> i = j"
  by (simp add: slots_distinct_def)

lemma finite_srv_open: "finite (srv_open cl)"
  by (simp add: srv_open_def)

lemma srv_open_nth: "c \<in> srv_open cl \<longleftrightarrow> (\<exists>i < length cl. cl ! i = c \<and> 0 \<le> c)"
  by (auto simp: srv_open_def in_set_conv_nth)

lemma srv_open_memI: "i < length cl \<Longrightarrow> 0 \<le> cl ! i \<Longrightarrow> cl ! i \<in> srv_open cl"
  by (auto simp: srv_open_nth)

lemma open_add:
  assumes "i < length cl" "cl ! i < 0" "0 \<le> fd" "fd \<notin> srv_open cl" "slots_distinct cl"
  shows "srv_open (cl[i := fd]) = insert fd (srv_open cl)" "slots_distinct (cl[i := fd])"
proof -
  show "srv_open (cl[i := fd]) = insert fd (srv_open cl)"
  proof (intro set_eqI iffI)
    fix c assume "c \<in> srv_open (cl[i := fd])"
    then show "c \<in> insert fd (srv_open cl)" using assms(1) by (auto simp: srv_open_nth nth_list_update split: if_splits)
  next
    fix c assume "c \<in> insert fd (srv_open cl)"
    then consider "c = fd" | j where "j < length cl" "cl ! j = c" "0 \<le> c" by (auto simp: srv_open_nth)
    then show "c \<in> srv_open (cl[i := fd])"
    proof cases
      case 1
      then show ?thesis using assms(1,3) by (auto simp: srv_open_nth)
    next
      case 2
      then have "j \<noteq> i" using assms(2) by auto
      then show ?thesis using 2 unfolding srv_open_nth by (metis length_list_update nth_list_update_neq)
    qed
  qed
  have n: "cl ! j \<noteq> fd" if "j < length cl" for j using assms(3,4) that by (auto simp: srv_open_nth)
  then show "slots_distinct (cl[i := fd])"
    using assms(5) n unfolding slots_distinct_def by (auto simp: nth_upd)
qed

lemma open_del:
  assumes "i < length cl" "0 \<le> cl ! i" "slots_distinct cl"
  shows "srv_open (cl[i := - 1]) = srv_open cl - {cl ! i}" "slots_distinct (cl[i := - 1])"
proof -
  have u: "j = i" if "j < length cl" "cl ! j = cl ! i" for j
    using assms that unfolding slots_distinct_def by metis
  show "srv_open (cl[i := - 1]) = srv_open cl - {cl ! i}"
  proof (intro set_eqI iffI)
    fix c assume "c \<in> srv_open (cl[i := - 1])"
    then obtain j where "j < length cl" "cl[i := - 1] ! j = c" "0 \<le> c" by (auto simp: srv_open_nth)
    then show "c \<in> srv_open cl - {cl ! i}" using u assms(1) by (auto simp: srv_open_nth nth_list_update split: if_splits)
  next
    fix c assume "c \<in> srv_open cl - {cl ! i}"
    then obtain j where "j < length cl" "cl ! j = c" "0 \<le> c" "j \<noteq> i" by (auto simp: srv_open_nth)
    then show "c \<in> srv_open (cl[i := - 1])" unfolding srv_open_nth by (metis length_list_update nth_list_update_neq)
  qed
  show "slots_distinct (cl[i := - 1])" using assms(3) unfolding slots_distinct_def by (auto simp: nth_upd)
qed

lemma first_free_le: "first_free cl \<le> length cl"
  by (simp add: first_free_def length_takeWhile_le)

lemma first_free_neg: "first_free cl < length cl \<Longrightarrow> cl ! first_free cl < 0"
  unfolding first_free_def using nth_length_takeWhile [of "\<lambda>fd. \<not> fd < 0" cl] by simp

lemma first_free_full: "first_free cl = length cl \<Longrightarrow> i < length cl \<Longrightarrow> 0 \<le> cl ! i"
  unfolding first_free_def by (metis in_set_conv_nth linorder_not_less takeWhile_eq_all_conv takeWhile_eq_take take_all_iff order_refl)

lemma due_count:
  assumes "slots_distinct cl" "finite rset" "n \<le> length cl" "\<And>i. i < n \<Longrightarrow> due i \<Longrightarrow> 0 \<le> cl ! i \<and> cl ! i \<in> rset"
  shows "length (filter due [m..<n]) \<le> card rset"
proof -
  have "inj_on (\<lambda>i. cl ! i) (set (filter due [m..<n]))"
    using assms(1,3,4) unfolding slots_distinct_def by (intro inj_onI) auto
  then have "length (filter due [m..<n]) = card ((\<lambda>i. cl ! i) ` set (filter due [m..<n]))"
    by (simp add: card_image distinct_card del: set_filter)
  also have "\<dots> \<le> card rset" using assms(2,4) by (intro card_mono) auto
  finally show ?thesis .
qed

section \<open>Rounds\<close>

text \<open>The rounds of a server, each with what its system calls report.\<close>

fun rounds_path :: "('io \<Rightarrow> 's \<Rightarrow> 'e + 's) \<Rightarrow> ('io \<Rightarrow> 's \<Rightarrow> bool) \<Rightarrow> 'io list \<Rightarrow> 's \<Rightarrow> 's \<Rightarrow> bool" where
  "rounds_path round env [] s t \<longleftrightarrow> t = s"
| "rounds_path round env (io # ios) s t \<longleftrightarrow> env io s \<and> (\<exists>u. round io s = Inr u \<and> rounds_path round env ios u t)"

lemma rounds_path_append:
  "rounds_path round env (ios @ ios') s t \<longleftrightarrow> (\<exists>u. rounds_path round env ios s u \<and> rounds_path round env ios' u t)"
  by (induction ios arbitrary: s) auto

end
