(* ===== verification/Echo_Server_Model.thy ===== *)
theory Echo_Server_Model
  imports Fd_Slots "HOL-Library.Word"
begin

unbundle bit_operations_syntax

text \<open>
  The echo servers of \<^verbatim>\<open>unpv13e/tcpcliserv\<close> that serve all their clients in one process, with \<^verbatim>\<open>select\<close>
  (\<^verbatim>\<open>tcpservselect01.c\<close>) and with \<^verbatim>\<open>poll\<close> (\<^verbatim>\<open>tcpservpoll01.c\<close>).  One round of each loop is a function of what the system calls report.
  An abstract server is a set of connections; the locale \<open>echo_server\<close> says how a round of
  either version changes it.  The theory \<^verbatim>\<open>Echo_Servers\<close> shows that both do.
\<close>

section \<open>What a round meets, and what it leaves\<close>

abbreviation (input) ECHO_MAXLINE :: nat where "ECHO_MAXLINE \<equiv> 4096"

text \<open>The connection \<^verbatim>\<open>accept\<close> returns, an error number or the bytes a connection has ready (none at its
  end), and the success of \<^verbatim>\<open>writen\<close>.\<close>

record echo_io =
  ei_conn :: int
  ei_recv :: "int \<Rightarrow> int + cbuf"
  ei_send :: "int \<Rightarrow> bool"

datatype echo_error = Too_many_clients | Read_error | Writen_error | Fd_set_range

text \<open>The connections that were closed and the blocks that were sent.\<close>

record echo_log =
  es_closed :: "int list"
  es_log :: "(int \<times> cbuf) list"

section \<open>The version with select\<close>

record sel_io = echo_io +
  si_ready :: "int \<Rightarrow> bool"

record sel_srv = echo_log +
  ss_client :: "int list"
  ss_maxi :: int
  ss_maxfd :: int
  ss_allset :: "int set"

definition ss_start :: "int \<Rightarrow> sel_srv" where
  "ss_start listenfd = \<lparr>es_closed = [], es_log = [], ss_client = replicate FD_SETSIZE (- 1), ss_maxi = - 1,
     ss_maxfd = listenfd, ss_allset = {listenfd}\<rparr>"

text \<open>\<^verbatim>\<open>FD_SET\<close> with a descriptor beyond the set writes outside of it.\<close>

definition ss_accept :: "int \<Rightarrow> sel_srv \<Rightarrow> echo_error + sel_srv" where
  "ss_accept connfd s =
     (let i = first_free (ss_client s) in
      if i = FD_SETSIZE then Inl Too_many_clients
      else if connfd \<ge> int FD_SETSIZE then Inl Fd_set_range
      else Inr (s\<lparr>ss_client := (ss_client s)[i := connfd], ss_allset := insert connfd (ss_allset s),
                  ss_maxfd := max (ss_maxfd s) connfd, ss_maxi := max (ss_maxi s) (int i)\<rparr>))"

definition ss_due :: "int set \<Rightarrow> nat \<Rightarrow> sel_srv \<Rightarrow> bool" where
  "ss_due rset i s \<longleftrightarrow> \<not> ss_client s ! i < 0 \<and> ss_client s ! i \<in> rset"

definition ss_serve :: "sel_io \<Rightarrow> nat \<Rightarrow> sel_srv \<Rightarrow> echo_error + sel_srv" where
  "ss_serve io i s =
     (let sockfd = ss_client s ! i in
      case ei_recv io sockfd of
        Inl e \<Rightarrow> Inl Read_error
      | Inr bs \<Rightarrow>
          let bs = take ECHO_MAXLINE bs in
          if bs = [] then
            Inr (s\<lparr>es_closed := es_closed s @ [sockfd], ss_allset := ss_allset s - {sockfd}, ss_client := (ss_client s)[i := - 1]\<rparr>)
          else if ei_send io sockfd then Inr (s\<lparr>es_log := es_log s @ [(sockfd, bs)]\<rparr>)
          else Inl Writen_error)"

definition ss_scan :: "sel_io \<Rightarrow> int set \<Rightarrow> int \<Rightarrow> sel_srv \<Rightarrow> echo_error + sel_srv" where
  "ss_scan io rset nready s = counted (\<lambda>k. k \<le> 0) (ss_due rset) (ss_serve io) [0..<nat (ss_maxi s + 1)] nready s"

definition ss_rset :: "sel_io \<Rightarrow> sel_srv \<Rightarrow> int set" where
  "ss_rset io s = {fd \<in> ss_allset s. fd < ss_maxfd s + 1 \<and> si_ready io fd}"

definition ss_round :: "int \<Rightarrow> sel_io \<Rightarrow> sel_srv \<Rightarrow> echo_error + sel_srv" where
  "ss_round listenfd io s =
     (let rset = ss_rset io s; nready = int (card rset) in
      if listenfd \<in> rset then
        andthen (ss_accept (ei_conn io) s) (\<lambda>s. if nready - 1 \<le> 0 then Inr s else ss_scan io rset (nready - 1) s)
      else ss_scan io rset nready s)"

section \<open>The version with poll\<close>

abbreviation (input) POLLRDNORM :: "16 word" where "POLLRDNORM \<equiv> 0x40"
abbreviation (input) POLLERR :: "16 word" where "POLLERR \<equiv> 8"
abbreviation (input) ECONNRESET :: int where "ECONNRESET \<equiv> 104"

record poll_io = echo_io +
  pi_rev :: "int \<Rightarrow> 16 word"

record poll_srv = echo_log +
  pl_fd :: "int list"
  pl_rev :: "16 word list"
  pl_maxi :: nat

text \<open>The array is on the stack: \<open>junk\<close> is what its fields \<^verbatim>\<open>revents\<close> hold at the start.  \<open>n\<close> is \<^verbatim>\<open>OPEN_MAX\<close>.\<close>

definition ps_start :: "16 word list \<Rightarrow> nat \<Rightarrow> int \<Rightarrow> poll_srv" where
  "ps_start junk n listenfd = \<lparr>es_closed = [], es_log = [], pl_fd = listenfd # replicate (n - 1) (- 1), pl_rev = junk, pl_maxi = 0\<rparr>"

text \<open>\<^verbatim>\<open>poll\<close> with the first \<open>maxi + 1\<close> entries: entries with a negative descriptor get 0.\<close>

definition ps_poll :: "poll_io \<Rightarrow> poll_srv \<Rightarrow> poll_srv" where
  "ps_poll io s = s\<lparr>pl_rev := map (\<lambda>k. if k \<le> pl_maxi s then (if pl_fd s ! k < 0 then 0 else pi_rev io (pl_fd s ! k))
                                   else pl_rev s ! k) [0..<length (pl_rev s)]\<rparr>"

definition ps_ready :: "poll_srv \<Rightarrow> int" where
  "ps_ready s = int (length (filter (\<lambda>k. pl_rev s ! k \<noteq> 0) [0..<Suc (pl_maxi s)]))"

definition ps_accept :: "int \<Rightarrow> poll_srv \<Rightarrow> echo_error + poll_srv" where
  "ps_accept connfd s =
     (let i = Suc (first_free (tl (pl_fd s))) in
      if i = length (pl_fd s) then Inl Too_many_clients
      else Inr (s\<lparr>pl_fd := (pl_fd s)[i := connfd], pl_maxi := max (pl_maxi s) i\<rparr>))"

definition ps_due :: "nat \<Rightarrow> poll_srv \<Rightarrow> bool" where
  "ps_due i s \<longleftrightarrow> \<not> pl_fd s ! i < 0 \<and> pl_rev s ! i AND (POLLRDNORM OR POLLERR) \<noteq> 0"

definition ps_serve :: "poll_io \<Rightarrow> nat \<Rightarrow> poll_srv \<Rightarrow> echo_error + poll_srv" where
  "ps_serve io i s =
     (let sockfd = pl_fd s ! i; gone = s\<lparr>es_closed := es_closed s @ [sockfd], pl_fd := (pl_fd s)[i := - 1]\<rparr> in
      case ei_recv io sockfd of
        Inl e \<Rightarrow> if e = ECONNRESET then Inr gone else Inl Read_error
      | Inr bs \<Rightarrow>
          let bs = take ECHO_MAXLINE bs in
          if bs = [] then Inr gone
          else if ei_send io sockfd then Inr (s\<lparr>es_log := es_log s @ [(sockfd, bs)]\<rparr>)
          else Inl Writen_error)"

definition ps_scan :: "poll_io \<Rightarrow> int \<Rightarrow> poll_srv \<Rightarrow> echo_error + poll_srv" where
  "ps_scan io nready s = counted (\<lambda>k. k \<le> 0) ps_due (ps_serve io) [1..<Suc (pl_maxi s)] nready s"

definition ps_round :: "poll_io \<Rightarrow> poll_srv \<Rightarrow> echo_error + poll_srv" where
  "ps_round io s =
     (let s = ps_poll io s; nready = ps_ready s in
      if pl_rev s ! 0 AND POLLRDNORM \<noteq> 0 then
        andthen (ps_accept (ei_conn io) s) (\<lambda>s. if nready - 1 \<le> 0 then Inr s else ps_scan io (nready - 1) s)
      else ps_scan io nready s)"

section \<open>The abstract server\<close>

text \<open>Of the connections \<open>cs\<close> those in \<open>R\<close> are ready; \<open>ans\<close> is what they have sent, nothing when they have gone.  Each is
  served once.\<close>

definition echo_step :: "int set \<Rightarrow> (int \<Rightarrow> cbuf) \<Rightarrow> int set \<Rightarrow> int set \<Rightarrow> (int \<times> cbuf) list \<Rightarrow> int set \<Rightarrow> (int \<times> cbuf) list \<Rightarrow> bool" where
  "echo_step R ans new cs log cs' log' \<longleftrightarrow>
     cs' = (cs - {c \<in> R. ans c = []}) \<union> new \<and>
     (\<exists>l. log' = log @ l \<and> distinct (map fst l) \<and> set l = {(c, ans c) |c. c \<in> R \<and> ans c \<noteq> []})"

definition sent :: "int \<Rightarrow> (int \<times> cbuf) list \<Rightarrow> cbuf" where
  "sent c log = concat (map snd (filter (\<lambda>e. fst e = c) log))"

text \<open>What the rounds have received: \<open>got io s\<close> in one round.\<close>

fun received :: "('io \<Rightarrow> 's \<Rightarrow> 'e + 's) \<Rightarrow> ('io \<Rightarrow> 's \<Rightarrow> cbuf) \<Rightarrow> 'io list \<Rightarrow> 's \<Rightarrow> cbuf" where
  "received round got [] s = []"
| "received round got (io # ios) s = got io s @ (case round io s of Inl e \<Rightarrow> [] | Inr u \<Rightarrow> received round got ios u)"

lemma sent_step:
  assumes "echo_step R ans new cs log cs' log'"
  shows "sent c log' = sent c log @ (if c \<in> R then ans c else [])"
proof -
  obtain l where l: "log' = log @ l" "distinct (map fst l)" "set l = {(c, ans c) |c. c \<in> R \<and> ans c \<noteq> []}"
    using assms by (auto simp: echo_step_def)
  have "sent c l = (if c \<in> R then ans c else [])"
  proof (cases "c \<in> R \<and> ans c \<noteq> []")
    case True
    then have "(c, ans c) \<in> set l" using l(3) by auto
    then obtain a b where ab: "l = a @ (c, ans c) # b" by (auto simp: in_set_conv_decomp)
    have n: "e \<notin> set a \<and> e \<notin> set b" if "fst e = c" for e using l(2) ab that by force
    have "filter (\<lambda>e. fst e = c) a = []" "filter (\<lambda>e. fst e = c) b = []" using n by (auto simp: filter_empty_conv)
    then have "filter (\<lambda>e. fst e = c) l = [(c, ans c)]" by (simp add: ab)
    then show ?thesis using True by (simp add: sent_def)
  next
    case False
    then have "filter (\<lambda>e. fst e = c) l = []" using l(3) by (auto simp: filter_empty_conv)
    then show ?thesis using False by (auto simp: sent_def)
  qed
  then show ?thesis by (simp add: l(1) sent_def)
qed

locale echo_server =
  fixes inv :: "'s \<Rightarrow> bool" and conns :: "'s \<Rightarrow> int set" and log :: "'s \<Rightarrow> (int \<times> cbuf) list"
    and round :: "'io \<Rightarrow> 's \<Rightarrow> echo_error + 's" and env :: "'io \<Rightarrow> 's \<Rightarrow> bool"
    and R :: "'io \<Rightarrow> 's \<Rightarrow> int set" and ans :: "'io \<Rightarrow> int \<Rightarrow> cbuf" and new :: "'io \<Rightarrow> 's \<Rightarrow> int set"
  assumes round_law: "inv s \<Longrightarrow> env io s \<Longrightarrow> round io s = Inr t \<Longrightarrow>
    inv t \<and> echo_step (R io s) (ans io) (new io s) (conns s) (log s) (conns t) (log t)"
begin

lemma path_echoes:
  assumes "inv s" "rounds_path round env ios s t"
  shows "inv t \<and> sent c (log t) = sent c (log s) @ received round (\<lambda>io s. if c \<in> R io s then ans io c else []) ios s"
  using assms
proof (induction ios arbitrary: s)
  case (Cons io ios)
  then obtain u where u: "env io s" "round io s = Inr u" "rounds_path round env ios u t" by auto
  note step = round_law [OF Cons.prems(1) u(1,2)]
  show ?case using Cons.IH [OF conjunct1 [OF step] u(3)] sent_step [OF conjunct2 [OF step], of c] u(2) by simp
qed simp

end

end
