(* ===== verification/Echo_Servers.thy ===== *)
theory Echo_Servers
  imports Echo_Server_Model
begin

unbundle bit_operations_syntax

text \<open>
  The two echo servers of the theory \<^verbatim>\<open>Echo_Server_Model\<close> implement the abstract one: the
  invariants of both versions, the interpretations of \<open>echo_server\<close> and the properties.
\<close>

section \<open>The entries that a round has passed\<close>

text \<open>Serving the entries \<open>ps\<close>, of which those with \<open>due\<close> are ready: the array and the log afterwards.\<close>

definition served :: "int list \<Rightarrow> (nat \<Rightarrow> bool) \<Rightarrow> (int \<Rightarrow> cbuf) \<Rightarrow> nat list \<Rightarrow> (int \<times> cbuf) list \<Rightarrow> int list \<Rightarrow> (int \<times> cbuf) list \<Rightarrow> bool" where
  "served cl due ans ps log cl' log' \<longleftrightarrow>
     length cl' = length cl \<and>
     (\<forall>j < length cl. cl' ! j = (if j \<in> set ps \<and> due j \<and> ans (cl ! j) = [] then - 1 else cl ! j)) \<and>
     log' = log @ map (\<lambda>j. (cl ! j, ans (cl ! j))) (filter (\<lambda>j. due j \<and> ans (cl ! j) \<noteq> []) ps)"

lemma served_Nil: "served cl due ans [] log cl log"
  by (simp add: served_def)

lemma served_skip: "served cl due ans ps log cl' log' \<Longrightarrow> \<not> due i \<Longrightarrow> served cl due ans (ps @ [i]) log cl' log'"
  by (auto simp: served_def)

lemma served_closed:
  "served cl due ans ps log cl' log' \<Longrightarrow> due i \<Longrightarrow> ans (cl ! i) = [] \<Longrightarrow> served cl due ans (ps @ [i]) log (cl'[i := - 1]) log'"
  by (auto simp: served_def nth_upd)

lemma served_echoed:
  "served cl due ans ps log cl' log' \<Longrightarrow> due i \<Longrightarrow> ans (cl ! i) \<noteq> [] \<Longrightarrow> served cl due ans (ps @ [i]) log cl' (log' @ [(cl ! i, ans (cl ! i))])"
  by (auto simp: served_def)

lemma served_echo_step:
  assumes "served cl due ans ps log cl' log'" "slots_distinct cl" "distinct ps" "set ps \<subseteq> {..<length cl}"
    and "\<And>j. j \<in> set ps \<Longrightarrow> due j \<Longrightarrow> 0 \<le> cl ! j" "R = {cl ! j |j. j \<in> set ps \<and> due j}"
  shows "echo_step R ans {} (srv_open cl) log (srv_open cl') log'" "slots_distinct cl'"
proof -
  have len: "length cl' = length cl"
    and nth: "\<And>j. j < length cl \<Longrightarrow> cl' ! j = (if j \<in> set ps \<and> due j \<and> ans (cl ! j) = [] then - 1 else cl ! j)"
    and log: "log' = log @ map (\<lambda>j. (cl ! j, ans (cl ! j))) (filter (\<lambda>j. due j \<and> ans (cl ! j) \<noteq> []) ps)"
    using assms(1) by (auto simp: served_def)
  have inj: "i = j" if "i < length cl" "j < length cl" "0 \<le> cl ! i" "cl ! i = cl ! j" for i j
    using assms(2) that unfolding slots_distinct_def by blast
  have "srv_open cl' = srv_open cl - {c \<in> R. ans c = []}"
  proof (intro set_eqI iffI)
    fix c assume "c \<in> srv_open cl'"
    then obtain j where j: "j < length cl" "cl' ! j = c" "0 \<le> c" by (auto simp: srv_open_nth len)
    then have c: "cl ! j = c" "\<not> (j \<in> set ps \<and> due j \<and> ans c = [])" using nth [OF j(1)] by (auto split: if_splits)
    have "c \<notin> {c \<in> R. ans c = []}"
    proof
      assume "c \<in> {c \<in> R. ans c = []}"
      then obtain i where "i \<in> set ps" "due i" "cl ! i = c" "ans c = []" using assms(6) by auto
      then show False using inj [of j i] j c assms(4) by auto
    qed
    then show "c \<in> srv_open cl - {c \<in> R. ans c = []}" using j c by (auto simp: srv_open_nth)
  next
    fix c assume "c \<in> srv_open cl - {c \<in> R. ans c = []}"
    then obtain j where j: "j < length cl" "cl ! j = c" "0 \<le> c" "c \<notin> {c \<in> R. ans c = []}" by (auto simp: srv_open_nth)
    then have "cl' ! j = c" using nth [OF j(1)] assms(6) by auto
    then show "c \<in> srv_open cl'" using j by (auto simp: srv_open_nth len)
  qed
  moreover have "distinct (map (\<lambda>j. cl ! j) (filter (\<lambda>j. due j \<and> ans (cl ! j) \<noteq> []) ps))"
    unfolding distinct_map
  proof (intro conjI inj_onI)
    fix i j assume "i \<in> set (filter (\<lambda>j. due j \<and> ans (cl ! j) \<noteq> []) ps)" "j \<in> set (filter (\<lambda>j. due j \<and> ans (cl ! j) \<noteq> []) ps)" "cl ! i = cl ! j"
    then show "i = j" using inj [of i j] assms(4,5) by auto
  qed (use assms(3) in simp)
  ultimately show "echo_step R ans {} (srv_open cl) log (srv_open cl') log'"
    unfolding echo_step_def using log assms(6) by (auto simp: o_def)
  show "slots_distinct cl'" unfolding slots_distinct_def
  proof (intro allI impI)
    fix i j assume "i < length cl'" "j < length cl'" "0 \<le> cl' ! i \<and> cl' ! i = cl' ! j"
    then show "i = j" using inj [of i j] nth [of i] nth [of j] len by (auto split: if_splits)
  qed
qed

lemma echo_step_new:
  assumes "echo_step R ans {} (insert c cs) log cs' log'" "c \<notin> R"
  shows "echo_step R ans {c} cs log cs' log'"
  using assms unfolding echo_step_def by blast

section \<open>A round with select\<close>

definition ss_inv :: "int \<Rightarrow> sel_srv \<Rightarrow> bool" where
  "ss_inv listenfd s \<longleftrightarrow> length (ss_client s) = FD_SETSIZE \<and> slots_distinct (ss_client s) \<and>
     ss_allset s = insert listenfd (srv_open (ss_client s)) \<and> listenfd \<notin> srv_open (ss_client s) \<and> 0 \<le> listenfd \<and>
     (\<forall>fd \<in> ss_allset s. fd \<le> ss_maxfd s \<and> fd < int FD_SETSIZE) \<and>
     (\<forall>i < FD_SETSIZE. 0 \<le> ss_client s ! i \<longrightarrow> int i \<le> ss_maxi s) \<and> - 1 \<le> ss_maxi s \<and> ss_maxi s < int FD_SETSIZE"

definition ss_fresh :: "sel_io \<Rightarrow> sel_srv \<Rightarrow> bool" where
  "ss_fresh io s \<longleftrightarrow> 0 \<le> ei_conn io \<and> ei_conn io \<notin> ss_allset s"

definition ss_ans :: "sel_io \<Rightarrow> int \<Rightarrow> cbuf" where
  "ss_ans io c = (case ei_recv io c of Inl e \<Rightarrow> [] | Inr bs \<Rightarrow> take ECHO_MAXLINE bs)"

abbreviation ss_conns :: "sel_srv \<Rightarrow> int set" where "ss_conns s \<equiv> srv_open (ss_client s)"

lemma ss_start_inv: "0 \<le> listenfd \<Longrightarrow> listenfd < int FD_SETSIZE \<Longrightarrow> ss_inv listenfd (ss_start listenfd)"
  by (auto simp: ss_inv_def ss_start_def slots_distinct_def srv_open_def)

lemma ss_never_full:
  assumes "ss_inv listenfd s"
  shows "first_free (ss_client s) < FD_SETSIZE"
proof (rule ccontr)
  have len: "length (ss_client s) = FD_SETSIZE" using assms by (simp add: ss_inv_def)
  assume "\<not> first_free (ss_client s) < FD_SETSIZE"
  then have full: "0 \<le> ss_client s ! i" if "i < FD_SETSIZE" for i
    using first_free_full [of "ss_client s" i] first_free_le [of "ss_client s"] len that by simp
  have "inj_on (\<lambda>i. ss_client s ! i) {..<FD_SETSIZE}"
    using assms full unfolding ss_inv_def slots_distinct_def by (intro inj_onI) auto
  then have "card ((\<lambda>i. ss_client s ! i) ` {..<FD_SETSIZE}) = FD_SETSIZE" by (simp add: card_image)
  moreover have "(\<lambda>i. ss_client s ! i) ` {..<FD_SETSIZE} \<subseteq> {0..<int FD_SETSIZE} - {listenfd}"
  proof
    fix c assume "c \<in> (\<lambda>i. ss_client s ! i) ` {..<FD_SETSIZE}"
    then have "c \<in> ss_conns s" using full len by (auto simp: srv_open_nth)
    then show "c \<in> {0..<int FD_SETSIZE} - {listenfd}" using assms by (auto simp: ss_inv_def srv_open_def)
  qed
  then have "card ((\<lambda>i. ss_client s ! i) ` {..<FD_SETSIZE}) \<le> card ({0..<int FD_SETSIZE} - {listenfd})" by (intro card_mono) auto
  moreover have "card ({0..<int FD_SETSIZE} - {listenfd}) < FD_SETSIZE"
    using assms by (subst card_Diff_singleton) (auto simp: ss_inv_def)
  ultimately show False by simp
qed

lemma ss_accept_ok:
  assumes "ss_inv listenfd s" "0 \<le> connfd" "connfd \<notin> ss_allset s"
  shows "yields (\<lambda>t. ss_inv listenfd t \<and> ss_conns t = insert connfd (ss_conns s) \<and> es_log t = es_log s)
    (\<lambda>e. e = Fd_set_range \<and> connfd \<ge> int FD_SETSIZE) (ss_accept connfd s)"
proof -
  let ?i = "first_free (ss_client s)"
  have i: "?i < FD_SETSIZE" "?i < length (ss_client s)" using ss_never_full [OF assms(1)] assms(1) by (simp_all add: ss_inv_def)
  have sd: "slots_distinct (ss_client s)" and new: "connfd \<notin> ss_conns s" using assms(1,3) by (auto simp: ss_inv_def)
  note add = open_add [OF i(2) first_free_neg [OF i(2)] assms(2) new sd]
  have "ss_inv listenfd (s\<lparr>ss_client := (ss_client s)[?i := connfd], ss_allset := insert connfd (ss_allset s),
      ss_maxfd := max (ss_maxfd s) connfd, ss_maxi := max (ss_maxi s) (int ?i)\<rparr>)" if "connfd < int FD_SETSIZE"
    using assms that add i by (auto simp: ss_inv_def nth_upd le_max_iff_disj)
  then show ?thesis using add i by (auto simp: ss_accept_def Let_def)
qed

text \<open>How serving the connections \<open>R\<close> fails: a read from one of them does, or sending back what it has sent.\<close>

definition ss_fails :: "'a echo_io_scheme \<Rightarrow> int set \<Rightarrow> echo_error \<Rightarrow> bool" where
  "ss_fails io R e \<longleftrightarrow> (\<exists>c \<in> R. e = Read_error \<and> (\<exists>n. ei_recv io c = Inl n) \<or>
     e = Writen_error \<and> (\<exists>bs. ei_recv io c = Inr bs \<and> bs \<noteq> []) \<and> \<not> ei_send io c)"

lemma ss_fails_mono: "ss_fails io R e \<Longrightarrow> R \<subseteq> S \<Longrightarrow> ss_fails io S e"
  unfolding ss_fails_def by blast

interpretation ss: one_by_one "ss_due rset" "ss_serve io" for rset io
  by unfold_locales (auto simp: ss_due_def ss_serve_def Let_def split: sum.splits if_splits)

lemma ss_serve_ok:
  assumes "ss_inv listenfd t" "i < FD_SETSIZE" "0 \<le> ss_client t ! i"
  shows "yields (\<lambda>u. ss_inv listenfd u \<and> ss_maxi u = ss_maxi t \<and>
      (if ss_ans io (ss_client t ! i) = [] then ss_client u = (ss_client t)[i := - 1] \<and> es_log u = es_log t
       else ss_client u = ss_client t \<and> es_log u = es_log t @ [(ss_client t ! i, ss_ans io (ss_client t ! i))]))
    (ss_fails io {ss_client t ! i}) (ss_serve io i t)"
proof -
  have "length (ss_client t) = FD_SETSIZE" "slots_distinct (ss_client t)" using assms(1) by (simp_all add: ss_inv_def)
  note del = open_del [of i "ss_client t", unfolded this(1), OF assms(2,3) this(2)]
  have "ss_inv listenfd (t\<lparr>es_closed := cs, ss_allset := ss_allset t - {ss_client t ! i}, ss_client := (ss_client t)[i := - 1]\<rparr>)" for cs
    using assms del unfolding ss_inv_def by (auto simp: nth_upd srv_open_def)
  moreover have "ss_inv listenfd (t\<lparr>es_log := l\<rparr>)" for l using assms(1) by (simp add: ss_inv_def)
  ultimately show ?thesis by (auto simp: ss_serve_def Let_def ss_ans_def ss_fails_def split: sum.split)
qed

lemma ss_inv_sizes:
  assumes "ss_inv listenfd s"
  shows "length (ss_client s) = FD_SETSIZE" "nat (ss_maxi s + 1) \<le> FD_SETSIZE" "slots_distinct (ss_client s)"
proof -
  show "length (ss_client s) = FD_SETSIZE" "slots_distinct (ss_client s)" using assms by (simp_all add: ss_inv_def)
  have "ss_maxi s < int FD_SETSIZE" using assms by (simp add: ss_inv_def)
  then show "nat (ss_maxi s + 1) \<le> FD_SETSIZE" by linarith
qed

lemma ss_due_set:
  assumes "ss_inv listenfd s"
  shows "{ss_client s ! j |j. j \<in> set [0..<nat (ss_maxi s + 1)] \<and> ss_due rset j s} = rset \<inter> ss_conns s"
proof (intro set_eqI iffI)
  fix c assume "c \<in> rset \<inter> ss_conns s"
  then obtain j where "j < FD_SETSIZE" "ss_client s ! j = c" "0 \<le> c" "c \<in> rset" using assms by (auto simp: srv_open_nth ss_inv_def)
  moreover from this have "int j \<le> ss_maxi s" using assms by (auto simp: ss_inv_def)
  ultimately show "c \<in> {ss_client s ! j |j. j \<in> set [0..<nat (ss_maxi s + 1)] \<and> ss_due rset j s}" by (auto simp: ss_due_def intro!: exI [of _ j])
next
  fix c assume "c \<in> {ss_client s ! j |j. j \<in> set [0..<nat (ss_maxi s + 1)] \<and> ss_due rset j s}"
  then obtain j where "c = ss_client s ! j" "j < nat (ss_maxi s + 1)" "ss_due rset j s" by auto
  then show "c \<in> rset \<inter> ss_conns s" using ss_inv_sizes [OF assms] by (auto simp: ss_due_def intro!: srv_open_memI)
qed

lemma ss_scan_all_ok:
  assumes "ss_inv listenfd s"
  shows "yields (\<lambda>t. ss_inv listenfd t \<and>
      served (ss_client s) (\<lambda>j. ss_due rset j s) (ss_ans io) [0..<nat (ss_maxi s + 1)] (es_log s) (ss_client t) (es_log t))
    (ss_fails io (rset \<inter> ss_conns s)) (scan_all (ss_due rset) (ss_serve io) [0..<nat (ss_maxi s + 1)] s)"
proof (rule scan_all_prefix)
  fix ps i qs t
  let ?Q = "\<lambda>ps t. ss_inv listenfd t \<and> served (ss_client s) (\<lambda>j. ss_due rset j s) (ss_ans io) ps (es_log s) (ss_client t) (es_log t)"
  assume split: "[0..<nat (ss_maxi s + 1)] = ps @ i # qs" and Q: "?Q ps t"
  have "i \<in> set [0..<nat (ss_maxi s + 1)]" "i \<notin> set ps" using split distinct_upt [of 0 "nat (ss_maxi s + 1)"] by auto
  then have i: "i < FD_SETSIZE" "ss_client t ! i = ss_client s ! i" using assms Q by (auto simp: ss_inv_def served_def)
  then have due: "ss_due rset i t \<longleftrightarrow> ss_due rset i s" by (simp add: ss_due_def)
  have R: "ss_fails io {ss_client s ! i} e \<Longrightarrow> ss_fails io (rset \<inter> ss_conns s) e" if "ss_due rset i s" for e
    by (erule ss_fails_mono) (use that i(1) ss_inv_sizes(1) [OF assms] in \<open>auto simp: ss_due_def intro!: srv_open_memI\<close>)
  { assume d: "ss_due rset i t"
    then show "yields (?Q (ps @ [i])) (ss_fails io (rset \<inter> ss_conns s)) (ss_serve io i t)"
      using ss_serve_ok [of listenfd t i io] Q i due R served_closed [of "ss_client s" "\<lambda>j. ss_due rset j s"] served_echoed [of "ss_client s" "\<lambda>j. ss_due rset j s"]
      by (auto simp: ss_due_def elim!: yields_mono split: if_splits) }
  { assume "\<not> ss_due rset i t"
    then show "?Q (ps @ [i]) t" using Q due served_skip by blast }
qed (simp add: assms served_Nil)

text \<open>The loop with its break serves everything that is ready.\<close>

lemma ss_scan_ok:
  assumes "ss_inv listenfd s" "finite rset" "int (card (rset \<inter> ss_conns s)) \<le> n"
  shows "yields (\<lambda>t. ss_inv listenfd t \<and> echo_step (rset \<inter> ss_conns s) (ss_ans io) {} (ss_conns s) (es_log s) (ss_conns t) (es_log t))
    (ss_fails io (rset \<inter> ss_conns s)) (ss_scan io rset n s)"
    and "n \<le> 0 \<Longrightarrow> ss_scan io rset n s = Inr s"
proof -
  let ?ns = "[0..<nat (ss_maxi s + 1)]"
  note len = ss_inv_sizes(1,2) [OF assms(1)] and sd = ss_inv_sizes(3) [OF assms(1)]
  have "length (filter (\<lambda>i. ss_due rset i s) ?ns) \<le> card (rset \<inter> ss_conns s)"
    by (rule due_count [OF sd]) (use assms(2) len in \<open>auto simp: ss_due_def intro!: srv_open_memI\<close>)
  then have count: "int (length (filter (\<lambda>i. ss_due rset i s) ?ns)) \<le> n" using assms(3) by linarith
  then have "ss_scan io rset n s = scan_all (ss_due rset) (ss_serve io) ?ns s"
    unfolding ss_scan_def by (intro ss.counted_all) auto
  moreover have "echo_step (rset \<inter> ss_conns s) (ss_ans io) {} (ss_conns s) (es_log s) (ss_conns t) (es_log t)"
    if "served (ss_client s) (\<lambda>j. ss_due rset j s) (ss_ans io) ?ns (es_log s) (ss_client t) (es_log t)" for t
    by (rule served_echo_step(1) [OF that sd]) (use len ss_due_set [OF assms(1), of rset] in \<open>auto simp: ss_due_def\<close>)
  ultimately show "yields (\<lambda>t. ss_inv listenfd t \<and> echo_step (rset \<inter> ss_conns s) (ss_ans io) {} (ss_conns s) (es_log s) (ss_conns t) (es_log t))
    (ss_fails io (rset \<inter> ss_conns s)) (ss_scan io rset n s)"
    using ss_scan_all_ok [OF assms(1), of rset io] by (auto elim!: yields_mono)
  show "ss_scan io rset n s = Inr s" if "n \<le> 0"
  proof -
    have "length (filter (\<lambda>i. ss_due rset i s) ?ns) = 0" using count that by linarith
    then have "filter (\<lambda>i. ss_due rset i s) ?ns = []" by simp
    then show ?thesis unfolding ss_scan_def by (rule counted_none)
  qed
qed

definition ss_ready :: "sel_io \<Rightarrow> sel_srv \<Rightarrow> int set" where
  "ss_ready io s = {c \<in> ss_conns s. si_ready io c}"

definition ss_new :: "int \<Rightarrow> sel_io \<Rightarrow> sel_srv \<Rightarrow> int set" where
  "ss_new listenfd io s = (if si_ready io listenfd then {ei_conn io} else {})"

lemma ss_rset_eq:
  assumes "ss_inv listenfd s"
  shows "ss_rset io s = (if si_ready io listenfd then insert listenfd (ss_ready io s) else ss_ready io s)"
    "listenfd \<notin> ss_ready io s" "finite (ss_ready io s)"
  using assms finite_srv_open [of "ss_client s"] by (auto simp: ss_rset_def ss_ready_def ss_inv_def)

lemma ss_round_ok:
  assumes "ss_inv listenfd s" "ss_fresh io s"
  shows "yields (\<lambda>t. ss_inv listenfd t \<and>
      echo_step (ss_ready io s) (ss_ans io) (ss_new listenfd io s) (ss_conns s) (es_log s) (ss_conns t) (es_log t))
    (\<lambda>e. ss_fails io (ss_ready io s) e \<or> e = Fd_set_range \<and> ei_conn io \<ge> int FD_SETSIZE) (ss_round listenfd io s)"
proof -
  note r = ss_rset_eq [OF assms(1), of io]
  let ?r = "ss_rset io s"
  have fin: "finite ?r" using r by simp
  show ?thesis
  proof (cases "si_ready io listenfd")
    case False
    then have "?r \<inter> ss_conns s = ss_ready io s" "listenfd \<notin> ?r" using r by (auto simp: ss_ready_def)
    then show ?thesis using ss_scan_ok(1) [OF assms(1) fin, of "int (card ?r)" io] False r
      by (auto simp: ss_round_def Let_def ss_new_def elim!: yields_mono)
  next
    case True
    have c: "0 \<le> ei_conn io" "ei_conn io \<notin> ss_allset s" "ei_conn io \<notin> ss_ready io s" "ei_conn io \<notin> ?r"
      using assms by (auto simp: ss_fresh_def ss_ready_def ss_inv_def ss_rset_def)
    have after: "yields (\<lambda>t. ss_inv listenfd t \<and>
        echo_step (ss_ready io s) (ss_ans io) {ei_conn io} (ss_conns s) (es_log s) (ss_conns t) (es_log t))
      (ss_fails io (ss_ready io s)) (if int (card ?r) - 1 \<le> 0 then Inr u else ss_scan io ?r (int (card ?r) - 1) u)"
      if u: "ss_inv listenfd u" "ss_conns u = insert (ei_conn io) (ss_conns s)" "es_log u = es_log s" for u
    proof -
      have R: "?r \<inter> ss_conns u = ss_ready io s" using r True u c(4) assms(1) by (auto simp: ss_ready_def ss_inv_def)
      have n: "int (card (?r \<inter> ss_conns u)) \<le> int (card ?r) - 1" unfolding R using r True by simp
      have "(if int (card ?r) - 1 \<le> 0 then Inr u else ss_scan io ?r (int (card ?r) - 1) u) = ss_scan io ?r (int (card ?r) - 1) u"
        using ss_scan_ok(2) [OF u(1) fin n, of io] by simp
      then show ?thesis using ss_scan_ok(1) [OF u(1) fin n, of io, unfolded R, unfolded u(2,3)] echo_step_new [OF _ c(3)]
        by (auto elim!: yields_mono)
    qed
    have "yields (\<lambda>t. ss_inv listenfd t \<and> echo_step (ss_ready io s) (ss_ans io) {ei_conn io} (ss_conns s) (es_log s) (ss_conns t) (es_log t))
      (\<lambda>e. ss_fails io (ss_ready io s) e \<or> e = Fd_set_range \<and> ei_conn io \<ge> int FD_SETSIZE)
      (andthen (ss_accept (ei_conn io) s) (\<lambda>u. if int (card ?r) - 1 \<le> 0 then Inr u else ss_scan io ?r (int (card ?r) - 1) u))"
    proof (rule yields_andthen)
      show "yields (\<lambda>t. ss_inv listenfd t \<and> ss_conns t = insert (ei_conn io) (ss_conns s) \<and> es_log t = es_log s)
        (\<lambda>e. ss_fails io (ss_ready io s) e \<or> e = Fd_set_range \<and> ei_conn io \<ge> int FD_SETSIZE) (ss_accept (ei_conn io) s)"
        using ss_accept_ok [OF assms(1) c(1,2)] by (auto elim!: yields_mono)
    next
      fix u assume u: "ss_inv listenfd u \<and> ss_conns u = insert (ei_conn io) (ss_conns s) \<and> es_log u = es_log s"
      show "yields (\<lambda>t. ss_inv listenfd t \<and> echo_step (ss_ready io s) (ss_ans io) {ei_conn io} (ss_conns s) (es_log s) (ss_conns t) (es_log t))
        (\<lambda>e. ss_fails io (ss_ready io s) e \<or> e = Fd_set_range \<and> ei_conn io \<ge> int FD_SETSIZE)
        (if int (card ?r) - 1 \<le> 0 then Inr u else ss_scan io ?r (int (card ?r) - 1) u)"
        by (rule yields_mono [OF after]) (use u in auto)
    qed
    moreover have "listenfd \<in> ?r" using r True by simp
    ultimately show ?thesis using True by (simp add: ss_round_def Let_def ss_new_def)
  qed
qed

interpretation sserv: echo_server "ss_inv listenfd" ss_conns es_log "ss_round listenfd" ss_fresh ss_ready ss_ans "ss_new listenfd" for listenfd
  by unfold_locales (use yieldsD(1) [OF ss_round_ok] in blast)

section \<open>A round with poll\<close>

abbreviation (input) POLL_IN :: "16 word" where "POLL_IN \<equiv> POLLRDNORM OR POLLERR"

definition ps_inv :: "int \<Rightarrow> poll_srv \<Rightarrow> bool" where
  "ps_inv listenfd s \<longleftrightarrow> slots_distinct (pl_fd s) \<and> pl_fd s \<noteq> [] \<and> pl_fd s ! 0 = listenfd \<and> 0 \<le> listenfd \<and>
     length (pl_rev s) = length (pl_fd s) \<and> pl_maxi s < length (pl_fd s) \<and>
     (\<forall>i < length (pl_fd s). 0 \<le> pl_fd s ! i \<longrightarrow> i \<le> pl_maxi s)"

definition ps_conns :: "poll_srv \<Rightarrow> int set" where
  "ps_conns s = srv_open (pl_fd s) - {pl_fd s ! 0}"

text \<open>\<^verbatim>\<open>accept\<close> gives a new descriptor, and \<^verbatim>\<open>poll\<close> reports nothing without \<^verbatim>\<open>POLLRDNORM\<close> or \<^verbatim>\<open>POLLERR\<close>.\<close>

definition ps_env :: "poll_io \<Rightarrow> poll_srv \<Rightarrow> bool" where
  "ps_env io s \<longleftrightarrow> 0 \<le> ei_conn io \<and> ei_conn io \<notin> srv_open (pl_fd s) \<and>
     (\<forall>c \<in> srv_open (pl_fd s). pi_rev io c \<noteq> 0 \<longrightarrow> pi_rev io c AND POLL_IN \<noteq> 0)"

definition ps_ans :: "poll_io \<Rightarrow> int \<Rightarrow> cbuf" where
  "ps_ans io c = (case ei_recv io c of Inl e \<Rightarrow> [] | Inr bs \<Rightarrow> take ECHO_MAXLINE bs)"

definition ps_readies :: "poll_io \<Rightarrow> poll_srv \<Rightarrow> int set" where
  "ps_readies io s = {c \<in> ps_conns s. pi_rev io c AND POLL_IN \<noteq> 0}"

definition ps_new :: "poll_io \<Rightarrow> poll_srv \<Rightarrow> int set" where
  "ps_new io s = (if pi_rev io (pl_fd s ! 0) AND POLLRDNORM \<noteq> 0 then {ei_conn io} else {})"

interpretation ps: one_by_one ps_due "ps_serve io" for io
  by unfold_locales (auto simp: ps_due_def ps_serve_def Let_def split: sum.splits if_splits)

lemma ps_serve_ok:
  assumes "ps_inv listenfd t" "0 < i" "i < length (pl_fd t)" "0 \<le> pl_fd t ! i"
  shows "yields (\<lambda>u. ps_inv listenfd u \<and> pl_rev u = pl_rev t \<and> pl_maxi u = pl_maxi t \<and>
      (if ps_ans io (pl_fd t ! i) = [] then pl_fd u = (pl_fd t)[i := - 1] \<and> es_log u = es_log t
       else pl_fd u = pl_fd t \<and> es_log u = es_log t @ [(pl_fd t ! i, ps_ans io (pl_fd t ! i))]))
    (\<lambda>e. e = Read_error \<or> e = Writen_error) (ps_serve io i t)"
proof -
  have "slots_distinct (pl_fd t)" using assms(1) by (simp add: ps_inv_def)
  note del = open_del [OF assms(3,4) this]
  have "ps_inv listenfd (t\<lparr>es_closed := cs, pl_fd := (pl_fd t)[i := - 1]\<rparr>)" for cs
    using assms del unfolding ps_inv_def by (auto simp: nth_upd)
  moreover have "ps_inv listenfd (t\<lparr>es_log := l\<rparr>)" for l using assms(1) by (simp add: ps_inv_def)
  ultimately show ?thesis by (auto simp: ps_serve_def Let_def ps_ans_def split: sum.split)
qed

lemma ps_scan_all_ok:
  assumes "ps_inv listenfd s" "m < length (pl_fd s)"
  shows "yields (\<lambda>t. ps_inv listenfd t \<and> pl_rev t = pl_rev s \<and>
      served (pl_fd s) (\<lambda>j. ps_due j s) (ps_ans io) [1..<Suc m] (es_log s) (pl_fd t) (es_log t))
    (\<lambda>e. e = Read_error \<or> e = Writen_error) (scan_all ps_due (ps_serve io) [1..<Suc m] s)"
proof (rule scan_all_prefix)
  fix ps i qs t
  let ?Q = "\<lambda>ps t. ps_inv listenfd t \<and> pl_rev t = pl_rev s \<and>
    served (pl_fd s) (\<lambda>j. ps_due j s) (ps_ans io) ps (es_log s) (pl_fd t) (es_log t)"
  assume split: "[1..<Suc m] = ps @ i # qs" and Q: "?Q ps t"
  have "i \<in> set [1..<Suc m]" "i \<notin> set ps" using split distinct_upt [of 1 "Suc m"] by auto
  then have i: "0 < i" "i < length (pl_fd t)" "pl_fd t ! i = pl_fd s ! i" using assms(2) Q by (auto simp: served_def)
  then have due: "ps_due i t \<longleftrightarrow> ps_due i s" using Q by (simp add: ps_due_def)
  { assume d: "ps_due i t"
    then show "yields (?Q (ps @ [i])) (\<lambda>e. e = Read_error \<or> e = Writen_error) (ps_serve io i t)"
      using ps_serve_ok [of listenfd t i io] Q i due served_closed [of "pl_fd s" "\<lambda>j. ps_due j s"] served_echoed [of "pl_fd s" "\<lambda>j. ps_due j s"]
      by (auto simp: ps_due_def elim!: yields_mono split: if_splits) }
  { assume "\<not> ps_due i t"
    then show "?Q (ps @ [i]) t" using Q due served_skip by blast }
qed (simp add: assms served_Nil)

lemma ps_poll_simps [simp]:
  "pl_fd (ps_poll io s) = pl_fd s" "pl_maxi (ps_poll io s) = pl_maxi s" "es_log (ps_poll io s) = es_log s"
  by (simp_all add: ps_poll_def)

lemma ps_poll_inv: "ps_inv listenfd s \<Longrightarrow> ps_inv listenfd (ps_poll io s)"
  by (simp add: ps_inv_def ps_poll_def)

lemma ps_poll_rev:
  "ps_inv listenfd s \<Longrightarrow> k \<le> pl_maxi s \<Longrightarrow> pl_rev (ps_poll io s) ! k = (if pl_fd s ! k < 0 then 0 else pi_rev io (pl_fd s ! k))"
  by (simp add: ps_poll_def ps_inv_def)

lemma ps_accept_ok:
  assumes "ps_inv listenfd s" "0 \<le> connfd" "connfd \<notin> srv_open (pl_fd s)"
  shows "yields (\<lambda>t. ps_inv listenfd t \<and> pl_rev t = pl_rev s \<and> es_log t = es_log s \<and> pl_maxi s \<le> pl_maxi t \<and>
      ps_conns t = insert connfd (ps_conns s) \<and>
      (\<exists>i. 0 < i \<and> i < length (pl_fd s) \<and> pl_fd s ! i < 0 \<and> pl_fd t = (pl_fd s)[i := connfd]))
    (\<lambda>e. e = Too_many_clients \<and> (\<forall>i < length (pl_fd s). 0 \<le> pl_fd s ! i)) (ps_accept connfd s)"
proof -
  obtain xs where xs: "pl_fd s = listenfd # xs" using assms(1) by (cases "pl_fd s") (auto simp: ps_inv_def)
  let ?i = "Suc (first_free xs)"
  have sd: "slots_distinct (pl_fd s)" and l: "0 \<le> listenfd" using assms(1) by (simp_all add: ps_inv_def)
  show ?thesis
  proof (cases "first_free xs = length xs")
    case True
    then have "0 \<le> pl_fd s ! i" if "i < length (pl_fd s)" for i
      using first_free_full [OF True] that l by (cases i) (simp_all add: xs)
    then show ?thesis using True by (simp add: ps_accept_def xs)
  next
    case False
    then have i: "?i < length (pl_fd s)" "pl_fd s ! ?i < 0"
      using first_free_le [of xs] first_free_neg [of xs] by (simp_all add: xs)
    note add = open_add [OF i assms(2,3) sd]
    have "connfd \<noteq> listenfd" using assms(3) l by (auto simp: srv_open_def xs)
    then have "ps_conns (s\<lparr>pl_fd := (pl_fd s)[?i := connfd], pl_maxi := max (pl_maxi s) ?i\<rparr>) = insert connfd (ps_conns s)"
      using add(1) by (auto simp: ps_conns_def xs)
    moreover have "ps_inv listenfd (s\<lparr>pl_fd := (pl_fd s)[?i := connfd], pl_maxi := max (pl_maxi s) ?i\<rparr>)"
      using assms(1) add(2) i by (auto simp: ps_inv_def nth_upd le_max_iff_disj)
    ultimately show ?thesis using False i by (auto simp: ps_accept_def xs Let_def intro!: exI [of _ ?i])
  qed
qed

text \<open>The loop looks at the entries up to \<open>m\<close>: all that \<^verbatim>\<open>poll\<close> was called with.\<close>

lemma ps_scan_prefix:
  assumes "m \<le> pl_maxi u" "c = int (length (filter (\<lambda>k. ps_due k u) [1..<Suc m]))" "m = pl_maxi u \<and> c \<le> n \<or> c = n \<and> 0 < n"
  shows "ps_scan io n u = scan_all ps_due (ps_serve io) [1..<Suc m] u"
  using assms(3)
proof
  assume "m = pl_maxi u \<and> c \<le> n"
  then have m: "m = pl_maxi u" and c: "c \<le> n" by simp_all
  show ?thesis unfolding ps_scan_def m by (rule ps.counted_all) (use assms(2) m c in auto)
next
  assume *: "c = n \<and> 0 < n"
  have "[1..<Suc (pl_maxi u)] = [1..<Suc m] @ [Suc m..<Suc (pl_maxi u)]"
    using upt_add_eq_append [of 1 "Suc m" "pl_maxi u - m"] assms(1) by simp
  then show ?thesis unfolding ps_scan_def using * assms(2) by (simp only:) (intro ps.counted_exact; auto)
qed

lemma ps_served_ok:
  assumes "ps_inv listenfd u" "m < length (pl_fd u)" "R = {pl_fd u ! j |j. j \<in> set [1..<Suc m] \<and> ps_due j u}"
  shows "yields (\<lambda>t. ps_inv listenfd t \<and> echo_step R (ps_ans io) {} (ps_conns u) (es_log u) (ps_conns t) (es_log t))
    (\<lambda>e. e = Read_error \<or> e = Writen_error) (scan_all ps_due (ps_serve io) [1..<Suc m] u)"
proof (rule yields_mono [OF ps_scan_all_ok [OF assms(1,2)]])
  fix t assume t: "ps_inv listenfd t \<and> pl_rev t = pl_rev u \<and> served (pl_fd u) (\<lambda>j. ps_due j u) (ps_ans io) [1..<Suc m] (es_log u) (pl_fd t) (es_log t)"
  have sd: "slots_distinct (pl_fd u)" and l: "pl_fd u ! 0 = listenfd" "pl_fd t ! 0 = listenfd" using assms(1) t by (simp_all add: ps_inv_def)
  have "echo_step R (ps_ans io) {} (srv_open (pl_fd u)) (es_log u) (srv_open (pl_fd t)) (es_log t)"
    by (rule served_echo_step(1) [of _ "\<lambda>j. ps_due j u" _ "[1..<Suc m]"]) (use t sd assms(2,3) in \<open>auto simp: ps_due_def\<close>)
  then have "echo_step R (ps_ans io) {} (ps_conns u) (es_log u) (ps_conns t) (es_log t)"
    unfolding echo_step_def ps_conns_def l by auto
  then show "ps_inv listenfd t \<and> echo_step R (ps_ans io) {} (ps_conns u) (es_log u) (ps_conns t) (es_log t)" using t by blast
qed

text \<open>A state \<open>u\<close> after \<^verbatim>\<open>poll\<close> and perhaps \<^verbatim>\<open>accept\<close>, which has used an entry that \<^verbatim>\<open>poll\<close> found free.\<close>

lemma ps_due_polled:
  assumes "ps_inv listenfd s" "ps_env io s" "pl_rev u = pl_rev (ps_poll io s)"
    and "pl_fd u = pl_fd s \<or> (\<exists>i. pl_fd s ! i < 0 \<and> pl_fd u = (pl_fd s)[i := connfd])"
  shows "j \<le> pl_maxi s \<Longrightarrow> ps_due j u \<longleftrightarrow> pl_rev (ps_poll io s) ! j \<noteq> 0"
    and "{pl_fd u ! j |j. j \<in> set [1..<Suc (pl_maxi s)] \<and> ps_due j u} = ps_readies io s"
proof -
  have m: "pl_maxi s < length (pl_fd s)" and sd: "slots_distinct (pl_fd s)" and l: "0 \<le> pl_fd s ! 0" "0 < length (pl_fd s)"
    using assms(1) by (auto simp: ps_inv_def)
  have same: "pl_fd u ! j = pl_fd s ! j" if "0 \<le> pl_fd s ! j" for j
    using assms(4) that by (auto simp: nth_list_update_neq) (metis linorder_not_less nth_list_update_neq)
  have due: "ps_due j u \<longleftrightarrow> pl_rev (ps_poll io s) ! j \<noteq> 0" if j: "j \<le> pl_maxi s" for j
  proof (cases "pl_fd s ! j < 0")
    case False
    then have "pl_fd s ! j \<in> srv_open (pl_fd s)" using j m by (intro srv_open_memI) auto
    then show ?thesis using False same [of j] assms(2,3) ps_poll_rev [OF assms(1) j, of io]
      by (auto simp: ps_due_def ps_env_def)
  qed (simp add: ps_due_def assms(3) ps_poll_rev [OF assms(1) j])
  show "j \<le> pl_maxi s \<Longrightarrow> ps_due j u \<longleftrightarrow> pl_rev (ps_poll io s) ! j \<noteq> 0" by (rule due)
  show "{pl_fd u ! j |j. j \<in> set [1..<Suc (pl_maxi s)] \<and> ps_due j u} = ps_readies io s"
  proof (intro set_eqI iffI)
    fix c assume "c \<in> {pl_fd u ! j |j. j \<in> set [1..<Suc (pl_maxi s)] \<and> ps_due j u}"
    then obtain j where j: "c = pl_fd u ! j" "0 < j" "j \<le> pl_maxi s" "ps_due j u" by auto
    then have r: "pl_rev (ps_poll io s) ! j \<noteq> 0" using due by blast
    then have c: "0 \<le> pl_fd s ! j" "c = pl_fd s ! j" using ps_poll_rev [OF assms(1) j(3), of io] same [of j] j(1) by (auto split: if_splits)
    have "c \<noteq> pl_fd s ! 0" using c j(2,3) m l sd unfolding slots_distinct_def by (metis le_less_trans less_irrefl)
    then show "c \<in> ps_readies io s" using c j m r assms(3) ps_poll_rev [OF assms(1) j(3), of io]
      by (auto simp: ps_readies_def ps_conns_def ps_due_def intro!: srv_open_memI)
  next
    fix c assume "c \<in> ps_readies io s"
    then obtain j where j: "j < length (pl_fd s)" "pl_fd s ! j = c" "0 \<le> c" "c \<noteq> pl_fd s ! 0" "pi_rev io c AND POLL_IN \<noteq> 0"
      by (auto simp: ps_readies_def ps_conns_def srv_open_nth)
    then have jm: "j \<le> pl_maxi s" "0 < j" using assms(1) by (auto simp: ps_inv_def intro: gr0I)
    then have "ps_due j u" using due ps_poll_rev [OF assms(1) jm(1), of io] j by auto
    moreover have "c = pl_fd u ! j" "j \<in> set [1..<Suc (pl_maxi s)]" using jm j same [of j] by auto
    ultimately show "c \<in> {pl_fd u ! j |j. j \<in> set [1..<Suc (pl_maxi s)] \<and> ps_due j u}" by blast
  qed
qed

lemma ps_ready_count:
  "ps_ready s = (if pl_rev s ! 0 \<noteq> 0 then 1 else 0) + int (length (filter (\<lambda>k. pl_rev s ! k \<noteq> 0) [1..<Suc (pl_maxi s)]))"
  unfolding ps_ready_def by (subst upt_conv_Cons) simp_all

lemma ps_round_ok:
  assumes "ps_inv listenfd s" "ps_env io s"
  shows "yields (\<lambda>t. ps_inv listenfd t \<and>
      echo_step (ps_readies io s) (ps_ans io) (ps_new io s) (ps_conns s) (es_log s) (ps_conns t) (es_log t))
    (\<lambda>e. e = Read_error \<or> e = Writen_error \<or> e = Too_many_clients \<and> (\<forall>i < length (pl_fd s). 0 \<le> pl_fd s ! i)) (ps_round io s)"
proof -
  let ?p = "ps_poll io s" and ?m = "pl_maxi s" and ?E = "\<lambda>e. e = Read_error \<or> e = Writen_error \<or> e = Too_many_clients \<and> (\<forall>i < length (pl_fd s). 0 \<le> pl_fd s ! i)"
  let ?P = "\<lambda>new t. ps_inv listenfd t \<and> echo_step (ps_readies io s) (ps_ans io) new (ps_conns s) (es_log s) (ps_conns t) (es_log t)"
  have m: "?m < length (pl_fd s)" using assms(1) by (simp add: ps_inv_def)
  have rev0: "pl_rev ?p ! 0 = pi_rev io (pl_fd s ! 0)" using ps_poll_rev [OF assms(1), of 0 io] assms(1) by (simp add: ps_inv_def)
  have count: "filter (\<lambda>k. ps_due k u) [1..<Suc ?m] = filter (\<lambda>k. pl_rev ?p ! k \<noteq> 0) [1..<Suc ?m]"
    if "pl_rev u = pl_rev ?p" "pl_fd u = pl_fd s \<or> (\<exists>i. pl_fd s ! i < 0 \<and> pl_fd u = (pl_fd s)[i := c])" for u c
    using ps_due_polled(1) [OF assms that] by (intro filter_cong refl) auto
  note pinv = ps_poll_inv [OF assms(1), of io]
  show ?thesis
  proof (cases "pi_rev io (pl_fd s ! 0) AND POLLRDNORM = 0")
    case True
    have "ps_scan io (ps_ready ?p) ?p = scan_all ps_due (ps_serve io) [1..<Suc ?m] ?p"
      by (rule ps_scan_prefix [OF _ refl]) (use count [of ?p] ps_ready_count [of ?p] in simp_all)
    then have "yields (?P {}) (\<lambda>e. e = Read_error \<or> e = Writen_error) (ps_scan io (ps_ready ?p) ?p)"
      using ps_served_ok [OF pinv, of ?m "ps_readies io s" io] m ps_due_polled(2) [OF assms, of ?p] by (simp add: ps_conns_def)
    then show ?thesis using True rev0 by (auto simp: ps_round_def Let_def ps_new_def elim!: yields_mono)
  next
    case False
    have c: "0 \<le> ei_conn io" "ei_conn io \<notin> srv_open (pl_fd ?p)" "ei_conn io \<notin> ps_readies io s"
      using assms(2) by (auto simp: ps_env_def ps_readies_def ps_conns_def)
    let ?n = "ps_ready ?p - 1"
    have "yields (?P {ei_conn io}) ?E (andthen (ps_accept (ei_conn io) ?p) (\<lambda>u. if ?n \<le> 0 then Inr u else ps_scan io ?n u))"
    proof (rule yields_andthen)
      let ?A = "\<lambda>t. ps_inv listenfd t \<and> pl_rev t = pl_rev ?p \<and> es_log t = es_log ?p \<and> pl_maxi ?p \<le> pl_maxi t \<and>
        ps_conns t = insert (ei_conn io) (ps_conns ?p) \<and>
        (\<exists>i. 0 < i \<and> i < length (pl_fd ?p) \<and> pl_fd ?p ! i < 0 \<and> pl_fd t = (pl_fd ?p)[i := ei_conn io])"
      show "yields ?A ?E (ps_accept (ei_conn io) ?p)" by (rule yields_mono [OF ps_accept_ok [OF pinv c(1,2)]]) auto
      fix u assume u: "?A u"
      then have fd: "pl_fd u = pl_fd s \<or> (\<exists>i. pl_fd s ! i < 0 \<and> pl_fd u = (pl_fd s)[i := ei_conn io])" and rev: "pl_rev u = pl_rev ?p" by auto
      have n: "?n = int (length (filter (\<lambda>k. ps_due k u) [1..<Suc ?m]))"
        using count [OF rev fd] ps_ready_count [of ?p] False rev0 by auto
      have "(if ?n \<le> 0 then Inr u else ps_scan io ?n u) = scan_all ps_due (ps_serve io) [1..<Suc ?m] u"
      proof (cases "?n \<le> 0")
        case True
        then have "filter (\<lambda>k. ps_due k u) [1..<Suc ?m] = []" using n by (metis length_0_conv nat_int nat_le_0)
        then have "scan_all ps_due (ps_serve io) [1..<Suc ?m] u = Inr u" by (rule counted_none)
        then show ?thesis using True by (simp only: if_True)
      next
        case False
        then show ?thesis using ps_scan_prefix [of ?m u, OF _ n] u by simp
      qed
      moreover have "m = ?m \<Longrightarrow> m < length (pl_fd u)" for m using u m by auto
      ultimately show "yields (?P {ei_conn io}) ?E (if ?n \<le> 0 then Inr u else ps_scan io ?n u)"
        using ps_served_ok [of listenfd u ?m "ps_readies io s" io] u ps_due_polled(2) [OF assms rev fd] echo_step_new [OF _ c(3)]
        by (auto simp: ps_conns_def elim!: yields_mono)
    qed
    then show ?thesis using False rev0 by (simp add: ps_round_def Let_def ps_new_def)
  qed
qed

interpretation pserv: echo_server "ps_inv listenfd" ps_conns es_log ps_round ps_env ps_readies ps_ans ps_new for listenfd
  by unfold_locales (use yieldsD(1) [OF ps_round_ok] in blast)

lemma ps_start_inv: "0 \<le> listenfd \<Longrightarrow> 0 < n \<Longrightarrow> length junk = n \<Longrightarrow> ps_inv listenfd (ps_start junk n listenfd)"
  by (auto simp: ps_inv_def ps_start_def slots_distinct_def nth_Cons split: nat.splits)

section \<open>Properties\<close>

text \<open>C24: The echo server with \<^verbatim>\<open>select\<close>, after any number of rounds: what was sent to a connection is what was received
  from it, and the next round takes the new connection, serves every ready connection exactly once (so that the early
  end of its loop by \<^verbatim>\<open>nready\<close> skips none) and drops those that have ended.  It fails only when a read from a ready connection fails, when bytes that one has sent cannot be sent back, or
  when the new descriptor is too large for \<^verbatim>\<open>FD_SET\<close>; the array of clients is never full before that.\<close>

theorem echo_select_refines:
  assumes "0 \<le> listenfd" "listenfd < int FD_SETSIZE" "rounds_path (ss_round listenfd) ss_fresh ios (ss_start listenfd) s"
    and "ei_conn io \<notin> ss_allset s" "0 \<le> ei_conn io"
  shows "sent c (es_log s) = received (ss_round listenfd) (\<lambda>io s. if c \<in> ss_ready io s then ss_ans io c else []) ios (ss_start listenfd) \<and>
    (case ss_round listenfd io s of
       Inr t \<Rightarrow> echo_step (ss_ready io s) (ss_ans io) (ss_new listenfd io s) (ss_conns s) (es_log s) (ss_conns t) (es_log t)
     | Inl e \<Rightarrow>
         e = Read_error \<and> (\<exists>r \<in> ss_ready io s. \<exists>n. ei_recv io r = Inl n) \<or>
         e = Writen_error \<and> (\<exists>r \<in> ss_ready io s. (\<exists>bs. ei_recv io r = Inr bs \<and> bs \<noteq> []) \<and> \<not> ei_send io r) \<or>
         e = Fd_set_range \<and> ei_conn io \<ge> int FD_SETSIZE)"
proof
  note p = sserv.path_echoes [OF ss_start_inv [OF assms(1,2)] assms(3)]
  show "sent c (es_log s) = received (ss_round listenfd) (\<lambda>io s. if c \<in> ss_ready io s then ss_ans io c else []) ios (ss_start listenfd)"
    using p [of c] by (simp add: ss_start_def sent_def)
  have "ss_fresh io s" using assms(4,5) by (simp add: ss_fresh_def)
  from ss_round_ok [OF conjunct1 [OF p] this] show "case ss_round listenfd io s of
       Inr t \<Rightarrow> echo_step (ss_ready io s) (ss_ans io) (ss_new listenfd io s) (ss_conns s) (es_log s) (ss_conns t) (es_log t)
     | Inl e \<Rightarrow>
         e = Read_error \<and> (\<exists>r \<in> ss_ready io s. \<exists>n. ei_recv io r = Inl n) \<or>
         e = Writen_error \<and> (\<exists>r \<in> ss_ready io s. (\<exists>bs. ei_recv io r = Inr bs \<and> bs \<noteq> []) \<and> \<not> ei_send io r) \<or>
         e = Fd_set_range \<and> ei_conn io \<ge> int FD_SETSIZE"
    by (cases "ss_round listenfd io s") (auto simp: ss_fails_def)
qed

text \<open>The connection 4 is accepted; it ends in the next round.\<close>

definition example_sel_io :: "int \<Rightarrow> int \<Rightarrow> sel_io" where
  "example_sel_io ready conn = \<lparr>ei_conn = conn, ei_recv = (\<lambda>_. Inr []), ei_send = (\<lambda>_. True), si_ready = (\<lambda>c. c = ready)\<rparr>"

lemma example_sel_accepted: "\<exists>s. ss_round 3 (example_sel_io 3 4) (ss_start 3) = Inr s \<and> ss_inv 3 s \<and> ss_conns s = {4} \<and> es_log s = []"
proof -
  have n: "ss_conns (ss_start 3) = {}" "ss_ready (example_sel_io 3 4) (ss_start 3) = {}" "es_log (ss_start 3) = []" "ss_fresh (example_sel_io 3 4) (ss_start 3)"
    "ss_new 3 (example_sel_io 3 4) (ss_start 3) = {4}" "ei_conn (example_sel_io 3 4) = 4"
    by (auto simp: ss_ready_def ss_start_def srv_open_def ss_fresh_def ss_new_def example_sel_io_def)
  show ?thesis using ss_round_ok [OF ss_start_inv n(4)]
    by (cases "ss_round 3 (example_sel_io 3 4) (ss_start 3)") (auto simp: n ss_fails_def echo_step_def)
qed

theorem echo_select_refines_witness:
  "\<exists>s t. ss_round 3 (example_sel_io 3 4) (ss_start 3) = Inr s \<and> ss_conns s = {4} \<and> ss_round 3 (example_sel_io 4 5) s = Inr t \<and> ss_conns t = {}"
proof -
  obtain s where s: "ss_round 3 (example_sel_io 3 4) (ss_start 3) = Inr s" "ss_inv 3 s" "ss_conns s = {4}" "es_log s = []"
    using example_sel_accepted by blast
  have p: "rounds_path (ss_round 3) ss_fresh [example_sel_io 3 4] (ss_start 3) s"
    using s(1) by (simp add: ss_fresh_def ss_start_def example_sel_io_def)
  have a: "ss_ready (example_sel_io 4 5) s = {4}" "ss_new 3 (example_sel_io 4 5) s = {}" "ss_ans (example_sel_io 4 5) 4 = []"
    "ei_conn (example_sel_io 4 5) = 5" "ei_recv (example_sel_io 4 5) c = Inr []" "ss_allset s = {3, 4}" for c
    using s(2,3) by (auto simp: ss_ready_def ss_new_def ss_ans_def ss_inv_def example_sel_io_def)
  show ?thesis using echo_select_refines [OF _ _ p, of "example_sel_io 4 5"] s
    by (cases "ss_round 3 (example_sel_io 4 5) s") (auto simp: a echo_step_def)
qed

text \<open>The echo server with \<^verbatim>\<open>poll\<close>, with any contents of its array at the start: what was sent to a connection is what was
  received from it, and the next round serves every ready connection exactly once; it ends with an error only when a
  call does or when all entries of the array are in use.  \<^verbatim>\<open>poll\<close> is to report no event other than
  \<^verbatim>\<open>POLLRDNORM\<close> and \<^verbatim>\<open>POLLERR\<close> alone.\<close>

theorem echo_poll_refines:
  assumes "0 \<le> listenfd" "0 < n" "length junk = n" "rounds_path ps_round ps_env ios (ps_start junk n listenfd) s" "ps_env io s"
  shows "sent c (es_log s) = received ps_round (\<lambda>io s. if c \<in> ps_readies io s then ps_ans io c else []) ios (ps_start junk n listenfd) \<and>
    yields (\<lambda>t. echo_step (ps_readies io s) (ps_ans io) (ps_new io s) (ps_conns s) (es_log s) (ps_conns t) (es_log t))
      (\<lambda>e. e = Read_error \<or> e = Writen_error \<or> e = Too_many_clients \<and> (\<forall>i < length (pl_fd s). 0 \<le> pl_fd s ! i)) (ps_round io s)"
proof
  note p = pserv.path_echoes [OF ps_start_inv [OF assms(1-3)] assms(4)]
  show "sent c (es_log s) = received ps_round (\<lambda>io s. if c \<in> ps_readies io s then ps_ans io c else []) ios (ps_start junk n listenfd)"
    using p [of c] by (simp add: ps_start_def sent_def)
  from ps_round_ok [OF conjunct1 [OF p] assms(5)] show "yields (\<lambda>t. echo_step (ps_readies io s) (ps_ans io) (ps_new io s) (ps_conns s) (es_log s) (ps_conns t) (es_log t))
      (\<lambda>e. e = Read_error \<or> e = Writen_error \<or> e = Too_many_clients \<and> (\<forall>i < length (pl_fd s). 0 \<le> pl_fd s ! i)) (ps_round io s)"
    by (auto elim!: yields_mono)
qed

definition example_poll_io :: "int \<Rightarrow> poll_io" where
  "example_poll_io fd = \<lparr>ei_conn = 4, ei_recv = (\<lambda>_. Inr ''hi''), ei_send = (\<lambda>_. True), pi_rev = (\<lambda>c. if c = fd then POLLRDNORM else 0)\<rparr>"

theorem echo_poll_refines_witness:
  "sent 4 [(4, ''hi'')] = received ps_round (\<lambda>io s. if 4 \<in> ps_readies io s then ps_ans io 4 else [])
     [example_poll_io 3, (example_poll_io 4)\<lparr>ei_conn := 5\<rparr>] (ps_start [0, 8, 0x40] 3 3)"
proof -
  let ?s = "\<lparr>es_closed = [], es_log = [(4, ''hi'')], pl_fd = [3, 4, - 1], pl_rev = [0, 0x40, 0x40], pl_maxi = 1\<rparr> :: poll_srv"
  let ?u = "\<lparr>es_closed = [], es_log = [], pl_fd = [3, 4, - 1], pl_rev = [0x40, 8, 0x40], pl_maxi = 1\<rparr> :: poll_srv"
  note defs = example_poll_io_def ps_round_def ps_poll_def ps_ready_def ps_accept_def ps_scan_def ps_due_def ps_serve_def
    ps_start_def first_free_def Let_def upt_rec
  have r: "replicate 2 (- 1 :: int) = [- 1, - 1]" by (simp add: numeral_2_eq_2)
  have 1: "ps_round (example_poll_io 3) (ps_start [0, 8, 0x40] 3 3) = Inr ?u" by (simp add: defs r)
  have 2: "ps_round ((example_poll_io 4)\<lparr>ei_conn := 5\<rparr>) ?u = Inr ?s" by (simp add: defs)
  have path: "rounds_path ps_round ps_env [example_poll_io 3, (example_poll_io 4)\<lparr>ei_conn := 5\<rparr>] (ps_start [0, 8, 0x40] 3 3) ?s"
    using 1 2 by (simp add: ps_env_def srv_open_def ps_start_def example_poll_io_def)
  have env: "ps_env (example_poll_io 3\<lparr>ei_conn := 5\<rparr>) ?s" by (simp add: ps_env_def srv_open_def example_poll_io_def)
  have "sent 4 (es_log ?s) = received ps_round (\<lambda>io s. if 4 \<in> ps_readies io s then ps_ans io 4 else [])
     [example_poll_io 3, (example_poll_io 4)\<lparr>ei_conn := 5\<rparr>] (ps_start [0, 8, 0x40] 3 3)"
    by (rule conjunct1 [OF echo_poll_refines [OF _ _ _ path env]]) simp_all
  then show ?thesis by simp
qed

text \<open>The field \<^verbatim>\<open>revents\<close> of a new entry has never been set: when \<^verbatim>\<open>poll\<close> reports only \<^verbatim>\<open>POLLHUP\<close> for another
  connection, the loop reads from the new connection although nothing was reported for it.\<close>

lemma poll_stale_revents:
  "ps_round \<lparr>ei_conn = 5, ei_recv = (\<lambda>_. Inr ''hi''), ei_send = (\<lambda>_. True), pi_rev = (\<lambda>c. if c = 3 then POLLRDNORM else if c = 4 then 0x10 else 0)\<rparr>
     \<lparr>es_closed = [], es_log = [], pl_fd = [3, 4, - 1], pl_rev = [0, 0, POLLRDNORM], pl_maxi = 1\<rparr> =
   Inr \<lparr>es_closed = [], es_log = [(5, ''hi'')], pl_fd = [3, 4, 5], pl_rev = [POLLRDNORM, 0x10, POLLRDNORM], pl_maxi = 2\<rparr>"
  by (simp add: ps_round_def ps_poll_def ps_ready_def ps_accept_def ps_scan_def ps_due_def ps_serve_def first_free_def Let_def upt_rec)

end
