(* ===== verification/Server_Pool.thy ===== *)
theory Server_Pool
  imports Counted_Scan
begin

text \<open>
  The preforked server of \<^verbatim>\<open>unpv13e/server/serv05.c\<close> and \<^verbatim>\<open>child05.c\<close>: the parent accepts connections and passes each to
  a child that is ready; the child serves it and writes one byte on its stream pipe.  The parent's array \<^verbatim>\<open>cptr\<close> is
  modelled with both ends of each pipe.  A round of the parent and the two actions of a child are the steps; the
  descriptors that \<^verbatim>\<open>select\<close> reports may be fewer than are ready by the time they are read.
\<close>

section \<open>Parent and children\<close>

datatype pool_error = No_available_children | Child_terminated nat

text \<open>The fields of \<^verbatim>\<open>Child\<close>, the descriptors on the way to the child, the connection it serves, and the bytes it has
  written.\<close>

record child =
  child_status :: int
  child_count :: nat
  ch_down :: "int list"
  ch_conn :: "int option"
  ch_up :: nat

record pool =
  cptr :: "child list"
  navail :: int
  taken :: "int list"
  finished :: "int list"

definition child_make :: child where
  "child_make = \<lparr>child_status = 0, child_count = 0, ch_down = [], ch_conn = None, ch_up = 0\<rparr>"

definition pool_start :: "nat \<Rightarrow> pool" where
  "pool_start nchildren = \<lparr>cptr = replicate nchildren child_make, navail = int nchildren, taken = [], finished = []\<rparr>"

definition find_ready :: "child list \<Rightarrow> nat" where
  "find_ready cs = length (takeWhile (\<lambda>c. child_status c \<noteq> 0) cs)"

definition give_child :: "int \<Rightarrow> pool \<Rightarrow> pool_error + pool" where
  "give_child connfd s =
     (let i = find_ready (cptr s); c = cptr s ! i in
      if i = length (cptr s) then Inl No_available_children
      else Inr (s\<lparr>cptr := (cptr s)[i := c\<lparr>child_status := 1, child_count := child_count c + 1, ch_down := ch_down c @ [connfd]\<rparr>],
                  navail := navail s - 1, taken := taken s @ [connfd]\<rparr>))"

text \<open>A descriptor that is readable with nothing to read is at its end.\<close>

definition child_back :: "nat \<Rightarrow> pool \<Rightarrow> pool_error + pool" where
  "child_back i s =
     (let c = cptr s ! i in
      if ch_up c = 0 then Inl (Child_terminated i)
      else Inr (s\<lparr>cptr := (cptr s)[i := c\<lparr>child_status := 0, ch_up := ch_up c - 1\<rparr>], navail := navail s + 1\<rparr>))"

definition pool_scan :: "nat set \<Rightarrow> int \<Rightarrow> pool \<Rightarrow> pool_error + pool" where
  "pool_scan R nsel s = counted (\<lambda>k. k = 0) (\<lambda>i _. i \<in> R) child_back [0..<length (cptr s)] nsel s"

definition pool_round :: "bool \<Rightarrow> int \<Rightarrow> nat set \<Rightarrow> pool \<Rightarrow> pool_error + pool" where
  "pool_round pending connfd R s =
     (let listening = pending \<and> \<not> navail s \<le> 0; nsel = int (card R) + (if listening then 1 else 0) in
      if listening then andthen (give_child connfd s) (\<lambda>s. if nsel - 1 = 0 then Inr s else pool_scan R (nsel - 1) s)
      else pool_scan R nsel s)"

text \<open>The loop of \<^verbatim>\<open>child_main\<close>: \<^verbatim>\<open>Read_fd\<close>, and the end of the connection with the byte for the parent.\<close>

definition child_recv :: "child \<Rightarrow> child" where
  "child_recv c = c\<lparr>ch_down := tl (ch_down c), ch_conn := Some (hd (ch_down c))\<rparr>"

definition child_done :: "child \<Rightarrow> child" where
  "child_done c = c\<lparr>ch_conn := None, ch_up := ch_up c + 1\<rparr>"

definition readable :: "pool \<Rightarrow> nat set" where
  "readable s = {i. i < length (cptr s) \<and> 0 < ch_up (cptr s ! i)}"

inductive pool_step :: "pool \<Rightarrow> pool \<Rightarrow> bool" where
  round: "R \<subseteq> readable s \<Longrightarrow> pool_round pending connfd R s = Inr t \<Longrightarrow> pool_step s t"
| recv: "i < length (cptr s) \<Longrightarrow> ch_conn (cptr s ! i) = None \<Longrightarrow> ch_down (cptr s ! i) \<noteq> [] \<Longrightarrow>
    pool_step s (s\<lparr>cptr := (cptr s)[i := child_recv (cptr s ! i)]\<rparr>)"
| finish: "i < length (cptr s) \<Longrightarrow> ch_conn (cptr s ! i) = Some fd \<Longrightarrow>
    pool_step s (s\<lparr>cptr := (cptr s)[i := child_done (cptr s ! i)], finished := finished s @ [fd]\<rparr>)"

inductive pool_reach :: "nat \<Rightarrow> pool \<Rightarrow> bool" for n where
  start: "pool_reach n (pool_start n)"
| step: "pool_reach n s \<Longrightarrow> pool_step s t \<Longrightarrow> pool_reach n t"

section \<open>The invariant\<close>

definition held :: "child \<Rightarrow> int list" where
  "held c = ch_down c @ (case ch_conn c of None \<Rightarrow> [] | Some fd \<Rightarrow> [fd])"

text \<open>A child that is marked ready has nothing to do and has told so; one that is marked busy has one connection, or one byte on
  the way.\<close>

definition child_ok :: "child \<Rightarrow> bool" where
  "child_ok c \<longleftrightarrow> (child_status c = 0 \<and> held c = [] \<and> ch_up c = 0) \<or>
     (child_status c = 1 \<and> length (held c) + ch_up c = 1)"

definition pool_inv :: "nat \<Rightarrow> pool \<Rightarrow> bool" where
  "pool_inv n s \<longleftrightarrow> length (cptr s) = n \<and> (\<forall>i < n. child_ok (cptr s ! i)) \<and>
     navail s = int (count_list (map child_status (cptr s)) 0) \<and>
     mset (taken s) = mset (finished s) + mset (concat (map held (cptr s))) \<and>
     sum_list (map child_count (cptr s)) = length (taken s)"

lemma pool_start_inv: "pool_inv n (pool_start n)"
proof -
  have "count_list (replicate n (0 :: int)) 0 = n" "concat (replicate n ([] :: int list)) = []" "sum_list (replicate n (0 :: nat)) = 0"
    by (induction n) simp_all
  then show ?thesis by (simp add: pool_inv_def pool_start_def child_make_def child_ok_def held_def)
qed

text \<open>Changing one child.\<close>

lemma pool_inv_update:
  assumes "pool_inv n s" "i < n" "child_ok c"
    and "mset tk + mset (held (cptr s ! i)) + mset (finished s) = mset (taken s) + mset (held c) + mset fin"
    and "child_count c + length (taken s) = child_count (cptr s ! i) + length tk"
    and "na = navail s - (if child_status (cptr s ! i) = 0 then 1 else 0) + (if child_status c = 0 then 1 else 0)"
  shows "pool_inv n (s\<lparr>cptr := (cptr s)[i := c], navail := na, taken := tk, finished := fin\<rparr>)"
proof -
  have l: "length (cptr s) = n" using assms(1) by (simp add: pool_inv_def)
  have i: "i < length (cptr s)" using assms(2) l by simp
  note m = mset_concat_update [OF i, of held c] and c = sum_list_map_update [OF i, of child_count c]
    and k = count_list_update [of i "map child_status (cptr s)" "child_status c" 0]
  have t: "mset (taken s) = mset (finished s) + mset (concat (map held (cptr s)))" using assms(1) by (simp add: pool_inv_def)
  have "mset tk + (mset (held (cptr s ! i)) + mset (finished s)) = mset fin + mset (concat (map held ((cptr s)[i := c]))) + (mset (held (cptr s ! i)) + mset (finished s))"
    using assms(4) m t by (simp add: ac_simps)
  then have "mset tk = mset fin + mset (concat (map held ((cptr s)[i := c])))" by (simp only: add_right_cancel)
  then show ?thesis using assms l i c k by (auto simp: pool_inv_def nth_upd map_update)
qed

lemma find_ready_ok:
  assumes "pool_inv n s" "0 < navail s"
  shows "find_ready (cptr s) < n" "child_status (cptr s ! find_ready (cptr s)) = 0"
proof -
  let ?P = "\<lambda>c. child_status c \<noteq> 0"
  have "count_list (map child_status (cptr s)) 0 \<noteq> 0" using assms by (auto simp: pool_inv_def)
  then have "0 \<in> set (map child_status (cptr s))" by (metis count_list_0_iff)
  then obtain c where c: "c \<in> set (cptr s)" "child_status c = 0" by auto
  have "length (takeWhile ?P (cptr s)) < length (cptr s)"
  proof (rule ccontr)
    assume "\<not> length (takeWhile ?P (cptr s)) < length (cptr s)"
    then have "takeWhile ?P (cptr s) = cptr s" by (metis takeWhile_eq_take take_all_iff linorder_not_less)
    then show False using c by (metis set_takeWhileD)
  qed
  then show "find_ready (cptr s) < n" "child_status (cptr s ! find_ready (cptr s)) = 0"
    using assms(1) nth_length_takeWhile [of ?P "cptr s"] by (simp_all add: find_ready_def pool_inv_def)
qed

lemma give_child_ok:
  assumes "pool_inv n s" "0 < navail s"
  shows "yields (\<lambda>t. pool_inv n t \<and> readable s \<subseteq> readable t) (\<lambda>_. False) (give_child connfd s)"
proof -
  let ?i = "find_ready (cptr s)"
  let ?c = "cptr s ! ?i"
  note f = find_ready_ok [OF assms]
  have l: "length (cptr s) = n" and ok: "child_ok ?c" using assms(1) f(1) by (simp_all add: pool_inv_def)
  have h: "held ?c = []" "ch_up ?c = 0" using ok f(2) by (auto simp: child_ok_def)
  let ?d = "?c\<lparr>child_status := 1, child_count := child_count ?c + 1, ch_down := ch_down ?c @ [connfd]\<rparr>"
  have "held ?d = [connfd]" using h by (auto simp: held_def split: option.splits)
  then have "pool_inv n (s\<lparr>cptr := (cptr s)[?i := ?d], navail := navail s - 1, taken := taken s @ [connfd], finished := finished s\<rparr>)"
    using h f by (intro pool_inv_update [OF assms(1) f(1)]) (simp_all add: child_ok_def)
  moreover have "readable s \<subseteq> readable (s\<lparr>cptr := (cptr s)[?i := ?d], navail := navail s - 1, taken := taken s @ [connfd], finished := finished s\<rparr>)"
    by (auto simp: readable_def nth_upd)
  ultimately show ?thesis using f(1) l by (simp add: give_child_def Let_def)
qed

lemma child_back_ok:
  assumes "pool_inv n s" "i \<in> readable s"
  shows "yields (\<lambda>t. pool_inv n t \<and> length (cptr t) = n \<and> readable s - {i} \<subseteq> readable t) (\<lambda>_. False) (child_back i s)"
proof -
  let ?c = "cptr s ! i"
  have i: "i < n" "0 < ch_up ?c" and l: "length (cptr s) = n" using assms by (auto simp: readable_def pool_inv_def)
  then have "child_ok ?c" using assms(1) by (simp add: pool_inv_def)
  then have "child_status ?c = 1" "length (held ?c) + ch_up ?c = 1" using i(2) by (auto simp: child_ok_def)
  then have ok: "child_status ?c = 1" "held ?c = []" "ch_up ?c = 1" using i(2) by (simp_all flip: length_0_conv)
  let ?d = "?c\<lparr>child_status := 0, ch_up := ch_up ?c - 1\<rparr>"
  have "held ?d = held ?c" by (simp add: held_def)
  then have "pool_inv n (s\<lparr>cptr := (cptr s)[i := ?d], navail := navail s + 1, taken := taken s, finished := finished s\<rparr>)"
    using ok by (intro pool_inv_update [OF assms(1) i(1)]) (simp_all add: child_ok_def)
  then show ?thesis using i l by (auto simp: child_back_def Let_def readable_def nth_upd)
qed

interpretation pool: one_by_one "\<lambda>i (_ :: pool). i \<in> R" child_back for R
  by unfold_locales simp

lemma pool_scan_ok:
  assumes "pool_inv n s" "R \<subseteq> readable s" "int (card R) \<le> k"
  shows "yields (pool_inv n) (\<lambda>_. False) (pool_scan R k s)" "k = 0 \<Longrightarrow> pool_scan R k s = Inr s"
proof -
  let ?ns = "[0..<length (cptr s)]"
  have R: "set (filter (\<lambda>i. i \<in> R) ?ns) = R" "finite R" using assms(2) by (auto simp: readable_def intro: finite_subset [of _ "{..<length (cptr s)}"])
  have "length (filter (\<lambda>i. i \<in> R) ?ns) = card R" using R(1) by (metis distinct_card distinct_filter distinct_upt)
  then have "pool_scan R k s = scan_all (\<lambda>i _. i \<in> R) child_back ?ns s"
    unfolding pool_scan_def using assms(3) by (intro pool.counted_all) auto
  moreover have "yields (\<lambda>t. pool_inv n t \<and> R - set ?ns \<subseteq> readable t) (\<lambda>_. False) (scan_all (\<lambda>i _. i \<in> R) child_back ?ns s)"
  proof (rule scan_all_prefix)
    fix ps i qs t
    assume split: "?ns = ps @ i # qs" and Q: "pool_inv n t \<and> R - set ps \<subseteq> readable t"
    have "i \<notin> set ps" using split distinct_upt [of 0 "length (cptr s)"] by auto
    { assume "i \<in> R"
      then have "i \<in> readable t" using Q \<open>i \<notin> set ps\<close> by auto
      from child_back_ok [OF conjunct1 [OF Q] this]
      show "yields (\<lambda>t. pool_inv n t \<and> R - set (ps @ [i]) \<subseteq> readable t) (\<lambda>_. False) (child_back i t)" using Q by (auto elim!: yields_mono) }
    { assume "i \<notin> R"
      then show "pool_inv n t \<and> R - set (ps @ [i]) \<subseteq> readable t" using Q by auto }
  qed (use assms in simp)
  ultimately show "yields (pool_inv n) (\<lambda>_. False) (pool_scan R k s)" by (auto elim!: yields_mono)
  show "pool_scan R k s = Inr s" if "k = 0"
  proof -
    have "R = {}" using assms(3) that R(2) by simp
    then show ?thesis by (simp add: pool_scan_def counted_none)
  qed
qed

lemma pool_round_ok:
  assumes "pool_inv n s" "R \<subseteq> readable s"
  shows "yields (pool_inv n) (\<lambda>_. False) (pool_round pending connfd R s)"
proof (cases "pending \<and> \<not> navail s \<le> 0")
  case True
  then have "0 < navail s" by simp
  note g = give_child_ok [OF assms(1) this, of connfd]
  have "yields (pool_inv n) (\<lambda>_. False) (andthen (give_child connfd s) (\<lambda>s. if int (card R) + 1 - 1 = 0 then Inr s else pool_scan R (int (card R) + 1 - 1) s))"
    using g
  proof (rule yields_andthen)
    fix u assume "pool_inv n u \<and> readable s \<subseteq> readable u"
    then show "yields (pool_inv n) (\<lambda>_. False) (if int (card R) + 1 - 1 = 0 then Inr u else pool_scan R (int (card R) + 1 - 1) u)"
      using pool_scan_ok(1) [of n u R "int (card R)"] assms(2) by auto
  qed
  then show ?thesis using True by (simp add: pool_round_def Let_def)
next
  case False
  then show ?thesis using pool_scan_ok(1) [OF assms, of "int (card R)"] by (auto simp: pool_round_def Let_def)
qed

lemma pool_step_inv:
  assumes "pool_step s t" "pool_inv n s"
  shows "pool_inv n t"
  using assms(1)
proof cases
  case (round R pending connfd)
  then show ?thesis using yieldsD(1) [OF pool_round_ok [OF assms(2)]] by blast
next
  case (recv i)
  have i: "i < n" "child_ok (cptr s ! i)" using recv assms(2) by (auto simp: pool_inv_def)
  have "held (child_recv (cptr s ! i)) = tl (ch_down (cptr s ! i)) @ [hd (ch_down (cptr s ! i))]" "held (cptr s ! i) = ch_down (cptr s ! i)"
    using recv by (simp_all add: held_def child_recv_def)
  then have m: "mset (held (child_recv (cptr s ! i))) = mset (held (cptr s ! i))" "length (held (child_recv (cptr s ! i))) = length (held (cptr s ! i))"
    using recv(4) by (cases "ch_down (cptr s ! i)"; simp)+
  have "pool_inv n (s\<lparr>cptr := (cptr s)[i := child_recv (cptr s ! i)], navail := navail s, taken := taken s, finished := finished s\<rparr>)"
    using m i by (intro pool_inv_update [OF assms(2) i(1)]) (auto simp: child_ok_def child_recv_def)
  then show ?thesis using recv by simp
next
  case (finish i fd)
  have i: "i < n" "child_ok (cptr s ! i)" using finish assms(2) by (auto simp: pool_inv_def)
  have h: "held (cptr s ! i) = ch_down (cptr s ! i) @ [fd]" "held (child_done (cptr s ! i)) = ch_down (cptr s ! i)"
    using finish by (simp_all add: held_def child_done_def)
  have "pool_inv n (s\<lparr>cptr := (cptr s)[i := child_done (cptr s ! i)], navail := navail s, taken := taken s, finished := finished s @ [fd]\<rparr>)"
    using h i by (intro pool_inv_update [OF assms(2) i(1)]) (auto simp: child_ok_def child_done_def)
  then show ?thesis using finish by simp
qed

lemma pool_reach_inv: "pool_reach n s \<Longrightarrow> pool_inv n s"
  by (induction rule: pool_reach.induct) (auto intro: pool_start_inv pool_step_inv)

section \<open>Properties\<close>

text \<open>C26: In every interleaving of the parent and its children each connection that was accepted has been served by one child,
  or one child has it; no child has more than one; \<^verbatim>\<open>navail\<close> is the number of children marked ready, and a
  round of the parent neither runs out of children nor finds a child terminated.\<close>

theorem pool_serves_once:
  assumes "pool_reach n s" "R \<subseteq> readable s"
  shows "mset (taken s) = mset (finished s) + mset (concat (map held (cptr s))) \<and>
    (\<forall>c \<in> set (cptr s). length (held c) \<le> 1 \<and> (child_status c = 0 \<longrightarrow> held c = [])) \<and>
    sum_list (map child_count (cptr s)) = length (taken s) \<and>
    navail s = int (length (filter (\<lambda>c. child_status c = 0) (cptr s))) \<and>
    (\<exists>t. pool_round pending connfd R s = Inr t)"
proof -
  have inv: "pool_inv n s" by (rule pool_reach_inv [OF assms(1)])
  have "length (held c) \<le> 1 \<and> (child_status c = 0 \<longrightarrow> held c = [])" if "c \<in> set (cptr s)" for c
    using inv that by (auto simp: pool_inv_def child_ok_def in_set_conv_nth)
  moreover have "count_list (map child_status cs) 0 = length (filter (\<lambda>c. child_status c = 0) cs)" for cs by (induction cs) auto
  moreover have "\<exists>t. pool_round pending connfd R s = Inr t"
    using pool_round_ok [OF inv assms(2), of pending connfd] by (cases "pool_round pending connfd R s") simp_all
  ultimately show ?thesis using inv by (simp add: pool_inv_def)
qed

definition busy_pool :: pool where
  "busy_pool = \<lparr>cptr = [child_make\<lparr>child_status := 1, child_count := 1, ch_conn := Some 7\<rparr>, child_make], navail = 1, taken = [7], finished = []\<rparr>"

lemma busy_pool_reached: "pool_reach 2 busy_pool"
proof -
  let ?s = "\<lparr>cptr = [child_make\<lparr>child_status := 1, child_count := 1, ch_down := [7]\<rparr>, child_make], navail = 1, taken = [7], finished = []\<rparr>"
  have r: "replicate 2 c = [c, c]" for c :: child by (simp add: numeral_2_eq_2)
  have "pool_round True 7 {} (pool_start 2) = Inr ?s"
    by (simp add: pool_round_def pool_start_def give_child_def find_ready_def r child_make_def Let_def)
  then have "pool_reach 2 ?s" by (intro pool_reach.step [OF pool_reach.start] pool_step.round [of "{}"]) simp_all
  then have "pool_reach 2 (?s\<lparr>cptr := (cptr ?s)[0 := child_recv (cptr ?s ! 0)]\<rparr>)"
    by (rule pool_reach.step) (rule pool_step.recv; simp add: child_make_def)
  then show ?thesis by (simp add: busy_pool_def child_recv_def child_make_def)
qed

theorem pool_serves_once_witness:
  "mset [7 :: int] = mset (concat (map held (cptr busy_pool))) \<and> navail busy_pool = int (length (filter (\<lambda>c. child_status c = 0) (cptr busy_pool))) \<and>
   (\<exists>t. pool_round True 8 {} busy_pool = Inr t)"
proof -
  have b: "taken busy_pool = [7]" "finished busy_pool = []" by (simp_all add: busy_pool_def)
  show ?thesis using pool_serves_once [OF busy_pool_reached empty_subsetI, of True 8] unfolding b by simp
qed

end
