(* ===== verification/Thread_Pool.thy ===== *)
theory Thread_Pool
  imports C_Prelude
begin

text \<open>
  The prethreaded server of \<^verbatim>\<open>unpv13e/server/serv08.c\<close> and \<^verbatim>\<open>pthread08.c\<close>: the main thread accepts connections and puts them into
  the circular array \<^verbatim>\<open>clifd\<close>, from which the threads of the pool take them; \<^verbatim>\<open>clifd_mutex\<close> and \<^verbatim>\<open>clifd_cond\<close>
  guard it.  The locale \<open>bounded_queue\<close> is the contract of the array; the threads are a step relation, in which a
  thread may sleep in \<^verbatim>\<open>pthread_cond_wait\<close> and be woken by a signal or without one.
\<close>

section \<open>The circular array\<close>

abbreviation (input) MAXNCLI :: nat where "MAXNCLI \<equiv> 32"

record cli_ring =
  clifd :: "int list"
  iget :: nat
  iput :: nat

datatype ring_error = Iput_iget nat

definition next_index :: "nat \<Rightarrow> nat" where
  "next_index i = (if i + 1 = MAXNCLI then 0 else i + 1)"

definition ring_put :: "int \<Rightarrow> 'a cli_ring_scheme \<Rightarrow> ring_error + 'a cli_ring_scheme" where
  "ring_put connfd r =
     (let r = r\<lparr>clifd := (clifd r)[iput r := connfd], iput := next_index (iput r)\<rparr>
      in if iput r = iget r then Inl (Iput_iget (iput r)) else Inr r)"

definition ring_get :: "'a cli_ring_scheme \<Rightarrow> int \<times> 'a cli_ring_scheme" where
  "ring_get r = (clifd r ! iget r, r\<lparr>iget := next_index (iget r)\<rparr>)"

definition ring_empty :: "'a cli_ring_scheme \<Rightarrow> bool" where
  "ring_empty r \<longleftrightarrow> iget r = iput r"

section \<open>The contract of a bounded queue\<close>

locale bounded_queue =
  fixes ok :: "'r \<Rightarrow> bool" and waiting :: "'r \<Rightarrow> int list" and cap :: nat
    and put :: "int \<Rightarrow> 'r \<Rightarrow> 'e + 'r" and get :: "'r \<Rightarrow> int \<times> 'r" and empty :: "'r \<Rightarrow> bool"
  assumes empty_law: "ok r \<Longrightarrow> empty r \<longleftrightarrow> waiting r = []"
    and put_law: "ok r \<Longrightarrow> length (waiting r) < cap \<Longrightarrow> \<exists>r'. put x r = Inr r' \<and> ok r' \<and> waiting r' = waiting r @ [x]"
    and full_law: "ok r \<Longrightarrow> length (waiting r) \<ge> cap \<Longrightarrow> \<exists>e. put x r = Inl e"
    and get_law: "ok r \<Longrightarrow> waiting r = x # xs \<Longrightarrow> \<exists>r'. get r = (x, r') \<and> ok r' \<and> waiting r' = xs"
    and bound: "ok r \<Longrightarrow> length (waiting r) \<le> cap"
begin

lemma put_cases: "ok r \<Longrightarrow> put x r = Inr r' \<Longrightarrow> ok r' \<and> waiting r' = waiting r @ [x] \<and> length (waiting r) < cap"
  using put_law [of r x] full_law [of r x] by (cases "length (waiting r) < cap") auto

lemma get_cases: "ok r \<Longrightarrow> \<not> empty r \<Longrightarrow> get r = (x, r') \<Longrightarrow> ok r' \<and> waiting r = x # waiting r'"
  using empty_law [of r] get_law [of r] by (cases "waiting r") auto

end

section \<open>The array as a queue\<close>

definition ring_len :: "'a cli_ring_scheme \<Rightarrow> nat" where
  "ring_len r = (if iget r \<le> iput r then iput r - iget r else iput r + MAXNCLI - iget r)"

definition ring_list :: "'a cli_ring_scheme \<Rightarrow> int list" where
  "ring_list r = map (\<lambda>k. clifd r ! ((iget r + k) mod MAXNCLI)) [0..<ring_len r]"

definition ring_ok :: "'a cli_ring_scheme \<Rightarrow> bool" where
  "ring_ok r \<longleftrightarrow> length (clifd r) = MAXNCLI \<and> iget r < MAXNCLI \<and> iput r < MAXNCLI"

lemma next_index_mod: "i < MAXNCLI \<Longrightarrow> next_index i = (i + 1) mod MAXNCLI \<and> next_index i < MAXNCLI"
  by (auto simp: next_index_def)

lemma ring_len_less: "ring_ok r \<Longrightarrow> ring_len r < MAXNCLI"
  by (auto simp: ring_len_def ring_ok_def)

lemma ring_end: "ring_ok r \<Longrightarrow> (iget r + ring_len r) mod MAXNCLI = iput r"
  by (auto simp: ring_len_def ring_ok_def)

lemma ring_before_end:
  assumes "ring_ok r" "k < ring_len r"
  shows "(iget r + k) mod MAXNCLI \<noteq> iput r"
proof -
  have "iget r < 32" "iput r < 32" "k < 32" using assms ring_len_less [OF assms(1)] by (auto simp: ring_ok_def)
  then show ?thesis using assms(2) by (auto simp: ring_len_def mod_if split: if_splits)
qed

lemma ring_len_put:
  assumes "ring_ok r"
  shows "next_index (iput r) = iget r \<longleftrightarrow> ring_len r = MAXNCLI - 1"
    and "next_index (iput r) \<noteq> iget r \<Longrightarrow> ring_len (r\<lparr>clifd := c, iput := next_index (iput r)\<rparr>) = Suc (ring_len r)"
  using assms by (auto simp: ring_len_def next_index_def ring_ok_def)

lemma ring_len_get:
  assumes "ring_ok r" "iget r \<noteq> iput r"
  shows "ring_len r = Suc (ring_len (r\<lparr>iget := next_index (iget r)\<rparr>))"
  using assms by (auto simp: ring_len_def next_index_def ring_ok_def)

lemma length_ring_list: "length (ring_list r) = ring_len r"
  by (simp add: ring_list_def)

interpretation rq: bounded_queue ring_ok ring_list "MAXNCLI - 1" ring_put ring_get ring_empty
proof
  show "ring_empty r \<longleftrightarrow> ring_list r = []" if "ring_ok r" for r :: "'a cli_ring_scheme"
    using that by (auto simp: ring_empty_def ring_list_def ring_len_def ring_ok_def)
  show "length (ring_list r) \<le> MAXNCLI - 1" if "ring_ok r" for r :: "'a cli_ring_scheme"
    using ring_len_less [OF that] by (simp add: length_ring_list)
  show "\<exists>e. ring_put x r = Inl e" if "ring_ok r" "length (ring_list r) \<ge> MAXNCLI - 1" for r :: "'a cli_ring_scheme" and x
    using ring_len_put(1) [OF that(1)] ring_len_less [OF that(1)] that(2) by (simp add: length_ring_list ring_put_def Let_def)
  show "\<exists>r'. ring_put x r = Inr r' \<and> ring_ok r' \<and> ring_list r' = ring_list r @ [x]"
    if ok: "ring_ok r" and l: "length (ring_list r) < MAXNCLI - 1" for r :: "'a cli_ring_scheme" and x
  proof -
    let ?r = "r\<lparr>clifd := (clifd r)[iput r := x], iput := next_index (iput r)\<rparr>"
    have n: "next_index (iput r) \<noteq> iget r" using ring_len_put(1) [OF ok] l by (simp add: length_ring_list)
    have i: "iput r < length (clifd r)" using ok by (simp add: ring_ok_def)
    have "ring_list ?r = map (\<lambda>k. clifd ?r ! ((iget r + k) mod MAXNCLI)) [0..<ring_len r] @ [clifd ?r ! iput r]"
      using ring_len_put(2) [OF ok n] ring_end [OF ok] by (simp add: ring_list_def)
    also have "\<dots> = ring_list r @ [x]"
    proof -
      have "(clifd r)[iput r := x] ! ((iget r + k) mod MAXNCLI) = clifd r ! ((iget r + k) mod MAXNCLI)" if "k < ring_len r" for k
        using ring_before_end [OF ok that] by (metis nth_list_update_neq)
      then show ?thesis using i by (simp add: ring_list_def)
    qed
    finally show ?thesis using n ok next_index_mod [of "iput r"] by (auto simp: ring_put_def Let_def ring_ok_def)
  qed
  show "\<exists>r'. ring_get r = (x, r') \<and> ring_ok r' \<and> ring_list r' = xs"
    if ok: "ring_ok r" and l: "ring_list r = x # xs" for r :: "'a cli_ring_scheme" and x xs
  proof -
    let ?r = "r\<lparr>iget := next_index (iget r)\<rparr>"
    have ne: "iget r \<noteq> iput r" using l by (auto simp: ring_list_def ring_len_def)
    have g: "iget r < MAXNCLI" using ok by (simp add: ring_ok_def)
    have "(iget r + Suc k) mod MAXNCLI = (next_index (iget r) + k) mod MAXNCLI" for k
      using next_index_mod [OF g] by (simp add: mod_simps)
    then have "ring_list r = clifd r ! iget r # ring_list ?r"
      unfolding ring_list_def ring_len_get [OF ok ne] using g by (simp add: upt_conv_Cons map_Suc_upt [symmetric] del: upt_Suc)
    then show ?thesis using l ok next_index_mod [OF g] by (simp add: ring_get_def ring_ok_def)
  qed
qed

section \<open>The threads\<close>

text \<open>Where a thread of the pool is: before it looks at the array, asleep, after it has taken a connection, and
  serving it.\<close>

datatype tpc = T_ready | T_sleep | T_got int | T_busy int

record tpool = cli_ring +
  tpcs :: "tpc list"
  thread_count :: "nat list"
  arrived :: "int list"
  fetched :: "int list"
  closed_conns :: "int list"

definition tpool_start :: "nat \<Rightarrow> tpool" where
  "tpool_start n = \<lparr>clifd = replicate MAXNCLI 0, iget = 0, iput = 0, tpcs = replicate n T_ready, thread_count = replicate n 0,
     arrived = [], fetched = [], closed_conns = []\<rparr>"

text \<open>The signal of the main thread wakes one sleeping thread, if there is any.\<close>

inductive tpool_step :: "tpool \<Rightarrow> tpool \<Rightarrow> bool" where
  arrive: "ring_put fd s = Inr t \<Longrightarrow> T_sleep \<notin> set (tpcs s) \<Longrightarrow> tpool_step s (t\<lparr>arrived := arrived s @ [fd]\<rparr>)"
| arrive_signal: "ring_put fd s = Inr t \<Longrightarrow> i < length (tpcs s) \<Longrightarrow> tpcs s ! i = T_sleep \<Longrightarrow>
    tpool_step s (t\<lparr>arrived := arrived s @ [fd], tpcs := (tpcs s)[i := T_ready]\<rparr>)"
| wait: "i < length (tpcs s) \<Longrightarrow> tpcs s ! i = T_ready \<Longrightarrow> ring_empty s \<Longrightarrow> tpool_step s (s\<lparr>tpcs := (tpcs s)[i := T_sleep]\<rparr>)"
| spurious: "i < length (tpcs s) \<Longrightarrow> tpcs s ! i = T_sleep \<Longrightarrow> tpool_step s (s\<lparr>tpcs := (tpcs s)[i := T_ready]\<rparr>)"
| fetch: "i < length (tpcs s) \<Longrightarrow> tpcs s ! i = T_ready \<Longrightarrow> \<not> ring_empty s \<Longrightarrow> ring_get s = (fd, t) \<Longrightarrow>
    tpool_step s (t\<lparr>tpcs := (tpcs s)[i := T_got fd], fetched := fetched s @ [fd]\<rparr>)"
| count: "i < length (tpcs s) \<Longrightarrow> tpcs s ! i = T_got fd \<Longrightarrow>
    tpool_step s (s\<lparr>tpcs := (tpcs s)[i := T_busy fd], thread_count := (thread_count s)[i := Suc (thread_count s ! i)]\<rparr>)"
| close: "i < length (tpcs s) \<Longrightarrow> tpcs s ! i = T_busy fd \<Longrightarrow>
    tpool_step s (s\<lparr>tpcs := (tpcs s)[i := T_ready], closed_conns := closed_conns s @ [fd]\<rparr>)"

inductive tpool_reach :: "nat \<Rightarrow> tpool \<Rightarrow> bool" for n where
  start: "tpool_reach n (tpool_start n)"
| step: "tpool_reach n s \<Longrightarrow> tpool_step s t \<Longrightarrow> tpool_reach n t"

fun in_hand :: "tpc \<Rightarrow> int list" where
  "in_hand (T_got fd) = [fd]"
| "in_hand (T_busy fd) = [fd]"
| "in_hand _ = []"

fun not_counted :: "tpc \<Rightarrow> nat" where
  "not_counted (T_got fd) = 1"
| "not_counted _ = 0"

text \<open>No thread sleeps over a connection: while one sleeps, there are at least as many threads on their way to
  the array as connections in it.\<close>

definition tpool_inv :: "nat \<Rightarrow> tpool \<Rightarrow> bool" where
  "tpool_inv n s \<longleftrightarrow> ring_ok s \<and> length (tpcs s) = n \<and> length (thread_count s) = n \<and>
     arrived s = fetched s @ ring_list s \<and>
     (T_sleep \<in> set (tpcs s) \<longrightarrow> length (ring_list s) \<le> count_list (tpcs s) T_ready) \<and>
     mset (fetched s) = mset (closed_conns s) + mset (concat (map in_hand (tpcs s))) \<and>
     sum_list (thread_count s) + sum_list (map not_counted (tpcs s)) = length (fetched s)"

lemma ring_put_more: "ring_put fd s = Inr t \<Longrightarrow> tpcs t = tpcs s \<and> thread_count t = thread_count s \<and> fetched t = fetched s \<and> closed_conns t = closed_conns s"
  by (auto simp: ring_put_def Let_def split: if_splits)

lemma ring_get_more: "ring_get s = (fd, t) \<Longrightarrow> tpcs t = tpcs s \<and> thread_count t = thread_count s \<and> arrived t = arrived s \<and> closed_conns t = closed_conns s"
  by (auto simp: ring_get_def)

lemma ring_fields [simp]:
  "ring_ok (s\<lparr>tpcs := p\<rparr>) = ring_ok s" "ring_ok (s\<lparr>arrived := a\<rparr>) = ring_ok s" "ring_ok (s\<lparr>fetched := a\<rparr>) = ring_ok s"
  "ring_ok (s\<lparr>closed_conns := a\<rparr>) = ring_ok s" "ring_ok (s\<lparr>thread_count := c\<rparr>) = ring_ok s"
  "ring_list (s\<lparr>tpcs := p\<rparr>) = ring_list s" "ring_list (s\<lparr>arrived := a\<rparr>) = ring_list s" "ring_list (s\<lparr>fetched := a\<rparr>) = ring_list s"
  "ring_list (s\<lparr>closed_conns := a\<rparr>) = ring_list s" "ring_list (s\<lparr>thread_count := c\<rparr>) = ring_list s"
  by (simp_all add: ring_ok_def ring_list_def ring_len_def)

lemma tpool_start_inv: "tpool_inv n (tpool_start n)"
proof -
  have "concat (replicate n ([] :: int list)) = []" "sum_list (replicate n (0 :: nat)) = 0" by (induction n) simp_all
  then show ?thesis by (auto simp: tpool_inv_def tpool_start_def ring_ok_def ring_list_def ring_len_def)
qed

text \<open>A sleeping thread that stays asleep.\<close>

lemma sleep_update: "T_sleep \<in> set (ps[i := p]) \<Longrightarrow> p \<noteq> T_sleep \<Longrightarrow> T_sleep \<in> set ps"
  using set_update_subset_insert [of ps i p] by auto

lemma ready_update:
  assumes "i < length ps" "ps ! i = q"
  shows "int (count_list (ps[i := p]) T_ready) = int (count_list ps T_ready) - (if q = T_ready then 1 else 0) + (if p = T_ready then 1 else 0)"
  using count_list_update [OF assms(1), of p T_ready] assms(2) by simp

lemma tpool_step_inv:
  assumes "tpool_step s t" "tpool_inv n s"
  shows "tpool_inv n t"
proof -
  have ok: "ring_ok s" and len: "length (tpcs s) = n" "length (thread_count s) = n" and fifo: "arrived s = fetched s @ ring_list s"
    and wake: "T_sleep \<in> set (tpcs s) \<Longrightarrow> length (ring_list s) \<le> count_list (tpcs s) T_ready"
    and hand: "mset (fetched s) = mset (closed_conns s) + mset (concat (map in_hand (tpcs s)))"
    and cnt: "sum_list (thread_count s) + sum_list (map not_counted (tpcs s)) = length (fetched s)"
    using assms(2) by (simp_all add: tpool_inv_def)
  show ?thesis using assms(1)
  proof cases
    case (arrive fd u)
    then show ?thesis using rq.put_cases [OF ok arrive(2)] ring_put_more [OF arrive(2)] len fifo hand cnt by (simp add: tpool_inv_def)
  next
    case (arrive_signal fd u i)
    note p = rq.put_cases [OF ok arrive_signal(2)] ring_put_more [OF arrive_signal(2)]
    have "T_sleep \<in> set (tpcs s)" using arrive_signal(3,4) by (metis nth_mem)
    then show ?thesis using p arrive_signal len fifo hand cnt wake ready_update [OF arrive_signal(3,4), of T_ready]
        mset_concat_update [OF arrive_signal(3), of in_hand T_ready] sum_list_map_update [OF arrive_signal(3), of not_counted T_ready]
      by (auto simp: tpool_inv_def)
  next
    case (wait i)
    then have "ring_list s = []" using rq.empty_law [OF ok] by simp
    then show ?thesis using wait assms(2) mset_concat_update [OF wait(2), of in_hand T_sleep] sum_list_map_update [OF wait(2), of not_counted T_sleep]
      by (simp add: tpool_inv_def)
  next
    case (spurious i)
    have "T_sleep \<in> set (tpcs s)" using spurious(2,3) by (metis nth_mem)
    then show ?thesis using spurious assms(2) ready_update [OF spurious(2,3), of T_ready]
        mset_concat_update [OF spurious(2), of in_hand T_ready] sum_list_map_update [OF spurious(2), of not_counted T_ready]
      by (auto simp: tpool_inv_def)
  next
    case (fetch i fd u)
    note g = rq.get_cases [OF ok fetch(4,5)] ring_get_more [OF fetch(5)]
    show ?thesis using g fetch len fifo hand cnt wake ready_update [OF fetch(2,3), of "T_got fd"]
        sleep_update [of "tpcs s" i "T_got fd"] mset_concat_update [OF fetch(2), of in_hand "T_got fd"] sum_list_map_update [OF fetch(2), of not_counted "T_got fd"]
      by (auto simp: tpool_inv_def)
  next
    case (count i fd)
    show ?thesis using count assms(2) ready_update [OF count(2,3), of "T_busy fd"] sleep_update [of "tpcs s" i "T_busy fd"]
        mset_concat_update [OF count(2), of in_hand "T_busy fd"] sum_list_map_update [OF count(2), of not_counted "T_busy fd"]
        sum_list_map_update [of i "thread_count s" "\<lambda>x. x" "Suc (thread_count s ! i)"]
      by (auto simp: tpool_inv_def)
  next
    case (close i fd)
    show ?thesis using close assms(2) ready_update [OF close(2,3), of T_ready] sleep_update [of "tpcs s" i T_ready]
        mset_concat_update [OF close(2), of in_hand T_ready] sum_list_map_update [OF close(2), of not_counted T_ready]
      by (auto simp: tpool_inv_def)
  qed
qed

lemma tpool_reach_inv: "tpool_reach n s \<Longrightarrow> tpool_inv n s"
  by (induction rule: tpool_reach.induct) (auto intro: tpool_start_inv tpool_step_inv)

section \<open>Properties\<close>

text \<open>C27: In every interleaving the connections are fetched in the order in which they arrived, each by one thread, and each is
  closed or in the hands of one thread; at most 31 wait, and the server quits exactly when one more arrives.  A wakeup
  is never lost: when a connection waits and a thread sleeps, another thread is on its way to the array.\<close>

theorem thread_pool_fifo:
  assumes "tpool_reach n s"
  shows "arrived s = fetched s @ ring_list s \<and>
    mset (fetched s) = mset (closed_conns s) + mset (concat (map in_hand (tpcs s))) \<and>
    sum_list (thread_count s) + sum_list (map not_counted (tpcs s)) = length (fetched s) \<and>
    length (ring_list s) \<le> 31 \<and> ((\<exists>e. ring_put fd s = Inl e) \<longleftrightarrow> length (ring_list s) = 31) \<and>
    (ring_list s \<noteq> [] \<and> T_sleep \<in> set (tpcs s) \<longrightarrow> T_ready \<in> set (tpcs s))"
proof -
  have inv: "tpool_inv n s" by (rule tpool_reach_inv [OF assms])
  then have ok: "ring_ok s" by (simp add: tpool_inv_def)
  have "T_ready \<in> set (tpcs s)" if "ring_list s \<noteq> [] \<and> T_sleep \<in> set (tpcs s)"
  proof -
    have "0 < count_list (tpcs s) T_ready" using inv that by (cases "ring_list s") (auto simp: tpool_inv_def)
    then show ?thesis by (metis count_list_0_iff less_irrefl)
  qed
  moreover have "(\<exists>e. ring_put fd s = Inl e) \<longleftrightarrow> length (ring_list s) = 31"
    using rq.full_law [OF ok, of fd] rq.put_law [OF ok, of fd] rq.bound [OF ok] by fastforce
  ultimately show ?thesis using inv rq.bound [OF ok] by (simp add: tpool_inv_def)
qed

theorem thread_pool_fifo_witness: "\<exists>s. tpool_reach 1 s \<and> arrived s = [7] \<and> fetched s @ ring_list s = [7]"
proof -
  obtain t where t: "ring_put 7 (tpool_start 1) = Inr t"
    using rq.put_law [of "tpool_start 1" 7] by (auto simp: ring_ok_def tpool_start_def ring_list_def ring_len_def)
  have "T_sleep \<notin> set (tpcs (tpool_start 1))" "arrived (tpool_start 1) = []" by (simp_all add: tpool_start_def)
  then have r: "tpool_reach 1 (t\<lparr>arrived := [7]\<rparr>)" using tpool_reach.step [OF tpool_reach.start tpool_step.arrive [OF t]] by simp
  then show ?thesis using thread_pool_fifo [OF r] by auto
qed

end
