(* ===== verification/Web_Client.thy ===== *)
theory Web_Client
  imports C_Prelude "HOL-Library.Multiset"
begin

text \<open>
  The web client of \<^verbatim>\<open>unpv13e/nonblock\<close> (\<^verbatim>\<open>web.c\<close>, \<^verbatim>\<open>start_connect.c\<close>, \<^verbatim>\<open>write_get_cmd.c\<close>,
  \<^verbatim>\<open>home_page.c\<close>), which fetches a home page and then a number of files over nonblocking
  connections, at most \<^verbatim>\<open>maxnconn\<close> at a time.  The loop that starts connections is the same text in
  this program and in the versions with threads (\<^verbatim>\<open>unpv13e/threads/web01.c\<close>, \<^verbatim>\<open>web03.c\<close>, theory
  \<^verbatim>\<open>Web_Threads\<close>); here it takes the statement that starts one as an argument, and the locale
  \<open>starter\<close> says what it needs of it.
\<close>

section \<open>Files and counters\<close>

text \<open>The field \<^verbatim>\<open>f_flags\<close> is only ever assigned 0 or one of the flags.\<close>

datatype f_flags = F_NONE | F_CONNECTING | F_READING | F_DONE | F_JOINED

datatype web_error = Nothing_found int | Web_err_sys string | Web_out_of_bounds

text \<open>The globals that count files, as all versions have them.\<close>

record downloads =
  flags :: "f_flags list"
  nconn :: int
  nlefttoconn :: int
  nlefttoread :: int

abbreviation nfiles :: "'a downloads_scheme \<Rightarrow> nat" where "nfiles s \<equiv> length (flags s)"

text \<open>The first file with the given flags.\<close>

fun find_flag :: "f_flags \<Rightarrow> f_flags list \<Rightarrow> nat option" where
  "find_flag f [] = None"
| "find_flag f (g # gs) = (if g = f then Some 0 else map_option Suc (find_flag f gs))"

text \<open>The inner loop of \<^verbatim>\<open>main\<close>: one pass of it, and the loop.\<close>

definition connect_one :: "(nat \<Rightarrow> 'a downloads_scheme \<Rightarrow> web_error + 'a downloads_scheme) \<Rightarrow>
    'a downloads_scheme \<Rightarrow> web_error + 'a downloads_scheme" where
  "connect_one start s =
     (case find_flag F_NONE (flags s) of
        None \<Rightarrow> Inl (Nothing_found (nlefttoconn s))
      | Some i \<Rightarrow> andthen (start i s) (\<lambda>s'. Inr (s'\<lparr>nconn := nconn s + 1, nlefttoconn := nlefttoconn s - 1\<rparr>)))"

definition can_connect :: "int \<Rightarrow> 'a downloads_scheme \<Rightarrow> bool" where
  "can_connect maxnconn s \<longleftrightarrow> nconn s < maxnconn \<and> nlefttoconn s > 0"

function connect_loop :: "(nat \<Rightarrow> 'a downloads_scheme \<Rightarrow> web_error + 'a downloads_scheme) \<Rightarrow> int \<Rightarrow>
    'a downloads_scheme \<Rightarrow> web_error + 'a downloads_scheme" where
  "connect_loop start maxnconn s =
     (if can_connect maxnconn s then
        (case connect_one start s of
           Inl e \<Rightarrow> Inl e
         | Inr s' \<Rightarrow> connect_loop start maxnconn s')
      else Inr s)"
  by pat_completeness auto
termination
  by (relation "measure (\<lambda>(start, m, s). nat (nlefttoconn s))")
     (auto simp: connect_one_def can_connect_def andthen_Inr_iff split: option.splits)

declare connect_loop.simps [simp del]

section \<open>The nonblocking client\<close>

abbreviation (input) MAXFILES :: nat where "MAXFILES \<equiv> 20"
abbreviation (input) WEB_MAXLINE :: nat where "WEB_MAXLINE \<equiv> 4096"
abbreviation (input) EINPROGRESS :: int where "EINPROGRESS \<equiv> 115"

record web = downloads +
  f_name :: "string list"
  f_fd :: "int list"
  maxfd :: int
  w_rset :: "int set"
  w_wset :: "int set"
  w_sent :: "(int \<times> string) list"
  w_closed :: "int list"

text \<open>\<^verbatim>\<open>snprintf\<close> into a line gives the length of the whole text, which \<^verbatim>\<open>Writen\<close> then reads from the
  line.  \<open>wr_ok\<close> is the success of \<^verbatim>\<open>Writen\<close>.\<close>

definition get_cmd :: "string \<Rightarrow> string" where
  "get_cmd name = ''GET '' @ name @ '' HTTP/1.0'' @ [CHR 0x0D, CHR 0x0A, CHR 0x0D, CHR 0x0A]"

definition line_buf :: "string \<Rightarrow> cbuf" where
  "line_buf line = take (WEB_MAXLINE - 1) line @ [NUL]"

definition write_get_cmd :: "(int \<Rightarrow> bool) \<Rightarrow> nat \<Rightarrow> web \<Rightarrow> web_error + web" where
  "write_get_cmd wr_ok i s =
     (let line = get_cmd (f_name s ! i); n = length line; fd = f_fd s ! i in
      if n > WEB_MAXLINE then Inl Web_out_of_bounds
      else if \<not> wr_ok fd then Inl (Web_err_sys ''writen error'')
      else Inr (s\<lparr>w_sent := w_sent s @ [(fd, take n (line_buf line))], flags := (flags s)[i := F_READING],
                  w_rset := insert fd (w_rset s), maxfd := max (maxfd s) fd\<rparr>))"

text \<open>The outcome of \<^verbatim>\<open>connect\<close>: 0 when it is done at once, otherwise the error number.  \<open>sock i\<close> is the
  descriptor \<^verbatim>\<open>Socket\<close> returns for file \<open>i\<close>.\<close>

definition start_connect :: "(int \<Rightarrow> bool) \<Rightarrow> (nat \<Rightarrow> int) \<Rightarrow> (nat \<Rightarrow> int) \<Rightarrow> nat \<Rightarrow> web \<Rightarrow> web_error + web" where
  "start_connect wr_ok sock connect i s =
     (let fd = sock i; s = s\<lparr>f_fd := (f_fd s)[i := fd]\<rparr> in
      if connect i \<noteq> 0 then
        (if connect i \<noteq> EINPROGRESS then Inl (Web_err_sys ''nonblocking connect error'')
         else Inr (s\<lparr>flags := (flags s)[i := F_CONNECTING], w_rset := insert fd (w_rset s), w_wset := insert fd (w_wset s),
                     maxfd := max (maxfd s) fd\<rparr>))
      else write_get_cmd wr_ok i s)"

text \<open>The result of \<^verbatim>\<open>Read\<close> by the descriptor: \<open>None\<close> for an error, otherwise how many bytes.\<close>

definition web_file :: "(int \<Rightarrow> bool) \<Rightarrow> (int \<Rightarrow> bool) \<Rightarrow> (int \<Rightarrow> bool) \<Rightarrow> (int \<Rightarrow> nat option) \<Rightarrow> nat \<Rightarrow> web \<Rightarrow> web_error + web" where
  "web_file wr_ok rs ws rdf i s =
     (let fd = f_fd s ! i in
      case flags s ! i of
        F_CONNECTING \<Rightarrow>
          if rs fd \<or> ws fd then write_get_cmd wr_ok i (s\<lparr>w_wset := w_wset s - {fd}\<rparr>) else Inr s
      | F_READING \<Rightarrow>
          if rs fd then
            (case rdf fd of
               None \<Rightarrow> Inl (Web_err_sys ''read error'')
             | Some n \<Rightarrow>
                 if n = 0 then
                   Inr (s\<lparr>w_closed := w_closed s @ [fd], flags := (flags s)[i := F_DONE], w_rset := w_rset s - {fd},
                          nconn := nconn s - 1, nlefttoread := nlefttoread s - 1\<rparr>)
                 else Inr s)
          else Inr s
      | _ \<Rightarrow> Inr s)"

fun web_scan :: "(nat \<Rightarrow> web \<Rightarrow> web_error + web) \<Rightarrow> nat list \<Rightarrow> web \<Rightarrow> web_error + web" where
  "web_scan f [] s = Inr s"
| "web_scan f (i # is) s = andthen (f i s) (web_scan f is)"

text \<open>What one round meets.\<close>

record web_io =
  io_sock :: "nat \<Rightarrow> int"
  io_connect :: "nat \<Rightarrow> int"
  io_rs :: "int \<Rightarrow> bool"
  io_ws :: "int \<Rightarrow> bool"
  io_read :: "int \<Rightarrow> nat option"
  io_write :: "int \<Rightarrow> bool"

text \<open>One round of the outer loop, in its two halves; \<^verbatim>\<open>select\<close> reports a subset of the sets.\<close>

definition web_connects :: "int \<Rightarrow> web_io \<Rightarrow> web \<Rightarrow> web_error + web" where
  "web_connects maxnconn io s = connect_loop (start_connect (io_write io) (io_sock io) (io_connect io)) maxnconn s"

definition web_serves :: "web_io \<Rightarrow> web \<Rightarrow> web_error + web" where
  "web_serves io s =
     web_scan (web_file (io_write io) (\<lambda>fd. fd \<in> w_rset s \<and> io_rs io fd) (\<lambda>fd. fd \<in> w_wset s \<and> io_ws io fd) (io_read io))
       [0..<nfiles s] s"

definition web_round :: "int \<Rightarrow> web_io \<Rightarrow> web \<Rightarrow> web_error + web" where
  "web_round maxnconn io s = andthen (web_connects maxnconn io s) (web_serves io)"

text \<open>\<^verbatim>\<open>main\<close> up to its loop, and the home page: the reads are the lengths \<^verbatim>\<open>Read\<close> returns.\<close>

definition web_init :: "string list \<Rightarrow> web" where
  "web_init names =
     (let n = min (length names) MAXFILES in
      \<lparr>flags = replicate n F_NONE, nconn = 0, nlefttoconn = int n, nlefttoread = int n,
       f_name = take n names, f_fd = replicate n 0, maxfd = - 1, w_rset = {}, w_wset = {}, w_sent = [], w_closed = []\<rparr>)"

fun home_reads :: "nat option list \<Rightarrow> web_error + nat" where
  "home_reads [] = Inr 0"
| "home_reads (None # rs) = Inl (Web_err_sys ''read error'')"
| "home_reads (Some n # rs) = (if n = 0 then Inr 0 else andthen (home_reads rs) (\<lambda>m. Inr (n + m)))"

definition home_page :: "bool \<Rightarrow> nat option list \<Rightarrow> string \<Rightarrow> web_error + (string \<times> nat)" where
  "home_page wr reads fname =
     (let line = get_cmd fname in
      if length line > WEB_MAXLINE then Inl Web_out_of_bounds
      else if \<not> wr then Inl (Web_err_sys ''writen error'')
      else andthen (home_reads reads) (\<lambda>n. Inr (take (length line) (line_buf line), n)))"

section \<open>Starting connections\<close>

abbreviation count_flag :: "f_flags \<Rightarrow> 'a downloads_scheme \<Rightarrow> int" where
  "count_flag f s \<equiv> int (count_list (flags s) f)"

lemma find_flag_Some: "find_flag f xs = Some i \<Longrightarrow> i < length xs \<and> xs ! i = f"
  by (induction xs arbitrary: i) (auto split: if_splits)

lemma find_flag_None: "find_flag f xs = None \<longleftrightarrow> count_list xs f = 0"
  by (induction xs) auto

text \<open>What a statement that starts one connection owes to the loop: it keeps the invariant \<open>I\<close> of the
  program with the counters moved, or fails with one of its own errors.\<close>

locale starter =
  fixes start :: "nat \<Rightarrow> 'a downloads_scheme \<Rightarrow> web_error + 'a downloads_scheme"
    and maxnconn :: int and I :: "'a downloads_scheme \<Rightarrow> bool" and E :: "web_error \<Rightarrow> bool"
  assumes left: "I s \<Longrightarrow> nlefttoconn s = count_flag F_NONE s"
    and starts: "I s \<Longrightarrow> can_connect maxnconn s \<Longrightarrow> i < nfiles s \<Longrightarrow> flags s ! i = F_NONE \<Longrightarrow>
      yields (\<lambda>t. I (t\<lparr>nconn := nconn s + 1, nlefttoconn := nlefttoconn s - 1\<rparr>)) E (start i s)"
begin

text \<open>The loop always finds a file.\<close>

lemma one_ok: "I s \<Longrightarrow> can_connect maxnconn s \<Longrightarrow> yields I E (connect_one start s)"
proof -
  assume s: "I s" "can_connect maxnconn s"
  then obtain i where i: "find_flag F_NONE (flags s) = Some i"
    using left find_flag_None [of F_NONE "flags s"] by (cases "find_flag F_NONE (flags s)") (auto simp: can_connect_def)
  show ?thesis unfolding connect_one_def i option.case
    by (rule yields_andthen [OF starts [OF s]]) (use find_flag_Some [OF i] in simp_all)
qed

lemma loop_ok: "I s \<Longrightarrow> yields (\<lambda>t. I t \<and> \<not> can_connect maxnconn t) E (connect_loop start maxnconn s)"
proof (induction "nat (nlefttoconn s)" arbitrary: s rule: less_induct)
  case less
  show ?case
  proof (cases "can_connect maxnconn s")
    case True
    have y: "yields I E (connect_one start s)" using one_ok less.prems True .
    show ?thesis
    proof (cases "connect_one start s")
      case (Inr t)
      have "nat (nlefttoconn t) < nat (nlefttoconn s)" using Inr True
        by (auto simp: connect_one_def can_connect_def andthen_Inr_iff split: option.splits)
      then show ?thesis using less.hyps y True Inr by (subst connect_loop.simps) simp
    qed (use y True in \<open>simp add: connect_loop.simps\<close>)
  qed (use less.prems in \<open>simp add: connect_loop.simps\<close>)
qed

end

section \<open>The invariant of the nonblocking client\<close>

text \<open>The files whose flags are among \<open>F\<close>.\<close>

definition having :: "f_flags set \<Rightarrow> f_flags list \<Rightarrow> nat set" where
  "having F fl = {i. i < length fl \<and> fl ! i \<in> F}"

lemma having_iff: "i \<in> having F fl \<longleftrightarrow> i < length fl \<and> fl ! i \<in> F"
  by (simp add: having_def)

lemma finite_having [simp]: "finite (having F fl)"
  by (simp add: having_def)

lemma having_update:
  "i < length fl \<Longrightarrow> having F (fl[i := g]) = (if g \<in> F then insert i (having F fl) else having F fl - {i})"
  by (auto simp: having_def nth_list_update)

abbreviation (input) opened :: "f_flags set" where "opened \<equiv> {F_CONNECTING, F_READING}"
abbreviation (input) asked :: "f_flags set" where "asked \<equiv> {F_READING, F_DONE}"

text \<open>What is sent for file \<open>i\<close>, and where.\<close>

definition request :: "string list \<Rightarrow> int list \<Rightarrow> nat \<Rightarrow> int \<times> string" where
  "request names fds i = (let line = get_cmd (names ! i) in (fds ! i, take (length line) (line_buf line)))"

lemma request_update [simp]: "i \<noteq> j \<Longrightarrow> request names (fds[i := fd]) j = request names fds j"
  by (simp add: request_def)

definition web_inv :: "int \<Rightarrow> string list \<Rightarrow> web \<Rightarrow> bool" where
  "web_inv maxnconn names s \<longleftrightarrow> f_name s = take MAXFILES names \<and> length (f_name s) = nfiles s \<and> length (f_fd s) = nfiles s \<and> F_JOINED \<notin> set (flags s) \<and>
     nlefttoconn s = count_flag F_NONE s \<and> nconn s = count_flag F_CONNECTING s + count_flag F_READING s \<and>
     nlefttoread s = nlefttoconn s + nconn s \<and> nconn s \<le> max 0 maxnconn \<and>
     w_rset s = nth (f_fd s) ` having opened (flags s) \<and> w_wset s = nth (f_fd s) ` having {F_CONNECTING} (flags s) \<and>
     inj_on (nth (f_fd s)) (having opened (flags s)) \<and> (\<forall>fd \<in> w_rset s. fd \<le> maxfd s) \<and>
     mset (w_sent s) = image_mset (request (f_name s) (f_fd s)) (mset_set (having asked (flags s))) \<and>
     mset (w_closed s) = image_mset (nth (f_fd s)) (mset_set (having {F_DONE} (flags s)))"

text \<open>What \<^verbatim>\<open>Socket\<close> promises: the descriptors it returns are not in use.\<close>

definition fresh_socks :: "(nat \<Rightarrow> int) \<Rightarrow> web \<Rightarrow> bool" where
  "fresh_socks sock s \<longleftrightarrow> inj_on sock (having {F_NONE} (flags s)) \<and> sock ` having {F_NONE} (flags s) \<inter> w_rset s = {}"

lemma nth_update_image: "i \<notin> X \<Longrightarrow> nth (xs[i := v]) ` X = nth xs ` X"
  by (rule image_cong [OF refl]) (metis nth_list_update_neq)

lemma nth_update_image_mset: "finite X \<Longrightarrow> i \<notin> X \<Longrightarrow> image_mset (nth (xs[i := v])) (mset_set X) = image_mset (nth xs) (mset_set X)"
  by (rule image_mset_cong) (metis elem_mset_set nth_list_update_neq)

lemma request_update_mset:
  "finite X \<Longrightarrow> i \<notin> X \<Longrightarrow> image_mset (request names (fds[i := fd])) (mset_set X) = image_mset (request names fds) (mset_set X)"
  by (rule image_mset_cong) (metis elem_mset_set request_update)

lemma set_update_flags: "F_JOINED \<notin> set fl \<Longrightarrow> g \<noteq> F_JOINED \<Longrightarrow> F_JOINED \<notin> set (fl[i := g])"
  using set_update_subset_insert by fastforce

lemmas web_updates = count_list_update having_update nth_update_image nth_update_image_mset request_update_mset set_update_flags le_max_iff_disj

text \<open>The four changes of a file's flags.\<close>

lemma inv_connecting:
  assumes "web_inv m names s" "i < nfiles s" "flags s ! i = F_NONE" "nconn s < m" "fd \<notin> w_rset s"
  shows "web_inv m names (s\<lparr>f_fd := (f_fd s)[i := fd], flags := (flags s)[i := F_CONNECTING], w_rset := insert fd (w_rset s),
    w_wset := insert fd (w_wset s), maxfd := max (maxfd s) fd, nconn := nconn s + 1, nlefttoconn := nlefttoconn s - 1\<rparr>)"
proof -
  have n: "i \<notin> having opened (flags s)" "i \<notin> having {F_CONNECTING} (flags s)" "i \<notin> having asked (flags s)" "i \<notin> having {F_DONE} (flags s)"
    using assms(3) by (simp_all add: having_iff)
  have "inj_on (nth ((f_fd s)[i := fd])) (insert i (having opened (flags s)))"
    using assms(1,2,5) n(1) by (auto simp: web_inv_def inj_on_def nth_list_update)
  then show ?thesis using assms n by (auto simp: web_inv_def web_updates)
qed

lemma inv_reading_new:
  assumes "web_inv m names s" "i < nfiles s" "flags s ! i = F_NONE" "nconn s < m" "fd \<notin> w_rset s"
  shows "web_inv m names (s\<lparr>f_fd := (f_fd s)[i := fd], w_sent := w_sent s @ [request (f_name s) ((f_fd s)[i := fd]) i],
    flags := (flags s)[i := F_READING], w_rset := insert fd (w_rset s),
    maxfd := max (maxfd s) fd, nconn := nconn s + 1, nlefttoconn := nlefttoconn s - 1\<rparr>)"
proof -
  have n: "i \<notin> having opened (flags s)" "i \<notin> having {F_CONNECTING} (flags s)" "i \<notin> having asked (flags s)" "i \<notin> having {F_DONE} (flags s)"
    using assms(3) by (simp_all add: having_iff)
  have "inj_on (nth ((f_fd s)[i := fd])) (insert i (having opened (flags s)))"
    using assms(1,2,5) n(1) by (auto simp: web_inv_def inj_on_def nth_list_update)
  then show ?thesis using assms n by (auto simp: web_inv_def web_updates)
qed

lemma inv_reading:
  assumes "web_inv m names s" "i < nfiles s" "flags s ! i = F_CONNECTING"
  shows "web_inv m names (s\<lparr>w_wset := w_wset s - {f_fd s ! i}, w_sent := w_sent s @ [request (f_name s) (f_fd s) i],
    flags := (flags s)[i := F_READING], w_rset := insert (f_fd s ! i) (w_rset s), maxfd := max (maxfd s) (f_fd s ! i)\<rparr>)"
proof -
  have n: "i \<in> having opened (flags s)" "i \<in> having {F_CONNECTING} (flags s)" "i \<notin> having asked (flags s)" "i \<notin> having {F_DONE} (flags s)"
    using assms(2,3) by (simp_all add: having_iff)
  have sub: "having {F_CONNECTING} (flags s) \<subseteq> having opened (flags s)" by (auto simp: having_iff)
  have "nth (f_fd s) ` (having {F_CONNECTING} (flags s) - {i}) = nth (f_fd s) ` having {F_CONNECTING} (flags s) - {f_fd s ! i}"
    using assms(1) n(1) sub by (auto simp: web_inv_def inj_on_def)
  then show ?thesis using assms n by (auto simp: web_inv_def web_updates insert_absorb)
qed

lemma inv_done:
  assumes "web_inv m names s" "i < nfiles s" "flags s ! i = F_READING"
  shows "web_inv m names (s\<lparr>w_closed := w_closed s @ [f_fd s ! i], flags := (flags s)[i := F_DONE], w_rset := w_rset s - {f_fd s ! i},
    nconn := nconn s - 1, nlefttoread := nlefttoread s - 1\<rparr>)"
proof -
  have n: "i \<in> having opened (flags s)" "i \<notin> having {F_CONNECTING} (flags s)" "i \<in> having asked (flags s)" "i \<notin> having {F_DONE} (flags s)"
    using assms(2,3) by (simp_all add: having_iff)
  have "nth (f_fd s) ` (having opened (flags s) - {i}) = nth (f_fd s) ` having opened (flags s) - {f_fd s ! i}"
    using assms(1) n(1) by (auto simp: web_inv_def inj_on_def)
  moreover have "inj_on (nth (f_fd s)) (having opened (flags s) - {i})" using assms(1) by (auto simp: web_inv_def inj_on_def)
  ultimately show ?thesis using assms n by (auto simp: web_inv_def web_updates insert_absorb)
qed

section \<open>The rounds keep the invariant\<close>

definition own_error :: "web_error \<Rightarrow> bool" where
  "own_error e \<longleftrightarrow> (\<forall>n. e \<noteq> Nothing_found n)"

lemma own_error_simps [simp]: "own_error (Web_err_sys m)" "own_error Web_out_of_bounds"
  by (simp_all add: own_error_def)

lemma fresh_started:
  assumes "fresh_socks sock s" "i < nfiles s" "flags s ! i = F_NONE" "g \<noteq> F_NONE"
    "flags t = (flags s)[i := g]" "w_rset t = insert (sock i) (w_rset s)"
  shows "fresh_socks sock t"
proof -
  have i: "i \<in> having {F_NONE} (flags s)" using assms(2,3) by (simp add: having_iff)
  have "inj_on sock (having {F_NONE} (flags s))" using assms(1) by (simp add: fresh_socks_def)
  then have "sock i \<notin> sock ` (having {F_NONE} (flags s) - {i})" "inj_on sock (having {F_NONE} (flags s) - {i})"
    using i by (auto simp: inj_on_def)
  then show ?thesis using assms by (auto simp: fresh_socks_def having_update)
qed

lemma start_connect_ok:
  assumes "web_inv m names s" "fresh_socks sock s" "can_connect m s" "i < nfiles s" "flags s ! i = F_NONE"
  shows "yields (\<lambda>t. web_inv m names (t\<lparr>nconn := nconn s + 1, nlefttoconn := nlefttoconn s - 1\<rparr>) \<and> nlefttoread t = nlefttoread s \<and>
      fresh_socks sock (t\<lparr>nconn := nconn s + 1, nlefttoconn := nlefttoconn s - 1\<rparr>)) own_error (start_connect wr sock con i s)"
proof -
  have "i \<in> having {F_NONE} (flags s)" using assms(4,5) by (simp add: having_iff)
  then have fd: "sock i \<notin> w_rset s" using assms(2) by (auto simp: fresh_socks_def)
  have l: "i < length (f_fd s)" using assms(1,4) by (simp add: web_inv_def)
  have c: "nconn s < m" using assms(3) by (simp add: can_connect_def)
  note f = fresh_started [OF assms(2,4,5)]
  show ?thesis
    using inv_connecting [OF assms(1,4,5) c fd] inv_reading_new [OF assms(1,4,5) c fd] l
      f [of F_CONNECTING] f [of F_READING]
    by (simp add: start_connect_def write_get_cmd_def Let_def request_def)
qed

interpretation wc: starter "start_connect wr sock con" m
    "\<lambda>s. web_inv m names s \<and> fresh_socks sock s \<and> nlefttoread s = n" own_error for wr sock con m names n
proof
  show "yields (\<lambda>t. web_inv m names (t\<lparr>nconn := nconn s + 1, nlefttoconn := nlefttoconn s - 1\<rparr>) \<and>
      fresh_socks sock (t\<lparr>nconn := nconn s + 1, nlefttoconn := nlefttoconn s - 1\<rparr>) \<and>
      nlefttoread (t\<lparr>nconn := nconn s + 1, nlefttoconn := nlefttoconn s - 1\<rparr>) = n) own_error (start_connect wr sock con i s)"
    if "web_inv m names s \<and> fresh_socks sock s \<and> nlefttoread s = n" "can_connect m s" "i < nfiles s" "flags s ! i = F_NONE" for s i
    using that start_connect_ok [of m names s sock i wr con] by (auto elim: yields_mono)
qed (simp add: web_inv_def)

lemma connects_ok:
  "web_inv m names s \<Longrightarrow> fresh_socks (io_sock io) s \<Longrightarrow>
     yields (\<lambda>t. web_inv m names t \<and> \<not> can_connect m t \<and> nlefttoread t = nlefttoread s) own_error (web_connects m io s)"
  unfolding web_connects_def by (rule yields_mono [OF wc.loop_ok [of m names _ _ "nlefttoread s"]]) auto

lemma web_file_ok:
  assumes "web_inv m names s" "i < nfiles s"
  shows "yields (\<lambda>t. web_inv m names t \<and> nfiles t = nfiles s) own_error (web_file wr rs ws rdf i s)"
  using assms inv_reading [OF assms] inv_done [OF assms]
  by (auto simp: web_file_def write_get_cmd_def request_def Let_def split: f_flags.split option.split)

lemma web_scan_ok:
  "web_inv m names s \<Longrightarrow> \<forall>i \<in> set is. i < nfiles s \<Longrightarrow> yields (web_inv m names) own_error (web_scan (web_file wr rs ws rdf) is s)"
proof (induction "is" arbitrary: s)
  case (Cons i "is")
  have "yields (\<lambda>t. web_inv m names t \<and> nfiles t = nfiles s) own_error (web_file wr rs ws rdf i s)"
    using Cons.prems web_file_ok by simp
  then show ?case by (auto intro!: yields_andthen Cons.IH simp: Cons.prems(2))
qed simp

lemma web_round_ok:
  "web_inv m names s \<Longrightarrow> fresh_socks (io_sock io) s \<Longrightarrow> yields (web_inv m names) own_error (web_round m io s)"
  unfolding web_round_def web_serves_def by (rule yields_andthen [OF connects_ok]) (auto intro: web_scan_ok)

lemma web_init_inv: "web_inv m names (web_init names)"
proof -
  have "having F (replicate n F_NONE) = {}" if "F_NONE \<notin> F" for F n using that by (auto simp: having_iff)
  moreover have "count_list (replicate n F_NONE) f = (if f = F_NONE then n else 0)" for n f by (induction n) auto
  ultimately show ?thesis by (auto simp: web_inv_def web_init_def Let_def min_def)
qed

text \<open>The states of the program between the rounds.\<close>

inductive web_reach :: "int \<Rightarrow> string list \<Rightarrow> web \<Rightarrow> bool" for maxnconn names where
  init: "web_reach maxnconn names (web_init names)"
| round: "web_reach maxnconn names s \<Longrightarrow> fresh_socks (io_sock io) s \<Longrightarrow> 0 < nlefttoread s \<Longrightarrow> web_round maxnconn io s = Inr t \<Longrightarrow>
    web_reach maxnconn names t"

lemma web_reach_inv: "web_reach m names s \<Longrightarrow> web_inv m names s"
proof (induction rule: web_reach.induct)
  case (round s io t)
  then show ?case using yieldsD(1) [OF web_round_ok] by blast
qed (rule web_init_inv)

lemma all_done:
  assumes "web_inv m names s" "nlefttoread s = 0"
  shows "having asked (flags s) = {..<nfiles s}" "having {F_DONE} (flags s) = {..<nfiles s}"
proof -
  have "count_list (flags s) f = 0" if "f \<in> {F_NONE, F_CONNECTING, F_READING}" for f
    using assms that by (auto simp: web_inv_def)
  then have "f \<notin> set (flags s)" if "f \<in> {F_NONE, F_CONNECTING, F_READING}" for f
    using that by (simp add: count_list_0_iff)
  then have "flags s ! i = F_DONE" if "i < nfiles s" for i
    using assms(1) that nth_mem [OF that] by (cases "flags s ! i") (auto simp: web_inv_def)
  then show "having asked (flags s) = {..<nfiles s}" "having {F_DONE} (flags s) = {..<nfiles s}"
    by (auto simp: having_iff)
qed

text \<open>With a connection allowed, the descriptors given to \<^verbatim>\<open>select\<close> are never empty.\<close>

lemma select_waits:
  assumes "web_inv m names t" "\<not> can_connect m t" "1 \<le> m" "0 < nlefttoread t"
  shows "w_rset t \<noteq> {}"
proof -
  have "0 < nconn t" using assms by (auto simp: web_inv_def can_connect_def)
  then have "0 < count_list (flags t) F_CONNECTING \<or> 0 < count_list (flags t) F_READING" using assms(1) by (auto simp: web_inv_def)
  then have "F_CONNECTING \<in> set (flags t) \<or> F_READING \<in> set (flags t)" by (metis count_list_0_iff less_numeral_extra(3))
  then have "having opened (flags t) \<noteq> {}" by (auto simp: having_def in_set_conv_nth)
  then show ?thesis using assms(1) by (auto simp: web_inv_def)
qed

text \<open>C19: In every state of the web client, whatever the network does, the counters are the numbers of
  files to connect, connected and to read; no more than \<^verbatim>\<open>maxnconn\<close> connections are open; \<^verbatim>\<open>select\<close> is
  asked exactly about the descriptors of the open connections, and about one at least while files
  are left; the search for a file to connect never fails.  When no file is left to read, the request
  of every file has been sent exactly once, and every connection has been closed once.\<close>

theorem web_client_invariant:
  assumes "web_reach maxnconn names s"
  shows "nlefttoconn s = count_flag F_NONE s \<and> nconn s = count_flag F_CONNECTING s + count_flag F_READING s \<and>
    nlefttoread s = nlefttoconn s + nconn s \<and> nconn s \<le> max 0 maxnconn \<and>
    w_rset s = {f_fd s ! i | i. i < nfiles s \<and> flags s ! i \<in> {F_CONNECTING, F_READING}} \<and>
    w_wset s = {f_fd s ! i | i. i < nfiles s \<and> flags s ! i = F_CONNECTING} \<and>
    (\<forall>io n. fresh_socks (io_sock io) s \<longrightarrow> web_round maxnconn io s \<noteq> Inl (Nothing_found n)) \<and>
    (\<forall>io t. fresh_socks (io_sock io) s \<longrightarrow> web_connects maxnconn io s = Inr t \<longrightarrow> 1 \<le> maxnconn \<longrightarrow> 0 < nlefttoread s \<longrightarrow>
       w_rset t \<noteq> {}) \<and>
    (nlefttoread s = 0 \<longrightarrow> mset (w_sent s) = image_mset (request (take 20 names) (f_fd s)) (mset_set {..<min (length names) 20}) \<and>
       mset (w_closed s) = mset (f_fd s))"
proof -
  have i: "web_inv maxnconn names s" using assms by (rule web_reach_inv)
  have n: "f_name s = take 20 names" "nfiles s = min (length names) 20" "length (f_fd s) = nfiles s"
    using i by (auto simp: web_inv_def)
  have "own_error e" if "fresh_socks (io_sock io) s" "web_round maxnconn io s = Inl e" for io e
    using yieldsD(2) [OF web_round_ok [OF i that(1)] that(2)] .
  then have err: "\<forall>io n. fresh_socks (io_sock io) s \<longrightarrow> web_round maxnconn io s \<noteq> Inl (Nothing_found n)"
    by (fastforce simp: own_error_def)
  have wait: "w_rset t \<noteq> {}" if "fresh_socks (io_sock io) s" "web_connects maxnconn io s = Inr t" "1 \<le> maxnconn" "0 < nlefttoread s" for io t
    using select_waits [of maxnconn names t] yieldsD(1) [OF connects_ok [OF i that(1)] that(2)] that by simp
  have fin: "mset (w_sent s) = image_mset (request (take 20 names) (f_fd s)) (mset_set {..<min (length names) 20}) \<and>
      mset (w_closed s) = mset (f_fd s)" if "nlefttoread s = 0"
  proof -
    have "image_mset (nth (f_fd s)) (mset_set {..<nfiles s}) = mset (f_fd s)"
      using n(3) mset_set_upto_eq_mset_upto [of "nfiles s"] map_nth [of "f_fd s"] by (metis mset_map)
    then show ?thesis using i n all_done [OF i that] by (simp add: web_inv_def)
  qed
  have sets: "w_rset s = {f_fd s ! i | i. i < nfiles s \<and> flags s ! i \<in> {F_CONNECTING, F_READING}}"
    "w_wset s = {f_fd s ! i | i. i < nfiles s \<and> flags s ! i = F_CONNECTING}"
    using i by (auto simp: web_inv_def having_def)
  have cnt: "nlefttoconn s = count_flag F_NONE s" "nconn s = count_flag F_CONNECTING s + count_flag F_READING s"
    "nlefttoread s = nlefttoconn s + nconn s" "nconn s \<le> max 0 maxnconn" using i by (simp_all add: web_inv_def)
  show ?thesis using cnt sets err wait fin by blast
qed

text \<open>A run with one file, whose connection is made at once.\<close>

definition one_file_io :: web_io where
  "one_file_io = \<lparr>io_sock = (\<lambda>_. 5), io_connect = (\<lambda>_. 0), io_rs = (\<lambda>_. True), io_ws = (\<lambda>_. True),
     io_read = (\<lambda>_. Some 0), io_write = (\<lambda>_. True)\<rparr>"

definition one_file_end :: web where
  "one_file_end = \<lparr>flags = [F_DONE], nconn = 0, nlefttoconn = 0, nlefttoread = 0, f_name = [''/a''], f_fd = [5], maxfd = 5,
     w_rset = {}, w_wset = {}, w_sent = [(5, get_cmd ''/a'')], w_closed = [5]\<rparr>"

lemma one_file_reach: "web_reach 1 [''/a''] one_file_end"
proof (rule web_reach.round [OF web_reach.init, of one_file_io])
  show "fresh_socks (io_sock one_file_io) (web_init [''/a''])"
    by (auto simp: fresh_socks_def web_init_def having_def inj_on_def)
  show "web_round 1 one_file_io (web_init [''/a'']) = Inr one_file_end"
    by (simp add: web_round_def web_connects_def connect_loop.simps connect_one_def can_connect_def web_init_def start_connect_def
        write_get_cmd_def one_file_io_def one_file_end_def web_serves_def web_file_def get_cmd_def line_buf_def Let_def)
qed (simp add: web_init_def)

theorem web_client_invariant_witness:
  "web_reach 1 [''/a''] one_file_end \<and> mset (w_closed one_file_end) = {#5#} \<and>
   w_rset one_file_end = {} \<and> nconn one_file_end = 0"
  using web_client_invariant [OF one_file_reach] one_file_reach by (simp add: one_file_end_def)

end
