(* ===== verification/Web_Threads.thy ===== *)
theory Web_Threads
  imports Web_Client
begin

text \<open>
  The web client with one thread per file, \<^verbatim>\<open>unpv13e/threads/web01.c\<close>, \<^verbatim>\<open>web02.c\<close> and \<^verbatim>\<open>web03.c\<close>, as one
  step relation over the version.  The main thread starts threads with the loop of the theory
  \<^verbatim>\<open>Web_Client\<close>; a pass of that loop is one step, because the counters belong to the main thread and no other
  thread sets a flag to 0 (in \<^verbatim>\<open>web02.c\<close>, which sets the flag after it has created the thread, the
  two are separate steps).  In \<^verbatim>\<open>web01.c\<close> the main thread joins whatever thread has ended; in \<^verbatim>\<open>web02.c\<close> and
  \<^verbatim>\<open>web03.c\<close> it holds \<^verbatim>\<open>ndone_mutex\<close> while it goes through the files and joins those with \<^verbatim>\<open>F_DONE\<close>.  In \<^verbatim>\<open>web03.c\<close> it waits on a condition variable
  before that: \<^verbatim>\<open>Pthread_cond_wait\<close> releases the mutex and sleeps, \<^verbatim>\<open>Pthread_cond_signal\<close> of a thread wakes it, and then it takes the mutex and tests \<^verbatim>\<open>ndone\<close> again.  It may also
  wake without a signal.  Errors of the network end the program and are no steps.
\<close>

section \<open>State and steps\<close>

datatype version = Web01 | Web02 | Web03

text \<open>Where the main thread is; in \<open>M_scan i\<close> it holds the mutex and looks at file \<open>i\<close>, in \<open>M_wait\<close> it sleeps in \<^verbatim>\<open>Pthread_cond_wait\<close>, and in
  \<open>M_woken\<close> it was woken and is about to take the mutex again.\<close>

datatype main_pc = M_loop | M_created nat | M_wait | M_woken | M_scan nat | M_exit | M_quit

text \<open>Where the thread of a file is: not created, before the request is sent, reading, before the
  mutex, after its last statement, joined.\<close>

datatype thr_pc = T_none | T_connect | T_read | T_lock | T_end | T_gone

record web_thr = downloads +
  ndone :: int
  thr :: "thr_pc list"
  mpc :: main_pc

definition thr_init :: "nat \<Rightarrow> web_thr" where
  "thr_init argfiles =
     (let n = min argfiles MAXFILES in
      \<lparr>flags = replicate n F_NONE, nconn = 0, nlefttoconn = int n, nlefttoread = int n,
       ndone = 0, thr = replicate n T_none, mpc = M_loop\<rparr>)"

definition create_thread :: "nat \<Rightarrow> web_thr \<Rightarrow> web_error + web_thr" where
  "create_thread i s = Inr (s\<lparr>flags := (flags s)[i := F_CONNECTING], thr := (thr s)[i := T_connect]\<rparr>)"

text \<open>\<^verbatim>\<open>Pthread_cond_signal\<close>, which only \<^verbatim>\<open>web03.c\<close> calls: it wakes the main thread if that sleeps, and is lost otherwise.\<close>

definition cond_signal :: "version \<Rightarrow> main_pc \<Rightarrow> main_pc" where
  "cond_signal v p = (if v = Web03 \<and> p = M_wait then M_woken else p)"

text \<open>The thread of a file, \<^verbatim>\<open>do_get_read\<close>: the request is sent, the reply has ended, and (not in
  \<^verbatim>\<open>web01.c\<close>) \<^verbatim>\<open>ndone\<close> is incremented under the mutex, with the signal.\<close>

inductive thread_step :: "version \<Rightarrow> nat \<Rightarrow> web_thr \<Rightarrow> web_thr \<Rightarrow> bool" for v i where
  connected: "i < nfiles s \<Longrightarrow> thr s ! i = T_connect \<Longrightarrow>
    thread_step v i s (s\<lparr>flags := (flags s)[i := F_READING], thr := (thr s)[i := T_read]\<rparr>)"
| finished: "i < nfiles s \<Longrightarrow> thr s ! i = T_read \<Longrightarrow>
    thread_step v i s (s\<lparr>flags := (flags s)[i := F_DONE], thr := (thr s)[i := if v = Web01 then T_end else T_lock]\<rparr>)"
| counted: "i < nfiles s \<Longrightarrow> thr s ! i = T_lock \<Longrightarrow> (\<forall>j. mpc s \<noteq> M_scan j) \<Longrightarrow>
    thread_step v i s (s\<lparr>ndone := ndone s + 1, thr := (thr s)[i := T_end], mpc := cond_signal v (mpc s)\<rparr>)"

text \<open>The main thread.\<close>

inductive main_step :: "version \<Rightarrow> int \<Rightarrow> web_thr \<Rightarrow> web_thr \<Rightarrow> bool" for v maxnconn where
  start: "v \<noteq> Web02 \<Longrightarrow> mpc s = M_loop \<Longrightarrow> 0 < nlefttoread s \<Longrightarrow> can_connect maxnconn s \<Longrightarrow>
    connect_one create_thread s = Inr t \<Longrightarrow> main_step v maxnconn s t"
| quit: "mpc s = M_loop \<Longrightarrow> 0 < nlefttoread s \<Longrightarrow> can_connect maxnconn s \<Longrightarrow>
    connect_one create_thread s = Inl e \<Longrightarrow> main_step v maxnconn s (s\<lparr>mpc := M_quit\<rparr>)"
| create: "v = Web02 \<Longrightarrow> mpc s = M_loop \<Longrightarrow> 0 < nlefttoread s \<Longrightarrow> can_connect maxnconn s \<Longrightarrow>
    find_flag F_NONE (flags s) = Some i \<Longrightarrow> main_step v maxnconn s (s\<lparr>thr := (thr s)[i := T_connect], mpc := M_created i\<rparr>)"
| created: "v = Web02 \<Longrightarrow> mpc s = M_created i \<Longrightarrow> main_step v maxnconn s
    (s\<lparr>flags := (flags s)[i := F_CONNECTING], nconn := nconn s + 1, nlefttoconn := nlefttoconn s - 1, mpc := M_loop\<rparr>)"
| join_any: "v = Web01 \<Longrightarrow> mpc s = M_loop \<Longrightarrow> 0 < nlefttoread s \<Longrightarrow> \<not> can_connect maxnconn s \<Longrightarrow> i < nfiles s \<Longrightarrow> thr s ! i = T_end \<Longrightarrow>
    main_step v maxnconn s (s\<lparr>thr := (thr s)[i := T_gone], nconn := nconn s - 1, nlefttoread := nlefttoread s - 1\<rparr>)"
| lock: "v \<noteq> Web01 \<Longrightarrow> mpc s = M_loop \<Longrightarrow> 0 < nlefttoread s \<Longrightarrow> \<not> can_connect maxnconn s \<Longrightarrow>
    (if v = Web02 then 0 < ndone s else ndone s \<noteq> 0) \<Longrightarrow> main_step v maxnconn s (s\<lparr>mpc := M_scan 0\<rparr>)"
| wait: "v = Web03 \<Longrightarrow> mpc s = M_loop \<Longrightarrow> 0 < nlefttoread s \<Longrightarrow> \<not> can_connect maxnconn s \<Longrightarrow> ndone s = 0 \<Longrightarrow>
    main_step v maxnconn s (s\<lparr>mpc := M_wait\<rparr>)"
| awake: "mpc s = M_woken \<Longrightarrow> main_step v maxnconn s (s\<lparr>mpc := if ndone s = 0 then M_wait else M_scan 0\<rparr>)"
| skip: "mpc s = M_scan i \<Longrightarrow> i < nfiles s \<Longrightarrow> flags s ! i \<noteq> F_DONE \<Longrightarrow> main_step v maxnconn s (s\<lparr>mpc := M_scan (Suc i)\<rparr>)"
| join: "mpc s = M_scan i \<Longrightarrow> i < nfiles s \<Longrightarrow> flags s ! i = F_DONE \<Longrightarrow> thr s ! i = T_end \<Longrightarrow> main_step v maxnconn s
    (s\<lparr>flags := (flags s)[i := F_JOINED], thr := (thr s)[i := T_gone], ndone := ndone s - 1, nconn := nconn s - 1,
       nlefttoread := nlefttoread s - 1, mpc := M_scan (Suc i)\<rparr>)"
| unlock: "mpc s = M_scan i \<Longrightarrow> nfiles s \<le> i \<Longrightarrow> main_step v maxnconn s (s\<lparr>mpc := M_loop\<rparr>)"
| exit: "mpc s = M_loop \<Longrightarrow> nlefttoread s \<le> 0 \<Longrightarrow> main_step v maxnconn s (s\<lparr>mpc := M_exit\<rparr>)"

text \<open>When the main thread exits or quits, the process ends.\<close>

definition wstep :: "version \<Rightarrow> int \<Rightarrow> web_thr \<Rightarrow> web_thr \<Rightarrow> bool" where
  "wstep v maxnconn s t \<longleftrightarrow> main_step v maxnconn s t \<or>
     (\<exists>i. mpc s \<noteq> M_exit \<and> mpc s \<noteq> M_quit \<and> thread_step v i s t)"

text \<open>The states that can be reached, also by wake-ups without a signal, which the program cannot count on.\<close>

inductive wreach :: "version \<Rightarrow> int \<Rightarrow> nat \<Rightarrow> web_thr \<Rightarrow> bool" for v maxnconn argfiles where
  init: "wreach v maxnconn argfiles (thr_init argfiles)"
| step: "wreach v maxnconn argfiles s \<Longrightarrow> wstep v maxnconn s t \<Longrightarrow> wreach v maxnconn argfiles t"
| spurious: "wreach v maxnconn argfiles s \<Longrightarrow> mpc s = M_wait \<Longrightarrow> wreach v maxnconn argfiles (s\<lparr>mpc := M_woken\<rparr>)"

section \<open>The invariant\<close>

text \<open>How the flags of a file go with its thread.\<close>

fun agree :: "version \<Rightarrow> f_flags \<Rightarrow> thr_pc \<Rightarrow> bool" where
  "agree v F_NONE t = (t = T_none)"
| "agree v F_CONNECTING t = (t = T_connect)"
| "agree v F_READING t = (t = T_read)"
| "agree v F_DONE t = (if v = Web01 then t \<in> {T_end, T_gone} else t \<in> {T_lock, T_end})"
| "agree v F_JOINED t = (v \<noteq> Web01 \<and> t = T_gone)"

abbreviation count_thr :: "thr_pc \<Rightarrow> web_thr \<Rightarrow> int" where
  "count_thr p s \<equiv> int (count_list (thr s) p)"

definition thr_inv :: "version \<Rightarrow> int \<Rightarrow> web_thr \<Rightarrow> bool" where
  "thr_inv v maxnconn s \<longleftrightarrow> list_all2 (agree v) (flags s) (thr s) \<and>
     nlefttoconn s = count_flag F_NONE s \<and>
     nconn s = count_thr T_connect s + count_thr T_read s + count_thr T_lock s + count_thr T_end s \<and>
     nlefttoread s = nlefttoconn s + nconn s \<and> nconn s \<le> max 0 maxnconn \<and>
     (v \<noteq> Web01 \<longrightarrow> ndone s = count_thr T_end s) \<and>
     (\<forall>i. mpc s \<noteq> M_created i) \<and> mpc s \<noteq> M_quit \<and> (v = Web01 \<longrightarrow> (\<forall>i. mpc s \<noteq> M_scan i)) \<and>
     (mpc s = M_exit \<longrightarrow> nlefttoread s = 0) \<and>
     (mpc s \<in> {M_wait, M_woken} \<longrightarrow> v = Web03 \<and> 0 < nlefttoread s \<and> \<not> can_connect maxnconn s) \<and> (mpc s = M_wait \<longrightarrow> ndone s = 0)"

lemma can_connect_upd [simp]:
  "can_connect m (s\<lparr>mpc := p\<rparr>) = can_connect m s" "can_connect m (s\<lparr>ndone := k\<rparr>) = can_connect m s" "can_connect m (s\<lparr>thr := ts\<rparr>) = can_connect m s"
  "can_connect m (s\<lparr>flags := fs\<rparr>) = can_connect m (s :: web_thr)"
  by (simp_all add: can_connect_def)

lemma count_none: "list_all2 (agree v) fl ts \<Longrightarrow> count_list fl F_NONE = count_list ts T_none"
proof (induction rule: list_all2_induct)
  case (Cons x xs y ys)
  then show ?case by (cases x) (auto split: if_splits)
qed simp

lemma agree_nth: "list_all2 (agree v) fl ts \<Longrightarrow> i < length fl \<Longrightarrow> agree v (fl ! i) (ts ! i)"
  by (rule list_all2_nthD)

lemma thr_init_inv: "v \<noteq> Web02 \<Longrightarrow> thr_inv v m (thr_init n)"
proof -
  have c: "count_list (replicate k a) b = (if b = a then k else 0)" for k and a b :: 'a by (induction k) auto
  show ?thesis by (simp add: thr_inv_def thr_init_def Let_def c list_all2_conv_all_nth)
qed

lemma create_thread_ok:
  assumes "thr_inv v m s" "v \<noteq> Web02" "can_connect m s" "mpc s = M_loop" "i < nfiles s" "flags s ! i = F_NONE"
  shows "yields (\<lambda>t. thr_inv v m (t\<lparr>nconn := nconn s + 1, nlefttoconn := nlefttoconn s - 1\<rparr>) \<and> mpc t = M_loop) (\<lambda>_. False) (create_thread i s)"
proof -
  have l: "list_all2 (agree v) (flags s) (thr s)" using assms(1) by (simp add: thr_inv_def)
  then have t: "thr s ! i = T_none" "i < length (thr s)" using agree_nth [OF l assms(5)] assms(5,6) by (simp_all add: list_all2_lengthD [symmetric])
  have "list_all2 (agree v) ((flags s)[i := F_CONNECTING]) ((thr s)[i := T_connect])"
    using l by (rule list_all2_update_cong) simp
  then show ?thesis using assms t by (auto simp: create_thread_def thr_inv_def count_list_update can_connect_def)
qed

interpretation wt: starter create_thread m "\<lambda>s. thr_inv v m s \<and> v \<noteq> Web02 \<and> mpc s = M_loop" "\<lambda>_. False" for v m
proof
  show "yields (\<lambda>t. thr_inv v m (t\<lparr>nconn := nconn s + 1, nlefttoconn := nlefttoconn s - 1\<rparr>) \<and> v \<noteq> Web02 \<and>
      mpc (t\<lparr>nconn := nconn s + 1, nlefttoconn := nlefttoconn s - 1\<rparr>) = M_loop) (\<lambda>_. False) (create_thread i s)"
    if "thr_inv v m s \<and> v \<noteq> Web02 \<and> mpc s = M_loop" "can_connect m s" "i < nfiles s" "flags s ! i = F_NONE" for s i
    using that create_thread_ok by (auto elim: yields_mono)
qed (simp add: thr_inv_def)

text \<open>Changing the flags and the thread of one file.\<close>

lemma agree_update:
  "thr_inv v m s \<Longrightarrow> agree v f t \<Longrightarrow> list_all2 (agree v) ((flags s)[i := f]) ((thr s)[i := t])"
  by (simp add: thr_inv_def list_all2_update_cong)

lemma agree_update_thr:
  assumes "thr_inv v m s" "i < nfiles s" "agree v (flags s ! i) t"
  shows "list_all2 (agree v) (flags s) ((thr s)[i := t])"
  using agree_update [OF assms(1,3), of i] by simp

lemma thr_length: "thr_inv v m s \<Longrightarrow> length (thr s) = nfiles s"
  unfolding thr_inv_def by (metis list_all2_lengthD)

lemma thr_agree: "thr_inv v m s \<Longrightarrow> i < nfiles s \<Longrightarrow> agree v (flags s ! i) (thr s ! i)"
  by (simp add: thr_inv_def list_all2_nthD)

text \<open>What the place of a thread says about the flags of its file.\<close>

lemma agree_flag:
  "agree v f T_connect \<Longrightarrow> f = F_CONNECTING" "agree v f T_read \<Longrightarrow> f = F_READING"
  "agree v f T_lock \<Longrightarrow> f = F_DONE \<and> v \<noteq> Web01" "agree v f T_end \<Longrightarrow> f = F_DONE"
  by (cases f; auto split: if_splits)+

lemma thread_step_inv:
  assumes "thread_step v i s t" "thr_inv v m s" "v \<noteq> Web02" "mpc s \<noteq> M_exit"
  shows "thr_inv v m t"
  using assms(1)
proof cases
  case connected
  then have "flags s ! i = F_CONNECTING" using thr_agree [OF assms(2)] agree_flag(1) by metis
  then show ?thesis using connected assms(2,4) agree_update [OF assms(2), of F_READING T_read i] thr_length [OF assms(2)]
    by (cases v) (auto simp: thr_inv_def count_list_update)
next
  case finished
  then have f: "flags s ! i = F_READING" using thr_agree [OF assms(2)] agree_flag(2) by metis
  have "list_all2 (agree v) ((flags s)[i := F_DONE]) ((thr s)[i := if v = Web01 then T_end else T_lock])"
    using assms(2) by (rule agree_update) simp
  then show ?thesis using f finished assms(2,4) thr_length [OF assms(2)] by (cases v) (auto simp: thr_inv_def count_list_update)
next
  case counted
  then have f: "flags s ! i = F_DONE" "v \<noteq> Web01" using thr_agree [OF assms(2)] agree_flag(3) by metis+
  have "list_all2 (agree v) (flags s) ((thr s)[i := T_end])"
    using assms(2) counted(2) by (rule agree_update_thr) (simp add: f)
  then show ?thesis using f counted assms(2-4) thr_length [OF assms(2)]
    by (cases v) (auto simp: thr_inv_def count_list_update cond_signal_def)
qed

lemma main_step_inv:
  assumes "main_step v m s t" "thr_inv v m s" "v \<noteq> Web02"
  shows "thr_inv v m t"
  using assms(1)
proof cases
  case start
  then show ?thesis using wt.one_ok [of v m s] assms(2,3) by auto
next
  case (quit e)
  then show ?thesis using wt.one_ok [of v m s] assms(2,3) by simp
next
  case (join_any i)
  then have f: "flags s ! i = F_DONE" using thr_agree [OF assms(2)] agree_flag(4) by metis
  have "list_all2 (agree v) (flags s) ((thr s)[i := T_gone])"
    using assms(2) join_any(6) by (rule agree_update_thr) (simp add: f join_any(2))
  then show ?thesis using f join_any assms(2) thr_length [OF assms(2)] by (auto simp: thr_inv_def count_list_update)
next
  case (join i)
  have v: "v \<noteq> Web01" using join assms(2) by (auto simp: thr_inv_def)
  have "list_all2 (agree v) ((flags s)[i := F_JOINED]) ((thr s)[i := T_gone])"
    using assms(2) by (rule agree_update) (simp add: v)
  then show ?thesis using v join assms(2) thr_length [OF assms(2)] by (auto simp: thr_inv_def count_list_update)
next
  case exit
  have "0 \<le> nconn s" "0 \<le> nlefttoconn s" using assms(2) by (simp_all add: thr_inv_def)
  then show ?thesis using exit assms(2) by (auto simp: thr_inv_def)
qed (use assms(2,3) in \<open>auto simp: thr_inv_def\<close>)

lemma wreach_inv: "wreach v m n s \<Longrightarrow> v \<noteq> Web02 \<Longrightarrow> thr_inv v m s"
proof (induction rule: wreach.induct)
  case (step s t)
  then show ?case using main_step_inv thread_step_inv unfolding wstep_def by blast
next
  case (spurious s)
  then show ?case by (auto simp: thr_inv_def)
qed (rule thr_init_inv)

section \<open>Progress\<close>

lemma in_set_thr: "0 < count_thr p s \<longleftrightarrow> (\<exists>i < length (thr s). thr s ! i = p)"
  by (metis count_list_0_iff in_set_conv_nth of_nat_0_less_iff zero_less_iff_neq_zero)

lemma active_thread:
  assumes "thr_inv v m s" "1 \<le> m" "0 < nlefttoread s" "\<not> can_connect m s"
  obtains i where "i < nfiles s" "thr s ! i \<in> {T_connect, T_read, T_lock, T_end}"
proof -
  have "0 < nconn s" using assms by (auto simp: thr_inv_def can_connect_def)
  then have "0 < count_thr T_connect s \<or> 0 < count_thr T_read s \<or> 0 < count_thr T_lock s \<or> 0 < count_thr T_end s"
    using assms(1) by (fastforce simp: thr_inv_def)
  then show thesis using that thr_length [OF assms(1)] unfolding in_set_thr by auto
qed

lemma loop_progress:
  assumes "thr_inv v m s" "v \<noteq> Web02" "1 \<le> m" "mpc s = M_loop" "0 < nlefttoread s" "\<not> can_connect m s"
  shows "\<exists>t. wstep v m s t"
proof (cases "v = Web01")
  case True
  obtain i where i: "i < nfiles s" "thr s ! i \<in> {T_connect, T_read, T_lock, T_end}" using active_thread assms(1,3,5,6) by blast
  show ?thesis
  proof (cases "thr s ! i = T_end")
    case True
    then show ?thesis using \<open>v = Web01\<close> i assms main_step.join_any [of v s m i] by (auto simp: wstep_def)
  next
    case False
    then show ?thesis using i assms(4) thread_step.intros [of i s v] by (auto simp: wstep_def)
  qed
next
  case False
  then show ?thesis using assms main_step.lock [of v s m] main_step.wait [of v s m] by (cases v; cases "ndone s = 0") (auto simp: wstep_def)
qed

text \<open>While the main thread sleeps, no thread has ended that it has not seen, and another one can go on.\<close>

lemma wait_progress:
  assumes "thr_inv v m s" "1 \<le> m" "mpc s = M_wait"
  shows "\<exists>t. wstep v m s t"
proof -
  have w: "v = Web03" "0 < nlefttoread s" "\<not> can_connect m s" "ndone s = 0" "ndone s = count_thr T_end s"
    using assms(1,3) by (auto simp: thr_inv_def)
  obtain i where i: "i < nfiles s" "thr s ! i \<in> {T_connect, T_read, T_lock, T_end}" using active_thread assms(1,2) w(2,3) by blast
  have "thr s ! i \<noteq> T_end" using w(4,5) i in_set_thr [of s T_end] thr_length [OF assms(1)] by auto
  then show ?thesis using i assms(3) thread_step.intros [of i s v] by (auto simp: wstep_def)
qed

lemma progress:
  assumes "thr_inv v m s" "v \<noteq> Web02" "1 \<le> m" "mpc s \<noteq> M_exit"
  shows "(\<exists>t. wstep v m s t) \<or> (\<exists>i < nfiles s. mpc s = M_scan i \<and> flags s ! i = F_DONE \<and> thr s ! i = T_lock)"
proof (cases "mpc s")
  case M_loop
  show ?thesis
  proof (cases "0 < nlefttoread s \<and> can_connect m s")
    case True
    obtain t where "connect_one create_thread s = Inr t"
      using wt.one_ok [of v m s] assms(1,2) M_loop True by (cases "connect_one create_thread s") auto
    then show ?thesis using main_step.start [OF assms(2) M_loop] True by (auto simp: wstep_def)
  next
    case False
    then show ?thesis using loop_progress [OF assms(1-3) M_loop] main_step.exit [OF M_loop] by (fastforce simp: wstep_def)
  qed
next
  case M_wait
  then show ?thesis using wait_progress [OF assms(1,3)] by blast
next
  case M_woken
  then show ?thesis using main_step.awake [OF M_woken] by (auto simp: wstep_def)
next
  case (M_scan i)
  show ?thesis
  proof (cases "i < nfiles s \<and> flags s ! i = F_DONE")
    case True
    then have "thr s ! i \<in> {T_lock, T_end}" using thr_agree [OF assms(1), of i] M_scan assms(1) by (auto simp: thr_inv_def)
    then show ?thesis using True M_scan main_step.join [OF M_scan] by (auto simp: wstep_def)
  qed (use main_step.unlock [OF M_scan] main_step.skip [OF M_scan] in \<open>fastforce simp: wstep_def\<close>)
qed (use assms in \<open>auto simp: thr_inv_def\<close>)

text \<open>What is left to do before the end, in \<^verbatim>\<open>web01.c\<close>.\<close>

fun weight :: "thr_pc \<Rightarrow> nat" where
  "weight T_none = 4" | "weight T_connect = 3" | "weight T_read = 2" | "weight T_lock = 1" | "weight T_end = 1" | "weight T_gone = 0"

definition left_to_do :: "web_thr \<Rightarrow> nat" where
  "left_to_do s = sum_list (map weight (thr s)) + (if mpc s = M_loop then 1 else 0)"

lemma weight_update: "i < length ts \<Longrightarrow> sum_list (map weight (ts[i := p])) + weight (ts ! i) = sum_list (map weight ts) + weight p"
  by (induction ts arbitrary: i) (auto split: nat.split)

lemma web01_decreases:
  assumes "thr_inv Web01 m s" "wstep Web01 m s t"
  shows "left_to_do t < left_to_do s"
proof -
  note l = thr_length [OF assms(1)]
  consider (main) "main_step Web01 m s t" | (thread) i where "thread_step Web01 i s t" using assms(2) by (auto simp: wstep_def)
  then show ?thesis
  proof cases
    case main
    then show ?thesis
    proof cases
      case start
      then obtain i where i: "i < nfiles s" "flags s ! i = F_NONE" "t = s\<lparr>flags := (flags s)[i := F_CONNECTING], thr := (thr s)[i := T_connect],
          nconn := nconn s + 1, nlefttoconn := nlefttoconn s - 1\<rparr>"
        by (auto simp: connect_one_def create_thread_def split: option.splits dest: find_flag_Some)
      then have "thr s ! i = T_none" using thr_agree [OF assms(1)] by fastforce
      then show ?thesis using i l weight_update [of i "thr s" T_connect] by (simp add: left_to_do_def)
    next
      case (quit e)
      then show ?thesis by (simp add: left_to_do_def)
    next
      case (join_any i)
      then show ?thesis using l weight_update [of i "thr s" T_gone] by (simp add: left_to_do_def)
    qed (use assms(1) in \<open>auto simp: thr_inv_def left_to_do_def\<close>)
  next
    case thread
    then show ?thesis
    proof cases
      case connected
      then show ?thesis using l weight_update [of i "thr s" T_read] by (simp add: left_to_do_def)
    next
      case finished
      then show ?thesis using l weight_update [of i "thr s" T_end] weight_update [of i "thr s" T_lock] by (simp add: left_to_do_def)
    next
      case counted
      then show ?thesis using thr_agree [OF assms(1)] agree_flag(3) by metis
    qed
  qed
qed

section \<open>Results\<close>

lemma main_files: "main_step v m s t \<Longrightarrow> nfiles t = nfiles s"
  by (cases rule: main_step.cases) (auto simp: connect_one_def create_thread_def split: option.splits)

lemma thread_files: "thread_step v i s t \<Longrightarrow> nfiles t = nfiles s"
  by (cases rule: thread_step.cases) auto

lemma wreach_files: "wreach v m n s \<Longrightarrow> nfiles s = min n MAXFILES"
proof (induction rule: wreach.induct)
  case (step s t)
  then show ?case using main_files [of v m s t] thread_files [of v _ s t] by (auto simp: wstep_def)
qed (simp_all add: thr_init_def Let_def)

lemma thr_count: "int (length ts) = int (count_list ts T_none) + int (count_list ts T_connect) + int (count_list ts T_read) +
    int (count_list ts T_lock) + int (count_list ts T_end) + int (count_list ts T_gone)"
proof (induction ts)
  case (Cons t ts)
  then show ?case by (cases t) auto
qed simp

lemma left_counts:
  assumes "thr_inv v m s"
  shows "nlefttoconn s = count_thr T_none s" "nlefttoread s = int (length (thr s)) - count_thr T_gone s"
  using assms count_none thr_count [of "thr s"] by (auto simp: thr_inv_def)

text \<open>At the exit every thread is joined and its file done.\<close>

lemma exit_all_done:
  assumes "thr_inv v m s" "mpc s = M_exit" "i < nfiles s"
  shows "thr s ! i = T_gone \<and> flags s ! i = (if v = Web01 then F_DONE else F_JOINED)"
proof -
  have "int (length (thr s)) = count_thr T_gone s" using left_counts(2) [OF assms(1)] assms(1,2) by (simp add: thr_inv_def)
  then have "count_list (thr s) p = 0" if "p \<noteq> T_gone" for p using that thr_count [of "thr s"] by (cases p) auto
  then have "thr s ! i = T_gone" using assms(3) thr_length [OF assms(1)] by (metis count_list_0_iff nth_mem)
  then show ?thesis using thr_agree [OF assms(1,3)] by (cases "flags s ! i") (auto split: if_splits)
qed

text \<open>C16: In every interleaving of \<^verbatim>\<open>web01.c\<close> and of \<^verbatim>\<open>web03.c\<close> the flags of each file agree with the state of its thread: none before the thread is created,
  \<^verbatim>\<open>F_CONNECTING\<close> until the request is sent, \<^verbatim>\<open>F_READING\<close> until the end of the reply, then \<^verbatim>\<open>F_DONE\<close>, and in \<^verbatim>\<open>web03.c\<close> \<^verbatim>\<open>F_JOINED\<close> once it is joined.  The counters of the main thread are exact:
  \<^verbatim>\<open>nlefttoconn\<close> is the number of files without a thread, \<^verbatim>\<open>nconn\<close> the number of threads that were created and
  not joined, never more than \<^verbatim>\<open>maxnconn\<close>, \<^verbatim>\<open>nlefttoread\<close> the number of files whose thread is not
  joined, and \<^verbatim>\<open>ndone\<close> (in \<^verbatim>\<open>web03.c\<close>) the number of threads that have ended and are not joined; the main thread sleeps in \<^verbatim>\<open>Pthread_cond_wait\<close> only while there is none.  The search for
  a file never fails, and when the program exits every thread has been joined.\<close>

theorem web_threads_invariant:
  assumes "wreach v maxnconn argfiles s" "v \<noteq> Web02"
  shows "nfiles s = min argfiles MAXFILES \<and> length (thr s) = nfiles s \<and>
    (\<forall>i < nfiles s. case thr s ! i of
        T_none \<Rightarrow> flags s ! i = F_NONE | T_connect \<Rightarrow> flags s ! i = F_CONNECTING | T_read \<Rightarrow> flags s ! i = F_READING
      | T_lock \<Rightarrow> flags s ! i = F_DONE \<and> v = Web03 | T_end \<Rightarrow> flags s ! i = F_DONE
      | T_gone \<Rightarrow> flags s ! i = (if v = Web01 then F_DONE else F_JOINED)) \<and>
    nlefttoconn s = count_thr T_none s \<and>
    nconn s = count_thr T_connect s + count_thr T_read s + count_thr T_lock s + count_thr T_end s \<and> nconn s \<le> max 0 maxnconn \<and>
    nlefttoread s = int (length (thr s)) - count_thr T_gone s \<and> (v = Web03 \<longrightarrow> ndone s = count_thr T_end s) \<and>
    (mpc s = M_wait \<longrightarrow> count_thr T_end s = 0) \<and> mpc s \<noteq> M_quit \<and> (mpc s = M_exit \<longrightarrow> set (thr s) \<subseteq> {T_gone})"
proof -
  have i: "thr_inv v maxnconn s" using wreach_inv [OF assms] .
  note l = thr_length [OF i] and n = left_counts [OF i]
  have f: "case thr s ! i of
        T_none \<Rightarrow> flags s ! i = F_NONE | T_connect \<Rightarrow> flags s ! i = F_CONNECTING | T_read \<Rightarrow> flags s ! i = F_READING
      | T_lock \<Rightarrow> flags s ! i = F_DONE \<and> v = Web03 | T_end \<Rightarrow> flags s ! i = F_DONE
      | T_gone \<Rightarrow> flags s ! i = (if v = Web01 then F_DONE else F_JOINED)" if "i < nfiles s" for i
    using thr_agree [OF i that] assms(2) by (cases "flags s ! i"; cases v) auto
  have "set (thr s) \<subseteq> {T_gone}" if "mpc s = M_exit" using exit_all_done [OF i that] l by (auto simp: in_set_conv_nth)
  moreover have "nconn s = count_thr T_connect s + count_thr T_read s + count_thr T_lock s + count_thr T_end s" "nconn s \<le> max 0 maxnconn"
    "v = Web03 \<longrightarrow> ndone s = count_thr T_end s" "mpc s = M_wait \<longrightarrow> count_thr T_end s = 0" "mpc s \<noteq> M_quit"
    using i by (auto simp: thr_inv_def)
  ultimately show ?thesis using n f l wreach_files [OF assms(1)] by blast
qed

text \<open>C17: \<^verbatim>\<open>web01.c\<close> fetches all files: in every reachable state in which the program has not exited some thread
  can go on, and every step brings the end nearer, so that every run is finite and ends with the exit; and at the exit the thread of each of the files has
  reached the end of the reply and was joined.\<close>

theorem web01_terminates:
  assumes "wreach Web01 maxnconn argfiles s" "1 \<le> maxnconn"
  shows "(mpc s \<noteq> M_exit \<longrightarrow> (\<exists>t. wstep Web01 maxnconn s t)) \<and>
    (\<forall>t. wstep Web01 maxnconn s t \<longrightarrow> left_to_do t < left_to_do s) \<and>
    (mpc s = M_exit \<longrightarrow> (\<forall>i < min argfiles MAXFILES. thr s ! i = T_gone \<and> flags s ! i = F_DONE))"
proof -
  have i: "thr_inv Web01 maxnconn s" using wreach_inv [OF assms(1)] by simp
  have "mpc s \<noteq> M_scan j" for j using i by (simp add: thr_inv_def)
  then show ?thesis using progress [OF i _ assms(2)] web01_decreases [OF i] exit_all_done [OF i] wreach_files [OF assms(1)] by auto
qed

text \<open>C18: \<^verbatim>\<open>web03.c\<close> can stop in one way only: in a reachable state without a next step the main thread holds the
  mutex and waits in \<^verbatim>\<open>Pthread_join\<close> for a thread that has set \<^verbatim>\<open>F_DONE\<close> and waits for the mutex.  In particular it never sleeps in \<^verbatim>\<open>Pthread_cond_wait\<close> for ever: this does not count on
  wake-ups without a signal, which are no steps.\<close>

theorem web03_stuck_only_in_join:
  assumes "wreach Web03 maxnconn argfiles s" "1 \<le> maxnconn" "mpc s \<noteq> M_exit" "\<nexists>t. wstep Web03 maxnconn s t"
  shows "\<exists>i < nfiles s. mpc s = M_scan i \<and> flags s ! i = F_DONE \<and> thr s ! i = T_lock"
  using progress [OF wreach_inv [OF assms(1)] _ assms(2,3)] assms(4) by simp

text \<open>This deadlock is reached with two files: the second thread sets \<^verbatim>\<open>F_DONE\<close> while the first is
  being joined.\<close>

definition deadlock_state :: web_thr where
  "deadlock_state = \<lparr>flags = [F_JOINED, F_DONE], nconn = 1, nlefttoconn = 0, nlefttoread = 1, ndone = 0,
     thr = [T_gone, T_lock], mpc = M_scan 1\<rparr>"

lemma wreachI: "wreach v m n s \<Longrightarrow> main_step v m s t \<Longrightarrow> wreach v m n t"
  "wreach v m n s \<Longrightarrow> mpc s \<noteq> M_exit \<Longrightarrow> mpc s \<noteq> M_quit \<Longrightarrow> thread_step v i s t \<Longrightarrow> wreach v m n t"
  by (erule wreach.step, simp add: wstep_def, erule wreach.step, auto simp: wstep_def)

abbreviation (input) two :: "f_flags \<Rightarrow> f_flags \<Rightarrow> int \<Rightarrow> int \<Rightarrow> int \<Rightarrow> int \<Rightarrow> thr_pc \<Rightarrow> thr_pc \<Rightarrow> main_pc \<Rightarrow> web_thr" where
  "two f g nc nl nr nd t u p \<equiv> \<lparr>flags = [f, g], nconn = nc, nlefttoconn = nl, nlefttoread = nr, ndone = nd, thr = [t, u], mpc = p\<rparr>"

lemma deadlock_reached: "wreach Web03 2 2 deadlock_state"
proof -
  have s0: "wreach Web03 2 2 (two F_NONE F_NONE 0 2 2 0 T_none T_none M_loop)"
    using wreach.init [of Web03 2 2] by (simp add: thr_init_def numeral_2_eq_2)
  have s1: "wreach Web03 2 2 (two F_CONNECTING F_NONE 1 1 2 0 T_connect T_none M_loop)"
    by (rule wreachI(1) [OF s0], rule main_step.start) (simp_all add: can_connect_def connect_one_def create_thread_def)
  have s2: "wreach Web03 2 2 (two F_CONNECTING F_CONNECTING 2 0 2 0 T_connect T_connect M_loop)"
    by (rule wreachI(1) [OF s1], rule main_step.start) (simp_all add: can_connect_def connect_one_def create_thread_def)
  have s3: "wreach Web03 2 2 (two F_READING F_CONNECTING 2 0 2 0 T_read T_connect M_loop)"
    using wreachI(2) [OF s2 _ _ thread_step.connected [of 0]] by simp
  have s4: "wreach Web03 2 2 (two F_DONE F_CONNECTING 2 0 2 0 T_lock T_connect M_loop)"
    using wreachI(2) [OF s3 _ _ thread_step.finished [of 0]] by simp
  have s5: "wreach Web03 2 2 (two F_DONE F_CONNECTING 2 0 2 1 T_end T_connect M_loop)"
    using wreachI(2) [OF s4 _ _ thread_step.counted [of 0]] by (simp add: cond_signal_def)
  have s6: "wreach Web03 2 2 (two F_DONE F_READING 2 0 2 1 T_end T_read M_loop)"
    using wreachI(2) [OF s5 _ _ thread_step.connected [of 1]] by simp
  have s7: "wreach Web03 2 2 (two F_DONE F_DONE 2 0 2 1 T_end T_lock M_loop)"
    using wreachI(2) [OF s6 _ _ thread_step.finished [of 1]] by simp
  have s8: "wreach Web03 2 2 (two F_DONE F_DONE 2 0 2 1 T_end T_lock (M_scan 0))"
    using wreachI(1) [OF s7 main_step.lock] by (simp add: can_connect_def)
  show ?thesis using wreachI(1) [OF s8 main_step.join [of _ 0]] by (simp add: deadlock_state_def)
qed

lemma deadlock_stuck: "\<not> wstep Web03 m deadlock_state t"
  by (auto simp: wstep_def deadlock_state_def less_Suc_eq elim!: main_step.cases thread_step.cases)

theorem web03_stuck_only_in_join_witness:
  "wreach Web03 2 2 deadlock_state \<and> (\<nexists>t. wstep Web03 2 deadlock_state t) \<and>
   (\<exists>i < nfiles deadlock_state. mpc deadlock_state = M_scan i \<and> flags deadlock_state ! i = F_DONE \<and> thr deadlock_state ! i = T_lock)"
  using web03_stuck_only_in_join [OF deadlock_reached] deadlock_reached deadlock_stuck by (simp add: deadlock_state_def)

theorem web_threads_invariant_witness:
  "wreach Web03 2 2 deadlock_state \<and> nconn deadlock_state = 1 \<and> ndone deadlock_state = count_thr T_end deadlock_state"
  using web_threads_invariant [OF deadlock_reached] deadlock_reached by (simp add: deadlock_state_def)

theorem web01_terminates_witness:
  "wreach Web01 1 3 (thr_init 3) \<and> (\<exists>t. wstep Web01 1 (thr_init 3) t)"
  using web01_terminates [OF wreach.init [of Web01 1 3]] wreach.init [of Web01 1 3] by (simp add: thr_init_def)

text \<open>In \<^verbatim>\<open>web02.c\<close> the flag of a file is set after its thread was created.  When the thread is faster, its
  \<^verbatim>\<open>F_DONE\<close> is overwritten, and the main thread never finds it.\<close>

definition lost_state :: web_thr where
  "lost_state = \<lparr>flags = [F_CONNECTING], nconn = 1, nlefttoconn = 0, nlefttoread = 1, ndone = 1, thr = [T_end], mpc = M_loop\<rparr>"

abbreviation (input) one :: "f_flags \<Rightarrow> int \<Rightarrow> int \<Rightarrow> int \<Rightarrow> thr_pc \<Rightarrow> main_pc \<Rightarrow> web_thr" where
  "one f nc nl nd t p \<equiv> \<lparr>flags = [f], nconn = nc, nlefttoconn = nl, nlefttoread = 1, ndone = nd, thr = [t], mpc = p\<rparr>"

lemma lost_reached: "wreach Web02 1 1 lost_state"
proof -
  have s0: "wreach Web02 1 1 (one F_NONE 0 1 0 T_none M_loop)" using wreach.init [of Web02 1 1] by (simp add: thr_init_def)
  have s1: "wreach Web02 1 1 (one F_NONE 0 1 0 T_connect (M_created 0))"
    using wreachI(1) [OF s0 main_step.create [of Web02 _ 1 0]] by (simp add: can_connect_def)
  have s2: "wreach Web02 1 1 (one F_READING 0 1 0 T_read (M_created 0))"
    using wreachI(2) [OF s1 _ _ thread_step.connected [of 0]] by simp
  have s3: "wreach Web02 1 1 (one F_DONE 0 1 0 T_lock (M_created 0))"
    using wreachI(2) [OF s2 _ _ thread_step.finished [of 0]] by simp
  have s4: "wreach Web02 1 1 (one F_DONE 0 1 1 T_end (M_created 0))"
    using wreachI(2) [OF s3 _ _ thread_step.counted [of 0]] by (simp add: cond_signal_def)
  show ?thesis using wreachI(1) [OF s4 main_step.created [of Web02 _ 0]] by (simp add: lost_state_def)
qed

lemma web02_never_exits:
  "(wstep Web02 1)\<^sup>*\<^sup>* lost_state t \<Longrightarrow> nlefttoread t = 1 \<and> mpc t \<noteq> M_exit"
proof -
  have "t = lost_state \<or> (\<exists>i. t = lost_state\<lparr>mpc := M_scan i\<rparr>)" if "(wstep Web02 1)\<^sup>*\<^sup>* lost_state t"
    using that
  proof (induction rule: rtranclp_induct)
    case (step s t)
    then show ?case
      by (auto simp: wstep_def lost_state_def can_connect_def elim!: main_step.cases thread_step.cases)
  qed simp
  then show "(wstep Web02 1)\<^sup>*\<^sup>* lost_state t \<Longrightarrow> nlefttoread t = 1 \<and> mpc t \<noteq> M_exit" by (auto simp: lost_state_def)
qed

end
