(* ===== verification/Libgai_Model.thy ===== *)
theory Libgai_Model
  imports Gai_Props
begin

text \<open>
  The second implementation of name lookup, \<^verbatim>\<open>unpv13e/libgai\<close>: \<^verbatim>\<open>getaddrinfo.c\<close> with its helpers
  \<^verbatim>\<open>ga_echeck.c\<close>, \<^verbatim>\<open>ga_nsearch.c\<close>, \<^verbatim>\<open>ga_aistruct.c\<close>, \<^verbatim>\<open>ga_clone.c\<close>, \<^verbatim>\<open>ga_port.c\<close>, \<^verbatim>\<open>ga_serv.c\<close>, \<^verbatim>\<open>ga_unix.c\<close>, and
  \<^verbatim>\<open>getnameinfo.c\<close> with \<^verbatim>\<open>gn_ipv46.c\<close>, compiled with IPv4, IPv6 and Unix domain support.  The structures, the heap
  and \<^verbatim>\<open>freeaddrinfo\<close> are those of the theory \<^verbatim>\<open>Gai_Model\<close>; the resolver and \<^verbatim>\<open>uname\<close> are arguments.
\<close>

section \<open>Checks and searches\<close>

abbreviation (input) EAI_SYSTEM :: int where "EAI_SYSTEM \<equiv> 11"

definition bad_socktype :: "int list \<Rightarrow> int \<Rightarrow> bool" where
  "bad_socktype types socktype \<longleftrightarrow> socktype \<noteq> 0 \<and> socktype \<notin> set types"

definition ga_echeck :: "string option \<Rightarrow> string option \<Rightarrow> 32 word \<Rightarrow> int \<Rightarrow> int \<Rightarrow> int \<Rightarrow> int" where
  "ga_echeck hostname servname flags family socktype protocol =
     (if flags AND NOT (AI_PASSIVE OR AI_CANONNAME) \<noteq> 0 then EAI_BADFLAGS
      else if empty_arg hostname \<and> empty_arg servname then EAI_NONAME
      else if family = AF_UNSPEC then 0
      else if family = AF_INET \<or> family = AF_INET6 then
        (if bad_socktype [SOCK_STREAM, SOCK_DGRAM, SOCK_RAW] socktype then EAI_SOCKTYPE else 0)
      else if family = AF_LOCAL then
        (if bad_socktype [SOCK_STREAM, SOCK_DGRAM] socktype then EAI_SOCKTYPE else 0)
      else EAI_FAMILY)"

text \<open>The strings and families to look up; \<^verbatim>\<open>err_quit\<close> when there are none.\<close>

datatype ga_fault = Nsearch nat | Null_name

definition per_family :: "string \<Rightarrow> string \<Rightarrow> int \<Rightarrow> (string \<times> int) list" where
  "per_family host6 host4 family =
     (if family = AF_INET then [(host4, AF_INET)]
      else if family = AF_INET6 then [(host6, AF_INET6)]
      else if family = AF_UNSPEC then [(host6, AF_INET6), (host4, AF_INET)]
      else [])"

definition ga_nsearch :: "string option \<Rightarrow> addrinfo \<Rightarrow> ga_fault + (string \<times> int) list" where
  "ga_nsearch hostname hints =
     (let search =
        (if empty_arg hostname then
           (if ai_flags hints AND AI_PASSIVE \<noteq> 0 then per_family ''0::0'' ''0.0.0.0'' (ai_family hints)
            else per_family ''0::1'' ''localhost'' (ai_family hints))
         else per_family (the hostname) (the hostname) (ai_family hints))
      in if length search < 1 \<or> length search > 2 then Inl (Nsearch (length search)) else Inr search)"

section \<open>Building the list\<close>

text \<open>An address in binary form, or a path.\<close>

datatype ga_addr = Ga_bytes "byte list" | Ga_path string

abbreviation (input) SUN_PATH :: nat where "SUN_PATH \<equiv> 108"

text \<open>A new structure at the end of the list.\<close>

definition ga_aistruct :: "addrinfo \<Rightarrow> ga_addr \<Rightarrow> int \<Rightarrow> addrinfo list \<Rightarrow> gai \<Rightarrow> int \<times> addrinfo list \<times> gai" where
  "ga_aistruct hints addr family ais g =
     (case calloc g of
        None \<Rightarrow> (EAI_MEMORY, ais, g)
      | Some g \<Rightarrow>
          let ai = host_node hints family in
          (case addr of
             Ga_bytes bs \<Rightarrow>
               if family = AF_INET \<or> family = AF_INET6 then
                 case calloc g of
                   None \<Rightarrow> (EAI_MEMORY, ais @ [ai], g)
                 | Some g \<Rightarrow> (0, ais @ [host_addr bs ai], g)
               else (0, ais @ [ai], g)
           | Ga_path path \<Rightarrow>
               if length path \<ge> SUN_PATH then (EAI_SERVICE, ais @ [ai], g)
               else case calloc g of
                   None \<Rightarrow> (EAI_MEMORY, ais @ [ai], g)
                 | Some g \<Rightarrow>
                     (0, ais @ [ai\<lparr>ai_addr := Some (Sun path), ai_addrlen := 110\<rparr>],
                      if ai_flags hints AND AI_PASSIVE \<noteq> 0 then g\<lparr>unlinked := path # unlinked g\<rparr> else g)))"

fun ga_addrs :: "addrinfo \<Rightarrow> int \<Rightarrow> byte list list \<Rightarrow> addrinfo list \<Rightarrow> gai \<Rightarrow> int \<times> addrinfo list \<times> gai" where
  "ga_addrs hints addrtype [] ais g = (0, ais, g)"
| "ga_addrs hints addrtype (ap # aps) ais g =
     (case ga_aistruct hints (Ga_bytes ap) addrtype ais g of
        (rc, ais, g) \<Rightarrow> if rc \<noteq> 0 then (rc, ais, g) else ga_addrs hints addrtype aps ais g)"

definition ga_clone :: "addrinfo \<Rightarrow> gai \<Rightarrow> bool \<times> addrinfo list \<times> gai" where
  "ga_clone ai g =
     (case calloc g of
        None \<Rightarrow> (False, [], g)
      | Some g \<Rightarrow>
          let new = ai_zero\<lparr>ai_flags := 0, ai_family := ai_family ai, ai_socktype := ai_socktype ai,
                ai_protocol := ai_protocol ai, ai_canonname := None, ai_addrlen := ai_addrlen ai\<rparr>
          in case calloc g of
               None \<Rightarrow> (False, [new], g)
             | Some g \<Rightarrow>
                 (True, [new\<lparr>ai_addr := Some (case ai_addr ai of Some sa \<Rightarrow> sa | None \<Rightarrow> Sempty)\<rparr>], g))"

text \<open>The loop of \<^verbatim>\<open>ga_port\<close>, with the count so far and the structures it has passed; \<open>-1\<close> when memory ran
  out.  After a clone the loop goes on behind it.\<close>

fun ga_port_loop :: "16 word \<Rightarrow> int \<Rightarrow> addrinfo list \<Rightarrow> int \<Rightarrow> addrinfo list \<Rightarrow> gai \<Rightarrow> int \<times> addrinfo list \<times> gai" where
  "ga_port_loop port socktype [] nfound passed g = (nfound, passed, g)"
| "ga_port_loop port socktype (ai # ais) nfound passed g =
     (if ai_flags ai AND AI_CLONE \<noteq> 0 then
        (if ai_socktype ai \<noteq> 0 then
           (case ga_clone ai g of
              (ok, new, g) \<Rightarrow>
                if \<not> ok then (- 1, passed @ ai # new @ ais, g)
                else case set_port port socktype (hd new) of
                       (k, new) \<Rightarrow> ga_port_loop port socktype ais (nfound + k) (passed @ [ai, new]) g)
         else case set_port port socktype ai of
                (k, ai) \<Rightarrow> ga_port_loop port socktype ais (nfound + k) (passed @ [ai]) g)
      else if ai_socktype ai \<noteq> socktype then ga_port_loop port socktype ais nfound (passed @ [ai]) g
      else case set_port port socktype ai of
             (k, ai) \<Rightarrow> ga_port_loop port socktype ais (nfound + k) (passed @ [ai]) g)"

definition ga_port :: "addrinfo list \<Rightarrow> 16 word \<Rightarrow> int \<Rightarrow> gai \<Rightarrow> int \<times> addrinfo list \<times> gai" where
  "ga_port aihead port socktype g = ga_port_loop port socktype aihead 0 [] g"

text \<open>The calls of \<^verbatim>\<open>ga_port\<close> for a list of ports and socket types, as \<^verbatim>\<open>ga_serv\<close> makes them: the number of
  structures found, or a negative number.\<close>

fun ga_ports :: "(16 word \<times> int) list \<Rightarrow> int \<Rightarrow> addrinfo list \<Rightarrow> gai \<Rightarrow> int \<times> addrinfo list \<times> gai" where
  "ga_ports [] nfound ais g = (nfound, ais, g)"
| "ga_ports ((port, socktype) # ps) nfound ais g =
     (case ga_port ais port socktype g of
        (rc, ais, g) \<Rightarrow> if rc < 0 then (- 1, ais, g) else ga_ports ps (nfound + rc) ais g)"

definition named_ports :: "servdb \<Rightarrow> string \<Rightarrow> int \<Rightarrow> (16 word \<times> int) list" where
  "named_ports getservbyname serv socktype =
     (if socktype = 0 \<or> socktype = SOCK_STREAM then
        (case getservbyname serv ''tcp'' of Some p \<Rightarrow> [(p, SOCK_STREAM)] | None \<Rightarrow> []) else []) @
     (if socktype = 0 \<or> socktype = SOCK_DGRAM then
        (case getservbyname serv ''udp'' of Some p \<Rightarrow> [(p, SOCK_DGRAM)] | None \<Rightarrow> []) else [])"

definition serv_ports :: "servdb \<Rightarrow> string \<Rightarrow> int \<Rightarrow> (16 word \<times> int) list" where
  "serv_ports getservbyname serv socktype =
     (if isdigit (hd serv) then
        let port = htons (word_of_int (atol (serv @ [NUL]))) in
        (if socktype \<noteq> 0 then [(port, socktype)] else [(port, SOCK_STREAM), (port, SOCK_DGRAM)])
      else named_ports getservbyname serv socktype)"

definition ga_serv :: "servdb \<Rightarrow> addrinfo list \<Rightarrow> addrinfo \<Rightarrow> string \<Rightarrow> gai \<Rightarrow> int \<times> addrinfo list \<times> gai" where
  "ga_serv getservbyname ais hints serv g =
     (case ga_ports (serv_ports getservbyname serv (ai_socktype hints)) 0 ais g of
        (nfound, ais, g) \<Rightarrow>
          if nfound < 0 then (EAI_MEMORY, ais, g)
          else if nfound = 0 then (if ai_socktype hints = 0 then EAI_NONAME else EAI_SERVICE, ais, g)
          else (0, ais, g))"

text \<open>Unix domain; an error leaves the structures allocated.\<close>

definition ga_unix :: "string option \<Rightarrow> string \<Rightarrow> addrinfo \<Rightarrow> gai \<Rightarrow> int \<times> addrinfo list option \<times> gai" where
  "ga_unix nodename path hints g =
     (if ai_family hints \<noteq> AF_UNSPEC \<and> ai_family hints \<noteq> AF_LOCAL then (EAI_ADDRFAMILY, None, g)
      else case (if ai_socktype hints = 0 then
                   case ga_aistruct (hints\<lparr>ai_socktype := SOCK_STREAM\<rparr>) (Ga_path path) AF_LOCAL [] g of
                     (rc, ais, g) \<Rightarrow> (rc, hints\<lparr>ai_socktype := SOCK_DGRAM\<rparr>, ais, g)
                 else (0, hints, [], g)) of
             (rc, hints, ais, g) \<Rightarrow>
               if rc \<noteq> 0 then (rc, None, g)
               else case ga_aistruct hints (Ga_path path) AF_LOCAL ais g of
                      (rc, ais, g) \<Rightarrow>
                        if rc \<noteq> 0 then (rc, None, g)
                        else if ai_flags hints AND AI_CANONNAME \<noteq> 0 then
                          (case nodename of
                             None \<Rightarrow> (EAI_SYSTEM, None, g)
                           | Some n \<Rightarrow>
                               (case calloc g of
                                  None \<Rightarrow> (EAI_MEMORY, None, g)
                                | Some g \<Rightarrow> (0, Some ((hd ais)\<lparr>ai_canonname := Some n\<rparr> # tl ais), g)))
                        else (0, Some ais, g))"

section \<open>The whole function\<close>

text \<open>One pass of the loop over the searches.  The state is the list, the canonical name and the heap;
  an error ends the loop with the list that is to be released.\<close>

type_synonym ga_state = "addrinfo list \<times> string option \<times> gai"

datatype ga_pass = Ga_error int ga_state | Ga_next ga_state | Ga_fault ga_fault

definition ga_numeric :: "addrinfo \<Rightarrow> int \<Rightarrow> int \<Rightarrow> byte list \<Rightarrow> ga_state \<Rightarrow> ga_pass" where
  "ga_numeric hints af family bs st =
     (case st of (ais, canon, g) \<Rightarrow>
        if ai_family hints \<noteq> AF_UNSPEC \<and> ai_family hints \<noteq> af then Ga_error EAI_ADDRFAMILY st
        else if family \<noteq> af then Ga_next st
        else case ga_aistruct hints (Ga_bytes bs) af ais g of
               (rc, ais, g) \<Rightarrow> if rc \<noteq> 0 then Ga_error rc (ais, canon, g) else Ga_next (ais, canon, g))"

definition ga_lookup :: "hostdb \<Rightarrow> (string \<Rightarrow> int \<Rightarrow> int + hostent) \<Rightarrow> nat \<Rightarrow> string \<Rightarrow> int \<Rightarrow> gai \<Rightarrow> (int + hostent) \<times> gai" where
  "ga_lookup gethostbyname gethostbyname2 nsearch host family g =
     (if nsearch = 2 then (gethostbyname2 host family, g\<lparr>use_inet6 := False\<rparr>)
      else let g = g\<lparr>use_inet6 := (family = AF_INET6)\<rparr> in (gethostbyname (use_inet6 g) host, g))"

text \<open>With the entry of the host: the family, the canonical name, and the addresses.\<close>

definition ga_entry :: "string option \<Rightarrow> addrinfo \<Rightarrow> hostent \<Rightarrow> ga_state \<Rightarrow> ga_pass" where
  "ga_entry hostname hints h st =
     (case st of (ais, canon, g) \<Rightarrow>
        if ai_family hints \<noteq> AF_UNSPEC \<and> ai_family hints \<noteq> h_addrtype h then Ga_error EAI_ADDRFAMILY st
        else
          let addrs = (\<lambda>canon g. case ga_addrs hints (h_addrtype h) (h_addr_list h) ais g of
                         (rc, ais, g) \<Rightarrow> if rc \<noteq> 0 then Ga_error rc (ais, canon, g) else Ga_next (ais, canon, g))
          in if \<not> empty_arg hostname \<and> ai_flags hints AND AI_CANONNAME \<noteq> 0 \<and> canon = None then
               (case h_name h of
                  None \<Rightarrow> Ga_fault Null_name
                | Some n \<Rightarrow> (case calloc g of None \<Rightarrow> Ga_error EAI_MEMORY st | Some g \<Rightarrow> addrs (Some n) g))
             else addrs canon g)"

definition ga_pass :: "hostdb \<Rightarrow> (string \<Rightarrow> int \<Rightarrow> int + hostent) \<Rightarrow> nat \<Rightarrow> string option \<Rightarrow> addrinfo \<Rightarrow> string \<times> int \<Rightarrow> ga_state \<Rightarrow> ga_pass" where
  "ga_pass gethostbyname gethostbyname2 nsearch hostname hints sptr st =
     (case sptr of (host, family) \<Rightarrow>
      let by_name = (\<lambda>_. case st of (ais, canon, g) \<Rightarrow>
            (case ga_lookup gethostbyname gethostbyname2 nsearch host family g of
               (Inl h_errno, g) \<Rightarrow> if nsearch = 2 then Ga_next (ais, canon, g) else Ga_error (h_error h_errno) (ais, canon, g)
             | (Inr h, g) \<Rightarrow> ga_entry hostname hints h (ais, canon, g)));
          try6 = (\<lambda>_. if (isxdigit (hd host) \<or> hd host = CHR '':'') \<and> CHR '':'' \<in> set host then
                   case inet_pton AF_INET6 host of Accept bs \<Rightarrow> ga_numeric hints AF_INET6 family bs st | _ \<Rightarrow> by_name ()
                 else by_name ())
      in if isdigit (hd host) then
           case inet_pton AF_INET host of Accept bs \<Rightarrow> ga_numeric hints AF_INET family bs st | _ \<Rightarrow> try6 ()
         else try6 ())"

fun ga_passes :: "(string \<times> int \<Rightarrow> ga_state \<Rightarrow> ga_pass) \<Rightarrow> (string \<times> int) list \<Rightarrow> ga_state \<Rightarrow> ga_pass" where
  "ga_passes pass [] st = Ga_next st"
| "ga_passes pass (s # ss) st = (case pass s st of Ga_next st \<Rightarrow> ga_passes pass ss st | r \<Rightarrow> r)"

text \<open>The label \<^verbatim>\<open>bad\<close> releases the list and not the canonical name.\<close>

definition ga_bad :: "int \<Rightarrow> addrinfo list \<Rightarrow> gai \<Rightarrow> ga_fault + (int \<times> addrinfo list option \<times> gai)" where
  "ga_bad error aihead g = Inr (error, None, freeaddrinfo aihead g)"

definition ga_finish :: "servdb \<Rightarrow> string option \<Rightarrow> string option \<Rightarrow> addrinfo \<Rightarrow> string \<Rightarrow> ga_state \<Rightarrow>
    ga_fault + (int \<times> addrinfo list option \<times> gai)" where
  "ga_finish getservbyname hostname servname hints host0 st =
     (case st of (ais, canon, g) \<Rightarrow>
      let serv = (\<lambda>ais g.
            if \<not> empty_arg servname then
              (case ga_serv getservbyname ais hints (the servname) g of
                 (rc, ais, g) \<Rightarrow> if rc \<noteq> 0 then ga_bad rc ais g else Inr (0, Some ais, g))
            else Inr (0, Some ais, g))
      in if ais = [] then ga_bad EAI_NONAME [] g
         else if \<not> empty_arg hostname \<and> ai_flags hints AND AI_CANONNAME \<noteq> 0 then
           (case canon of
              Some n \<Rightarrow> serv ((hd ais)\<lparr>ai_canonname := Some n\<rparr> # tl ais) g
            | None \<Rightarrow>
                (case calloc g of
                   None \<Rightarrow> ga_bad EAI_MEMORY ais g
                 | Some g \<Rightarrow> serv ((hd ais)\<lparr>ai_canonname := Some host0\<rparr> # tl ais) g))
         else serv ais g)"

definition ga_getaddrinfo :: "hostdb \<Rightarrow> (string \<Rightarrow> int \<Rightarrow> int + hostent) \<Rightarrow> servdb \<Rightarrow> string option \<Rightarrow> string option \<Rightarrow> string option \<Rightarrow>
    addrinfo option \<Rightarrow> gai \<Rightarrow> ga_fault + (int \<times> addrinfo list option \<times> gai)" where
  "ga_getaddrinfo gethostbyname gethostbyname2 getservbyname nodename hostname servname hintsp g =
     (let hints = (case hintsp of None \<Rightarrow> ai_zero | Some h \<Rightarrow> h);
          rc = ga_echeck hostname servname (ai_flags hints) (ai_family hints) (ai_socktype hints) (ai_protocol hints)
      in if rc \<noteq> 0 then ga_bad rc [] g
         else if (hostname = Some ''/local'' \<or> hostname = Some ''/unix'') \<and> servname \<noteq> None \<and> take 1 (the servname) = ''/''
         then Inr (ga_unix nodename (the servname) hints g)
         else andthen (ga_nsearch hostname hints) (\<lambda>search.
           case ga_passes (ga_pass gethostbyname gethostbyname2 (length search) hostname hints) search ([], None, g) of
             Ga_fault f \<Rightarrow> Inl f
           | Ga_error e (ais, canon, g) \<Rightarrow> ga_bad e ais g
           | Ga_next st \<Rightarrow> ga_finish getservbyname hostname servname hints (fst (hd search)) st))"

section \<open>Addresses to names\<close>

abbreviation (input) NI_NOFQDN :: "32 word" where "NI_NOFQDN \<equiv> 1"
abbreviation (input) NI_NUMERICHOST :: "32 word" where "NI_NUMERICHOST \<equiv> 2"
abbreviation (input) NI_NAMEREQD :: "32 word" where "NI_NAMEREQD \<equiv> 4"
abbreviation (input) NI_NUMERICSERV :: "32 word" where "NI_NUMERICSERV \<equiv> 8"
abbreviation (input) NI_DGRAM :: "32 word" where "NI_DGRAM \<equiv> 16"

text \<open>\<^verbatim>\<open>snprintf\<close> with \<^verbatim>\<open>%s\<close> into a buffer of \<open>n\<close> bytes, \<open>n > 0\<close>.  The first component of the results is the
  return value; \<open>None\<close> as a whole stands for a write past a buffer in \<^verbatim>\<open>inet_ntop\<close>.\<close>

definition snprintf_s :: "nat \<Rightarrow> string \<Rightarrow> string" where
  "snprintf_s n s = take (n - 1) s"

definition gn_host :: "(byte list \<Rightarrow> int \<Rightarrow> hostent option) \<Rightarrow> nat \<Rightarrow> byte list \<Rightarrow> int \<Rightarrow> 32 word \<Rightarrow> (int \<times> string option) option" where
  "gn_host gethostbyaddr hostlen aptr family flags =
     (let numeric = (\<lambda>_. case inet_ntop family aptr hostlen of
            Dst s \<Rightarrow> Some (0, Some s) | Smash \<Rightarrow> None | _ \<Rightarrow> Some (1, None))
      in if hostlen = 0 then Some (0, None)
         else if flags AND NI_NUMERICHOST \<noteq> 0 then numeric ()
         else case Option.bind (gethostbyaddr aptr family) h_name of
                Some n \<Rightarrow> Some (0, Some (snprintf_s hostlen (if flags AND NI_NOFQDN \<noteq> 0 then takeWhile (\<lambda>c. c \<noteq> CHR ''.'') n else n)))
              | None \<Rightarrow> if flags AND NI_NAMEREQD \<noteq> 0 then Some (1, None) else numeric ())"

definition gn_serv :: "(16 word \<Rightarrow> string option \<Rightarrow> string option) \<Rightarrow> nat \<Rightarrow> 16 word \<Rightarrow> 32 word \<Rightarrow> string option" where
  "gn_serv getservbyport servlen port flags =
     (if servlen = 0 then None
      else if flags AND NI_NUMERICSERV \<noteq> 0 then Some (snprintf_s servlen (dec (unat (ntohs port))))
      else case getservbyport port (if flags AND NI_DGRAM \<noteq> 0 then Some ''udp'' else None) of
             Some n \<Rightarrow> Some (snprintf_s servlen n)
           | None \<Rightarrow> Some (snprintf_s servlen (dec (unat (ntohs port)))))"

definition gn_ipv46 :: "(byte list \<Rightarrow> int \<Rightarrow> hostent option) \<Rightarrow> (16 word \<Rightarrow> string option \<Rightarrow> string option) \<Rightarrow> nat \<Rightarrow> nat \<Rightarrow>
    byte list \<Rightarrow> int \<Rightarrow> 16 word \<Rightarrow> 32 word \<Rightarrow> (int \<times> string option \<times> string option) option" where
  "gn_ipv46 gethostbyaddr getservbyport hostlen servlen aptr family port flags =
     (case gn_host gethostbyaddr hostlen aptr family flags of
        None \<Rightarrow> None
      | Some (rc, host) \<Rightarrow>
          if rc \<noteq> 0 then Some (rc, host, None) else Some (0, host, gn_serv getservbyport servlen port flags))"

definition ga_getnameinfo :: "(byte list \<Rightarrow> int \<Rightarrow> hostent option) \<Rightarrow> (16 word \<Rightarrow> string option \<Rightarrow> string option) \<Rightarrow> sockaddr \<Rightarrow>
    nat \<Rightarrow> nat \<Rightarrow> 32 word \<Rightarrow> (int \<times> string option \<times> string option) option" where
  "ga_getnameinfo gethostbyaddr getservbyport sa hostlen servlen flags =
     (case sa of
        Sin port a \<Rightarrow> gn_ipv46 gethostbyaddr getservbyport hostlen servlen a AF_INET port flags
      | Sin6 port a \<Rightarrow> gn_ipv46 gethostbyaddr getservbyport hostlen servlen a AF_INET6 port flags
      | Sun path \<Rightarrow> Some (0, if hostlen > 0 then Some (snprintf_s hostlen ''/local'') else None,
                          if servlen > 0 then Some (snprintf_s servlen path) else None)
      | Sempty \<Rightarrow> Some (1, None, None))"

definition gai_strerror :: "int \<Rightarrow> string" where
  "gai_strerror err =
     (if err = EAI_ADDRFAMILY then ''address family for host not supported''
      else if err = EAI_AGAIN then ''temporary failure in name resolution''
      else if err = EAI_BADFLAGS then ''invalid flags value''
      else if err = EAI_FAIL then ''non-recoverable failure in name resolution''
      else if err = EAI_FAMILY then ''address family not supported''
      else if err = EAI_MEMORY then ''memory allocation failure''
      else if err = EAI_NODATA then ''no address associated with host''
      else if err = EAI_NONAME then ''host nor service provided, or not known''
      else if err = EAI_SERVICE then ''service not supported for socket type''
      else if err = EAI_SOCKTYPE then ''socket type not supported''
      else if err = EAI_SYSTEM then ''system error''
      else ''unknown getaddrinfo() error'')"

end
