(* ===== verification/Libgai_Props.thy ===== *)
theory Libgai_Props
  imports Libgai_Model
begin

text \<open>
  Properties of \<^verbatim>\<open>unpv13e/libgai\<close>: its ports agree with the other implementation, what memory is
  released, which entries a lookup gives and in which order, and that numeric names are read back.
\<close>

section \<open>The same ports as the other implementation\<close>

lemma ga_clone_eq: "ga_clone = getaddrinfo_clone"
  by (intro ext) (simp add: ga_clone_def getaddrinfo_clone_def ai_zero_def Let_def split: option.split)

lemma set_port_count: "set_port port st ai = (k, ai') \<Longrightarrow> 0 \<le> k"
  by (auto simp: set_port_def Let_def split: if_splits)

lemma port_negative: "getaddrinfo_port ais port st g = (n, r) \<Longrightarrow> n < 0 \<Longrightarrow> n = - 1"
proof (induction ais arbitrary: n r g)
  case (Cons ai ais)
  then show ?case
    by (auto simp: Let_def dest: set_port_count split: if_splits prod.splits)
qed simp

lemma ga_port_loop_eq:
  "ga_port_loop port st ais n passed g =
     (case getaddrinfo_port ais port st g of (m, ais', g') \<Rightarrow> (if m < 0 then - 1 else n + m, passed @ ais', g'))"
proof (induction ais arbitrary: n passed g st)
  case (Cons ai ais)
  obtain ok new g1 where c: "getaddrinfo_clone ai g = (ok, new, g1)" by (metis prod_cases3)
  obtain k a where a: "set_port port st (hd new) = (k, a)" by fastforce
  obtain k' a' where a': "set_port port st ai = (k', a')" by fastforce
  obtain m r g2 where r: "getaddrinfo_port ais port st g1 = (m, r, g2)" by (metis prod_cases3)
  obtain m' r' g2' where r': "getaddrinfo_port ais port st g = (m', r', g2')" by (metis prod_cases3)
  note k = set_port_count [OF a] set_port_count [OF a']
  show ?case
    by (cases "ai_flags ai AND AI_CLONE = 0"; cases "ai_socktype ai = 0"; cases ok)
       (use k c a a' r r' in \<open>auto simp: ga_clone_eq Cons.IH\<close>)
qed simp

lemma ga_port_eq: "ga_port = getaddrinfo_port"
proof (intro ext)
  fix ais port st g
  obtain m ais' g' where "getaddrinfo_port ais port st g = (m, ais', g')" by (metis prod_cases3)
  then show "ga_port ais port st g = getaddrinfo_port ais port st g"
    using port_negative by (auto simp: ga_port_def ga_port_loop_eq)
qed

section \<open>Memory\<close>

lemma ga_aistruct_live:
  "ga_aistruct hints addr fam ais g = (rc, ais', g') \<Longrightarrow> live g' + cost ais = live g + cost ais'"
  "ga_aistruct hints addr fam ais g = (rc, ais', g') \<Longrightarrow> \<forall>ai \<in> set ais. ai_canonname ai = None \<Longrightarrow> \<forall>ai \<in> set ais'. ai_canonname ai = None"
  by (auto simp: ga_aistruct_def Let_def node_cost_def host_node_def host_addr_def ai_zero_def elim!: callocE
      split: option.splits ga_addr.splits if_splits)

lemma ga_addrs_live:
  "ga_addrs hints fam aps ais g = (rc, ais', g') \<Longrightarrow> \<forall>ai \<in> set ais. ai_canonname ai = None \<Longrightarrow>
     live g' + cost ais = live g + cost ais' \<and> (\<forall>ai \<in> set ais'. ai_canonname ai = None)"
proof (induction aps arbitrary: ais g)
  case (Cons ap aps)
  obtain rc1 a1 g1 where a: "ga_aistruct hints (Ga_bytes ap) fam ais g = (rc1, a1, g1)" by (metis prod_cases3)
  show ?case using Cons.prems Cons.IH [of a1 g1] a ga_aistruct_live [OF a] by (fastforce split: if_splits)
qed simp

lemma ga_ports_live: "ga_ports ps n ais g = (rc, ais', g') \<Longrightarrow> live g' + cost ais = live g + cost ais'"
proof (induction ps arbitrary: n ais g)
  case (Cons p ps)
  obtain m a1 g1 where "getaddrinfo_port ais (fst p) (snd p) g = (m, a1, g1)" by (metis prod_cases3)
  then show ?case using Cons.prems Cons.IH [of "n + m" a1 g1] port_live [of ais "fst p" "snd p" g m a1 g1]
    by (cases p) (auto simp: ga_port_eq split: if_splits)
qed simp

lemma ga_serv_live: "ga_serv sdb ais hints serv g = (rc, ais', g') \<Longrightarrow> live g' + cost ais = live g + cost ais'"
  by (auto simp: ga_serv_def Let_def dest: ga_ports_live split: prod.splits if_splits)

text \<open>What the state of the loop owns: the blocks of the list and of the canonical name.\<close>

definition owns :: "nat \<Rightarrow> bool \<Rightarrow> ga_state \<Rightarrow> bool" where
  "owns l w st \<longleftrightarrow> (case st of (ais, canon, g) \<Rightarrow>
     live g = l + cost ais + (if canon = None then 0 else 1) \<and> (\<forall>ai \<in> set ais. ai_canonname ai = None) \<and> (canon \<noteq> None \<longrightarrow> w))"

definition pass_owns :: "nat \<Rightarrow> bool \<Rightarrow> ga_pass \<Rightarrow> bool" where
  "pass_owns l w r \<longleftrightarrow> (case r of Ga_error e st \<Rightarrow> e \<noteq> 0 \<and> owns l w st | Ga_next st \<Rightarrow> owns l w st | Ga_fault f \<Rightarrow> f = Null_name)"

lemma pass_owns_simps [simp]:
  "pass_owns l w (Ga_error e st) = (e \<noteq> 0 \<and> owns l w st)" "pass_owns l w (Ga_next st) = owns l w st" "pass_owns l w (Ga_fault f) = (f = Null_name)"
  by (simp_all add: pass_owns_def)

lemma ga_numeric_owns: "owns l w st \<Longrightarrow> pass_owns l w (ga_numeric hints af fam bs st)"
  by (auto simp: ga_numeric_def owns_def dest: ga_aistruct_live split: prod.split)

definition wants_canon :: "string option \<Rightarrow> addrinfo \<Rightarrow> bool" where
  "wants_canon hostname hints \<longleftrightarrow> \<not> empty_arg hostname \<and> ai_flags hints AND AI_CANONNAME \<noteq> 0"

lemma ga_entry_owns:
  assumes "owns l (wants_canon hostname hints) st" shows "pass_owns l (wants_canon hostname hints) (ga_entry hostname hints h st)"
proof -
  obtain ais canon g where st: "st = (ais, canon, g)" by (metis prod_cases3)
  have "pass_owns l w (case ga_addrs hints (h_addrtype h) (h_addr_list h) ais g1 of
      (rc, ais, g) \<Rightarrow> if rc \<noteq> 0 then Ga_error rc (ais, c, g) else Ga_next (ais, c, g))" if "owns l w (ais, c, g1)" for w c g1
    using that ga_addrs_live [of hints _ _ ais g1] by (auto simp: owns_def split: prod.split)
  then show ?thesis using assms st by (auto simp: ga_entry_def Let_def owns_def wants_canon_def elim!: callocE split: option.split)
qed

lemma owns_g: "owns l w (ais, canon, g) \<Longrightarrow> live g' = live g \<Longrightarrow> owns l w (ais, canon, g')"
  by (simp add: owns_def)

lemma h_error_nonzero: "h_error e \<noteq> 0"
  by (simp add: h_error_def)

lemma ga_pass_owns:
  assumes "owns l (wants_canon hostname hints) st" shows "pass_owns l (wants_canon hostname hints) (ga_pass hdb hdb2 n hostname hints sptr st)"
proof -
  obtain ais canon g where st: "st = (ais, canon, g)" by (metis prod_cases3)
  obtain host family where sp: "sptr = (host, family)" by fastforce
  obtain r g1 where r: "ga_lookup hdb hdb2 n host family g = (r, g1)" by fastforce
  have o: "owns l (wants_canon hostname hints) (ais, canon, g1)" using assms st r by (auto simp: ga_lookup_def Let_def owns_def split: if_splits)
  let ?named = "case ga_lookup hdb hdb2 n host family g of
      (Inl h_errno, g) \<Rightarrow> if n = 2 then Ga_next (ais, canon, g) else Ga_error (h_error h_errno) (ais, canon, g)
    | (Inr h, g) \<Rightarrow> ga_entry hostname hints h (ais, canon, g)"
  have "pass_owns l (wants_canon hostname hints) ?named" using o r ga_entry_owns [OF o] by (auto simp: h_error_nonzero split: sum.split)
  then show ?thesis using ga_numeric_owns [OF assms] st sp by (simp add: ga_pass_def Let_def split: conv.split)
qed

lemma ga_passes_owns:
  assumes "\<And>s st. owns l w st \<Longrightarrow> pass_owns l w (f s st)"
  shows "owns l w st \<Longrightarrow> pass_owns l w (ga_passes f ss st)"
proof (induction ss arbitrary: st)
  case (Cons s ss)
  then show ?case using assms [OF Cons.prems, of s] by (auto split: ga_pass.split)
qed simp

lemma released: "live g = l + cost ais + k \<Longrightarrow> live (freeaddrinfo ais g) = l + k"
  using freeaddrinfo_live [of ais g] by simp

lemma cost_canon:
  assumes "ais \<noteq> []" "\<forall>ai \<in> set ais. ai_canonname ai = None"
  shows "cost ((hd ais)\<lparr>ai_canonname := Some n\<rparr> # tl ais) = Suc (cost ais)"
  using assms by (cases ais) (auto simp: node_cost_def)

text \<open>What a return leaves allocated: the list on success, and on failure nothing or, when
  \<open>lost\<close>, the canonical name.\<close>

definition leaves :: "nat \<Rightarrow> bool \<Rightarrow> int \<times> addrinfo list option \<times> gai \<Rightarrow> bool" where
  "leaves l lost r \<longleftrightarrow> (case r of (e, res, g) \<Rightarrow>
     (case res of Some ais \<Rightarrow> e = 0 \<and> live g = l + cost ais
      | None \<Rightarrow> e \<noteq> 0 \<and> live g = l + (if lost then 1 else 0)))"

lemma ga_finish_live:
  assumes "owns l (wants_canon hostname hints) (ais, canon, g)"
  shows "yields (leaves l (canon \<noteq> None \<and> ais = [])) (\<lambda>_. False) (ga_finish sdb hostname servname hints host0 (ais, canon, g))"
proof -
  have s: "yields (leaves l False) (\<lambda>_. False)
      (if \<not> empty_arg servname then
         case ga_serv sdb as hints (the servname) g1 of
           (rc, ais, g) \<Rightarrow> if rc \<noteq> 0 then ga_bad rc ais g else Inr (0, Some ais, g)
       else Inr (0, Some as, g1))" if "live g1 = l + cost as" for as g1
  proof -
    obtain rc as' g' where r: "ga_serv sdb as hints (the servname) g1 = (rc, as', g')" by (metis prod_cases3)
    have "live g' = l + cost as'" using ga_serv_live [OF r] that by simp
    then show ?thesis using that r released [of g' l as' 0] by (auto simp: leaves_def ga_bad_def)
  qed
  show ?thesis
  proof (cases "ais = []")
    case True
    then show ?thesis using assms by (simp add: ga_finish_def ga_bad_def leaves_def owns_def)
  next
    case False
    note c = cost_canon [OF False]
    have "live g = l + cost ais + (if canon = None then 0 else 1)" "\<forall>ai \<in> set ais. ai_canonname ai = None"
      using assms by (simp_all add: owns_def)
    then show ?thesis
      using False s assms c released [of g l ais 0]
      by (auto simp: owns_def wants_canon_def ga_finish_def Let_def leaves_def ga_bad_def elim!: callocE split: option.split)
  qed
qed

text \<open>What a return leaves when it is not known whether the canonical name was lost.\<close>

definition leaves_some :: "nat \<Rightarrow> bool \<Rightarrow> int \<times> addrinfo list option \<times> gai \<Rightarrow> bool" where
  "leaves_some l w r \<longleftrightarrow> leaves l False r \<or> w \<and> leaves l True r"

lemma leaves_some_of: "leaves l b r \<Longrightarrow> (b \<Longrightarrow> w) \<Longrightarrow> leaves_some l w r"
  by (cases b) (auto simp: leaves_some_def)

lemma after_search:
  "yields (leaves_some (live g) (wants_canon hostname hints)) (\<lambda>f. f = Null_name)
     (case ga_passes (ga_pass hdb hdb2 n hostname hints) search ([], None, g) of
        Ga_fault f \<Rightarrow> Inl f | Ga_error e (ais, canon, g) \<Rightarrow> ga_bad e ais g
      | Ga_next st \<Rightarrow> ga_finish sdb hostname servname hints host0 st)"
proof -
  let ?w = "wants_canon hostname hints" and ?r = "ga_passes (ga_pass hdb hdb2 n hostname hints) search ([], None, g)"
  have "owns (live g) ?w ([], None, g)" by (simp add: owns_def)
  then have o: "pass_owns (live g) ?w ?r" using ga_passes_owns [of "live g" ?w "ga_pass hdb hdb2 n hostname hints"] ga_pass_owns by blast
  show ?thesis
  proof (cases ?r)
    case (Ga_error e st)
    then show ?thesis using o released [of "snd (snd st)" "live g" "fst st"]
      by (auto simp: owns_def ga_bad_def leaves_some_def leaves_def split: prod.splits if_splits)
  next
    case (Ga_next st)
    obtain ais canon g1 where st: "st = (ais, canon, g1)" by (metis prod_cases3)
    have ow: "owns (live g) ?w (ais, canon, g1)" using o Ga_next st by simp
    have "yields (leaves_some (live g) ?w) (\<lambda>f. f = Null_name) (ga_finish sdb hostname servname hints host0 (ais, canon, g1))"
      by (rule yields_mono [OF ga_finish_live [OF ow]]) (use ow in \<open>auto intro: leaves_some_of simp: owns_def\<close>)
    then show ?thesis using Ga_next st by simp
  next
    case (Ga_fault f)
    then show ?thesis using o by simp
  qed
qed

lemma nsearch_cases: "ga_nsearch hostname hints = Inl f \<Longrightarrow> f = Nsearch 0"
  by (auto simp: ga_nsearch_def per_family_def Let_def split: if_splits)

text \<open>C33: \<^verbatim>\<open>getaddrinfo\<close> of \<^verbatim>\<open>libgai\<close>, on hosts and services of the Internet families, always returns a
  list with the value 0 or no list with an error, or ends the program because there is nothing to
  search or a host has no name.  After a success the blocks in use are those from before and those
  of the list; after an error those from before and at most one more, the copy of the canonical
  name, and only if the canonical name was asked for.\<close>

theorem libgai_memory:
  assumes "\<not> is_path servname"
  shows "case ga_getaddrinfo hdb hdb2 sdb node hostname servname hintsp g of
      Inl f \<Rightarrow> f = Nsearch 0 \<or> f = Null_name
    | Inr (e, Some ais, g') \<Rightarrow> e = 0 \<and> live g' = live g + cost ais
    | Inr (e, None, g') \<Rightarrow> e \<noteq> 0 \<and> live g \<le> live g' \<and> live g' \<le> live g + 1 \<and>
        (live g' \<noteq> live g \<longrightarrow> wants_canon hostname (case hintsp of None \<Rightarrow> ai_zero | Some h \<Rightarrow> h))"
proof -
  define hints where "hints = (case hintsp of None \<Rightarrow> ai_zero | Some h \<Rightarrow> h)"
  let ?w = "wants_canon hostname hints"
  have "yields (leaves_some (live g) ?w) (\<lambda>f. f = Nsearch 0 \<or> f = Null_name) (ga_getaddrinfo hdb hdb2 sdb node hostname servname hintsp g)"
  proof (cases "ga_nsearch hostname hints")
    case (Inl f)
    then show ?thesis using assms nsearch_cases [OF Inl]
      by (auto simp: ga_getaddrinfo_def Let_def hints_def [symmetric] is_path_def ga_bad_def leaves_some_def leaves_def)
  next
    case (Inr search)
    have "yields (leaves_some (live g) ?w) (\<lambda>f. f = Nsearch 0 \<or> f = Null_name)
        (case ga_passes (ga_pass hdb hdb2 (length search) hostname hints) search ([], None, g) of
           Ga_fault f \<Rightarrow> Inl f | Ga_error e (ais, canon, g) \<Rightarrow> ga_bad e ais g
         | Ga_next st \<Rightarrow> ga_finish sdb hostname servname hints (fst (hd search)) st)"
      by (rule yields_mono [OF after_search]) auto
    then show ?thesis using assms Inr
      by (auto simp: ga_getaddrinfo_def Let_def hints_def [symmetric] is_path_def ga_bad_def leaves_some_def leaves_def)
  qed
  then show ?thesis unfolding hints_def [symmetric]
    by (auto simp: leaves_some_def leaves_def split: sum.split option.splits if_splits)
qed

section \<open>The entries of a lookup\<close>

text \<open>Entries for addresses of both families.\<close>

definition entries :: "32 word \<Rightarrow> int \<Rightarrow> 16 word \<Rightarrow> (int \<times> byte list) list \<Rightarrow> addrinfo list" where
  "entries flags st port as = map (\<lambda>(fam, ap). endpoint fam flags st port ap) as"

definition inet_all :: "(int \<times> byte list) list \<Rightarrow> bool" where
  "inet_all as \<longleftrightarrow> (\<forall>(fam, ap) \<in> set as. inet_family fam)"

lemma ga_aistruct_ok:
  assumes "inet_family fam" "2 \<le> quota g" "ai_protocol hints = 0"
  shows "ga_aistruct hints (Ga_bytes ap) fam ais g =
    (0, ais @ [endpoint fam (if ai_socktype hints = 0 then AI_CLONE else 0) (ai_socktype hints) 0 ap], take_mem 2 g)"
proof -
  have "host_addr ap (host_node hints fam) = endpoint fam (if ai_socktype hints = 0 then AI_CLONE else 0) (ai_socktype hints) 0 ap"
    using assms by (auto simp: host_addr_def host_node_def endpoint_def ai_zero_def)
  moreover have "calloc g = Some (take_mem 1 g)" "calloc (take_mem 1 g) = Some (take_mem 2 g)"
    using assms(2) by (simp_all add: calloc_ok numeral_2_eq_2)
  ultimately show ?thesis using assms(1) by (simp add: ga_aistruct_def Let_def)
qed

lemma ga_addrs_ok:
  assumes "inet_family fam" "ai_protocol hints = 0" "2 * length aps \<le> quota g"
  shows "ga_addrs hints fam aps ais g =
    (0, ais @ entries (if ai_socktype hints = 0 then AI_CLONE else 0) (ai_socktype hints) 0 (map (Pair fam) aps), take_mem (2 * length aps) g)"
  using assms(3)
proof (induction aps arbitrary: ais g)
  case (Cons ap aps)
  have "ga_aistruct hints (Ga_bytes ap) fam ais g =
      (0, ais @ [endpoint fam (if ai_socktype hints = 0 then AI_CLONE else 0) (ai_socktype hints) 0 ap], take_mem 2 g)"
    by (rule ga_aistruct_ok [OF assms(1) _ assms(2)]) (use Cons.prems in simp)
  then show ?case using Cons.IH [where g = "take_mem 2 g"] Cons.prems by (simp add: entries_def)
qed (simp add: entries_def)

lemma ga_port_first:
  assumes "inet_all as" "flags AND AI_CLONE = 0 \<longrightarrow> st' = st" "flags AND AI_CLONE \<noteq> 0 \<longrightarrow> st' = 0"
  shows "ga_port (entries flags st' port' as) port st g = (int (length as), entries flags st port as, g)"
  using assms(1) unfolding ga_port_eq
proof (induction as)
  case (Cons a as)
  then show ?case using assms(2,3) by (cases a) (auto simp: entries_def inet_all_def set_port_endpoint Let_def)
qed (simp add: entries_def)

lemma ga_port_clones:
  assumes "inet_all as" "2 * length as \<le> quota g" "st1 \<noteq> 0"
  shows "ga_port (entries AI_CLONE st1 port1 as) port2 st2 g =
    (int (length as), concat (map (\<lambda>(fam, ap). [endpoint fam AI_CLONE st1 port1 ap, endpoint fam 0 st2 port2 ap]) as),
     take_mem (2 * length as) g)"
  using assms(1,2) unfolding ga_port_eq
proof (induction as arbitrary: g)
  case (Cons a as)
  then show ?case using Cons.IH [of "take_mem 2 g"] assms(3)
    by (cases a) (simp add: entries_def inet_all_def Let_def clone_endpoint set_port_endpoint)
qed (simp add: entries_def)

text \<open>The addresses the resolver has for a host in a family.\<close>

definition addrs_of :: "(string \<Rightarrow> int \<Rightarrow> int + hostent) \<Rightarrow> string \<Rightarrow> int \<Rightarrow> (int \<times> byte list) list" where
  "addrs_of hdb2 host fam = (case hdb2 host fam of Inl e \<Rightarrow> [] | Inr h \<Rightarrow> map (Pair fam) (h_addr_list h))"

lemma ga_pass_name:
  assumes "host_name host" "\<And>h. hdb2 host fam = Inr h \<Longrightarrow> h_addrtype h = fam" "inet_family fam"
    "2 * length (addrs_of hdb2 host fam) \<le> quota g"
  shows "ga_pass hdb hdb2 2 (Some host) ai_zero (host, fam) (ais, canon, g) =
    Ga_next (ais @ entries AI_CLONE 0 0 (addrs_of hdb2 host fam), canon, take_mem (2 * length (addrs_of hdb2 host fam)) (g\<lparr>use_inet6 := False\<rparr>))"
proof -
  have z: "ai_socktype ai_zero = 0" "ai_protocol ai_zero = 0" "ai_flags ai_zero = 0" "ai_family ai_zero = 0" by (simp_all add: ai_zero_def)
  have "ga_pass hdb hdb2 2 (Some host) ai_zero (host, fam) (ais, canon, g) =
      (case hdb2 host fam of Inl e \<Rightarrow> Ga_next (ais, canon, g\<lparr>use_inet6 := False\<rparr>)
       | Inr h \<Rightarrow> ga_entry (Some host) ai_zero h (ais, canon, g\<lparr>use_inet6 := False\<rparr>))"
    using assms(1) unfolding host_name_def by (simp add: ga_pass_def inet_pton_def no_accept ga_lookup_def split: sum.split)
  also have "\<dots> = Ga_next (ais @ entries AI_CLONE 0 0 (addrs_of hdb2 host fam), canon,
      take_mem (2 * length (addrs_of hdb2 host fam)) (g\<lparr>use_inet6 := False\<rparr>))"
  proof (cases "hdb2 host fam")
    case (Inr h)
    then have "ga_addrs ai_zero fam (h_addr_list h) ais (g\<lparr>use_inet6 := False\<rparr>) =
        (0, ais @ entries AI_CLONE 0 0 (map (Pair fam) (h_addr_list h)), take_mem (2 * length (h_addr_list h)) (g\<lparr>use_inet6 := False\<rparr>))"
      using ga_addrs_ok [OF assms(3), of ai_zero "h_addr_list h" "g\<lparr>use_inet6 := False\<rparr>" ais] assms(4) z by (simp add: addrs_of_def)
    then show ?thesis using Inr assms(2) [OF Inr] z by (simp add: ga_entry_def addrs_of_def)
  qed (simp add: addrs_of_def entries_def)
  finally show ?thesis .
qed

lemma take_mem_inet6: "(take_mem n g)\<lparr>use_inet6 := b\<rparr> = take_mem n (g\<lparr>use_inet6 := b\<rparr>)"
  by (simp add: take_mem_def)

lemma entries_append: "entries f st p as @ entries f st p bs = entries f st p (as @ bs)"
  by (simp add: entries_def)

text \<open>Without hints, a service that exists for TCP and UDP on a host with addresses of one or both
  families gives two entries for each address: the IPv6 addresses before the IPv4 addresses, each
  family in the order of the resolver, and for each address first the stream socket with the TCP
  port, then the datagram socket with the UDP port.\<close>

theorem libgai_product:
  fixes hdb2 host
  defines "as \<equiv> addrs_of hdb2 host AF_INET6 @ addrs_of hdb2 host AF_INET"
  assumes "host_name host" "\<And>fam h. hdb2 host fam = Inr h \<Longrightarrow> h_addrtype h = fam" "as \<noteq> []"
    "serv \<noteq> []" "\<not> isdigit (hd serv)" "hd serv \<noteq> CHR ''/''" "sdb serv ''tcp'' = Some pt" "sdb serv ''udp'' = Some pu"
    "4 * length as \<le> quota g"
  shows "ga_getaddrinfo hdb hdb2 sdb node (Some host) (Some serv) None g =
    Inr (0, Some (concat (map (\<lambda>(fam, ap). [endpoint fam AI_CLONE SOCK_STREAM pt ap, endpoint fam 0 SOCK_DGRAM pu ap]) as)),
      take_mem (4 * length as) (g\<lparr>use_inet6 := False\<rparr>))"
proof -
  let ?g = "g\<lparr>use_inet6 := False\<rparr>" and ?n = "length as"
  let ?list = "concat (map (\<lambda>(fam, ap). [endpoint fam AI_CLONE SOCK_STREAM pt ap, endpoint fam 0 SOCK_DGRAM pu ap]) as)"
  have z: "ai_socktype ai_zero = 0" "ai_protocol ai_zero = 0" "ai_flags ai_zero = 0" "ai_family ai_zero = 0" by (simp_all add: ai_zero_def)
  have host: "host \<noteq> []" "host \<noteq> ''/local''" "host \<noteq> ''/unix''" using assms(2) by (auto simp: host_name_def)
  have inet: "inet_all as" by (auto simp: as_def inet_all_def addrs_of_def split: sum.splits)
  have search: "ga_nsearch (Some host) ai_zero = Inr [(host, AF_INET6), (host, AF_INET)]"
    using host by (simp add: ga_nsearch_def per_family_def empty_arg_def z)
  have "ga_passes (ga_pass hdb hdb2 2 (Some host) ai_zero) [(host, AF_INET6), (host, AF_INET)] ([], None, g) =
      Ga_next (entries AI_CLONE 0 0 as, None, take_mem (2 * ?n) ?g)"
    using ga_pass_name [OF assms(2), of hdb2 AF_INET6 g hdb "[]" None] assms(3,10)
      ga_pass_name [OF assms(2), of hdb2 AF_INET "take_mem (2 * length (addrs_of hdb2 host AF_INET6)) ?g" hdb
        "entries AI_CLONE 0 0 (addrs_of hdb2 host AF_INET6)" None]
    by (simp add: as_def entries_append take_mem_inet6)
  moreover have "ga_finish sdb (Some host) (Some serv) ai_zero host (entries AI_CLONE 0 0 as, None, take_mem (2 * ?n) ?g) =
      Inr (0, Some ?list, take_mem (4 * ?n) ?g)"
  proof -
    have "serv_ports sdb serv 0 = [(pt, SOCK_STREAM), (pu, SOCK_DGRAM)]"
      using assms(6,8,9) by (simp add: serv_ports_def named_ports_def)
    moreover have "ga_port (entries AI_CLONE 0 0 as) pt SOCK_STREAM (take_mem (2 * ?n) ?g) =
        (int ?n, entries AI_CLONE SOCK_STREAM pt as, take_mem (2 * ?n) ?g)"
      by (rule ga_port_first [OF inet]) simp_all
    moreover have "ga_port (entries AI_CLONE SOCK_STREAM pt as) pu SOCK_DGRAM (take_mem (2 * ?n) ?g) =
        (int ?n, ?list, take_mem (4 * ?n) ?g)"
      using ga_port_clones [OF inet, of "take_mem (2 * ?n) ?g" SOCK_STREAM pt pu SOCK_DGRAM] assms(10) by simp
    ultimately have "ga_serv sdb (entries AI_CLONE 0 0 as) ai_zero serv (take_mem (2 * ?n) ?g) = (0, ?list, take_mem (4 * ?n) ?g)"
      using assms(4) by (simp add: ga_serv_def z)
    moreover have "entries AI_CLONE 0 0 as \<noteq> []" using assms(4) by (simp add: entries_def)
    ultimately show ?thesis using assms(5) by (simp add: ga_finish_def empty_arg_def z)
  qed
  moreover have "ga_echeck (Some host) (Some serv) 0 0 0 0 = 0" using host by (simp add: ga_echeck_def empty_arg_def)
  ultimately show ?thesis using host search assms(5,7)
    by (simp add: ga_getaddrinfo_def z take1_hd numeral_2_eq_2 del: One_nat_def)
qed

section \<open>Numeric names\<close>

text \<open>The numeric names that \<^verbatim>\<open>getnameinfo\<close> gives for an IPv4 socket address are read back by
  \<^verbatim>\<open>getaddrinfo\<close>, without the resolver: the result is one entry with the same address and port.\<close>

theorem libgai_numeric_roundtrip:
  assumes "length a = 4" "16 \<le> hostlen" "6 \<le> servlen" "st = SOCK_STREAM \<or> st = SOCK_DGRAM" "2 \<le> quota g"
  shows "\<exists>host serv ai. ga_getnameinfo hbya sbyp (Sin port a) hostlen servlen (NI_NUMERICHOST OR NI_NUMERICSERV) = Some (0, Some host, Some serv) \<and>
    ga_getaddrinfo hdb hdb2 sdb node (Some host) (Some serv) (Some (ai_zero\<lparr>ai_socktype := st\<rparr>)) g = Inr (0, Some [ai], take_mem 2 g) \<and>
    ai_addr ai = Some (Sin port a) \<and> ai_socktype ai = st"
proof -
  let ?p = "unat (ntohs port)" and ?h = "ai_zero\<lparr>ai_socktype := st\<rparr>"
  have q: "dotted_quad (dotted a) a" using dotted_is_quad [OF assms(1)] .
  obtain x r where s: "dotted a = x @ CHR ''.'' # r" "octet x" "length a = 4" by (rule quad_start [OF q])
  have d: "isdigit (hd (dotted a))" "dotted a \<noteq> []" using s by (auto simp: octet_def hd_append intro: hd_in_set)
  have p4: "inet_pton4 (dotted a) = Accept a" using pton4_complete [OF q] .
  have slash: "c \<noteq> CHR ''/''" if "isdigit c" for c using that by (auto simp: isdigit_def)
  have dp: "isdigit (hd (dec ?p))" "dec ?p \<noteq> []" using isdigit_dec [of "hd (dec ?p)" ?p] by simp_all
  have st: "st \<noteq> 0" using assms(4) by auto
  have h: "ai_socktype ?h = st" "ai_flags ?h = 0" "ai_family ?h = 0" "ai_protocol ?h = 0" by (simp_all add: ai_zero_def)
  have "?p < 10 ^ 5" using unsigned_less [of "ntohs port", where ?'a = nat] by simp
  then have len: "length (dec ?p) \<le> 5" by (rule length_dec_le) simp
  have "ga_getnameinfo hbya sbyp (Sin port a) hostlen servlen (NI_NUMERICHOST OR NI_NUMERICSERV) = Some (0, Some (dotted a), Some (dec ?p))"
    using assms(2,3) length_dotted [of a] len by (simp add: ga_getnameinfo_def gn_ipv46_def gn_host_def gn_serv_def inet_ntop_def inet_ntop4_eq snprintf_s_def)
  moreover have "ga_nsearch (Some (dotted a)) ?h = Inr [(dotted a, AF_INET6), (dotted a, AF_INET)]"
    using d h by (simp add: ga_nsearch_def per_family_def empty_arg_def)
  moreover have "ga_passes (ga_pass hdb hdb2 2 (Some (dotted a)) ?h) [(dotted a, AF_INET6), (dotted a, AF_INET)] ([], None, g) =
      Ga_next ([endpoint AF_INET 0 st 0 a], None, take_mem 2 g)"
    using d p4 h st ga_aistruct_ok [of AF_INET g ?h a "[]"] assms(5)
    by (simp add: ga_pass_def ga_numeric_def inet_pton_def)
  moreover have "ga_serv sdb [endpoint AF_INET 0 st 0 a] ?h (dec ?p) (take_mem 2 g) = (0, [endpoint AF_INET 0 st port a], take_mem 2 g)"
  proof -
    have "htons (word_of_int (atol (dec ?p @ [NUL]))) = port" using atol_dec [of "[NUL]" ?p] by (simp add: isdigit_not)
    then have "serv_ports sdb (dec ?p) st = [(port, st)]" using dp st by (simp add: serv_ports_def)
    moreover have "ga_port [endpoint AF_INET 0 st 0 a] port st (take_mem 2 g) = (1, [endpoint AF_INET 0 st port a], take_mem 2 g)"
      using ga_port_first [of "[(AF_INET, a)]" 0 st st 0 port "take_mem 2 g"] by (simp add: inet_all_def entries_def)
    ultimately show ?thesis using h by (simp add: ga_serv_def)
  qed
  moreover have "ga_echeck (Some (dotted a)) (Some (dec ?p)) 0 0 st 0 = 0" using d by (simp add: ga_echeck_def empty_arg_def)
  ultimately have "ga_getaddrinfo hdb hdb2 sdb node (Some (dotted a)) (Some (dec ?p)) (Some ?h) g =
      Inr (0, Some [endpoint AF_INET 0 st port a], take_mem 2 g)"
    using d dp slash h by (auto simp: ga_getaddrinfo_def ga_finish_def empty_arg_def take1_hd numeral_2_eq_2 simp del: One_nat_def)
  moreover have "ai_addr (endpoint AF_INET 0 st port a) = Some (Sin port a)" using assms(1) by (simp add: endpoint_def)
  ultimately show ?thesis using \<open>ga_getnameinfo _ _ _ _ _ _ = _\<close> by fastforce
qed

theorem libgai_numeric_roundtrip_witness:
  "\<exists>host serv ai. ga_getnameinfo (\<lambda>_ _. None) (\<lambda>_ _. None) (Sin 80 [127, 0, 0, 1]) 16 6 (NI_NUMERICHOST OR NI_NUMERICSERV) = Some (0, Some host, Some serv) \<and>
    ga_getaddrinfo (\<lambda>_ _. Inl 1) (\<lambda>_ _. Inl 1) (\<lambda>_ _. None) None (Some host) (Some serv) (Some (ai_zero\<lparr>ai_socktype := SOCK_STREAM\<rparr>)) gai0 = Inr (0, Some [ai], take_mem 2 gai0) \<and>
    ai_addr ai = Some (Sin 80 [127, 0, 0, 1]) \<and> ai_socktype ai = SOCK_STREAM"
  by (rule libgai_numeric_roundtrip) (simp_all add: gai0_def)

theorem libgai_product_witness:
  "ga_getaddrinfo (\<lambda>_ _. Inl 1)
     (\<lambda>_ fam. if fam = AF_INET6 then Inr \<lparr>h_name = None, h_addrtype = AF_INET6, h_addr_list = [replicate 15 0 @ [1]]\<rparr>
              else if fam = AF_INET then Inr \<lparr>h_name = None, h_addrtype = AF_INET, h_addr_list = [[127, 0, 0, 1]]\<rparr> else Inl 1)
     (\<lambda>_ p. if p = ''tcp'' then Some 13 else Some 14) None (Some ''h'') (Some ''daytime'') None gai0 =
   Inr (0, Some [endpoint AF_INET6 AI_CLONE SOCK_STREAM 13 (replicate 15 0 @ [1]), endpoint AF_INET6 0 SOCK_DGRAM 14 (replicate 15 0 @ [1]),
       endpoint AF_INET AI_CLONE SOCK_STREAM 13 [127, 0, 0, 1], endpoint AF_INET 0 SOCK_DGRAM 14 [127, 0, 0, 1]],
     take_mem 8 gai0)"
proof -
  let ?hdb2 = "\<lambda>_ fam. if fam = AF_INET6 then Inr \<lparr>h_name = None, h_addrtype = AF_INET6, h_addr_list = [replicate 15 0 @ [1]]\<rparr>
    else if fam = AF_INET then Inr \<lparr>h_name = None, h_addrtype = AF_INET, h_addr_list = [[127, 0, 0, 1]]\<rparr> else Inl 1"
  have as: "addrs_of ?hdb2 ''h'' AF_INET6 @ addrs_of ?hdb2 ''h'' AF_INET = [(AF_INET6, replicate 15 0 @ [1]), (AF_INET, [127, 0, 0, 1])]"
    by (simp add: addrs_of_def)
  have t: "(h_addrtype h = fam)" if "?hdb2 ''h'' fam = Inr h" for fam h using that by (auto split: if_splits)
  show ?thesis
    using libgai_product [OF host_name_example, of ?hdb2 "''daytime''" "\<lambda>_ p. if p = ''tcp'' then Some 13 else Some 14" 13 14 gai0 "\<lambda>_ _. Inl 1" None,
        unfolded as, OF t] by (simp add: gai0_def isdigit_def)
qed

section \<open>Flaws\<close>

text \<open>With the family \<^verbatim>\<open>AF_LOCAL\<close> and a host that is not \<^verbatim>\<open>/local\<close> or \<^verbatim>\<open>/unix\<close> the library function ends the
  program: the check accepts the family, and there is nothing to search.\<close>

theorem libgai_quits:
  assumes "host \<notin> {''/local'', ''/unix''}" "host \<noteq> []"
  shows "ga_getaddrinfo hdb hdb2 sdb node (Some host) serv (Some (ai_zero\<lparr>ai_family := AF_LOCAL\<rparr>)) g = Inl (Nsearch 0)"
  using assms by (simp add: ga_getaddrinfo_def ga_echeck_def ga_nsearch_def per_family_def empty_arg_def bad_socktype_def ai_zero_def)

text \<open>The copy of the canonical name is lost when memory runs out after it.\<close>

theorem libgai_leak:
  "\<exists>g'. ga_getaddrinfo (\<lambda>_ _. Inr \<lparr>h_name = Some ''h'', h_addrtype = AF_INET, h_addr_list = [[10, 0, 0, 1]]\<rparr>) (\<lambda>_ _. Inl 1) (\<lambda>_ _. None) None
     (Some ''h'') None (Some (ai_zero\<lparr>ai_family := AF_INET, ai_flags := AI_CANONNAME\<rparr>)) (gai0\<lparr>quota := 2\<rparr>) = Inr (EAI_MEMORY, None, g') \<and> live g' = 1"
proof -
  have p: "inet_pton4 ''h'' = Reject" "inet_pton6 ''h'' = Reject" by code_simp+
  show ?thesis
    by (simp add: ga_getaddrinfo_def ga_echeck_def ga_nsearch_def per_family_def empty_arg_def bad_socktype_def ai_zero_def
        ga_pass_def inet_pton_def p ga_lookup_def ga_entry_def ga_aistruct_def calloc_def gai0_def ga_bad_def host_node_def free_def Let_def isdigit_def)
qed

theorem libgai_memory_witness:
  "\<exists>g'. ga_getaddrinfo (\<lambda>_ _. Inr \<lparr>h_name = Some ''h'', h_addrtype = AF_INET, h_addr_list = [[10, 0, 0, 1]]\<rparr>) (\<lambda>_ _. Inl 1) (\<lambda>_ _. None) None
     (Some ''h'') None (Some (ai_zero\<lparr>ai_family := AF_INET, ai_flags := AI_CANONNAME\<rparr>)) (gai0\<lparr>quota := 2\<rparr>) = Inr (EAI_MEMORY, None, g') \<and>
     live g' \<le> 1 \<and> wants_canon (Some ''h'') (ai_zero\<lparr>ai_family := AF_INET, ai_flags := AI_CANONNAME\<rparr>)"
    (is "\<exists>g'. ?r = Inr (EAI_MEMORY, None, g') \<and> _")
proof -
  obtain g' where g: "?r = Inr (EAI_MEMORY, None, g')" "live g' = 1" using libgai_leak by blast
  show ?thesis using libgai_memory [where servname = None and hdb = "\<lambda>_ _. Inr \<lparr>h_name = Some ''h'', h_addrtype = AF_INET, h_addr_list = [[10, 0, 0, 1]]\<rparr>"
      and ?hdb2.0 = "\<lambda>_ _. Inl 1" and sdb = "\<lambda>_ _. None" and node = None and hostname = "Some ''h''"
      and hintsp = "Some (ai_zero\<lparr>ai_family := AF_INET, ai_flags := AI_CANONNAME\<rparr>)" and g = "gai0\<lparr>quota := 2\<rparr>"] g
    by (simp add: is_path_def) (simp add: gai0_def)
qed

end
