(* ===== verification/Ping.thy ===== *)
theory Ping
  imports In_Cksum
begin

unbundle bit_operations_syntax

text \<open>
  Echo requests and replies, \<^verbatim>\<open>unpv13e/ping\<close>: the packets of \<^verbatim>\<open>send_v4.c\<close> and \<^verbatim>\<open>send_v6.c\<close>, their evaluation in \<^verbatim>\<open>proc_v4.c\<close> and
  \<^verbatim>\<open>proc_v6.c\<close>, and the difference of times of \<^verbatim>\<open>tv_sub.c\<close>, which \<^verbatim>\<open>traceroute\<close> has too.  The host is little-endian and has
  64-bit times.
\<close>

section \<open>Words in memory\<close>

primrec word_bytes :: "nat \<Rightarrow> 'a :: len word \<Rightarrow> byte list" where
  "word_bytes 0 w = []"
| "word_bytes (Suc n) w = ucast w # word_bytes n (drop_bit 8 w)"

fun bytes_word :: "byte list \<Rightarrow> 'a :: len word" where
  "bytes_word [] = 0"
| "bytes_word (b # bs) = ucast b OR push_bit 8 (bytes_word bs)"

lemma length_word_bytes [simp]: "length (word_bytes n w) = n"
  by (induction n arbitrary: w) simp_all

lemma bytes_word_bytes: "bytes_word (word_bytes n w) = take_bit (8 * n) (w :: 'a :: len word)"
proof (induction n arbitrary: w)
  case (Suc n)
  have "ucast (ucast w :: byte) OR push_bit 8 (take_bit (8 * n) (drop_bit 8 w)) = take_bit (8 + 8 * n) w"
    by (rule bit_word_eqI) (auto simp: bit_simps not_less)
  then show ?case by (simp add: Suc)
qed simp

lemma bytes_word_all: "LENGTH('a :: len) \<le> 8 * n \<Longrightarrow> bytes_word (word_bytes n w) = (w :: 'a word)"
  by (simp add: bytes_word_bytes take_bit_word_eq_self)

definition half_at :: "byte list \<Rightarrow> nat \<Rightarrow> 16 word" where
  "half_at buf i = bytes_word (take 2 (drop i buf))"

section \<open>Headers of packets\<close>

text \<open>An IPv4 header of the protocol \<open>p\<close>, with options or without, and an IPv6 header whose next header is \<open>p\<close>, as the protocols have them.\<close>

definition ip4_header :: "byte \<Rightarrow> byte list \<Rightarrow> bool" where
  "ip4_header p h \<longleftrightarrow> 20 \<le> length h \<and> length h = 4 * unat (h ! 0 AND 0xf) \<and> h ! 9 = p"

definition ip6_header :: "byte \<Rightarrow> byte list \<Rightarrow> bool" where
  "ip6_header p h \<longleftrightarrow> length h = 40 \<and> h ! 6 = p"

lemma ip4_headerD:
  assumes "ip4_header p h"
  shows "4 * unat ((h @ r) ! 0 AND 0xf) = length h" "(h @ r) ! 9 = p" "(h @ r) ! 8 = h ! 8"
proof -
  have "h \<noteq> []" using assms by (auto simp: ip4_header_def)
  then show "4 * unat ((h @ r) ! 0 AND 0xf) = length h" "(h @ r) ! 9 = p" "(h @ r) ! 8 = h ! 8"
    using assms by (simp_all add: ip4_header_def nth_append)
qed

section \<open>Times\<close>

record timeval =
  tv_sec :: int
  tv_usec :: int

definition tv_sub :: "timeval \<Rightarrow> timeval \<Rightarrow> timeval" where
  "tv_sub out inn =
     (let usec = tv_usec out - tv_usec inn in
      if usec < 0 then \<lparr>tv_sec = tv_sec out - 1 - tv_sec inn, tv_usec = usec + 1000000\<rparr>
      else \<lparr>tv_sec = tv_sec out - tv_sec inn, tv_usec = usec\<rparr>)"

definition tv_bytes :: "timeval \<Rightarrow> byte list" where
  "tv_bytes tv = word_bytes 8 (word_of_int (tv_sec tv) :: 64 word) @ word_bytes 8 (word_of_int (tv_usec tv) :: 64 word)"

definition tv_of :: "byte list \<Rightarrow> timeval" where
  "tv_of bs = \<lparr>tv_sec = sint (bytes_word (take 8 bs) :: 64 word), tv_usec = sint (bytes_word (take 8 (drop 8 bs)) :: 64 word)\<rparr>"

text \<open>The time in microseconds, which the sources compute in floating point and print in milliseconds.\<close>

definition micros :: "timeval \<Rightarrow> int" where
  "micros tv = 1000000 * tv_sec tv + tv_usec tv"

definition tv_ok :: "timeval \<Rightarrow> bool" where
  "tv_ok tv \<longleftrightarrow> - (2 ^ 62) \<le> tv_sec tv \<and> tv_sec tv < 2 ^ 62 \<and> 0 \<le> tv_usec tv \<and> tv_usec tv < 1000000"

lemma tv_sub_micros: "micros (tv_sub out inn) = micros out - micros inn"
  by (simp add: tv_sub_def micros_def Let_def)

lemma tv_sub_normal: "tv_ok out \<Longrightarrow> tv_ok inn \<Longrightarrow> 0 \<le> tv_usec (tv_sub out inn) \<and> tv_usec (tv_sub out inn) < 1000000"
  by (simp add: tv_sub_def tv_ok_def Let_def)

lemma length_tv_bytes [simp]: "length (tv_bytes tv) = 16"
  by (simp add: tv_bytes_def)

lemma tv_of_bytes:
  assumes "tv_ok tv"
  shows "tv_of (tv_bytes tv @ rest) = tv"
proof -
  have s: "sint (word_of_int i :: 64 word) = i" if "- (2 ^ 63) \<le> i" "i < 2 ^ 63" for i
    using that by (simp add: int_word_sint)
  have "sint (word_of_int (tv_sec tv) :: 64 word) = tv_sec tv" "sint (word_of_int (tv_usec tv) :: 64 word) = tv_usec tv"
    using assms by (auto simp: tv_ok_def intro!: s)
  then show ?thesis by (simp add: tv_of_def tv_bytes_def bytes_word_all)
qed

section \<open>Sending\<close>

abbreviation (input) BUFSIZE :: nat where "BUFSIZE \<equiv> 1500"

record ping =
  sendbuf :: "byte list"
  datalen :: nat
  nsent :: int
  pid :: int

datatype ping_error = Buf_overrun | Sendto_error | Recvmsg_error

text \<open>The header and the data: the pattern, then the time written over its beginning, whether there is room
  for it in the data or not.\<close>

definition echo_body :: "timeval \<Rightarrow> ping \<Rightarrow> byte list" where
  "echo_body now s =
     (let dat = replicate (datalen s) 0xa5 @ drop (8 + datalen s) (sendbuf s)
      in word_bytes 2 (word_of_int (pid s) :: 16 word) @ word_bytes 2 (word_of_int (nsent s) :: 16 word) @ tv_bytes now @ drop 16 dat)"

definition send_v4 :: "bool \<Rightarrow> timeval \<Rightarrow> ping \<Rightarrow> ping_error + (byte list \<times> ping)" where
  "send_v4 sendto now s =
     (let len = 8 + datalen s in
      if len > BUFSIZE then Inl Buf_overrun
      else let body = echo_body now s;
               cksum = in_cksum (take len ([8, 0] @ [0, 0] @ body));
               buf = [8, 0] @ cksum_bytes cksum @ body
           in if \<not> sendto then Inl Sendto_error
              else Inr (take len buf, s\<lparr>sendbuf := buf, nsent := nsent s + 1\<rparr>))"

text \<open>In \<^verbatim>\<open>send_v6\<close> the two bytes of the checksum are left for the kernel.\<close>

definition send_v6 :: "bool \<Rightarrow> timeval \<Rightarrow> ping \<Rightarrow> ping_error + (byte list \<times> ping)" where
  "send_v6 sendto now s =
     (let len = 8 + datalen s in
      if len > BUFSIZE then Inl Buf_overrun
      else let buf = [128, 0] @ take 2 (drop 2 (sendbuf s)) @ echo_body now s
           in if \<not> sendto then Inl Sendto_error
              else Inr (take len buf, s\<lparr>sendbuf := buf, nsent := nsent s + 1\<rparr>))"

section \<open>Receiving\<close>

text \<open>What is printed: the bytes, the sequence number, the hop count or limit if there is one, and the round trip time;
  or the type and code of another message.\<close>

datatype ping_report = Echo_reply int "16 word" "int option" int | Other_icmp int byte byte

text \<open>\<open>buf\<close> is the whole receive buffer, of which the first \<open>len\<close> bytes have been received.\<close>

definition proc_v4 :: "bool \<Rightarrow> ping \<Rightarrow> byte list \<Rightarrow> int \<Rightarrow> timeval \<Rightarrow> ping_report option" where
  "proc_v4 verbose s buf len tvrecv =
     (let hlen1 = 4 * unat (buf ! 0 AND 0xf); icmplen = len - int hlen1; icmp = drop hlen1 buf in
      if buf ! 9 \<noteq> 1 then None
      else if icmplen < 8 then None
      else if icmp ! 0 = 0 then
        if uint (half_at icmp 4) \<noteq> pid s then None
        else if icmplen < 16 then None
        else Some (Echo_reply icmplen (half_at icmp 6) (Some (uint (buf ! 8))) (micros (tv_sub tvrecv (tv_of (drop 8 icmp)))))
      else if verbose then Some (Other_icmp icmplen (icmp ! 0) (icmp ! 1))
      else None)"

text \<open>The control messages by level, type and value; 41 and 52 are \<^verbatim>\<open>IPPROTO_IPV6\<close> and \<^verbatim>\<open>IPV6_HOPLIMIT\<close>.\<close>

definition hop_limit :: "(int \<times> int \<times> 32 word) list \<Rightarrow> int" where
  "hop_limit cmsgs = (case find (\<lambda>(level, type, v). level = 41 \<and> type = 52) cmsgs of None \<Rightarrow> - 1 | Some (_, _, v) \<Rightarrow> sint v)"

definition proc_v6 :: "bool \<Rightarrow> ping \<Rightarrow> byte list \<Rightarrow> int \<Rightarrow> (int \<times> int \<times> 32 word) list \<Rightarrow> timeval \<Rightarrow> ping_report option" where
  "proc_v6 verbose s buf len cmsgs tvrecv =
     (if len < 8 then None
      else if buf ! 0 = 129 then
        if uint (half_at buf 4) \<noteq> pid s then None
        else if len < 16 then None
        else let hlim = hop_limit cmsgs
             in Some (Echo_reply len (half_at buf 6) (if hlim = - 1 then None else Some hlim) (micros (tv_sub tvrecv (tv_of (drop 8 buf)))))
      else if verbose then Some (Other_icmp len (buf ! 0) (buf ! 1))
      else None)"

text \<open>The loop of \<^verbatim>\<open>readloop.c\<close>: packets with their time of arrival, signals, which \<^verbatim>\<open>sig_alrm.c\<close> answers with a packet, and errors.
  The packets sent and what is printed.  The first packet is sent before the loop.\<close>

datatype ping_event = Packet "byte list" int "(int \<times> int \<times> 32 word) list" timeval | Alarm timeval bool | Recv_failed

fun ping_loop :: "(bool \<Rightarrow> timeval \<Rightarrow> ping \<Rightarrow> ping_error + (byte list \<times> ping)) \<Rightarrow>
    (ping \<Rightarrow> byte list \<Rightarrow> int \<Rightarrow> (int \<times> int \<times> 32 word) list \<Rightarrow> timeval \<Rightarrow> ping_report option) \<Rightarrow>
    ping_event list \<Rightarrow> ping \<Rightarrow> byte list list \<Rightarrow> ping_report list \<Rightarrow> ping_error + (byte list list \<times> ping_report list \<times> ping)" where
  "ping_loop fsend fproc [] s sends reports = Inr (sends, reports, s)"
| "ping_loop fsend fproc (Recv_failed # es) s sends reports = Inl Recvmsg_error"
| "ping_loop fsend fproc (Alarm now ok # es) s sends reports =
     andthen (fsend ok now s) (\<lambda>(p, s). ping_loop fsend fproc es s (sends @ [p]) reports)"
| "ping_loop fsend fproc (Packet buf len cmsgs tval # es) s sends reports =
     ping_loop fsend fproc es s sends (reports @ (case fproc s buf len cmsgs tval of None \<Rightarrow> [] | Some r \<Rightarrow> [r]))"

definition readloop :: "(bool \<Rightarrow> timeval \<Rightarrow> ping \<Rightarrow> ping_error + (byte list \<times> ping)) \<Rightarrow>
    (ping \<Rightarrow> byte list \<Rightarrow> int \<Rightarrow> (int \<times> int \<times> 32 word) list \<Rightarrow> timeval \<Rightarrow> ping_report option) \<Rightarrow>
    timeval \<Rightarrow> bool \<Rightarrow> ping_event list \<Rightarrow> ping \<Rightarrow> ping_error + (byte list list \<times> ping_report list \<times> ping)" where
  "readloop fsend fproc now ok es s = ping_loop fsend fproc (Alarm now ok # es) s [] []"

section \<open>The packets sent\<close>

definition ping_ok :: "ping \<Rightarrow> bool" where
  "ping_ok s \<longleftrightarrow> length (sendbuf s) = BUFSIZE \<and> 16 \<le> datalen s \<and> 8 + datalen s \<le> BUFSIZE"

text \<open>A packet of the length \<open>n\<close> for the process \<open>p\<close>, with the number \<open>q\<close>, that left at the time \<open>now\<close>.\<close>

definition echo_packet :: "int \<Rightarrow> int \<Rightarrow> nat \<Rightarrow> timeval \<Rightarrow> byte list \<Rightarrow> bool" where
  "echo_packet p q n now m \<longleftrightarrow> length m = n \<and> half_at m 4 = word_of_int p \<and> half_at m 6 = word_of_int q \<and> tv_of (drop 8 m) = now"

lemma echo_body_take:
  assumes "16 \<le> datalen s"
  obtains d where "take (4 + datalen s) (echo_body now s) =
    word_bytes 2 (word_of_int (pid s) :: 16 word) @ word_bytes 2 (word_of_int (nsent s) :: 16 word) @ tv_bytes now @ d" "length d = datalen s - 16"
  using assms by (auto simp: echo_body_def Let_def)

lemma length_echo_body: "ping_ok s \<Longrightarrow> length (echo_body now s) = BUFSIZE - 4"
  by (simp add: echo_body_def ping_ok_def Let_def)

lemma echo_packet_body:
  assumes "16 \<le> datalen s" "tv_ok now" "length h = 4"
  shows "echo_packet (pid s) (nsent s) (8 + datalen s) now (h @ take (4 + datalen s) (echo_body now s))"
proof -
  obtain d where d: "take (4 + datalen s) (echo_body now s) =
    word_bytes 2 (word_of_int (pid s) :: 16 word) @ word_bytes 2 (word_of_int (nsent s) :: 16 word) @ tv_bytes now @ d" "length d = datalen s - 16"
    using echo_body_take [OF assms(1)] .
  show ?thesis unfolding d(1) using assms d(2) tv_of_bytes [OF assms(2)] by (simp add: echo_packet_def half_at_def bytes_word_all)
qed

lemma length_cksum_bytes [simp]: "length (cksum_bytes c) = 2"
  by (simp add: cksum_bytes_def)

lemma take_head4: "length h = 4 \<Longrightarrow> take (8 + n) (h @ b) = h @ take (4 + n) b"
  by simp

lemma send_v4_packet:
  assumes "ping_ok s" "tv_ok now" "send_v4 ok now s = Inr (m, t)"
  shows "echo_packet (pid s) (nsent s) (8 + datalen s) now m \<and> in_cksum m = 0 \<and> take 2 m = [8, 0]"
    "ping_ok t \<and> nsent t = nsent s + 1 \<and> pid t = pid s \<and> datalen t = datalen s"
proof -
  let ?b = "take (4 + datalen s) (echo_body now s)"
  let ?c = "in_cksum ([8, 0] @ [0, 0] @ ?b)"
  let ?buf = "[8, 0] @ cksum_bytes ?c @ echo_body now s"
  have e: "16 \<le> datalen s" "8 + datalen s \<le> BUFSIZE" using assms(1) by (simp_all add: ping_ok_def)
  have c: "take (8 + datalen s) ([8, 0] @ [0, 0] @ echo_body now s) = [8, 0] @ [0, 0] @ ?b"
    using take_head4 [of "[8, 0, 0, 0]" "datalen s" "echo_body now s"] by simp
  have "take (8 + datalen s) ?buf = ([8, 0] @ cksum_bytes ?c) @ ?b"
    using take_head4 [of "[8, 0] @ cksum_bytes ?c" "datalen s" "echo_body now s"] by simp
  then have r: "m = ([8, 0] @ cksum_bytes ?c) @ ?b" "t = s\<lparr>sendbuf := ?buf, nsent := nsent s + 1\<rparr>"
    using assms(3) e(2) unfolding send_v4_def Let_def c by (auto split: if_splits)
  have "in_cksum m = 0" unfolding r(1) append_assoc by (rule in_cksum_verifies) (use e(2) in simp_all)
  then show "echo_packet (pid s) (nsent s) (8 + datalen s) now m \<and> in_cksum m = 0 \<and> take 2 m = [8, 0]"
    using echo_packet_body [OF e(1) assms(2), of "[8, 0] @ cksum_bytes ?c"] unfolding r(1) by simp
  show "ping_ok t \<and> nsent t = nsent s + 1 \<and> pid t = pid s \<and> datalen t = datalen s"
    using e length_echo_body [OF assms(1)] unfolding r(2) by (simp add: ping_ok_def)
qed

lemma send_v6_packet:
  assumes "ping_ok s" "tv_ok now" "send_v6 ok now s = Inr (m, t)"
  shows "echo_packet (pid s) (nsent s) (8 + datalen s) now m \<and> take 2 m = [128, 0]"
    "ping_ok t \<and> nsent t = nsent s + 1 \<and> pid t = pid s \<and> datalen t = datalen s"
proof -
  let ?h = "[128, 0] @ take 2 (drop 2 (sendbuf s))"
  let ?buf = "?h @ echo_body now s"
  have e: "16 \<le> datalen s" "8 + datalen s \<le> BUFSIZE" and l: "length ?h = 4" using assms(1) by (simp_all add: ping_ok_def)
  then have r: "m = ?h @ take (4 + datalen s) (echo_body now s)" "t = s\<lparr>sendbuf := ?buf, nsent := nsent s + 1\<rparr>"
    using assms(3) take_head4 [OF l, of "datalen s" "echo_body now s"] unfolding send_v6_def Let_def by (auto split: if_splits)
  show "echo_packet (pid s) (nsent s) (8 + datalen s) now m \<and> take 2 m = [128, 0]"
    using echo_packet_body [OF e(1) assms(2) l] unfolding r(1) by simp
  show "ping_ok t \<and> nsent t = nsent s + 1 \<and> pid t = pid s \<and> datalen t = datalen s"
    using e l length_echo_body [OF assms(1)] unfolding r(2) by (simp add: ping_ok_def)
qed
section \<open>What both protocols promise\<close>

fun alarms :: "ping_event list \<Rightarrow> timeval list" where
  "alarms [] = []"
| "alarms (Alarm now ok # es) = now # alarms es"
| "alarms (_ # es) = alarms es"

type_synonym ping_packet = "byte list \<times> int \<times> (int \<times> int \<times> 32 word) list \<times> timeval"

fun packets :: "ping_event list \<Rightarrow> ping_packet list" where
  "packets [] = []"
| "packets (Packet buf len cmsgs tval # es) = (buf, len, cmsgs, tval) # packets es"
| "packets (_ # es) = packets es"

text \<open>What is to be printed for a packet, when \<open>sent\<close> are the packets sent by the process \<open>p\<close> from the number \<open>q\<close> on, at the times \<open>ts\<close>: an answer to one of them is
  reported with its length, its number, the time to live or hop limit and the time since it left, and for everything else \<open>other\<close> says what is printed.
  \<open>arrives m buf len cmsgs hop\<close>: the answer to the packet \<open>m\<close> is in the buffer.  An answer repeats the identifier, the number and the data.\<close>

definition ping_told :: "(byte list \<Rightarrow> byte list \<Rightarrow> int \<Rightarrow> (int \<times> int \<times> 32 word) list \<Rightarrow> int option \<Rightarrow> bool) \<Rightarrow> (int \<Rightarrow> byte list \<Rightarrow> int \<Rightarrow> ping_report list \<Rightarrow> bool) \<Rightarrow>
    int \<Rightarrow> int \<Rightarrow> byte list list \<Rightarrow> timeval list \<Rightarrow> ping_packet \<Rightarrow> ping_report list \<Rightarrow> bool" where
  "ping_told arrives other p q sent ts = (\<lambda>(buf, len, cmsgs, tval) rs.
     (\<exists>k < length sent. \<exists>hop. arrives (sent ! k) buf len cmsgs hop \<and>
        rs = [Echo_reply (int (length (sent ! k))) (word_of_int (q + int k)) hop (micros tval - micros (ts ! k))]) \<or>
     other p buf len rs)"

locale echo_protocol =
  fixes fsend :: "bool \<Rightarrow> timeval \<Rightarrow> ping \<Rightarrow> ping_error + (byte list \<times> ping)"
    and fproc :: "ping \<Rightarrow> byte list \<Rightarrow> int \<Rightarrow> (int \<times> int \<times> 32 word) list \<Rightarrow> timeval \<Rightarrow> ping_report option"
    and valid :: "byte list \<Rightarrow> bool"
    and arrives :: "byte list \<Rightarrow> byte list \<Rightarrow> int \<Rightarrow> (int \<times> int \<times> 32 word) list \<Rightarrow> int option \<Rightarrow> bool"
    and other :: "int \<Rightarrow> byte list \<Rightarrow> int \<Rightarrow> ping_report list \<Rightarrow> bool"
  assumes send_law: "ping_ok s \<Longrightarrow> tv_ok now \<Longrightarrow> fsend ok now s = Inr (m, t) \<Longrightarrow>
      echo_packet (pid s) (nsent s) (8 + datalen s) now m \<and> valid m \<and> ping_ok t \<and> nsent t = nsent s + 1 \<and> pid t = pid s \<and> datalen t = datalen s"
    and proc_law: "echo_packet (pid s) q n now m \<Longrightarrow> 24 \<le> n \<Longrightarrow> 0 \<le> pid s \<Longrightarrow> pid s < 65536 \<Longrightarrow> arrives m buf len cmsgs hop \<Longrightarrow>
      fproc s buf len cmsgs tval = Some (Echo_reply (int n) (word_of_int q) hop (micros tval - micros now))"
    and other_law: "other (pid s) buf len rs \<Longrightarrow> 0 \<le> pid s \<Longrightarrow> pid s < 65536 \<Longrightarrow> (case fproc s buf len cmsgs tval of None \<Rightarrow> [] | Some r \<Rightarrow> [r]) = rs"
begin

lemma loop_packets:
  assumes "ping_ok s" "\<forall>t \<in> set (alarms es). tv_ok t" "ping_loop fsend fproc es s sends reports = Inr (sends', reports', s')"
  shows "\<exists>new. sends' = sends @ new \<and> length new = length (alarms es) \<and> pid s' = pid s \<and> datalen s' = datalen s \<and>
    (\<forall>k < length new. echo_packet (pid s) (nsent s + int k) (8 + datalen s) (alarms es ! k) (new ! k) \<and> valid (new ! k))"
  using assms
proof (induction es arbitrary: s sends reports)
  case (Cons e es)
  show ?case
  proof (cases e)
    case (Alarm now ok)
    then obtain m t where f: "fsend ok now s = Inr (m, t)" "ping_loop fsend fproc es t (sends @ [m]) reports = Inr (sends', reports', s')"
      using Cons.prems(3) by (auto simp: andthen_def split: sum.splits)
    have now: "tv_ok now" "\<forall>t \<in> set (alarms es). tv_ok t" using Cons.prems(2) Alarm by auto
    note l = send_law [OF Cons.prems(1) now(1) f(1)]
    obtain new where n: "sends' = (sends @ [m]) @ new" "length new = length (alarms es)" "pid s' = pid t" "datalen s' = datalen t"
      "\<And>k. k < length new \<Longrightarrow> echo_packet (pid t) (nsent t + int k) (8 + datalen t) (alarms es ! k) (new ! k) \<and> valid (new ! k)"
      using Cons.IH [OF _ now(2) f(2)] l by blast
    have "echo_packet (pid s) (nsent s + int k) (8 + datalen s) (alarms (e # es) ! k) ((m # new) ! k) \<and> valid ((m # new) ! k)"
      if "k < length (m # new)" for k
      using that l n(5) [of "k - 1"] Alarm by (cases k) (auto simp: algebra_simps)
    then show ?thesis using n l Alarm by (intro exI [of _ "m # new"]) simp
  qed (use Cons in auto)
qed simp

lemma loop_reports:
  assumes "ping_ok s" "\<forall>t \<in> set (alarms es). tv_ok t" "ping_loop fsend fproc es s sends reports = Inr (sends', reports', s')"
    and "list_all2 (\<lambda>(buf, len, cmsgs, tval) rs. \<forall>t. pid t = pid s \<longrightarrow> (case fproc t buf len cmsgs tval of None \<Rightarrow> [] | Some r \<Rightarrow> [r]) = rs) (packets es) rss"
  shows "reports' = reports @ concat rss"
  using assms
proof (induction es arbitrary: s sends reports rss)
  case (Cons e es)
  show ?case
  proof (cases e)
    case (Alarm now ok)
    then obtain m t where f: "fsend ok now s = Inr (m, t)" "ping_loop fsend fproc es t (sends @ [m]) reports = Inr (sends', reports', s')"
      using Cons.prems(3) by (auto simp: andthen_def split: sum.splits)
    have now: "tv_ok now" "\<forall>t \<in> set (alarms es). tv_ok t" using Cons.prems(2) Alarm by auto
    have "ping_ok t" "pid t = pid s" using send_law [OF Cons.prems(1) now(1) f(1)] by simp_all
    then show ?thesis using Cons.IH [OF _ now(2) f(2), of rss] Cons.prems(4) Alarm by simp
  next
    case (Packet buf len cmsgs tval)
    obtain rs rss' where l: "rss = rs # rss'" "(case fproc s buf len cmsgs tval of None \<Rightarrow> [] | Some r \<Rightarrow> [r]) = rs"
      "list_all2 (\<lambda>(buf, len, cmsgs, tval) rs. \<forall>t. pid t = pid s \<longrightarrow> (case fproc t buf len cmsgs tval of None \<Rightarrow> [] | Some r \<Rightarrow> [r]) = rs) (packets es) rss'"
      using Cons.prems(4) Packet by (auto simp: list_all2_Cons1)
    have "reports' = (reports @ rs) @ concat rss'"
      by (rule Cons.IH [of s sends]) (use Cons.prems(1-3) Packet l in \<open>simp_all\<close>)
    then show ?thesis using l(1) by simp
  qed (use Cons in auto)
qed simp

lemma session:
  assumes "ping_ok s" "0 \<le> pid s" "pid s < 65536" "\<forall>t \<in> set (now # alarms es). tv_ok t"
    and "readloop fsend fproc now ok es s = Inr (sends, reports, s')"
  shows "length sends = Suc (length (alarms es)) \<and>
    (\<forall>k < length sends. echo_packet (pid s) (nsent s + int k) (8 + datalen s) ((now # alarms es) ! k) (sends ! k) \<and> valid (sends ! k)) \<and>
    (\<forall>rss. list_all2 (ping_told arrives other (pid s) (nsent s) sends (now # alarms es)) (packets es) rss \<longrightarrow> reports = concat rss)"
proof -
  let ?es = "Alarm now ok # es"
  have al: "\<forall>t \<in> set (alarms ?es). tv_ok t" and lp: "ping_loop fsend fproc ?es s [] [] = Inr (sends, reports, s')" using assms(4,5) by (simp_all add: readloop_def)
  have l: "length sends = Suc (length (alarms es))"
    and e: "\<And>k. k < length sends \<Longrightarrow> echo_packet (pid s) (nsent s + int k) (8 + datalen s) ((now # alarms es) ! k) (sends ! k) \<and> valid (sends ! k)"
    using loop_packets [OF assms(1) al lp] by auto
  have n: "24 \<le> 8 + datalen s" using assms(1) by (simp add: ping_ok_def)
  have "(case fproc t buf len cmsgs tval of None \<Rightarrow> [] | Some r \<Rightarrow> [r]) = rs"
    if t: "pid t = pid s" and "ping_told arrives other (pid s) (nsent s) sends (now # alarms es) (buf, len, cmsgs, tval) rs" for t buf len cmsgs tval rs
    using that(2) unfolding ping_told_def prod.case
  proof (elim disjE exE conjE)
    fix k hop
    assume k: "k < length sends" "arrives (sends ! k) buf len cmsgs hop"
      "rs = [Echo_reply (int (length (sends ! k))) (word_of_int (nsent s + int k)) hop (micros tval - micros ((now # alarms es) ! k))]"
    have "echo_packet (pid t) (nsent s + int k) (8 + datalen s) ((now # alarms es) ! k) (sends ! k)" "length (sends ! k) = 8 + datalen s"
      using e [OF k(1)] t by (simp_all add: echo_packet_def)
    then show ?thesis using proc_law [OF _ n _ _ k(2), of t _ _ tval] k(3) t assms(2,3) by simp
  qed (use other_law [of t] t assms(2,3) in simp)
  then have "list_all2 (\<lambda>(buf, len, cmsgs, tval) rs. \<forall>t. pid t = pid s \<longrightarrow> (case fproc t buf len cmsgs tval of None \<Rightarrow> [] | Some r \<Rightarrow> [r]) = rs) (packets ?es) rss"
    if "list_all2 (ping_told arrives other (pid s) (nsent s) sends (now # alarms es)) (packets es) rss" for rss
    using list_all2_mono [OF that] by fastforce
  then show ?thesis using loop_reports [OF assms(1) al lp] l e by simp
qed

end

section \<open>The two protocols\<close>

definition answer_to :: "byte \<Rightarrow> byte list \<Rightarrow> byte list \<Rightarrow> bool" where
  "answer_to type m r \<longleftrightarrow> length r = length m \<and> r ! 0 = type \<and> drop 4 r = drop 4 m"

definition arrives_v4 :: "byte list \<Rightarrow> byte list \<Rightarrow> int \<Rightarrow> (int \<times> int \<times> 32 word) list \<Rightarrow> int option \<Rightarrow> bool" where
  "arrives_v4 m buf len cmsgs hop \<longleftrightarrow> (\<exists>h r junk. buf = h @ r @ junk \<and> answer_to 0 m r \<and> len = int (length h + length r) \<and>
     ip4_header 1 h \<and> hop = Some (uint (h ! 8)))"

definition arrives_v6 :: "byte list \<Rightarrow> byte list \<Rightarrow> int \<Rightarrow> (int \<times> int \<times> 32 word) list \<Rightarrow> int option \<Rightarrow> bool" where
  "arrives_v6 m buf len cmsgs hop \<longleftrightarrow> (\<exists>r junk. buf = r @ junk \<and> answer_to 129 m r \<and> len = int (length r) \<and>
     hop = (if hop_limit cmsgs = - 1 then None else Some (hop_limit cmsgs)))"

text \<open>An ICMP message that is no answer to this process: an echo reply for another process or too short to hold a time, a message of fewer than eight bytes, or a message of another
  type, which is printed only when \<open>verbose\<close> is set; \<open>reply\<close> is the type of an echo reply.\<close>

definition icmp_other :: "byte \<Rightarrow> bool \<Rightarrow> int \<Rightarrow> byte list \<Rightarrow> ping_report list \<Rightarrow> bool" where
  "icmp_other reply verbose p m rs \<longleftrightarrow>
     length m < 8 \<and> rs = [] \<or>
     8 \<le> length m \<and> m ! 0 = reply \<and> (half_at m 4 \<noteq> word_of_int p \<or> length m < 16) \<and> rs = [] \<or>
     8 \<le> length m \<and> m ! 0 \<noteq> reply \<and> rs = (if verbose then [Other_icmp (int (length m)) (m ! 0) (m ! 1)] else [])"

definition other_v4 :: "bool \<Rightarrow> int \<Rightarrow> byte list \<Rightarrow> int \<Rightarrow> ping_report list \<Rightarrow> bool" where
  "other_v4 verbose p buf len rs \<longleftrightarrow> (\<exists>proto h m junk. buf = h @ m @ junk \<and> len = int (length h + length m) \<and> ip4_header proto h \<and>
     (if proto = 1 then icmp_other 0 verbose p m rs else rs = []))"

definition other_v6 :: "bool \<Rightarrow> int \<Rightarrow> byte list \<Rightarrow> int \<Rightarrow> ping_report list \<Rightarrow> bool" where
  "other_v6 verbose p buf len rs \<longleftrightarrow> (\<exists>m junk. buf = m @ junk \<and> len = int (length m) \<and> icmp_other 129 verbose p m rs)"

lemma half_at_drop: "4 \<le> i \<Longrightarrow> i + 2 \<le> length r \<Longrightarrow> drop 4 r = drop 4 m \<Longrightarrow> half_at (r @ junk) i = half_at m i"
proof -
  assume a: "4 \<le> i" "i + 2 \<le> length r" "drop 4 r = drop 4 m"
  then have "drop i r = drop i m" using drop_drop [of "i - 4" 4 r] drop_drop [of "i - 4" 4 m] by simp
  moreover have "half_at (r @ junk) i = half_at r i" using a(2) by (simp add: half_at_def)
  ultimately show ?thesis by (simp add: half_at_def)
qed

lemma tv_of_append: "16 \<le> length bs \<Longrightarrow> tv_of (bs @ junk) = tv_of bs"
  by (simp add: tv_of_def)

lemma answer_fields:
  assumes "echo_packet p q n now m" "24 \<le> n" "0 \<le> p" "p < 65536" "answer_to type m r"
  shows "length r = n" "r ! 0 = type" "uint (half_at (r @ junk) 4) = p" "half_at (r @ junk) 6 = word_of_int q" "tv_of (drop 8 (r @ junk)) = now"
proof -
  have r: "length r = n" "r ! 0 = type" "drop 4 r = drop 4 m" "length m = n" using assms(1,5) by (simp_all add: answer_to_def echo_packet_def)
  then show "length r = n" "r ! 0 = type" by simp_all
  show "uint (half_at (r @ junk) 4) = p" "half_at (r @ junk) 6 = word_of_int q"
    using half_at_drop [OF _ _ r(3), of 4 junk] half_at_drop [OF _ _ r(3), of 6 junk] assms(1-4) r(1)
    by (simp_all add: echo_packet_def uint_word_of_int)
  have "drop 8 r = drop 8 m" using r(3) drop_drop [of 4 4 r] drop_drop [of 4 4 m] by simp
  then show "tv_of (drop 8 (r @ junk)) = now" using tv_of_append [of "drop 8 r" junk] assms(1,2) r(1) by (simp add: echo_packet_def)
qed

lemma icmp_fields:
  assumes "8 \<le> length m" "0 \<le> p" "p < 65536"
  shows "(m @ junk) ! 0 = m ! 0" "(m @ junk) ! 1 = m ! 1" "uint (half_at (m @ junk) 4) = p \<longleftrightarrow> half_at m 4 = word_of_int p"
proof -
  have "m \<noteq> []" using assms(1) by auto
  then show "(m @ junk) ! 0 = m ! 0" "(m @ junk) ! 1 = m ! 1" using assms(1) by (simp_all add: nth_append)
  have "half_at (m @ junk) 4 = half_at m 4" using assms(1) by (simp add: half_at_def)
  moreover have "uint (w :: 16 word) = p \<longleftrightarrow> w = word_of_int p" for w using assms(2,3) by (auto simp: uint_word_of_int)
  ultimately show "uint (half_at (m @ junk) 4) = p \<longleftrightarrow> half_at m 4 = word_of_int p" by simp
qed

interpretation ping4: echo_protocol send_v4 "\<lambda>s buf len cmsgs. proc_v4 verbose s buf len" "\<lambda>m. in_cksum m = 0 \<and> take 2 m = [8, 0]" arrives_v4 "other_v4 verbose"
proof (unfold_locales, goal_cases)
  case (1 s now ok m t)
  then show ?case using send_v4_packet [of s now ok m t] by blast
next
  case (2 s q n now m buf len cmsgs hop tval)
  then obtain h r junk where b: "buf = h @ r @ junk" "answer_to 0 m r" "len = int (length h + length r)" "ip4_header 1 h"
    "hop = Some (uint (h ! 8))" by (auto simp: arrives_v4_def)
  note f = answer_fields [OF 2(1-4) b(2)] and h = ip4_headerD [OF b(4), of "r @ junk", folded b(1)]
  have "drop (length h) buf = r @ junk" "(r @ junk) ! 0 = 0" using b(1) f(1,2) 2(2) by (simp_all add: nth_append)
  then show ?case using f 2(2) b(3,5) h unfolding proc_v4_def Let_def h(1) by (simp add: tv_sub_micros)
next
  case (3 s buf len rs cmsgs tval)
  then obtain proto h m junk where b: "buf = h @ m @ junk" "len = int (length h + length m)" "ip4_header proto h"
    and c: "if proto = 1 then icmp_other 0 verbose (pid s) m rs else rs = []" by (auto simp: other_v4_def)
  note h = ip4_headerD [OF b(3), of "m @ junk", folded b(1)]
  have d: "drop (length h) buf = m @ junk" "len - int (length h) = int (length m)" using b(1,2) by simp_all
  show ?case using c icmp_fields [of m "pid s" junk] 3(2,3) unfolding proc_v4_def Let_def h(1,2) d by (auto simp: icmp_other_def split: if_splits)
qed

interpretation ping6: echo_protocol send_v6 "proc_v6 verbose" "\<lambda>m. take 2 m = [128, 0]" arrives_v6 "other_v6 verbose"
proof (unfold_locales, goal_cases)
  case (1 s now ok m t)
  then show ?case using send_v6_packet [of s now ok m t] by blast
next
  case (2 s q n now m buf len cmsgs hop tval)
  then obtain r junk where b: "buf = r @ junk" "answer_to 129 m r" "len = int (length r)"
    "hop = (if hop_limit cmsgs = - 1 then None else Some (hop_limit cmsgs))" by (auto simp: arrives_v6_def)
  note f = answer_fields [OF 2(1-4) b(2)]
  have "(r @ junk) ! 0 = 129" using f(1,2) 2(2) by (simp add: nth_append)
  then show ?case using f 2(2) b by (simp add: proc_v6_def tv_sub_micros)
next
  case (3 s buf len rs cmsgs tval)
  then obtain m junk where b: "buf = m @ junk" "len = int (length m)" and c: "icmp_other 129 verbose (pid s) m rs" by (auto simp: other_v6_def)
  show ?case using c icmp_fields [of m "pid s" junk] 3(2,3) unfolding proc_v6_def Let_def b by (auto simp: icmp_other_def split: if_splits)
qed

section \<open>Properties\<close>

text \<open>C34: Pinging an IPv4 host.  One packet is sent at the start and one for each alarm, an echo request with a correct checksum, the number of the process, its own number and the time.
  What is printed is exactly what the packets that arrive call for, in their order: for an answer to the \<open>k\<close>-th request its length, its number, its time to live and the time from
  when the request left until the answer came; nothing for packets of other protocols, messages that are too short and the echo replies of other processes; and other ICMP messages with their type and code when
  \<open>verbose\<close> is set, and else nothing.  The process number is to fit into the 16 bits of the identifier,
  and the packets have the IP header that the kernel puts before an ICMP message.\<close>

theorem ping_v4_session:
  assumes "ping_ok s" "0 \<le> pid s" "pid s < 65536" "\<forall>t \<in> set (now # alarms es). tv_ok t"
    and "readloop send_v4 (\<lambda>s buf len cmsgs. proc_v4 verbose s buf len) now ok es s = Inr (sends, reports, s')"
  shows "length sends = Suc (length (alarms es)) \<and>
    (\<forall>k < length sends. echo_packet (pid s) (nsent s + int k) (8 + datalen s) ((now # alarms es) ! k) (sends ! k) \<and>
       in_cksum (sends ! k) = 0 \<and> take 2 (sends ! k) = [8, 0]) \<and>
    (\<forall>rss. list_all2 (ping_told arrives_v4 (other_v4 verbose) (pid s) (nsent s) sends (now # alarms es)) (packets es) rss \<longrightarrow> reports = concat rss)"
  using ping4.session [OF assms] by blast

text \<open>A packet is sent, its answer arrives after the echo reply of another process and is printed.\<close>

definition ping0 :: ping where
  "ping0 = \<lparr>sendbuf = replicate 1500 0, datalen = 16, nsent = 0, pid = 77\<rparr>"

definition ping0_ip :: "byte list" where
  "ping0_ip = [0x45, 0, 0, 0, 0, 0, 0, 0, 64, 1, 0, 0, 0, 0, 0, 0, 0, 0, 0, 0]"

theorem ping_v4_session_witness:
  "\<exists>m. take 2 m = [8, 0] \<and> in_cksum m = 0 \<and> (\<exists>t. readloop send_v4 (\<lambda>s buf len cmsgs. proc_v4 False s buf len) \<lparr>tv_sec = 5, tv_usec = 999999\<rparr> True
     [Packet (ping0_ip @ [0, 0, 0, 0, 78, 0, 0, 0]) 28 [] \<lparr>tv_sec = 6, tv_usec = 2\<rparr>, Packet (ping0_ip @ 0 # drop 1 m) 44 [] \<lparr>tv_sec = 6, tv_usec = 9\<rparr>] ping0 =
     Inr ([m], [Echo_reply 24 0 (Some 64) 10], t))"
proof -
  let ?now = "\<lparr>tv_sec = 5, tv_usec = 999999\<rparr>" and ?alien = "[0, 0, 0, 0, 78, 0, 0, 0] :: byte list"
  obtain m t where m: "send_v4 True ?now ping0 = Inr (m, t)" by (simp add: send_v4_def ping0_def Let_def)
  let ?es = "[Packet (ping0_ip @ ?alien) 28 [] \<lparr>tv_sec = 6, tv_usec = 2\<rparr>, Packet (ping0_ip @ 0 # drop 1 m) 44 [] \<lparr>tv_sec = 6, tv_usec = 9\<rparr>]"
  obtain rs where r: "readloop send_v4 (\<lambda>s buf len cmsgs. proc_v4 False s buf len) ?now True ?es ping0 = Inr ([m], rs, t)" using m by (simp add: readloop_def)
  have i: "ping_ok ping0" "0 \<le> pid ping0" "pid ping0 < 65536" "\<forall>t \<in> set (?now # alarms ?es). tv_ok t"
    by (simp_all add: ping_ok_def ping0_def tv_ok_def)
  note p = ping_v4_session [OF i r]
  have h: "ip4_header 1 ping0_ip" "length ping0_ip = 20" "ping0_ip ! 8 = 64" by (simp_all add: ip4_header_def ping0_ip_def)
  have l: "length m = 24" using p by (simp add: echo_packet_def ping0_def)
  have "arrives_v4 m (ping0_ip @ 0 # drop 1 m) 44 [] (Some 64)"
    unfolding arrives_v4_def by (rule exI [of _ ping0_ip], rule exI [of _ "0 # drop 1 m"], rule exI [of _ "[]"]) (use h l in \<open>simp add: answer_to_def\<close>)
  moreover have "other_v4 False 77 (ping0_ip @ ?alien) 28 []"
    unfolding other_v4_def by (rule exI [of _ 1], rule exI [of _ ping0_ip], rule exI [of _ ?alien], rule exI [of _ "[]"]) (use h in \<open>simp add: icmp_other_def half_at_def\<close>)
  ultimately have a: "list_all2 (ping_told arrives_v4 (other_v4 False) (pid ping0) (nsent ping0) [m] (?now # alarms ?es)) (packets ?es) [[], [Echo_reply 24 0 (Some 64) 10]]"
    using l by (auto simp: ping_told_def ping0_def micros_def intro!: exI [of _ "Some (64 :: int)"])
  have "rs = [Echo_reply 24 0 (Some 64) 10]" using conjunct2 [OF conjunct2 [OF p], rule_format, OF a] by simp
  moreover have "take 2 m = [8, 0] \<and> in_cksum m = 0" using p by simp
  ultimately show ?thesis using r by blast
qed

text \<open>The same for IPv6, with the hop limit of the answer when the kernel passes it on.\<close>

lemma ping_v6_session:
  assumes "ping_ok s" "0 \<le> pid s" "pid s < 65536" "\<forall>t \<in> set (now # alarms es). tv_ok t"
    and "readloop send_v6 (proc_v6 verbose) now ok es s = Inr (sends, reports, s')"
  shows "length sends = Suc (length (alarms es)) \<and>
    (\<forall>k < length sends. echo_packet (pid s) (nsent s + int k) (8 + datalen s) ((now # alarms es) ! k) (sends ! k) \<and> take 2 (sends ! k) = [128, 0]) \<and>
    (\<forall>rss. list_all2 (ping_told arrives_v6 (other_v6 verbose) (pid s) (nsent s) sends (now # alarms es)) (packets es) rss \<longrightarrow> reports = concat rss)"
  using ping6.session [OF assms] by blast

text \<open>The identifier has 16 bits, and it is compared with the whole process number: a process with a larger number reports no
  answer at all.\<close>

lemma ping_large_pid: "65536 \<le> pid s \<Longrightarrow> proc_v4 False s buf len tval = None \<and> proc_v6 False s buf len cmsgs tval = None"
proof -
  assume "65536 \<le> pid s"
  then have "uint (w :: 16 word) \<noteq> pid s" for w using unsigned_less [of w, where ?'a = int] by simp
  then show ?thesis by (simp add: proc_v4_def proc_v6_def Let_def)
qed

end
