(* ===== verification/Trace_Route.thy ===== *)
theory Trace_Route
  imports Ping
begin

unbundle bit_operations_syntax

text \<open>
  Tracing a route, \<^verbatim>\<open>unpv13e/traceroute\<close>: the search for the answer to a probe among the ICMP messages that arrive (\<^verbatim>\<open>recv_v4.c\<close>,
  \<^verbatim>\<open>recv_v6.c\<close>), the texts of \<^verbatim>\<open>icmpcode_v4.c\<close> and \<^verbatim>\<open>icmpcode_v6.c\<close>, and the loops over the hops and the probes (\<^verbatim>\<open>traceloop.c\<close>).
  The locale \<open>probe_receiver\<close> is what the loops need of the search.
\<close>

section \<open>The answer to a probe\<close>

text \<open>What \<^verbatim>\<open>recvfrom\<close> meets: a message (the sender, the whole buffer, the length and the time), the alarm, another interrupt, an error.\<close>

datatype 'a tr_event = Tr_packet 'a "byte list" int timeval | Tr_alarm | Tr_intr | Tr_error

datatype trace_error = Recvfrom_error

definition net_half :: "16 word \<Rightarrow> byte list" where
  "net_half w = [ucast (drop_bit 8 w), ucast w]"

text \<open>The ports of a probe at the beginning of the quoted UDP header.\<close>

definition probe_ports :: "16 word \<Rightarrow> 16 word \<Rightarrow> int \<Rightarrow> byte list \<Rightarrow> bool" where
  "probe_ports sport dport seq udp \<longleftrightarrow>
     take 2 udp = net_half sport \<and> take 2 (drop 2 udp) = net_half (word_of_int (uint dport + seq))"

definition verdict_v4 :: "16 word \<Rightarrow> 16 word \<Rightarrow> int \<Rightarrow> byte list \<Rightarrow> int \<Rightarrow> int option" where
  "verdict_v4 sport dport seq buf n =
     (let hlen1 = 4 * unat (buf ! 0 AND 0xf); icmplen = n - int hlen1; icmp = drop hlen1 buf;
          hip = drop 8 icmp; hlen2 = 4 * unat (hip ! 0 AND 0xf); udp = drop hlen2 hip;
          mine = (hip ! 9 = 17 \<and> probe_ports sport dport seq udp)
      in if icmplen < 8 then None
         else if icmp ! 0 = 11 \<and> icmp ! 1 = 0 then
           (if icmplen < 8 + 20 then None
            else if icmplen < 8 + int hlen2 + 4 then None
            else if mine then Some (- 2) else None)
         else if icmp ! 0 = 3 then
           (if icmplen < 8 + 20 then None
            else if icmplen < 8 + int hlen2 + 4 then None
            else if mine then Some (if icmp ! 1 = 3 then - 1 else uint (icmp ! 1)) else None)
         else None)"

text \<open>In \<^verbatim>\<open>recv_v6\<close> the braces after the first test are missing: every time exceeded message ends the search, and the value is that of the
  variable \<^verbatim>\<open>ret\<close>, which has not been set (\<open>junk\<close>).\<close>

definition verdict_v6 :: "int \<Rightarrow> 16 word \<Rightarrow> 16 word \<Rightarrow> int \<Rightarrow> byte list \<Rightarrow> int \<Rightarrow> int option" where
  "verdict_v6 junk sport dport seq buf n =
     (let hip6 = drop 8 buf; udp = drop 40 hip6; mine = (hip6 ! 6 = 17 \<and> probe_ports sport dport seq udp)
      in if n < 8 then None
         else if buf ! 0 = 3 \<and> buf ! 1 = 0 then
           (if n < 8 + 40 + 4 then None else if mine then Some (- 2) else Some junk)
         else if buf ! 0 = 1 then
           (if n < 8 + 40 + 4 then None
            else if mine then Some (if buf ! 1 = 4 then - 1 else uint (buf ! 1)) else None)
         else None)"

text \<open>The loop around \<^verbatim>\<open>recvfrom\<close>; no value when it still waits.  The result is the value returned, the sender and the time of
  arrival when there is an answer, and what is left to be received.\<close>

fun recv_loop :: "(byte list \<Rightarrow> int \<Rightarrow> int option) \<Rightarrow> bool \<Rightarrow> 'a tr_event list \<Rightarrow>
    (trace_error + int \<times> ('a \<times> timeval) option \<times> 'a tr_event list) option" where
  "recv_loop verdict True es = Some (Inr (- 3, None, es))"
| "recv_loop verdict False [] = None"
| "recv_loop verdict False (Tr_alarm # es) = recv_loop verdict True es"
| "recv_loop verdict False (Tr_intr # es) = recv_loop verdict False es"
| "recv_loop verdict False (Tr_error # es) = Some (Inl Recvfrom_error)"
| "recv_loop verdict False (Tr_packet a buf n tv # es) =
     (case verdict buf n of None \<Rightarrow> recv_loop verdict False es | Some ret \<Rightarrow> Some (Inr (ret, Some (a, tv), es)))"

definition recv_v4 :: "16 word \<Rightarrow> 16 word \<Rightarrow> int \<Rightarrow> 'a tr_event list \<Rightarrow> (trace_error + int \<times> ('a \<times> timeval) option \<times> 'a tr_event list) option" where
  "recv_v4 sport dport seq es = recv_loop (verdict_v4 sport dport seq) False es"

definition recv_v6 :: "int \<Rightarrow> 16 word \<Rightarrow> 16 word \<Rightarrow> int \<Rightarrow> 'a tr_event list \<Rightarrow> (trace_error + int \<times> ('a \<times> timeval) option \<times> 'a tr_event list) option" where
  "recv_v6 junk sport dport seq es = recv_loop (verdict_v6 junk sport dport seq) False es"

section \<open>Texts\<close>

definition unknown_code :: "int \<Rightarrow> string" where
  "unknown_code code = ''[unknown code '' @ sdec code @ '']''"

definition icmpcode_v4 :: "int \<Rightarrow> string" where
  "icmpcode_v4 code =
     (let texts = [''network unreachable'', ''host unreachable'', ''protocol unreachable'', ''port unreachable'',
        ''fragmentation required but DF bit set'', ''source route failed'', ''destination network unknown'', ''destination host unknown'',
        ''source host isolated (obsolete)'', ''destination network administratively prohibited'',
        ''destination host administratively prohibited'', ''network unreachable for TOS'', ''host unreachable for TOS'',
        ''communication administratively prohibited by filtering'', ''host recedence violation'', ''precedence cutoff in effect'']
      in if 0 \<le> code \<and> code < 16 then texts ! nat code else unknown_code code)"

definition icmpcode_v6 :: "int \<Rightarrow> string" where
  "icmpcode_v6 code =
     (let texts = [''no route to host'', ''administratively prohibited'', ''not a neighbor'', ''address unreachable'', ''port unreachable'']
      in if 0 \<le> code \<and> code < 5 then texts ! nat code else unknown_code code)"

section \<open>The loops\<close>

text \<open>What is printed for a probe: a star, or the sender (when it is not the last one printed for this hop), the round trip time in
  microseconds and the text of another code.\<close>

datatype 'a tr_out = Star | Answer "'a option" int "string option"

text \<open>\<open>clock seq\<close> is the time at which the probe \<open>seq\<close> left.  The result: what is printed, the numbers of the probes sent, the last
  number, whether the destination has been reached, and what is left to be received.\<close>

fun probes :: "(int \<Rightarrow> string) \<Rightarrow> (int \<Rightarrow> 'a tr_event list \<Rightarrow> (trace_error + int \<times> ('a \<times> timeval) option \<times> 'a tr_event list) option) \<Rightarrow>
    (int \<Rightarrow> timeval) \<Rightarrow> nat \<Rightarrow> 'a option \<Rightarrow> int \<Rightarrow> bool \<Rightarrow> 'a tr_event list \<Rightarrow>
    (trace_error + 'a tr_out list \<times> int \<times> bool \<times> 'a tr_event list) option" where
  "probes icmpcode recv clock 0 salast seq done es = Some (Inr ([], seq, done, es))"
| "probes icmpcode recv clock (Suc k) salast seq done es =
     (case recv (seq + 1) es of
        None \<Rightarrow> None
      | Some (Inl e) \<Rightarrow> Some (Inl e)
      | Some (Inr (code, ans, es)) \<Rightarrow>
          let (out, salast, done) =
            (case (if code = - 3 then None else ans) of
               None \<Rightarrow> (Star, salast, done)
             | Some (a, tv) \<Rightarrow>
                 (Answer (if Some a = salast then None else Some a) (micros (tv_sub tv (clock (seq + 1))))
                    (if code \<ge> 0 then Some (icmpcode code) else None),
                  Some a, done \<or> code = - 1))
          in map_option (map_sum id (\<lambda>(outs, r). (out # outs, r))) (probes icmpcode recv clock k salast (seq + 1) done es))"

fun hops :: "(int \<Rightarrow> string) \<Rightarrow> (int \<Rightarrow> 'a tr_event list \<Rightarrow> (trace_error + int \<times> ('a \<times> timeval) option \<times> 'a tr_event list) option) \<Rightarrow>
    (int \<Rightarrow> timeval) \<Rightarrow> nat \<Rightarrow> nat \<Rightarrow> int \<Rightarrow> int \<Rightarrow> 'a tr_event list \<Rightarrow> (trace_error + (int \<times> 'a tr_out list) list \<times> int) option" where
  "hops icmpcode recv clock nprobes 0 ttl seq es = Some (Inr ([], seq))"
| "hops icmpcode recv clock nprobes (Suc n) ttl seq es =
     (case probes icmpcode recv clock nprobes None seq False es of
        None \<Rightarrow> None
      | Some (Inl e) \<Rightarrow> Some (Inl e)
      | Some (Inr (outs, seq, done, es)) \<Rightarrow>
          if done then Some (Inr ([(ttl, outs)], seq))
          else map_option (map_sum id (\<lambda>(lines, r). ((ttl, outs) # lines, r))) (hops icmpcode recv clock nprobes n (ttl + 1) seq es))"

definition traceloop :: "(int \<Rightarrow> string) \<Rightarrow> (int \<Rightarrow> 'a tr_event list \<Rightarrow> (trace_error + int \<times> ('a \<times> timeval) option \<times> 'a tr_event list) option) \<Rightarrow>
    (int \<Rightarrow> timeval) \<Rightarrow> nat \<Rightarrow> nat \<Rightarrow> 'a tr_event list \<Rightarrow> (trace_error + (int \<times> 'a tr_out list) list \<times> int) option" where
  "traceloop icmpcode recv clock nprobes max_ttl es = hops icmpcode recv clock nprobes max_ttl 1 0 es"
section \<open>A route that answers\<close>

text \<open>The events while \<open>k\<close> probes after the probe \<open>seq\<close> are answered by \<open>a\<close>, with other messages in between, and the round trip times.
  \<open>noise seq e\<close>: the event is not an answer to the probe \<open>seq\<close>; \<open>reply code seq buf n\<close>: the message is, with this value.\<close>

fun line_events :: "(int \<Rightarrow> 'a tr_event \<Rightarrow> bool) \<Rightarrow> (int \<Rightarrow> int \<Rightarrow> byte list \<Rightarrow> int \<Rightarrow> bool) \<Rightarrow> (int \<Rightarrow> timeval) \<Rightarrow> 'a \<Rightarrow> int \<Rightarrow> nat \<Rightarrow> int \<Rightarrow>
    'a tr_event list \<Rightarrow> int list \<Rightarrow> 'a tr_event list \<Rightarrow> bool" where
  "line_events noise reply clock a code 0 seq es ts rest \<longleftrightarrow> es = rest \<and> ts = []"
| "line_events noise reply clock a code (Suc k) seq es ts rest \<longleftrightarrow>
     (\<exists>pre buf n tv es' ts'. es = pre @ Tr_packet a buf n tv # es' \<and> (\<forall>e \<in> set pre. noise (seq + 1) e) \<and>
        reply code (seq + 1) buf n \<and> ts = (micros tv - micros (clock (seq + 1))) # ts' \<and>
        line_events noise reply clock a code k (seq + 1) es' ts' rest)"

text \<open>The hops of a route, the last of which is the destination.\<close>

fun path_events :: "(int \<Rightarrow> 'a tr_event \<Rightarrow> bool) \<Rightarrow> (int \<Rightarrow> int \<Rightarrow> byte list \<Rightarrow> int \<Rightarrow> bool) \<Rightarrow> (int \<Rightarrow> timeval) \<Rightarrow> nat \<Rightarrow> 'a list \<Rightarrow> int \<Rightarrow>
    'a tr_event list \<Rightarrow> int list list \<Rightarrow> bool" where
  "path_events noise reply clock k [] seq es tss \<longleftrightarrow> False"
| "path_events noise reply clock k (a # as) seq es tss \<longleftrightarrow>
     (\<exists>ts tss' rest. tss = ts # tss' \<and> line_events noise reply clock a (if as = [] then - 1 else - 2) k seq es ts rest \<and>
        (if as = [] then tss' = [] else path_events noise reply clock k as (seq + int k) rest tss'))"

text \<open>What is printed for it: each hop with its address once and the times of its probes.\<close>

definition hop_line :: "nat \<Rightarrow> 'a option \<Rightarrow> 'a \<Rightarrow> int list \<Rightarrow> 'a tr_out list" where
  "hop_line k salast a ts = map (\<lambda>i. Answer (if i = 0 \<and> salast \<noteq> Some a then Some a else None) (ts ! i) None) [0..<k]"

fun route_lines :: "nat \<Rightarrow> int \<Rightarrow> 'a list \<Rightarrow> int list list \<Rightarrow> (int \<times> 'a tr_out list) list" where
  "route_lines k ttl (a # as) (ts # tss) = (ttl, hop_line k None a ts) # route_lines k (ttl + 1) as tss"
| "route_lines k ttl _ _ = []"

locale probe_receiver =
  fixes recv :: "int \<Rightarrow> 'a tr_event list \<Rightarrow> (trace_error + int \<times> ('a \<times> timeval) option \<times> 'a tr_event list) option"
    and noise :: "int \<Rightarrow> 'a tr_event \<Rightarrow> bool" and reply :: "int \<Rightarrow> int \<Rightarrow> byte list \<Rightarrow> int \<Rightarrow> bool"
  assumes recv_law: "\<forall>e \<in> set pre. noise seq e \<Longrightarrow> reply code seq buf n \<Longrightarrow>
      recv seq (pre @ Tr_packet a buf n tv # es) = Some (Inr (code, Some (a, tv), es))"
begin

lemma line_probes:
  "line_events noise reply clock a code k seq es ts rest \<Longrightarrow> code = - 1 \<or> code = - 2 \<Longrightarrow>
   probes icmpcode recv clock k salast seq done es =
     Some (Inr (hop_line k salast a ts, seq + int k, done \<or> 0 < k \<and> code = - 1, rest))"
proof (induction k arbitrary: seq es ts salast "done")
  case (Suc k)
  then obtain pre buf n tv es' ts' where e: "es = pre @ Tr_packet a buf n tv # es'" "\<forall>e \<in> set pre. noise (seq + 1) e"
    "reply code (seq + 1) buf n" "ts = (micros tv - micros (clock (seq + 1))) # ts'"
    "line_events noise reply clock a code k (seq + 1) es' ts' rest" by auto
  note r = recv_law [OF e(2,3), of a tv es']
  note ih = Suc.IH [OF e(5) Suc.prems(2), of "Some a" "done \<or> code = - 1"]
  show ?case
    using r ih Suc.prems(2) by (auto simp: e(1,4) tv_sub_micros hop_line_def upt_conv_Cons map_Suc_upt [symmetric] o_def simp del: upt_Suc)
qed (simp add: hop_line_def)

lemma path_hops:
  "path_events noise reply clock k path seq es tss \<Longrightarrow> 0 < k \<Longrightarrow> length path \<le> n \<Longrightarrow>
   hops icmpcode recv clock k n ttl seq es = Some (Inr (route_lines k ttl path tss, seq + int (k * length path)))"
proof (induction path arbitrary: n ttl seq es tss)
  case (Cons a as)
  then obtain m where m: "n = Suc m" by (cases n) auto
  obtain ts tss' rest where e: "tss = ts # tss'" "n = Suc m" "line_events noise reply clock a (if as = [] then - 1 else - 2) k seq es ts rest"
    "if as = [] then tss' = [] else path_events noise reply clock k as (seq + int k) rest tss'"
    using Cons.prems(1) m by (simp only: path_events.simps) blast
  note p = line_probes [OF e(3), of icmpcode None False]
  show ?case
  proof (cases "as = []")
    case True
    then show ?thesis using p e Cons.prems(2) by simp
  next
    case False
    then have "hops icmpcode recv clock k m (ttl + 1) (seq + int k) rest = Some (Inr (route_lines k (ttl + 1) as tss', seq + int k + int (k * length as)))"
      using Cons.IH [of "seq + int k" rest tss' m "ttl + 1"] e Cons.prems by simp
    then show ?thesis using p e False by (simp add: algebra_simps)
  qed
qed simp

end

section \<open>The two protocols\<close>

text \<open>The messages, as the protocols have them.  \<open>quotes_v4 p sp dp icmp\<close>: the ICMP message \<open>icmp\<close> quotes, after its header of 8 bytes, the IP header of a datagram of the protocol
  \<open>p\<close> and at least the ports \<open>sp\<close> and \<open>dp\<close> that follow it.  A message answers a probe when it quotes it and is a time exceeded or a port unreachable message.\<close>

definition quotes_v4 :: "byte \<Rightarrow> 16 word \<Rightarrow> 16 word \<Rightarrow> byte list \<Rightarrow> bool" where
  "quotes_v4 p sp dp icmp \<longleftrightarrow> (\<exists>head hip rest. icmp = head @ hip @ net_half sp @ net_half dp @ rest \<and> length head = 8 \<and> ip4_header p hip)"

definition in_packet_v4 :: "(byte list \<Rightarrow> bool) \<Rightarrow> byte list \<Rightarrow> int \<Rightarrow> bool" where
  "in_packet_v4 P buf n \<longleftrightarrow> (\<exists>h icmp junk. buf = h @ icmp @ junk \<and> n = int (length h + length icmp) \<and> ip4_header 1 h \<and> P icmp)"

definition reply_v4 :: "16 word \<Rightarrow> 16 word \<Rightarrow> int \<Rightarrow> int \<Rightarrow> byte list \<Rightarrow> int \<Rightarrow> bool" where
  "reply_v4 sport dport code seq = in_packet_v4 (\<lambda>icmp. quotes_v4 17 sport (word_of_int (uint dport + seq)) icmp \<and>
     (code = - 2 \<and> take 2 icmp = [11, 0] \<or> code = - 1 \<and> take 2 icmp = [3, 3]))"

text \<open>The messages that do not answer it: those of another type; those cut off before the end of the ports; and those that quote another datagram, of another
  protocol, from another port or to another port.\<close>

definition stray_v4 :: "16 word \<Rightarrow> 16 word \<Rightarrow> byte list \<Rightarrow> bool" where
  "stray_v4 sp dp icmp \<longleftrightarrow>
     8 \<le> length icmp \<and> icmp ! 0 \<noteq> 3 \<and> \<not> (icmp ! 0 = 11 \<and> icmp ! 1 = 0) \<or>
     (\<exists>p head hip rest k. icmp = take k (head @ hip @ rest) \<and> k < 8 + length hip + 4 \<and> length head = 8 \<and> ip4_header p hip) \<or>
     (\<exists>p sp' dp'. quotes_v4 p sp' dp' icmp \<and> (p, sp', dp') \<noteq> (17, sp, dp))"

definition noise_v4 :: "16 word \<Rightarrow> 16 word \<Rightarrow> int \<Rightarrow> 'a tr_event \<Rightarrow> bool" where
  "noise_v4 sport dport seq e \<longleftrightarrow> (case e of
       Tr_packet a buf n tv \<Rightarrow> in_packet_v4 (stray_v4 sport (word_of_int (uint dport + seq))) buf n
     | Tr_intr \<Rightarrow> True
     | _ \<Rightarrow> False)"

lemma recv_loop_noise:
  assumes "\<And>e. noise e \<Longrightarrow> e = Tr_intr \<or> (\<exists>a buf n tv. e = Tr_packet a buf n tv \<and> verdict buf n = None)"
  shows "\<forall>e \<in> set pre. noise e \<Longrightarrow> recv_loop verdict False (pre @ es) = recv_loop verdict False es"
proof (induction pre)
  case (Cons e pre)
  then show ?case using assms [of e] by auto
qed simp

lemma length_net_half [simp]: "length (net_half w) = 2"
  by (simp add: net_half_def)

lemma net_half_inject [simp]: "net_half v = net_half w \<longleftrightarrow> v = w"
proof
  assume "net_half v = net_half w"
  then have "word_bytes 2 v = word_bytes 2 w" by (simp add: net_half_def numeral_2_eq_2)
  then have "bytes_word (word_bytes 2 v) = (bytes_word (word_bytes 2 w) :: 16 word)" by (rule arg_cong)
  then show "v = w" by (simp add: bytes_word_all)
qed simp

lemma take2_nth: "take 2 xs = [a, b] \<Longrightarrow> xs ! 0 = a \<and> xs ! 1 = b"
  by (metis One_nat_def Suc_1 lessI less_Suc_eq_0_disj nth_Cons_0 nth_Cons_Suc nth_take)

text \<open>What the filter of \<^verbatim>\<open>recv_v4\<close> sees of a packet.\<close>

lemma head_bytes: "8 \<le> length xs \<Longrightarrow> (xs @ ys) ! 0 = xs ! 0 \<and> (xs @ ys) ! 1 = xs ! 1"
  by (cases xs) (auto simp: nth_append)

lemma verdict_v4_packet:
  assumes "buf = h @ icmp @ junk" "n = int (length h + length icmp)" "ip4_header p h"
  shows "verdict_v4 sport dport seq buf n =
    (let hip = drop 8 (icmp @ junk); hlen2 = 4 * unat (hip ! 0 AND 0xf); mine = (hip ! 9 = 17 \<and> probe_ports sport dport seq (drop hlen2 hip)) in
     if length icmp < 28 \<or> length icmp < 12 + hlen2 \<or> \<not> mine then None
     else if icmp ! 0 = 11 \<and> icmp ! 1 = 0 then Some (- 2)
     else if icmp ! 0 = 3 then Some (if icmp ! 1 = 3 then - 1 else uint (icmp ! 1)) else None)"
proof -
  have h: "4 * unat (buf ! 0 AND 0xf) = length h" using ip4_headerD(1) [OF assms(3), of "icmp @ junk"] assms(1) by simp
  have d: "drop (length h) buf = icmp @ junk" "n - int (length h) = int (length icmp)" using assms(1,2) by simp_all
  have t: "(icmp @ junk) ! 0 = icmp ! 0" "(icmp @ junk) ! 1 = icmp ! 1" if "8 \<le> length icmp" using head_bytes [OF that] by simp_all
  define hip where "hip = drop 8 (icmp @ junk)"
  define l where "l = 4 * unat (hip ! 0 AND 0xf)"
  have i: "int (length icmp) < 8 + int l + 4 \<longleftrightarrow> length icmp < 12 + l" "int (length icmp) < 8 + 20 \<longleftrightarrow> length icmp < 28" by linarith+
  show ?thesis
  proof (cases "8 \<le> length icmp")
    case True
    then show ?thesis unfolding verdict_v4_def Let_def h d t [OF True] hip_def [symmetric] l_def [symmetric] i by auto
  next
    case False
    then show ?thesis unfolding verdict_v4_def Let_def h d by auto
  qed
qed

lemma verdict_v4_quotes:
  assumes "buf = h @ icmp @ junk" "n = int (length h + length icmp)" "ip4_header p' h" "quotes_v4 p sp dp icmp"
  shows "verdict_v4 sport dport seq buf n =
    (if (p, sp, dp) \<noteq> (17, sport, word_of_int (uint dport + seq)) then None
     else if icmp ! 0 = 11 \<and> icmp ! 1 = 0 then Some (- 2)
     else if icmp ! 0 = 3 then Some (if icmp ! 1 = 3 then - 1 else uint (icmp ! 1)) else None)"
proof -
  obtain head hip rest where q: "icmp = head @ hip @ net_half sp @ net_half dp @ rest" "length head = 8" "ip4_header p hip"
    using assms(4) by (auto simp: quotes_v4_def)
  let ?udp = "net_half sp @ net_half dp @ rest @ junk"
  note h = ip4_headerD [OF q(3), of ?udp]
  have 1: "drop 8 (icmp @ junk) = hip @ ?udp" "drop (length hip) (hip @ ?udp) = ?udp" using q(1,2) by simp_all
  have 2: "probe_ports sport dport seq ?udp \<longleftrightarrow> sp = sport \<and> dp = word_of_int (uint dport + seq)" by (simp add: probe_ports_def)
  have 3: "\<not> length icmp < 28" "\<not> length icmp < 12 + length hip" using q by (simp_all add: ip4_header_def)
  show ?thesis unfolding verdict_v4_packet [OF assms(1-3)] 1 Let_def h 1(2) 2 using 3 by auto
qed

lemma verdict_v4_reply:
  assumes "reply_v4 sport dport code seq buf n"
  shows "verdict_v4 sport dport seq buf n = Some code"
proof -
  obtain h icmp junk where b: "buf = h @ icmp @ junk" "n = int (length h + length icmp)" "ip4_header 1 h" "quotes_v4 17 sport (word_of_int (uint dport + seq)) icmp"
    and c: "code = - 2 \<and> take 2 icmp = [11, 0] \<or> code = - 1 \<and> take 2 icmp = [3, 3]"
    using assms by (auto simp: reply_v4_def in_packet_v4_def)
  show ?thesis unfolding verdict_v4_quotes [OF b] using c take2_nth [of icmp] by auto
qed

lemma verdict_v4_stray:
  assumes "in_packet_v4 (stray_v4 sport (word_of_int (uint dport + seq))) buf n"
  shows "verdict_v4 sport dport seq buf n = None"
proof -
  obtain h icmp junk where b: "buf = h @ icmp @ junk" "n = int (length h + length icmp)" "ip4_header 1 h" "stray_v4 sport (word_of_int (uint dport + seq)) icmp"
    using assms by (auto simp: in_packet_v4_def)
  show ?thesis using b(4) unfolding stray_v4_def
  proof (elim disjE exE conjE)
    fix p head hip rest k
    assume c: "icmp = take k (head @ hip @ rest)" "k < 8 + length hip + 4" "length head = 8" "ip4_header p hip"
    show ?thesis
    proof (cases "length icmp < 28")
      case False
      let ?w = "head @ hip @ rest"
      have "8 < length icmp" "8 < k" using False unfolding c(1) by (simp_all only: length_take)
      then have "drop 8 (icmp @ junk) ! 0 = icmp ! 8" "icmp ! 8 = ?w ! 8" unfolding c(1) by (simp_all del: take_append add: nth_append_left)
      moreover have "?w ! 8 = (hip @ rest) ! 0" using c(3) by (simp add: nth_append)
      ultimately have "drop 8 (icmp @ junk) ! 0 = (hip @ rest) ! 0" by simp
      then have e: "4 * unat (drop 8 (icmp @ junk) ! 0 AND 0xf) = length hip" using ip4_headerD(1) [OF c(4), of rest] by simp
      have "length icmp < 12 + length hip" using c(2) unfolding c(1) by (simp only: length_take)
      then show ?thesis unfolding verdict_v4_packet [OF b(1-3)] Let_def e by (simp only: simp_thms if_True)
    next
      case True
      then show ?thesis unfolding verdict_v4_packet [OF b(1-3)] Let_def by (simp only: simp_thms if_True)
    qed
  next
    assume "icmp ! 0 \<noteq> 3" "\<not> (icmp ! 0 = 11 \<and> icmp ! 1 = 0)"
    then show ?thesis unfolding verdict_v4_packet [OF b(1-3)] Let_def by (simp only: if_False if_cancel)
  next
    fix p sp dp
    assume q: "quotes_v4 p sp dp icmp" "(p, sp, dp) \<noteq> (17, sport, word_of_int (uint dport + seq))"
    show ?thesis unfolding verdict_v4_quotes [OF b(1-3) q(1)] by (simp only: q(2) if_True not_False_eq_True)
  qed
qed

interpretation trace4: probe_receiver "recv_v4 sport dport" "noise_v4 sport dport" "reply_v4 sport dport"
proof (unfold_locales, goal_cases)
  case (1 pre seq code buf n a tv es)
  have "noise_v4 sport dport seq e \<Longrightarrow> e = Tr_intr \<or> (\<exists>a buf n tv. e = Tr_packet a buf n tv \<and> verdict_v4 sport dport seq buf n = None)" for e :: "'a tr_event"
    using verdict_v4_stray by (cases e) (auto simp: noise_v4_def)
  from recv_loop_noise [where noise = "noise_v4 sport dport seq", OF this 1(1)] show ?case
    using verdict_v4_reply [OF 1(2)] by (simp add: recv_v4_def)
qed

text \<open>For IPv6 a time exceeded message that quotes another datagram is not among the messages that may come in between: it would end the search.\<close>

definition quotes_v6 :: "byte \<Rightarrow> 16 word \<Rightarrow> 16 word \<Rightarrow> byte list \<Rightarrow> bool" where
  "quotes_v6 p sp dp icmp \<longleftrightarrow> (\<exists>head hip6 rest. icmp = head @ hip6 @ net_half sp @ net_half dp @ rest \<and> length head = 8 \<and> ip6_header p hip6)"

definition in_packet_v6 :: "(byte list \<Rightarrow> bool) \<Rightarrow> byte list \<Rightarrow> int \<Rightarrow> bool" where
  "in_packet_v6 P buf n \<longleftrightarrow> (\<exists>icmp junk. buf = icmp @ junk \<and> n = int (length icmp) \<and> P icmp)"

definition reply_v6 :: "16 word \<Rightarrow> 16 word \<Rightarrow> int \<Rightarrow> int \<Rightarrow> byte list \<Rightarrow> int \<Rightarrow> bool" where
  "reply_v6 sport dport code seq = in_packet_v6 (\<lambda>icmp. quotes_v6 17 sport (word_of_int (uint dport + seq)) icmp \<and>
     (code = - 2 \<and> take 2 icmp = [3, 0] \<or> code = - 1 \<and> take 2 icmp = [1, 4]))"

definition stray_v6 :: "16 word \<Rightarrow> 16 word \<Rightarrow> byte list \<Rightarrow> bool" where
  "stray_v6 sp dp icmp \<longleftrightarrow>
     length icmp < 52 \<or>
     icmp ! 0 \<noteq> 1 \<and> \<not> (icmp ! 0 = 3 \<and> icmp ! 1 = 0) \<or>
     icmp ! 0 = 1 \<and> (\<exists>p sp' dp'. quotes_v6 p sp' dp' icmp \<and> (p, sp', dp') \<noteq> (17, sp, dp))"

definition noise_v6 :: "16 word \<Rightarrow> 16 word \<Rightarrow> int \<Rightarrow> 'a tr_event \<Rightarrow> bool" where
  "noise_v6 sport dport seq e \<longleftrightarrow> (case e of
       Tr_packet a buf n tv \<Rightarrow> in_packet_v6 (stray_v6 sport (word_of_int (uint dport + seq))) buf n
     | Tr_intr \<Rightarrow> True
     | _ \<Rightarrow> False)"

lemma verdict_v6_quotes:
  assumes "buf = icmp @ junk" "n = int (length icmp)" "quotes_v6 p sp dp icmp"
  shows "verdict_v6 ret sport dport seq buf n =
    (let mine = ((p, sp, dp) = (17, sport, word_of_int (uint dport + seq))) in
     if icmp ! 0 = 3 \<and> icmp ! 1 = 0 then Some (if mine then - 2 else ret)
     else if icmp ! 0 = 1 \<and> mine then Some (if icmp ! 1 = 4 then - 1 else uint (icmp ! 1)) else None)"
proof -
  obtain head hip6 rest where q: "icmp = head @ hip6 @ net_half sp @ net_half dp @ rest" "length head = 8" "ip6_header p hip6"
    using assms(3) by (auto simp: quotes_v6_def)
  let ?udp = "net_half sp @ net_half dp @ rest @ junk"
  have 1: "drop 8 buf = hip6 @ ?udp" "drop 40 (hip6 @ ?udp) = ?udp" "(hip6 @ ?udp) ! 6 = p" using assms(1) q by (simp_all add: ip6_header_def nth_append)
  have 2: "probe_ports sport dport seq ?udp \<longleftrightarrow> sp = sport \<and> dp = word_of_int (uint dport + seq)" by (simp add: probe_ports_def)
  have 3: "buf ! 0 = icmp ! 0" "buf ! 1 = icmp ! 1" using assms(1) q(1,2) by (auto simp: nth_append)
  have 4: "52 \<le> length icmp" using q by (simp add: ip6_header_def)
  then have "\<not> n < 8" "\<not> n < 8 + 40 + 4" using assms(2) by linarith+
  then show ?thesis unfolding verdict_v6_def 1 Let_def 1(2,3) 2 3 by auto
qed

lemma verdict_v6_reply:
  assumes "reply_v6 sport dport code seq buf n"
  shows "verdict_v6 ret sport dport seq buf n = Some code"
proof -
  obtain icmp junk where b: "buf = icmp @ junk" "n = int (length icmp)" "quotes_v6 17 sport (word_of_int (uint dport + seq)) icmp"
    and c: "code = - 2 \<and> take 2 icmp = [3, 0] \<or> code = - 1 \<and> take 2 icmp = [1, 4]" using assms by (auto simp: reply_v6_def in_packet_v6_def)
  show ?thesis unfolding verdict_v6_quotes [OF b] using c take2_nth [of icmp] by auto
qed

lemma verdict_v6_stray:
  assumes "in_packet_v6 (stray_v6 sport (word_of_int (uint dport + seq))) buf n"
  shows "verdict_v6 ret sport dport seq buf n = None"
proof -
  obtain icmp junk where b: "buf = icmp @ junk" "n = int (length icmp)" "stray_v6 sport (word_of_int (uint dport + seq)) icmp"
    using assms by (auto simp: in_packet_v6_def)
  show ?thesis
  proof (cases "length icmp < 52")
    case True
    then show ?thesis using b(2) by (auto simp: verdict_v6_def Let_def)
  next
    case False
    then have "buf ! 0 = icmp ! 0" "buf ! 1 = icmp ! 1" using b(1) head_bytes [of icmp] by simp_all
    then consider "buf ! 0 \<noteq> 1" "\<not> (buf ! 0 = 3 \<and> buf ! 1 = 0)" | p sp dp where "icmp ! 0 = 1" "quotes_v6 p sp dp icmp" "(p, sp, dp) \<noteq> (17, sport, word_of_int (uint dport + seq))"
      using b(3) False by (auto simp: stray_v6_def)
    then show ?thesis
    proof cases
      case 1
      then show ?thesis by (auto simp: verdict_v6_def Let_def)
    next
      case 2
      then show ?thesis unfolding verdict_v6_quotes [OF b(1,2) 2(2)] Let_def by auto
    qed
  qed
qed

interpretation trace6: probe_receiver "recv_v6 ret sport dport" "noise_v6 sport dport" "reply_v6 sport dport"
proof (unfold_locales, goal_cases)
  case (1 pre seq code buf n a tv es)
  have "noise_v6 sport dport seq e \<Longrightarrow> e = Tr_intr \<or> (\<exists>a buf n tv. e = Tr_packet a buf n tv \<and> verdict_v6 ret sport dport seq buf n = None)" for e :: "'a tr_event"
    using verdict_v6_stray by (cases e) (auto simp: noise_v6_def)
  from recv_loop_noise [where noise = "noise_v6 sport dport seq", OF this 1(1)] show ?case
    using verdict_v6_reply [OF 1(2)] by (simp add: recv_v6_def)
qed

section \<open>Properties\<close>

text \<open>C37: On an IPv4 route whose routers and destination answer every probe, \<^verbatim>\<open>traceloop\<close> prints the hops of the route in
  order, each with its address once and with the round trip time of each probe, and stops after the destination, having sent \<^verbatim>\<open>nprobes\<close> probes
  to each hop with the numbers 1, 2, and so on.  Before each answer any number of other ICMP messages may arrive: messages of other types, messages that are cut off, and
  messages for another datagram, be it of another protocol, from another port (the probe of another process) or to another port (an earlier or later probe of this one).\<close>

theorem traceroute_v4_finds_route:
  assumes "path_events (noise_v4 sport dport) (reply_v4 sport dport) clock nprobes route 0 es tss"
    and "0 < nprobes" "length route \<le> max_ttl"
  shows "traceloop icmpcode_v4 (recv_v4 sport dport) clock nprobes max_ttl es =
    Some (Inr (route_lines nprobes 1 route tss, int (nprobes * length route)))"
  using trace4.path_hops [OF assms] by (simp add: traceloop_def)

text \<open>The answer of the destination arrives after an interrupt and the answer to the probe of another process, which was sent to the same port.\<close>

definition example_ip :: "byte \<Rightarrow> byte list" where
  "example_ip proto = [0x45, 0, 0, 0, 0, 0, 0, 0, 64, proto, 0, 0, 0, 0, 0, 0, 0, 0, 0, 0]"

definition example_unreach :: "16 word \<Rightarrow> byte list" where
  "example_unreach sp = [3, 3, 0, 0, 0, 0, 0, 0] @ example_ip 17 @ net_half sp @ net_half 33435 @ []"

lemma example_quotes: "quotes_v4 17 sp 33435 (example_unreach sp)" "ip4_header p (example_ip p)" "length (example_unreach sp) = 32"
proof -
  show i: "ip4_header p (example_ip p)" for p by (simp add: ip4_header_def example_ip_def)
  show "quotes_v4 17 sp 33435 (example_unreach sp)" unfolding quotes_v4_def example_unreach_def
    by (rule exI [of _ "[3, 3, 0, 0, 0, 0, 0, 0]"], rule exI [of _ "example_ip 17"], rule exI [of _ "[]"]) (simp add: i)
  show "length (example_unreach sp) = 32" by (simp add: example_unreach_def example_ip_def)
qed

lemma example_in_packet: "P (example_unreach sp) \<Longrightarrow> in_packet_v4 P (example_ip 1 @ example_unreach sp @ []) 52"
  unfolding in_packet_v4_def
  by (rule exI [of _ "example_ip 1"], rule exI [of _ "example_unreach sp"], rule exI [of _ "[]"]) (simp add: example_quotes, simp add: example_ip_def)

theorem traceroute_v4_finds_route_witness:
  "traceloop icmpcode_v4 (recv_v4 0x8001 33434) (\<lambda>_. \<lparr>tv_sec = 1, tv_usec = 0\<rparr>) 1 30
     [Tr_intr, Tr_packet ''other'' (example_ip 1 @ example_unreach 0x8002 @ []) 52 \<lparr>tv_sec = 1, tv_usec = 5\<rparr>,
      Tr_packet ''host'' (example_ip 1 @ example_unreach 0x8001 @ []) 52 \<lparr>tv_sec = 1, tv_usec = 7\<rparr>] =
   Some (Inr ([(1, [Answer (Some ''host'') 7 None])], 1))"
proof -
  let ?pre = "[Tr_intr, Tr_packet ''other'' (example_ip 1 @ example_unreach 0x8002 @ []) 52 \<lparr>tv_sec = 1, tv_usec = 5\<rparr>]"
  let ?es = "?pre @ [Tr_packet ''host'' (example_ip 1 @ example_unreach 0x8001 @ []) 52 \<lparr>tv_sec = 1, tv_usec = 7\<rparr>]"
  have "stray_v4 0x8001 33435 (example_unreach 0x8002)" unfolding stray_v4_def using example_quotes(1) [where sp = "0x8002"] by fastforce
  then have n: "\<forall>e \<in> set ?pre. noise_v4 0x8001 33434 (0 + 1) e" using example_in_packet [where P = "stray_v4 0x8001 33435" and sp = "0x8002"] by (simp add: noise_v4_def)
  have "take 2 (example_unreach 0x8001) = [3, 3]" by (simp add: example_unreach_def)
  then have r: "reply_v4 0x8001 33434 (- 1) (0 + 1) (example_ip 1 @ example_unreach 0x8001 @ []) 52"
    unfolding reply_v4_def by (intro example_in_packet) (simp add: example_quotes)
  have "line_events (noise_v4 0x8001 33434) (reply_v4 0x8001 33434) (\<lambda>_. \<lparr>tv_sec = 1, tv_usec = 0\<rparr>) ''host'' (- 1) (Suc 0) 0 ?es [7] []"
    unfolding line_events.simps
    by (rule exI [of _ ?pre], intro exI [of _ "[]"] exI conjI, rule refl, rule n, rule r) (simp_all add: micros_def)
  then have "path_events (noise_v4 0x8001 33434) (reply_v4 0x8001 33434) (\<lambda>_. \<lparr>tv_sec = 1, tv_usec = 0\<rparr>) 1 [''host''] 0 ?es [[7]]"
    unfolding path_events.simps One_nat_def by (intro exI [of _ "[7]"] exI [of _ "[]"]) simp
  from traceroute_v4_finds_route [OF this, where max_ttl = 30] show ?thesis by (simp add: hop_line_def)
qed

text \<open>The same for IPv6, with fewer messages that may arrive in between.\<close>

lemma traceroute_v6_finds_route:
  assumes "path_events (noise_v6 sport dport) (reply_v6 sport dport) clock nprobes route 0 es tss"
    and "0 < nprobes" "length route \<le> max_ttl"
  shows "traceloop icmpcode_v6 (recv_v6 ret sport dport) clock nprobes max_ttl es =
    Some (Inr (route_lines nprobes 1 route tss, int (nprobes * length route)))"
  using trace6.path_hops [OF assms] by (simp add: traceloop_def)

text \<open>A time exceeded message for any other probe, even for another program, is taken for an answer, with a value that was never set.\<close>

lemma recv_v6_takes_any:
  assumes "buf ! 0 = 3" "buf ! 1 = 0" "52 \<le> n" "\<not> probe_ports sport dport seq (drop 40 (drop 8 buf))"
  shows "recv_v6 ret sport dport seq (Tr_packet a buf n tv # es) = Some (Inr (ret, Some (a, tv), es))"
  using assms by (simp add: recv_v6_def verdict_v6_def Let_def)

section \<open>The loops end\<close>

definition is_alarm :: "'a tr_event \<Rightarrow> bool" where
  "is_alarm e \<longleftrightarrow> e = Tr_alarm"

lemma recv_loop_ends:
  assumes "0 < length (filter is_alarm es)"
  shows "\<exists>r. recv_loop verdict False es = Some r \<and>
    (\<forall>code ans es'. r = Inr (code, ans, es') \<longrightarrow> length (filter is_alarm es) \<le> Suc (length (filter is_alarm es')))"
  using assms
proof (induction es)
  case (Cons e es)
  then show ?case by (cases e) (auto simp: is_alarm_def split: option.splits)
qed simp

lemma probes_end:
  assumes "k \<le> length (filter is_alarm es)" "recv = (\<lambda>seq. recv_loop (verdict seq) False)"
  shows "\<exists>r. probes icmpcode recv clock k salast seq done es = Some r \<and>
    (\<forall>outs seq' done' es'. r = Inr (outs, seq', done', es') \<longrightarrow> seq' = seq + int k \<and> length outs = k \<and>
      length (filter is_alarm es) \<le> k + length (filter is_alarm es'))"
  using assms(1)
proof (induction k arbitrary: salast seq "done" es)
  case (Suc k)
  then have "0 < length (filter is_alarm es)" by linarith
  then obtain r where r: "recv (seq + 1) es = Some r"
    "\<And>code ans es'. r = Inr (code, ans, es') \<Longrightarrow> length (filter is_alarm es) \<le> Suc (length (filter is_alarm es'))"
    using recv_loop_ends [of es "verdict (seq + 1)"] unfolding assms(2) by blast
  show ?case
  proof (cases r)
    case (Inl e)
    then show ?thesis using r(1) by simp
  next
    case (Inr c)
    then obtain code ans es' where c: "r = Inr (code, ans, es')" by (cases c) auto
    then have l: "k \<le> length (filter is_alarm es')" "length (filter is_alarm es) \<le> Suc (length (filter is_alarm es'))" using r(2) Suc.prems by force+
    obtain out salast' done' where o: "(case (if code = - 3 then None else ans) of
               None \<Rightarrow> (Star, salast, done)
             | Some (a, tv) \<Rightarrow>
                 (Answer (if Some a = salast then None else Some a) (micros (tv_sub tv (clock (seq + 1))))
                    (if code \<ge> 0 then Some (icmpcode code) else None),
                  Some a, done \<or> code = - 1)) = (out, salast', done')" by (rule prod_cases3)
    obtain q where q: "probes icmpcode recv clock k salast' (seq + 1) done' es' = Some q"
      "\<And>outs seq' done' es''. q = Inr (outs, seq', done', es'') \<Longrightarrow> seq' = seq + 1 + int k \<and> length outs = k \<and>
         length (filter is_alarm es') \<le> k + length (filter is_alarm es'')"
      using Suc.IH [OF l(1), of salast' "seq + 1" done'] by blast
    have "probes icmpcode recv clock (Suc k) salast seq done es = Some (map_sum id (\<lambda>(outs, r). (out # outs, r)) q)"
      using r(1) c o q(1) by (simp only: probes.simps option.case sum.case prod.case Let_def option.map)
    then show ?thesis using q(2) l(2) by (cases q) (force split: prod.splits)+
  qed
qed simp
lemma hops_end:
  assumes "k * n \<le> length (filter is_alarm es)" "recv = (\<lambda>seq. recv_loop (verdict seq) False)"
  shows "\<exists>r. hops icmpcode recv clock k n ttl seq es = Some r \<and>
    (\<forall>lines seq'. r = Inr (lines, seq') \<longrightarrow> length lines \<le> n \<and> seq' = seq + int (k * length lines) \<and> (\<forall>l \<in> set lines. length (snd l) = k))"
  using assms(1)
proof (induction n arbitrary: ttl seq es)
  case (Suc n)
  then have "k \<le> length (filter is_alarm es)" by simp
  from probes_end [OF this assms(2), where icmpcode = icmpcode and clock = clock and salast = None and seq = seq] obtain r where r: "probes icmpcode recv clock k None seq False es = Some r"
    "\<And>outs seq' done' es'. r = Inr (outs, seq', done', es') \<Longrightarrow> seq' = seq + int k \<and> length outs = k \<and>
      length (filter is_alarm es) \<le> k + length (filter is_alarm es')" by blast
  show ?case
  proof (cases r)
    case (Inl e)
    then show ?thesis using r(1) by simp
  next
    case (Inr c)
    then obtain outs seq' done' es' where c: "r = Inr (outs, seq', done', es')" by (cases c) auto
    note l = r(2) [OF c]
    then have "k * n \<le> length (filter is_alarm es')" using Suc.prems by simp
    then obtain q where q: "hops icmpcode recv clock k n (ttl + 1) seq' es' = Some q"
      "\<And>lines seq''. q = Inr (lines, seq'') \<Longrightarrow> length lines \<le> n \<and> seq'' = seq' + int (k * length lines) \<and> (\<forall>l \<in> set lines. length (snd l) = k)"
      using Suc.IH by blast
    show ?thesis
    proof (cases "done'")
      case True
      then show ?thesis using r(1) c l by simp
    next
      case False
      then have "hops icmpcode recv clock k (Suc n) ttl seq es = Some (map_sum id (\<lambda>(lines, r). ((ttl, outs) # lines, r)) q)"
        using r(1) c q(1) by simp
      then show ?thesis using q(2) l by (cases q) (force split: prod.splits simp: algebra_simps)+
    qed
  qed
qed simp

text \<open>Whatever arrives, when the alarm comes for each probe \<^verbatim>\<open>traceloop\<close> ends: with an error of \<^verbatim>\<open>recvfrom\<close>, or with at most \<^verbatim>\<open>max_ttl\<close> lines
  of \<^verbatim>\<open>nprobes\<close> results each.\<close>

theorem traceroute_ends:
  assumes "nprobes * max_ttl \<le> length (filter is_alarm es)"
  shows "traceloop icmpcode_v4 (recv_v4 sport dport) clock nprobes max_ttl es = Some (Inl Recvfrom_error) \<or>
    (\<exists>lines. traceloop icmpcode_v4 (recv_v4 sport dport) clock nprobes max_ttl es = Some (Inr (lines, int (nprobes * length lines))) \<and>
      length lines \<le> max_ttl \<and> (\<forall>l \<in> set lines. length (snd l) = nprobes))"
proof -
  have v: "recv_v4 sport dport = (\<lambda>seq. recv_loop (verdict_v4 sport dport seq) False)" by (simp add: fun_eq_iff recv_v4_def)
  obtain r where r: "traceloop icmpcode_v4 (recv_v4 sport dport) clock nprobes max_ttl es = Some r"
    "\<And>lines seq'. r = Inr (lines, seq') \<Longrightarrow> length lines \<le> max_ttl \<and> seq' = int (nprobes * length lines) \<and> (\<forall>l \<in> set lines. length (snd l) = nprobes)"
    using hops_end [OF assms v, where icmpcode = icmpcode_v4 and clock = clock and ttl = 1 and seq = 0] unfolding traceloop_def by auto
  show ?thesis
  proof (cases r)
    case (Inl e)
    then show ?thesis using r(1) by (cases e) simp
  next
    case (Inr c)
    then show ?thesis using r by (cases c) auto
  qed
qed

theorem traceroute_ends_witness:
  "\<exists>lines. traceloop icmpcode_v4 (recv_v4 0x8001 33434) (\<lambda>_. \<lparr>tv_sec = 1, tv_usec = 0\<rparr>) 1 2 [Tr_alarm, Tr_alarm] =
     Some (Inr (lines :: (int \<times> string tr_out list) list, int (1 * length lines)))"
proof -
  have "traceloop icmpcode_v4 (recv_v4 0x8001 33434) (\<lambda>_. \<lparr>tv_sec = 1, tv_usec = 0\<rparr>) 1 2 [Tr_alarm, Tr_alarm :: string tr_event] \<noteq> Some (Inl Recvfrom_error)"
    by (simp add: traceloop_def numeral_2_eq_2 recv_v4_def)
  then show ?thesis using traceroute_ends [of 1 2 "[Tr_alarm, Tr_alarm :: string tr_event]", where sport = "0x8001" and dport = "33434" and clock = "\<lambda>_. \<lparr>tv_sec = 1, tv_usec = 0\<rparr>"]
    by (auto simp: is_alarm_def)
qed

end
