(* ===== verification/Ftw.thy ===== *)
theory Ftw
  imports C_Prelude
begin

text \<open>
  The walk through a file hierarchy, \<^verbatim>\<open>apue.3e/filedir/ftw8.c\<close>: \<^verbatim>\<open>myftw\<close> and \<^verbatim>\<open>dopath\<close> with the one buffer for path names that all
  levels of the recursion share, and \<^verbatim>\<open>myfunc\<close>, which counts the files by type.  A hierarchy is described by a tree; the
  walk calls the function for each node of it once, a directory before what it contains.
\<close>

section \<open>The file system\<close>

datatype ftype = S_REG | S_DIR | S_BLK | S_CHR | S_FIFO | S_LNK | S_SOCK | S_OTHER

text \<open>\<^verbatim>\<open>lstat\<close>, and \<^verbatim>\<open>opendir\<close> with the names that \<^verbatim>\<open>readdir\<close> returns; the sizes that \<^verbatim>\<open>realloc\<close> can give.\<close>

record fsys =
  fs_lstat :: "string \<Rightarrow> ftype option"
  fs_entries :: "string \<Rightarrow> string list option"
  fs_realloc :: "nat \<Rightarrow> bool"

datatype ftw_type = FTW_F | FTW_D | FTW_DNR | FTW_NS

datatype ftw_error = Realloc_failed | Path_overflow | Err_dump string

abbreviation (input) NAME_MAX :: nat where "NAME_MAX \<equiv> 255"

text \<open>The buffer: what is before its null byte, and its size; and the state of the user's function.\<close>

record 'u ftw =
  fullpath :: string
  pathlen :: nat
  user :: 'u

text \<open>The user's function: the path, the type in \<^verbatim>\<open>statbuf\<close> (undefined when there is none) and the kind.\<close>

type_synonym 'u ftw_fun = "string \<Rightarrow> ftype option \<Rightarrow> ftw_type \<Rightarrow> 'u \<Rightarrow> ftw_error + (int \<times> 'u)"

definition call_func :: "'u ftw_fun \<Rightarrow> ftype option \<Rightarrow> ftw_type \<Rightarrow> 'u ftw \<Rightarrow> ftw_error + (int \<times> 'u ftw)" where
  "call_func func m k s = map_sum id (\<lambda>(ret, u). (ret, s\<lparr>user := u\<rparr>)) (func (fullpath s) m k (user s))"

section \<open>The walk\<close>

definition expand_path :: "fsys \<Rightarrow> 'u ftw \<Rightarrow> ftw_error + 'u ftw" where
  "expand_path fs s =
     (if length (fullpath s) + NAME_MAX + 2 > pathlen s then
        (if fs_realloc fs (pathlen s * 2) then Inr (s\<lparr>pathlen := pathlen s * 2\<rparr>) else Inl Realloc_failed)
      else Inr s)"

definition add_slash :: "'u ftw \<Rightarrow> ftw_error + 'u ftw" where
  "add_slash s = (if length (fullpath s) + 2 > pathlen s then Inl Path_overflow else Inr (s\<lparr>fullpath := fullpath s @ ''/''\<rparr>))"

text \<open>\<^verbatim>\<open>strcpy(&fullpath[n], dirp->d_name)\<close>.\<close>

definition put_name :: "nat \<Rightarrow> string \<Rightarrow> 'u ftw \<Rightarrow> ftw_error + 'u ftw" where
  "put_name n d s = (if n + length d + 1 > pathlen s then Inl Path_overflow else Inr (s\<lparr>fullpath := take n (fullpath s) @ d\<rparr>))"

definition seq_run :: "('e + 'a) option \<Rightarrow> ('a \<Rightarrow> ('e + 'b) option) \<Rightarrow> ('e + 'b) option" where
  "seq_run x f = Option.bind x (\<lambda>r. case r of Inl e \<Rightarrow> Some (Inl e) | Inr y \<Rightarrow> f y)"

lemma seq_run_mono [partial_function_mono]:
  assumes "mono_option B" "\<And>y. mono_option (\<lambda>f. C y f)"
  shows "mono_option (\<lambda>f. seq_run (B f) (\<lambda>y. C y f))"
  unfolding seq_run_def
proof (rule bind_mono [OF assms(1)])
  show "mono_option (\<lambda>f. case r of Inl e \<Rightarrow> Some (Inl e) | Inr y \<Rightarrow> C y f)" for r
    by (cases r) (simp_all add: assms(2) option.const_mono)
qed

datatype ftw_task = Visit | Scan nat "string list"

text \<open>One function for both: \<open>Visit\<close> is \<^verbatim>\<open>dopath\<close>, \<open>Scan n names\<close> its loop over the names that are left, with \<open>n\<close> the index after the slash.\<close>

partial_function (option) ftw_run :: "fsys \<Rightarrow> 'u ftw_fun \<Rightarrow> ftw_task \<Rightarrow> 'u ftw \<Rightarrow> (ftw_error + int \<times> 'u ftw) option" where
  "ftw_run fs func t s =
     (case t of
        Visit \<Rightarrow>
          (case fs_lstat fs (fullpath s) of
             None \<Rightarrow> Some (call_func func None FTW_NS s)
           | Some m \<Rightarrow>
               if m \<noteq> S_DIR then Some (call_func func (Some m) FTW_F s)
               else seq_run (Some (call_func func (Some m) FTW_D s)) (\<lambda>(ret, s).
                 if ret \<noteq> 0 then Some (Inr (ret, s))
                 else let n = length (fullpath s) in
                   seq_run (Some (andthen (expand_path fs s) add_slash)) (\<lambda>s.
                     case fs_entries fs (fullpath s) of
                       None \<Rightarrow> Some (call_func func (Some m) FTW_DNR s)
                     | Some names \<Rightarrow>
                         seq_run (ftw_run fs func (Scan (n + 1) names) s) (\<lambda>(ret, s).
                           Some (Inr (ret, s\<lparr>fullpath := take n (fullpath s)\<rparr>))))))
      | Scan n names \<Rightarrow>
          (case names of
             [] \<Rightarrow> Some (Inr (0, s))
           | d # ds \<Rightarrow>
               if d = ''.'' \<or> d = ''..'' then ftw_run fs func (Scan n ds) s
               else seq_run (Some (put_name n d s)) (\<lambda>s.
                 seq_run (ftw_run fs func Visit s) (\<lambda>(ret, s).
                   if ret \<noteq> 0 then Some (Inr (ret, s)) else ftw_run fs func (Scan n ds) s))))"

definition dopath :: "fsys \<Rightarrow> 'u ftw_fun \<Rightarrow> 'u ftw \<Rightarrow> (ftw_error + int \<times> 'u ftw) option" where
  "dopath fs func s = ftw_run fs func Visit s"

text \<open>\<open>len\<close> is the size that \<^verbatim>\<open>path_alloc\<close> gives.\<close>

definition myftw :: "fsys \<Rightarrow> nat \<Rightarrow> string \<Rightarrow> 'u ftw_fun \<Rightarrow> 'u \<Rightarrow> (ftw_error + int \<times> 'u ftw) option" where
  "myftw fs len pathname func u =
     (let len' = (if len \<le> length pathname then length pathname * 2 else len) in
      if len \<le> length pathname \<and> \<not> fs_realloc fs len' then Some (Inl Realloc_failed)
      else if length pathname + 1 > len' then Some (Inl Path_overflow)
      else dopath fs func \<lparr>fullpath = pathname, pathlen = len', user = u\<rparr>)"

section \<open>Counting\<close>

record ftw_counts =
  nreg :: int
  ndir :: int
  nblk :: int
  nchr :: int
  nfifo :: int
  nslink :: int
  nsock :: int
  errs :: "string list"

definition count_type :: "ftype \<Rightarrow> string \<Rightarrow> ftw_counts \<Rightarrow> ftw_error + ftw_counts" where
  "count_type m pathname c =
     (case m of
        S_REG \<Rightarrow> Inr (c\<lparr>nreg := nreg c + 1\<rparr>)
      | S_BLK \<Rightarrow> Inr (c\<lparr>nblk := nblk c + 1\<rparr>)
      | S_CHR \<Rightarrow> Inr (c\<lparr>nchr := nchr c + 1\<rparr>)
      | S_FIFO \<Rightarrow> Inr (c\<lparr>nfifo := nfifo c + 1\<rparr>)
      | S_LNK \<Rightarrow> Inr (c\<lparr>nslink := nslink c + 1\<rparr>)
      | S_SOCK \<Rightarrow> Inr (c\<lparr>nsock := nsock c + 1\<rparr>)
      | S_DIR \<Rightarrow> Inl (Err_dump pathname)
      | S_OTHER \<Rightarrow> Inr c)"

definition myfunc :: "ftw_counts ftw_fun" where
  "myfunc pathname m k c =
     (case k of
        FTW_F \<Rightarrow> (case m of None \<Rightarrow> Inr (0, c) | Some m \<Rightarrow> map_sum id (Pair 0) (count_type m pathname c))
      | FTW_D \<Rightarrow> Inr (0, c\<lparr>ndir := ndir c + 1\<rparr>)
      | FTW_DNR \<Rightarrow> Inr (0, c\<lparr>errs := errs c @ [''can't read directory '' @ pathname]\<rparr>)
      | FTW_NS \<Rightarrow> Inr (0, c\<lparr>errs := errs c @ [''stat error for '' @ pathname]\<rparr>))"

section \<open>Hierarchies\<close>

datatype ftree = Unstat | Plain ftype | Unread | Folder "(string \<times> ftree) list"

definition real_names :: "string list \<Rightarrow> string list" where
  "real_names = filter (\<lambda>d. \<not> (d = ''.'' \<or> d = ''..''))"

text \<open>What is at a path.\<close>

primrec holds :: "fsys \<Rightarrow> ftree \<Rightarrow> string \<Rightarrow> bool" where
  "holds fs Unstat p \<longleftrightarrow> fs_lstat fs p = None"
| "holds fs (Plain m) p \<longleftrightarrow> fs_lstat fs p = Some m \<and> m \<noteq> S_DIR"
| "holds fs Unread p \<longleftrightarrow> fs_lstat fs p = Some S_DIR \<and> fs_entries fs (p @ ''/'') = None"
| "holds fs (Folder es) p \<longleftrightarrow> fs_lstat fs p = Some S_DIR \<and>
     (\<exists>names. fs_entries fs (p @ ''/'') = Some names \<and> real_names names = map fst es) \<and>
     list_all (\<lambda>(d, h). length d \<le> NAME_MAX \<and> h (p @ ''/'' @ d)) (map (map_prod id (holds fs)) es)"

text \<open>The calls of the function.\<close>

primrec visits :: "ftree \<Rightarrow> string \<Rightarrow> (string \<times> ftype option \<times> ftw_type) list" where
  "visits Unstat p = [(p, None, FTW_NS)]"
| "visits (Plain m) p = [(p, Some m, FTW_F)]"
| "visits Unread p = [(p, Some S_DIR, FTW_D), (p @ ''/'', Some S_DIR, FTW_DNR)]"
| "visits (Folder es) p = (p, Some S_DIR, FTW_D) # concat (map (\<lambda>(d, v). v (p @ ''/'' @ d)) (map (map_prod id visits) es))"
lemma holds_Folder:
  "holds fs (Folder es) p \<longleftrightarrow> fs_lstat fs p = Some S_DIR \<and>
     (\<exists>names. fs_entries fs (p @ ''/'') = Some names \<and> real_names names = map fst es) \<and>
     (\<forall>(d, t) \<in> set es. length d \<le> NAME_MAX \<and> holds fs t (p @ ''/'' @ d))"
  by (auto simp: list_all_iff)

lemma visits_Folder:
  "visits (Folder es) p = (p, Some S_DIR, FTW_D) # concat (map (\<lambda>(d, t). visits t (p @ ''/'' @ d)) es)"
  by (simp add: o_def case_prod_unfold)

declare holds.simps(4) [simp del] visits.simps(4) [simp del]

section \<open>The walk calls the function for every node\<close>

text \<open>A function that never ends the walk: \<open>step\<close> is what it does to its state.\<close>

definition steady :: "'u ftw_fun \<Rightarrow> (string \<Rightarrow> ftype option \<Rightarrow> ftw_type \<Rightarrow> 'u \<Rightarrow> 'u) \<Rightarrow> bool" where
  "steady func step \<longleftrightarrow> (\<forall>p m k u. \<not> (k = FTW_F \<and> m = Some S_DIR) \<longrightarrow> func p m k u = Inr (0, step p m k u))"

definition call_all :: "(string \<Rightarrow> ftype option \<Rightarrow> ftw_type \<Rightarrow> 'u \<Rightarrow> 'u) \<Rightarrow> (string \<times> ftype option \<times> ftw_type) list \<Rightarrow> 'u \<Rightarrow> 'u" where
  "call_all step vs u = foldl (\<lambda>u (p, m, k). step p m k u) u vs"

definition buf_ok :: "'u ftw \<Rightarrow> bool" where
  "buf_ok s \<longleftrightarrow> length (fullpath s) + 1 \<le> pathlen s \<and> NAME_MAX + 2 \<le> pathlen s"

lemma call_all_simps [simp]:
  "call_all step [] u = u" "call_all step ((p, m, k) # vs) u = call_all step vs (step p m k u)"
  "call_all step (vs @ ws) u = call_all step ws (call_all step vs u)"
  by (simp_all add: call_all_def)

lemma seq_run_simps [simp]: "seq_run (Some (Inr y)) f = f y" "seq_run (Some (Inl e)) f = Some (Inl e)"
  by (simp_all add: seq_run_def)

lemma call_steady: "steady func step \<Longrightarrow> \<not> (k = FTW_F \<and> m = Some S_DIR) \<Longrightarrow> call_func func m k s = Inr (0, s\<lparr>user := step (fullpath s) m k (user s)\<rparr>)"
  by (simp add: steady_def call_func_def)

lemma room_for_names:
  assumes "buf_ok s" "\<And>n. fs_realloc fs n"
  shows "\<exists>len. andthen (expand_path fs s) add_slash = Inr (s\<lparr>pathlen := len, fullpath := fullpath s @ ''/''\<rparr>) \<and>
    pathlen s \<le> len \<and> length (fullpath s) + NAME_MAX + 2 \<le> len"
proof (cases "length (fullpath s) + NAME_MAX + 2 > pathlen s")
  case True
  then show ?thesis using assms by (intro exI [of _ "pathlen s * 2"]) (simp add: expand_path_def add_slash_def buf_ok_def)
next
  case False
  then show ?thesis by (intro exI [of _ "pathlen s"]) (simp add: expand_path_def add_slash_def)
qed

text \<open>After a walk that started with the path \<open>p\<close> in the buffer.\<close>

definition walked :: "string \<Rightarrow> 'u ftw \<Rightarrow> 'u \<Rightarrow> 'u ftw \<Rightarrow> bool" where
  "walked p s u s' \<longleftrightarrow> user s' = u \<and> take (length p) (fullpath s') = p \<and> buf_ok s' \<and> pathlen s \<le> pathlen s'"

lemma take_shorter: "take (length (q @ d)) xs = q @ d \<Longrightarrow> take (length q) xs = q"
  by (drule arg_cong [of _ _ "take (length q)"]) (simp add: min_def)

lemma scan_names:
  assumes "\<And>d t s. (d, t) \<in> set es \<Longrightarrow> holds fs t (q @ d) \<Longrightarrow> fullpath s = q @ d \<Longrightarrow> buf_ok s \<Longrightarrow>
      \<exists>s'. ftw_run fs func Visit s = Some (Inr (0, s')) \<and> walked (q @ d) s (call_all step (visits t (q @ d)) (user s)) s'"
    and "\<forall>(d, t) \<in> set es. length d \<le> NAME_MAX \<and> holds fs t (q @ d)" "real_names names = map fst es"
    and "take (length q) (fullpath s) = q" "length q + NAME_MAX + 1 \<le> pathlen s" "buf_ok s"
  shows "\<exists>s'. ftw_run fs func (Scan (length q) names) s = Some (Inr (0, s')) \<and>
    walked q s (call_all step (concat (map (\<lambda>(d, t). visits t (q @ d)) es)) (user s)) s'"
  using assms
proof (induction names arbitrary: es s)
  case Nil
  then show ?case by (subst ftw_run.simps) (simp add: real_names_def walked_def)
next
  case (Cons d ds)
  show ?case
  proof (cases "d = ''.'' \<or> d = ''..''")
    case True
    then have eq: "ftw_run fs func (Scan (length q) (d # ds)) s = ftw_run fs func (Scan (length q) ds) s" by (subst ftw_run.simps) simp
    have r: "real_names ds = map fst es" using True Cons.prems(3) by (auto simp: real_names_def)
    show ?thesis unfolding eq by (rule Cons.IH [OF Cons.prems(1,2) r Cons.prems(4-6)])
  next
    case False
    then obtain t es' where e: "es = (d, t) # es'" "real_names ds = map fst es'" using Cons.prems(3) by (cases es) (auto simp: real_names_def)
    let ?s = "s\<lparr>fullpath := q @ d\<rparr>"
    have "length d \<le> NAME_MAX" "holds fs t (q @ d)" using Cons.prems(2) e(1) by auto
    moreover from this have b: "buf_ok ?s" "put_name (length q) d s = Inr ?s" using Cons.prems(4-6) by (simp_all add: buf_ok_def put_name_def)
    ultimately obtain s1 where s1: "ftw_run fs func Visit ?s = Some (Inr (0, s1))" "walked (q @ d) ?s (call_all step (visits t (q @ d)) (user s)) s1"
      using Cons.prems(1) [of d t ?s] e(1) by auto
    have q: "take (length q) (fullpath s1) = q" using s1(2) unfolding walked_def by (intro take_shorter [of q d]) blast
    obtain s2 where "ftw_run fs func (Scan (length q) ds) s1 = Some (Inr (0, s2))"
      "walked q s1 (call_all step (concat (map (\<lambda>(d, t). visits t (q @ d)) es')) (user s1)) s2"
      using Cons.IH [of es' s1] Cons.prems(1,2,5) e q s1(2) by (auto simp: walked_def)
    then show ?thesis using s1 b(2) False e(1) by (subst ftw_run.simps) (auto simp: walked_def)
  qed
qed
lemma visit_tree:
  assumes "steady func step" "\<And>n. fs_realloc fs n"
  shows "holds fs t p \<Longrightarrow> fullpath s = p \<Longrightarrow> buf_ok s \<Longrightarrow>
    \<exists>s'. ftw_run fs func Visit s = Some (Inr (0, s')) \<and> walked p s (call_all step (visits t p) (user s)) s'"
proof (induction t arbitrary: p s)
  case Unstat
  then show ?case using call_steady [OF assms(1)] by (subst ftw_run.simps) (auto simp: walked_def buf_ok_def)
next
  case (Plain m)
  then show ?case using call_steady [OF assms(1)] by (subst ftw_run.simps) (auto simp: walked_def buf_ok_def)
next
  case Unread
  let ?s = "s\<lparr>user := step p (Some S_DIR) FTW_D (user s)\<rparr>"
  have "buf_ok ?s" using Unread.prems(3) by (simp add: buf_ok_def)
  from room_for_names [OF this assms(2)] obtain len where
    "andthen (expand_path fs ?s) add_slash = Inr (?s\<lparr>pathlen := len, fullpath := fullpath s @ ''/''\<rparr>)" "pathlen s \<le> len" "length (fullpath s) + NAME_MAX + 2 \<le> len"
    by auto
  then show ?case using Unread call_steady [OF assms(1)] by (subst ftw_run.simps) (simp add: walked_def buf_ok_def Let_def)
next
  case (Folder es)
  let ?s = "s\<lparr>user := step p (Some S_DIR) FTW_D (user s)\<rparr>" and ?q = "p @ ''/''"
  obtain names where f: "fs_lstat fs p = Some S_DIR" "fs_entries fs ?q = Some names" "real_names names = map fst es"
    "\<forall>(d, t) \<in> set es. length d \<le> NAME_MAX \<and> holds fs t (?q @ d)" using Folder.prems(1) by (auto simp: holds_Folder)
  have "buf_ok ?s" using Folder.prems(3) by (simp add: buf_ok_def)
  from room_for_names [OF this assms(2)] obtain len where
    len: "andthen (expand_path fs ?s) add_slash = Inr (?s\<lparr>pathlen := len, fullpath := ?q\<rparr>)" "pathlen s \<le> len" "length p + NAME_MAX + 2 \<le> len"
    using Folder.prems(2) by auto
  let ?t = "?s\<lparr>pathlen := len, fullpath := ?q\<rparr>"
  have "\<exists>s'. ftw_run fs func Visit s = Some (Inr (0, s')) \<and> walked (?q @ d) s (call_all step (visits t (?q @ d)) (user s)) s'"
    if "(d, t) \<in> set es" "holds fs t (?q @ d)" "fullpath s = ?q @ d" "buf_ok s" for d t s
    using Folder.IH [OF that(1), of t] that by simp
  from scan_names [OF this f(4,3), where s = ?t] obtain s' where
    s': "ftw_run fs func (Scan (length ?q) names) ?t = Some (Inr (0, s'))"
    "walked ?q ?t (call_all step (concat (map (\<lambda>(d, t). visits t (?q @ d)) es)) (user ?t)) s'"
    using len by (auto simp: buf_ok_def)
  have p: "take (length p) (fullpath s') = p" using s'(2) unfolding walked_def by (intro take_shorter [of p "''/''"]) blast
  have c: "call_func func (Some S_DIR) FTW_D s = Inr (0, ?s)" using call_steady [OF assms(1)] Folder.prems(2) by simp
  have "ftw_run fs func Visit s = Some (Inr (0, s'\<lparr>fullpath := p\<rparr>))"
    using f(1,2) c len(1) s'(1) p Folder.prems(2) by (subst ftw_run.simps) simp
  then show ?case using s'(2) len(2,3) by (auto simp: walked_def buf_ok_def visits_Folder)
qed
section \<open>Properties\<close>

lemma myftw_visits:
  assumes "steady func step" "\<And>n. fs_realloc fs n" "holds fs t p" "NAME_MAX + 2 \<le> len"
  shows "\<exists>s'. myftw fs len p func u = Some (Inr (0, s')) \<and> user s' = call_all step (visits t p) u"
proof -
  let ?len = "if len \<le> length p then length p * 2 else len"
  have "buf_ok \<lparr>fullpath = p, pathlen = ?len, user = u\<rparr>" using assms(4) by (simp add: buf_ok_def)
  from visit_tree [OF assms(1,2,3) _ this] obtain s' where
    "ftw_run fs func Visit \<lparr>fullpath = p, pathlen = ?len, user = u\<rparr> = Some (Inr (0, s'))" "user s' = call_all step (visits t p) u"
    by (auto simp: walked_def)
  then show ?thesis using assms(2,4) by (auto simp: myftw_def dopath_def Let_def)
qed

definition count_step :: "string \<Rightarrow> ftype option \<Rightarrow> ftw_type \<Rightarrow> ftw_counts \<Rightarrow> ftw_counts" where
  "count_step p m k c = (case myfunc p m k c of Inl e \<Rightarrow> c | Inr (ret, c) \<Rightarrow> c)"

lemma myfunc_steady: "steady myfunc count_step"
  by (auto simp: steady_def count_step_def myfunc_def count_type_def split: ftw_type.splits option.splits ftype.splits)

text \<open>The plain files and the directories of a tree.\<close>

primrec plain_files :: "ftree \<Rightarrow> ftype list" where
  "plain_files Unstat = []"
| "plain_files (Plain m) = [m]"
| "plain_files Unread = []"
| "plain_files (Folder es) = concat (map snd (map (map_prod id plain_files) es))"

primrec folders :: "ftree \<Rightarrow> nat" where
  "folders Unstat = 0"
| "folders (Plain m) = 0"
| "folders Unread = 1"
| "folders (Folder es) = 1 + sum_list (map snd (map (map_prod id folders) es))"

definition counted_files :: "ftype list \<Rightarrow> nat \<Rightarrow> ftw_counts \<Rightarrow> ftw_counts \<Rightarrow> bool" where
  "counted_files ms n c c' \<longleftrightarrow> nreg c' = nreg c + int (count_list ms S_REG) \<and> ndir c' = ndir c + int n \<and>
     nblk c' = nblk c + int (count_list ms S_BLK) \<and> nchr c' = nchr c + int (count_list ms S_CHR) \<and>
     nfifo c' = nfifo c + int (count_list ms S_FIFO) \<and> nslink c' = nslink c + int (count_list ms S_LNK) \<and>
     nsock c' = nsock c + int (count_list ms S_SOCK)"

lemma counted_trans: "counted_files ms n c c' \<Longrightarrow> counted_files ms' n' c' c'' \<Longrightarrow> counted_files (ms @ ms') (n + n') c c''"
  by (simp add: counted_files_def)

lemma counts_of_tree: "holds fs t p \<Longrightarrow> counted_files (plain_files t) (folders t) c (call_all count_step (visits t p) c)"
proof (induction t arbitrary: p c)
  case Unstat
  then show ?case by (simp add: counted_files_def count_step_def myfunc_def)
next
  case (Plain m)
  then show ?case by (cases m) (simp_all add: counted_files_def count_step_def myfunc_def count_type_def)
next
  case Unread
  then show ?case by (simp add: counted_files_def count_step_def myfunc_def)
next
  case (Folder es)
  have "\<forall>(d, t) \<in> set es. holds fs t (p @ ''/'' @ d)" using Folder.prems by (auto simp: holds_Folder)
  then have "counted_files (concat (map (\<lambda>e. plain_files (snd e)) es)) (sum_list (map (\<lambda>e. folders (snd e)) es)) c
      (call_all count_step (concat (map (\<lambda>(d, t). visits t (p @ ''/'' @ d)) es)) c)" for c
    using Folder.IH
  proof (induction es arbitrary: c)
    case (Cons e es)
    obtain d t where e: "e = (d, t)" by (cases e)
    have 1: "counted_files (plain_files t) (folders t) c (call_all count_step (visits t (p @ ''/'' @ d)) c)" for c
      using Cons.prems e by (intro Cons.prems(2) [of e t]) auto
    have 2: "counted_files (concat (map (\<lambda>e. plain_files (snd e)) es)) (sum_list (map (\<lambda>e. folders (snd e)) es)) c
      (call_all count_step (concat (map (\<lambda>(d, t). visits t (p @ ''/'' @ d)) es)) c)" for c
    proof (rule Cons.IH)
      show "\<forall>(d, t) \<in> set es. holds fs t (p @ ''/'' @ d)" using Cons.prems(1) by simp
      show "counted_files (plain_files y) (folders y) c (call_all count_step (visits y p) c)"
        if "x \<in> set es" "y \<in> Basic_BNFs.snds x" "holds fs y p" for x y p c
        using that by (intro Cons.prems(2) [of x y]) auto
    qed
    show ?case using counted_trans [OF 1 2, of c] by (simp add: e)
  qed (simp add: counted_files_def)
  moreover have "counted_files [] 1 c (count_step p (Some S_DIR) FTW_D c)" by (simp add: counted_files_def count_step_def myfunc_def)
  ultimately show ?case using counted_trans [of "[]" 1 c] by (simp add: visits_Folder o_def)
qed

text \<open>C15: The walk through a finite hierarchy returns and has called the function for every file and directory, a directory before
  what it contains, with the path of each; the buffer for the paths never overflows, however deep the
  hierarchy is.  The program's own function has then counted every file by its type and every directory.\<close>

theorem ftw_counts_tree:
  assumes "\<And>n. fs_realloc fs n" "holds fs t p" "NAME_MAX + 2 \<le> len"
  shows "\<exists>s'. myftw fs len p myfunc c = Some (Inr (0, s')) \<and> user s' = call_all count_step (visits t p) c \<and>
    counted_files (plain_files t) (folders t) c (user s')"
  using myftw_visits [OF myfunc_steady assms] counts_of_tree [OF assms(2)] by fastforce
definition example_fs :: fsys where
  "example_fs = \<lparr>fs_lstat = (\<lambda>p. if p = ''d'' then Some S_DIR else if p = ''d/f'' then Some S_REG else None),
     fs_entries = (\<lambda>p. if p = ''d/'' then Some [''.'', ''f'', ''..''] else None), fs_realloc = (\<lambda>_. True)\<rparr>"

theorem ftw_counts_tree_witness:
  "\<exists>s'. myftw example_fs 4097 ''d'' myfunc \<lparr>nreg = 0, ndir = 0, nblk = 0, nchr = 0, nfifo = 0, nslink = 0, nsock = 0, errs = []\<rparr> = Some (Inr (0, s')) \<and>
     nreg (user s') = 1 \<and> ndir (user s') = 1 \<and> nslink (user s') = 0"
proof -
  let ?c = "\<lparr>nreg = 0, ndir = 0, nblk = 0, nchr = 0, nfifo = 0, nslink = 0, nsock = 0, errs = []\<rparr>"
  have "holds example_fs (Folder [(''f'', Plain S_REG)]) ''d''" by (simp add: holds_Folder example_fs_def real_names_def)
  moreover have "fs_realloc example_fs n" for n by (simp add: example_fs_def)
  ultimately obtain s' where "myftw example_fs 4097 ''d'' myfunc ?c = Some (Inr (0, s'))" "counted_files [S_REG] 1 ?c (user s')"
    using ftw_counts_tree [of example_fs "Folder [(''f'', Plain S_REG)]" "''d''" 4097 ?c] by auto
  then show ?thesis by (auto simp: counted_files_def)
qed

end
