(* ===== verification/Popen.thy ===== *)
theory Popen
  imports C_Prelude
begin

text \<open>
  \<^verbatim>\<open>popen\<close> and \<^verbatim>\<open>pclose\<close>, \<^verbatim>\<open>apue.3e/ipc1/popen.c\<close>: the array of process numbers by descriptor, the descriptors of the parent and those
  that the child has when it calls \<^verbatim>\<open>execl\<close>.  The array stands for a map from open streams to processes (the locale \<open>process_streams\<close>).
\<close>

section \<open>State\<close>

text \<open>The two ends of a pipe, by its number, and other files.\<close>

datatype fd_end = Pipe_r nat | Pipe_w nat | Other_file

type_synonym fd_table = "nat \<rightharpoonup> fd_end"

record procs =
  childpid :: "int list option"
  maxfd :: nat
  fds :: fd_table
  npipes :: nat

text \<open>What the system calls return: \<^verbatim>\<open>open_max\<close>, the success of \<^verbatim>\<open>calloc\<close>, the descriptors of \<^verbatim>\<open>pipe\<close>, the number of the child and the success of
  \<^verbatim>\<open>fdopen\<close>.\<close>

record popen_env =
  pe_open_max :: nat
  pe_calloc :: bool
  pe_pipe :: "(nat \<times> nat) option"
  pe_fork :: int
  pe_fdopen :: bool

datatype pmode = Mode_r | Mode_w

definition parse_type :: "string \<Rightarrow> pmode option" where
  "parse_type type = (if type = ''r'' then Some Mode_r else if type = ''w'' then Some Mode_w else None)"

section \<open>The child\<close>

definition close_fd :: "nat \<Rightarrow> fd_table \<Rightarrow> fd_table" where
  "close_fd fd t = t(fd := None)"

definition move_fd :: "nat \<Rightarrow> nat \<Rightarrow> fd_table \<Rightarrow> fd_table" where
  "move_fd fd to t = (if fd \<noteq> to then close_fd fd (t(to := t fd)) else t)"

definition close_listed :: "int list \<Rightarrow> fd_table \<Rightarrow> fd_table" where
  "close_listed tab t = fold (\<lambda>i t. if tab ! i > 0 then close_fd i t else t) [0..<length tab] t"

definition child_table :: "pmode \<Rightarrow> nat \<times> nat \<Rightarrow> int list \<Rightarrow> fd_table \<Rightarrow> fd_table" where
  "child_table type pfd tab t =
     close_listed tab
       (if type = Mode_r then move_fd (snd pfd) 1 (close_fd (fst pfd) t)
        else move_fd (fst pfd) 0 (close_fd (snd pfd) t))"

section \<open>The functions\<close>

definition first_time :: "popen_env \<Rightarrow> procs \<Rightarrow> bool \<times> procs" where
  "first_time env s =
     (case childpid s of
        Some tab \<Rightarrow> (True, s)
      | None \<Rightarrow>
          let s = s\<lparr>maxfd := pe_open_max env\<rparr>
          in if pe_calloc env then (True, s\<lparr>childpid := Some (replicate (maxfd s) 0)\<rparr>) else (False, s))"

text \<open>The result: the descriptor of the stream, and the descriptors of the child if there is one.\<close>

definition popen :: "popen_env \<Rightarrow> string \<Rightarrow> procs \<Rightarrow> nat option \<times> fd_table option \<times> procs" where
  "popen env type s =
     (case parse_type type of
        None \<Rightarrow> (None, None, s)
      | Some m \<Rightarrow>
          let (ok, s) = first_time env s; tab = (case childpid s of None \<Rightarrow> [] | Some t \<Rightarrow> t) in
          if \<not> ok then (None, None, s)
          else case pe_pipe env of
            None \<Rightarrow> (None, None, s)
          | Some (r, w) \<Rightarrow>
              if r \<ge> maxfd s \<or> w \<ge> maxfd s then (None, None, s\<lparr>npipes := npipes s + 1\<rparr>)
              else
                let s = s\<lparr>fds := (fds s)(r \<mapsto> Pipe_r (npipes s), w \<mapsto> Pipe_w (npipes s)), npipes := npipes s + 1\<rparr> in
                if pe_fork env < 0 then (None, None, s)
                else
                  let child = child_table m (r, w) tab (fds s);
                      mine = (if m = Mode_r then r else w); other = (if m = Mode_r then w else r);
                      s = s\<lparr>fds := close_fd other (fds s)\<rparr>
                  in if \<not> pe_fdopen env then (None, Some child, s)
                     else (Some mine, Some child, s\<lparr>childpid := Some (tab[mine := pe_fork env])\<rparr>))"

text \<open>\<open>waits\<close> are the results of \<^verbatim>\<open>waitpid\<close> in a row: an error number or a status.  The value returned, the process waited for, and the state.\<close>

fun wait_loop :: "(int + int) list \<Rightarrow> int option" where
  "wait_loop [] = None"
| "wait_loop (Inr stat # ws) = Some stat"
| "wait_loop (Inl e # ws) = (if e \<noteq> 4 then Some (- 1) else wait_loop ws)"

definition pclose :: "bool \<Rightarrow> (int \<Rightarrow> (int + int) list) \<Rightarrow> nat \<Rightarrow> procs \<Rightarrow> int option \<times> int option \<times> procs" where
  "pclose fclose waits fd s =
     (case childpid s of
        None \<Rightarrow> (Some (- 1), None, s)
      | Some tab \<Rightarrow>
          if fd \<ge> maxfd s then (Some (- 1), None, s)
          else let pid = tab ! fd in
            if pid = 0 then (Some (- 1), None, s)
            else let s = s\<lparr>childpid := Some (tab[fd := 0]), fds := close_fd fd (fds s)\<rparr> in
              if \<not> fclose then (Some (- 1), None, s)
              else (wait_loop (waits pid), Some pid, s))"

section \<open>The streams\<close>

definition streams :: "procs \<Rightarrow> nat \<rightharpoonup> int" where
  "streams s fd = (case childpid s of None \<Rightarrow> None | Some tab \<Rightarrow> if fd < length tab \<and> tab ! fd > 0 then Some (tab ! fd) else None)"

definition procs_ok :: "procs \<Rightarrow> bool" where
  "procs_ok s \<longleftrightarrow> (\<forall>tab. childpid s = Some tab \<longrightarrow> length tab = maxfd s \<and> (\<forall>i < length tab. 0 \<le> tab ! i)) \<and> dom (streams s) \<subseteq> dom (fds s)"

lemma close_listed_None: "close_listed tab t fd = (if fd < length tab \<and> tab ! fd > 0 then None else t fd)"
proof -
  have "fold (\<lambda>i t. if tab ! i > 0 then close_fd i t else t) [0..<n] t fd = (if fd < n \<and> tab ! fd > 0 then None else t fd)" for n
    by (induction n) (auto simp: close_fd_def less_Suc_eq)
  then show ?thesis by (simp add: close_listed_def)
qed

text \<open>The system gives descriptors that are not in use.\<close>

definition env_ok :: "popen_env \<Rightarrow> procs \<Rightarrow> bool" where
  "env_ok env s \<longleftrightarrow> (\<forall>r w. pe_pipe env = Some (r, w) \<longrightarrow> r \<noteq> w \<and> r \<notin> dom (fds s) \<and> w \<notin> dom (fds s)) \<and> pe_fork env \<noteq> 0"

section \<open>What a client relies on\<close>

locale process_streams =
  fixes inv :: "'s \<Rightarrow> bool" and str :: "'s \<Rightarrow> nat \<rightharpoonup> int" and op_open :: "'e \<Rightarrow> 's \<Rightarrow> nat option \<times> 's" and op_close :: "'c \<Rightarrow> nat \<Rightarrow> 's \<Rightarrow> int option \<times> 's"
    and env :: "'e \<Rightarrow> 's \<Rightarrow> bool" and pid :: "'e \<Rightarrow> int"
  assumes open_law: "inv s \<Longrightarrow> env e s \<Longrightarrow> op_open e s = (r, s') \<Longrightarrow>
      inv s' \<and> (case r of None \<Rightarrow> str s' = str s | Some fd \<Rightarrow> str s fd = None \<and> str s' = (str s)(fd \<mapsto> pid e))"
    and close_law: "inv s \<Longrightarrow> op_close c fd s = (w, s') \<Longrightarrow> inv s' \<and> str s' = (str s)(fd := None) \<and> (w = None \<or> w = str s fd)"
begin

text \<open>A stream stays what it is while others are opened and closed.\<close>

lemma open_keeps: "inv s \<Longrightarrow> env e s \<Longrightarrow> str s fd = Some p \<Longrightarrow> inv (snd (op_open e s)) \<and> str (snd (op_open e s)) fd = Some p"
  using open_law [of s e] by (cases "op_open e s") (auto split: option.splits)

lemma close_keeps: "inv s \<Longrightarrow> fd' \<noteq> fd \<Longrightarrow> str s fd = Some p \<Longrightarrow> inv (snd (op_close c fd' s)) \<and> str (snd (op_close c fd' s)) fd = Some p"
  using close_law [of s c fd'] by (cases "op_close c fd' s") auto

end

definition do_popen :: "popen_env \<times> string \<Rightarrow> procs \<Rightarrow> nat option \<times> procs" where
  "do_popen e s = (case popen (fst e) (snd e) s of (r, child, s') \<Rightarrow> (r, s'))"

definition do_pclose :: "bool \<times> (int \<Rightarrow> (int + int) list) \<Rightarrow> nat \<Rightarrow> procs \<Rightarrow> int option \<times> procs" where
  "do_pclose c fd s = (case pclose (fst c) (snd c) fd s of (ret, p, s') \<Rightarrow> (p, s'))"

lemma first_time_ok:
  assumes "procs_ok s" "first_time env s = (ok, t)"
  shows "procs_ok t" "streams t = streams s" "fds t = fds s" "npipes t = npipes s" "ok \<longleftrightarrow> (\<exists>tab. childpid t = Some tab)"
proof -
  show "streams t = streams s" using assms(2)
    by (auto simp: first_time_def streams_def Let_def fun_eq_iff split: option.splits if_splits)
  then show "procs_ok t" "fds t = fds s" "npipes t = npipes s" "ok \<longleftrightarrow> (\<exists>tab. childpid t = Some tab)" using assms
    by (auto simp: first_time_def procs_ok_def Let_def split: option.splits if_splits)
qed

lemma streams_Some: "childpid s = Some tab \<Longrightarrow> streams s fd = (if fd < length tab \<and> tab ! fd > 0 then Some (tab ! fd) else None)"
  by (simp add: streams_def)

text \<open>With a new entry in the array.\<close>

lemma streams_new:
  assumes "procs_ok t" "childpid t = Some tab" "fd < maxfd t" "0 < p" "dom (fds t) \<union> {fd} \<subseteq> dom f"
  shows "procs_ok (t\<lparr>fds := f, npipes := k, childpid := Some (tab[fd := p])\<rparr>)"
    "streams (t\<lparr>fds := f, npipes := k, childpid := Some (tab[fd := p])\<rparr>) = (streams t)(fd \<mapsto> p)"
proof -
  have l: "length tab = maxfd t" "\<forall>i < length tab. 0 \<le> tab ! i" "dom (streams t) \<subseteq> dom (fds t)" using assms(1,2) by (auto simp: procs_ok_def)
  show s: "streams (t\<lparr>fds := f, npipes := k, childpid := Some (tab[fd := p])\<rparr>) = (streams t)(fd \<mapsto> p)"
    using assms(2-4) l(1) by (auto simp: fun_eq_iff streams_def nth_list_update)
  have "dom (streams (t\<lparr>fds := f, npipes := k, childpid := Some (tab[fd := p])\<rparr>)) \<subseteq> dom f" unfolding s using l(3) assms(5) by auto
  then show "procs_ok (t\<lparr>fds := f, npipes := k, childpid := Some (tab[fd := p])\<rparr>)"
    using l(1,2) assms(4) by (auto simp: procs_ok_def nth_upd)
qed

lemma streams_more:
  assumes "procs_ok t" "dom (fds t) \<subseteq> dom f"
  shows "procs_ok (t\<lparr>fds := f, npipes := k\<rparr>)" "streams (t\<lparr>fds := f, npipes := k\<rparr>) = streams t"
proof -
  show s: "streams (t\<lparr>fds := f, npipes := k\<rparr>) = streams t" by (simp add: fun_eq_iff streams_def)
  have "dom (streams t) \<subseteq> dom f" using assms unfolding procs_ok_def by blast
  then show "procs_ok (t\<lparr>fds := f, npipes := k\<rparr>)" using assms(1) by (simp add: procs_ok_def s)
qed

definition child_of :: "pmode \<Rightarrow> nat \<Rightarrow> nat \<Rightarrow> procs \<Rightarrow> fd_table \<Rightarrow> bool" where
  "child_of m r w s c \<longleftrightarrow> (\<exists>tab. (\<forall>i. (i < length tab \<and> tab ! i > 0) = (i \<in> dom (streams s))) \<and>
     c = child_table m (r, w) tab ((fds s)(r \<mapsto> Pipe_r (npipes s), w \<mapsto> Pipe_w (npipes s))))"

lemma popen_result:
  assumes "procs_ok s" "env_ok env s" "popen env type s = (res, child, s')"
  shows "procs_ok s' \<and> (case res of
      None \<Rightarrow> streams s' = streams s
    | Some fd \<Rightarrow> \<exists>m r w c. parse_type type = Some m \<and> pe_pipe env = Some (r, w) \<and> fd = (if m = Mode_r then r else w) \<and> 0 < pe_fork env \<and>
        streams s fd = None \<and> streams s' = (streams s)(fd \<mapsto> pe_fork env) \<and> child = Some c \<and> child_of m r w s c)"
proof -
  obtain ok t where t: "first_time env s = (ok, t)" by fastforce
  note f = first_time_ok [OF assms(1) t]
  show ?thesis
  proof (cases "parse_type type = None \<or> \<not> ok \<or> pe_pipe env = None")
    case True
    have "res = None \<and> (s' = s \<or> s' = t)"
    proof (cases "parse_type type")
      case None
      then show ?thesis using assms(3) by (simp add: popen_def)
    next
      case (Some m)
      then show ?thesis using assms(3) True t by (cases ok) (simp_all add: popen_def)
    qed
    then show ?thesis using assms(1) f(1,2) by auto
  next
    case False
    then obtain m r w tab where c: "parse_type type = Some m" "pe_pipe env = Some (r, w)" "ok" "childpid t = Some tab" using f(5) by auto
    let ?f = "(fds t)(r \<mapsto> Pipe_r (npipes t), w \<mapsto> Pipe_w (npipes t))"
    let ?mine = "if m = Mode_r then r else w" and ?other = "if m = Mode_r then w else r"
    have e: "r \<noteq> w" "r \<notin> dom (fds t)" "w \<notin> dom (fds t)" "pe_fork env \<noteq> 0" using assms(2) c(2) f(3) by (auto simp: env_ok_def)
    have d: "dom (fds t) \<subseteq> dom ?f" "dom (fds t) \<union> {?mine} \<subseteq> dom (close_fd ?other ?f)" using e by (auto simp: close_fd_def)
    have P: "popen env type s = (if r \<ge> maxfd t \<or> w \<ge> maxfd t then (None, None, t\<lparr>npipes := npipes t + 1\<rparr>)
      else if pe_fork env < 0 then (None, None, t\<lparr>fds := ?f, npipes := npipes t + 1\<rparr>)
      else if \<not> pe_fdopen env then (None, Some (child_table m (r, w) tab ?f), t\<lparr>fds := close_fd ?other ?f, npipes := npipes t + 1\<rparr>)
      else (Some ?mine, Some (child_table m (r, w) tab ?f),
        t\<lparr>fds := close_fd ?other ?f, npipes := npipes t + 1, childpid := Some (tab[?mine := pe_fork env])\<rparr>))"
      using c(3) by (simp add: popen_def t c(1,2,4) Let_def)
    consider "r \<ge> maxfd t \<or> w \<ge> maxfd t" | "r < maxfd t" "w < maxfd t" "pe_fork env < 0" | "r < maxfd t" "w < maxfd t" "0 < pe_fork env" "\<not> pe_fdopen env"
      | "r < maxfd t" "w < maxfd t" "0 < pe_fork env" "pe_fdopen env" using e(4) by linarith
    then show ?thesis
    proof cases
      case 1
      then have "res = None" "s' = t\<lparr>fds := fds t, npipes := npipes t + 1\<rparr>" using assms(3) unfolding P by auto
      then show ?thesis using streams_more [OF f(1) order_refl, of "npipes t + 1"] f(2) by simp
    next
      case 2
      then have "res = None" "s' = t\<lparr>fds := ?f, npipes := npipes t + 1\<rparr>" using assms(3) unfolding P by auto
      then show ?thesis using streams_more [OF f(1) d(1), of "npipes t + 1"] f(2) by simp
    next
      case 3
      then have "res = None" "s' = t\<lparr>fds := close_fd ?other ?f, npipes := npipes t + 1\<rparr>" using assms(3) unfolding P by auto
      then show ?thesis using streams_more [OF f(1) order_trans [OF Un_upper1 d(2)], of "npipes t + 1"] f(2) by simp
    next
      case 4
      then have r: "res = Some ?mine" "child = Some (child_table m (r, w) tab ?f)"
        "s' = t\<lparr>fds := close_fd ?other ?f, npipes := npipes t + 1, childpid := Some (tab[?mine := pe_fork env])\<rparr>"
        using assms(3) unfolding P by auto
      have "?mine < maxfd t" using 4 by simp
      note n = streams_new [OF f(1) c(4) this 4(3) d(2), of "npipes t + 1"]
      have "streams t ?mine = None" using f(1) e(2,3) by (auto simp: procs_ok_def)
      moreover have "child_of m r w s (child_table m (r, w) tab ?f)"
        unfolding child_of_def f(2) [symmetric] f(3) [symmetric] f(4) [symmetric] using c(4)
        by (intro exI [of _ tab]) (auto simp: streams_Some dom_def)
      ultimately show ?thesis using n r c(1,2) 4(3) f(2) by simp
    qed
  qed
qed

lemma pclose_none:
  assumes "procs_ok s" "streams s fd = None"
  shows "pclose fc waits fd s = (Some (- 1), None, s)"
proof (cases "childpid s")
  case (Some tab)
  then have "fd < length tab \<Longrightarrow> 0 \<le> tab ! fd" "length tab = maxfd s" using assms(1) by (auto simp: procs_ok_def)
  then have "fd \<ge> maxfd s \<or> tab ! fd = 0" using assms(2) by (force simp: streams_Some [OF Some] split: if_splits)
  then show ?thesis using Some by (auto simp: pclose_def)
qed (simp add: pclose_def)

lemma pclose_some:
  assumes "procs_ok s" "streams s fd = Some q"
  obtains t where "pclose fc waits fd s = (if fc then wait_loop (waits q) else Some (- 1), if fc then Some q else None, t)"
    "procs_ok t" "streams t = (streams s)(fd := None)"
proof -
  obtain tab where t: "childpid s = Some tab" "fd < length tab" "tab ! fd = q" "0 < q"
    using assms(2) by (auto simp: streams_def split: option.splits if_splits)
  let ?t = "s\<lparr>childpid := Some (tab[fd := 0]), fds := close_fd fd (fds s)\<rparr>"
  have l: "length tab = maxfd s" "\<forall>i < length tab. 0 \<le> tab ! i" "dom (streams s) \<subseteq> dom (fds s)" using assms(1) t(1) by (auto simp: procs_ok_def)
  have st: "streams ?t = (streams s)(fd := None)" using t(1) by (auto simp: fun_eq_iff streams_def nth_upd)
  have "dom (streams ?t) \<subseteq> dom (fds ?t)" unfolding st using l(3) by (auto simp: close_fd_def)
  then have "procs_ok ?t" using l(1,2) by (auto simp: procs_ok_def nth_upd)
  moreover have "pclose fc waits fd s = (if fc then wait_loop (waits q) else Some (- 1), if fc then Some q else None, ?t)"
    using t l(1) by (simp add: pclose_def Let_def)
  ultimately show thesis using that st by blast
qed

lemma pclose_result:
  assumes "procs_ok s" "pclose fc waits fd s = (ret, p, s')"
  shows "procs_ok s' \<and> streams s' = (streams s)(fd := None) \<and> (p = None \<or> p = streams s fd)"
proof (cases "streams s fd")
  case None
  then show ?thesis using pclose_none [OF assms(1) None, of fc waits] assms by (auto simp: fun_eq_iff)
next
  case (Some q)
  obtain t where "pclose fc waits fd s = (if fc then wait_loop (waits q) else Some (- 1), if fc then Some q else None, t)"
    "procs_ok t" "streams t = (streams s)(fd := None)" using pclose_some [OF assms(1) Some] .
  then show ?thesis using assms(2) Some by (cases fc) auto
qed

interpretation ps: process_streams procs_ok streams do_popen do_pclose "\<lambda>e. env_ok (fst e)" "\<lambda>e. pe_fork (fst e)"
proof (unfold_locales, goal_cases)
  case (1 s e r s')
  then obtain child where "popen (fst e) (snd e) s = (r, child, s')" by (auto simp: do_popen_def split: prod.splits)
  from popen_result [OF 1(1,2) this] show ?case by (auto split: option.splits)
next
  case (2 s c fd w s')
  then obtain ret where "pclose (fst c) (snd c) fd s = (ret, w, s')" by (auto simp: do_pclose_def split: prod.splits)
  from pclose_result [OF 2(1) this] show ?case .
qed

section \<open>Properties\<close>

text \<open>Other uses of the two functions in between, none of which closes the stream \<open>fd\<close>.\<close>

datatype stream_op = Use_popen "popen_env \<times> string" | Use_pclose "bool \<times> (int \<Rightarrow> (int + int) list)" nat

fun other_ops :: "nat \<Rightarrow> stream_op list \<Rightarrow> procs \<Rightarrow> procs \<Rightarrow> bool" where
  "other_ops fd [] s t \<longleftrightarrow> t = s"
| "other_ops fd (Use_popen e # ops) s t \<longleftrightarrow> env_ok (fst e) s \<and> other_ops fd ops (snd (do_popen e s)) t"
| "other_ops fd (Use_pclose c fd' # ops) s t \<longleftrightarrow> fd' \<noteq> fd \<and> other_ops fd ops (snd (do_pclose c fd' s)) t"

lemma other_ops_keep: "other_ops fd ops s t \<Longrightarrow> procs_ok s \<Longrightarrow> streams s fd = Some p \<Longrightarrow> procs_ok t \<and> streams t fd = Some p"
proof (induction fd ops s t rule: other_ops.induct)
  case (2 fd e ops s t)
  then show ?case using ps.open_keeps [of s e fd p] by simp
next
  case (3 fd c fd' ops s t)
  then show ?case using ps.close_keeps [of s fd' fd p c] by simp
qed simp

lemma wait_loop_interrupted: "wait_loop (replicate n (Inl 4) @ Inr stat # ws) = Some stat"
  by (induction n) simp_all

lemma child_of_std:
  assumes "child_of m r w s c" "r \<noteq> w"
  shows "fd \<in> dom (streams s) \<Longrightarrow> c fd = None"
    "m = Mode_r \<Longrightarrow> streams s 1 = None \<Longrightarrow> c 1 = Some (Pipe_w (npipes s))" "m = Mode_r \<Longrightarrow> r \<noteq> 1 \<Longrightarrow> c r = None"
    "m = Mode_w \<Longrightarrow> streams s 0 = None \<Longrightarrow> c 0 = Some (Pipe_r (npipes s))" "m = Mode_w \<Longrightarrow> w \<noteq> 0 \<Longrightarrow> c w = None"
proof -
  obtain tab where t: "\<forall>i. (i < length tab \<and> tab ! i > 0) = (i \<in> dom (streams s))"
    "c = child_table m (r, w) tab ((fds s)(r \<mapsto> Pipe_r (npipes s), w \<mapsto> Pipe_w (npipes s)))" using assms(1) by (auto simp: child_of_def)
  note cl = close_listed_None [of tab, unfolded t(1) [rule_format]]
  show "fd \<in> dom (streams s) \<Longrightarrow> c fd = None" by (simp add: t(2) child_table_def cl)
  show "m = Mode_r \<Longrightarrow> streams s 1 = None \<Longrightarrow> c 1 = Some (Pipe_w (npipes s))" "m = Mode_r \<Longrightarrow> r \<noteq> 1 \<Longrightarrow> c r = None"
    "m = Mode_w \<Longrightarrow> streams s 0 = None \<Longrightarrow> c 0 = Some (Pipe_r (npipes s))" "m = Mode_w \<Longrightarrow> w \<noteq> 0 \<Longrightarrow> c w = None"
    using assms(2) by (auto simp: t(2) child_table_def cl move_fd_def close_fd_def)
qed

text \<open>The descriptors of the parent.\<close>

lemma first_time_fds: "fds (snd (first_time env s)) = fds s" "npipes (snd (first_time env s)) = npipes s"
  by (simp_all add: first_time_def Let_def split: option.split)

lemma popen_fds:
  assumes "popen env type s = (Some fd, child, s')" "parse_type type = Some m" "pe_pipe env = Some (r, w)"
  shows "fds s' = close_fd (if m = Mode_r then w else r) ((fds s)(r \<mapsto> Pipe_r (npipes s), w \<mapsto> Pipe_w (npipes s)))"
  using assms first_time_fds [of env s] by (auto simp: popen_def Let_def split: prod.splits if_splits)

lemma popen_keeps_fd:
  assumes "env_ok env s" "fds s fd = Some e"
  shows "fds (snd (snd (popen env type s))) fd = Some e"
proof -
  have n: "pe_pipe env = Some (r, w) \<Longrightarrow> fd \<noteq> r \<and> fd \<noteq> w" for r w using assms by (auto simp: env_ok_def)
  show ?thesis using first_time_fds [of env s] assms(2) n
    by (auto simp: popen_def Let_def close_fd_def split: prod.split option.split)
qed

lemma pclose_keeps_fd: "fd' \<noteq> fd \<Longrightarrow> fds (snd (snd (pclose fc waits fd' s))) fd = fds s fd"
  by (simp add: pclose_def Let_def close_fd_def split: option.split)

lemma other_ops_fd: "other_ops fd ops s t \<Longrightarrow> fds s fd = Some e \<Longrightarrow> fds t fd = Some e"
proof (induction fd ops s t rule: other_ops.induct)
  case (2 fd e' ops s t)
  then show ?case using popen_keeps_fd [of "fst e'" s fd e "snd e'"] by (simp add: do_popen_def split: prod.splits)
next
  case (3 fd c fd' ops s t)
  then show ?case using pclose_keeps_fd [of fd' fd "fst c" "snd c" s] by (simp add: do_pclose_def split: prod.splits)
qed simp

text \<open>C14: A stream from \<^verbatim>\<open>popen\<close> leads to its process, whatever other streams are opened and closed in between: for \<^verbatim>\<open>"r"\<close> its descriptor is the
  read end of a new pipe of which the child has the write end as its standard output, for \<^verbatim>\<open>"w"\<close> it is the write end of one of which the child has the read end as its standard
  input; each has closed the other end, and the child has none of the descriptors of the streams that were open.  \<^verbatim>\<open>pclose\<close> waits for that process and
  returns its status, also when signals interrupt the wait.  (When the standard descriptor is itself one of the open streams, the child closes it.)\<close>

theorem popen_pclose_child:
  assumes "procs_ok s" "env_ok env s" "popen env type s = (Some fd, child, s1)" "other_ops fd ops s1 s2"
    and "waits (pe_fork env) = replicate n (Inl 4) @ Inr stat # ws"
  shows "\<exists>m r w c s3. parse_type type = Some m \<and> pe_pipe env = Some (r, w) \<and> child = Some c \<and>
    pclose True waits fd s2 = (Some stat, Some (pe_fork env), s3) \<and> streams s3 = (streams s2)(fd := None) \<and>
    (\<forall>fd' \<in> dom (streams s). c fd' = None) \<and>
    (case m of
       Mode_r \<Rightarrow> fd = r \<and> fds s2 fd = Some (Pipe_r (npipes s)) \<and> fds s1 w = None \<and>
         (streams s 1 = None \<longrightarrow> c 1 = Some (Pipe_w (npipes s))) \<and> (r \<noteq> 1 \<longrightarrow> c r = None)
     | Mode_w \<Rightarrow> fd = w \<and> fds s2 fd = Some (Pipe_w (npipes s)) \<and> fds s1 r = None \<and>
         (streams s 0 = None \<longrightarrow> c 0 = Some (Pipe_r (npipes s))) \<and> (w \<noteq> 0 \<longrightarrow> c w = None))"
proof -
  obtain m r w c where p: "procs_ok s1" "parse_type type = Some m" "pe_pipe env = Some (r, w)" "streams s1 = (streams s)(fd \<mapsto> pe_fork env)"
    "child = Some c" "child_of m r w s c" "fd = (if m = Mode_r then r else w)" using popen_result [OF assms(1-3)] by auto
  have rw: "r \<noteq> w" using assms(2) p(3) by (simp add: env_ok_def)
  note std = child_of_std [OF p(6) rw]
  have "procs_ok s2 \<and> streams s2 fd = Some (pe_fork env)" using other_ops_keep [OF assms(4) p(1)] p(4) by simp
  then obtain s3 where c: "pclose True waits fd s2 = (Some stat, Some (pe_fork env), s3)" "streams s3 = (streams s2)(fd := None)"
    using pclose_some [of s2 fd "pe_fork env" True waits] wait_loop_interrupted [of n stat ws] assms(5) by auto
  note f = popen_fds [OF assms(3) p(2,3)]
  have "fds s1 fd = Some (if m = Mode_r then Pipe_r (npipes s) else Pipe_w (npipes s))" "fds s1 (if m = Mode_r then w else r) = None"
    using f p(7) rw by (auto simp: close_fd_def)
  then show ?thesis using c p(2,3,5,7) std other_ops_fd [OF assms(4)] by (cases m) auto
qed

definition procs0 :: procs where
  "procs0 = \<lparr>childpid = None, maxfd = 0, fds = (\<lambda>fd. if fd < 3 then Some Other_file else None), npipes = 0\<rparr>"

definition env0 :: popen_env where
  "env0 = \<lparr>pe_open_max = 8, pe_calloc = True, pe_pipe = Some (3, 4), pe_fork = 500, pe_fdopen = True\<rparr>"

theorem popen_pclose_child_witness:
  "\<exists>c s1 s3. popen env0 ''r'' procs0 = (Some 3, Some c, s1) \<and> pclose True (\<lambda>_. [Inl 4, Inr 0]) 3 s1 = (Some 0, Some 500, s3) \<and>
     c 1 = Some (Pipe_w 0) \<and> c 3 = None \<and> fds s1 3 = Some (Pipe_r 0) \<and> fds s1 4 = None"
proof -
  have ok: "procs_ok procs0" "streams procs0 = Map.empty" by (auto simp: procs_ok_def procs0_def streams_def fun_eq_iff)
  have e: "env_ok env0 procs0" by (auto simp: env_ok_def env0_def procs0_def)
  obtain child s1 where p: "popen env0 ''r'' procs0 = (Some 3, child, s1)"
    by (simp add: popen_def parse_type_def first_time_def env0_def procs0_def Let_def)
  have o: "other_ops 3 [] s1 s1" by simp
  have v: "(\<lambda>_. [Inl 4, Inr 0]) (pe_fork env0) = replicate 1 (Inl 4) @ Inr (0 :: int) # []" by simp
  have n: "pe_pipe env0 = Some (3, 4)" "pe_fork env0 = 500" "npipes procs0 = 0" "parse_type ''r'' = Some Mode_r" by (simp_all add: env0_def procs0_def parse_type_def)
  from popen_pclose_child [OF ok(1) e p o v] show ?thesis using p ok(2) by (auto simp: n)
qed

text \<open>When \<^verbatim>\<open>fork\<close> fails both ends of the pipe stay open.\<close>

lemma popen_fork_leaks:
  assumes "childpid s = Some tab" "parse_type type = Some m" "pe_pipe env = Some (r, w)" "r < maxfd s" "w < maxfd s" "pe_fork env < 0"
  shows "\<exists>s'. popen env type s = (None, None, s') \<and> r \<in> dom (fds s') \<and> w \<in> dom (fds s')"
  using assms by (auto simp: popen_def first_time_def Let_def)

end
