(* ===== verification/Thread_Control.thy ===== *)
theory Thread_Control
  imports C_Prelude
begin

text \<open>
  Functions that are made safe for threads, \<^verbatim>\<open>apue.3e/threadctl\<close>: three versions of the search for an environment variable (\<^verbatim>\<open>getenv1.c\<close> with one static
  buffer, \<^verbatim>\<open>getenv2.c\<close> with a buffer of the caller, \<^verbatim>\<open>getenv3.c\<close> with a buffer for each thread) and the delayed call of a function
  (\<^verbatim>\<open>timeout.c\<close>).
\<close>

section \<open>The environment\<close>

abbreviation (input) MAXSTRINGSZ :: nat where "MAXSTRINGSZ \<equiv> 4096"

text \<open>The loop over \<^verbatim>\<open>environ\<close>: \<^verbatim>\<open>strncmp(name, environ[i], len) == 0 && environ[i][len] == '='\<close>, and the text after it.\<close>

definition env_match :: "string \<Rightarrow> string \<Rightarrow> bool" where
  "env_match name e \<longleftrightarrow> take (length name) e = name \<and> length name < length e \<and> e ! length name = CHR ''=''"

fun env_search :: "string \<Rightarrow> string list \<Rightarrow> string option" where
  "env_search name [] = None"
| "env_search name (e # es) = (if env_match name e then Some (drop (length name + 1) e) else env_search name es)"

section \<open>Three versions\<close>

definition getenv1 :: "string list \<Rightarrow> string \<Rightarrow> cbuf \<Rightarrow> bool \<times> cbuf" where
  "getenv1 environ name envbuf =
     (case env_search name environ of None \<Rightarrow> (False, envbuf) | Some v \<Rightarrow> (True, strncpy envbuf v (MAXSTRINGSZ - 1)))"

datatype getenv_ret = Env_ok | Env_ENOSPC | Env_ENOENT

definition getenv_r :: "string list \<Rightarrow> string \<Rightarrow> cbuf \<Rightarrow> int \<Rightarrow> getenv_ret \<times> cbuf" where
  "getenv_r environ name buf buflen =
     (case env_search name environ of
        None \<Rightarrow> (Env_ENOENT, buf)
      | Some v \<Rightarrow> if int (length v) \<ge> buflen then (Env_ENOSPC, buf) else (Env_ok, strcpy buf v))"

text \<open>\<open>keys\<close> are the buffers of the threads; \<open>junk\<close> is what \<^verbatim>\<open>malloc\<close> returns, if it does.\<close>

definition getenv3 :: "string list \<Rightarrow> cbuf option \<Rightarrow> nat \<Rightarrow> string \<Rightarrow> (nat \<rightharpoonup> cbuf) \<Rightarrow> bool \<times> (nat \<rightharpoonup> cbuf)" where
  "getenv3 environ junk tid name keys =
     (case (case keys tid of Some b \<Rightarrow> Some b | None \<Rightarrow> junk) of
        None \<Rightarrow> (False, keys)
      | Some envbuf \<Rightarrow>
          let keys = keys(tid \<mapsto> envbuf) in
          (case env_search name environ of
             None \<Rightarrow> (False, keys)
           | Some v \<Rightarrow> (True, keys(tid \<mapsto> strncpy envbuf v (MAXSTRINGSZ - 1)))))"

section \<open>The value of a variable\<close>

text \<open>The environment as pairs.\<close>

definition entry :: "string \<times> string \<Rightarrow> string" where
  "entry b = fst b @ ''='' @ snd b"

lemma env_match_entry:
  assumes "CHR ''='' \<notin> set name" "CHR ''='' \<notin> set n"
  shows "env_match name (entry (n, v)) \<longleftrightarrow> name = n"
proof
  assume m: "env_match name (entry (n, v))"
  have tw: "takeWhile (\<lambda>c. c \<noteq> CHR ''='') (l @ CHR ''='' # r) = l" if "CHR ''='' \<notin> set l" for l r
    using that by (induction l) auto
  have "entry (n, v) = name @ CHR ''='' # drop (length name + 1) (entry (n, v))"
    using m unfolding env_match_def by (metis Cons_nth_drop_Suc Suc_eq_plus1 append_take_drop_id)
  then show "name = n" using tw [OF assms(1)] tw [OF assms(2), of v] by (metis append_Cons append_Nil entry_def fst_conv snd_conv)
qed (simp add: env_match_def entry_def)

lemma env_search_map_of:
  assumes "CHR ''='' \<notin> set name" "\<forall>b \<in> set bs. CHR ''='' \<notin> set (fst b)"
  shows "env_search name (map entry bs) = map_of bs name"
  using assms(2)
proof (induction bs)
  case (Cons b bs)
  obtain n v where b: "b = (n, v)" by (cases b)
  have "drop (length name + 1) (entry (name, v)) = v" by (simp add: entry_def)
  then show ?case using Cons b env_match_entry [OF assms(1), of n v] by auto
qed simp

section \<open>Properties\<close>

text \<open>The three versions find the variable that a map from names to values has: the first one in its buffer, the second in that of the caller when the
  value fits with its null byte, and the third in the buffer of the calling thread, leaving those of the other
  threads as they are; and they report a variable that is not set.\<close>

theorem getenv_versions_agree:
  assumes "CHR ''='' \<notin> set name" "\<forall>b \<in> set bs. CHR ''='' \<notin> set (fst b)" "\<forall>b \<in> set bs. c_string (snd b) \<and> length (snd b) < 4095"
  shows "(case map_of bs name of
      None \<Rightarrow> getenv1 (map entry bs) name buf = (False, buf) \<and> getenv_r (map entry bs) name buf n = (Env_ENOENT, buf) \<and>
        fst (getenv3 (map entry bs) (Some junk) tid name keys) = False
    | Some v \<Rightarrow> (\<exists>b b' k. getenv1 (map entry bs) name buf = (True, b) \<and> cstr b = v \<and>
        getenv_r (map entry bs) name buf n = (if int (length v) < n then Env_ok else Env_ENOSPC, b') \<and> (if int (length v) < n then cstr b' = v else b' = buf) \<and>
        getenv3 (map entry bs) (Some junk) tid name keys = (True, k) \<and> map_option cstr (k tid) = Some v \<and> (\<forall>t. t \<noteq> tid \<longrightarrow> k t = keys t)))"
proof (cases "map_of bs name")
  case None
  then have "env_search name (map entry bs) = None" using env_search_map_of [OF assms(1,2)] by simp
  then show ?thesis using None by (simp add: getenv1_def getenv_r_def getenv3_def split: option.splits)
next
  case (Some v)
  then have e: "env_search name (map entry bs) = Some v" using env_search_map_of [OF assms(1,2)] by simp
  have v: "c_string v" "length v < MAXSTRINGSZ - 1" using assms(3) map_of_SomeD [OF Some] by auto
  then show ?thesis using Some e cstr_strncpy [OF v] cstr_strcpy [OF v(1)]
    by (simp add: getenv1_def getenv_r_def getenv3_def Let_def split: option.splits)
qed

theorem getenv_versions_agree_witness:
  "\<exists>b. getenv1 [''PATH=/bin'', ''HOME=/root''] ''HOME'' (replicate 4096 NUL) = (True, b) \<and> cstr b = ''/root''"
proof -
  have e: "map entry [(''PATH'', ''/bin''), (''HOME'', ''/root'')] = [''PATH=/bin'', ''HOME=/root'']" by (simp add: entry_def)
  show ?thesis using getenv_versions_agree [of "''HOME''" "[(''PATH'', ''/bin''), (''HOME'', ''/root'')]" "replicate 4096 NUL", where n = 0 and junk = "[]" and tid = 0 and keys = Map.empty]
    unfolding e by (auto simp: c_string_def)
qed

text \<open>A longer value fills the buffer; its last byte is then what \<^verbatim>\<open>malloc\<close> has left there, and the text need not end in the buffer.\<close>

lemma getenv3_unterminated:
  assumes "env_search name environ = Some v" "c_string v" "4095 \<le> length v" "keys tid = None" "length junk = 4096" "NUL \<notin> set junk"
  shows "\<exists>k b. getenv3 environ (Some junk) tid name keys = (True, k) \<and> k tid = Some b \<and> NUL \<notin> set b"
proof -
  have "NUL \<notin> set (strncpy junk v 4095)" using assms(2,3,6) by (auto simp: strncpy_def c_string_def dest: in_set_takeD in_set_dropD)
  then show ?thesis using assms(1,4) by (simp add: getenv3_def)
qed

section \<open>Delayed calls\<close>

record timespec =
  ts_sec :: int
  ts_nsec :: int

abbreviation (input) SECTONSEC :: int where "SECTONSEC \<equiv> 1000000000"

datatype when_called = Call_now | Call_after timespec

text \<open>\<open>mem\<close> and \<open>thread\<close>: the success of \<^verbatim>\<open>malloc\<close> and \<^verbatim>\<open>makethread\<close>.  \<open>Call_after\<close>: a thread waits for the time and then calls the function.\<close>

definition timeout :: "timespec \<Rightarrow> bool \<Rightarrow> bool \<Rightarrow> timespec \<Rightarrow> when_called" where
  "timeout now mem thread when =
     (if ts_sec when > ts_sec now \<or> (ts_sec when = ts_sec now \<and> ts_nsec when > ts_nsec now) then
        if mem then
          let wait = (if ts_nsec when \<ge> ts_nsec now then \<lparr>ts_sec = ts_sec when - ts_sec now, ts_nsec = ts_nsec when - ts_nsec now\<rparr>
                      else \<lparr>ts_sec = ts_sec when - ts_sec now - 1, ts_nsec = SECTONSEC - ts_nsec now + ts_nsec when\<rparr>)
          in if thread then Call_after wait else Call_now
        else Call_now
      else Call_now)"

definition nanos :: "timespec \<Rightarrow> int" where
  "nanos t = SECTONSEC * ts_sec t + ts_nsec t"

definition ts_ok :: "timespec \<Rightarrow> bool" where
  "ts_ok t \<longleftrightarrow> 0 \<le> ts_nsec t \<and> ts_nsec t < SECTONSEC"

text \<open>The function is called at once when the time has come, or later by a thread that waits exactly for the rest of the time; it is called early only for lack of
  memory or of a thread.\<close>

lemma timeout_waits:
  assumes "ts_ok now" "ts_ok when"
  shows "case timeout now mem thread when of
      Call_now \<Rightarrow> nanos when \<le> nanos now \<or> \<not> mem \<or> \<not> thread
    | Call_after w \<Rightarrow> ts_ok w \<and> 0 \<le> ts_sec w \<and> nanos now + nanos w = nanos when \<and> 0 < nanos w"
  using assms by (auto simp: timeout_def ts_ok_def nanos_def Let_def)

end
