(* ===== verification/Udp_Cksum.thy ===== *)
theory Udp_Cksum
  imports Ping
begin

unbundle bit_operations_syntax

text \<open>
  The program \<^verbatim>\<open>unpv13e/udpcksum\<close>, which finds out if a host uses UDP checksums: the datagrams that \<^verbatim>\<open>udp_write\<close> builds, with the checksum
  computed over the pseudo header that lies in the IP header until the other fields are filled in; the query of \<^verbatim>\<open>senddnsquery-raw.c\<close>; the
  tests of \<^verbatim>\<open>udpread.c\<close>; and the three attempts of \<^verbatim>\<open>test_udp\<close>.  \<^verbatim>\<open>struct udpiphdr\<close> has nine unused bytes, the protocol, the length,
  both addresses and the UDP header.
\<close>

section \<open>Sending\<close>

definition put_at :: "nat \<Rightarrow> byte list \<Rightarrow> byte list \<Rightarrow> byte list" where
  "put_at i bs buf = take i buf @ bs @ drop (i + length bs) buf"

text \<open>The bytes of \<^verbatim>\<open>htons(w)\<close> in memory.\<close>

definition net16 :: "16 word \<Rightarrow> byte list" where
  "net16 w = rev (word_bytes 2 w)"

text \<open>A \<^verbatim>\<open>struct sockaddr_in\<close>, both members in network order.\<close>

record sin =
  sin_port :: "16 word"
  sin_addr :: "32 word"

datatype udp_error = Buffer_overrun | Sendto_failed | Len_error | Ip_v_error | Ip_hl_error | Hlen_error | Ip_checksum_error
  | Not_udp | Not_ip | Unsupported_datalink | Overread

abbreviation (input) TTL_OUT :: byte where "TTL_OUT \<equiv> 64"

text \<open>\<open>net_len\<close> is true on the systems that want the length of the IP header in network order.\<close>

definition udp_write :: "bool \<Rightarrow> bool \<Rightarrow> sin \<Rightarrow> sin \<Rightarrow> bool \<Rightarrow> byte list \<Rightarrow> int \<Rightarrow> udp_error + byte list" where
  "udp_write net_len zerosum local dest sendto buf userlen =
     (if int (length buf) < userlen + 28 then Inl Buffer_overrun
      else let
        ui = replicate 28 0 @ drop 28 buf;
        ui = put_at 10 (net16 (word_of_int (8 + userlen))) ui;
        userlen = userlen + 28;
        ui = put_at 9 [17] ui;
        ui = put_at 12 (word_bytes 4 (sin_addr local)) ui;
        ui = put_at 16 (word_bytes 4 (sin_addr dest)) ui;
        ui = put_at 20 (word_bytes 2 (sin_port local)) ui;
        ui = put_at 22 (word_bytes 2 (sin_port dest)) ui;
        ui = put_at 24 (take 2 (drop 10 ui)) ui;
        sum = in_cksum (take (nat userlen) ui);
        ui = (if \<not> zerosum then put_at 26 (cksum_bytes (if sum = 0 then 0xffff else sum)) ui else ui);
        ui = put_at 0 [0x45, 0] ui;
        ui = put_at 2 (if net_len then net16 (word_of_int userlen) else word_bytes 2 (word_of_int userlen :: 16 word)) ui;
        ui = put_at 4 [0, 0] ui;
        ui = put_at 6 [0, 0] ui;
        ui = put_at 8 [TTL_OUT] ui
      in if sendto then Inr (take (nat userlen) ui) else Inl Sendto_failed)"

text \<open>The query for \<^verbatim>\<open>a.root-servers.net\<close>; \<open>junk\<close> is what \<^verbatim>\<open>malloc\<close> returns.\<close>

definition root_servers :: "byte list" where
  "root_servers = [1, 97, 12, 114, 111, 111, 116, 45, 115, 101, 114, 118, 101, 114, 115, 3, 110, 101, 116, 0]"

definition dns_query :: "byte list" where
  "dns_query = net16 1234 @ net16 0x0100 @ net16 1 @ [0, 0] @ [0, 0] @ [0, 0] @ root_servers @ net16 1 @ net16 1"

definition send_dns_query :: "bool \<Rightarrow> bool \<Rightarrow> sin \<Rightarrow> sin \<Rightarrow> bool \<Rightarrow> byte list \<Rightarrow> udp_error + byte list" where
  "send_dns_query net_len zerosum local dest sendto junk =
     udp_write net_len zerosum local dest sendto (put_at 28 dns_query (take 128 junk)) (int (length dns_query))"

section \<open>Receiving\<close>

text \<open>The lengths are compared as unsigned numbers of the size of \<^verbatim>\<open>size_t\<close>.  \<open>ptr\<close> is the memory at the pointer; reading past its end is an
  error of its own.  \<^verbatim>\<open>ip_sum\<close> is overwritten with the checksum, which is 0.\<close>

definition udp_check :: "byte list \<Rightarrow> int \<Rightarrow> udp_error + byte list" where
  "udp_check ptr len =
     (if (word_of_int len :: 64 word) < 28 then Inl Len_error
      else if length ptr < 28 then Inl Overread
      else if drop_bit 4 (ptr ! 0) \<noteq> 4 then Inl Ip_v_error
      else let hlen = 4 * unat (ptr ! 0 AND 0xf) in
        if hlen < 20 then Inl Ip_hl_error
        else if (word_of_int len :: 64 word) < word_of_nat hlen + 8 then Inl Hlen_error
        else if length ptr < hlen then Inl Overread
        else if in_cksum (take hlen ptr) \<noteq> 0 then Inl Ip_checksum_error
        else let ip = put_at 10 [0, 0] ptr in
          if ip ! 9 = 17 then Inr ip else Inl Not_udp)"

datatype datalink = DLT_NULL | DLT_EN10MB | DLT_SLIP | DLT_PPP | DLT_other

text \<open>The results of \<^verbatim>\<open>pcap_next\<close> in a row; \<open>None\<close> when there are no more.\<close>

fun next_pcap :: "byte list option list \<Rightarrow> byte list option" where
  "next_pcap [] = None"
| "next_pcap (None # ps) = next_pcap ps"
| "next_pcap (Some p # ps) = Some p"

definition udp_read :: "datalink \<Rightarrow> byte list \<Rightarrow> udp_error + byte list" where
  "udp_read dl ptr =
     (let len = int (length ptr) in
      case dl of
        DLT_NULL \<Rightarrow> udp_check (drop 4 ptr) (len - 4)
      | DLT_EN10MB \<Rightarrow>
          if length ptr < 14 then Inl Overread
          else if take 2 (drop 12 ptr) \<noteq> net16 0x0800 then Inl Not_ip
          else udp_check (drop 14 ptr) (len - 14)
      | DLT_SLIP \<Rightarrow> udp_check (drop 24 ptr) (len - 24)
      | DLT_PPP \<Rightarrow> udp_check (drop 24 ptr) (len - 24)
      | DLT_other \<Rightarrow> Inl Unsupported_datalink)"

section \<open>The test\<close>

definition ui_sum :: "byte list \<Rightarrow> 16 word" where
  "ui_sum ui = half_at ui 26"

datatype udp_output = Sent "byte list" | Alarm int | Timed_out | Checksums_off | Checksums_on | Received_sum "16 word"
  | No_response | Quit udp_error

definition report_sum :: "bool \<Rightarrow> udp_error + byte list \<Rightarrow> udp_output list" where
  "report_sum verbose r =
     (case r of
        Inl e \<Rightarrow> [Quit e]
      | Inr ui \<Rightarrow> (if ui_sum ui = 0 then Checksums_off else Checksums_on) # (if verbose then [Received_sum (bytes_word (rev (take 2 (drop 26 ui))))] else []))"

text \<open>\<open>arrives k\<close> are the results of \<^verbatim>\<open>pcap_next\<close> after query \<open>k\<close> before the alarm rings.\<close>

function test_loop :: "bool \<Rightarrow> (nat \<Rightarrow> udp_error + byte list) \<Rightarrow> datalink \<Rightarrow> (nat \<Rightarrow> byte list option list) \<Rightarrow> nat \<Rightarrow> int \<Rightarrow> udp_output list" where
  "test_loop verbose query dl arrives sent timeout =
     (case query sent of
        Inl e \<Rightarrow> [Quit e]
      | Inr pkt \<Rightarrow> Sent pkt # Alarm timeout #
          (case next_pcap (arrives sent) of
             Some p \<Rightarrow> report_sum verbose (udp_read dl p)
           | None \<Rightarrow>
               let sent = sent + 1 in
               if sent \<ge> 3 then [No_response]
               else Timed_out # test_loop verbose query dl arrives sent (timeout * 2)))"
  by pat_completeness auto
termination by (relation "measure (\<lambda>(_, _, _, _, sent, _). 3 - sent)") auto

definition test_udp :: "bool \<Rightarrow> (nat \<Rightarrow> udp_error + byte list) \<Rightarrow> datalink \<Rightarrow> (nat \<Rightarrow> byte list option list) \<Rightarrow> udp_output list" where
  "test_udp verbose query dl arrives = test_loop verbose query dl arrives 0 3"

declare test_loop.simps [simp del]

section \<open>The layout of a datagram\<close>

definition udp_head :: "sin \<Rightarrow> sin \<Rightarrow> int \<Rightarrow> byte list" where
  "udp_head local dest n = word_bytes 2 (sin_port local) @ word_bytes 2 (sin_port dest) @ net16 (word_of_int (8 + n))"

definition addr_pair :: "sin \<Rightarrow> sin \<Rightarrow> byte list" where
  "addr_pair local dest = word_bytes 4 (sin_addr local) @ word_bytes 4 (sin_addr dest)"

text \<open>The pseudo header as the standard (RFC 768) has it: the addresses, a zero byte, the protocol and the length.\<close>

definition pseudo_header :: "byte list \<Rightarrow> byte list" where
  "pseudo_header ui = take 8 (drop 12 ui) @ [0, ui ! 9] @ take 2 (drop 24 ui)"

definition udp_sum_ok :: "byte list \<Rightarrow> bool" where
  "udp_sum_ok ui \<longleftrightarrow> in_cksum (pseudo_header ui @ drop 20 ui) = 0"

lemma length_net16 [simp]: "length (net16 w) = 2"
  by (simp add: net16_def)

lemma length_heads [simp]: "length (udp_head l d n) = 6" "length (addr_pair l d) = 8"
  by (simp_all add: udp_head_def addr_pair_def)

lemma put_at_append: "length h = i \<Longrightarrow> length bs = length old \<Longrightarrow> put_at i bs (h @ old @ rest) = h @ bs @ rest"
  by (simp add: put_at_def)

lemma put_at_split: "put_at i bs (take i h @ drop i h) = take i h @ bs @ drop (i + length bs) h"
  by (simp add: put_at_def)

text \<open>The sum over the overlaid header.\<close>

definition wire_sum :: "sin \<Rightarrow> sin \<Rightarrow> byte list \<Rightarrow> 16 word" where
  "wire_sum local dest dat =
     (let n = int (length dat);
          sum = in_cksum (replicate 9 0 @ [17] @ net16 (word_of_int (8 + n)) @ addr_pair local dest @ udp_head local dest n @ [0, 0] @ dat)
      in if sum = 0 then 0xffff else sum)"

lemma word_bytes_2: "word_bytes 2 w = [ucast w, ucast (drop_bit 8 w)]"
  by (simp add: numeral_2_eq_2)

lemma word_bytes_4: "word_bytes 4 w = [ucast w, ucast (drop_bit 8 w), ucast (drop_bit 16 w), ucast (drop_bit 24 w)]"
  by (simp add: eval_nat_numeral drop_bit_drop_bit)

lemma udp_write_layout:
  assumes "length buf = 28 + length dat + k" "take (length dat) (drop 28 buf) = dat"
  shows "udp_write net_len zerosum local dest True buf (int (length dat)) =
    Inr ([0x45, 0] @ (if net_len then net16 (word_of_nat (28 + length dat)) else word_bytes 2 (word_of_nat (28 + length dat) :: 16 word)) @
      [0, 0, 0, 0, TTL_OUT, 17] @ net16 (word_of_int (8 + int (length dat))) @ addr_pair local dest @ udp_head local dest (int (length dat)) @
      (if zerosum then [0, 0] else cksum_bytes (wire_sum local dest dat)) @ dat)"
proof -
  have "drop 28 buf = dat @ drop (28 + length dat) buf" using assms(2) append_take_drop_id [of "length dat" "drop 28 buf"] by (simp add: add.commute)
  then obtain rest where r: "drop 28 buf = dat @ rest" by blast
  have z: "replicate 28 (0 :: byte) = [0,0,0,0,0,0,0,0,0,0,0,0,0,0,0,0,0,0,0,0,0,0,0,0,0,0,0,0]" "replicate 9 (0 :: byte) = [0,0,0,0,0,0,0,0,0]"
    by (simp_all add: eval_nat_numeral)
  have n: "nat (int (length dat) + 28) = 28 + length dat" by simp
  have w: "word_of_int (int (length dat) + 28) = (word_of_nat (28 + length dat) :: 16 word)" by (metis add.commute of_int_of_nat_eq of_nat_add of_nat_numeral)
  have tk: "take (numeral m + j) (x # xs) = x # take (pred_numeral m + j) xs" for m j and x :: byte and xs by (simp add: numeral_eq_Suc)
  show ?thesis
    using assms(1) unfolding udp_write_def r z(1) Let_def n w wire_sum_def
    by (simp add: put_at_def net16_def word_bytes_2 word_bytes_4 udp_head_def addr_pair_def cksum_bytes_def z(2) tk)
qed

section \<open>The receiver\<close>

lemma cksum_bytes_word: "bytes_word (cksum_bytes c @ []) = c"
  using bytes_word_all [of 2 c] by (simp add: word_bytes_2 cksum_bytes_def)

lemma fold16_again: "s \<noteq> 0 \<Longrightarrow> fold16 (s + 65535) = fold16 s"
proof (cases s)
  case (Suc k)
  have "fold16 (s + 65535) = 1 + (k + 65535) mod 65535" by (simp add: fold16_def Suc)
  then show ?thesis by (simp add: fold16_def Suc)
qed simp

lemma wire_sum_verifies:
  assumes "length dat \<le> 65507"
  shows "wire_sum l d dat \<noteq> 0"
    and "in_cksum (addr_pair l d @ [0, 17] @ net16 (word_of_int (8 + int (length dat))) @ udp_head l d (int (length dat)) @
      cksum_bytes (wire_sum l d dat) @ dat) = 0"
proof -
  let ?len = "net16 (word_of_int (8 + int (length dat)))" and ?h = "udp_head l d (int (length dat))"
  let ?m = "replicate 9 0 @ [17] @ ?len @ addr_pair l d @ ?h @ [0, 0] @ dat" and ?c = "wire_sum l d dat"
  let ?s = "total ?m"
  have z: "replicate 9 (0 :: byte) @ [17] = [0,0,0,0,0,0,0,0] @ [0,17]" by (simp add: eval_nat_numeral)
  have s: "?s = total [0, 17] + total ?len + total (addr_pair l d) + total ?h + total dat"
    unfolding append_assoc [symmetric] z by (simp add: total_append)
  have pos: "?s \<noteq> 0" unfolding s by simp
  have c: "unat (in_cksum ?m) = 65535 - fold16 ?s" using assms by (intro in_cksum_fold) simp
  have f: "fold16 ?s \<le> 65535" unfolding fold16_def using mod_less_divisor [of 65535 "?s - 1"] by (simp del: mod_less_divisor)
  show nz: "?c \<noteq> 0" by (simp add: wire_sum_def Let_def)
  have "fold16 (?s + unat ?c) = 65535"
  proof (cases "in_cksum ?m = 0")
    case True
    then have "?c = 0xffff" "fold16 ?s = 65535" using c f by (simp_all add: wire_sum_def Let_def)
    then show ?thesis using fold16_again [OF pos] by simp
  next
    case False
    then have "unat ?c = 65535 - fold16 ?s" using c by (simp add: wire_sum_def Let_def)
    then show ?thesis by (simp add: fold16_complement)
  qed
  moreover have "total (addr_pair l d @ [0, 17] @ ?len @ ?h @ cksum_bytes ?c @ dat) = ?s + unat ?c"
    unfolding s by (simp add: total_append total_cksum_bytes)
  moreover have "length (addr_pair l d @ [0, 17] @ ?len @ ?h @ cksum_bytes ?c @ dat) \<le> 131074" using assms by (simp add: cksum_bytes_def)
  ultimately show "in_cksum (addr_pair l d @ [0, 17] @ ?len @ ?h @ cksum_bytes ?c @ dat) = 0"
    using in_cksum_fold [of "addr_pair l d @ [0, 17] @ ?len @ ?h @ cksum_bytes ?c @ dat"] by (simp add: unat_eq_0 [symmetric])
qed

text \<open>What the kernel may change of the packet: the length, the identification, the fragment offset and the time to live, and the
  checksum of the IP header, which is then right.\<close>

definition ip_output :: "byte list \<Rightarrow> byte list \<Rightarrow> bool" where
  "ip_output pkt pkt' \<longleftrightarrow> length pkt' = length pkt \<and> pkt' ! 0 = pkt ! 0 \<and> pkt' ! 9 = pkt ! 9 \<and> drop 12 pkt' = drop 12 pkt \<and>
     in_cksum (take 20 pkt') = 0"

lemma udp_check_accepts:
  assumes "28 \<le> length p" "length p < 100000" "p ! 0 = 0x45" "p ! 9 = 17" "in_cksum (take 20 p) = 0"
  shows "udp_check p (int (length p)) = Inr (put_at 10 [0, 0] p)"
proof -
  have "unat (word_of_nat (length p) :: 64 word) = length p" using assms(2) by (simp add: unat_of_nat)
  then have "\<not> (word_of_nat (length p) :: 64 word) < 28" using assms(1) by (simp add: word_less_nat_alt)
  moreover have "put_at 10 [0, 0] p ! 9 = 17" using assms(1,4) by (simp add: put_at_def nth_append)
  ultimately show ?thesis using assms by (simp add: udp_check_def Let_def)
qed

lemma put_at_parts:
  assumes "28 \<le> length p" "drop 12 p = a @ h @ s @ dat" "length a = 8" "length h = 6" "length s = 2"
  shows "drop 28 (put_at 10 [0, 0] p) = dat" "take 2 (drop 26 (put_at 10 [0, 0] p)) = s" "drop 20 (put_at 10 [0, 0] p) = h @ s @ dat"
    and "take 8 (drop 12 (put_at 10 [0, 0] p)) = a" "take 2 (drop 24 (put_at 10 [0, 0] p)) = drop 4 h" "put_at 10 [0, 0] p ! 9 = p ! 9"
proof -
  have d: "put_at 10 [0, 0] p = take 10 p @ [0, 0] @ a @ h @ s @ dat" using assms(1,2) by (simp add: put_at_def)
  have l: "length (take 10 p) = 10" using assms(1) by simp
  show "drop 28 (put_at 10 [0, 0] p) = dat" "take 2 (drop 26 (put_at 10 [0, 0] p)) = s" "drop 20 (put_at 10 [0, 0] p) = h @ s @ dat"
    "take 8 (drop 12 (put_at 10 [0, 0] p)) = a" "take 2 (drop 24 (put_at 10 [0, 0] p)) = drop 4 h" "put_at 10 [0, 0] p ! 9 = p ! 9"
    unfolding d using l assms(3-5) by (simp_all add: nth_append)
qed

text \<open>C35: A datagram that \<^verbatim>\<open>udp_write\<close> sends is accepted by \<^verbatim>\<open>udp_check\<close> after the kernel has filled in the IP header, with the data unchanged.  Its
  UDP checksum is right for the pseudo header of the standard, although it was computed over the overlaid IP header, and it is
  never 0, which would mean that there is none; with the option for it, it is 0.\<close>

theorem udp_write_verifies:
  assumes "length buf = 28 + length dat + k" "take (length dat) (drop 28 buf) = dat" "length dat \<le> 65507"
    and "udp_write net_len zerosum local dest True buf (int (length dat)) = Inr pkt" "ip_output pkt pkt'"
  shows "\<exists>ui. udp_check pkt' (int (length pkt')) = Inr ui \<and> drop 28 ui = dat \<and>
    (if zerosum then ui_sum ui = 0 else ui_sum ui \<noteq> 0 \<and> udp_sum_ok ui)"
proof -
  let ?n = "int (length dat)" and ?s = "if zerosum then [0, 0] else cksum_bytes (wire_sum local dest dat)"
  note lay = udp_write_layout [OF assms(1,2), of net_len zerosum local dest, unfolded assms(4), simplified]
  have l: "length pkt = 28 + length dat" "pkt ! 0 = 0x45" "pkt ! 9 = 17" "drop 12 pkt = addr_pair local dest @ udp_head local dest ?n @ ?s @ dat"
    by (simp_all add: lay cksum_bytes_def nth_append)
  note k = assms(5) [unfolded ip_output_def l]
  have ck: "udp_check pkt' (int (length pkt')) = Inr (put_at 10 [0, 0] pkt')" using k assms(3) by (intro udp_check_accepts) simp_all
  have p: "28 \<le> length pkt'" "drop 12 pkt' = addr_pair local dest @ udp_head local dest ?n @ ?s @ dat" "length ?s = 2" using k by (simp_all add: cksum_bytes_def)
  note parts = put_at_parts [OF p(1,2) length_heads(2,1) p(3)]
  have h: "drop 4 (udp_head local dest ?n) = net16 (word_of_int (8 + ?n))" by (simp add: udp_head_def)
  have "ui_sum (put_at 10 [0, 0] pkt') = (if zerosum then 0 else wire_sum local dest dat)"
    using cksum_bytes_word [of "wire_sum local dest dat"] by (simp add: ui_sum_def half_at_def parts(2))
  moreover have "udp_sum_ok (put_at 10 [0, 0] pkt')" if "\<not> zerosum"
    using wire_sum_verifies(2) [OF assms(3), of local dest] that k h by (simp add: udp_sum_ok_def pseudo_header_def parts(3-6))
  ultimately show ?thesis using ck parts(1) wire_sum_verifies(1) [OF assms(3), of local dest] by auto
qed

definition example_sin :: "16 word \<Rightarrow> sin" where
  "example_sin p = \<lparr>sin_port = p, sin_addr = 0x0100007f\<rparr>"

text \<open>The kernel's part on the example: identification 1 and the checksum of the header.\<close>

definition kernel_fill :: "byte list \<Rightarrow> byte list" where
  "kernel_fill pkt =
     (let h = take 4 pkt @ [0, 1, 0, 0] @ take 2 (drop 8 pkt) in
      h @ cksum_bytes (in_cksum (h @ [0, 0] @ take 8 (drop 12 pkt))) @ drop 12 pkt)"

lemma kernel_fill_ok: "28 \<le> length pkt \<Longrightarrow> ip_output pkt (kernel_fill pkt)"
  unfolding ip_output_def kernel_fill_def Let_def
  using in_cksum_verifies [of "take 4 pkt @ [0, 1, 0, 0] @ take 2 (drop 8 pkt)" "take 8 (drop 12 pkt)"]
  by (simp add: nth_append take_drop add.commute cksum_bytes_def)

theorem udp_write_verifies_witness:
  "\<exists>pkt ui. udp_write True False (example_sin 1) (example_sin 2) True (replicate 28 0 @ [1, 2, 3]) 3 = Inr pkt \<and>
     udp_check (kernel_fill pkt) (int (length (kernel_fill pkt))) = Inr ui \<and> drop 28 ui = [1, 2, 3] \<and> ui_sum ui \<noteq> 0 \<and> udp_sum_ok ui"
proof -
  let ?b = "replicate 28 0 @ [1, 2, 3 :: byte]" and ?d = "[1, 2, 3 :: byte]"
  have a: "length ?b = 28 + length ?d + 0" "take (length ?d) (drop 28 ?b) = ?d" "length ?d \<le> 65507" by simp_all
  note lay = udp_write_layout [OF a(1,2), of True False "example_sin 1" "example_sin 2"]
  then obtain pkt where p: "udp_write True False (example_sin 1) (example_sin 2) True ?b (int (length ?d)) = Inr pkt" "28 \<le> length pkt"
    by (auto simp: cksum_bytes_def)
  from udp_write_verifies [OF a p(1) kernel_fill_ok [OF p(2)]] p(1) show ?thesis by auto
qed

section \<open>The attempts\<close>

text \<open>The test sends at most three queries, with alarms after 3, 6 and 12 seconds, and reports on the first answer.\<close>

lemma test_udp_no_answer:
  assumes "\<And>k. query k = Inr pkt" "\<And>k. next_pcap (arrives k) = None"
  shows "test_udp verbose query dl arrives = [Sent pkt, Alarm 3, Timed_out, Sent pkt, Alarm 6, Timed_out, Sent pkt, Alarm 12, No_response]"
  by (simp add: test_udp_def test_loop.simps assms)

lemma test_udp_answer:
  assumes "\<And>k. query k = Inr pkt" "m < 3" "\<And>k. k < m \<Longrightarrow> next_pcap (arrives k) = None" "next_pcap (arrives m) = Some p" "udp_read dl p = Inr ui"
  shows "last (test_udp False query dl arrives) = (if ui_sum ui = 0 then Checksums_off else Checksums_on)"
proof -
  have "m = 0 \<or> m = 1 \<or> m = 2" using assms(2) by linarith
  then show ?thesis using assms by (elim disjE) (simp_all add: test_udp_def test_loop.simps report_sum_def numeral_2_eq_2)
qed

text \<open>A negative length passes the comparison with the size of the headers.\<close>

lemma udp_check_negative: "udp_check [] (- 2) = Inl Overread"
  by (simp add: udp_check_def word_less_nat_alt)

text \<open>With options in the IP header the checksum is taken from the wrong place: here from a header with four bytes of options, where the
  datagram has no checksum.\<close>

definition options_packet :: "byte list" where
  "options_packet = (let h = [0x46, 0, 0, 32, 0, 1, 0, 0, 64, 17] in
     h @ cksum_bytes (in_cksum (h @ [0, 0] @ [127, 0, 0, 1, 127, 0, 0, 1, 1, 1, 1, 0])) @ [127, 0, 0, 1, 127, 0, 0, 1, 1, 1, 1, 0, 0, 53, 4, 0, 0, 8, 0, 0])"

lemma udp_check_options: "\<exists>ui. udp_check options_packet 32 = Inr ui \<and> take 2 (drop 30 ui) = [0, 0] \<and> ui_sum ui \<noteq> 0"
proof -
  let ?h = "[0x46, 0, 0, 32, 0, 1, 0, 0, 64, 17] :: byte list" and ?r = "[127, 0, 0, 1, 127, 0, 0, 1, 1, 1, 1, 0] :: byte list"
  have v: "in_cksum (take 24 options_packet) = 0" using in_cksum_verifies [of ?h ?r] by (simp add: options_packet_def Let_def cksum_bytes_def)
  have h: "options_packet ! 0 = 0x46" "length options_packet = 32" by (simp_all add: options_packet_def Let_def cksum_bytes_def)
  have "udp_check options_packet 32 = Inr (put_at 10 [0, 0] options_packet)"
    unfolding udp_check_def h Let_def using v by (simp add: put_at_def options_packet_def Let_def cksum_bytes_def word_less_nat_alt)
  then show ?thesis by (simp add: put_at_def options_packet_def Let_def cksum_bytes_def ui_sum_def half_at_def)
qed

end
