(* ===== verification/Icmp_Daemon.thy ===== *)
theory Icmp_Daemon
  imports Fd_Slots Ping
begin

unbundle bit_operations_syntax

text \<open>
  The daemon \<^verbatim>\<open>unpv13e/icmpd\<close>, which tells its clients about the ICMP errors for their UDP sockets.  A client connects and passes its
  socket; the daemon notes the family and the port in its array, and an ICMP message that contains the header of a datagram from that port is reported to the client.
  One round of the loop in \<^verbatim>\<open>icmpd.c\<close> is a function of what the system calls report.  \<^verbatim>\<open>Read_fd\<close>, \<^verbatim>\<open>sock_get_port\<close> and \<^verbatim>\<open>sock_bind_wild\<close> are library functions;
  their results are part of what a round meets.
\<close>

section \<open>The state\<close>

record icmp_client =
  ic_connfd :: int
  ic_family :: int
  ic_lport :: int

datatype icmpd_errno = EHOSTUNREACH | EMSGSIZE | ECONNREFUSED

text \<open>The record for a client; \<^verbatim>\<open>icmpd_dest\<close> is the family, the address and the port.\<close>

record icmpd_err =
  icmpd_errno :: icmpd_errno
  icmpd_type :: byte
  icmpd_code :: byte
  icmpd_len :: nat
  icmpd_dest :: "int \<times> byte list \<times> 16 word"

record icmpd =
  ic_client :: "icmp_client list"
  ic_maxi :: int
  ic_maxfd :: int
  ic_allset :: "int set"
  ic_out :: "(int \<times> icmpd_err) list"
  ic_acks :: "(int \<times> char) list"
  ic_closed :: "int list"

datatype icmpd_error = Fd_range | Read_fd_error | Write_error | Icmplen_error

record icmpd_fds =
  fd4 :: int
  fd6 :: int
  listenfd :: int

text \<open>What a round meets: the descriptors that are ready, the new connection, the number of bytes and the descriptor that
  \<^verbatim>\<open>Read_fd\<close> returns, the family and port of a socket, the port that \<^verbatim>\<open>sock_bind_wild\<close> gives it, the
  ICMP messages (the buffer and the number of bytes received) and whether a \<^verbatim>\<open>write\<close> succeeds.\<close>

record icmpd_io =
  id_ready :: "int \<Rightarrow> bool"
  id_conn :: int
  id_read :: "int \<Rightarrow> (nat \<times> int) option"
  id_name :: "int \<Rightarrow> (int \<times> int) option"
  id_bind :: "int \<Rightarrow> int"
  id_v4 :: "byte list \<times> int"
  id_v6 :: "byte list \<times> int"
  id_write :: "int \<Rightarrow> bool"

definition icmpd_start :: "icmpd_fds \<Rightarrow> icmpd" where
  "icmpd_start fds = \<lparr>ic_client = replicate FD_SETSIZE \<lparr>ic_connfd = - 1, ic_family = 0, ic_lport = 0\<rparr>, ic_maxi = - 1,
     ic_maxfd = max (max (fd4 fds) (fd6 fds)) (listenfd fds), ic_allset = {fd4 fds, fd6 fds, listenfd fds},
     ic_out = [], ic_acks = [], ic_closed = []\<rparr>"

section \<open>Connections\<close>

definition readable_listen :: "int \<Rightarrow> icmpd \<Rightarrow> icmpd_error + icmpd" where
  "readable_listen connfd s =
     (let i = first_free (map ic_connfd (ic_client s)) in
      if i = FD_SETSIZE then Inr (s\<lparr>ic_closed := ic_closed s @ [connfd]\<rparr>)
      else if connfd \<ge> int FD_SETSIZE then Inl Fd_range
      else Inr (s\<lparr>ic_client := (ic_client s)[i := (ic_client s ! i)\<lparr>ic_connfd := connfd\<rparr>], ic_allset := insert connfd (ic_allset s),
                  ic_maxfd := max (ic_maxfd s) connfd, ic_maxi := max (ic_maxi s) (int i)\<rparr>))"

text \<open>From the label \<^verbatim>\<open>clientdone\<close>, and from \<^verbatim>\<open>clienterr\<close>.\<close>

definition clientdone :: "nat \<Rightarrow> int \<Rightarrow> icmpd \<Rightarrow> icmpd_error + icmpd" where
  "clientdone i recvfd s =
     (let unixfd = ic_connfd (ic_client s ! i) in
      Inr (s\<lparr>ic_closed := ic_closed s @ [unixfd] @ (if recvfd \<ge> 0 then [recvfd] else []), ic_allset := ic_allset s - {unixfd},
             ic_client := (ic_client s)[i := (ic_client s ! i)\<lparr>ic_connfd := - 1\<rparr>]\<rparr>))"

definition write_ack :: "icmpd_io \<Rightarrow> int \<Rightarrow> char \<Rightarrow> icmpd \<Rightarrow> icmpd_error + icmpd" where
  "write_ack io fd c s = (if id_write io fd then Inr (s\<lparr>ic_acks := ic_acks s @ [(fd, c)]\<rparr>) else Inl Write_error)"

definition clienterr :: "icmpd_io \<Rightarrow> nat \<Rightarrow> int \<Rightarrow> icmpd \<Rightarrow> icmpd_error + icmpd" where
  "clienterr io i recvfd s = andthen (write_ack io (ic_connfd (ic_client s ! i)) CHR ''0'' s) (clientdone i recvfd)"

definition readable_conn :: "icmpd_io \<Rightarrow> nat \<Rightarrow> icmpd \<Rightarrow> icmpd_error + icmpd" where
  "readable_conn io i s =
     (let unixfd = ic_connfd (ic_client s ! i) in
      case id_read io unixfd of
        None \<Rightarrow> Inl Read_fd_error
      | Some (n, recvfd) \<Rightarrow>
          if n = 0 then clientdone i recvfd s
          else if recvfd < 0 then clienterr io i recvfd s
          else case id_name io recvfd of
            None \<Rightarrow> clienterr io i recvfd s
          | Some (fam, port) \<Rightarrow>
              let s = s\<lparr>ic_client := (ic_client s)[i := (ic_client s ! i)\<lparr>ic_family := fam, ic_lport := if port = 0 then id_bind io recvfd else port\<rparr>]\<rparr> in
              if port = 0 \<and> ic_lport (ic_client s ! i) \<le> 0 then clienterr io i recvfd s
              else andthen (write_ack io unixfd CHR ''1'' s) (\<lambda>s. Inr (s\<lparr>ic_closed := ic_closed s @ [recvfd]\<rparr>)))"

section \<open>ICMP messages\<close>

text \<open>The port the datagram was sent from, and the record for the client; \<open>None\<close> when the message is of no interest.\<close>

definition errno_v4 :: "byte \<Rightarrow> byte \<Rightarrow> icmpd_errno" where
  "errno_v4 typ code =
     (if typ = 3 then (if code = 3 then ECONNREFUSED else if code = 4 then EMSGSIZE else EHOSTUNREACH) else EHOSTUNREACH)"

definition parse_v4 :: "byte list \<Rightarrow> int \<Rightarrow> icmpd_error + (16 word \<times> icmpd_err) option" where
  "parse_v4 buf n =
     (let hlen1 = 4 * unat (buf ! 0 AND 0xf); icmp = drop hlen1 buf; icmplen = n - int hlen1; typ = icmp ! 0; code = icmp ! 1 in
      if icmplen < 8 then Inl Icmplen_error
      else if typ = 3 \<or> typ = 11 \<or> typ = 4 then
        if icmplen < 8 + 20 + 8 then Inl Icmplen_error
        else let hip = drop (hlen1 + 8) buf; hlen2 = 4 * unat (hip ! 0 AND 0xf) in
          if hip ! 9 = 17 then
            let udp = drop (hlen1 + 8 + hlen2) buf in
            Inr (Some (half_at udp 0, \<lparr>icmpd_errno = errno_v4 typ code, icmpd_type = typ, icmpd_code = code, icmpd_len = 16,
              icmpd_dest = (AF_INET, take 4 (drop 16 hip), half_at udp 2)\<rparr>))
          else Inr None
      else Inr None)"

definition errno_v6 :: "byte \<Rightarrow> byte \<Rightarrow> icmpd_errno" where
  "errno_v6 typ code = (if typ = 2 then EMSGSIZE else if typ = 1 \<and> code = 4 then ECONNREFUSED else EHOSTUNREACH)"

definition parse_v6 :: "byte list \<Rightarrow> int \<Rightarrow> icmpd_error + (16 word \<times> icmpd_err) option" where
  "parse_v6 buf n =
     (let typ = buf ! 0; code = buf ! 1 in
      if n < 8 then Inl Icmplen_error
      else if typ = 1 \<or> typ = 2 \<or> typ = 3 then
        if n < 8 + 8 then Inl Icmplen_error
        else let hip6 = drop 8 buf in
          if hip6 ! 6 = 17 then
            let udp = drop (8 + 40) buf in
            Inr (Some (half_at udp 0, \<lparr>icmpd_errno = errno_v6 typ code, icmpd_type = typ, icmpd_code = code, icmpd_len = 28,
              icmpd_dest = (AF_INET6, take 16 (drop 24 hip6), half_at udp 2)\<rparr>))
          else Inr None
      else Inr None)"

text \<open>The loop over the clients.\<close>

fun notify :: "icmpd_io \<Rightarrow> int \<Rightarrow> int \<Rightarrow> icmpd_err \<Rightarrow> nat list \<Rightarrow> icmpd \<Rightarrow> icmpd_error + icmpd" where
  "notify io fam sport err [] s = Inr s"
| "notify io fam sport err (i # is) s =
     (let c = ic_client s ! i in
      if ic_connfd c \<ge> 0 \<and> ic_family c = fam \<and> ic_lport c = sport then
        if id_write io (ic_connfd c) then notify io fam sport err is (s\<lparr>ic_out := ic_out s @ [(ic_connfd c, err)]\<rparr>)
        else Inl Write_error
      else notify io fam sport err is s)"

definition tell_clients :: "icmpd_io \<Rightarrow> int \<Rightarrow> (16 word \<times> icmpd_err) option \<Rightarrow> icmpd \<Rightarrow> icmpd_error + icmpd" where
  "tell_clients io fam msg s =
     (case msg of None \<Rightarrow> Inr s | Some (sport, err) \<Rightarrow> notify io fam (uint sport) err [0..<nat (ic_maxi s + 1)] s)"

definition readable_v4 :: "icmpd_io \<Rightarrow> icmpd \<Rightarrow> icmpd_error + icmpd" where
  "readable_v4 io s = andthen (parse_v4 (fst (id_v4 io)) (snd (id_v4 io))) (\<lambda>msg. tell_clients io AF_INET msg s)"

definition readable_v6 :: "icmpd_io \<Rightarrow> icmpd \<Rightarrow> icmpd_error + icmpd" where
  "readable_v6 io s = andthen (parse_v6 (fst (id_v6 io)) (snd (id_v6 io))) (\<lambda>msg. tell_clients io AF_INET6 msg s)"

section \<open>The loop\<close>

text \<open>One of the descriptors: served when it is ready, and the loop continues with \<^verbatim>\<open>select\<close> when it was the last one.\<close>

definition if_set :: "bool \<Rightarrow> (icmpd \<Rightarrow> icmpd_error + icmpd) \<Rightarrow> (int \<Rightarrow> icmpd \<Rightarrow> icmpd_error + icmpd) \<Rightarrow> int \<Rightarrow> icmpd \<Rightarrow> icmpd_error + icmpd" where
  "if_set b op cont nready s =
     (if b then andthen (op s) (\<lambda>s. if nready - 1 \<le> 0 then Inr s else cont (nready - 1) s) else cont nready s)"

definition ic_due :: "int set \<Rightarrow> nat \<Rightarrow> icmpd \<Rightarrow> bool" where
  "ic_due rset i s \<longleftrightarrow> \<not> ic_connfd (ic_client s ! i) < 0 \<and> ic_connfd (ic_client s ! i) \<in> rset"

definition ic_scan :: "icmpd_io \<Rightarrow> int set \<Rightarrow> int \<Rightarrow> icmpd \<Rightarrow> icmpd_error + icmpd" where
  "ic_scan io rset nready s = counted (\<lambda>k. k \<le> 0) (ic_due rset) (readable_conn io) [0..<nat (ic_maxi s + 1)] nready s"

definition ic_rset :: "icmpd_io \<Rightarrow> icmpd \<Rightarrow> int set" where
  "ic_rset io s = {fd \<in> ic_allset s. fd < ic_maxfd s + 1 \<and> id_ready io fd}"

definition icmpd_round :: "icmpd_fds \<Rightarrow> icmpd_io \<Rightarrow> icmpd \<Rightarrow> icmpd_error + icmpd" where
  "icmpd_round fds io s =
     (let rset = ic_rset io s; nready = int (card rset) in
      if_set (listenfd fds \<in> rset) (readable_listen (id_conn io))
        (if_set (fd4 fds \<in> rset) (readable_v4 io)
          (if_set (fd6 fds \<in> rset) (readable_v6 io) (ic_scan io rset))) nready s)"

section \<open>The array as a registry\<close>

definition reg_of :: "icmp_client list \<Rightarrow> int \<rightharpoonup> int \<times> int" where
  "reg_of cl fd = (if fd < 0 then None else map_option (\<lambda>c. (ic_family c, ic_lport c)) (find (\<lambda>c. ic_connfd c = fd) cl))"

abbreviation ic_slots :: "icmp_client list \<Rightarrow> int list" where "ic_slots cl \<equiv> map ic_connfd cl"

lemma reg_iff:
  assumes "slots_distinct (ic_slots cl)"
  shows "reg_of cl fd = Some r \<longleftrightarrow> (\<exists>i < length cl. ic_connfd (cl ! i) = fd \<and> 0 \<le> fd \<and> r = (ic_family (cl ! i), ic_lport (cl ! i)))"
proof
  assume "reg_of cl fd = Some r"
  then show "\<exists>i < length cl. ic_connfd (cl ! i) = fd \<and> 0 \<le> fd \<and> r = (ic_family (cl ! i), ic_lport (cl ! i))"
    by (auto simp: reg_of_def find_Some_iff split: if_splits)
next
  assume "\<exists>i < length cl. ic_connfd (cl ! i) = fd \<and> 0 \<le> fd \<and> r = (ic_family (cl ! i), ic_lport (cl ! i))"
  then obtain i where i: "i < length cl" "ic_connfd (cl ! i) = fd" "0 \<le> fd" "r = (ic_family (cl ! i), ic_lport (cl ! i))" by blast
  have "ic_connfd (cl ! j) \<noteq> fd" if "j < i" for j
  proof
    assume "ic_connfd (cl ! j) = fd"
    then have "j = i" using slots_distinctD [OF assms, of j i] i(1-3) that by simp
    then show False using that by simp
  qed
  then have "find (\<lambda>c. ic_connfd c = fd) cl = Some (cl ! i)" using i(1,2) by (auto simp: find_Some_iff)
  then show "reg_of cl fd = Some r" using i(3,4) by (simp add: reg_of_def)
qed

lemma dom_reg:
  assumes "slots_distinct (ic_slots cl)"
  shows "dom (reg_of cl) = srv_open (ic_slots cl)"
  using reg_iff [OF assms] by (fastforce simp: dom_def srv_open_nth)

lemma reg_update:
  assumes "i < length cl" "slots_distinct (ic_slots cl)" "slots_distinct (ic_slots (cl[i := c]))"
  shows "reg_of (cl[i := c]) fd = (if 0 \<le> fd \<and> fd = ic_connfd c then Some (ic_family c, ic_lport c)
    else if fd = ic_connfd (cl ! i) then None else reg_of cl fd)" (is "_ = ?r")
proof -
  have u: "ic_connfd (cl ! j) \<noteq> ic_connfd (cl ! i)" if "j < length cl" "j \<noteq> i" "0 \<le> ic_connfd (cl ! i)" for j
    using slots_distinctD [OF assms(2), of i j] assms(1) that by auto
  have v: "ic_connfd (cl ! j) \<noteq> ic_connfd c" if "j < length cl" "j \<noteq> i" "0 \<le> ic_connfd c" for j
    using slots_distinctD [OF assms(3), of i j] assms(1) that by auto
  have "reg_of (cl[i := c]) fd = Some r \<longleftrightarrow> ?r = Some r" for r
  proof -
    consider "0 \<le> fd" "fd = ic_connfd c" | "fd < 0" | "0 \<le> fd" "fd \<noteq> ic_connfd c" "fd = ic_connfd (cl ! i)"
      | "0 \<le> fd" "fd \<noteq> ic_connfd c" "fd \<noteq> ic_connfd (cl ! i)" by linarith
    then show ?thesis
    proof cases
      case 1
      then show ?thesis using assms(1) v unfolding reg_iff [OF assms(3)] by (auto simp: nth_upd intro!: exI [of _ i])
    next
      case 2
      then show ?thesis by (simp add: reg_of_def)
    next
      case 3
      then show ?thesis using u unfolding reg_iff [OF assms(3)] by (auto simp: nth_upd split: if_splits)
    next
      case 4
      have "reg_of (cl[i := c]) fd = Some r \<longleftrightarrow> reg_of cl fd = Some r"
        unfolding reg_iff [OF assms(3)] reg_iff [OF assms(2)] using 4 by (auto simp: nth_upd split: if_splits)
      then show ?thesis using 4 by simp
    qed
  qed
  then show ?thesis by (cases ?r) (metis option.exhaust)+
qed

section \<open>The invariant\<close>

definition ic_inv :: "icmpd_fds \<Rightarrow> icmpd \<Rightarrow> bool" where
  "ic_inv fds s \<longleftrightarrow> length (ic_client s) = FD_SETSIZE \<and> slots_distinct (ic_slots (ic_client s)) \<and>
     ic_allset s = {fd4 fds, fd6 fds, listenfd fds} \<union> srv_open (ic_slots (ic_client s)) \<and>
     {fd4 fds, fd6 fds, listenfd fds} \<inter> srv_open (ic_slots (ic_client s)) = {} \<and> distinct [fd4 fds, fd6 fds, listenfd fds] \<and>
     (\<forall>fd \<in> ic_allset s. fd \<le> ic_maxfd s) \<and>
     (\<forall>i < FD_SETSIZE. 0 \<le> ic_connfd (ic_client s ! i) \<longrightarrow> int i \<le> ic_maxi s) \<and> - 1 \<le> ic_maxi s \<and> ic_maxi s < int FD_SETSIZE"

abbreviation ic_reg :: "icmpd \<Rightarrow> int \<rightharpoonup> int \<times> int" where "ic_reg s \<equiv> reg_of (ic_client s)"

definition ic_outs :: "int \<Rightarrow> icmpd \<Rightarrow> icmpd_err list" where
  "ic_outs c s = map snd (filter (\<lambda>e. fst e = c) (ic_out s))"

lemma icmpd_start_inv: "distinct [fd4 fds, fd6 fds, listenfd fds] \<Longrightarrow> ic_inv fds (icmpd_start fds)"
  by (auto simp: ic_inv_def icmpd_start_def slots_distinct_def srv_open_def)

lemma ic_inv_sizes:
  assumes "ic_inv fds s"
  shows "length (ic_client s) = FD_SETSIZE" "nat (ic_maxi s + 1) \<le> FD_SETSIZE" "slots_distinct (ic_slots (ic_client s))"
proof -
  show "length (ic_client s) = FD_SETSIZE" "slots_distinct (ic_slots (ic_client s))" using assms by (simp_all add: ic_inv_def)
  have "ic_maxi s < int FD_SETSIZE" using assms by (simp add: ic_inv_def)
  then show "nat (ic_maxi s + 1) \<le> FD_SETSIZE" by linarith
qed

lemma listen_ok:
  assumes "ic_inv fds s" "0 \<le> c" "c \<notin> ic_allset s"
  shows "yields (\<lambda>t. ic_inv fds t \<and> ic_out t = ic_out s \<and> dom (ic_reg t) \<subseteq> insert c (dom (ic_reg s)) \<and> (\<forall>d. d \<noteq> c \<longrightarrow> ic_reg t d = ic_reg s d))
    (\<lambda>e. True) (readable_listen c s)"
proof -
  let ?cl = "ic_client s" and ?i = "first_free (ic_slots (ic_client s))"
  note z = ic_inv_sizes [OF assms(1)]
  have new: "c \<notin> srv_open (ic_slots ?cl)" using assms(1,3) by (auto simp: ic_inv_def)
  { assume i: "?i \<noteq> FD_SETSIZE"
    then have il: "?i < length (ic_slots ?cl)" "?i < length ?cl" using first_free_le [of "ic_slots ?cl"] z(1) by simp_all
    note add = open_add [OF il(1) first_free_neg [OF il(1)] assms(2) new z(3)]
    let ?cl' = "?cl[?i := (?cl ! ?i)\<lparr>ic_connfd := c\<rparr>]"
    have sl: "ic_slots ?cl' = (ic_slots ?cl)[?i := c]" by (simp add: map_update)
    have neg: "ic_connfd (?cl ! ?i) < 0" using first_free_neg [OF il(1)] il(2) by simp
    note up = reg_update [OF il(2) z(3), of "(?cl ! ?i)\<lparr>ic_connfd := c\<rparr>", unfolded sl, OF add(2)]
    have reg: "\<forall>d. d \<noteq> c \<longrightarrow> reg_of ?cl' d = reg_of ?cl d" using neg by (auto simp: up) (simp add: reg_of_def)
    moreover have "dom (reg_of ?cl') \<subseteq> insert c (dom (reg_of ?cl))" using reg by (metis domIff insertCI subsetI)
    moreover have "ic_inv fds (s\<lparr>ic_client := ?cl', ic_allset := insert c (ic_allset s), ic_maxfd := max (ic_maxfd s) c, ic_maxi := max (ic_maxi s) (int ?i)\<rparr>)"
      using assms add il z(1) new unfolding ic_inv_def by (auto simp: sl nth_upd le_max_iff_disj)
    ultimately have "yields (\<lambda>t. ic_inv fds t \<and> ic_out t = ic_out s \<and> dom (ic_reg t) \<subseteq> insert c (dom (ic_reg s)) \<and> (\<forall>d. d \<noteq> c \<longrightarrow> ic_reg t d = ic_reg s d))
        (\<lambda>e. True) (readable_listen c s)" using i by (simp add: readable_listen_def Let_def) }
  moreover have "ic_inv fds (s\<lparr>ic_closed := l\<rparr>)" for l using assms(1) by (simp add: ic_inv_def)
  ultimately show ?thesis by (cases "?i = FD_SETSIZE") (auto simp: readable_listen_def Let_def)
qed

section \<open>Telling the clients\<close>

definition matches :: "int \<Rightarrow> int \<Rightarrow> icmp_client \<Rightarrow> bool" where
  "matches fam sport c \<longleftrightarrow> ic_connfd c \<ge> 0 \<and> ic_family c = fam \<and> ic_lport c = sport"

lemma notify_ok:
  "yields (\<lambda>t. t = s\<lparr>ic_out := ic_out s @ map (\<lambda>i. (ic_connfd (ic_client s ! i), err)) (filter (\<lambda>i. matches fam sport (ic_client s ! i)) is)\<rparr>)
    (\<lambda>e. True) (notify io fam sport err is s)"
proof (induction "is" arbitrary: s)
  case (Cons i "is")
  let ?s = "s\<lparr>ic_out := ic_out s @ [(ic_connfd (ic_client s ! i), err)]\<rparr>"
  show ?case using Cons.IH [of s] Cons.IH [of ?s] by (auto simp: matches_def Let_def)
qed simp

lemma filter_single:
  assumes "distinct xs" "i \<in> set xs" "\<And>j. j \<in> set xs \<Longrightarrow> P j \<longleftrightarrow> j = i"
  shows "filter P xs = [i]"
proof -
  have "filter P xs = filter (\<lambda>j. j = i) xs" using assms(3) by (intro filter_cong) simp_all
  also have "\<dots> = [i]" using assms(1,2) by (induction xs) (auto simp: filter_empty_conv)
  finally show ?thesis .
qed

lemma matching_slots:
  assumes "ic_inv fds s"
  shows "filter (\<lambda>i. matches fam sport (ic_client s ! i) \<and> ic_connfd (ic_client s ! i) = c) [0..<nat (ic_maxi s + 1)] \<noteq> [] \<longleftrightarrow> ic_reg s c = Some (fam, sport)"
    and "length (filter (\<lambda>i. matches fam sport (ic_client s ! i) \<and> ic_connfd (ic_client s ! i) = c) [0..<nat (ic_maxi s + 1)]) \<le> 1"
proof -
  note z = ic_inv_sizes [OF assms]
  let ?P = "\<lambda>i. matches fam sport (ic_client s ! i) \<and> ic_connfd (ic_client s ! i) = c" and ?ns = "[0..<nat (ic_maxi s + 1)]"
  have m: "i < nat (ic_maxi s + 1)" if "i < FD_SETSIZE" "0 \<le> ic_connfd (ic_client s ! i)" for i
  proof -
    have "int i \<le> ic_maxi s" using assms that by (auto simp: ic_inv_def)
    then show ?thesis by linarith
  qed
  have eq: "i < FD_SETSIZE \<and> ?P i \<longleftrightarrow> i \<in> set ?ns \<and> ?P i" for i
    using m [of i] less_le_trans [OF _ z(2), of i] unfolding matches_def by (cases "0 \<le> ic_connfd (ic_client s ! i)") auto
  have "ic_reg s c = Some (fam, sport) \<longleftrightarrow> (\<exists>i < FD_SETSIZE. ?P i)" unfolding reg_iff [OF z(3)] z(1) by (auto simp: matches_def)
  also have "\<dots> \<longleftrightarrow> (\<exists>i \<in> set ?ns. ?P i)" using eq by blast
  finally show "filter ?P ?ns \<noteq> [] \<longleftrightarrow> ic_reg s c = Some (fam, sport)" by (auto simp: filter_empty_conv)
  show "length (filter ?P ?ns) \<le> 1"
  proof (cases "\<exists>i \<in> set ?ns. ?P i")
    case True
    then obtain i where i: "i \<in> set ?ns" "?P i" by blast
    have "?P j \<longleftrightarrow> j = i" if "j \<in> set ?ns" for j
    proof
      have l: "i < length (ic_client s)" "j < length (ic_client s)" using i(1) that z(1,2) by simp_all
      assume "?P j"
      then show "j = i" using slots_distinctD [OF z(3), of j i] i(2) l by (simp add: matches_def)
    qed (use i in simp)
    then have "filter ?P ?ns = [i]" using i(1) by (intro filter_single) simp_all
    then show ?thesis by simp
  qed (simp add: filter_empty_conv)
qed

definition told :: "int \<Rightarrow> (16 word \<times> icmpd_err) option \<Rightarrow> int \<times> int \<Rightarrow> icmpd_err list" where
  "told fam msg r = (case msg of None \<Rightarrow> [] | Some (sport, err) \<Rightarrow> if r = (fam, uint sport) then [err] else [])"

lemma tell_ok:
  assumes "ic_inv fds s"
  shows "yields (\<lambda>t. ic_inv fds t \<and> ic_client t = ic_client s \<and> (\<forall>c r. ic_reg s c = Some r \<longrightarrow> ic_outs c t = ic_outs c s @ told fam msg r) \<and>
      (\<forall>c. ic_reg s c = None \<longrightarrow> ic_outs c t = ic_outs c s)) (\<lambda>e. True) (tell_clients io fam msg s)"
proof (cases msg)
  case (Some m)
  obtain sport err where m: "m = (sport, err)" by (cases m)
  let ?ns = "[0..<nat (ic_maxi s + 1)]" and ?p = "uint sport"
  let ?t = "s\<lparr>ic_out := ic_out s @ map (\<lambda>i. (ic_connfd (ic_client s ! i), err)) (filter (\<lambda>i. matches fam ?p (ic_client s ! i)) ?ns)\<rparr>"
  have "ic_outs c ?t = ic_outs c s @ (if ic_reg s c = Some (fam, ?p) then [err] else [])" for c
  proof -
    let ?l = "filter (\<lambda>i. matches fam ?p (ic_client s ! i) \<and> ic_connfd (ic_client s ! i) = c) ?ns"
    have "ic_outs c ?t = ic_outs c s @ map (\<lambda>_. err) ?l" by (simp add: ic_outs_def filter_map o_def conj_commute)
    moreover have "map (\<lambda>_. err) ?l = (if ic_reg s c = Some (fam, ?p) then [err] else [])"
      using matching_slots [OF assms, of fam ?p c] by (cases ?l) auto
    ultimately show ?thesis by simp
  qed
  moreover have "ic_inv fds ?t" using assms by (simp add: ic_inv_def)
  ultimately show ?thesis using notify_ok [of s err fam ?p ?ns io] Some m by (auto simp: tell_clients_def told_def elim!: yields_mono)
qed (simp add: tell_clients_def told_def assms)

section \<open>Serving a client\<close>

text \<open>The registration a client asks for, if it stays.\<close>

definition wants :: "icmpd_io \<Rightarrow> int \<Rightarrow> (int \<times> int) option" where
  "wants io c =
     (case id_read io c of
        None \<Rightarrow> None
      | Some (n, recvfd) \<Rightarrow>
          if n = 0 \<or> recvfd < 0 then None
          else case id_name io recvfd of
            None \<Rightarrow> None
          | Some (fam, port) \<Rightarrow> if port \<noteq> 0 then Some (fam, port) else if id_bind io recvfd \<le> 0 then None else Some (fam, id_bind io recvfd))"

text \<open>How the entry \<open>i\<close> changes.\<close>

definition conn_served :: "icmpd_fds \<Rightarrow> nat \<Rightarrow> (int \<times> int) option \<Rightarrow> icmpd \<Rightarrow> icmpd \<Rightarrow> bool" where
  "conn_served fds i w s t \<longleftrightarrow> ic_inv fds t \<and> ic_maxi t = ic_maxi s \<and> ic_out t = ic_out s \<and>
     (\<forall>j. j \<noteq> i \<longrightarrow> ic_client t ! j = ic_client s ! j) \<and> ic_reg t = (ic_reg s)(ic_connfd (ic_client s ! i) := w)"

lemma entry_replaced:
  assumes "ic_inv fds s" "i < FD_SETSIZE" "0 \<le> ic_connfd (ic_client s ! i)" "ic_connfd c = ic_connfd (ic_client s ! i)"
  shows "conn_served fds i (Some (ic_family c, ic_lport c)) s (s\<lparr>ic_client := (ic_client s)[i := c]\<rparr>)"
proof -
  note z = ic_inv_sizes [OF assms(1)]
  have sl: "ic_slots ((ic_client s)[i := c]) = ic_slots (ic_client s)" using assms(2,4) z(1) by (simp add: map_update list_update_same_conv)
  note up = reg_update [of i "ic_client s" c, unfolded sl z(1), OF assms(2) z(3,3)]
  have "ic_inv fds (s\<lparr>ic_client := (ic_client s)[i := c]\<rparr>)" using assms z unfolding ic_inv_def by (auto simp: sl nth_upd)
  then show ?thesis unfolding conn_served_def using assms(3,4) by (auto simp: up fun_eq_iff)
qed

lemma entry_closed:
  assumes "ic_inv fds s" "i < FD_SETSIZE" "0 \<le> ic_connfd (ic_client s ! i)" "ic_connfd c = - 1"
  shows "conn_served fds i None s (s\<lparr>ic_allset := ic_allset s - {ic_connfd (ic_client s ! i)}, ic_client := (ic_client s)[i := c]\<rparr>)"
proof -
  note z = ic_inv_sizes [OF assms(1)]
  have sl: "ic_slots ((ic_client s)[i := c]) = (ic_slots (ic_client s))[i := - 1]" using assms(4) by (simp add: map_update)
  have "i < length (ic_slots (ic_client s))" "0 \<le> ic_slots (ic_client s) ! i" using assms(2,3) z(1) by simp_all
  note del = open_del [OF this z(3)] and op = srv_open_memI [OF this]
  note up = reg_update [of i "ic_client s" c, unfolded sl z(1), OF assms(2) z(3) del(2)]
  have "ic_inv fds (s\<lparr>ic_allset := ic_allset s - {ic_connfd (ic_client s ! i)}, ic_client := (ic_client s)[i := c]\<rparr>)"
    using assms z del op unfolding ic_inv_def by (auto simp: sl nth_upd)
  then show ?thesis unfolding conn_served_def using assms(3,4) by (auto simp: up fun_eq_iff)
qed

lemma ic_unseen [simp]:
  "conn_served fds i w s (t\<lparr>ic_acks := a\<rparr>) = conn_served fds i w s t" "conn_served fds i w s (t\<lparr>ic_closed := l\<rparr>) = conn_served fds i w s t"
  "conn_served fds i w (s\<lparr>ic_acks := a\<rparr>) = conn_served fds i w s"
  "ic_inv fds (s\<lparr>ic_acks := a\<rparr>) = ic_inv fds s"
  by (simp_all add: conn_served_def ic_inv_def fun_eq_iff)

lemma clientdone_ok:
  assumes "ic_inv fds s" "i < FD_SETSIZE" "0 \<le> ic_connfd (ic_client s ! i)"
  shows "yields (conn_served fds i None s) (\<lambda>e. True) (clientdone i recvfd s)"
  using entry_closed [OF assms, of "(ic_client s ! i)\<lparr>ic_connfd := - 1\<rparr>"] by (simp add: clientdone_def Let_def conn_served_def ic_inv_def)

lemma clienterr_ok:
  assumes "ic_inv fds s" "i < FD_SETSIZE" "0 \<le> ic_connfd (ic_client s ! i)"
  shows "yields (conn_served fds i None s) (\<lambda>e. True) (clienterr io i recvfd s)"
  using clientdone_ok [of fds "s\<lparr>ic_acks := ic_acks s @ [(ic_connfd (ic_client s ! i), CHR ''0'')]\<rparr>" i recvfd] assms
  by (simp add: clienterr_def write_ack_def)

lemma conn_served_trans:
  assumes "conn_served fds i w s t" "i < FD_SETSIZE" "ic_connfd (ic_client t ! i) = ic_connfd (ic_client s ! i)" "conn_served fds i w' t u"
  shows "conn_served fds i w' s u"
  using assms unfolding conn_served_def by (auto simp: fun_eq_iff)

lemma readable_conn_ok:
  assumes "ic_inv fds s" "i < FD_SETSIZE" "0 \<le> ic_connfd (ic_client s ! i)"
  shows "yields (conn_served fds i (wants io (ic_connfd (ic_client s ! i))) s) (\<lambda>e. True) (readable_conn io i s)"
proof -
  let ?fd = "ic_connfd (ic_client s ! i)"
  note d = clientdone_ok [OF assms] and e = clienterr_ok [OF assms, of io]
  have new: "yields (conn_served fds i (wants io ?fd) s) (\<lambda>e. True) (readable_conn io i s)"
    if r: "id_read io ?fd = Some (n, r)" "n \<noteq> 0" "\<not> r < 0" "id_name io r = Some (fam, port)" for n r fam port
  proof -
    let ?c = "(ic_client s ! i)\<lparr>ic_family := fam, ic_lport := if port = 0 then id_bind io r else port\<rparr>"
    let ?s = "s\<lparr>ic_client := (ic_client s)[i := ?c]\<rparr>"
    have c: "conn_served fds i (Some (ic_family ?c, ic_lport ?c)) s ?s" by (rule entry_replaced [OF assms]) simp
    have n: "ic_client ?s ! i = ?c" using ic_inv_sizes(1) [OF assms(1)] assms(2) by simp
    have "yields (conn_served fds i None ?s) (\<lambda>e. True) (clienterr io i r ?s)"
      by (rule clienterr_ok) (use c assms n in \<open>simp_all add: conn_served_def\<close>)
    then have err: "yields (conn_served fds i None s) (\<lambda>e. True) (clienterr io i r ?s)"
      by (rule yields_mono) (use conn_served_trans [OF c assms(2)] n in auto)
    show ?thesis
    proof (cases "port = 0 \<and> id_bind io r \<le> 0")
      case True
      then have "readable_conn io i s = clienterr io i r ?s" "wants io ?fd = None" using r n by (simp_all add: readable_conn_def wants_def Let_def)
      then show ?thesis using err by simp
    next
      case False
      then have "wants io ?fd = Some (ic_family ?c, ic_lport ?c)" using r by (auto simp: wants_def)
      moreover have "readable_conn io i s = andthen (write_ack io ?fd CHR ''1'' ?s) (\<lambda>s. Inr (s\<lparr>ic_closed := ic_closed s @ [r]\<rparr>))"
        using r n False by (auto simp: readable_conn_def Let_def)
      ultimately show ?thesis using c by (simp add: write_ack_def)
    qed
  qed
  show ?thesis
  proof (cases "\<exists>n r fam port. id_read io ?fd = Some (n, r) \<and> n \<noteq> 0 \<and> \<not> r < 0 \<and> id_name io r = Some (fam, port)")
    case False
    then have "wants io ?fd = None" by (auto simp: wants_def split: option.split)
    then show ?thesis using False d e by (auto simp: readable_conn_def Let_def split: option.split)
  qed (use new in blast)
qed

section \<open>A round\<close>

interpretation ic: one_by_one "ic_due rset" "readable_conn io" for rset io
proof unfold_locales
  fix i j s s' assume "readable_conn io i s = Inr s'" "j \<noteq> i"
  then have "ic_client s' ! j = ic_client s ! j"
    by (auto simp: readable_conn_def Let_def clientdone_def clienterr_def write_ack_def split: option.splits if_splits)
  then show "ic_due rset j s' = ic_due rset j s" by (simp add: ic_due_def)
qed

lemma ic_scan_all_ok:
  assumes "ic_inv fds s"
  shows "yields (\<lambda>t. ic_inv fds t \<and> ic_out t = ic_out s \<and> ic_reg t = (\<lambda>c. if c \<in> rset \<and> c \<in> dom (ic_reg s) then wants io c else ic_reg s c))
    (\<lambda>e. True) (scan_all (ic_due rset) (readable_conn io) [0..<nat (ic_maxi s + 1)] s)"
proof -
  note z = ic_inv_sizes [OF assms]
  let ?ns = "[0..<nat (ic_maxi s + 1)]" and ?fd = "\<lambda>j. ic_connfd (ic_client s ! j)"
  define Q where "Q ps t \<longleftrightarrow> ic_inv fds t \<and> ic_out t = ic_out s \<and> (\<forall>j. j \<notin> set ps \<longrightarrow> ic_client t ! j = ic_client s ! j) \<and>
    ic_reg t = (\<lambda>c. if \<exists>j \<in> set ps. ic_due rset j s \<and> ?fd j = c then wants io c else ic_reg s c)" for ps t
  have "yields (Q ?ns) (\<lambda>e. True) (scan_all (ic_due rset) (readable_conn io) ?ns s)"
  proof (rule scan_all_prefix)
    fix ps i qs t assume split: "?ns = ps @ i # qs" and Q: "Q ps t"
    have "i \<in> set ?ns" "i \<notin> set ps" using split distinct_upt [of 0 "nat (ic_maxi s + 1)"] by auto
    then have i: "i < FD_SETSIZE" "ic_client t ! i = ic_client s ! i" using z(2) Q by (auto simp: Q_def)
    then have due: "ic_due rset i t \<longleftrightarrow> ic_due rset i s" by (simp add: ic_due_def)
    { assume d: "ic_due rset i t"
      have "yields (conn_served fds i (wants io (?fd i)) t) (\<lambda>e. True) (readable_conn io i t)"
        using readable_conn_ok [of fds t i io] Q i d by (simp add: Q_def ic_due_def)
      moreover have "Q (ps @ [i]) u" if "conn_served fds i (wants io (?fd i)) t u" for u
        using that Q d due i by (auto simp: Q_def conn_served_def fun_eq_iff)
      ultimately show "yields (Q (ps @ [i])) (\<lambda>e. True) (readable_conn io i t)" by (auto elim!: yields_mono) }
    { assume "\<not> ic_due rset i t"
      then show "Q (ps @ [i]) t" using Q due by (auto simp: Q_def fun_eq_iff) }
  qed (simp add: Q_def assms)
  moreover have "(\<exists>j \<in> set ?ns. ic_due rset j s \<and> ?fd j = c) \<longleftrightarrow> c \<in> rset \<and> c \<in> dom (ic_reg s)" for c
  proof
    assume "\<exists>j \<in> set ?ns. ic_due rset j s \<and> ?fd j = c"
    then obtain j where "j \<in> set ?ns" "ic_due rset j s" "?fd j = c" by blast
    moreover from this(1) have "j < FD_SETSIZE" using z(2) by simp
    ultimately show "c \<in> rset \<and> c \<in> dom (ic_reg s)" unfolding dom_reg [OF z(3)] using z(1) by (auto simp: ic_due_def srv_open_nth)
  next
    assume "c \<in> rset \<and> c \<in> dom (ic_reg s)"
    then obtain j where j: "j < FD_SETSIZE" "?fd j = c" "0 \<le> c" "c \<in> rset" unfolding dom_reg [OF z(3)] using z(1) by (auto simp: srv_open_nth)
    then have "int j \<le> ic_maxi s" using assms by (auto simp: ic_inv_def)
    then show "\<exists>j \<in> set ?ns. ic_due rset j s \<and> ?fd j = c" using j by (intro bexI [of _ j]) (auto simp: ic_due_def)
  qed
  ultimately show ?thesis by (auto simp: Q_def elim!: yields_mono)
qed

text \<open>The loop with its break serves everything that is ready.\<close>

lemma ic_scan_eq:
  assumes "ic_inv fds s" "finite rset" "int (card (rset \<inter> dom (ic_reg s))) \<le> n"
  shows "ic_scan io rset n s = scan_all (ic_due rset) (readable_conn io) [0..<nat (ic_maxi s + 1)] s" "n \<le> 0 \<Longrightarrow> ic_scan io rset n s = Inr s"
proof -
  note z = ic_inv_sizes [OF assms(1)]
  let ?ns = "[0..<nat (ic_maxi s + 1)]" and ?sl = "ic_slots (ic_client s)"
  have "length (filter (\<lambda>i. ic_due rset i s) ?ns) \<le> card (rset \<inter> srv_open ?sl)"
  proof (rule due_count [OF z(3)])
    fix i assume "i < nat (ic_maxi s + 1)" "ic_due rset i s"
    then show "0 \<le> ?sl ! i \<and> ?sl ! i \<in> rset \<inter> srv_open ?sl"
      using z(1,2) srv_open_memI [of i ?sl] by (auto simp: ic_due_def)
  qed (use assms(2) z in simp_all)
  then have count: "int (length (filter (\<lambda>i. ic_due rset i s) ?ns)) \<le> n" using assms(3) unfolding dom_reg [OF z(3)] by linarith
  then show "ic_scan io rset n s = scan_all (ic_due rset) (readable_conn io) ?ns s"
    unfolding ic_scan_def by (intro ic.counted_all) auto
  assume "n \<le> 0"
  then have "length (filter (\<lambda>i. ic_due rset i s) ?ns) = 0" using count by linarith
  then show "ic_scan io rset n s = Inr s" unfolding ic_scan_def by (intro counted_none) simp
qed

text \<open>The early returns to \<^verbatim>\<open>select\<close> skip nothing.\<close>

definition complete :: "(icmpd \<Rightarrow> bool) \<Rightarrow> nat \<Rightarrow> (int \<Rightarrow> icmpd \<Rightarrow> icmpd_error + icmpd) \<Rightarrow> (icmpd \<Rightarrow> icmpd_error + icmpd) \<Rightarrow> bool" where
  "complete T k cont full \<longleftrightarrow> (\<forall>t n. T t \<and> int k \<le> n \<longrightarrow> cont n t = full t \<and> (n \<le> 0 \<longrightarrow> full t = Inr t))"

lemma if_set_complete:
  assumes "complete T k cont full" "\<And>s t. S s \<Longrightarrow> op s = Inr t \<Longrightarrow> T t" "\<And>s. S s \<Longrightarrow> T s"
  shows "complete S (of_bool b + k) (if_set b op cont) (\<lambda>s. andthen (if b then op s else Inr s) full)"
  unfolding complete_def
proof (intro allI impI, elim conjE, intro conjI impI)
  fix s n assume "S s" and n: "int (of_bool b + k) \<le> n"
  have "(if n - 1 \<le> 0 then Inr u else cont (n - 1) u) = full u" if "b" "op s = Inr u" for u
  proof -
    have "T u" "int k \<le> n - 1" using assms(2) [OF \<open>S s\<close> that(2)] n that(1) by simp_all
    then show ?thesis using assms(1) [unfolded complete_def, rule_format, of u "n - 1"] by auto
  qed
  then show "if_set b op cont n s = andthen (if b then op s else Inr s) full"
    using assms(1) assms(3) [OF \<open>S s\<close>] n unfolding complete_def by (cases "op s") (auto simp: if_set_def)
  assume "n \<le> 0"
  then show "andthen (if b then op s else Inr s) full = Inr s" using assms(1) assms(3) [OF \<open>S s\<close>] n unfolding complete_def by auto
qed

definition ic_fresh :: "icmpd_io \<Rightarrow> icmpd \<Rightarrow> bool" where
  "ic_fresh io s \<longleftrightarrow> 0 \<le> id_conn io \<and> id_conn io \<notin> ic_allset s"

definition seq_round :: "icmpd_fds \<Rightarrow> icmpd_io \<Rightarrow> icmpd \<Rightarrow> icmpd_error + icmpd" where
  "seq_round fds io s =
     (let rset = ic_rset io s in
      andthen (if listenfd fds \<in> rset then readable_listen (id_conn io) s else Inr s) (\<lambda>s.
      andthen (if fd4 fds \<in> rset then readable_v4 io s else Inr s) (\<lambda>s.
      andthen (if fd6 fds \<in> rset then readable_v6 io s else Inr s) (\<lambda>s.
      scan_all (ic_due rset) (readable_conn io) [0..<nat (ic_maxi s + 1)] s))))"

definition heard :: "int \<Rightarrow> icmpd_error + (16 word \<times> icmpd_err) option \<Rightarrow> int \<times> int \<Rightarrow> icmpd_err list" where
  "heard fam p r = (case p of Inl e \<Rightarrow> [] | Inr msg \<Rightarrow> told fam msg r)"

lemma message_ok:
  assumes "ic_inv fds s"
  shows "yields (\<lambda>t. ic_inv fds t \<and> ic_client t = ic_client s \<and>
      (\<forall>c r. ic_reg s c = Some r \<longrightarrow> ic_outs c t = ic_outs c s @ heard fam p r)) (\<lambda>e. True) (andthen p (\<lambda>msg. tell_clients io fam msg s))"
  by (cases p) (simp, simp, rule yields_mono [OF tell_ok [OF assms]], auto simp: heard_def)

lemma rset_card:
  assumes "ic_inv fds s"
  shows "finite (ic_rset io s)" "card (ic_rset io s) = of_bool (listenfd fds \<in> ic_rset io s) + (of_bool (fd4 fds \<in> ic_rset io s) +
    (of_bool (fd6 fds \<in> ic_rset io s) + card (ic_rset io s \<inter> dom (ic_reg s))))"
proof -
  note z = ic_inv_sizes [OF assms]
  let ?R = "ic_rset io s" and ?O = "srv_open (ic_slots (ic_client s))"
  have "?R \<subseteq> {listenfd fds, fd4 fds, fd6 fds} \<union> ?O" using assms by (auto simp: ic_rset_def ic_inv_def)
  then have e: "?R = (?R \<inter> {listenfd fds}) \<union> ((?R \<inter> {fd4 fds}) \<union> ((?R \<inter> {fd6 fds}) \<union> (?R \<inter> ?O)))" by blast
  show fin: "finite ?R" using finite_srv_open [of "ic_slots (ic_client s)"] \<open>?R \<subseteq> _\<close> by (meson finite.simps finite_UnI finite_subset)
  have d: "fd4 fds \<noteq> fd6 fds" "listenfd fds \<noteq> fd4 fds" "listenfd fds \<noteq> fd6 fds" "listenfd fds \<notin> ?O" "fd4 fds \<notin> ?O" "fd6 fds \<notin> ?O"
    using assms by (auto simp: ic_inv_def)
  have c1: "card (?R \<inter> {x}) = of_bool (x \<in> ?R)" for x by (cases "x \<in> ?R") (simp_all add: Int_insert_right)
  have "card ((?R \<inter> {listenfd fds}) \<union> ((?R \<inter> {fd4 fds}) \<union> ((?R \<inter> {fd6 fds}) \<union> (?R \<inter> ?O)))) =
      card (?R \<inter> {listenfd fds}) + (card (?R \<inter> {fd4 fds}) + (card (?R \<inter> {fd6 fds}) + card (?R \<inter> ?O)))"
    using d fin by (subst card_Un_disjoint; (subst card_Un_disjoint)?; auto)+
  then show "card ?R = of_bool (listenfd fds \<in> ?R) + (of_bool (fd4 fds \<in> ?R) + (of_bool (fd6 fds \<in> ?R) + card (?R \<inter> dom (ic_reg s))))"
    unfolding dom_reg [OF z(3)] c1 e [symmetric] .
qed

lemma round_complete:
  assumes "ic_inv fds s" "ic_fresh io s"
  shows "icmpd_round fds io s = seq_round fds io s"
proof -
  let ?R = "ic_rset io s"
  define T where "T t \<longleftrightarrow> ic_inv fds t \<and> ?R \<inter> dom (ic_reg t) = ?R \<inter> dom (ic_reg s)" for t
  let ?k = "card (?R \<inter> dom (ic_reg s))"
  have new: "id_conn io \<notin> ?R" using assms(2) by (auto simp: ic_fresh_def ic_rset_def)
  have scan: "complete T ?k (ic_scan io ?R) (\<lambda>s. scan_all (ic_due ?R) (readable_conn io) [0..<nat (ic_maxi s + 1)] s)"
    unfolding complete_def T_def using ic_scan_eq [OF _ rset_card(1) [OF assms(1)], of fds _ io] by fastforce
  have msg: "T t" if "T u" "andthen p (\<lambda>msg. tell_clients io fam msg u) = Inr t" for p fam u t
    using that message_ok [of fds u fam p io] unfolding T_def by (auto dest: yieldsD)
  have v6: "complete T (of_bool (fd6 fds \<in> ?R) + ?k) (if_set (fd6 fds \<in> ?R) (readable_v6 io) (ic_scan io ?R))
      (\<lambda>s. andthen (if fd6 fds \<in> ?R then readable_v6 io s else Inr s) (\<lambda>s. scan_all (ic_due ?R) (readable_conn io) [0..<nat (ic_maxi s + 1)] s))"
    by (rule if_set_complete [OF scan]) (metis msg readable_v6_def, assumption)
  have v4: "complete T (of_bool (fd4 fds \<in> ?R) + (of_bool (fd6 fds \<in> ?R) + ?k))
      (if_set (fd4 fds \<in> ?R) (readable_v4 io) (if_set (fd6 fds \<in> ?R) (readable_v6 io) (ic_scan io ?R)))
      (\<lambda>s. andthen (if fd4 fds \<in> ?R then readable_v4 io s else Inr s)
        (\<lambda>s. andthen (if fd6 fds \<in> ?R then readable_v6 io s else Inr s) (\<lambda>s. scan_all (ic_due ?R) (readable_conn io) [0..<nat (ic_maxi s + 1)] s)))"
    by (rule if_set_complete [OF v6]) (metis msg readable_v4_def, assumption)
  have listen: "T t" if "readable_listen (id_conn io) s = Inr t" for t
  proof -
    have l: "ic_inv fds t" "dom (ic_reg t) \<subseteq> insert (id_conn io) (dom (ic_reg s))" "\<forall>d. d \<noteq> id_conn io \<longrightarrow> ic_reg t d = ic_reg s d"
      using yieldsD(1) [OF listen_ok [OF assms(1)] that] assms(2) by (auto simp: ic_fresh_def)
    then have "c \<in> ?R \<Longrightarrow> ic_reg t c = ic_reg s c" for c using new by metis
    then show ?thesis using l(1) unfolding T_def by auto
  qed
  have "complete (\<lambda>t. t = s) (of_bool (listenfd fds \<in> ?R) + (of_bool (fd4 fds \<in> ?R) + (of_bool (fd6 fds \<in> ?R) + ?k)))
      (if_set (listenfd fds \<in> ?R) (readable_listen (id_conn io))
        (if_set (fd4 fds \<in> ?R) (readable_v4 io) (if_set (fd6 fds \<in> ?R) (readable_v6 io) (ic_scan io ?R))))
      (\<lambda>s. andthen (if listenfd fds \<in> ?R then readable_listen (id_conn io) s else Inr s)
        (\<lambda>s. andthen (if fd4 fds \<in> ?R then readable_v4 io s else Inr s)
          (\<lambda>s. andthen (if fd6 fds \<in> ?R then readable_v6 io s else Inr s) (\<lambda>s. scan_all (ic_due ?R) (readable_conn io) [0..<nat (ic_maxi s + 1)] s))))"
    by (rule if_set_complete [OF v4]) (use listen assms(1) in \<open>simp_all add: T_def\<close>)
  from this [unfolded complete_def rset_card(2) [OF assms(1), of io, symmetric], rule_format, of s "int (card ?R)"]
  show ?thesis unfolding icmpd_round_def seq_round_def Let_def by blast
qed

text \<open>The errors that the daemon finds in a round for a registration.\<close>

definition ic_errs :: "icmpd_fds \<Rightarrow> icmpd_io \<Rightarrow> int \<times> int \<Rightarrow> icmpd_err list" where
  "ic_errs fds io r =
     (if id_ready io (fd4 fds) then heard AF_INET (parse_v4 (fst (id_v4 io)) (snd (id_v4 io))) r else []) @
     (if id_ready io (fd6 fds) then heard AF_INET6 (parse_v6 (fst (id_v6 io)) (snd (id_v6 io))) r else [])"

lemma ready_iff: "ic_inv fds s \<Longrightarrow> fd \<in> ic_allset s \<Longrightarrow> fd \<in> ic_rset io s \<longleftrightarrow> id_ready io fd"
  by (auto simp: ic_rset_def ic_inv_def)

lemma icmpd_round_law:
  assumes "ic_inv fds s" "ic_fresh io s" "icmpd_round fds io s = Inr t"
  shows "ic_inv fds t" "ic_reg s c = Some r \<Longrightarrow> ic_reg t c = (if id_ready io c then wants io c else Some r)"
    "ic_reg s c = Some r \<Longrightarrow> ic_outs c t = ic_outs c s @ ic_errs fds io r"
proof -
  let ?R = "ic_rset io s"
  obtain s1 s2 s3 where st: "(if listenfd fds \<in> ?R then readable_listen (id_conn io) s else Inr s) = Inr s1"
    "(if fd4 fds \<in> ?R then readable_v4 io s1 else Inr s1) = Inr s2" "(if fd6 fds \<in> ?R then readable_v6 io s2 else Inr s2) = Inr s3"
    "scan_all (ic_due ?R) (readable_conn io) [0..<nat (ic_maxi s3 + 1)] s3 = Inr t"
    using assms(3) unfolding round_complete [OF assms(1,2)] seq_round_def Let_def by (auto simp: andthen_Inr_iff)
  have a: "ic_inv fds s1 \<and> ic_out s1 = ic_out s \<and> (\<forall>d. d \<noteq> id_conn io \<longrightarrow> ic_reg s1 d = ic_reg s d)"
    using st(1) assms(1,2) yieldsD(1) [OF listen_ok [OF assms(1)], of "id_conn io" s1] by (auto simp: ic_fresh_def split: if_splits)
  have b: "ic_inv fds s2 \<and> ic_client s2 = ic_client s1 \<and> (\<forall>c r. ic_reg s1 c = Some r \<longrightarrow> ic_outs c s2 = ic_outs c s1 @
      (if fd4 fds \<in> ?R then heard AF_INET (parse_v4 (fst (id_v4 io)) (snd (id_v4 io))) r else []))"
    using st(2) a yieldsD(1) [OF message_ok [of fds s1 AF_INET "parse_v4 (fst (id_v4 io)) (snd (id_v4 io))" io], of s2]
    by (cases "fd4 fds \<in> ?R") (simp_all add: readable_v4_def)
  have d: "ic_inv fds s3 \<and> ic_client s3 = ic_client s2 \<and> (\<forall>c r. ic_reg s2 c = Some r \<longrightarrow> ic_outs c s3 = ic_outs c s2 @
      (if fd6 fds \<in> ?R then heard AF_INET6 (parse_v6 (fst (id_v6 io)) (snd (id_v6 io))) r else []))"
    using st(3) b yieldsD(1) [OF message_ok [of fds s2 AF_INET6 "parse_v6 (fst (id_v6 io)) (snd (id_v6 io))" io], of s3]
    by (cases "fd6 fds \<in> ?R") (simp_all add: readable_v6_def)
  have e: "ic_inv fds t" "ic_out t = ic_out s3" "ic_reg t = (\<lambda>c. if c \<in> ?R \<and> c \<in> dom (ic_reg s3) then wants io c else ic_reg s3 c)"
    using yieldsD(1) [OF ic_scan_all_ok st(4)] d by auto
  show "ic_inv fds t" by (rule e(1))
  assume c: "ic_reg s c = Some r"
  then have o: "c \<in> ic_allset s" using dom_reg [OF ic_inv_sizes(3) [OF assms(1)]] assms(1) by (auto simp: ic_inv_def)
  then have "c \<noteq> id_conn io" using assms(2) by (auto simp: ic_fresh_def)
  then have r1: "ic_reg s1 c = Some r" using a c by simp
  then have r3: "ic_reg s2 c = Some r" "ic_reg s3 c = Some r" using b d by simp_all
  show "ic_reg t c = (if id_ready io c then wants io c else Some r)" using e(3) r3 ready_iff [OF assms(1) o] by auto
  have f: "fd4 fds \<in> ?R \<longleftrightarrow> id_ready io (fd4 fds)" "fd6 fds \<in> ?R \<longleftrightarrow> id_ready io (fd6 fds)"
    using ready_iff [OF assms(1)] assms(1) by (auto simp: ic_inv_def)
  have "ic_outs c t = ic_outs c s3" "ic_outs c s1 = ic_outs c s" using e(2) a by (simp_all add: ic_outs_def)
  then show "ic_outs c t = ic_outs c s @ ic_errs fds io r" using b d r1 r3 f by (simp add: ic_errs_def)
qed

section \<open>The registry as an interface\<close>

locale port_registry =
  fixes inv :: "'s \<Rightarrow> bool" and reg :: "'s \<Rightarrow> int \<rightharpoonup> 'p" and outs :: "int \<Rightarrow> 's \<Rightarrow> 'm list"
    and round :: "'io \<Rightarrow> 's \<Rightarrow> 'e + 's" and env :: "'io \<Rightarrow> 's \<Rightarrow> bool"
    and ready :: "'io \<Rightarrow> int \<Rightarrow> bool" and ask :: "'io \<Rightarrow> int \<Rightarrow> 'p option" and errs :: "'io \<Rightarrow> 'p \<Rightarrow> 'm list"
  assumes keeps: "inv s \<Longrightarrow> env io s \<Longrightarrow> round io s = Inr t \<Longrightarrow> inv t"
    and registers: "inv s \<Longrightarrow> env io s \<Longrightarrow> round io s = Inr t \<Longrightarrow> reg s c = Some r \<Longrightarrow> reg t c = (if ready io c then ask io c else Some r)"
    and reports: "inv s \<Longrightarrow> env io s \<Longrightarrow> round io s = Inr t \<Longrightarrow> reg s c = Some r \<Longrightarrow> outs c t = outs c s @ errs io r"
begin

lemma path_inv: "rounds_path round env ios s t \<Longrightarrow> inv s \<Longrightarrow> inv t"
  by (induction ios arbitrary: s) (auto dest: keeps)

lemma quiet_path:
  assumes "inv s" "reg s c = Some r" "rounds_path round env ios s t" "\<forall>io \<in> set ios. \<not> ready io c"
  shows "reg t c = Some r \<and> outs c t = outs c s @ concat (map (\<lambda>io. errs io r) ios)"
  using assms
proof (induction ios arbitrary: s)
  case (Cons io ios)
  then obtain u where u: "env io s" "round io s = Inr u" "rounds_path round env ios u t" by auto
  have "inv u" "reg u c = Some r" "outs c u = outs c s @ errs io r"
    using keeps [OF Cons.prems(1) u(1,2)] registers [OF Cons.prems(1) u(1,2) Cons.prems(2)] reports [OF Cons.prems(1) u(1,2) Cons.prems(2)] Cons.prems(4) by simp_all
  then show ?case using Cons.IH [of u] u(3) Cons.prems(4) by simp
qed simp

end

interpretation icr: port_registry "ic_inv fds" ic_reg ic_outs "icmpd_round fds" ic_fresh id_ready wants "ic_errs fds" for fds
  by unfold_locales (use icmpd_round_law in blast)+

section \<open>The messages on the wire\<close>

text \<open>The ICMP messages, as the protocols have them, and what the daemon is to make of each.  An error message has a header of 8 bytes, the type and the code first, and then the beginning of the datagram
  that caused it: the IP header and at least 8 bytes after it, for UDP the source port, the destination port, the length and the checksum.  An error for a UDP datagram is for the port the datagram came
  from; it is told with the address and the port the datagram was sent to.  Other messages, and errors for datagrams of other protocols, concern no client.  What is in the buffer behind the message does not
  matter.\<close>

definition udp_sent :: "16 word \<Rightarrow> 16 word \<Rightarrow> byte list \<Rightarrow> bool" where
  "udp_sent sport dport m \<longleftrightarrow> (\<exists>rest. m = word_bytes 2 sport @ word_bytes 2 dport @ rest \<and> 4 \<le> length rest)"

definition icmp_error :: "icmpd_errno \<Rightarrow> byte \<Rightarrow> byte \<Rightarrow> int \<Rightarrow> nat \<Rightarrow> byte list \<Rightarrow> 16 word \<Rightarrow> icmpd_err" where
  "icmp_error e typ code fam len addr dport = \<lparr>icmpd_errno = e, icmpd_type = typ, icmpd_code = code, icmpd_len = len, icmpd_dest = (fam, addr, dport)\<rparr>"

inductive received_v4 :: "byte list \<Rightarrow> int \<Rightarrow> (16 word \<times> icmpd_err) list \<Rightarrow> bool" where
  udp_error: "ip4_header 1 h \<Longrightarrow> length fill = 6 \<Longrightarrow> typ \<in> {3, 4, 11} \<Longrightarrow> ip4_header 17 hip \<Longrightarrow> udp_sent sport dport m \<Longrightarrow>
    e = (if (typ, code) = (3, 3) then ECONNREFUSED else if (typ, code) = (3, 4) then EMSGSIZE else EHOSTUNREACH) \<Longrightarrow>
    received_v4 (h @ (typ # code # fill @ hip @ m) @ junk) (int (length (h @ typ # code # fill @ hip @ m)))
      [(sport, icmp_error e typ code AF_INET 16 (take 4 (drop 16 hip)) dport)]"
| other_error: "ip4_header 1 h \<Longrightarrow> length fill = 6 \<Longrightarrow> ip4_header p hip \<Longrightarrow> p \<noteq> 17 \<Longrightarrow>
    received_v4 (h @ (typ # code # fill @ hip @ m) @ junk) (int (length (h @ typ # code # fill @ hip @ m))) []"
| no_error: "ip4_header 1 h \<Longrightarrow> typ \<notin> {3, 4, 11} \<Longrightarrow> received_v4 (h @ (typ # m) @ junk) (int (length (h @ typ # m))) []"

inductive received_v6 :: "byte list \<Rightarrow> int \<Rightarrow> (16 word \<times> icmpd_err) list \<Rightarrow> bool" where
  udp_error: "length fill = 6 \<Longrightarrow> typ \<in> {1, 2, 3} \<Longrightarrow> ip6_header 17 hip6 \<Longrightarrow> udp_sent sport dport m \<Longrightarrow>
    e = (if (typ, code) = (1, 4) then ECONNREFUSED else if typ = 2 then EMSGSIZE else EHOSTUNREACH) \<Longrightarrow>
    received_v6 ((typ # code # fill @ hip6 @ m) @ junk) (int (length (typ # code # fill @ hip6 @ m)))
      [(sport, icmp_error e typ code AF_INET6 28 (take 16 (drop 24 hip6)) dport)]"
| other_error: "length fill = 6 \<Longrightarrow> ip6_header p hip6 \<Longrightarrow> p \<noteq> 17 \<Longrightarrow>
    received_v6 ((typ # code # fill @ hip6 @ m) @ junk) (int (length (typ # code # fill @ hip6 @ m))) []"
| no_error: "typ \<notin> {1, 2, 3} \<Longrightarrow> received_v6 ((typ # m) @ junk) (int (length (typ # m))) []"

text \<open>The errors that arrive in a round, each with the family and the port it is for.\<close>

definition round_errors :: "icmpd_fds \<Rightarrow> icmpd_io \<Rightarrow> ((int \<times> int) \<times> icmpd_err) list \<Rightarrow> bool" where
  "round_errors fds io ms \<longleftrightarrow> (\<exists>a b. ms = map (\<lambda>(sport, e). ((AF_INET, uint sport), e)) a @ map (\<lambda>(sport, e). ((AF_INET6, uint sport), e)) b \<and>
     (if id_ready io (fd4 fds) then received_v4 (fst (id_v4 io)) (snd (id_v4 io)) a else a = []) \<and>
     (if id_ready io (fd6 fds) then received_v6 (fst (id_v6 io)) (snd (id_v6 io)) b else b = []))"

lemma port_bytes_2: "word_bytes 2 w = [ucast w, ucast (drop_bit 8 w)]"
  by (simp add: numeral_2_eq_2)

lemma udp_sentD:
  assumes "udp_sent sport dport m"
  shows "half_at (m @ junk) 0 = sport" "half_at (m @ junk) 2 = dport" "8 \<le> length m"
  using assms by (auto simp: udp_sent_def half_at_def bytes_word_all)

text \<open>What the daemon reads of a packet whose parts are known.\<close>

lemma parse_v4_packet:
  assumes "ip4_header 1 h" "buf = h @ (typ # rest) @ junk" "n = int (length (h @ typ # rest))" "typ \<notin> {3, 4, 11}"
  shows "parse_v4 buf n \<in> {Inl Icmplen_error, Inr None}"
proof -
  have h: "4 * unat (buf ! 0 AND 0xf) = length h" using ip4_headerD(1) [OF assms(1), of "(typ # rest) @ junk"] assms(2) by simp
  have d: "drop (length h) buf ! 0 = typ" using assms(2) by simp
  show ?thesis unfolding parse_v4_def Let_def h d using assms(4) by simp
qed

lemma parse_v4_error:
  assumes "ip4_header 1 h" "buf = h @ (typ # code # fill @ hip @ m) @ junk" "n = int (length (h @ typ # code # fill @ hip @ m))" "length fill = 6" "ip4_header p hip"
  shows "p \<noteq> 17 \<Longrightarrow> parse_v4 buf n \<in> {Inl Icmplen_error, Inr None}"
    "p = 17 \<Longrightarrow> typ \<in> {3, 4, 11} \<Longrightarrow> udp_sent sport dport m \<Longrightarrow>
       parse_v4 buf n = Inr (Some (sport, icmp_error (errno_v4 typ code) typ code AF_INET 16 (take 4 (drop 16 hip)) dport))"
proof -
  have h: "4 * unat (buf ! 0 AND 0xf) = length h" using ip4_headerD(1) [OF assms(1), of "(typ # code # fill @ hip @ m) @ junk"] assms(2) by simp
  have d: "drop (length h) buf ! 0 = typ" "drop (length h) buf ! 1 = code" "drop (length h + 8) buf = hip @ m @ junk" using assms(2,4) by simp_all
  have "drop (length h + 8 + length hip) buf = drop (length hip) (drop (length h + 8) buf)" by (simp add: add.commute)
  then have d: "drop (length h) buf ! 0 = typ" "drop (length h) buf ! 1 = code" "drop (length h + 8) buf = hip @ m @ junk" "drop (length h + 8 + length hip) buf = m @ junk"
    using d by simp_all
  note i = ip4_headerD [OF assms(5), of "m @ junk"]
  have l: "20 \<le> length hip" using assms(5) by (simp add: ip4_header_def)
  then have t: "take 4 (drop 16 (hip @ m @ junk)) = take 4 (drop 16 hip)" by simp
  show "parse_v4 buf n \<in> {Inl Icmplen_error, Inr None}" if "p \<noteq> 17"
    unfolding parse_v4_def Let_def h d i using that by simp
  assume u: "p = 17" "typ \<in> {3, 4, 11}" "udp_sent sport dport m"
  have "\<not> n - int (length h) < 8" "\<not> n - int (length h) < 8 + 20 + 8" using assms(3,4) l udp_sentD(3) [OF u(3)] by simp_all
  then show "parse_v4 buf n = Inr (Some (sport, icmp_error (errno_v4 typ code) typ code AF_INET 16 (take 4 (drop 16 hip)) dport))"
    unfolding parse_v4_def Let_def h d i t udp_sentD(1,2) [OF u(3)] icmp_error_def using u(1,2) by auto
qed

lemma parse_v6_error:
  assumes "buf = (typ # code # fill @ hip6 @ m) @ junk" "n = int (length (typ # code # fill @ hip6 @ m))" "length fill = 6" "ip6_header p hip6"
  shows "p \<noteq> 17 \<Longrightarrow> parse_v6 buf n \<in> {Inl Icmplen_error, Inr None}"
    "p = 17 \<Longrightarrow> typ \<in> {1, 2, 3} \<Longrightarrow> udp_sent sport dport m \<Longrightarrow>
       parse_v6 buf n = Inr (Some (sport, icmp_error (errno_v6 typ code) typ code AF_INET6 28 (take 16 (drop 24 hip6)) dport))"
proof -
  have l: "length hip6 = 40" "hip6 ! 6 = p" using assms(4) by (simp_all add: ip6_header_def)
  have d: "buf ! 0 = typ" "buf ! 1 = code" "drop 8 buf = hip6 @ m @ junk" "drop (8 + 40) buf = m @ junk" "(hip6 @ m @ junk) ! 6 = p"
    "take 16 (drop 24 (hip6 @ m @ junk)) = take 16 (drop 24 hip6)"
    using assms(1,3) l by (simp_all add: nth_append)
  show "parse_v6 buf n \<in> {Inl Icmplen_error, Inr None}" if "p \<noteq> 17"
    unfolding parse_v6_def Let_def d using that by simp
  assume u: "p = 17" "typ \<in> {1, 2, 3}" "udp_sent sport dport m"
  have "\<not> n < 8" "\<not> n < 8 + 8" using assms(2,3) l by simp_all
  then show "parse_v6 buf n = Inr (Some (sport, icmp_error (errno_v6 typ code) typ code AF_INET6 28 (take 16 (drop 24 hip6)) dport))"
    unfolding parse_v6_def Let_def d udp_sentD(1,2) [OF u(3)] icmp_error_def using u(1,2) by auto
qed

abbreviation for_port :: "int \<Rightarrow> (16 word \<times> icmpd_err) list \<Rightarrow> ((int \<times> int) \<times> icmpd_err) list" where
  "for_port fam a \<equiv> map (\<lambda>(sport, e). ((fam, uint sport), e)) a"

lemma heard_none: "p \<in> {Inl Icmplen_error, Inr None} \<Longrightarrow> heard fam p r = []"
  by (auto simp: heard_def told_def)

lemma heard_v4:
  assumes "received_v4 buf n a"
  shows "heard AF_INET (parse_v4 buf n) r = map snd (filter (\<lambda>m. fst m = r) (for_port AF_INET a))"
  using assms
proof cases
  case (udp_error h fill ty hip sport dport m e code junk)
  have "e = errno_v4 ty code" using udp_error(9) by (auto simp: errno_v4_def)
  then show ?thesis
    using parse_v4_error(2) [OF udp_error(4,1,2,5,7) refl udp_error(6,8)] udp_error(3) by (auto simp: heard_def told_def)
next
  case (other_error h fill p hip ty code m junk)
  show ?thesis using heard_none [OF parse_v4_error(1) [OF other_error(4,1,2,5,6,7)]] other_error(3) by simp
next
  case (no_error h ty m junk)
  show ?thesis using heard_none [OF parse_v4_packet [OF no_error(4,1,2,5)]] no_error(3) by simp
qed

lemma heard_v6:
  assumes "received_v6 buf n a"
  shows "heard AF_INET6 (parse_v6 buf n) r = map snd (filter (\<lambda>m. fst m = r) (for_port AF_INET6 a))"
  using assms
proof cases
  case (udp_error fill ty hip6 sport dport m e code junk)
  have "e = errno_v6 ty code" using udp_error(8) by (auto simp: errno_v6_def)
  then show ?thesis
    using parse_v6_error(2) [OF udp_error(1,2,4,6) refl udp_error(5,7)] udp_error(3) by (auto simp: heard_def told_def)
next
  case (other_error fill p hip6 ty code m junk)
  show ?thesis using heard_none [OF parse_v6_error(1) [OF other_error(1,2,4,5,6)]] other_error(3) by simp
next
  case (no_error ty m junk)
  have "parse_v6 buf n \<in> {Inl Icmplen_error, Inr None}" unfolding no_error(1) parse_v6_def Let_def using no_error(4) by simp
  then show ?thesis using heard_none no_error(3) by simp
qed

lemma errs_received:
  assumes "round_errors fds io ms"
  shows "ic_errs fds io r = map snd (filter (\<lambda>m. fst m = r) ms)"
  using assms heard_v4 [of "fst (id_v4 io)" "snd (id_v4 io)" _ r] heard_v6 [of "fst (id_v6 io)" "snd (id_v6 io)" _ r]
  unfolding round_errors_def ic_errs_def by (auto split: if_splits)

section \<open>The property\<close>

text \<open>C25: A client that has passed its socket is told about every ICMP error for a UDP datagram from the port of that socket, in order and once, and about nothing
  else, for as long as it does not send anything more to the daemon: whatever the other clients do, who comes and who goes, and
  however many descriptors are ready in a round.  Which errors arrive, for which port, is read off the packets as the protocols lay them out: \<open>mss\<close> has for each round the errors that the packets received in it
  report, with the family and the source port of the datagram that caused them, the type, the code, the error number that goes with them and the destination of the datagram.\<close>

theorem icmpd_tells_registered:
  assumes "distinct [fd4 fds, fd6 fds, listenfd fds]" "rounds_path (icmpd_round fds) ic_fresh ios1 (icmpd_start fds) s"
    and "c \<in> dom (ic_reg s)" "id_ready io c" "wants io c = Some r" "ic_fresh io s" "icmpd_round fds io s = Inr u"
    and "rounds_path (icmpd_round fds) ic_fresh ios2 u t" "\<forall>io \<in> set ios2. \<not> id_ready io c" "list_all2 (round_errors fds) ios2 mss"
  shows "ic_reg t c = Some r \<and> ic_outs c t = ic_outs c u @ map snd (filter (\<lambda>m. fst m = r) (concat mss))"
proof -
  have s: "ic_inv fds s" by (rule icr.path_inv [OF assms(2) icmpd_start_inv [OF assms(1)]])
  have "ic_inv fds u" "ic_reg u c = Some r" using icmpd_round_law(1,2) [OF s assms(6,7)] assms(3-5) by auto
  then have "ic_reg t c = Some r \<and> ic_outs c t = ic_outs c u @ concat (map (\<lambda>io. ic_errs fds io r) ios2)" by (rule icr.quiet_path [OF _ _ assms(8,9)])
  moreover have "concat (map (\<lambda>io. ic_errs fds io r) ios2) = map snd (filter (\<lambda>m. fst m = r) (concat mss))"
    using assms(10) by (induction rule: list_all2_induct) (simp_all add: errs_received)
  ultimately show ?thesis by simp
qed

definition example_fds :: icmpd_fds where
  "example_fds = \<lparr>fd4 = 3, fd6 = 4, listenfd = 5\<rparr>"

definition example_hdr :: "byte \<Rightarrow> byte list \<Rightarrow> byte list" where
  "example_hdr p dst = [0x45, 0, 0, 0, 0, 0, 0, 0, 0, p, 0, 0, 0, 0, 0, 0] @ dst"

definition example_io :: "int \<Rightarrow> int \<Rightarrow> icmpd_io" where
  "example_io fd conn = \<lparr>id_ready = (\<lambda>x. x = fd), id_conn = conn, id_read = (\<lambda>_. Some (1, 7)), id_name = (\<lambda>_. Some (2, 53)), id_bind = (\<lambda>_. 0),
     id_v4 = (example_hdr 1 [0, 0, 0, 0] @ (3 # 3 # [0, 0, 0, 0, 0, 0] @ example_hdr 17 [127, 0, 0, 1] @ [53, 0, 7, 0, 0, 0, 0, 0]) @ [], 56),
     id_v6 = ([], 0), id_write = (\<lambda>_. True)\<rparr>"

definition example_state :: "int \<Rightarrow> int \<Rightarrow> int \<Rightarrow> icmpd" where
  "example_state fd fam port = \<lparr>ic_client = \<lparr>ic_connfd = fd, ic_family = fam, ic_lport = port\<rparr> # replicate 1023 \<lparr>ic_connfd = - 1, ic_family = 0, ic_lport = 0\<rparr>,
     ic_maxi = 0, ic_maxfd = 6, ic_allset = {3, 4, 5, 6}, ic_out = [], ic_acks = [], ic_closed = []\<rparr>"

lemmas example_defs = example_fds_def example_io_def example_state_def

lemma example_connects:
  "ic_inv example_fds (icmpd_start example_fds)" "ic_fresh (example_io 5 6) (icmpd_start example_fds)"
  "icmpd_round example_fds (example_io 5 6) (icmpd_start example_fds) = Inr (example_state 6 0 0)"
proof -
  show i: "ic_inv example_fds (icmpd_start example_fds)" by (rule icmpd_start_inv) (simp add: example_fds_def)
  show f: "ic_fresh (example_io 5 6) (icmpd_start example_fds)" by (simp add: ic_fresh_def icmpd_start_def example_defs)
  have r: "replicate 1024 x = x # replicate 1023 x" for x :: icmp_client using replicate_Suc [of 1023 x] by simp
  show "icmpd_round example_fds (example_io 5 6) (icmpd_start example_fds) = Inr (example_state 6 0 0)"
    unfolding round_complete [OF i f] seq_round_def Let_def
    by (simp add: icmpd_start_def example_defs ic_rset_def readable_listen_def r first_free_def ic_due_def insert_commute)
qed

lemma example_registers:
  "ic_inv example_fds (example_state 6 0 0)" "ic_fresh (example_io 6 8) (example_state 6 0 0)"
  "\<exists>u. icmpd_round example_fds (example_io 6 8) (example_state 6 0 0) = Inr u \<and> ic_client u = ic_client (example_state 6 2 53) \<and> ic_allset u = {3, 4, 5, 6} \<and>
     ic_maxi u = 0 \<and> ic_maxfd u = 6 \<and> ic_out u = []"
proof -
  show i: "ic_inv example_fds (example_state 6 0 0)" by (rule icmpd_round_law(1) [OF example_connects])
  show f: "ic_fresh (example_io 6 8) (example_state 6 0 0)" by (simp add: ic_fresh_def example_defs)
  show "\<exists>u. icmpd_round example_fds (example_io 6 8) (example_state 6 0 0) = Inr u \<and> ic_client u = ic_client (example_state 6 2 53) \<and> ic_allset u = {3, 4, 5, 6} \<and>
     ic_maxi u = 0 \<and> ic_maxfd u = 6 \<and> ic_out u = []"
    unfolding round_complete [OF i f] seq_round_def Let_def
    by (simp add: example_defs ic_rset_def readable_conn_def ic_due_def write_ack_def)
qed

definition example_err :: icmpd_err where
  "example_err = \<lparr>icmpd_errno = ECONNREFUSED, icmpd_type = 3, icmpd_code = 3, icmpd_len = 16, icmpd_dest = (2, [127, 0, 0, 1], 7)\<rparr>"

lemma example_message:
  "parse_v4 (fst (id_v4 (example_io fd c))) (snd (id_v4 (example_io fd c))) = Inr (Some (53, example_err))"
  "round_errors example_fds (example_io 3 c) [((2, 53), example_err)]"
proof -
  let ?io = "example_io fd c" and ?udp = "[53, 0, 7, 0, 0, 0, 0, 0] :: byte list"
  have h: "ip4_header 1 (example_hdr 1 [0, 0, 0, 0])" "ip4_header 17 (example_hdr 17 [127, 0, 0, 1])" by (simp_all add: ip4_header_def example_hdr_def)
  have u: "udp_sent 53 7 ?udp" unfolding udp_sent_def by (rule exI [of _ "[0, 0, 0, 0]"]) (simp add: port_bytes_2)
  have i: "fst (id_v4 (example_io fd c)) = example_hdr 1 [0, 0, 0, 0] @ (3 # 3 # [0, 0, 0, 0, 0, 0] @ example_hdr 17 [127, 0, 0, 1] @ ?udp) @ []"
    "snd (id_v4 (example_io fd c)) = int (length (example_hdr 1 [0, 0, 0, 0] @ 3 # 3 # [0, 0, 0, 0, 0, 0] @ example_hdr 17 [127, 0, 0, 1] @ ?udp))" for fd
    by (simp_all add: example_io_def example_hdr_def)
  have e: "icmp_error (errno_v4 3 3) 3 3 AF_INET 16 (take 4 (drop 16 (example_hdr 17 [127, 0, 0, 1]))) 7 = example_err"
    by (simp add: icmp_error_def errno_v4_def example_hdr_def example_err_def)
  show "parse_v4 (fst (id_v4 ?io)) (snd (id_v4 ?io)) = Inr (Some (53, example_err))"
    using parse_v4_error(2) [OF h(1) i _ h(2) refl _ u] unfolding e by simp
  have "received_v4 (fst (id_v4 (example_io 3 c))) (snd (id_v4 (example_io 3 c))) [(53, example_err)]"
    unfolding e [symmetric] i by (rule received_v4.udp_error [OF h(1) _ _ h(2) u]) (simp_all add: errno_v4_def)
  then show "round_errors example_fds (example_io 3 c) [((2, 53), example_err)]"
    unfolding round_errors_def by (intro exI [of _ "[(53, example_err)]"] exI [of _ "[]"]) (simp add: example_io_def example_fds_def)
qed

theorem icmpd_tells_registered_witness:
  "\<exists>t. rounds_path (icmpd_round example_fds) ic_fresh [example_io 5 6, example_io 6 8, example_io 3 8] (icmpd_start example_fds) t \<and>
     ic_reg t 6 = Some (2, 53) \<and> ic_outs 6 t = [example_err]"
proof -
  obtain u where u: "icmpd_round example_fds (example_io 6 8) (example_state 6 0 0) = Inr u" "ic_client u = ic_client (example_state 6 2 53)"
    "ic_allset u = {3, 4, 5, 6}" "ic_maxi u = 0" "ic_maxfd u = 6" "ic_out u = []" using example_registers(3) by blast
  have i: "ic_inv example_fds u" by (rule icmpd_round_law(1) [OF example_registers(1,2) u(1)])
  have f: "ic_fresh (example_io 3 8) u" using u(3) by (simp add: ic_fresh_def example_io_def)
  have "\<exists>t. icmpd_round example_fds (example_io 3 8) u = Inr t"
    unfolding round_complete [OF i f] seq_round_def Let_def readable_v4_def example_message(1)
    using u by (simp add: example_defs ic_rset_def tell_clients_def ic_due_def)
  then obtain t where t: "icmpd_round example_fds (example_io 3 8) u = Inr t" by blast
  have d: "distinct [fd4 example_fds, fd6 example_fds, listenfd example_fds]" by (simp add: example_fds_def)
  have p1: "rounds_path (icmpd_round example_fds) ic_fresh [example_io 5 6] (icmpd_start example_fds) (example_state 6 0 0)" using example_connects by simp
  have p2: "rounds_path (icmpd_round example_fds) ic_fresh [example_io 3 8] u t" using f t by simp
  have c: "6 \<in> dom (ic_reg (example_state 6 0 0))" "id_ready (example_io 6 8) 6" "wants (example_io 6 8) 6 = Some (2, 53)"
    "\<forall>io \<in> set [example_io 3 8]. \<not> id_ready io 6" by (simp_all add: example_defs reg_of_def wants_def dom_def)
  have m: "list_all2 (round_errors example_fds) [example_io 3 8] [[((2, 53), example_err)]]" using example_message(2) by simp
  have "ic_reg t 6 = Some (2, 53) \<and> ic_outs 6 t = [example_err]"
    using icmpd_tells_registered [OF d p1 c(1-3) example_registers(2) u(1) p2 c(4) m] u(6) by (simp add: ic_outs_def)
  then show ?thesis using example_connects example_registers(2) u(1) f t by auto
qed

section \<open>What goes wrong\<close>

text \<open>The registration of a client that has gone stays in the array: the next client that gets its entry is told about errors for a port it never
  asked for.\<close>

lemma stale_registration:
  assumes "length (ic_client s) = FD_SETSIZE" "slots_distinct (ic_slots (ic_client s))" "first_free (ic_slots (ic_client s)) = i" "i < FD_SETSIZE"
    and "0 \<le> c" "c < int FD_SETSIZE" "c \<notin> srv_open (ic_slots (ic_client s))"
  shows "\<exists>t. readable_listen c s = Inr t \<and> ic_reg t c = Some (ic_family (ic_client s ! i), ic_lport (ic_client s ! i))"
proof -
  let ?cl = "ic_client s" and ?c = "(ic_client s ! i)\<lparr>ic_connfd := c\<rparr>"
  have il: "i < length (ic_slots ?cl)" using assms(1,4) by simp
  have neg: "ic_slots ?cl ! i < 0" using first_free_neg [of "ic_slots ?cl"] assms(3) il by simp
  have sl: "ic_slots (?cl[i := ?c]) = (ic_slots ?cl)[i := c]" by (simp add: map_update)
  note add = open_add(2) [OF il neg assms(5,7,2)]
  have "reg_of (?cl[i := ?c]) c = Some (ic_family (?cl ! i), ic_lport (?cl ! i))"
    using reg_update [of i ?cl ?c c] add assms(1,2,4,5) sl by simp
  then show ?thesis using assms(3,4,6) by (simp add: readable_listen_def Let_def)
qed

text \<open>A truncated ICMP message ends the daemon.\<close>

lemma short_message_quits: "n < 4 * int (unat (buf ! 0 AND 0xf)) + 8 \<Longrightarrow> parse_v4 buf n = Inl Icmplen_error"
  by (simp add: parse_v4_def Let_def)

end
