(* ===== verification/Sock_Copy.thy ===== *)
theory Sock_Copy
  imports Full_Transfer
begin

text \<open>
  The data paths of the program \<^verbatim>\<open>unpv13e/sock\<close>: the conversion of line ends (\<^verbatim>\<open>crlf.c\<close>), writing in chunks (\<^verbatim>\<open>write.c\<close>), the loop that copies the
  standard input to a TCP socket and the socket to the standard output (\<^verbatim>\<open>looptcp.c\<close>), and the source and sink of test data (\<^verbatim>\<open>pattern.c\<close>,
  \<^verbatim>\<open>sourcetcp.c\<close>, \<^verbatim>\<open>sinktcp.c\<close>).  Reading and writing are \<open>tread\<close> and \<open>os_put\<close>; \<^verbatim>\<open>writen\<close> is the one of the program, \<open>sock_writen\<close>.  Pauses and
  the messages of the verbose mode are left out.
\<close>

section \<open>Line ends\<close>

abbreviation (input) LF :: char where "LF \<equiv> CHR 0x0A"
abbreviation (input) CR :: char where "CR \<equiv> CHR 0x0D"

datatype sock_error = Crlf_add_small | Crlf_strip_small | Iov_full | Stdin_error | Recv_error | Sock_write_error | Writen_failed | Oob_error

text \<open>\<open>lenout\<close> is the length of the output so far, with what is left of the input.\<close>

fun crlf_add_loop :: "nat \<Rightarrow> nat \<Rightarrow> cbuf \<Rightarrow> sock_error + cbuf" where
  "crlf_add_loop dstsize lenout [] = Inr []"
| "crlf_add_loop dstsize lenout (c # src) =
     (if c = LF then
        if lenout + 1 \<ge> dstsize then Inl Crlf_add_small
        else map_sum id (\<lambda>d. CR # c # d) (crlf_add_loop dstsize (lenout + 1) src)
      else map_sum id (Cons c) (crlf_add_loop dstsize lenout src))"

definition crlf_add :: "nat \<Rightarrow> cbuf \<Rightarrow> sock_error + cbuf" where
  "crlf_add dstsize src = (if length src > dstsize then Inl Crlf_add_small else crlf_add_loop dstsize (length src) src)"

fun crlf_strip_loop :: "nat \<Rightarrow> nat \<Rightarrow> cbuf \<Rightarrow> sock_error + cbuf" where
  "crlf_strip_loop dstsize lenout [] = Inr []"
| "crlf_strip_loop dstsize lenout (c # src) =
     (if c \<noteq> CR then
        if lenout + 1 \<ge> dstsize then Inl Crlf_strip_small
        else map_sum id (Cons c) (crlf_strip_loop dstsize (lenout + 1) src)
      else crlf_strip_loop dstsize lenout src)"

definition crlf_strip :: "nat \<Rightarrow> cbuf \<Rightarrow> sock_error + cbuf" where
  "crlf_strip dstsize src = crlf_strip_loop dstsize 0 src"

section \<open>Writing in chunks\<close>

text \<open>The options, and \<^verbatim>\<open>UIO_MAXIOV\<close>, which the system defines (16 where it does not).\<close>

record sock_opt =
  so_crlf :: bool
  so_halfclose :: bool
  so_msgpeek :: bool
  so_chunkwrite :: bool
  so_usewritev :: bool
  so_readlen :: nat
  so_writelen :: nat
  so_maxiov :: nat

definition chunk_size :: "nat \<Rightarrow> nat \<Rightarrow> nat" where
  "chunk_size maxiov nbytes =
     (let chunksize = nbytes div maxiov in
      if chunksize = 0 then 1 else if nbytes mod maxiov \<noteq> 0 then chunksize + 1 else chunksize)"

text \<open>The first argument is the number of entries that are left; \<open>None\<close> when they are used up.\<close>

primrec fill_iov :: "nat \<Rightarrow> nat \<Rightarrow> cbuf \<Rightarrow> cbuf list option" where
  "fill_iov 0 chunksize ptr = None"
| "fill_iov (Suc k) chunksize ptr =
     (let n = (if length ptr \<ge> chunksize then chunksize else length ptr) in
      if length ptr - n = 0 then Some [take n ptr]
      else map_option (Cons (take n ptr)) (fill_iov k chunksize (drop n ptr)))"

definition sink_write :: "sink \<Rightarrow> cbuf \<Rightarrow> int \<times> sink" where
  "sink_write s bs = (case os_put s bs of (Inl e, s) \<Rightarrow> (- 1, s) | (Inr n, s) \<Rightarrow> (int n, s))"

fun write_chunks :: "cbuf list \<Rightarrow> int \<Rightarrow> sink \<Rightarrow> int \<times> sink" where
  "write_chunks [] ntotal s = (ntotal, s)"
| "write_chunks (c # cs) ntotal s =
     (case sink_write s c of (nwritten, s) \<Rightarrow>
        if nwritten \<noteq> int (length c) then (- 1, s) else write_chunks cs (ntotal + nwritten) s)"

definition dowrite :: "sock_opt \<Rightarrow> sink \<Rightarrow> cbuf \<Rightarrow> sock_error + int \<times> sink" where
  "dowrite opt s bs =
     (if \<not> so_chunkwrite opt \<and> \<not> so_usewritev opt then Inr (sink_write s bs)
      else case fill_iov (so_maxiov opt) (chunk_size (so_maxiov opt) (length bs)) bs of
        None \<Rightarrow> Inl Iov_full
      | Some iov \<Rightarrow> if so_usewritev opt then Inr (sink_write s (concat iov)) else Inr (write_chunks iov 0 s))"

section \<open>The loop\<close>

record sock_st =
  st_stdin :: conn
  st_sock :: conn
  st_net :: sink
  st_out :: sink
  st_eof :: bool
  st_shut :: bool

datatype flow = Next | Continue | Break

definition tcp_stdin :: "sock_opt \<Rightarrow> sock_st \<Rightarrow> sock_error + flow \<times> sock_st" where
  "tcp_stdin opt s =
     (case tread (st_stdin s) (so_readlen opt) of
        (Rd_err e, c) \<Rightarrow> Inl Stdin_error
      | (Rd bs, c) \<Rightarrow>
          let s = s\<lparr>st_stdin := c\<rparr> in
          if bs = [] then
            if so_halfclose opt then Inr (Continue, s\<lparr>st_shut := True, st_eof := True\<rparr>) else Inr (Break, s)
          else
            andthen (if so_crlf opt then crlf_add (so_writelen opt) bs else Inr bs) (\<lambda>w.
            andthen (dowrite opt (st_net s) w) (\<lambda>(n, k).
              if n \<noteq> int (length w) then Inl Sock_write_error else Inr (Next, s\<lparr>st_net := k\<rparr>))))"

text \<open>With \<open>peek\<close> the bytes stay where they are.\<close>

definition tcp_recv :: "sock_opt \<Rightarrow> bool \<Rightarrow> sock_st \<Rightarrow> sock_error + flow \<times> sock_st" where
  "tcp_recv opt peek s =
     (case tread (st_sock s) (so_readlen opt) of
        (Rd_err e, c) \<Rightarrow> Inl Recv_error
      | (Rd bs, c) \<Rightarrow>
          let s = (if peek then s else s\<lparr>st_sock := c\<rparr>) in
          if bs = [] then Inr (Break, s)
          else
            andthen (if so_crlf opt then crlf_strip (so_writelen opt) bs else Inr bs) (\<lambda>w.
              case sock_writen (st_out s) w of
                Inl f \<Rightarrow> Inl Writen_failed
              | Inr (n, k) \<Rightarrow> if n \<noteq> int (length w) then Inl Writen_failed else Inr (Next, s\<lparr>st_out := k\<rparr>)))"

definition tcp_sock :: "sock_opt \<Rightarrow> sock_st \<Rightarrow> sock_error + flow \<times> sock_st" where
  "tcp_sock opt s =
     andthen (tcp_recv opt (so_msgpeek opt) s) (\<lambda>(f, s).
       if f = Break \<or> \<not> so_msgpeek opt then Inr (f, s) else tcp_recv opt False s)"

text \<open>\<open>(r0, r1)\<close>: what \<^verbatim>\<open>select\<close> reports for the standard input and the socket.\<close>

definition tcp_round :: "sock_opt \<Rightarrow> bool \<times> bool \<Rightarrow> sock_st \<Rightarrow> sock_error + flow \<times> sock_st" where
  "tcp_round opt r s =
     andthen (if fst r \<and> \<not> st_eof s then tcp_stdin opt s else Inr (Next, s)) (\<lambda>(f, s).
       if f = Next \<and> snd r then tcp_sock opt s else Inr (f, s))"

text \<open>Whether the loop has ended with \<^verbatim>\<open>close\<close>, and the state.\<close>

fun loop_tcp :: "sock_opt \<Rightarrow> (bool \<times> bool) list \<Rightarrow> sock_st \<Rightarrow> sock_error + bool \<times> sock_st" where
  "loop_tcp opt [] s = Inr (False, s)"
| "loop_tcp opt (r # rs) s = andthen (tcp_round opt r s) (\<lambda>(f, s). if f = Break then Inr (True, s) else loop_tcp opt rs s)"

section \<open>Source and sink\<close>

definition isprint7 :: "nat \<Rightarrow> bool" where
  "isprint7 c \<longleftrightarrow> 32 \<le> c mod 128 \<and> c mod 128 < 127"

function skip_nonprint :: "nat \<Rightarrow> nat" where
  "skip_nonprint c = (if isprint7 c then c else skip_nonprint ((c + 1) mod 256))"
  by auto
termination
proof (relation "measure (\<lambda>c. if c mod 128 < 32 then 32 - c mod 128 else if c mod 128 = 127 then 33 else 0)")
  fix c assume np: "\<not> isprint7 c"
  have "Suc c mod 256 mod 128 = Suc c mod 128" by (rule mod_mod_cancel) simp
  then have m: "Suc c mod 256 mod 128 = (if c mod 128 = 127 then 0 else Suc (c mod 128))" by (simp add: mod_Suc)
  consider "c mod 128 < 31" | "c mod 128 = 31" | "c mod 128 = 127" using np by (auto simp: isprint7_def) linarith
  then show "((c + 1) mod 256, c) \<in> measure (\<lambda>c. if c mod 128 < 32 then 32 - c mod 128 else if c mod 128 = 127 then 33 else 0)"
    by cases (simp_all add: m)
qed simp

primrec pattern_loop :: "nat \<Rightarrow> nat \<Rightarrow> cbuf" where
  "pattern_loop 0 c = []"
| "pattern_loop (Suc len) c = (let c = skip_nonprint c in char_of (c mod 128) # pattern_loop len ((c + 1) mod 256))"

definition pattern :: "nat \<Rightarrow> cbuf" where
  "pattern len = pattern_loop len 0"

text \<open>\<open>urgent\<close> are the bytes sent out of band; with \<^verbatim>\<open>ignorewerr\<close> a failed write is only reported.\<close>

fun source_loop :: "int \<Rightarrow> bool \<Rightarrow> bool \<Rightarrow> cbuf \<Rightarrow> int list \<Rightarrow> sink \<times> int list \<Rightarrow> sock_error + sink \<times> int list" where
  "source_loop urgwrite oob_ok ignorewerr wbuf [] s = Inr s"
| "source_loop urgwrite oob_ok ignorewerr wbuf (i # is) s =
     (if urgwrite = i \<and> \<not> oob_ok then Inl Oob_error
      else case sink_write (fst s) wbuf of (n, k) \<Rightarrow>
        if n \<noteq> int (length wbuf) \<and> \<not> ignorewerr then Inl Sock_write_error
        else source_loop urgwrite oob_ok ignorewerr wbuf is (k, if urgwrite = i then snd s @ [i mod 256] else snd s))"

definition source_tcp :: "int \<Rightarrow> bool \<Rightarrow> bool \<Rightarrow> nat \<Rightarrow> int \<Rightarrow> sink \<Rightarrow> sock_error + sink \<times> int list" where
  "source_tcp urgwrite oob_ok ignorewerr writelen nbuf s =
     source_loop urgwrite oob_ok ignorewerr (pattern writelen) [1..nbuf] (s, [])"

lemma tread_shorter: "tread c n = (Rd bs, c') \<Longrightarrow> bs \<noteq> [] \<Longrightarrow> length (stream_bytes (c_in c')) < length (stream_bytes (c_in c))"
  by (auto simp: tread.simps split: list.splits event.splits if_splits)

text \<open>The numbers of bytes received, those of the calls that peek included.\<close>

function sink_loop :: "nat \<Rightarrow> bool \<Rightarrow> conn \<Rightarrow> nat list \<Rightarrow> sock_error + nat list" where
  "sink_loop readlen msgpeek c got =
     (case tread c readlen of
        (Rd_err e, c') \<Rightarrow> Inl Recv_error
      | (Rd bs, c') \<Rightarrow>
          if bs = [] then Inr got
          else sink_loop readlen msgpeek c' (got @ (if msgpeek then [length bs] else []) @ [length bs]))"
  by auto
termination by (relation "measure (\<lambda>(_, _, c, _). length (stream_bytes (c_in c)))") (auto dest: tread_shorter [OF sym])

declare sink_loop.simps [simp del] skip_nonprint.simps [simp del]

definition sink_tcp :: "nat \<Rightarrow> bool \<Rightarrow> conn \<Rightarrow> sock_error + nat list" where
  "sink_tcp readlen msgpeek c = sink_loop readlen msgpeek c []"

section \<open>The conversions\<close>

definition expand :: "cbuf \<Rightarrow> cbuf" where
  "expand bs = concat (map (\<lambda>c. if c = LF then [CR, LF] else [c]) bs)"

definition strip_cr :: "cbuf \<Rightarrow> cbuf" where
  "strip_cr = filter (\<lambda>c. c \<noteq> CR)"

lemma expand_simps [simp]: "expand [] = []" "expand (c # bs) = (if c = LF then CR # LF # expand bs else c # expand bs)" "expand (as @ bs) = expand as @ expand bs"
  by (simp_all add: expand_def)

lemma length_expand: "length (expand bs) \<le> 2 * length bs" "length bs \<le> length (expand bs)"
  by (induction bs) auto

lemma crlf_add_loop_ok: "lenout + (length (expand src) - length src) < d \<Longrightarrow> crlf_add_loop d lenout src = Inr (expand src)"
proof (induction d lenout src rule: crlf_add_loop.induct)
  case (2 d l c src)
  then show ?case using length_expand(2) [of src] by (cases "c = LF") auto
qed simp

lemma crlf_add_ok:
  assumes "length (expand src) < d"
  shows "crlf_add d src = Inr (expand src)"
proof -
  have "length src + (length (expand src) - length src) < d" using assms length_expand(2) [of src] by linarith
  then show ?thesis using crlf_add_loop_ok [of "length src" src d] by (simp add: crlf_add_def)
qed

lemma crlf_strip_loop_ok: "lenout + length (strip_cr src) < d \<Longrightarrow> crlf_strip_loop d lenout src = Inr (strip_cr src)"
proof (induction d lenout src rule: crlf_strip_loop.induct)
  case (2 d l c src)
  then show ?case by (cases "c = CR") (simp_all add: strip_cr_def)
qed (simp add: strip_cr_def)

lemma crlf_strip_ok: "length src < d \<Longrightarrow> crlf_strip d src = Inr (strip_cr src)"
  unfolding crlf_strip_def by (rule crlf_strip_loop_ok) (simp add: strip_cr_def le_less_trans [OF length_filter_le])

lemma strip_expand: "CR \<notin> set bs \<Longrightarrow> strip_cr (expand bs) = bs"
  by (induction bs) (auto simp: strip_cr_def)

text \<open>A buffer that is filled to the end is refused: with the sizes that are the default, every full block of a socket without line ends.\<close>

lemma crlf_strip_full: "length src = d \<Longrightarrow> CR \<notin> set src \<Longrightarrow> src \<noteq> [] \<Longrightarrow> crlf_strip d src = Inl Crlf_strip_small"
proof -
  have "CR \<notin> set src \<Longrightarrow> src \<noteq> [] \<Longrightarrow> lenout + length src \<ge> d \<Longrightarrow> crlf_strip_loop d lenout src = Inl Crlf_strip_small" for lenout
  proof (induction src arbitrary: lenout)
    case (Cons a src)
    then show ?case by (cases "src = []") auto
  qed simp
  then show "length src = d \<Longrightarrow> CR \<notin> set src \<Longrightarrow> src \<noteq> [] \<Longrightarrow> crlf_strip d src = Inl Crlf_strip_small" by (simp add: crlf_strip_def)
qed

section \<open>Chunks\<close>

lemma chunk_size_covers: "0 < m \<Longrightarrow> nbytes \<le> m * chunk_size m nbytes" "0 < chunk_size m nbytes"
proof -
  assume m: "0 < m"
  have "nbytes \<le> m + m * (nbytes div m)" using mult_div_mod_eq [of m nbytes] mod_less_divisor [OF m, of nbytes] by linarith
  then show "nbytes \<le> m * chunk_size m nbytes" unfolding chunk_size_def Let_def using m mult_div_mod_eq [of m nbytes]
    by (auto simp: div_eq_0_iff)
qed (simp add: chunk_size_def Let_def)

lemma fill_iov_concat:
  assumes "0 < cs"
  shows "0 < k \<Longrightarrow> length ptr \<le> k * cs \<Longrightarrow> \<exists>iov. fill_iov k cs ptr = Some iov \<and> concat iov = ptr"
proof (induction k arbitrary: ptr)
  case (Suc k)
  show ?case
  proof (cases "length ptr \<le> cs")
    case True
    then show ?thesis using assms by (cases "length ptr = cs") (auto simp: Let_def)
  next
    case False
    have l: "length (drop cs ptr) \<le> k * cs" using Suc.prems(2) by (simp add: le_diff_conv)
    have "0 < k" using False Suc.prems(2) by (cases k) auto
    obtain iov where "fill_iov k cs (drop cs ptr) = Some iov" "concat iov = drop cs ptr" using Suc.IH [of "drop cs ptr", OF \<open>0 < k\<close>] l by blast
    then show ?thesis using False by (simp add: Let_def)
  qed
qed simp

text \<open>The entries are always enough, and the chunks are the data.\<close>

lemma dowrite_chunks: "0 < m \<Longrightarrow> \<exists>iov. fill_iov m (chunk_size m (length bs)) bs = Some iov \<and> concat iov = bs"
  by (rule fill_iov_concat [OF chunk_size_covers(2)]) (use chunk_size_covers(1) [of m "length bs"] in simp_all)

lemma sink_write_all: "sink_write s bs = (int (length bs), s') \<Longrightarrow> w_out s' = w_out s @ bs"
  by (auto simp: sink_write_def os_put_def min_def split: list.splits wres.splits if_splits)

lemma sink_write_script: "sink_write s bs = (n, s') \<Longrightarrow> w_script s = [] \<Longrightarrow> n = int (length bs) \<and> w_script s' = []"
  by (auto simp: sink_write_def os_put_def)

lemma write_chunks_le: "write_chunks cs n s = (k, s') \<Longrightarrow> k = n + int (length (concat cs)) \<and> w_out s' = w_out s @ concat cs \<or> k = - 1"
proof (induction cs arbitrary: n s)
  case (Cons c cs)
  obtain nw s1 where w: "sink_write s c = (nw, s1)" by fastforce
  show ?case
  proof (cases "nw = int (length c)")
    case True
    then show ?thesis using Cons w sink_write_all [of s c s1] by fastforce
  qed (use Cons w in simp)
qed simp

lemma write_chunks_script: "write_chunks cs n s = (k, s') \<Longrightarrow> w_script s = [] \<Longrightarrow> k = n + int (length (concat cs)) \<and> w_script s' = []"
proof (induction cs arbitrary: n s)
  case (Cons c cs)
  obtain nw s1 where w: "sink_write s c = (nw, s1)" by fastforce
  show ?case using Cons w sink_write_script [OF w Cons.prems(2)] by fastforce
qed simp

text \<open>When \<^verbatim>\<open>dowrite\<close> returns the number of bytes it was given, all of them were written; this fails only when the socket does not take a block as a whole.\<close>

lemma dowrite_result:
  assumes "0 < so_maxiov opt"
  obtains n s' where "dowrite opt s bs = Inr (n, s')" "n = int (length bs) \<Longrightarrow> w_out s' = w_out s @ bs" "w_script s = [] \<Longrightarrow> n = int (length bs) \<and> w_script s' = []"
proof -
  obtain iov where i: "fill_iov (so_maxiov opt) (chunk_size (so_maxiov opt) (length bs)) bs = Some iov" "concat iov = bs" using dowrite_chunks [OF assms] by blast
  obtain n1 s1 where w1: "sink_write s bs = (n1, s1)" by fastforce
  obtain n2 s2 where w2: "write_chunks iov 0 s = (n2, s2)" by fastforce
  show thesis
  proof (cases "\<not> so_chunkwrite opt \<or> so_usewritev opt")
    case True
    then have "dowrite opt s bs = Inr (n1, s1)" using i w1 by (auto simp: dowrite_def)
    then show ?thesis using that sink_write_all [of s bs s1] sink_write_script [OF w1] w1 by blast
  next
    case False
    then have "dowrite opt s bs = Inr (n2, s2)" using i w2 by (simp add: dowrite_def)
    then show ?thesis using that write_chunks_le [OF w2] write_chunks_script [OF w2] i(2) by auto
  qed
qed

section \<open>The loop copies\<close>

abbreviation typed :: "sock_st \<Rightarrow> cbuf" where "typed s \<equiv> stream_bytes (c_in (st_stdin s))"
abbreviation arrived :: "sock_st \<Rightarrow> cbuf" where "arrived s \<equiv> stream_bytes (c_in (st_sock s))"

definition out_conv :: "sock_opt \<Rightarrow> cbuf \<Rightarrow> cbuf" where
  "out_conv opt bs = (if so_crlf opt then expand bs else bs)"

definition in_conv :: "sock_opt \<Rightarrow> cbuf \<Rightarrow> cbuf" where
  "in_conv opt bs = (if so_crlf opt then strip_cr bs else bs)"

lemma conv_append [simp]: "out_conv opt [] = []" "out_conv opt (as @ bs) = out_conv opt as @ out_conv opt bs" "in_conv opt [] = []" "in_conv opt (as @ bs) = in_conv opt as @ in_conv opt bs"
  by (simp_all add: out_conv_def in_conv_def strip_cr_def)

text \<open>The converted text, or an error when the buffer is too small for it.\<close>

lemma crlf_add_result: "crlf_add d src = Inr w \<Longrightarrow> w = expand src" "crlf_add d src = Inl e \<Longrightarrow> e = Crlf_add_small \<and> d \<le> length (expand src)"
proof -
  have loop: "(crlf_add_loop d n src = Inr w \<longrightarrow> w = expand src) \<and> (crlf_add_loop d n src = Inl e \<longrightarrow> e = Crlf_add_small \<and> d \<le> n + (length (expand src) - length src))" for n w
  proof (induction d n src arbitrary: w rule: crlf_add_loop.induct)
    case (2 d n c src)
    show ?case
    proof (cases "c = LF")
      case True
      then show ?thesis using 2(1) length_expand(2) [of src] by (cases "crlf_add_loop d (n + 1) src") auto
    next
      case False
      then show ?thesis using 2(2) length_expand(2) [of src] by (cases "crlf_add_loop d n src") auto
    qed
  qed simp
  show "crlf_add d src = Inr w \<Longrightarrow> w = expand src" "crlf_add d src = Inl e \<Longrightarrow> e = Crlf_add_small \<and> d \<le> length (expand src)"
    using loop [of "length src" w] length_expand(2) [of src] by (auto simp: crlf_add_def split: if_splits)
qed

lemma crlf_strip_result: "crlf_strip d src = Inr w \<Longrightarrow> w = strip_cr src" "crlf_strip d src = Inl e \<Longrightarrow> e = Crlf_strip_small \<and> d \<le> length (strip_cr src)"
proof -
  have loop: "(crlf_strip_loop d n src = Inr w \<longrightarrow> w = strip_cr src) \<and> (crlf_strip_loop d n src = Inl e \<longrightarrow> e = Crlf_strip_small \<and> d \<le> n + length (strip_cr src))" for n w
  proof (induction d n src arbitrary: w rule: crlf_strip_loop.induct)
    case (2 d n c src)
    show ?case
    proof (cases "c = CR")
      case True
      then show ?thesis using 2(2) by (simp add: strip_cr_def)
    next
      case False
      then show ?thesis using 2(1) by (cases "crlf_strip_loop d (n + 1) src") (auto simp: strip_cr_def)
    qed
  qed (simp add: strip_cr_def)
  show "crlf_strip d src = Inr w \<Longrightarrow> w = strip_cr src" "crlf_strip d src = Inl e \<Longrightarrow> e = Crlf_strip_small \<and> d \<le> length (strip_cr src)"
    using loop [of 0 w] by (auto simp: crlf_strip_def)
qed

text \<open>Streams without empty blocks, and a standard output that takes bytes, perhaps few at a time.\<close>

definition wf_st :: "sock_st \<Rightarrow> bool" where
  "wf_st s \<longleftrightarrow> Bytes [] \<notin> set (c_in (st_stdin s)) \<and> Bytes [] \<notin> set (c_in (st_sock s)) \<and> list_all is_room (w_script (st_out s))"

lemma tread_cases:
  assumes "Bytes [] \<notin> set (c_in c)" "0 < n"
  obtains (End) "tread c n = (Rd [], c)" "c_in c = []"
    | (Err) e c' where "tread c n = (Rd_err e, c')" "\<not> list_all is_bytes (c_in c)"
    | (Data) bs c' where "tread c n = (Rd bs, c')" "bs \<noteq> []" "length bs \<le> n" "Bytes [] \<notin> set (c_in c')" "stream_bytes (c_in c) = bs @ stream_bytes (c_in c')"
        "list_all is_bytes (c_in c) \<Longrightarrow> list_all is_bytes (c_in c')"
proof (cases "c_in c")
  case (Cons e es)
  show thesis
  proof (cases e)
    case (Bytes bs)
    show thesis by (rule Data [of "take n bs" "c\<lparr>c_in := (if length bs \<le> n then es else Bytes (drop n bs) # es)\<rparr>"])
      (use assms Cons Bytes in \<open>auto simp: tread.simps is_bytes_def\<close>)
  qed (use Err Cons in \<open>auto simp: tread.simps is_bytes_def\<close>)
qed (use End in \<open>simp add: tread.simps\<close>)

text \<open>What has been copied between two states, and what goes wrong later has its cause already.\<close>

definition copied :: "sock_opt \<Rightarrow> cbuf \<Rightarrow> cbuf \<Rightarrow> sock_st \<Rightarrow> sock_st \<Rightarrow> bool" where
  "copied opt xs ys s t \<longleftrightarrow> typed s = xs @ typed t \<and> w_out (st_net t) = w_out (st_net s) @ out_conv opt xs \<and>
     arrived s = ys @ arrived t \<and> w_out (st_out t) = w_out (st_out s) @ in_conv opt ys"

definition later :: "sock_st \<Rightarrow> sock_st \<Rightarrow> bool" where
  "later s t \<longleftrightarrow> (list_all is_bytes (c_in (st_stdin s)) \<longrightarrow> list_all is_bytes (c_in (st_stdin t))) \<and>
     (list_all is_bytes (c_in (st_sock s)) \<longrightarrow> list_all is_bytes (c_in (st_sock t))) \<and> (w_script (st_net s) = [] \<longrightarrow> w_script (st_net t) = [])"

definition sock_fails :: "sock_opt \<Rightarrow> sock_st \<Rightarrow> sock_error \<Rightarrow> bool" where
  "sock_fails opt s e \<longleftrightarrow>
     e = Stdin_error \<and> \<not> list_all is_bytes (c_in (st_stdin s)) \<or> e = Recv_error \<and> \<not> list_all is_bytes (c_in (st_sock s)) \<or>
     e = Sock_write_error \<and> w_script (st_net s) \<noteq> [] \<or>
     e = Crlf_add_small \<and> so_crlf opt \<and> so_writelen opt \<le> 2 * so_readlen opt \<or> e = Crlf_strip_small \<and> so_crlf opt \<and> so_writelen opt \<le> so_readlen opt"

lemma later_trans: "later s t \<Longrightarrow> later t u \<Longrightarrow> later s u" "later s t \<Longrightarrow> sock_fails opt t e \<Longrightarrow> sock_fails opt s e" "later s s"
  by (auto simp: later_def sock_fails_def)

lemma copied_trans: "copied opt xs ys s t \<Longrightarrow> copied opt xs' ys' t u \<Longrightarrow> copied opt (xs @ xs') (ys @ ys') s u"
  by (simp add: copied_def)

lemma stdin_ok:
  assumes "wf_st s" "0 < so_readlen opt" "0 < so_maxiov opt"
  shows "case tcp_stdin opt s of Inl e \<Rightarrow> sock_fails opt s e
    | Inr (f, t) \<Rightarrow> wf_st t \<and> later s t \<and> (case f of
        Next \<Rightarrow> \<exists>xs. xs \<noteq> [] \<and> copied opt xs [] s t \<and> st_eof t = st_eof s
      | Continue \<Rightarrow> so_halfclose opt \<and> copied opt [] [] s t \<and> st_eof t \<and> typed t = []
      | Break \<Rightarrow> \<not> so_halfclose opt \<and> copied opt [] [] s t \<and> typed t = [])"
proof -
  have b: "Bytes [] \<notin> set (c_in (st_stdin s))" using assms(1) by (simp add: wf_st_def)
  show ?thesis using b assms(2)
  proof (cases rule: tread_cases)
    case End
    then show ?thesis using assms(1) by (simp add: tcp_stdin_def Let_def copied_def later_def wf_st_def)
  next
    case (Err e c')
    then show ?thesis by (simp add: tcp_stdin_def sock_fails_def)
  next
    case (Data bs c')
    show ?thesis
    proof (cases "if so_crlf opt then crlf_add (so_writelen opt) bs else Inr bs")
      case (Inl e)
      then have e: "so_crlf opt" "crlf_add (so_writelen opt) bs = Inl e" by (auto split: if_splits)
      then have "sock_fails opt s e" using crlf_add_result(2) [OF e(2)] length_expand(1) [of bs] Data(3) by (auto simp: sock_fails_def)
      then show ?thesis using Data(1,2) Inl by (simp add: tcp_stdin_def Let_def)
    next
      case (Inr w)
      then have w: "w = out_conv opt bs" using crlf_add_result(1) by (auto simp: out_conv_def split: if_splits)
      obtain n k where k: "dowrite opt (st_net s) w = Inr (n, k)" "n = int (length w) \<Longrightarrow> w_out k = w_out (st_net s) @ w"
        "w_script (st_net s) = [] \<Longrightarrow> n = int (length w) \<and> w_script k = []" using dowrite_result [OF assms(3)] by blast
      have r: "tcp_stdin opt s = (if n \<noteq> int (length w) then Inl Sock_write_error else Inr (Next, s\<lparr>st_stdin := c', st_net := k\<rparr>))"
        using Data(1,2) Inr k(1) by (simp add: tcp_stdin_def Let_def)
      show ?thesis
      proof (cases "n = int (length w)")
        case True
        then show ?thesis unfolding r using Data k(2,3) assms(1) w by (auto simp: wf_st_def later_def copied_def)
      next
        case False
        then show ?thesis unfolding r using k(3) by (auto simp: sock_fails_def)
      qed
    qed
  qed
qed

lemma sock_ok:
  assumes "wf_st s" "0 < so_readlen opt" "\<not> so_msgpeek opt"
  shows "case tcp_sock opt s of Inl e \<Rightarrow> sock_fails opt s e
    | Inr (f, t) \<Rightarrow> wf_st t \<and> later s t \<and> st_eof t = st_eof s \<and> (case f of
        Next \<Rightarrow> \<exists>ys. ys \<noteq> [] \<and> copied opt [] ys s t
      | Continue \<Rightarrow> False
      | Break \<Rightarrow> copied opt [] [] s t \<and> arrived t = [])"
proof -
  have b: "Bytes [] \<notin> set (c_in (st_sock s))" "list_all is_room (w_script (st_out s))" using assms(1) by (simp_all add: wf_st_def)
  have pk: "tcp_sock opt s = tcp_recv opt False s"
    using assms(3) by (cases "tcp_recv opt False s") (auto simp: tcp_sock_def)
  show ?thesis using b(1) assms(2)
  proof (cases rule: tread_cases)
    case End
    then show ?thesis unfolding pk using assms(1) by (simp add: tcp_recv_def Let_def copied_def later_def)
  next
    case (Err e c')
    then show ?thesis unfolding pk by (simp add: tcp_recv_def sock_fails_def)
  next
    case (Data bs c')
    show ?thesis
    proof (cases "if so_crlf opt then crlf_strip (so_writelen opt) bs else Inr bs")
      case (Inl e)
      then have e: "so_crlf opt" "crlf_strip (so_writelen opt) bs = Inl e" by (auto split: if_splits)
      have "length (strip_cr bs) \<le> length bs" by (simp add: strip_cr_def)
      then have "sock_fails opt s e" using crlf_strip_result(2) [OF e(2)] e(1) Data(3) by (auto simp: sock_fails_def)
      then show ?thesis unfolding pk using Data(1,2) Inl by (simp add: tcp_recv_def Let_def)
    next
      case (Inr w)
      then have w: "w = in_conv opt bs" using crlf_strip_result(1) by (auto simp: in_conv_def split: if_splits)
      obtain k where k: "sock_writen (st_out s) w = Inr (int (length w), k)" "list_all is_room (w_script k)" "w_out k = w_out (st_out s) @ w"
        using swr.writes [OF b(2)] by blast
      have r: "tcp_recv opt False s = Inr (Next, s\<lparr>st_sock := c', st_out := k\<rparr>)"
        using Data(1,2) Inr k(1) by (simp add: tcp_recv_def Let_def)
      show ?thesis unfolding pk r using Data k(2,3) assms(1) w by (auto simp: wf_st_def later_def copied_def)
    qed
  qed
qed

text \<open>A round, and the loop.  A round in which a descriptor is ready moves bytes from it or ends the loop; only with \<^verbatim>\<open>halfclose\<close>, the round that meets the end of the standard
  input leaves the socket for the next.\<close>

lemma sock_round_ok:
  assumes "wf_st s" "0 < so_readlen opt" "0 < so_maxiov opt" "\<not> so_msgpeek opt"
  shows "case tcp_round opt r s of Inl e \<Rightarrow> sock_fails opt s e
    | Inr (f, t) \<Rightarrow> wf_st t \<and> later s t \<and> (\<exists>xs ys. copied opt xs ys s t \<and>
        (if f = Break then \<not> so_halfclose opt \<and> typed t = [] \<or> arrived t = []
         else (if st_eof t = st_eof s then (fst r \<and> \<not> st_eof s \<longrightarrow> xs \<noteq> []) \<and> (snd r \<longrightarrow> ys \<noteq> []) else so_halfclose opt \<and> st_eof t \<and> typed t = [])))"
proof (cases "fst r \<and> \<not> st_eof s")
  case False
  then have e: "tcp_round opt r s = (if snd r then tcp_sock opt s else Inr (Next, s))" by (auto simp: tcp_round_def)
  have c: "copied opt [] [] s s" by (simp add: copied_def)
  show ?thesis
  proof (cases "snd r")
    case n: False
    show ?thesis unfolding e using n False c assms(1) later_trans(3) [of s] by (auto intro!: exI [of _ "[]"])
  next
    case n: True
    show ?thesis
    proof (cases "tcp_sock opt s")
      case (Inl e')
      then show ?thesis unfolding e using n sock_ok [OF assms(1,2,4)] by simp
    next
      case (Inr q)
      obtain g u where q: "q = (g, u)" by (cases q)
      note j = sock_ok [OF assms(1,2,4), unfolded Inr q sum.case prod.case]
      then obtain ys where y: "copied opt [] ys s u" "g = Next \<Longrightarrow> ys \<noteq> []" "g = Break \<Longrightarrow> arrived u = []" "g \<noteq> Continue" by (cases g) auto
      have "wf_st u" "later s u" "st_eof u = st_eof s" using j by auto
      then show ?thesis unfolding e Inr q using n y False by (cases g) auto
    qed
  qed
next
  case True
  note i = stdin_ok [OF assms(1-3)]
  show ?thesis
  proof (cases "tcp_stdin opt s")
    case (Inl e)
    then show ?thesis using True i by (simp add: tcp_round_def)
  next
    case (Inr p)
    obtain f t where p: "p = (f, t)" by (cases p)
    note i = i [unfolded Inr p sum.case prod.case]
    show ?thesis
    proof (cases "f = Next \<and> snd r")
      case False
      then have "tcp_round opt r s = Inr (f, t)" using True Inr p by (auto simp: tcp_round_def)
      then show ?thesis using i False True by (cases f) auto
    next
      case n: True
      then have e: "tcp_round opt r s = tcp_sock opt t" using True Inr p by (simp add: tcp_round_def)
      obtain xs where x: "wf_st t" "later s t" "xs \<noteq> []" "copied opt xs [] s t" "st_eof t = st_eof s" using i n by auto
      show ?thesis
      proof (cases "tcp_sock opt t")
        case (Inl e')
        then show ?thesis unfolding e using sock_ok [OF x(1) assms(2,4)] later_trans(2) [OF x(2)] by simp
      next
        case (Inr q)
        obtain g u where q: "q = (g, u)" by (cases q)
        note j = sock_ok [OF x(1) assms(2,4), unfolded Inr q sum.case prod.case]
        then obtain ys where y: "copied opt [] ys t u" "g = Next \<Longrightarrow> ys \<noteq> []" "g = Break \<Longrightarrow> arrived u = []" "g \<noteq> Continue" by (cases g) auto
        have c: "copied opt xs ys s u" using copied_trans [OF x(4) y(1)] by simp
        have "wf_st u" "later s u" "st_eof u = st_eof s" using j later_trans(1) [OF x(2)] x(5) by auto
        then show ?thesis unfolding e Inr q sum.case prod.case using c y(2-4) x(3) by (cases g) auto
      qed
    qed
  qed
qed

lemma sock_loop_ok:
  assumes "0 < so_readlen opt" "0 < so_maxiov opt" "\<not> so_msgpeek opt"
  shows "wf_st s \<Longrightarrow> (st_eof s \<Longrightarrow> so_halfclose opt \<and> typed s = []) \<Longrightarrow> case loop_tcp opt rs s of Inl e \<Rightarrow> sock_fails opt s e
    | Inr (ended, t) \<Rightarrow> \<exists>xs ys. copied opt xs ys s t \<and>
        (if ended then \<not> so_halfclose opt \<and> typed t = [] \<or> arrived t = []
         else (if st_eof t then so_halfclose opt \<and> typed t = [] else length (filter fst rs) \<le> length xs) \<and>
           length (filter snd rs) \<le> length ys + (if st_eof t \<and> \<not> st_eof s then 1 else 0) \<and> (st_eof s \<longrightarrow> st_eof t))"
proof (induction rs arbitrary: s)
  case Nil
  then show ?case by (auto simp: copied_def)
next
  case (Cons r rs)
  note i = sock_round_ok [OF Cons.prems(1) assms, of r]
  show ?case
  proof (cases "tcp_round opt r s")
    case (Inl e)
    then show ?thesis using i by simp
  next
    case (Inr p)
    obtain f t where p: "p = (f, t)" by (cases p)
    obtain xs ys where x: "wf_st t" "later s t" "copied opt xs ys s t"
      and y: "if f = Break then \<not> so_halfclose opt \<and> typed t = [] \<or> arrived t = []
         else (if st_eof t = st_eof s then (fst r \<and> \<not> st_eof s \<longrightarrow> xs \<noteq> []) \<and> (snd r \<longrightarrow> ys \<noteq> []) else so_halfclose opt \<and> st_eof t \<and> typed t = [])"
      using i unfolding Inr p by auto
    show ?thesis
    proof (cases "f = Break")
      case True
      then show ?thesis using Inr p x(3) y by auto
    next
      case False
      then have e: "loop_tcp opt (r # rs) s = loop_tcp opt rs t" using Inr p by simp
      have et: "so_halfclose opt \<and> typed t = []" if "st_eof t"
        using that y False Cons.prems(2) x(3) by (auto simp: copied_def split: if_splits)
      show ?thesis
      proof (cases "loop_tcp opt rs t")
        case (Inl e')
        then show ?thesis unfolding e using Cons.IH [OF x(1) et] later_trans(2) [OF x(2)] by simp
      next
        case (Inr q)
        obtain ended u where q: "q = (ended, u)" by (cases q)
        obtain xs' ys' where z: "copied opt xs' ys' t u" and
          z': "if ended then \<not> so_halfclose opt \<and> typed u = [] \<or> arrived u = []
           else (if st_eof u then so_halfclose opt \<and> typed u = [] else length (filter fst rs) \<le> length xs') \<and>
             length (filter snd rs) \<le> length ys' + (if st_eof u \<and> \<not> st_eof t then 1 else 0) \<and> (st_eof t \<longrightarrow> st_eof u)"
          using Cons.IH [OF x(1) et] unfolding Inr q by auto
        note c = copied_trans [OF x(3) z]
        show ?thesis
        proof (cases ended)
          case True
          then show ?thesis unfolding e Inr q using c z' by auto
        next
          case n: False
          have n1: "v \<noteq> [] \<Longrightarrow> 1 \<le> length v" for v :: cbuf by (simp add: Suc_le_eq)
          have z1: "st_eof u \<Longrightarrow> so_halfclose opt \<and> typed u = []" "\<not> st_eof u \<Longrightarrow> length (filter fst rs) \<le> length xs'"
            "length (filter snd rs) \<le> length ys' + (if st_eof u \<and> \<not> st_eof t then 1 else 0)" "st_eof t \<Longrightarrow> st_eof u"
            using z' n by (auto split: if_splits)
          have y1: "st_eof s \<Longrightarrow> st_eof t" "st_eof t = st_eof s \<Longrightarrow> fst r \<Longrightarrow> \<not> st_eof s \<Longrightarrow> xs \<noteq> []" "st_eof t = st_eof s \<Longrightarrow> snd r \<Longrightarrow> ys \<noteq> []"
            using y False by (auto split: if_splits)
          have "if st_eof u then so_halfclose opt \<and> typed u = [] else length (filter fst (r # rs)) \<le> length (xs @ xs')"
          proof (cases "st_eof u")
            case nu: False
            then have "\<not> st_eof t" "\<not> st_eof s" using z1(4) y1(1) by blast+
            then show ?thesis using nu z1(2) y1(2) n1 [of xs] by (cases "fst r") auto
          qed (use z1(1) in simp)
          moreover have "length (filter snd (r # rs)) \<le> length (ys @ ys') + (if st_eof u \<and> \<not> st_eof s then 1 else 0)"
            using z1(3,4) y1(1,3) n1 [of ys] by (cases "st_eof t = st_eof s"; cases "snd r"; cases "st_eof u") auto
          moreover have "st_eof s \<longrightarrow> st_eof u" using z1(4) y1(1) by blast
          ultimately show ?thesis unfolding e Inr q sum.case prod.case if_not_P [OF n] using c by - (rule exI [of _ "xs @ xs'"], rule exI [of _ "ys @ ys'"], intro conjI)
        qed
      qed
    qed
  qed
qed

text \<open>C21: The loop of \<^verbatim>\<open>sock\<close> copies in both directions at once, whatever the order in which \<^verbatim>\<open>select\<close> reports them and however the streams are cut up.  After any number of
  rounds, what was written to the socket is the part of the standard input that was read, and what was printed is the part of the stream from the socket that was read: as it is, or with the option for line ends
  with a CR before each LF, and without CR.  The loop ends only at the end of the standard input (without \<^verbatim>\<open>halfclose\<close>) or of the stream from the socket; a round in which a descriptor was ready has
  read from it, so that the loop does end, or with \<^verbatim>\<open>halfclose\<close> stops reading the standard input, once a descriptor has been ready more often than there are bytes to come.  It fails only when a read does, when the socket takes less than a whole block, or when line ends are converted and the write buffer is too
  small: \<^verbatim>\<open>crlf_add\<close> may fail unless it is larger than twice the read buffer and \<^verbatim>\<open>crlf_strip\<close> unless it is larger than the read buffer, so that both may with the default sizes.  Last, the two conversions are
  inverse for texts without CR, so that two ends with the same options copy such a text unchanged.
  The standard output is to take bytes, perhaps few at a time (an error of it is not handled, as the theory \<^verbatim>\<open>Full_Transfer\<close> shows), and \<^verbatim>\<open>MSG_PEEK\<close>, which prints each block twice, is not to be used.\<close>

theorem sock_copies_text:
  assumes "0 < so_readlen opt" "0 < so_maxiov opt" "\<not> so_msgpeek opt" "\<not> st_eof s"
    and "Bytes [] \<notin> set (c_in (st_stdin s))" "Bytes [] \<notin> set (c_in (st_sock s))" "list_all is_room (w_script (st_out s))"
  shows "(case loop_tcp opt rs s of
      Inr (ended, t) \<Rightarrow> (\<exists>xs ys.
        typed s = xs @ typed t \<and> w_out (st_net t) = w_out (st_net s) @ (if so_crlf opt then expand xs else xs) \<and>
        arrived s = ys @ arrived t \<and> w_out (st_out t) = w_out (st_out s) @ (if so_crlf opt then strip_cr ys else ys) \<and>
        (if ended then \<not> so_halfclose opt \<and> typed t = [] \<or> arrived t = []
         else (if st_eof t then so_halfclose opt \<and> typed t = [] else length (filter fst rs) \<le> length xs) \<and> length (filter snd rs) \<le> length ys + (if st_eof t then 1 else 0)))
    | Inl e \<Rightarrow>
        e = Stdin_error \<and> \<not> list_all is_bytes (c_in (st_stdin s)) \<or> e = Recv_error \<and> \<not> list_all is_bytes (c_in (st_sock s)) \<or>
        e = Sock_write_error \<and> w_script (st_net s) \<noteq> [] \<or>
        e = Crlf_add_small \<and> so_crlf opt \<and> so_writelen opt \<le> 2 * so_readlen opt \<or> e = Crlf_strip_small \<and> so_crlf opt \<and> so_writelen opt \<le> so_readlen opt) \<and>
    (\<forall>bs. CR \<notin> set bs \<longrightarrow> strip_cr (expand bs) = bs)"
proof -
  have w: "wf_st s" using assms(5-7) by (simp add: wf_st_def)
  have l: "case loop_tcp opt rs s of Inl e \<Rightarrow> sock_fails opt s e
    | Inr (ended, t) \<Rightarrow> \<exists>xs ys. copied opt xs ys s t \<and>
        (if ended then \<not> so_halfclose opt \<and> typed t = [] \<or> arrived t = []
         else (if st_eof t then so_halfclose opt \<and> typed t = [] else length (filter fst rs) \<le> length xs) \<and>
           length (filter snd rs) \<le> length ys + (if st_eof t then 1 else 0))"
    using sock_loop_ok [OF assms(1-3) w, of rs] assms(4) by (simp only: simp_thms)
  show ?thesis using l strip_expand unfolding sock_fails_def copied_def out_conv_def in_conv_def conj_assoc by blast
qed

text \<open>A line is typed while one arrives; the standard input ends.\<close>

definition example_opt :: sock_opt where
  "example_opt = \<lparr>so_crlf = True, so_halfclose = False, so_msgpeek = False, so_chunkwrite = True, so_usewritev = False, so_readlen = 2, so_writelen = 5, so_maxiov = 16\<rparr>"

definition example_st :: sock_st where
  "example_st = \<lparr>st_stdin = \<lparr>c_in = [Bytes [CHR ''a'', LF]], c_out = [], c_room = 0\<rparr>, st_sock = \<lparr>c_in = [Bytes [CHR ''b'', CR, LF]], c_out = [], c_room = 0\<rparr>,
     st_net = \<lparr>w_script = [], w_out = []\<rparr>, st_out = \<lparr>w_script = [W_room 1], w_out = []\<rparr>, st_eof = False, st_shut = False\<rparr>"

lemma example_fields:
  "so_crlf example_opt" "\<not> so_halfclose example_opt" "\<not> so_writelen example_opt \<le> 2 * so_readlen example_opt" "\<not> so_writelen example_opt \<le> so_readlen example_opt"
  "typed example_st = [CHR ''a'', LF]" "arrived example_st = [CHR ''b'', CR, LF]" "w_out (st_net example_st) = []" "w_out (st_out example_st) = []"
  "w_script (st_net example_st) = []" "list_all is_bytes (c_in (st_stdin example_st))" "list_all is_bytes (c_in (st_sock example_st))"
  by (simp_all add: example_opt_def example_st_def is_bytes_def)

lemma example_pre:
  "0 < so_readlen example_opt" "0 < so_maxiov example_opt" "\<not> so_msgpeek example_opt" "\<not> st_eof example_st"
  "Bytes [] \<notin> set (c_in (st_stdin example_st))" "Bytes [] \<notin> set (c_in (st_sock example_st))" "list_all is_room (w_script (st_out example_st))"
  by (simp_all add: example_opt_def example_st_def is_room_def)

theorem sock_copies_text_witness:
  "\<exists>t. loop_tcp example_opt [(True, True), (True, True), (True, True)] example_st = Inr (True, t) \<and>
     (w_out (st_net t) = [CHR ''a'', CR, LF] \<or> w_out (st_out t) = [CHR ''b'', LF])"
proof -
  let ?rs = "[(True, True), (True, True), (True, True)]"
  have "case loop_tcp example_opt ?rs example_st of
      Inr (ended, t) \<Rightarrow> (\<exists>xs ys. [CHR ''a'', LF] = xs @ typed t \<and> w_out (st_net t) = expand xs \<and> [CHR ''b'', CR, LF] = ys @ arrived t \<and> w_out (st_out t) = strip_cr ys \<and>
        (if ended then typed t = [] \<or> arrived t = [] else \<not> st_eof t \<and> 3 \<le> length xs))
    | Inl e \<Rightarrow> False"
    using conjunct1 [OF sock_copies_text [OF example_pre, of ?rs]] unfolding example_fields
    by (cases "loop_tcp example_opt ?rs example_st") (auto simp: example_fields simp del: loop_tcp.simps split: if_splits)
  then obtain ended t xs ys where t: "loop_tcp example_opt ?rs example_st = Inr (ended, t)" "[CHR ''a'', LF] = xs @ typed t" "w_out (st_net t) = expand xs"
    "[CHR ''b'', CR, LF] = ys @ arrived t" "w_out (st_out t) = strip_cr ys" "if ended then typed t = [] \<or> arrived t = [] else \<not> st_eof t \<and> 3 \<le> length xs"
    by (cases "loop_tcp example_opt ?rs example_st") auto
  have "length xs \<le> 2" using arg_cong [OF t(2), of length] by simp
  then have ended using t(6) by (cases ended) simp_all
  then show ?thesis using t by (auto simp: strip_cr_def)
qed

section \<open>Source and sink of test data\<close>

lemma skip_result: "skip_nonprint c mod 128 = (if isprint7 c then c mod 128 else 32)"
proof (induction c rule: skip_nonprint.induct)
  case (1 c)
  have "Suc c mod 256 mod 128 = Suc c mod 128" by (rule mod_mod_cancel) simp
  then have m: "Suc c mod 256 mod 128 = (if c mod 128 = 127 then 0 else Suc (c mod 128))" by (simp add: mod_Suc)
  show ?case
  proof (cases "isprint7 c")
    case False
    then have "skip_nonprint c mod 128 = (if isprint7 (Suc c mod 256) then Suc c mod 256 mod 128 else 32)"
      using 1 by (subst skip_nonprint.simps) simp
    moreover have "isprint7 (Suc c mod 256) \<Longrightarrow> Suc c mod 256 mod 128 = 32" using False m by (auto simp: isprint7_def split: if_splits)
    ultimately show ?thesis using False by simp
  qed (simp add: skip_nonprint.simps)
qed

text \<open>The pattern goes through the printable characters again and again.\<close>

lemma pattern_loop_cycle:
  "skip_nonprint c mod 128 = 32 + j mod 95 \<Longrightarrow> pattern_loop len c = map (\<lambda>i. char_of (32 + i mod 95)) [j..<j + len]"
proof (induction len arbitrary: c j)
  case (Suc len)
  let ?d = "skip_nonprint c"
  have "Suc ?d mod 256 mod 128 = Suc ?d mod 128" by (rule mod_mod_cancel) simp
  then have m: "Suc ?d mod 256 mod 128 = (if ?d mod 128 = 127 then 0 else Suc (?d mod 128))" by (simp add: mod_Suc)
  have "j mod 95 < Suc 94" by simp
  then have "j mod 95 < 94 \<or> j mod 95 = 94" by (simp only: less_Suc_eq)
  then have "skip_nonprint (Suc ?d mod 256) mod 128 = 32 + Suc j mod 95"
    unfolding skip_result [of "Suc ?d mod 256"] isprint7_def m Suc.prems by (elim disjE) (simp_all add: mod_Suc)
  from Suc.IH [OF this] have "pattern_loop len (Suc ?d mod 256) = map (\<lambda>i. char_of (32 + i mod 95)) [Suc j..<Suc j + len]" by simp
  moreover have "[j..<j + Suc len] = j # [Suc j..<Suc j + len]" by (simp add: upt_conv_Cons)
  ultimately show ?case using Suc.prems by (simp add: Let_def)
qed simp

lemma pattern_cycle: "pattern len = map (\<lambda>i. char_of (32 + i mod 95)) [0..<len]"
  using pattern_loop_cycle [of 0 0 len] by (simp add: pattern_def skip_result isprint7_def)

text \<open>The numbers that are received add up to what was sent.\<close>

lemma tread_ok:
  assumes "list_all is_bytes (c_in c)" "0 < n"
  obtains (End) "tread c n = (Rd [], c)" "stream_bytes (c_in c) = []"
    | (Data) bs c' where "tread c n = (Rd bs, c')" "bs \<noteq> []" "length bs \<le> n" "list_all is_bytes (c_in c')" "stream_bytes (c_in c) = bs @ stream_bytes (c_in c')"
  using tread_bytes [OF bytes_signal [OF assms(1)] assms(2)] assms(1) by auto

lemma source_loop_all:
  assumes "w_script (fst s) = []" "urg \<notin> set is"
  shows "source_loop urg ok ign buf is s = Inr ((fst s)\<lparr>w_out := w_out (fst s) @ concat (replicate (length is) buf)\<rparr>, snd s)"
  using assms
proof (induction "is" arbitrary: s)
  case (Cons i "is")
  then show ?case using Cons.IH [of "((fst s)\<lparr>w_out := w_out (fst s) @ buf\<rparr>, snd s)"] by (auto simp: sink_write_def os_put_def)
qed simp

lemma sink_loop_all:
  assumes "0 < n" "list_all is_bytes (c_in c)"
  shows "\<exists>ks. sink_loop n False c got = Inr (got @ ks) \<and> sum_list ks = length (stream_bytes (c_in c))"
  using assms(2)
proof (induction "length (stream_bytes (c_in c))" arbitrary: c got rule: less_induct)
  case less
  show ?case using less.prems assms(1)
  proof (cases rule: tread_ok)
    case End
    then show ?thesis by (simp add: sink_loop.simps [of n])
  next
    case (Data bs c')
    then have "length (stream_bytes (c_in c')) < length (stream_bytes (c_in c))" by simp
    from less.hyps [OF this Data(4), of "got @ [length bs]"] obtain ks where
      "sink_loop n False c' (got @ [length bs]) = Inr (got @ [length bs] @ ks)" "sum_list ks = length (stream_bytes (c_in c'))" by auto
    then show ?thesis using Data by (intro exI [of _ "length bs # ks"]) (simp add: sink_loop.simps [of n False c])
  qed
qed

lemma source_sink:
  assumes "w_script s = []" "w_out s = []" "urg < 1 \<or> nbuf < urg"
  shows "\<exists>s'. source_tcp urg ok ign len nbuf s = Inr (s', []) \<and>
    (\<forall>n c. 0 < n \<and> list_all is_bytes (c_in c) \<and> stream_bytes (c_in c) = w_out s' \<longrightarrow> (\<exists>ks. sink_tcp n False c = Inr ks \<and> sum_list ks = nat nbuf * len))"
proof -
  let ?s = "s\<lparr>w_out := concat (replicate (nat nbuf) (pattern len))\<rparr>"
  have "source_tcp urg ok ign len nbuf s = Inr (?s, [])"
    using source_loop_all [of "(s, [])" urg "[1..nbuf]"] assms by (auto simp: source_tcp_def)
  moreover have "length (concat (replicate k (pattern len))) = k * len" for k by (induction k) (simp_all add: pattern_cycle)
  then have "length (w_out ?s) = nat nbuf * len" by simp
  moreover have "\<exists>ks. sink_tcp n False c = Inr ks \<and> sum_list ks = length (stream_bytes (c_in c))" if "0 < n" "list_all is_bytes (c_in c)" for n c
    using sink_loop_all [OF that, of "[]"] by (simp add: sink_tcp_def)
  ultimately show ?thesis by metis
qed

end
