(* ===== verification/Dg_Reliable.thy ===== *)
theory Dg_Reliable
  imports C_Bytes
begin

text \<open>
  Datagrams with sequence numbers and retransmission, \<^verbatim>\<open>unpv13e/rtt\<close>: \<^verbatim>\<open>dg_send_recv\<close>, which sends a datagram again after a timeout and waits for the
  reply with its number, the client \<^verbatim>\<open>dg_cli\<close> and the server \<^verbatim>\<open>dg_echo\<close>.  The estimator of the round trip time (\<^verbatim>\<open>rtt_init\<close>, \<^verbatim>\<open>rtt_start\<close> and so on) is a library
  and a parameter.  The network is a function that says which datagrams arrive after a history of datagrams sent, before the next alarm: it may lose, repeat, delay
  and reorder them.
\<close>

abbreviation (input) DG_MAXLINE :: nat where "DG_MAXLINE \<equiv> 4096"

text \<open>\<open>op_ts\<close> also gets the number of the moment at which it is called; \<open>op_timeout\<close> says whether to give up.\<close>

record 'r rtt_ops =
  op_init :: "'r \<Rightarrow> 'r"
  op_newpack :: "'r \<Rightarrow> 'r"
  op_ts :: "'r \<Rightarrow> nat \<Rightarrow> 32 word"
  op_start :: "'r \<Rightarrow> nat \<times> 'r"
  op_timeout :: "'r \<Rightarrow> bool \<times> 'r"
  op_stop :: "'r \<Rightarrow> 32 word \<Rightarrow> 'r"

record 'r dg =
  dg_rtt :: 'r
  dg_rttinit :: bool
  dg_seq :: "32 word"
  dg_sent :: "cbuf list"

type_synonym dg_net = "cbuf list \<Rightarrow> cbuf list"

abbreviation (input) HDR :: nat where "HDR \<equiv> 8"

definition hdr_seq :: "cbuf \<Rightarrow> 32 word" where "hdr_seq d = get32 d"
definition hdr_ts :: "cbuf \<Rightarrow> 32 word" where "hdr_ts d = get32 (drop 4 d)"

text \<open>The loop that waits for the reply; the alarm rings when nothing more arrives.\<close>

definition recv_reply :: "32 word \<Rightarrow> cbuf list \<Rightarrow> cbuf option" where
  "recv_reply seq ds = find (\<lambda>d. \<not> (length d < HDR \<or> hdr_seq d \<noteq> seq)) ds"

text \<open>From the label \<^verbatim>\<open>sendagain\<close>.  The result is the data received, of which \<open>inbytes\<close> have room, or \<open>None\<close> for -1.
  What the network delivers while the timer runs is what is received before it expires: when \<^verbatim>\<open>SIGALRM\<close> arrives after \<^verbatim>\<open>Recvmsg\<close> has returned and before \<^verbatim>\<open>alarm(0)\<close>, the handler leaves
  with \<^verbatim>\<open>siglongjmp\<close>, the datagram is forgotten and sent again, and the run is one in which the network has not delivered it.  A timer that expires before \<^verbatim>\<open>sigsetjmp\<close> has been called is not modelled.\<close>

partial_function (option) dg_sendagain :: "'r rtt_ops \<Rightarrow> dg_net \<Rightarrow> nat \<Rightarrow> cbuf \<Rightarrow> 'r dg \<Rightarrow> (cbuf option \<times> 'r dg) option" where
  "dg_sendagain ops net inbytes outbuff s =
     (let ts = op_ts ops (dg_rtt s) (2 * length (dg_sent s));
          s = s\<lparr>dg_sent := dg_sent s @ [le32 (dg_seq s) @ le32 ts @ outbuff]\<rparr>;
          s = s\<lparr>dg_rtt := snd (op_start ops (dg_rtt s))\<rparr>
      in case recv_reply (dg_seq s) (net (dg_sent s)) of
           Some d \<Rightarrow>
             let now = op_ts ops (dg_rtt s) (2 * length (dg_sent s) + 1)
             in Some (Some (take inbytes (drop HDR d)), s\<lparr>dg_rtt := op_stop ops (dg_rtt s) (now - hdr_ts d)\<rparr>)
         | None \<Rightarrow>
             (case op_timeout ops (dg_rtt s) of (quit, r) \<Rightarrow>
                if quit then Some (None, s\<lparr>dg_rtt := r, dg_rttinit := False\<rparr>)
                else dg_sendagain ops net inbytes outbuff (s\<lparr>dg_rtt := r\<rparr>)))"

definition dg_send_recv :: "'r rtt_ops \<Rightarrow> dg_net \<Rightarrow> nat \<Rightarrow> cbuf \<Rightarrow> 'r dg \<Rightarrow> (cbuf option \<times> 'r dg) option" where
  "dg_send_recv ops net inbytes outbuff s =
     (let s = (if \<not> dg_rttinit s then s\<lparr>dg_rtt := op_init ops (dg_rtt s), dg_rttinit := True\<rparr> else s);
          s = s\<lparr>dg_seq := dg_seq s + 1\<rparr>;
          s = s\<lparr>dg_rtt := op_newpack ops (dg_rtt s)\<rparr>
      in dg_sendagain ops net inbytes outbuff s)"

text \<open>The lines that are printed, and whether the client got to the end of the input; it quits when there is no reply.\<close>

fun dg_cli :: "'r rtt_ops \<Rightarrow> dg_net \<Rightarrow> cbuf list \<Rightarrow> 'r dg \<Rightarrow> (string list \<times> bool) option" where
  "dg_cli ops net [] s = Some ([], True)"
| "dg_cli ops net (sendline # rest) s =
     Option.bind (dg_send_recv ops net DG_MAXLINE (cstr sendline) s) (\<lambda>(r, s).
       case r of
         None \<Rightarrow> Some ([], False)
       | Some recvline \<Rightarrow> map_option (map_prod (Cons (cstr (recvline @ [NUL]))) id) (dg_cli ops net rest s))"

text \<open>What the server sends for the datagrams it receives.\<close>

definition dg_echo :: "cbuf list \<Rightarrow> cbuf list" where
  "dg_echo = map (take DG_MAXLINE)"

section \<open>Replies\<close>

text \<open>The estimator gives up at last: \<^verbatim>\<open>rtt_timeout\<close> counts the retransmissions of a packet.\<close>

definition rtt_bounded :: "'r rtt_ops \<Rightarrow> ('r \<Rightarrow> nat) \<Rightarrow> bool" where
  "rtt_bounded ops left \<longleftrightarrow> (\<forall>r. left (snd (op_start ops r)) = left r) \<and> (\<forall>r r'. op_timeout ops r = (False, r') \<longrightarrow> left r' < left r)"

text \<open>Whatever arrives is an answer of the server to something that was sent.\<close>

definition echo_net :: "dg_net \<Rightarrow> bool" where
  "echo_net net \<longleftrightarrow> (\<forall>h. set (net h) \<subseteq> set (dg_echo h))"

definition hist_ok :: "nat \<Rightarrow> cbuf list \<Rightarrow> bool" where
  "hist_ok q h \<longleftrightarrow> (\<forall>d \<in> set h. HDR \<le> length d \<and> unat (hdr_seq d) \<le> q)"

lemma hdr_take: "HDR \<le> n \<Longrightarrow> hdr_seq (take n d) = hdr_seq d"
  by (simp add: hdr_seq_def get32_def)

lemma recv_reply_echo:
  assumes "echo_net net" "recv_reply q (net h) = Some d"
  obtains e where "e \<in> set h" "d = take DG_MAXLINE e" "hdr_seq e = q"
proof -
  have "d \<in> set (net h)" "hdr_seq d = q" using assms(2) by (auto simp: recv_reply_def find_Some_iff)
  moreover from this(1) obtain e where "e \<in> set h" "d = take DG_MAXLINE e" using assms(1) by (force simp: echo_net_def dg_echo_def)
  ultimately show ?thesis using that [of e] hdr_take [of DG_MAXLINE e] by simp
qed

text \<open>A network on which the answer to what was sent last arrives in time.\<close>

definition net_answers :: "dg_net \<Rightarrow> bool" where
  "net_answers net \<longleftrightarrow> (\<forall>h. h \<noteq> [] \<longrightarrow> take DG_MAXLINE (last h) \<in> set (net h))"

lemma net_answers_reply:
  assumes "net_answers net" "h \<noteq> []" "HDR \<le> length (last h)"
  shows "recv_reply (hdr_seq (last h)) (net h) \<noteq> None"
proof -
  have "take DG_MAXLINE (last h) \<in> set (net h)" "HDR \<le> length (take DG_MAXLINE (last h))" "hdr_seq (take DG_MAXLINE (last h)) = hdr_seq (last h)"
    using assms by (simp_all add: net_answers_def hdr_take)
  then show ?thesis unfolding recv_reply_def find_None_iff by (metis not_le)
qed

text \<open>Everything with the number of the call carries its data.\<close>

definition call_ok :: "cbuf \<Rightarrow> 'r dg \<Rightarrow> bool" where
  "call_ok out s \<longleftrightarrow> (\<forall>d \<in> set (dg_sent s). HDR \<le> length d \<and> (hdr_seq d = dg_seq s \<longrightarrow> drop HDR d = out))"

lemma sendagain_ok:
  assumes "rtt_bounded ops left" "echo_net net" "length out \<le> DG_MAXLINE - HDR"
  shows "call_ok out s \<Longrightarrow> \<exists>r t. dg_sendagain ops net DG_MAXLINE out s = Some (r, t) \<and> dg_seq t = dg_seq s \<and> (r = None \<and> \<not> net_answers net \<or> r = Some out) \<and>
    (\<forall>d \<in> set (dg_sent t). d \<in> set (dg_sent s) \<or> HDR \<le> length d \<and> hdr_seq d = dg_seq s)"
proof (induction "left (dg_rtt s)" arbitrary: s rule: less_induct)
  case less
  let ?d = "le32 (dg_seq s) @ le32 (op_ts ops (dg_rtt s) (2 * length (dg_sent s))) @ out"
  let ?s = "s\<lparr>dg_sent := dg_sent s @ [?d], dg_rtt := snd (op_start ops (dg_rtt s))\<rparr>"
  have d: "HDR \<le> length ?d" "hdr_seq ?d = dg_seq s" "drop HDR ?d = out" by (simp_all add: hdr_seq_def)
  then have ok: "call_ok out (?s\<lparr>dg_rtt := r\<rparr>)" for r using less.prems by (auto simp: call_ok_def simp del: append.assoc)
  have eq: "dg_sendagain ops net DG_MAXLINE out s = (case recv_reply (dg_seq s) (net (dg_sent ?s)) of
       Some e \<Rightarrow> Some (Some (take DG_MAXLINE (drop HDR e)), ?s\<lparr>dg_rtt := op_stop ops (dg_rtt ?s) (op_ts ops (dg_rtt ?s) (2 * length (dg_sent ?s) + 1) - hdr_ts e)\<rparr>)
     | None \<Rightarrow> (case op_timeout ops (dg_rtt ?s) of (quit, r) \<Rightarrow>
         if quit then Some (None, ?s\<lparr>dg_rtt := r, dg_rttinit := False\<rparr>) else dg_sendagain ops net DG_MAXLINE out (?s\<lparr>dg_rtt := r\<rparr>)))"
    by (subst dg_sendagain.simps) (simp add: Let_def split: option.split prod.split)
  show ?case
  proof (cases "recv_reply (dg_seq s) (net (dg_sent ?s))")
    case (Some e)
    obtain e' where e: "e' \<in> set (dg_sent ?s)" "e = take DG_MAXLINE e'" "hdr_seq e' = dg_seq s" by (rule recv_reply_echo [OF assms(2) Some])
    have "drop HDR e' = out" using ok [of undefined] e(1,3) by (auto simp: call_ok_def)
    then have "take DG_MAXLINE (drop HDR e) = out" using assms(3) by (simp add: e(2) drop_take)
    then show ?thesis using Some d unfolding eq by auto
  next
    case None
    then have na: "\<not> net_answers net" using net_answers_reply [of net "dg_sent ?s"] d(1,2) by auto
    obtain quit r where r: "op_timeout ops (dg_rtt ?s) = (quit, r)" by (cases "op_timeout ops (dg_rtt ?s)")
    show ?thesis
    proof (cases quit)
      case True
      then show ?thesis using None r d na unfolding eq by auto
    next
      case False
      then have "left (dg_rtt (?s\<lparr>dg_rtt := r\<rparr>)) < left (dg_rtt s)" using assms(1) r unfolding rtt_bounded_def by fastforce
      from less.hyps [OF this ok] obtain x t where "dg_sendagain ops net DG_MAXLINE out (?s\<lparr>dg_rtt := r\<rparr>) = Some (x, t)" "dg_seq t = dg_seq s"
        "x = None \<and> \<not> net_answers net \<or> x = Some out" "\<forall>e \<in> set (dg_sent t). e \<in> set (dg_sent ?s) \<or> HDR \<le> length e \<and> hdr_seq e = dg_seq s" by auto
      then show ?thesis using None r False d unfolding eq by auto
    qed
  qed
qed

lemma send_recv_ok:
  assumes "rtt_bounded ops left" "echo_net net" "length out \<le> DG_MAXLINE - HDR" "hist_ok (unat (dg_seq s)) (dg_sent s)" "Suc (unat (dg_seq s)) < 2 ^ 32"
  shows "\<exists>r t. dg_send_recv ops net DG_MAXLINE out s = Some (r, t) \<and> (r = None \<and> \<not> net_answers net \<or> r = Some out) \<and> unat (dg_seq t) = Suc (unat (dg_seq s)) \<and>
    hist_ok (unat (dg_seq t)) (dg_sent t)"
proof -
  define u where "u = (let s = (if \<not> dg_rttinit s then s\<lparr>dg_rtt := op_init ops (dg_rtt s), dg_rttinit := True\<rparr> else s);
          s = s\<lparr>dg_seq := dg_seq s + 1\<rparr> in s\<lparr>dg_rtt := op_newpack ops (dg_rtt s)\<rparr>)"
  have u: "dg_seq u = dg_seq s + 1" "dg_sent u = dg_sent s" by (simp_all add: u_def Let_def)
  have n: "unat (dg_seq s + 1) = Suc (unat (dg_seq s))" using assms(5) by (simp add: unat_plus_if_size word_size)
  have "call_ok out u" using assms(4) n unfolding call_ok_def hist_ok_def u by (metis Suc_n_not_le_n)
  from sendagain_ok [OF assms(1-3) this] obtain r t where t: "dg_sendagain ops net DG_MAXLINE out u = Some (r, t)" "dg_seq t = dg_seq s + 1" "r = None \<and> \<not> net_answers net \<or> r = Some out"
    "\<forall>d \<in> set (dg_sent t). d \<in> set (dg_sent s) \<or> HDR \<le> length d \<and> hdr_seq d = dg_seq s + 1" unfolding u by blast
  have "hist_ok (unat (dg_seq t)) (dg_sent t)" using assms(4) t(4) n unfolding hist_ok_def t(2) by (metis le_SucI order_refl)
  moreover have "dg_send_recv ops net DG_MAXLINE out s = Some (r, t)" using t(1) unfolding u_def dg_send_recv_def Let_def .
  ultimately show ?thesis using t(2,3) n by auto
qed

section \<open>The client\<close>

text \<open>C23: Over a network that may lose, repeat, delay and reorder datagrams in every way, the client always ends, and what it prints are the lines of its input in
  order, each once: all of them when it gets to the end, which it does when the network answers in time, and a prefix when it gives up.  A late reply to an earlier line is
  never taken for the answer.\<close>

theorem dg_cli_prints_lines:
  assumes "rtt_bounded ops left" "echo_net net" "\<forall>l \<in> set ls. length (cstr l) \<le> DG_MAXLINE - HDR"
    and "hist_ok (unat (dg_seq s)) (dg_sent s)" "unat (dg_seq s) + length ls < 2 ^ 32"
  shows "\<exists>out end. dg_cli ops net ls s = Some (out, end) \<and> out = take (length out) (map cstr ls) \<and> (end \<longrightarrow> out = map cstr ls) \<and> (net_answers net \<longrightarrow> end)"
  using assms(3-5)
proof (induction ls arbitrary: s)
  case (Cons l ls)
  have "length (cstr l) \<le> DG_MAXLINE - HDR" "Suc (unat (dg_seq s)) < 2 ^ 32" using Cons.prems(1,3) by simp_all
  from send_recv_ok [OF assms(1,2) this(1) Cons.prems(2) this(2)] obtain r t where t: "dg_send_recv ops net DG_MAXLINE (cstr l) s = Some (r, t)"
    "r = None \<and> \<not> net_answers net \<or> r = Some (cstr l)" "unat (dg_seq t) = Suc (unat (dg_seq s))" "hist_ok (unat (dg_seq t)) (dg_sent t)" by blast
  show ?case
  proof (cases r)
    case None
    then show ?thesis using t(1,2) by (intro exI [of _ "[]"] exI [of _ False]) simp
  next
    case (Some x)
    then have x: "x = cstr l" "cstr (x @ [NUL]) = cstr l" using t(2) cstr_append_NUL [of "cstr l" "[]"] by simp_all
    obtain out e where o: "dg_cli ops net ls t = Some (out, e)" "out = take (length out) (map cstr ls)" "e \<longrightarrow> out = map cstr ls" "net_answers net \<longrightarrow> e"
      using Cons.IH [of t] Cons.prems t(3,4) by auto
    have "dg_cli ops net (l # ls) s = Some (cstr l # out, e)" using t(1) Some x(2) o(1) by simp
    then show ?thesis using o(2-4) by simp
  qed
qed auto

text \<open>An estimator that gives up after three retransmissions, and a network that repeats everything that was ever sent.\<close>

definition example_ops :: "nat rtt_ops" where
  "example_ops = \<lparr>op_init = (\<lambda>_. 0), op_newpack = (\<lambda>_. 0), op_ts = (\<lambda>_ k. of_nat k), op_start = (\<lambda>r. (2, r)), op_timeout = (\<lambda>r. (r \<ge> 3, r + 1)), op_stop = (\<lambda>r _. r)\<rparr>"

theorem dg_cli_prints_lines_witness:
  "dg_cli example_ops dg_echo [''ab'', ''c''] \<lparr>dg_rtt = 0, dg_rttinit = False, dg_seq = 0, dg_sent = []\<rparr> = Some ([''ab'', ''c''], True)"
proof -
  have "rtt_bounded example_ops (\<lambda>r. 3 - r)" by (auto simp: rtt_bounded_def example_ops_def)
  moreover have "echo_net dg_echo" "net_answers dg_echo" by (auto simp: echo_net_def net_answers_def dg_echo_def)
  moreover have "cstr ''ab'' = ''ab''" "cstr ''c'' = ''c''" by (simp_all add: cstr_def)
  ultimately show ?thesis
    using dg_cli_prints_lines [of example_ops "\<lambda>r. 3 - r" dg_echo "[''ab'', ''c'']" "\<lparr>dg_rtt = 0, dg_rttinit = False, dg_seq = 0, dg_sent = []\<rparr>"]
    by (auto simp: hist_ok_def)
qed

text \<open>The server's buffer has no room for the header and a line of full length: of the longest lines the last characters are lost.\<close>

lemma dg_echo_cuts:
  assumes "length line = DG_MAXLINE - 1"
  shows "drop HDR (take DG_MAXLINE (le32 q @ le32 ts @ line)) = take (DG_MAXLINE - HDR) line" "take (DG_MAXLINE - HDR) line \<noteq> line"
  using assms by (auto dest: arg_cong [of _ _ length])

end
