(* ===== verification/Sntp.thy ===== *)
theory Sntp
  imports Ping
begin

unbundle bit_operations_syntax

text \<open>
  The difference between the local clock and that of a time server, \<^verbatim>\<open>unpv13e/ssntp/sntp_proc.c\<close>.  The fraction of a second is converted to microseconds in floating point; all
  values there are multiples of a power of two with at most 52 significant bits, so the conversion is exact and the model computes it with whole numbers.
\<close>

abbreviation (input) JAN_1970 :: int where "JAN_1970 \<equiv> 2208988800"
abbreviation (input) VERSION_MASK :: byte where "VERSION_MASK \<equiv> 0x38"
abbreviation (input) MODE_MASK :: byte where "MODE_MASK \<equiv> 7"
abbreviation (input) MODE_CLIENT :: byte where "MODE_CLIENT \<equiv> 3"

text \<open>\<^verbatim>\<open>ntohl\<close> of the word at an offset of the packet, on a little-endian host.\<close>

definition net32_at :: "byte list \<Rightarrow> nat \<Rightarrow> 32 word" where
  "net32_at buf i = bytes_word (rev (take 4 (drop i buf)))"

text \<open>What is printed: the size of a packet that is too small; or the version, mode and stratum, and for packets that are not from a client the difference.\<close>

datatype sntp_report = Too_small int | Packet byte byte byte "int option"

definition sntp_proc :: "byte list \<Rightarrow> int \<Rightarrow> timeval \<Rightarrow> sntp_report" where
  "sntp_proc buf n now =
     (if n < 48 then Too_small n
      else let version = drop_bit 3 (buf ! 0 AND VERSION_MASK); mode = buf ! 0 AND MODE_MASK; stratum = buf ! 1 in
        if mode = MODE_CLIENT then Packet version mode stratum None
        else let
          nsec = net32_at buf 40 - word_of_int JAN_1970;
          useci = word_of_int (uint (net32_at buf 44) * 1000000 div 4294967296) :: 32 word;
          sec = tv_sec now - uint nsec;
          usec = tv_usec now - uint useci;
          diff = (if usec < 0 then (sec - 1) * 1000000 + (usec + 1000000) else sec * 1000000 + usec)
        in Packet version mode stratum (Some (sint (word_of_int diff :: 32 word))))"

definition net32 :: "32 word \<Rightarrow> byte list" where
  "net32 w = rev (word_bytes 4 w)"

lemma length_net32 [simp]: "length (net32 w) = 4"
  by (simp add: net32_def)

lemma net32_at_net32: "length a = i \<Longrightarrow> net32_at (a @ net32 w @ b) i = w"
  by (simp add: net32_at_def net32_def bytes_word_all)

text \<open>The packet of a server whose clock shows \<open>T\<close> seconds since 1970 and the fraction \<open>f\<close> of a second in units of 2 to the power of -32; the other fields are arbitrary.\<close>

definition server_packet :: "byte \<Rightarrow> byte \<Rightarrow> byte list \<Rightarrow> int \<Rightarrow> 32 word \<Rightarrow> byte list" where
  "server_packet status stratum mid T f = [status, stratum] @ mid @ net32 (word_of_int (T + JAN_1970)) @ net32 f"

text \<open>The time of the packet in microseconds.\<close>

definition server_micros :: "int \<Rightarrow> 32 word \<Rightarrow> int" where
  "server_micros T f = 1000000 * T + uint f * 1000000 div 4294967296"

lemma useci_less: "uint (f :: 32 word) * 1000000 div 4294967296 < 1000000" "0 \<le> uint (f :: 32 word) * 1000000 div 4294967296"
proof -
  have "uint f < 4294967296" using unsigned_less [of f, where ?'a = int] by simp
  moreover have "uint f * 1000000 div 4294967296 * 4294967296 \<le> uint f * 1000000" by (simp add: minus_mod_eq_div_mult [symmetric])
  ultimately show "uint f * 1000000 div 4294967296 < 1000000" by linarith
  show "0 \<le> uint f * 1000000 div 4294967296" by (simp add: div_int_pos_iff)
qed

lemma sint32: "sint (word_of_int x :: 32 word) = (x + 2147483648) mod 4294967296 - 2147483648"
  by (simp add: int_word_sint)

text \<open>C36: For a packet of a server, also one with a time after 2036, when the seconds of the protocol start again at 0, the difference that is printed is that of the two clocks in
  microseconds, as long as they are less than 2147 seconds apart; in general it is the residue of that difference in 32 bits.\<close>

theorem sntp_clock_difference:
  assumes "length mid = 38" "status AND MODE_MASK \<noteq> MODE_CLIENT" "0 \<le> T" "T < 4294967296" "48 \<le> n"
  shows "\<exists>d. sntp_proc (server_packet status stratum mid T f) n now =
      Packet (drop_bit 3 (status AND VERSION_MASK)) (status AND MODE_MASK) stratum (Some d) \<and>
    (4294967296 dvd d - (micros now - server_micros T f)) \<and>
    (- 2147483648 \<le> micros now - server_micros T f \<and> micros now - server_micros T f < 2147483648 \<longrightarrow> d = micros now - server_micros T f)"
proof -
  let ?p = "server_packet status stratum mid T f" and ?u = "uint f * 1000000 div 4294967296" and ?D = "micros now - server_micros T f"
  let ?d = "sint (word_of_int ?D :: 32 word)"
  have p: "net32_at ?p 40 = word_of_int (T + JAN_1970)" "net32_at ?p 44 = f"
    using net32_at_net32 [of "[status, stratum] @ mid" 40 _ "net32 f"] net32_at_net32 [of "[status, stratum] @ mid @ net32 (word_of_int (T + JAN_1970))" 44 f "[]"] assms(1)
    by (simp_all add: server_packet_def)
  have s: "uint (word_of_int (T + JAN_1970) - word_of_int JAN_1970 :: 32 word) = T"
    using assms(3,4) by (simp add: wi_hom_syms uint_word_of_int)
  have u: "uint (word_of_int ?u :: 32 word) = ?u" using useci_less [of f] by (simp add: uint_word_of_int)
  have e: "(if tv_usec now - ?u < 0 then (tv_sec now - T - 1) * 1000000 + (tv_usec now - ?u + 1000000) else (tv_sec now - T) * 1000000 + (tv_usec now - ?u)) = ?D"
    by (simp add: micros_def server_micros_def)
  have "sntp_proc ?p n now = Packet (drop_bit 3 (status AND VERSION_MASK)) (status AND MODE_MASK) stratum (Some ?d)"
    unfolding sntp_proc_def Let_def p s u e using assms(2,5) by (simp add: server_packet_def)
  moreover have "?d = (?D + 2147483648) mod 4294967296 - 2147483648" by (rule sint32)
  moreover have "4294967296 dvd ((?D + 2147483648) mod 4294967296 - 2147483648) - ?D"
  proof -
    have "((?D + 2147483648) mod 4294967296 - 2147483648) - ?D = - (4294967296 * ((?D + 2147483648) div 4294967296))"
      by (simp add: minus_div_mult_eq_mod [symmetric] algebra_simps)
    then show ?thesis by simp
  qed
  moreover have "- 2147483648 \<le> ?D \<and> ?D < 2147483648 \<Longrightarrow> (?D + 2147483648) mod 4294967296 - 2147483648 = ?D" by simp
  ultimately show ?thesis by (intro exI [of _ ?d]) auto
qed

theorem sntp_clock_difference_witness:
  "sntp_proc (server_packet 0x24 1 (replicate 38 0) 1000 0x80000000) 48 \<lparr>tv_sec = 1002, tv_usec = 250000\<rparr> = Packet 4 4 1 (Some 1750000)"
proof -
  have "micros \<lparr>tv_sec = 1002, tv_usec = 250000\<rparr> - server_micros 1000 0x80000000 = 1750000" by (simp add: micros_def server_micros_def)
  then show ?thesis
    using sntp_clock_difference [of "replicate 38 0" "0x24" 1000 48 1 "0x80000000" "\<lparr>tv_sec = 1002, tv_usec = 250000\<rparr>"] by auto
qed

text \<open>Clocks that are an hour apart.\<close>

lemma sntp_difference_wraps:
  "sntp_proc (server_packet 0x24 1 (replicate 38 0) 0 0) 48 \<lparr>tv_sec = 3600, tv_usec = 0\<rparr> = Packet 4 4 1 (Some (- 694967296))"
proof -
  have "net32_at (server_packet 0x24 1 (replicate 38 0) 0 0) 40 = word_of_int JAN_1970" "net32_at (server_packet 0x24 1 (replicate 38 0) 0 0) 44 = 0"
    using net32_at_net32 [of "[0x24, 1] @ replicate 38 0" 40 "word_of_int JAN_1970" "net32 0"]
      net32_at_net32 [of "[0x24, 1] @ replicate 38 0 @ net32 (word_of_int JAN_1970)" 44 0 "[]"] by (simp_all add: server_packet_def)
  then show ?thesis by (simp add: sntp_proc_def Let_def server_packet_def)
qed

end
