(* ===== verification/Sigio_Echo.thy ===== *)
theory Sigio_Echo
  imports C_Prelude
begin

text \<open>
  The echo server that reads datagrams in a signal handler, \<^verbatim>\<open>unpv13e/sigio/dgecho01.c\<close>: the queue of eight buffers, the handler \<^verbatim>\<open>sig_io\<close>, which reads
  until nothing is left, and the main loop of \<^verbatim>\<open>dg_echo\<close>, which sends the datagrams back and blocks the signal only while it tests and changes the count.  The steps of the
  main loop and the deliveries of the signal are interleaved in every way the signal mask allows.
\<close>

abbreviation (input) QSIZE :: nat where "QSIZE \<equiv> 8"
abbreviation (input) MAXDG :: nat where "MAXDG \<equiv> 4096"

section \<open>The state\<close>

text \<open>The data and the address of the client.\<close>

type_synonym dgram = "cbuf \<times> nat"

text \<open>Where the main loop is: at the test of \<^verbatim>\<open>nqueue\<close>, in \<^verbatim>\<open>sigsuspend\<close>, before \<^verbatim>\<open>Sendto\<close>, before the increment of \<^verbatim>\<open>iget\<close>, before the signal is blocked again, and before
  the count is loaded and stored for the decrement.\<close>

datatype sio_pc = At_test | At_suspend | At_send | At_inc | At_block | At_load | At_store

text \<open>\<open>sio_kernel\<close> are the datagrams and errors that wait at the socket, \<open>sio_pending\<close> tells if the signal has been sent and not yet delivered.\<close>

record sigio =
  sio_dg :: "dgram list"
  sio_iget :: nat
  sio_iput :: nat
  sio_nqueue :: nat
  sio_cntread :: "nat list"
  sio_kernel :: "(int + dgram) list"
  sio_pending :: bool
  sio_pc :: sio_pc
  sio_tmp :: nat
  sio_out :: "dgram list"

datatype sio_error = Receive_overflow | Recvfrom_error int

text \<open>\<open>junk\<close> is what the buffers hold at the start.\<close>

definition sio_start :: "dgram list \<Rightarrow> sigio" where
  "sio_start junk = \<lparr>sio_dg = junk, sio_iget = 0, sio_iput = 0, sio_nqueue = 0, sio_cntread = replicate (QSIZE + 1) 0, sio_kernel = [],
     sio_pending = False, sio_pc = At_test, sio_tmp = 0, sio_out = []\<rparr>"

definition next_slot :: "nat \<Rightarrow> nat" where
  "next_slot i = (if i + 1 \<ge> QSIZE then 0 else i + 1)"

section \<open>The handler\<close>

definition store_dg :: "dgram \<Rightarrow> sigio \<Rightarrow> sigio" where
  "store_dg d s = s\<lparr>sio_dg := (sio_dg s)[sio_iput s := (take MAXDG (fst d), snd d)], sio_nqueue := sio_nqueue s + 1, sio_iput := next_slot (sio_iput s)\<rparr>"

fun sig_io_loop :: "(int + dgram) list \<Rightarrow> nat \<Rightarrow> sigio \<Rightarrow> sio_error + nat \<times> sigio" where
  "sig_io_loop [] nread s = (if sio_nqueue s \<ge> QSIZE then Inl Receive_overflow else Inr (nread, s\<lparr>sio_kernel := []\<rparr>))"
| "sig_io_loop (d # ds) nread s =
     (if sio_nqueue s \<ge> QSIZE then Inl Receive_overflow
      else case d of
        Inl e \<Rightarrow> Inl (Recvfrom_error e)
      | Inr d \<Rightarrow> sig_io_loop ds (nread + 1) (store_dg d s))"

definition sig_io :: "sigio \<Rightarrow> sio_error + sigio" where
  "sig_io s = andthen (sig_io_loop (sio_kernel s) 0 s) (\<lambda>(nread, s).
     Inr (s\<lparr>sio_cntread := (sio_cntread s)[nread := sio_cntread s ! nread + 1]\<rparr>))"

section \<open>The main loop\<close>

definition sio_blocked :: "sigio \<Rightarrow> bool" where
  "sio_blocked s \<longleftrightarrow> sio_pc s \<in> {At_test, At_load, At_store}"

text \<open>In \<^verbatim>\<open>sigsuspend\<close> the main loop waits for the signal.\<close>

definition sio_main :: "sigio \<Rightarrow> sigio option" where
  "sio_main s =
     (case sio_pc s of
        At_test \<Rightarrow> Some (s\<lparr>sio_pc := if sio_nqueue s = 0 then At_suspend else At_send\<rparr>)
      | At_suspend \<Rightarrow> None
      | At_send \<Rightarrow> Some (s\<lparr>sio_out := sio_out s @ [sio_dg s ! sio_iget s], sio_pc := At_inc\<rparr>)
      | At_inc \<Rightarrow> Some (s\<lparr>sio_iget := next_slot (sio_iget s), sio_pc := At_block\<rparr>)
      | At_block \<Rightarrow> Some (s\<lparr>sio_pc := At_load\<rparr>)
      | At_load \<Rightarrow> Some (s\<lparr>sio_tmp := sio_nqueue s, sio_pc := At_store\<rparr>)
      | At_store \<Rightarrow> Some (s\<lparr>sio_nqueue := sio_tmp s - 1, sio_pc := At_test\<rparr>))"

text \<open>After the handler \<^verbatim>\<open>sigsuspend\<close> returns, with the signal blocked again.\<close>

definition after_signal :: "sigio \<Rightarrow> sigio" where
  "after_signal s = s\<lparr>sio_pc := if sio_pc s = At_suspend then At_test else sio_pc s\<rparr>"

inductive sio_step :: "(int + dgram) list \<Rightarrow> sigio \<Rightarrow> sigio \<Rightarrow> bool" where
  Arrive: "sio_step [d] s (s\<lparr>sio_kernel := sio_kernel s @ [d], sio_pending := True\<rparr>)"
| Deliver: "sio_pending s \<Longrightarrow> \<not> sio_blocked s \<Longrightarrow> sig_io (s\<lparr>sio_pending := False\<rparr>) = Inr t \<Longrightarrow> sio_step [] s (after_signal t)"
| Main: "sio_main s = Some t \<Longrightarrow> sio_step [] s t"

text \<open>The states after some datagrams have arrived.\<close>

inductive sio_reach :: "dgram list \<Rightarrow> (int + dgram) list \<Rightarrow> sigio \<Rightarrow> bool" for junk where
  Start: "sio_reach junk [] (sio_start junk)"
| Step: "sio_reach junk ds s \<Longrightarrow> sio_step es s t \<Longrightarrow> sio_reach junk (ds @ es) t"

section \<open>The queue\<close>

definition ring_items :: "dgram list \<Rightarrow> nat \<Rightarrow> nat \<Rightarrow> dgram list" where
  "ring_items dg i n = map (\<lambda>k. dg ! ((i + k) mod QSIZE)) [0..<n]"

definition cut_dg :: "dgram \<Rightarrow> dgram" where
  "cut_dg d = (take MAXDG (fst d), snd d)"

text \<open>The datagrams that are still to be sent: the first of them and their number.\<close>

definition sio_head :: "sigio \<Rightarrow> nat" where
  "sio_head s = (if sio_pc s = At_inc then sio_iget s + 1 else sio_iget s)"

definition sio_count :: "sigio \<Rightarrow> nat" where
  "sio_count s = (if sio_pc s \<in> {At_test, At_suspend, At_send} then sio_nqueue s else sio_nqueue s - 1)"

definition queued :: "sigio \<Rightarrow> dgram list" where
  "queued s = ring_items (sio_dg s) (sio_head s) (sio_count s)"

definition sio_ring_ok :: "sigio \<Rightarrow> bool" where
  "sio_ring_ok s \<longleftrightarrow> length (sio_dg s) = QSIZE \<and> sio_iget s < QSIZE \<and> sio_nqueue s < QSIZE \<and> (sio_pc s \<notin> {At_test, At_suspend} \<longrightarrow> 0 < sio_nqueue s) \<and>
     sio_iput s = (sio_head s + sio_count s) mod QSIZE"

lemma next_slot_mod: "i < QSIZE \<Longrightarrow> next_slot i = Suc i mod QSIZE"
  by (auto simp: next_slot_def mod_Suc)

lemma ring_items_mod: "ring_items dg (i mod QSIZE) n = ring_items dg i n"
  by (simp add: ring_items_def mod_add_left_eq)

lemma ring_items_Cons: "0 < n \<Longrightarrow> ring_items dg i n = dg ! (i mod QSIZE) # ring_items dg (Suc i) (n - 1)"
  by (cases n) (simp_all add: ring_items_def upt_conv_Cons map_Suc_upt [symmetric] o_def del: upt_Suc)

lemma ring_items_put:
  assumes "length dg = QSIZE" "n < QSIZE"
  shows "ring_items (dg[(i + n) mod QSIZE := d]) i (Suc n) = ring_items dg i n @ [d]"
proof -
  have "(i + n) mod QSIZE \<noteq> (i + k) mod QSIZE" if "k < n" for k
  proof
    assume "(i + n) mod QSIZE = (i + k) mod QSIZE"
    then have "QSIZE dvd (i + n) - (i + k)" by (metis mod_eq_dvd_iff_nat add_le_mono less_imp_le_nat order_refl that)
    then show False using that assms(2) by (auto dest: dvd_imp_le)
  qed
  moreover have "(i + n) mod QSIZE < QSIZE" by simp
  ultimately show ?thesis using assms(1) by (simp add: ring_items_def)
qed

lemma store_dg_ok:
  assumes "sio_ring_ok s" "Suc (sio_nqueue s) < QSIZE"
  shows "sio_ring_ok (store_dg d s)" "queued (store_dg d s) = queued s @ [cut_dg d]"
proof -
  have r: "length (sio_dg s) = QSIZE" "sio_iput s = (sio_head s + sio_count s) mod QSIZE" "sio_pc s \<notin> {At_test, At_suspend} \<longrightarrow> 0 < sio_nqueue s"
    using assms(1) by (simp_all add: sio_ring_ok_def)
  have h: "sio_head (store_dg d s) = sio_head s" "sio_count (store_dg d s) = Suc (sio_count s)" "sio_count s < QSIZE"
    using assms(2) r(3) by (auto simp: store_dg_def sio_head_def sio_count_def)
  have "sio_iput (store_dg d s) = Suc (sio_iput s) mod QSIZE" using r(2) by (simp add: store_dg_def next_slot_mod)
  also have "\<dots> = (sio_head s + Suc (sio_count s)) mod QSIZE" using r(2) by (simp add: mod_Suc_eq)
  finally have "sio_iput (store_dg d s) = (sio_head s + Suc (sio_count s)) mod QSIZE" .
  then show "sio_ring_ok (store_dg d s)" using assms unfolding sio_ring_ok_def h by (simp add: store_dg_def)
  show "queued (store_dg d s) = queued s @ [cut_dg d]"
    unfolding queued_def h using ring_items_put [OF r(1) h(3), of "sio_head s" "cut_dg d"] r(2) by (simp add: store_dg_def cut_dg_def)
qed

lemma sig_io_loop_ok:
  assumes "sig_io_loop ks n s = Inr (m, t)" "sio_ring_ok s"
  shows "\<exists>gs. ks = map Inr gs \<and> sio_ring_ok t \<and> queued t = queued s @ map cut_dg gs \<and> sio_kernel t = [] \<and> sio_out t = sio_out s \<and> sio_pc t = sio_pc s \<and> m = n + length gs \<and>
    sio_nqueue t = sio_nqueue s + length gs"
  using assms
proof (induction ks n s rule: sig_io_loop.induct)
  case (1 n s)
  then show ?case by (auto simp: sio_ring_ok_def queued_def sio_head_def sio_count_def split: if_splits)
next
  case (2 d ds n s)
  obtain g where g: "d = Inr g" "sio_nqueue s < QSIZE" "sig_io_loop ds (n + 1) (store_dg g s) = Inr (m, t)"
    using 2(2) by (auto split: if_splits sum.splits)
  have "Suc (sio_nqueue s) < QSIZE"
  proof (rule ccontr)
    assume "\<not> Suc (sio_nqueue s) < QSIZE"
    then have "sio_nqueue (store_dg g s) \<ge> QSIZE" by (simp add: store_dg_def)
    then show False using g(3) by (cases ds) auto
  qed
  note st = store_dg_ok [OF 2(3) this, of g]
  obtain gs where "ds = map Inr gs" "sio_ring_ok t" "queued t = queued (store_dg g s) @ map cut_dg gs" "sio_kernel t = []" "sio_out t = sio_out s" "sio_pc t = sio_pc s"
    "m = n + 1 + length gs" "sio_nqueue t = Suc (sio_nqueue s) + length gs"
    using 2(1) [OF _ g(1) g(3) st(1)] g(2) by (auto simp: store_dg_def)
  then show ?case using g(1) st(2) by (intro exI [of _ "g # gs"]) simp
qed

text \<open>A queue that would just be full is an overflow: the handler looks for room before it knows that nothing is left to read.\<close>

lemma sig_io_full:
  assumes "sio_kernel s = map Inr gs" "QSIZE \<le> sio_nqueue s + length gs"
  shows "sig_io s = Inl Receive_overflow"
proof -
  have "QSIZE \<le> sio_nqueue u + length gs \<Longrightarrow> sig_io_loop (map Inr gs) n u = Inl Receive_overflow" for n u
    by (induction gs arbitrary: n u) (auto simp: store_dg_def)
  then show ?thesis using assms by (simp add: sig_io_def)
qed

section \<open>Every datagram is sent back once\<close>

definition sio_inv :: "(int + dgram) list \<Rightarrow> sigio \<Rightarrow> bool" where
  "sio_inv ds s \<longleftrightarrow> sio_ring_ok s \<and> (sio_pc s = At_suspend \<longrightarrow> sio_nqueue s = 0) \<and> (sio_pc s = At_store \<longrightarrow> sio_tmp s = sio_nqueue s) \<and> (sio_kernel s \<noteq> [] \<longrightarrow> sio_pending s) \<and>
     (\<exists>gs. ds = map Inr gs @ sio_kernel s \<and> map cut_dg gs = sio_out s @ queued s)"

lemma sio_ring_ok_unseen [simp]:
  "sio_ring_ok (s\<lparr>sio_kernel := k\<rparr>) = sio_ring_ok s" "sio_ring_ok (s\<lparr>sio_pending := b\<rparr>) = sio_ring_ok s" "sio_ring_ok (s\<lparr>sio_cntread := c\<rparr>) = sio_ring_ok s" "sio_ring_ok (s\<lparr>sio_out := out\<rparr>) = sio_ring_ok s"
  "queued (s\<lparr>sio_kernel := k\<rparr>) = queued s" "queued (s\<lparr>sio_pending := b\<rparr>) = queued s" "queued (s\<lparr>sio_cntread := c\<rparr>) = queued s" "queued (s\<lparr>sio_out := out\<rparr>) = queued s"
  by (simp_all add: sio_ring_ok_def queued_def sio_head_def sio_count_def)

lemma sig_io_keeps:
  assumes "sio_inv ds s" "\<not> sio_blocked s" "sig_io (s\<lparr>sio_pending := False\<rparr>) = Inr t"
  shows "sio_inv ds (after_signal t)"
proof -
  have r: "sio_ring_ok s" using assms(1) by (simp add: sio_inv_def)
  obtain gs where gs: "ds = map Inr gs @ sio_kernel s" "map cut_dg gs = sio_out s @ queued s" using assms(1) by (auto simp: sio_inv_def)
  obtain n u where u: "sig_io_loop (sio_kernel s) 0 (s\<lparr>sio_pending := False\<rparr>) = Inr (n, u)" "t = u\<lparr>sio_cntread := (sio_cntread u)[n := sio_cntread u ! n + 1]\<rparr>"
    using assms(3) by (auto simp: sig_io_def andthen_Inr_iff)
  obtain hs where h: "sio_kernel s = map Inr hs" "sio_ring_ok u" "queued u = queued s @ map cut_dg hs" "sio_kernel u = []" "sio_out u = sio_out s" "sio_pc u = sio_pc s"
    using sig_io_loop_ok [OF u(1)] r by auto
  have "sio_ring_ok (after_signal t)" "queued (after_signal t) = queued u" "sio_kernel (after_signal t) = []" "sio_out (after_signal t) = sio_out s"
    "sio_pc (after_signal t) \<noteq> At_suspend" "sio_pc (after_signal t) \<noteq> At_store"
    using h assms(2) by (auto simp: u(2) after_signal_def sio_ring_ok_def queued_def sio_head_def sio_count_def sio_blocked_def)
  then show ?thesis unfolding sio_inv_def using gs h(1,3) by (auto intro!: exI [of _ "gs @ hs"])
qed

lemma main_keeps:
  assumes "sio_inv ds s" "sio_main s = Some t"
  shows "sio_inv ds t"
proof -
  have r: "sio_ring_ok s" using assms(1) by (simp add: sio_inv_def)
  have tmp: "sio_pc s = At_store \<Longrightarrow> sio_tmp s = sio_nqueue s" using assms(1) by (simp add: sio_inv_def)
  have k: "sio_ring_ok t \<and> (sio_pc t = At_suspend \<longrightarrow> sio_nqueue t = 0) \<and> (sio_pc t = At_store \<longrightarrow> sio_tmp t = sio_nqueue t) \<and> sio_kernel t = sio_kernel s \<and> sio_pending t = sio_pending s \<and> sio_out t @ queued t = sio_out s @ queued s"
  proof (cases "sio_pc s")
    case At_test
    then show ?thesis using r assms(2) by (auto simp: sio_main_def sio_ring_ok_def queued_def sio_head_def sio_count_def split: if_splits)
  next
    case At_send
    then have "0 < sio_nqueue s" "sio_iget s < QSIZE" using r by (simp_all add: sio_ring_ok_def)
    moreover have "t = s\<lparr>sio_out := sio_out s @ [sio_dg s ! sio_iget s], sio_pc := At_inc\<rparr>" using At_send assms(2) by (simp add: sio_main_def)
    ultimately show ?thesis using r At_send ring_items_Cons [of "sio_nqueue s" "sio_dg s" "sio_iget s"]
      by (simp add: sio_ring_ok_def queued_def sio_head_def sio_count_def)
  next
    case At_inc
    then have i: "next_slot (sio_iget s) = Suc (sio_iget s) mod QSIZE" using r by (simp add: sio_ring_ok_def next_slot_mod)
    have "t = s\<lparr>sio_iget := Suc (sio_iget s) mod QSIZE, sio_pc := At_block\<rparr>" using At_inc assms(2) i by (simp add: sio_main_def)
    moreover obtain c where "sio_nqueue s = Suc c" using r At_inc by (cases "sio_nqueue s") (auto simp: sio_ring_ok_def)
    ultimately show ?thesis using r At_inc by (simp add: sio_ring_ok_def queued_def sio_head_def sio_count_def ring_items_mod mod_add_left_eq)
  next
    case At_block
    then show ?thesis using r assms(2) by (auto simp: sio_main_def sio_ring_ok_def queued_def sio_head_def sio_count_def)
  next
    case At_load
    then show ?thesis using r assms(2) by (auto simp: sio_main_def sio_ring_ok_def queued_def sio_head_def sio_count_def)
  next
    case At_store
    then show ?thesis using r assms(2) tmp by (auto simp: sio_main_def sio_ring_ok_def queued_def sio_head_def sio_count_def)
  next
    case At_suspend
    then show ?thesis using assms(2) by (simp add: sio_main_def)
  qed
  then show ?thesis using assms(1) by (simp add: sio_inv_def)
qed

lemma sio_reach_inv: "sio_reach junk ds s \<Longrightarrow> length junk = QSIZE \<Longrightarrow> sio_inv ds s"
proof (induction rule: sio_reach.induct)
  case Start
  then show ?case by (simp add: sio_inv_def sio_start_def sio_ring_ok_def queued_def sio_head_def sio_count_def ring_items_def)
next
  case (Step ds s es t)
  from Step.hyps(2) show ?case
  proof cases
    case (Arrive d)
    then show ?thesis using Step.IH [OF Step.prems] by (auto simp: sio_inv_def)
  next
    case Deliver
    then show ?thesis using sig_io_keeps Step.IH [OF Step.prems] by auto
  next
    case Main
    then show ?thesis using main_keeps Step.IH [OF Step.prems] by auto
  qed
qed

text \<open>C28: In every interleaving of the main loop with the signal, the datagrams that were read are sent back in the order of their arrival, each once and to its own client; what is not yet sent is in
  the queue, and a datagram that waits at the socket has its signal on the way, so that the server is idle only when everything has been answered.\<close>

theorem sigio_echo_order:
  assumes "sio_reach junk ds s" "length junk = QSIZE"
  shows "\<exists>gs. ds = map Inr gs @ sio_kernel s \<and> map cut_dg gs = sio_out s @ queued s \<and> length (queued s) < QSIZE \<and>
    (sio_kernel s \<noteq> [] \<longrightarrow> sio_pending s) \<and> (sio_main s = None \<and> \<not> sio_pending s \<longrightarrow> ds = map Inr gs \<and> sio_out s = map cut_dg gs)"
proof -
  have i: "sio_inv ds s" by (rule sio_reach_inv [OF assms])
  then obtain gs where gs: "ds = map Inr gs @ sio_kernel s" "map cut_dg gs = sio_out s @ queued s" "sio_kernel s \<noteq> [] \<longrightarrow> sio_pending s" "sio_ring_ok s"
    by (auto simp: sio_inv_def)
  have "length (queued s) < QSIZE" using gs(4) by (auto simp: queued_def ring_items_def sio_count_def sio_ring_ok_def)
  moreover have "queued s = []" if "sio_main s = None" using that i by (auto simp: sio_inv_def sio_main_def queued_def ring_items_def sio_count_def split: sio_pc.splits)
  ultimately show ?thesis using gs by (intro exI [of _ gs]) auto
qed

definition example_dg :: dgram where "example_dg = (''hi'', 7)"

theorem sigio_echo_order_witness:
  "\<exists>s. sio_reach (replicate 8 ([], 0)) [Inr example_dg] s \<and> sio_main s = None \<and> sio_out s = [example_dg]"
proof -
  let ?j = "replicate 8 ([], 0) :: dgram list"
  let ?s0 = "(sio_start ?j)\<lparr>sio_pc := At_suspend\<rparr>"
  let ?s1 = "?s0\<lparr>sio_kernel := [Inr example_dg], sio_pending := True\<rparr>"
  let ?h = "(sio_start ?j)\<lparr>sio_dg := ?j[0 := example_dg], sio_nqueue := 1, sio_iput := 1, sio_cntread := [0, 1, 0, 0, 0, 0, 0, 0, 0], sio_pc := At_suspend\<rparr>"
  let ?s2 = "?h\<lparr>sio_pc := At_test\<rparr>"
  let ?s3 = "?s2\<lparr>sio_pc := At_send\<rparr>" and ?o = "sio_out ?s2 @ [example_dg]"
  let ?s4 = "?s2\<lparr>sio_pc := At_inc, sio_out := ?o\<rparr>"
  let ?s5 = "?s2\<lparr>sio_pc := At_block, sio_out := ?o, sio_iget := 1\<rparr>"
  let ?s6 = "?s5\<lparr>sio_pc := At_load\<rparr>" and ?s6' = "?s5\<lparr>sio_pc := At_store, sio_tmp := 1\<rparr>"
  let ?s7' = "?s5\<lparr>sio_pc := At_test, sio_nqueue := 0, sio_tmp := 1\<rparr>" and ?s7 = "?s5\<lparr>sio_pc := At_suspend, sio_nqueue := 0, sio_tmp := 1\<rparr>"
  have go: "sio_reach ?j ds t" if "sio_reach ?j ds s" "sio_main s = Some t" for ds s t using sio_reach.Step [OF that(1) sio_step.Main [OF that(2)]] by simp
  have "sio_reach ?j [] ?s0" by (rule go [OF sio_reach.Start]) (simp add: sio_main_def sio_start_def)
  moreover have "sio_step [Inr example_dg] ?s0 ?s1" using sio_step.Arrive [of "Inr example_dg" ?s0] by (simp add: sio_start_def)
  ultimately have r1: "sio_reach ?j ([] @ [Inr example_dg]) ?s1" by (rule sio_reach.Step)
  have d: "sig_io (?s1\<lparr>sio_pending := False\<rparr>) = Inr ?h" "\<not> sio_blocked ?s1" "after_signal ?h = ?s2" "sio_pending ?s1"
    by (simp_all add: sig_io_def sio_start_def store_dg_def next_slot_def example_dg_def sio_blocked_def after_signal_def eval_nat_numeral)
  have st: "sio_step [] ?s1 ?s2" using sio_step.Deliver [OF d(4,2,1)] unfolding d(3) .
  have r2: "sio_reach ?j (([] @ [Inr example_dg]) @ []) ?s2" by (rule sio_reach.Step [OF r1 st])
  have m: "sio_main ?s2 = Some ?s3" "sio_main ?s3 = Some ?s4" "sio_main ?s4 = Some ?s5" "sio_main ?s5 = Some ?s6" "sio_main ?s6 = Some ?s6'" "sio_main ?s6' = Some ?s7'" "sio_main ?s7' = Some ?s7"
    by (simp_all add: sio_main_def sio_start_def next_slot_def)
  have r7: "sio_reach ?j [Inr example_dg] ?s7" using go [OF go [OF go [OF go [OF go [OF go [OF go [OF r2 m(1)] m(2)] m(3)] m(4)] m(5)] m(6)] m(7)] by simp
  have e: "sio_main ?s7 = None" "\<not> sio_pending ?s7" by (simp_all add: sio_main_def sio_start_def)
  have "sio_out ?s7 = [example_dg]" using sigio_echo_order [OF r7] e by (auto simp: cut_dg_def example_dg_def)
  then show ?thesis using r7 e(1) by blast
qed

end
