(* ===== verification/Udp_File.thy ===== *)
theory Udp_File
  imports C_Bytes Inet_Addr
begin

unbundle bit_operations_syntax

text \<open>
  The file server over UDP, \<^verbatim>\<open>unpv13e/udpfileserv\<close>: \<^verbatim>\<open>server.c\<close> sends a file in encrypted blocks of 32 bytes, \<^verbatim>\<open>client.c\<close> decrypts and prints them.  The end of the file is a character with the
  value of \<^verbatim>\<open>EOF\<close>.  \<^verbatim>\<open>char\<close> is signed, so that \<^verbatim>\<open>EOF\<close> is the byte 0xFF.
\<close>

abbreviation (input) NET_BUF_SIZE :: nat where "NET_BUF_SIZE \<equiv> 32"
abbreviation (input) cipherKey :: byte where "cipherKey \<equiv> 0x53"
abbreviation (input) CH_EOF :: byte where "CH_EOF \<equiv> 0xFF"

definition nofile :: "byte list" where
  "nofile = [70, 105, 108, 101, 32, 78, 111, 116, 32, 70, 111, 117, 110, 100, 33]"

definition clearBuf :: "byte list" where
  "clearBuf = replicate NET_BUF_SIZE 0"

definition Cipher :: "byte \<Rightarrow> byte" where
  "Cipher ch = ch XOR cipherKey"

section \<open>The server\<close>

text \<open>\<open>fp\<close> is what has not been read of the file; \<open>k\<close> blocks of the buffer are left.  The result says whether the end was reached.\<close>

primrec sendFile_loop :: "nat \<Rightarrow> byte list \<Rightarrow> nat \<Rightarrow> byte list \<Rightarrow> bool \<times> byte list \<times> byte list" where
  "sendFile_loop 0 fp i buf = (False, buf, fp)"
| "sendFile_loop (Suc k) fp i buf =
     (let ch = (case fp of [] \<Rightarrow> CH_EOF | c # r \<Rightarrow> c); fp = tl fp; buf = buf[i := Cipher ch] in
      if ch = CH_EOF then (True, buf, fp) else sendFile_loop k fp (i + 1) buf)"

definition sendFile :: "byte list option \<Rightarrow> byte list \<Rightarrow> bool \<times> byte list \<times> byte list option" where
  "sendFile fp buf =
     (case fp of
        None \<Rightarrow> (True, map Cipher (nofile @ [CH_EOF]) @ drop (length nofile + 1) buf, None)
      | Some f \<Rightarrow> (case sendFile_loop NET_BUF_SIZE f 0 buf of (ret, buf, f) \<Rightarrow> (ret, buf, Some f)))"

lemma sendFile_loop_reads: "sendFile_loop k fp i buf = (False, buf', fp') \<Longrightarrow> fp' = drop k fp \<and> k \<le> length fp"
proof (induction k arbitrary: fp i buf)
  case (Suc k)
  then show ?case by (cases fp) (auto simp: Let_def split: if_splits)
qed simp

text \<open>The datagrams sent for one request.\<close>

function send_blocks :: "byte list option \<Rightarrow> byte list \<Rightarrow> byte list list" where
  "send_blocks fp buf =
     (case sendFile fp buf of (ret, buf, fp) \<Rightarrow> if ret then [buf] else buf # send_blocks fp clearBuf)"
  by auto
termination
  by (relation "measure (\<lambda>(fp, _). case fp of None \<Rightarrow> 0 | Some f \<Rightarrow> length f)")
    (auto simp: sendFile_def split: option.splits prod.splits dest!: sendFile_loop_reads)

declare send_blocks.simps [simp del]

text \<open>\<open>files\<close> is what \<^verbatim>\<open>fopen\<close> finds.\<close>

definition serve_request :: "(byte list \<rightharpoonup> byte list) \<Rightarrow> byte list \<Rightarrow> byte list list" where
  "serve_request files req =
     (let net_buf = take NET_BUF_SIZE req @ drop (length req) clearBuf
      in send_blocks (files (takeWhile (\<lambda>c. c \<noteq> 0) net_buf)) net_buf)"

section \<open>The client\<close>

fun recvFile :: "byte list \<Rightarrow> bool \<times> byte list" where
  "recvFile [] = (False, [])"
| "recvFile (c # buf) = (let ch = Cipher c in if ch = CH_EOF then (True, []) else map_prod id (Cons ch) (recvFile buf))"

text \<open>The text that is printed, and the datagrams that are left when the end was found; \<open>None\<close> while the client waits for more.\<close>

fun client_get :: "byte list list \<Rightarrow> byte list \<times> byte list list option" where
  "client_get [] = ([], None)"
| "client_get (d # ds) =
     (case recvFile (take NET_BUF_SIZE d @ drop (length d) clearBuf) of
        (True, out) \<Rightarrow> (out, Some ds)
      | (False, out) \<Rightarrow> map_prod ((@) out) id (client_get ds))"

definition file_request :: "byte list \<Rightarrow> byte list \<Rightarrow> byte list" where
  "file_request name net_buf = take NET_BUF_SIZE (name @ [0] @ drop (length name + 1) net_buf)"

section \<open>Transfers\<close>

lemma Cipher_Cipher [simp]: "Cipher (Cipher c) = c"
  by (simp add: Cipher_def xor.assoc)

definition no_eof :: "byte list \<Rightarrow> byte list" where
  "no_eof = takeWhile (\<lambda>c. c \<noteq> CH_EOF)"

lemma recvFile_map: "recvFile (map Cipher f @ rest) = (if CH_EOF \<in> set f then (True, no_eof f) else map_prod id ((@) f) (recvFile rest))"
  by (induction f) (auto simp: no_eof_def Let_def prod.map_comp o_def map_prod_def split: prod.split)

text \<open>A block, in which the position \<open>i\<close> has been reached.\<close>

lemma sendFile_block:
  assumes "length buf = i + k"
  shows "sendFile_loop k fp i buf =
    (if CH_EOF \<in> set (take k fp) \<or> length fp < k
     then (True, take i buf @ map Cipher (no_eof fp @ [CH_EOF]) @ drop (i + length (no_eof fp) + 1) buf, drop (length (no_eof fp) + 1) fp)
     else (False, take i buf @ map Cipher (take k fp), drop k fp))"
  using assms
proof (induction k arbitrary: fp i buf)
  case (Suc k)
  show ?case
  proof (cases fp)
    case Nil
    then show ?thesis using Suc.prems by (simp add: Let_def no_eof_def upd_conv_take_nth_drop)
  next
    case (Cons c r)
    have t: "take (Suc i) (buf[i := x]) = take i buf @ [x]" "drop (Suc i + m) (buf[i := x]) = drop (Suc i + m) buf" for x m
      using Suc.prems by (simp_all add: take_Suc_conv_app_nth)
    show ?thesis
    proof (cases "c = CH_EOF")
      case True
      then show ?thesis using Cons Suc.prems by (simp add: Let_def no_eof_def upd_conv_take_nth_drop)
    next
      case False
      then have "no_eof fp = c # no_eof r" using Cons by (simp add: no_eof_def)
      then show ?thesis using Suc.IH [of "buf[i := Cipher c]" "Suc i" r] Suc.prems False t Cons by (simp add: Let_def)
    qed
  qed
qed simp

lemma block_received:
  assumes "length buf = NET_BUF_SIZE"
  shows "sendFile (Some f) buf = (ret, buf', fp') \<Longrightarrow>
    length buf' = NET_BUF_SIZE \<and> (if ret then recvFile buf' = (True, no_eof f) else recvFile buf' = (False, take NET_BUF_SIZE f) \<and> fp' = Some (drop NET_BUF_SIZE f) \<and>
      NET_BUF_SIZE \<le> length f \<and> no_eof f = take NET_BUF_SIZE f @ no_eof (drop NET_BUF_SIZE f))"
proof -
  assume a: "sendFile (Some f) buf = (ret, buf', fp')"
  note b = sendFile_block [of buf 0 NET_BUF_SIZE f]
  show ?thesis
  proof (cases "CH_EOF \<in> set (take NET_BUF_SIZE f) \<or> length f < NET_BUF_SIZE")
    case True
    have e: "CH_EOF \<notin> set (no_eof f)" unfolding no_eof_def by (auto dest: set_takeWhileD)
    have "length (no_eof f) < NET_BUF_SIZE"
    proof (cases "length f < NET_BUF_SIZE")
      case True
      then show ?thesis using length_takeWhile_le [of "\<lambda>c. c \<noteq> CH_EOF" f] by (simp add: no_eof_def)
    next
      case False
      then have m: "CH_EOF \<in> set (take NET_BUF_SIZE f)" using True by blast
      then have "takeWhile (\<lambda>c. c \<noteq> CH_EOF) (take NET_BUF_SIZE f @ drop NET_BUF_SIZE f) = takeWhile (\<lambda>c. c \<noteq> CH_EOF) (take NET_BUF_SIZE f)"
        by (intro takeWhile_append1 [of CH_EOF]) simp_all
      then have "no_eof f = takeWhile (\<lambda>c. c \<noteq> CH_EOF) (take NET_BUF_SIZE f)" by (simp add: no_eof_def)
      moreover have "takeWhile (\<lambda>c. c \<noteq> CH_EOF) (take NET_BUF_SIZE f) \<noteq> take NET_BUF_SIZE f" using m by (simp add: takeWhile_eq_all_conv)
      moreover have "length xs < length (take NET_BUF_SIZE f)" if "xs = takeWhile (\<lambda>c. c \<noteq> CH_EOF) (take NET_BUF_SIZE f)" "xs \<noteq> take NET_BUF_SIZE f" for xs
        using that length_takeWhile_le [of "\<lambda>c. c \<noteq> CH_EOF" "take NET_BUF_SIZE f"] by (metis le_neq_implies_less order_refl takeWhile_eq_take take_all)
      ultimately show ?thesis by fastforce
    qed
    moreover have "no_eof (no_eof f @ [CH_EOF]) = no_eof f" by (induction f) (simp_all add: no_eof_def)
    ultimately show ?thesis using a True b assms recvFile_map [of "no_eof f @ [CH_EOF]"] by (auto simp: sendFile_def)
  next
    case False
    then have "no_eof f = take NET_BUF_SIZE f @ no_eof (drop NET_BUF_SIZE f)"
      using takeWhile_append2 [of "take NET_BUF_SIZE f" "\<lambda>c. c \<noteq> CH_EOF" "drop NET_BUF_SIZE f"] by (auto simp: no_eof_def)
    then show ?thesis using a False b assms recvFile_map [of "take NET_BUF_SIZE f" "[]"] by (auto simp: sendFile_def)
  qed
qed

lemma client_block: "length d = NET_BUF_SIZE \<Longrightarrow> client_get (d # ds) = (case recvFile d of (True, out) \<Rightarrow> (out, Some ds) | (False, out) \<Rightarrow> map_prod ((@) out) id (client_get ds))"
  by (simp add: clearBuf_def)

lemma file_received:
  "length buf = NET_BUF_SIZE \<Longrightarrow> client_get (send_blocks (Some f) buf @ rest) = (no_eof f, Some rest)"
proof (induction "length f" arbitrary: f buf rule: less_induct)
  case less
  obtain ret buf' fp' where s: "sendFile (Some f) buf = (ret, buf', fp')" by (cases "sendFile (Some f) buf")
  note b = block_received [OF less.prems s]
  show ?case
  proof (cases ret)
    case True
    then have "send_blocks (Some f) buf = [buf']" using s by (subst send_blocks.simps) simp
    then show ?thesis using client_block [of buf' rest] b True by simp
  next
    case False
    then have "send_blocks (Some f) buf = buf' # send_blocks (Some (drop NET_BUF_SIZE f)) clearBuf" using s b by (subst send_blocks.simps) simp
    moreover have "client_get (send_blocks (Some (drop NET_BUF_SIZE f)) clearBuf @ rest) = (no_eof (drop NET_BUF_SIZE f), Some rest)"
      by (rule less.hyps) (use b False in \<open>auto simp: clearBuf_def\<close>)
    ultimately show ?thesis using client_block [of buf' "send_blocks (Some (drop NET_BUF_SIZE f)) clearBuf @ rest"] b False by simp
  qed
qed

lemma nofile_received: "length buf = NET_BUF_SIZE \<Longrightarrow> client_get (send_blocks None buf @ rest) = (nofile, Some rest)"
proof -
  assume l: "length buf = NET_BUF_SIZE"
  have n: "no_eof (nofile @ [CH_EOF]) = nofile" "length nofile = 15" by (simp_all add: no_eof_def nofile_def)
  have "send_blocks None buf = [map Cipher (nofile @ [CH_EOF]) @ drop 16 buf]" using n(2) by (subst send_blocks.simps) (simp add: sendFile_def)
  then show ?thesis using l n client_block [of "map Cipher (nofile @ [CH_EOF]) @ drop 16 buf" rest] recvFile_map [of "nofile @ [CH_EOF]" "drop 16 buf"] by simp
qed

lemma request_name:
  assumes "0 \<notin> set name" "length name < NET_BUF_SIZE" "length net_buf = NET_BUF_SIZE"
  shows "length (file_request name net_buf) = NET_BUF_SIZE" "takeWhile (\<lambda>c. c \<noteq> 0) (file_request name net_buf) = name"
proof -
  have "takeWhile (\<lambda>c. c \<noteq> 0) (name @ ys) = name @ takeWhile (\<lambda>c. c \<noteq> 0) ys" for ys using assms(1) by (intro takeWhile_append2) auto
  then show "length (file_request name net_buf) = NET_BUF_SIZE" "takeWhile (\<lambda>c. c \<noteq> 0) (file_request name net_buf) = name" using assms(2,3) by (simp_all add: file_request_def)
qed

text \<open>C22: When the network delivers the datagrams in order, the client prints the file it asked for up to the first byte 0xFF, that is all of a file without that byte, or the text
  that there is no such file; it finds the end in the last datagram of the answer, so that the next answer starts with the next request.  This holds for files of every length, those
  that fill their last block included.\<close>

theorem udp_file_transfer:
  assumes "0 \<notin> set name" "length name < NET_BUF_SIZE" "length net_buf = NET_BUF_SIZE"
  shows "client_get (serve_request files (file_request name net_buf) @ rest) = (case files name of None \<Rightarrow> nofile | Some f \<Rightarrow> takeWhile (\<lambda>c. c \<noteq> CH_EOF) f, Some rest) \<and>
    (\<forall>f. files name = Some f \<and> CH_EOF \<notin> set f \<longrightarrow> client_get (serve_request files (file_request name net_buf)) = (f, Some []))"
proof -
  note r = request_name [OF assms]
  have s: "serve_request files (file_request name net_buf) = send_blocks (files name) (file_request name net_buf)"
    using r by (simp add: serve_request_def clearBuf_def)
  have "client_get (serve_request files (file_request name net_buf) @ rest') = (case files name of None \<Rightarrow> nofile | Some f \<Rightarrow> takeWhile (\<lambda>c. c \<noteq> CH_EOF) f, Some rest')" for rest'
    unfolding s using nofile_received [OF r(1)] file_received [OF r(1)] by (cases "files name") (simp_all add: no_eof_def)
  from this [of rest] this [of "[]"] show ?thesis by (auto simp: takeWhile_eq_all_conv)
qed

definition example_files :: "byte list \<rightharpoonup> byte list" where
  "example_files = [[97] \<mapsto> replicate 32 7 @ [104, 105]]"

theorem udp_file_transfer_witness:
  "client_get (serve_request example_files (file_request [97] clearBuf)) = (replicate 32 7 @ [104, 105], Some [])"
proof -
  have "0 \<notin> set [97 :: byte]" "length [97 :: byte] < NET_BUF_SIZE" "length clearBuf = NET_BUF_SIZE" "example_files [97] = Some (replicate 32 7 @ [104, 105])"
    "CH_EOF \<notin> set (replicate 32 7 @ [104, 105 :: byte])"
    by (simp_all add: clearBuf_def example_files_def)
  with udp_file_transfer [of "[97]" clearBuf example_files "[]"] show ?thesis by blast
qed

text \<open>A byte 0xFF in a file ends the transfer, and the rest of the file is not sent.\<close>

lemma byte_ff_cuts: "client_get (send_blocks (Some [1, 0xFF, 2]) clearBuf) = ([1], Some [])"
  using file_received [of clearBuf "[1, 0xFF, 2]" "[]"] by (simp add: clearBuf_def no_eof_def)

end
