(* ===== verification/Spec2Isabelle.thy ===== *)
theory Spec2Isabelle
  imports Db_Errors Rwlock_Queue Printd_Printer Print_Client Gai_Props Memstream In_Cksum
    Foo_Threads Opend_Fork Merge_Sort Web_Child Full_Transfer Echo_Client Echo_Servers Server_Pool
    Thread_Pool Web_Threads Libgai_Props Trace_Route Ftw Popen Thread_Control
    Udp_Cksum Icmp_Daemon Sock_Copy Dg_Reliable Sntp Sigio_Echo Udp_File
begin

text \<open>
  \<^bold>\<open>A verification development for the C programs of the repository.\<close>

  The C part of the repository (\<^verbatim>\<open>src/c/edu\<close>) holds the programs and libraries of two books on
  Unix programming, \<^verbatim>\<open>apue.3e\<close> and \<^verbatim>\<open>unpv13e\<close>.  Most of it is short programs that each
  show one system call.  The development models the parts that have a logic of their own: a
  key-value database, a print spooler, an open server, the name and address functions of the
  network library, clients and servers with several connections, protocols over datagrams, and the data structures that
  threads and signal handlers share.

  \<^bold>\<open>How the code is modelled.\<close>  A structure is a record with the fields of the source, and the
  globals of a program are the fields of one state record.  A function that changes state takes
  it and returns it.  A function that may end the program or that runs into behaviour which C
  leaves undefined returns a value of a sum type with an error on the left (\<open>andthen\<close> of
  \<^verbatim>\<open>C_Prelude\<close> runs the next statement).  A loop is a recursive function; one that may not end is
  a \<^verbatim>\<open>partial_function (option)\<close> whose value \<open>None\<close> means that it does not return, and the
  theorems show that it does where they say so.  No model uses fuel.  Pointers are optional
  addresses into a heap that is a function from addresses; \<^verbatim>\<open>malloc\<close> fails at a limit that is part
  of the state.  Bytes of files and buffers are lists of characters (type \<open>cbuf\<close>) or of 8-bit words; integers have their
  width where the code depends on it (hash values, job numbers, network order, checksums,
  conversions between \<^verbatim>\<open>size_t\<close> and \<^verbatim>\<open>int\<close>).  What reading a descriptor will meet (bytes in pieces,
  timeouts, errors) is a list of events that is given.  Code under a mutex or a lock is one step, and
  a thread that releases a lock in the middle of its round does so in the model.
  Library functions that are not in the repository are arguments, and what a theorem needs of
  them is one of its hypotheses.

  \<^bold>\<open>Shared theories.\<close>  \<^verbatim>\<open>C_Prelude\<close>: outcomes, C strings, decimal numbers, bytes of files, and the
  collections \<open>clib\<close> and \<open>layout\<close>.  \<^verbatim>\<open>Posix_File\<close>: \<^verbatim>\<open>lseek\<close>, \<^verbatim>\<open>read\<close>, \<^verbatim>\<open>write\<close> and record locks on a
  file.  \<^verbatim>\<open>C_Bytes\<close>: integers as bytes of a little-endian memory and in network order.  \<^verbatim>\<open>Dlink\<close>: doubly
  linked lists with head and tail pointers, and the contract of a queue of addresses, the locale
  \<open>linked_queue\<close>, which the two job queues interpret.  \<^verbatim>\<open>Counted_Scan\<close>: the loop over an array that ends when as many
  entries have been served as \<^verbatim>\<open>select\<close> has counted, with the locale \<open>one_by_one\<close>.  \<^verbatim>\<open>Fd_Slots\<close>: the array of descriptors of a server, in which
  a new connection gets the first free entry.

  \<^bold>\<open>The database\<close>, \<^verbatim>\<open>apue.3e/db/db.c\<close>.  \<^verbatim>\<open>Db_Model\<close> has one definition for each function (\<open>db_open\<close>,
  \<open>db_fetch\<close>, \<open>db_store\<close>, \<open>db_delete\<close>, \<open>db_rewind\<close>, \<open>db_nextrec\<close>, \<open>db_close\<close> and the internal ones), on
  the bytes of the index and the data file.  \<^verbatim>\<open>Db_Layout\<close> describes a list of slots as these bytes,
  \<^verbatim>\<open>Db_Bytes\<close> the single reads and writes, \<^verbatim>\<open>Db_Chains\<close> the hash chains and the free list, \<^verbatim>\<open>Db_Access\<close> the
  search loops, \<^verbatim>\<open>Db_Refine\<close>, \<^verbatim>\<open>Db_Delete\<close>, \<^verbatim>\<open>Db_Store\<close> and \<^verbatim>\<open>Db_Scan\<close> the operations as operations on a
  map from keys to data.  \<^verbatim>\<open>Kv_Interface\<close> is the contract of such a store as a locale, with the lemmas
  a client needs; \<^verbatim>\<open>Db_Client\<close> interprets it by the database, states the properties and models the
  client \<^verbatim>\<open>t4.c\<close>.  \<^verbatim>\<open>Db_Errors\<close> treats damaged files and keys with a separator.

  \<^bold>\<open>The print spooler\<close>, \<^verbatim>\<open>apue.3e/printer\<close>.  \<^verbatim>\<open>Print_Util\<close>: timed reads and the configuration file
  (\<^verbatim>\<open>util.c\<close>).  \<^verbatim>\<open>Printd_Model\<close>: the state of the daemon (\<^verbatim>\<open>printd.c\<close>), its queue, its job numbers, its
  workers and the thread of a client.  \<^verbatim>\<open>Printd_Jobs\<close>: the linked list of jobs is a queue; job numbers.
  \<^verbatim>\<open>Printd_Spool\<close>: what accepted and refused clients leave in the spool directory, and the restart.
  \<^verbatim>\<open>Printd_Printer\<close>: the printer's thread (a job is taken from the queue under the lock, and the other threads work while it is printed), the IPP request it builds and the analysis of the response.
  \<^verbatim>\<open>Print_Client\<close>: the command \<^verbatim>\<open>print\<close>; the theorem of this theory joins it with the daemon.

  \<^bold>\<open>The open server\<close>, \<^verbatim>\<open>apue.3e/ipc2/opend\<close>.  \<^verbatim>\<open>Opend_Model\<close>: the array of clients, the requests and both
  versions of the loop.  \<^verbatim>\<open>Opend_Props\<close>: the array as a map (the locale \<open>fd_table\<close>, interpreted for
  both versions), an abstract server as a step relation, and the simulation by the version with
  \<^verbatim>\<open>select\<close>; the version with \<^verbatim>\<open>poll\<close> confuses the users.  \<^verbatim>\<open>Fd_Passing\<close>: \<^verbatim>\<open>send_fd\<close> and \<^verbatim>\<open>recv_ufd\<close>
  (\<^verbatim>\<open>ipc2/sendfd2.c\<close>, \<^verbatim>\<open>recvfd2.c\<close>) and the client function \<^verbatim>\<open>csopen\<close>, joined with the server.  \<^verbatim>\<open>Opend_Fork\<close>: the server that a client
  starts for itself (\<^verbatim>\<open>ipc2/opend.fe\<close>).

  \<^bold>\<open>Names and addresses\<close>, \<^verbatim>\<open>unpv13e/libfree\<close>.  \<^verbatim>\<open>Inet_Addr\<close> and \<^verbatim>\<open>Inet_Addr6\<close>: the conversions
  \<^verbatim>\<open>inet_pton\<close>, \<^verbatim>\<open>inet_ntop\<close> and \<^verbatim>\<open>inet_aton\<close>, with a grammar of dotted quads and the round trips.
  \<^verbatim>\<open>Gai_Model\<close> and \<^verbatim>\<open>Gai_Props\<close>: \<^verbatim>\<open>getaddrinfo\<close> with every allocation that may fail, and
  \<^verbatim>\<open>getnameinfo\<close>; the resolver of the system is an argument.  \<^verbatim>\<open>Libgai_Model\<close> and \<^verbatim>\<open>Libgai_Props\<close>: the second implementation of
  both, \<^verbatim>\<open>unpv13e/libgai\<close>.  \<^verbatim>\<open>In_Cksum\<close>: the Internet checksum.

  \<^bold>\<open>Echo requests and routes\<close>, \<^verbatim>\<open>unpv13e/ping\<close> and \<^verbatim>\<open>traceroute\<close>.  \<^verbatim>\<open>Ping\<close>: the packets with the checksum of \<^verbatim>\<open>In_Cksum\<close>, their
  evaluation and the loop; the locale \<open>echo_protocol\<close> is interpreted for IPv4 and IPv6.  The packets that arrive are described by their layout (\<open>ip4_header\<close>, \<open>ip6_header\<close>), apart from the code that
  takes them to pieces, here and in the next theories.  \<^verbatim>\<open>Trace_Route\<close>: the search for the answer to
  a probe and the loops over hops and probes; the locale \<open>probe_receiver\<close> is interpreted for both protocols.

  \<^bold>\<open>Datagrams\<close>, \<^verbatim>\<open>unpv13e\<close>.  \<^verbatim>\<open>Udp_Cksum\<close>: the datagrams with checksum that \<^verbatim>\<open>udpcksum\<close> builds, its tests of received ones and its three attempts.  \<^verbatim>\<open>Icmp_Daemon\<close>: the
  daemon \<^verbatim>\<open>icmpd\<close>, which tells clients about errors for their ports; the locale \<open>port_registry\<close> says what its clients rely on, and the inductive predicates \<open>received_v4\<close> and \<open>received_v6\<close> which errors a packet reports.  \<^verbatim>\<open>Dg_Reliable\<close>: sequence
  numbers and retransmission (\<^verbatim>\<open>rtt\<close>) over a network that loses, repeats and reorders.  \<^verbatim>\<open>Sntp\<close>: the difference of two clocks (\<^verbatim>\<open>ssntp/sntp_proc.c\<close>).
  \<^verbatim>\<open>Sigio_Echo\<close>: the echo server whose signal handler reads into a queue (\<^verbatim>\<open>sigio/dgecho01.c\<close>), with the interleavings of handler and main loop as a step
  relation.  \<^verbatim>\<open>Udp_File\<close>: the file server \<^verbatim>\<open>udpfileserv\<close> and its client.

  \<^bold>\<open>Clients and servers\<close>, \<^verbatim>\<open>unpv13e\<close>.  \<^verbatim>\<open>Echo_Client\<close>: the echo client with nonblocking calls (\<^verbatim>\<open>nonblock/strclinonb.c\<close>) and with
  \<^verbatim>\<open>select\<close>.  \<^verbatim>\<open>Echo_Server_Model\<close> and \<^verbatim>\<open>Echo_Servers\<close>: the echo servers with \<^verbatim>\<open>select\<close> and \<^verbatim>\<open>poll\<close> (\<^verbatim>\<open>tcpcliserv\<close>) as implementations of one abstract
  server, the locale \<open>echo_server\<close>.  \<^verbatim>\<open>Web_Client\<close> and \<^verbatim>\<open>Web_Threads\<close>: the web clients with nonblocking calls and with threads, which wait for each other with a condition variable (signals that nobody waits for are lost, and there are wake-ups without a signal).
  \<^verbatim>\<open>Server_Pool\<close>: a parent that passes connections to its children (\<^verbatim>\<open>server/serv05.c\<close>).  \<^verbatim>\<open>Thread_Pool\<close>: the circular array between
  the main thread and a pool of threads (\<^verbatim>\<open>server/serv08.c\<close>), with the locale \<open>bounded_queue\<close>.  \<^verbatim>\<open>Web_Child\<close>: what children and
  threads do with a connection.  \<^verbatim>\<open>Sock_Copy\<close>: the TCP loop, the source and the sink of \<^verbatim>\<open>sock\<close>, with line ends and writing in chunks.

  \<^bold>\<open>Threads\<close>, \<^verbatim>\<open>apue.3e/threads\<close>.  \<^verbatim>\<open>Rwlock_Queue\<close>: the job queue under a reader-writer lock
  (\<^verbatim>\<open>rwlock.c\<close>).  \<^verbatim>\<open>Foo_Table\<close> and \<^verbatim>\<open>Foo_Threads\<close>: the table of reference-counted objects
  (\<^verbatim>\<open>mutex2.c\<close>, \<^verbatim>\<open>mutex3.c\<close>); the locale \<open>refcounted\<close> is what both promise, and the interleavings of
  \<^verbatim>\<open>mutex2.c\<close> are a step relation with an invariant.  \<^verbatim>\<open>Merge_Sort\<close>: the parallel sort of
  \<^verbatim>\<open>barrier.c\<close>.  \<^verbatim>\<open>Thread_Control\<close>: the versions of \<^verbatim>\<open>getenv\<close> and the delayed calls of \<^verbatim>\<open>apue.3e/threadctl\<close>.

  \<^bold>\<open>Processes and files\<close>, \<^verbatim>\<open>apue.3e\<close>.  \<^verbatim>\<open>Popen\<close>: \<^verbatim>\<open>popen\<close> and \<^verbatim>\<open>pclose\<close> (\<^verbatim>\<open>ipc1/popen.c\<close>) as a map from streams to processes, the locale
  \<open>process_streams\<close>.  \<^verbatim>\<open>Ftw\<close>: the walk through a file hierarchy (\<^verbatim>\<open>filedir/ftw8.c\<close>).

  \<^bold>\<open>Streams.\<close>  \<^verbatim>\<open>Memstream\<close>: the memory streams of \<^verbatim>\<open>apue.3e/exercises/fmemopen.c\<close> as files of bounded
  size.  \<^verbatim>\<open>Readline\<close>: three versions of \<^verbatim>\<open>readline\<close> of \<^verbatim>\<open>unpv13e\<close>, compared through the locale
  \<open>char_source\<close>.  \<^verbatim>\<open>Full_Transfer\<close>: the functions that read or write all of a buffer, of three programs, with the locales \<open>full_reader\<close> and
  \<open>full_writer\<close>.

  \<^bold>\<open>What the theorems show.\<close>  The database, the queues, the open server, the echo servers, the nonblocking echo client and the memory streams
  refine a map, a list, a server with a map, a set of connections, a relay of two streams, and a file.  Round trips hold for closing and opening the
  database, descriptors sent to another process, blocks written and read in pieces, and IPv4 and IPv6 addresses with their names.  Invariants hold for the memory
  streams, the allocations of both versions of \<^verbatim>\<open>getaddrinfo\<close>, the reference counts, and every interleaving of the web clients and of the pools of
  processes and threads.  Loops that wait for events return (\<^verbatim>\<open>web_child\<close>, \<^verbatim>\<open>traceloop\<close>, \<^verbatim>\<open>web01\<close>), and for \<^verbatim>\<open>web03\<close> the only state in which it hangs is
  described.  Ping prints a report for each answer, with its number and time, and nothing for packets that are not meant for it, and traceroute prints the route that answers, among messages
  for other datagrams.  A job that the printer's thread has taken is printed and removed, put back or cancelled, according to what the printer answers.  The walk through a finite hierarchy ends and
  counts every file; the stream of \<^verbatim>\<open>popen\<close> is the right end of the pipe, and \<^verbatim>\<open>pclose\<close> waits for the process of its stream.  What \<^verbatim>\<open>udp_write\<close> sends passes both checksums; the ICMP daemon reports an error to the clients of
  the port and to no others; \<^verbatim>\<open>sock\<close> copies both streams at once, with the conversion of line ends, and fails only where that is said; the reliable client prints each of its lines once and in order, or
  gives up; the difference of clocks is right while it fits the type; the server with the signal handler sends back what it has read in order, in every interleaving; and the file server's client
  prints the file.  Error paths are part of
  every operation; refused print jobs and damaged index files have theorems of their own.
  Where the code does not do what it is for, a lemma shows it: keys with a separator, printer responses cut
  in a certain place, workers that are lost, the
  space check of \<^verbatim>\<open>inet_ntop4\<close>, \<^verbatim>\<open>::\<close> in a full IPv6 address, the early errors of \<^verbatim>\<open>getaddrinfo\<close>, the name that \<^verbatim>\<open>libgai\<close> leaks, the users of the
  loop with \<^verbatim>\<open>poll\<close>, the entries of the echo server that were never polled, a status byte that arrives alone, \<^verbatim>\<open>LONG_MAX\<close> in the merge, the counts
  and the buffer of \<^verbatim>\<open>readline\<close>, the error of \<^verbatim>\<open>write\<close> in \<^verbatim>\<open>sock\<close>, the join of \<^verbatim>\<open>web03\<close>, process numbers above 65535 in \<^verbatim>\<open>ping\<close>, the messages
  that \<^verbatim>\<open>recv_v6\<close> takes for answers, the pipe that \<^verbatim>\<open>popen\<close> leaves open when \<^verbatim>\<open>fork\<close> fails, the missing null byte in \<^verbatim>\<open>getenv3\<close>, negative lengths and IP options in
  \<^verbatim>\<open>udp_check\<close>, registrations of clients that have gone in \<^verbatim>\<open>icmpd\<close>, a full buffer in \<^verbatim>\<open>crlf_strip\<close>, long lines in the echo server of \<^verbatim>\<open>rtt\<close>, clocks an hour
  apart in \<^verbatim>\<open>sntp_proc\<close>, the eighth datagram in the queue of \<^verbatim>\<open>sig_io\<close>, and the byte 0xFF in a file.

  \<^bold>\<open>Not modelled.\<close>  \<^verbatim>\<open>main\<close> of \<^verbatim>\<open>printd\<close>, \<^verbatim>\<open>print\<close>, \<^verbatim>\<open>opend\<close>, \<^verbatim>\<open>ping\<close>, \<^verbatim>\<open>traceroute\<close>, \<^verbatim>\<open>sock\<close> and \<^verbatim>\<open>udpcksum\<close> (options, sockets, daemon set-up): a row of calls whose
  effect is in the kernel.  Programs that only show system calls (processes, signals, terminals, pseudo terminals, sockets, out-of-band data, multicast, SCTP, routing
  and key sockets): they keep no state of their own.  Servers with one process or thread for each connection, whose loop is one call of a function that is modelled elsewhere.  The UDP loops and the
  socket options of \<^verbatim>\<open>sock\<close>; \<^verbatim>\<open>bsdping.c\<close> and \<^verbatim>\<open>libgai/old\<close>, which are copies of other programs; the estimator of \<^verbatim>\<open>rtt\<close>, whose source is not in the repository; the ncurses tutorial,
  which draws on the screen; and the parts in other languages.  In the parts that are modelled: the access mode and the permissions of the files of the database, its failing allocations and its failing \<^verbatim>\<open>fstat\<close>, and the undefined result of a
  \<^verbatim>\<open>sprintf\<close> of the index buffer into itself, which is taken to leave the key as it is; the signal between \<^verbatim>\<open>alarm\<close> and \<^verbatim>\<open>sigsetjmp\<close> in \<^verbatim>\<open>rtt\<close>; memory streams that are open for appending and reading at once have
  no refinement theorem.  Concurrency is modelled at the grain of critical sections and of single steps between signals; the memory model of the hardware,
  real time and the contents of the log are not modelled (the open server's log calls are).
\<close>

section \<open>From the command to the queue\<close>

text \<open>C7: A file that is printed while the daemon has room for it arrives: whatever way the
  connection cuts up what \<^verbatim>\<open>submit_file\<close> sends, the daemon's thread stores exactly the contents of
  the file, queues a job under the next number with the size and the name of the file, and the
  command, however the response is cut up, prints that number.\<close>

theorem print_job_spooled:
  assumes doc: "c_in fd = map Bytes blocks" "[] \<notin> set blocks" "nbytes = length (concat blocks)"
    and client: "length ujunk = USERNM_MAX" "length jjunk = JOBNM_MAX" "c_string fname"
      "c_out cl = []" "REQ_SIZE + length (concat blocks) \<le> c_room cl"
    and net: "concat segs = req_bytes (build_header pw ujunk jjunk fname nbytes txt) @ concat blocks" "[] \<notin> set segs"
      "c_in sv = map Bytes segs @ [Timeout]" "c_out sv = []" "RESP_SIZE \<le> c_room sv"
    and daemon: "pending d q" "fs_deny d = (\<lambda>_. None)" "pd_brk d < pd_limit d"
      "length (concat blocks) \<le> fs_room d (data_name (dec32 (nextjob d)))" "REQ_SIZE \<le> fs_room d (req_name (dec32 (nextjob d)))"
  shows "\<exists>sv' d' req. client_body strerror junk sv d = Inr (0, sv', d') \<and>
    spool d' (data_name (dec32 (nextjob d))) = Some (concat blocks) \<and>
    pending d' (q @ [(nextjob d, req)]) \<and> pr_size req = word_of_nat nbytes \<and> cstr (pr_jobnm req) = job_name fname \<and>
    (\<forall>reply. concat reply = c_out sv' \<and> [] \<notin> set reply \<longrightarrow>
      (\<exists>cl'. submit_file pw ujunk jjunk fd (cl\<lparr>c_in := map Bytes reply\<rparr>) fname nbytes txt = Inr (Job_ID (uint (nextjob d)), cl') \<and>
        c_out cl' = concat segs))"
proof -
  let ?r = "build_header pw ujunk jjunk fname nbytes txt"
  have ok: "req_ok ?r" and l: "length (req_bytes ?r) = REQ_SIZE"
    using header_ok [OF client(1,2)] length_req_bytes by blast+
  have seg: "\<forall>b \<in> set segs. b \<noteq> []" using net(2) by auto
  obtain c1 segs' where t: "treadn sv REQ_SIZE = (Rd (req_bytes ?r), c1)" "c_in c1 = map Bytes segs' @ [Timeout]"
    "\<forall>b \<in> set segs'. b \<noteq> []" "concat segs' = concat blocks" "c_out c1 = []" "RESP_SIZE \<le> c_room c1"
    using treadn_loop_ok [OF net(3) seg, of REQ_SIZE REQ_SIZE "[]"] net(1,4,5) l unfolding treadn_def by auto
  have p: "payload (map Bytes ss @ [Timeout]) = concat ss" if "\<forall>b \<in> set ss. b \<noteq> []" for ss
    using that by (induction ss) auto
  then have pay: "payload (c_in c1) = concat blocks" using t by simp
  obtain c' c3 d' req where a: "client_body strerror junk sv d = Inr (0, c', d')"
    "spool d' = (spool d)(data_name (dec32 (nextjob d)) \<mapsto> payload (c_in c1), req_name (dec32 (nextjob d)) \<mapsto> req_bytes req)"
    "pending d' (q @ [(nextjob d, req)])" "pr_size req = ntohl (get32 (req_bytes ?r))" "pr_jobnm req = pr_jobnm (req_of (req_bytes ?r))"
    "c' = snd (cwrite c3 (accept_reply (nextjob d)))" "c_out c3 = c_out c1" "c_room c3 = c_room c1"
    using client_accepts [OF daemon(1) t(1) l daemon(2,3) _ daemon(5)] pay daemon(4) by metis
  have out: "c_out c' = accept_reply (nextjob d)"
    using a(6,7,8) t(5,6) cwrite_fits [of "accept_reply (nextjob d)" c3] accept_reply_fields(1) by simp
  have sub: "\<exists>cl'. submit_file pw ujunk jjunk fd (cl\<lparr>c_in := map Bytes reply\<rparr>) fname nbytes txt = Inr (Job_ID (uint (nextjob d)), cl') \<and>
      c_out cl' = concat segs" if "concat reply = c_out c' \<and> [] \<notin> set reply" for reply
    using submit_file_ok [OF doc(1,2) client(1,2), of "cl\<lparr>c_in := map Bytes reply\<rparr>" reply "nextjob d" pw fname nbytes "txt"] client(4,5) out that net(1)
    by simp
  moreover have "get32 (req_bytes ?r) = htonl (word_of_nat nbytes)" by (simp add: req_bytes_def build_header_def)
  moreover note header_names(1) [OF client(1,3) c_string_Nil]
  ultimately have "spool d' (data_name (dec32 (nextjob d))) = Some (concat blocks) \<and> pr_size req = word_of_nat nbytes \<and>
      cstr (pr_jobnm req) = job_name fname"
    using a(2,4,5) pay req_of_bytes [OF ok] by simp
  then show ?thesis using a(1,3) sub by blast
qed

definition example_req :: printreq where
  "example_req = build_header None (replicate 64 NUL) (replicate 256 NUL) ''notes.txt'' 2 True"

definition example_sv :: conn where
  "example_sv = \<lparr>c_in = [Bytes (req_bytes example_req @ ''h''), Bytes ''i'', Timeout], c_out = [], c_room = 1000\<rparr>"

theorem print_job_spooled_witness:
  "\<exists>sv' d' req. client_body (\<lambda>_. []) [] example_sv printd0 = Inr (0, sv', d') \<and>
    spool d' (data_name (dec32 1)) = Some ''hi'' \<and> pending d' [(1, req)] \<and> cstr (pr_jobnm req) = ''notes.txt'' \<and>
    (\<forall>reply. concat reply = c_out sv' \<and> [] \<notin> set reply \<longrightarrow>
      (\<exists>cl'. submit_file None (replicate 64 NUL) (replicate 256 NUL) \<lparr>c_in = [Bytes ''hi''], c_out = [], c_room = 0\<rparr>
        \<lparr>c_in = map Bytes reply, c_out = [], c_room = 1000\<rparr> ''notes.txt'' 2 True = Inr (Job_ID 1, cl')))"
proof -
  let ?cl = "\<lparr>c_in = [], c_out = [], c_room = 1000\<rparr>"
  have n: "nextjob printd0 = 1" "fs_deny printd0 = (\<lambda>_. None)" "pd_brk printd0 < pd_limit printd0" "\<And>n. fs_room printd0 n = 100000"
    by (simp_all add: printd0_def)
  have j: "job_name ''notes.txt'' = ''notes.txt''" by (simp add: job_name_def)
  have "\<exists>sv' d' req. client_body (\<lambda>_. []) [] example_sv printd0 = Inr (0, sv', d') \<and>
    spool d' (data_name (dec32 (nextjob printd0))) = Some (concat [''hi'']) \<and>
    pending d' ([] @ [(nextjob printd0, req)]) \<and> pr_size req = word_of_nat 2 \<and> cstr (pr_jobnm req) = job_name ''notes.txt'' \<and>
    (\<forall>reply. concat reply = c_out sv' \<and> [] \<notin> set reply \<longrightarrow>
      (\<exists>cl'. submit_file None (replicate 64 NUL) (replicate 256 NUL) \<lparr>c_in = [Bytes ''hi''], c_out = [], c_room = 0\<rparr>
        (?cl\<lparr>c_in := map Bytes reply\<rparr>) ''notes.txt'' 2 True = Inr (Job_ID (uint (nextjob printd0)), cl') \<and>
      c_out cl' = concat [req_bytes example_req @ ''h'', ''i'']))"
    by (rule print_job_spooled) (simp_all add: example_sv_def example_req_def n pending_printd0)
  then show ?thesis unfolding n(1) j by fastforce
qed

end
